(* ===== verification/Prelude.thy ===== *)
theory Prelude
  imports Main "HOL-Library.Word"
begin

text \<open>
  Shared vocabulary of the development: the machine types of the C++ sources
  (\<open>byte_type\<close>, \<open>uint32_t\<close>, \<open>uint64_t\<close>, \<open>doc_id_t\<close>), the named collections of rewrite
  rules that the component theories extend, and generic facts on lists, words and
  ordered sets of naturals that several components need.
\<close>

unbundle bit_operations_syntax

section \<open>Machine types\<close>

type_synonym u8 = "8 word"
type_synonym u16 = "16 word"
type_synonym u32 = "32 word"
type_synonym u64 = "64 word"

section \<open>Collections of rewrite rules\<close>

named_theorems stream_simps \<open>bit stream view of an array of machine words\<close>
named_theorems codec_simps \<open>encoders and decoders of single values\<close>
named_theorems iter_simps \<open>document iterators\<close>

section \<open>Words\<close>

lemma word_mod_two_power [simp]: "(x :: 'a::len word) mod 2 ^ n = take_bit n x"
  by (simp add: take_bit_eq_mod)

lemma bit_word_ge_len: "LENGTH('a) \<le> n \<Longrightarrow> \<not> bit (x :: 'a::len word) n"
  using bit_imp_le_length linorder_not_less by blast

section \<open>Division with remainder\<close>

lemma div_mod_nat_cases:
  fixes p w :: nat
  assumes "p div w = q" "0 < w"
  shows "p = q * w + p mod w \<and> p mod w < w"
  using assms by (metis div_mult_mod_eq mod_less_divisor)

lemma mult_add_div_mod [simp]:
  fixes r w q :: nat
  assumes "r < w"
  shows "(q * w + r) div w = q" "(q * w + r) mod w = r"
  using assms by simp_all

lemma less_iff_div_mod:
  fixes i n w :: nat
  shows "i < n \<longleftrightarrow> i div w < n div w \<or> i div w = n div w \<and> i mod w < n mod w"
proof (cases "i div w" "n div w" rule: linorder_cases)
  case less
  then show ?thesis using div_le_mono [of n i w] by (metis leI not_le)
next
  case equal
  have "i = w * (i div w) + i mod w" "n = w * (n div w) + n mod w" by simp_all
  with equal show ?thesis by (metis nat_add_left_cancel_less less_irrefl)
next
  case greater
  then show ?thesis using div_le_mono [of i n w] by (metis leD less_imp_le order.asym less_irrefl)
qed

lemma multiple_add_le:
  fixes i n w :: nat
  assumes "n mod w = 0" "i mod w = 0" "i < n"
  shows "i + w \<le> n"
proof -
  have "w dvd n - i" using assms by (intro dvd_diff_nat) auto
  then have "w \<le> n - i" using assms(3) by (intro dvd_imp_le) auto
  with assms(3) show ?thesis by simp
qed

lemma block_index_less:
  fixes i k N W :: nat
  assumes "i < N" "k < W"
  shows "N * k + i < N * W"
proof -
  have "N * k + i < N * (k + 1)" using assms(1) by simp
  also have "\<dots> \<le> N * W" using assms(2) by (intro mult_le_mono2) simp
  finally show ?thesis .
qed

end
