(* ===== verification/BitPacking.thy ===== *)
theory BitPacking
  imports Prelude
begin

text \<open>
  Fixed width bit packing of integer blocks: \<open>core/utils/bit_packing.cpp\<close> and
  \<open>core/utils/bit_packing.hpp\<close>. The templates \<open>fastpack<N>\<close> and \<open>fastunpack<N>\<close> are
  unrolled by hand in the source (32 groups for \<open>uint32_t\<close>, 64 for \<open>uint64_t\<close>); group
  \<open>k\<close> of the source is step \<open>k\<close> of the recursions below. An array is a list of words,
  a pointer into it an index.
\<close>

section \<open>The unrolled kernels\<close>

text \<open>
  One group of \<open>fastpack<N>\<close> is
  \<open>*out |= ((*in) % (1U << N)) << (N * k) % 32\<close>, then, when
  \<open>(N * (k + 1)) % 32 < (N * k) % 32\<close>, \<open>++out; *out |= ((*in) % (1U << N)) >> \<dots>\<close>, and
  finally \<open>++in\<close>. The last group has no test. \<open>j\<close> is the offset of \<open>out\<close>.
\<close>

fun fastpack_from ::
  "nat \<Rightarrow> nat \<Rightarrow> 'a::len word list \<Rightarrow> nat \<Rightarrow> 'a word list \<Rightarrow> 'a word list" where
  "fastpack_from N k [] j out = out"
| "fastpack_from N k (x # ins) j out =
     (let v = x mod push_bit N 1;
          out1 = out[j := out ! j OR push_bit (N * k mod LENGTH('a)) v]
      in if k + 1 < LENGTH('a) \<and> N * (k + 1) mod LENGTH('a) < N * k mod LENGTH('a)
         then fastpack_from N (k + 1) ins (j + 1)
                (out1[j + 1 := out1 ! (j + 1) OR
                               drop_bit (N - N * (k + 1) mod LENGTH('a)) v])
         else fastpack_from N (k + 1) ins j out1)"

text \<open>
  One group of \<open>fastunpack<N>\<close>; \<open>j\<close> is the offset of \<open>in\<close>, the \<open>n\<close> results are
  the values of \<open>*out\<close> in order.
\<close>

fun fastunpack_from :: "nat \<Rightarrow> nat \<Rightarrow> nat \<Rightarrow> 'a::len word list \<Rightarrow> nat \<Rightarrow> 'a word list" where
  "fastunpack_from N k 0 ins j = []"
| "fastunpack_from N k (Suc n) ins j =
     (let o1 = (drop_bit (N * k mod LENGTH('a)) (ins ! j)) mod push_bit N 1
      in if k + 1 < LENGTH('a) \<and> N * (k + 1) mod LENGTH('a) < N * k mod LENGTH('a)
         then (o1 OR push_bit (N - N * (k + 1) mod LENGTH('a))
                       (ins ! (j + 1) mod push_bit (N * (k + 1) mod LENGTH('a)) 1))
              # fastunpack_from N (k + 1) n ins (j + 1)
         else o1 # fastunpack_from N (k + 1) n ins j)"

text \<open>\<open>fastpack_at<N, I, T>\<close>: random access to value \<open>I\<close> of a packed block.\<close>

definition fastpack_at_NI :: "nat \<Rightarrow> nat \<Rightarrow> 'a::len word list \<Rightarrow> 'a word" where
  "fastpack_at_NI N I ins =
     (if N * (I + 1) mod LENGTH('a) < N * I mod LENGTH('a) \<and> 1 + N * I div LENGTH('a) < N
      then (drop_bit (N * I mod LENGTH('a)) (ins ! (N * I div LENGTH('a))) mod push_bit N 1) OR
           push_bit (N - N * (I + 1) mod LENGTH('a))
             (ins ! (1 + N * I div LENGTH('a)) mod push_bit (N * (I + 1) mod LENGTH('a)) 1)
      else drop_bit (N * I mod LENGTH('a)) (ins ! (N * I div LENGTH('a))) mod push_bit N 1)"

section \<open>The exported functions, one per overload\<close>

definition fastpack_32 :: "nat \<Rightarrow> u32 list \<Rightarrow> u32 list \<Rightarrow> u32 list" where
  "fastpack_32 N ins out = fastpack_from N 0 (take 32 ins) 0 out"

definition fastpack_64 :: "nat \<Rightarrow> u64 list \<Rightarrow> u64 list \<Rightarrow> u64 list" where
  "fastpack_64 N ins out = fastpack_from N 0 (take 64 ins) 0 out"

definition fastunpack_32 :: "nat \<Rightarrow> u32 list \<Rightarrow> u32 list \<Rightarrow> u32 list" where
  "fastunpack_32 N ins out = fastunpack_from N 0 32 ins 0 @ drop 32 out"

definition fastunpack_64 :: "nat \<Rightarrow> u64 list \<Rightarrow> u64 list \<Rightarrow> u64 list" where
  "fastunpack_64 N ins out = fastunpack_from N 0 64 ins 0 @ drop 64 out"

text \<open>The full width specialisations are a \<open>memcpy\<close> of one block.\<close>

definition memcpy_block :: "nat \<Rightarrow> 'a list \<Rightarrow> 'a list \<Rightarrow> 'a list" where
  "memcpy_block n ins out = take n ins @ drop n out"

text \<open>
  The dispatching \<open>switch\<close> statements. The default branch is \<open>IRS_ASSERT(false); break\<close>:
  with assertions compiled out nothing is written.
\<close>

definition pack_block_32 :: "u32 list \<Rightarrow> u32 list \<Rightarrow> nat \<Rightarrow> u32 list" where
  "pack_block_32 ins out bits =
     (if 1 \<le> bits \<and> bits \<le> 31 then fastpack_32 bits ins out
      else if bits = 32 then memcpy_block 32 ins out
      else out)"

definition pack_block_64 :: "u64 list \<Rightarrow> u64 list \<Rightarrow> nat \<Rightarrow> u64 list" where
  "pack_block_64 ins out bits =
     (if 1 \<le> bits \<and> bits \<le> 63 then fastpack_64 bits ins out
      else if bits = 64 then memcpy_block 64 ins out
      else out)"

definition unpack_block_32 :: "u32 list \<Rightarrow> u32 list \<Rightarrow> nat \<Rightarrow> u32 list" where
  "unpack_block_32 ins out bits =
     (if 1 \<le> bits \<and> bits \<le> 31 then fastunpack_32 bits ins out
      else if bits = 32 then memcpy_block 32 ins out
      else out)"

definition unpack_block_64 :: "u64 list \<Rightarrow> u64 list \<Rightarrow> nat \<Rightarrow> u64 list" where
  "unpack_block_64 ins out bits =
     (if 1 \<le> bits \<and> bits \<le> 63 then fastunpack_64 bits ins out
      else if bits = 64 then memcpy_block 64 ins out
      else out)"

text \<open>The inner \<open>switch (i)\<close>: only the cases below the block size exist, the default is 0.\<close>

definition fastpack_at_N_32 :: "nat \<Rightarrow> u32 list \<Rightarrow> nat \<Rightarrow> u32" where
  "fastpack_at_N_32 N ins i = (if i < 32 then fastpack_at_NI N i ins else 0)"

definition fastpack_at_N_64 :: "nat \<Rightarrow> u64 list \<Rightarrow> nat \<Rightarrow> u64" where
  "fastpack_at_N_64 N ins i = (if i < 64 then fastpack_at_NI N i ins else 0)"

definition fastpack_at_32 :: "u32 list \<Rightarrow> nat \<Rightarrow> nat \<Rightarrow> u32" where
  "fastpack_at_32 ins i bits =
     (if 1 \<le> bits \<and> bits \<le> 31 then fastpack_at_N_32 bits ins i
      else if bits = 32 then ins ! i
      else 0)"

definition fastpack_at_64 :: "u64 list \<Rightarrow> nat \<Rightarrow> nat \<Rightarrow> u64" where
  "fastpack_at_64 ins i bits =
     (if 1 \<le> bits \<and> bits \<le> 63 then fastpack_at_N_64 bits ins i
      else if bits = 64 then ins ! i
      else 0)"

text \<open>
  The block loops \<open>for (; first < last; first += BLOCK_SIZE, out += bit)\<close> of the header,
  over the function that handles one block. The unpacked range shrinks by one block per
  round; a range that is not a multiple of the block size ends with one partial step, as
  in the source (whose \<open>pack\<close> asserts that this does not happen).
\<close>

function pack_loop ::
  "nat \<Rightarrow> nat \<Rightarrow> ('a list \<Rightarrow> 'a list \<Rightarrow> nat \<Rightarrow> 'a list) \<Rightarrow> 'a list \<Rightarrow> 'a list \<Rightarrow> 'a list" where
  "pack_loop B bits blk ins out =
     (if ins = [] \<or> B = 0 then out
      else let o1 = blk ins out bits
           in take bits o1 @ pack_loop B bits blk (drop B ins) (drop bits o1))"
  by pat_completeness auto
termination
  by (relation "measure (\<lambda>(B, bits, blk, ins, out). length ins)") auto

function unpack_loop ::
  "nat \<Rightarrow> nat \<Rightarrow> ('a list \<Rightarrow> 'a list \<Rightarrow> nat \<Rightarrow> 'a list) \<Rightarrow> 'a list \<Rightarrow> 'a list \<Rightarrow> 'a list" where
  "unpack_loop B bits blk out ins =
     (if out = [] \<or> B = 0 then out
      else let o1 = blk ins out bits
           in take B o1 @ unpack_loop B bits blk (drop B out) (drop bits ins))"
  by pat_completeness auto
termination
  by (relation "measure (\<lambda>(B, bits, blk, out, ins). length out)") auto

declare pack_loop.simps [simp del] unpack_loop.simps [simp del]

definition pack_32 :: "u32 list \<Rightarrow> u32 list \<Rightarrow> nat \<Rightarrow> u32 list" where
  "pack_32 ins out bits = pack_loop 32 bits pack_block_32 ins out"

definition pack_64 :: "u64 list \<Rightarrow> u64 list \<Rightarrow> nat \<Rightarrow> u64 list" where
  "pack_64 ins out bits = pack_loop 64 bits pack_block_64 ins out"

definition unpack_32 :: "u32 list \<Rightarrow> u32 list \<Rightarrow> nat \<Rightarrow> u32 list" where
  "unpack_32 out ins bits = unpack_loop 32 bits unpack_block_32 out ins"

definition unpack_64 :: "u64 list \<Rightarrow> u64 list \<Rightarrow> nat \<Rightarrow> u64 list" where
  "unpack_64 out ins bits = unpack_loop 64 bits unpack_block_64 out ins"

definition at_32 :: "u32 list \<Rightarrow> nat \<Rightarrow> nat \<Rightarrow> u32" where
  "at_32 encoded i bits = fastpack_at_32 (drop (bits * (i div 32)) encoded) (i mod 32) bits"

definition at_64 :: "u64 list \<Rightarrow> nat \<Rightarrow> nat \<Rightarrow> u64" where
  "at_64 encoded i bits = fastpack_at_64 (drop (bits * (i div 64)) encoded) (i mod 64) bits"

section \<open>Bit width and buffer size computations\<close>

text \<open>\<open>std::countl_zero\<close>: the number of zero bits above the most significant set bit.\<close>

definition countl_zero :: "'a::len word \<Rightarrow> nat" where
  "countl_zero x = length (takeWhile (\<lambda>i. \<not> bit x i) (rev [0..<LENGTH('a)]))"

definition bits_required_32 :: "u32 \<Rightarrow> nat" where
  "bits_required_32 val = (if val = 0 then 0 else 32 - countl_zero val)"

definition bits_required_64 :: "u64 \<Rightarrow> nat" where
  "bits_required_64 val = (if val = 0 then 0 else 64 - countl_zero val)"

fun or_accum :: "'a::len word \<Rightarrow> 'a word list \<Rightarrow> 'a word" where
  "or_accum accum [] = accum"
| "or_accum accum (x # xs) = or_accum (accum OR x) xs"

definition maxbits32 :: "u32 list \<Rightarrow> nat" where
  "maxbits32 xs = bits_required_32 (or_accum 0 xs)"

definition maxbits64 :: "u64 list \<Rightarrow> nat" where
  "maxbits64 xs = bits_required_64 (or_accum 0 xs)"

text \<open>\<open>math::div_ceil32\<close> and \<open>div_ceil64\<close> compute with wrap-around in the argument's width.\<close>

definition div_ceil32 :: "u32 \<Rightarrow> u32 \<Rightarrow> u32" where
  "div_ceil32 num den = (num + den - 1) div den"

definition div_ceil64 :: "u64 \<Rightarrow> u64 \<Rightarrow> u64" where
  "div_ceil64 num den = (num + den - 1) div den"

definition bytes_required_32 :: "u32 \<Rightarrow> u32 \<Rightarrow> u32" where
  "bytes_required_32 count bits = div_ceil32 (count * bits) 8"

definition bytes_required_64 :: "u64 \<Rightarrow> u64 \<Rightarrow> u64" where
  "bytes_required_64 count bits = div_ceil64 (count * bits) 8"

definition blocks_required_32 :: "u32 \<Rightarrow> u32 \<Rightarrow> u32" where
  "blocks_required_32 count bits = div_ceil32 (count * bits) 32"

definition blocks_required_64 :: "u64 \<Rightarrow> u64 \<Rightarrow> u64" where
  "blocks_required_64 count bits = div_ceil64 (count * bits) 64"

definition items_required :: "u32 \<Rightarrow> u64" where
  "items_required count = ucast (32 * div_ceil32 count 32)"

definition iterations_required :: "u32 \<Rightarrow> u64" where
  "iterations_required count = items_required count div 32"

text \<open>\<open>max_value<T>(bits)\<close>, for \<open>bits\<close> up to the width of \<open>T\<close>.\<close>

definition max_value :: "nat \<Rightarrow> 'a::len word" where
  "max_value bits = (if bits = LENGTH('a) then - 1 else NOT (push_bit bits (NOT 0)))"

section \<open>An array of words as a bit stream\<close>

definition sbit :: "'a::len word list \<Rightarrow> nat \<Rightarrow> bool" where
  "sbit ws p \<longleftrightarrow> p div LENGTH('a) < length ws \<and> bit (ws ! (p div LENGTH('a))) (p mod LENGTH('a))"

lemma sbit_at [stream_simps]:
  "i < LENGTH('a) \<Longrightarrow> sbit (ws :: 'a::len word list) (j * LENGTH('a) + i) \<longleftrightarrow> j < length ws \<and> bit (ws ! j) i"
  by (simp add: sbit_def)

lemma sbit_append_left:
  fixes xs :: "'a::len word list"
  assumes "p < length xs * LENGTH('a)"
  shows "sbit (xs @ ys) p \<longleftrightarrow> sbit xs p"
  using less_mult_imp_div_less [OF assms] by (auto simp: sbit_def nth_append)

lemma sbit_replicate_zero [simp]: "\<not> sbit (replicate n 0) p"
  by (simp add: sbit_def)

lemma sbit_or_push:
  fixes v :: "'a::len word"
  assumes "j < length out"
  shows "sbit (out[j := out ! j OR push_bit a v]) p \<longleftrightarrow>
    sbit out p \<or> (j * LENGTH('a) + a \<le> p \<and> p < (j + 1) * LENGTH('a) \<and> bit v (p - (j * LENGTH('a) + a)))"
proof (cases "p div LENGTH('a) = j")
  case True
  then have p: "p = j * LENGTH('a) + p mod LENGTH('a)" and m: "p mod LENGTH('a) < LENGTH('a)"
    using div_mod_nat_cases [OF True] by simp_all
  have "sbit (out[j := out ! j OR push_bit a v]) p \<longleftrightarrow>
      sbit out p \<or> (a \<le> p mod LENGTH('a) \<and> bit v (p mod LENGTH('a) - a))"
    using True assms m by (auto simp: sbit_def bit_or_iff bit_push_bit_iff)
  moreover have "a \<le> p mod LENGTH('a) \<longleftrightarrow> j * LENGTH('a) + a \<le> p"
    using p by linarith
  moreover have "p - (j * LENGTH('a) + a) = p mod LENGTH('a) - a"
    using p by linarith
  moreover have "p < (j + 1) * LENGTH('a)"
    using p m unfolding distrib_right by linarith
  ultimately show ?thesis by auto
next
  case False
  then have "\<not> (j * LENGTH('a) \<le> p \<and> p < (j + 1) * LENGTH('a))"
    by (metis Suc_eq_plus1 div_nat_eqI mult.commute)
  with False show ?thesis by (auto simp: sbit_def)
qed

lemma sbit_or_drop:
  fixes v :: "'a::len word"
  assumes "j < length out"
  shows "sbit (out[j := out ! j OR drop_bit d v]) p \<longleftrightarrow>
    sbit out p \<or> (j * LENGTH('a) \<le> p \<and> p < (j + 1) * LENGTH('a) \<and> bit v (p - j * LENGTH('a) + d))"
proof (cases "p div LENGTH('a) = j")
  case True
  then have p: "p = j * LENGTH('a) + p mod LENGTH('a)" and m: "p mod LENGTH('a) < LENGTH('a)"
    using div_mod_nat_cases [OF True] by simp_all
  have "sbit (out[j := out ! j OR drop_bit d v]) p \<longleftrightarrow>
      sbit out p \<or> bit v (p mod LENGTH('a) + d)"
    using True assms m by (auto simp: sbit_def bit_or_iff bit_drop_bit_eq add.commute)
  moreover have "p - j * LENGTH('a) = p mod LENGTH('a)"
    using p by linarith
  moreover have "j * LENGTH('a) \<le> p" "p < (j + 1) * LENGTH('a)"
    using p m unfolding distrib_right by linarith+
  ultimately show ?thesis by auto
next
  case False
  then have "\<not> (j * LENGTH('a) \<le> p \<and> p < (j + 1) * LENGTH('a))"
    by (metis Suc_eq_plus1 div_nat_eqI mult.commute)
  with False show ?thesis by (auto simp: sbit_def)
qed

section \<open>Group arithmetic\<close>

lemma group_step:
  fixes N k W :: nat
  assumes "0 < N" "N < W"
  defines "a \<equiv> N * k mod W"
  shows group_pos: "N * k = (N * k div W) * W + a"
    and group_wrap_iff: "N * (k + 1) mod W < a \<longleftrightarrow> W \<le> a + N"
    and group_wrap: "W \<le> a + N \<Longrightarrow> N * (k + 1) mod W = a + N - W \<and> N * (k + 1) div W = N * k div W + 1"
    and group_nowrap: "a + N < W \<Longrightarrow> N * (k + 1) mod W = a + N \<and> N * (k + 1) div W = N * k div W"
proof -
  have aW: "a < W" using assms by simp
  show pos: "N * k = (N * k div W) * W + a" by (simp add: a_def)
  have e: "N * (k + 1) = (N * k div W) * W + (a + N)"
    using pos by simp
  show w: "N * (k + 1) mod W = a + N - W \<and> N * (k + 1) div W = N * k div W + 1" if "W \<le> a + N"
  proof -
    have e2: "N * (k + 1) = (N * k div W + 1) * W + (a + N - W)" using e that by simp
    have "a + N - W < W" using aW assms(1,2) by linarith
    then show ?thesis unfolding e2 using mult_add_div_mod by blast
  qed
  show nw: "N * (k + 1) mod W = a + N \<and> N * (k + 1) div W = N * k div W" if "a + N < W"
    using that unfolding e using mult_add_div_mod by blast
  show "N * (k + 1) mod W < a \<longleftrightarrow> W \<le> a + N"
    using w nw aW assms(1,2) by (cases "W \<le> a + N") auto
qed

lemma last_group:
  fixes N W :: nat
  assumes "0 < N" "N < W"
  shows "N * (W - 1) mod W + N = W"
proof -
  have "N * (W - 1) = (N - 1) * W + (W - N)"
    using assms by (simp add: algebra_simps)
  then show ?thesis using assms mult_add_div_mod(2)[of "W - N" W "N - 1"] by simp
qed

section \<open>Correctness of the kernels\<close>

lemma fastpack_from_length [simp]: "length (fastpack_from N k ins j out) = length out"
  by (induction N k ins j out rule: fastpack_from.induct) (auto simp: Let_def)

lemma group_bound:
  fixes N k W :: nat
  assumes "0 < N" "N < W" "k < W"
  shows "N * k div W < N"
  using assms by (simp add: less_mult_imp_div_less)

lemma fastpack_step:
  fixes x :: "'a::len word" and out :: "'a word list"
  assumes N: "0 < N" "N < LENGTH('a)" and k: "k < LENGTH('a)" and j: "j = N * k div LENGTH('a)"
    and len: "N \<le> length out"
  defines "v \<equiv> x mod push_bit N 1"
  defines "out1 \<equiv> out[j := out ! j OR push_bit (N * k mod LENGTH('a)) v]"
  defines "wrap \<equiv> k + 1 < LENGTH('a) \<and> N * (k + 1) mod LENGTH('a) < N * k mod LENGTH('a)"
  defines "out2 \<equiv> (if wrap then out1[j + 1 := out1 ! (j + 1) OR
                               drop_bit (N - N * (k + 1) mod LENGTH('a)) v] else out1)"
  shows "sbit out2 p \<longleftrightarrow> sbit out p \<or> (N * k \<le> p \<and> p < N * (k + 1) \<and> bit x (p - N * k))"
    and "k + 1 < LENGTH('a) \<Longrightarrow> (if wrap then j + 1 else j) = N * (k + 1) div LENGTH('a)"
proof -
  let ?W = "LENGTH('a)" and ?a = "N * k mod LENGTH('a)"
  note pos = group_pos [OF N, of k, folded j] and iff = group_wrap_iff [OF N, of k]
  have jl: "j < length out" using group_bound [OF N k] j len by linarith
  have aW: "?a < ?W" by simp
  have v: "bit v i \<longleftrightarrow> i < N \<and> bit x i" for i
    by (simp add: v_def bit_take_bit_iff)
  have s1: "sbit out1 p \<longleftrightarrow> sbit out p \<or>
      (N * k \<le> p \<and> p < (j + 1) * ?W \<and> p < N * (k + 1) \<and> bit x (p - N * k))"
    unfolding out1_def sbit_or_push [OF jl] using pos by (auto simp: v)
  show "sbit out2 p \<longleftrightarrow> sbit out p \<or> (N * k \<le> p \<and> p < N * (k + 1) \<and> bit x (p - N * k))"
  proof (cases wrap)
    case True
    then have w: "?W \<le> ?a + N" and k1: "k + 1 < ?W" using iff by (auto simp: wrap_def)
    have jl1: "j + 1 < length out1"
      using group_bound [OF N k1] group_wrap [OF N w] j len by (simp add: out1_def)
    have d: "N - N * (k + 1) mod ?W = ?W - ?a" using group_wrap [OF N w] aW w by linarith
    have "sbit out2 p \<longleftrightarrow> sbit out1 p \<or>
        ((j + 1) * ?W \<le> p \<and> p < (j + 1 + 1) * ?W \<and> bit v (p - (j + 1) * ?W + (?W - ?a)))"
      using True unfolding out2_def d by (simp add: sbit_or_drop [OF jl1, simplified])
    moreover have "p - (j + 1) * ?W + (?W - ?a) = p - N * k" if "(j + 1) * ?W \<le> p"
      using that pos aW by (simp add: algebra_simps)
    moreover have "p < (j + 1 + 1) * ?W" if "p < N * (k + 1)"
      using that pos aW N unfolding distrib_left distrib_right by linarith
    moreover have "N * k \<le> p" if "(j + 1) * ?W \<le> p"
      using that pos aW unfolding distrib_right by linarith
    ultimately show ?thesis unfolding s1 v by auto
  next
    case False
    have "?a + N \<le> ?W"
    proof (cases "k + 1 < ?W")
      case True with False iff show ?thesis by (auto simp: wrap_def)
    next
      case False
      then have "k = ?W - 1" using k by simp
      then show ?thesis using last_group [OF N] by simp
    qed
    then have "N * (k + 1) \<le> (j + 1) * ?W" using pos by (simp add: algebra_simps)
    with False show ?thesis unfolding out2_def using s1 by auto
  qed
  show "(if wrap then j + 1 else j) = N * (k + 1) div ?W" if "k + 1 < ?W"
    using that iff group_wrap [OF N, of k] group_nowrap [OF N, of k] j by (auto simp: wrap_def)
qed


lemma fastpack_from_bits:
  fixes ins out :: "'a::len word list"
  assumes "0 < N" "N < LENGTH('a)" "k + length ins \<le> LENGTH('a)" "N \<le> length out"
    and "k < LENGTH('a) \<Longrightarrow> j = N * k div LENGTH('a)"
  shows "sbit (fastpack_from N k ins j out) p \<longleftrightarrow>
    sbit out p \<or> (N * k \<le> p \<and> p < N * (k + length ins) \<and> bit (ins ! (p div N - k)) (p mod N))"
  using assms
proof (induction ins arbitrary: k j out)
  case Nil
  then show ?case by auto
next
  case (Cons x ins)
  let ?W = "LENGTH('a)"
  define v where "v = x mod push_bit N 1"
  define out1 where "out1 = out[j := out ! j OR push_bit (N * k mod ?W) v]"
  define wrap where "wrap \<longleftrightarrow> k + 1 < ?W \<and> N * (k + 1) mod ?W < N * k mod ?W"
  define out2 where "out2 = (if wrap then out1[j + 1 := out1 ! (j + 1) OR
                               drop_bit (N - N * (k + 1) mod ?W) v] else out1)"
  have k: "k < ?W" using Cons.prems(3) by simp
  have rec: "fastpack_from N k (x # ins) j out =
      fastpack_from N (k + 1) ins (if wrap then j + 1 else j) out2"
    by (simp add: v_def out1_def wrap_def out2_def Let_def)
  note step = fastpack_step(1) [OF Cons.prems(1,2) k Cons.prems(5) [OF k] Cons.prems(4), of x,
      folded v_def, folded out1_def, folded wrap_def, folded out2_def]
    fastpack_step(2) [OF Cons.prems(1,2) k Cons.prems(5) [OF k] Cons.prems(4), folded wrap_def]
  have l2: "N \<le> length out2" using Cons.prems(4) by (simp add: out2_def out1_def)
  have "sbit (fastpack_from N k (x # ins) j out) p \<longleftrightarrow> sbit out p \<or>
      (N * k \<le> p \<and> p < N * (k + 1) \<and> bit x (p - N * k)) \<or>
      (N * (k + 1) \<le> p \<and> p < N * (k + 1 + length ins) \<and> bit (ins ! (p div N - (k + 1))) (p mod N))"
    unfolding rec by (subst Cons.IH) (use Cons.prems l2 step in auto)
  moreover have "(N * k \<le> p \<and> p < N * (k + length (x # ins)) \<and>
        bit ((x # ins) ! (p div N - k)) (p mod N)) \<longleftrightarrow>
      (N * k \<le> p \<and> p < N * (k + 1) \<and> bit x (p - N * k)) \<or>
      (N * (k + 1) \<le> p \<and> p < N * (k + 1 + length ins) \<and> bit (ins ! (p div N - (k + 1))) (p mod N))"
  proof (cases "p < N * (k + 1)")
    case True
    then have "p div N = k \<and> p mod N = p - N * k" if "N * k \<le> p"
      using that Cons.prems(1)
      by (metis Suc_eq_plus1 div_nat_eqI minus_mod_eq_mult_div mult.commute modulo_nat_def)
    moreover have "p < N * (k + length (x # ins))"
      using True by (rule less_le_trans) (rule mult_le_mono2, simp)
    ultimately show ?thesis using True by auto
  next
    case False
    then have "k + 1 \<le> p div N" using Cons.prems(1)
      by (metis div_le_mono nonzero_mult_div_cancel_left not_gr_zero linorder_not_less)
    then have "p div N - k = Suc (p div N - (k + 1))" by simp
    moreover have "N * k \<le> N * (k + 1)" by simp
    ultimately show ?thesis using False by simp
  qed
  ultimately show ?case by argo
qed

text \<open>A block packed into a cleared buffer: bit \<open>i\<close> of value \<open>k\<close> is stream bit \<open>N k + i\<close>.\<close>

lemma fastpack_block_bits:
  fixes ins :: "'a::len word list"
  assumes "0 < N" "N < LENGTH('a)" "length ins = LENGTH('a)" "N \<le> n"
    and "k < LENGTH('a)" "i < N"
  shows "sbit (fastpack_from N 0 ins 0 (replicate n 0)) (N * k + i) \<longleftrightarrow> bit (ins ! k) i"
proof -
  have "N * k + i < N * LENGTH('a)"
    using assms(6,5) by (rule block_index_less)
  then show ?thesis using assms by (subst fastpack_from_bits) simp_all
qed

text \<open>Value \<open>k\<close> of a packed stream, as the sequential and the random access decoder compute it.\<close>

lemma decode_group_bits:
  fixes ins :: "'a::len word list"
  assumes N: "0 < N" "N < LENGTH('a)" and k: "k < LENGTH('a)" and j: "j = N * k div LENGTH('a)"
    and len: "N \<le> length ins"
  defines "o1 \<equiv> drop_bit (N * k mod LENGTH('a)) (ins ! j) mod push_bit N 1"
  defines "o2 \<equiv> o1 OR push_bit (N - N * (k + 1) mod LENGTH('a))
                       (ins ! (j + 1) mod push_bit (N * (k + 1) mod LENGTH('a)) 1)"
  defines "wrap \<equiv> k + 1 < LENGTH('a) \<and> N * (k + 1) mod LENGTH('a) < N * k mod LENGTH('a)"
  shows "bit (if wrap then o2 else o1) i \<longleftrightarrow> i < N \<and> sbit ins (N * k + i)"
proof -
  let ?W = "LENGTH('a)" and ?a = "N * k mod LENGTH('a)"
  note pos = group_pos [OF N, of k, folded j] and iff = group_wrap_iff [OF N, of k]
  have jl: "j < length ins" using group_bound [OF N k] j len by linarith
  have aW: "?a < ?W" by simp
  have o1: "bit o1 i \<longleftrightarrow> i < N \<and> ?a + i < ?W \<and> bit (ins ! j) (?a + i)"
    by (auto simp: o1_def bit_take_bit_iff bit_drop_bit_eq dest: bit_imp_le_length)
  have lo: "sbit ins (N * k + i) \<longleftrightarrow> bit (ins ! j) (?a + i)" if "?a + i < ?W"
    using sbit_at [OF that, of ins j] jl by (subst pos) (simp add: add.assoc)
  show ?thesis
  proof (cases wrap)
    case True
    then have w: "?W \<le> ?a + N" and k1: "k + 1 < ?W" using iff by (auto simp: wrap_def)
    have m: "N * (k + 1) mod ?W = ?a + N - ?W" and d: "N - N * (k + 1) mod ?W = ?W - ?a"
      using group_wrap [OF N w] aW w by linarith+
    have jl1: "j + 1 < length ins"
      using group_bound [OF N k1] group_wrap [OF N w] j len by simp
    have hi: "sbit ins (N * k + i) \<longleftrightarrow> bit (ins ! (j + 1)) (i - (?W - ?a))"
      if "?W - ?a \<le> i" "i < N"
    proof -
      have e: "N * k + i = (j + 1) * ?W + (i - (?W - ?a))"
        using pos aW that by (simp add: algebra_simps)
      have "i - (?W - ?a) < ?W" using that N by linarith
      then show ?thesis unfolding e using sbit_at [of "i - (?W - ?a)" ins "j + 1"] jl1 by simp
    qed
    have "bit o2 i \<longleftrightarrow> bit o1 i \<or>
        (?W - ?a \<le> i \<and> i - (?W - ?a) < ?a + N - ?W \<and> bit (ins ! (j + 1)) (i - (?W - ?a)) \<and> i < ?W)"
      unfolding o2_def m d [unfolded m]
      by (auto simp: bit_or_iff bit_push_bit_iff bit_take_bit_iff)
    moreover have "?W - ?a \<le> i \<longleftrightarrow> \<not> ?a + i < ?W" using aW by linarith
    moreover have "i - (?W - ?a) < ?a + N - ?W \<longleftrightarrow> i < N" if "?W - ?a \<le> i"
      using that aW w by linarith
    ultimately show ?thesis using True o1 lo hi N by (cases "?a + i < ?W") auto
  next
    case False
    have "?a + N \<le> ?W"
    proof (cases "k + 1 < ?W")
      case True with False iff show ?thesis by (auto simp: wrap_def)
    next
      case False
      then have "k = ?W - 1" using k by simp
      then show ?thesis using last_group [OF N] by simp
    qed
    then show ?thesis using False o1 lo by auto
  qed
qed


lemma fastunpack_from_nth:
  fixes ins :: "'a::len word list"
  assumes "0 < N" "N < LENGTH('a)" "k + n \<le> LENGTH('a)" "N \<le> length ins"
    and "k < LENGTH('a) \<Longrightarrow> j = N * k div LENGTH('a)" and "m < n"
  shows "bit (fastunpack_from N k n ins j ! m) i \<longleftrightarrow> i < N \<and> sbit ins (N * (k + m) + i)"
  using assms
proof (induction n arbitrary: k j m)
  case 0
  then show ?case by simp
next
  case (Suc n)
  let ?W = "LENGTH('a)"
  have k: "k < ?W" using Suc.prems(3) by simp
  define o1 where "o1 = drop_bit (N * k mod ?W) (ins ! j) mod push_bit N 1"
  define o2 where "o2 = o1 OR push_bit (N - N * (k + 1) mod ?W)
                       (ins ! (j + 1) mod push_bit (N * (k + 1) mod ?W) 1)"
  define wrap where "wrap \<longleftrightarrow> k + 1 < ?W \<and> N * (k + 1) mod ?W < N * k mod ?W"
  have rec: "fastunpack_from N k (Suc n) ins j =
      (if wrap then o2 else o1) # fastunpack_from N (k + 1) n ins (if wrap then j + 1 else j)"
    by (simp add: o1_def o2_def wrap_def Let_def)
  note hd = decode_group_bits [OF Suc.prems(1,2) k Suc.prems(5) [OF k] Suc.prems(4), of i,
      folded o1_def, folded o2_def, folded wrap_def]
  note nxt = fastpack_step(2) [OF Suc.prems(1,2) k Suc.prems(5) [OF k] Suc.prems(4), folded wrap_def]
  show ?case
  proof (cases m)
    case 0
    then show ?thesis unfolding rec using hd by simp
  next
    case (Suc m')
    then have "bit (fastunpack_from N (k + 1) n ins (if wrap then j + 1 else j) ! m') i \<longleftrightarrow>
        i < N \<and> sbit ins (N * (k + 1 + m') + i)"
      using Suc.prems nxt by (intro Suc.IH) auto
    then show ?thesis unfolding rec using Suc by simp
  qed
qed

lemma fastunpack_from_length [simp]: "length (fastunpack_from N k n ins j) = n"
  by (induction N k n ins j rule: fastunpack_from.induct) (auto simp: Let_def)

lemma fastpack_at_NI_bits:
  fixes ins :: "'a::len word list"
  assumes N: "0 < N" "N < LENGTH('a)" and I: "I < LENGTH('a)" and len: "N \<le> length ins"
  shows "bit (fastpack_at_NI N I ins) i \<longleftrightarrow> i < N \<and> sbit ins (N * I + i)"
proof -
  let ?W = "LENGTH('a)"
  have c: "(N * (I + 1) mod ?W < N * I mod ?W \<and> 1 + N * I div ?W < N) \<longleftrightarrow>
      (I + 1 < ?W \<and> N * (I + 1) mod ?W < N * I mod ?W)"
  proof (cases "N * (I + 1) mod ?W < N * I mod ?W")
    case True
    then have w: "N * (I + 1) div ?W = N * I div ?W + 1"
      using group_wrap_iff [OF N, of I] group_wrap [OF N, of I] by simp
    have "I + 1 < ?W \<longleftrightarrow> 1 + N * I div ?W < N"
    proof (cases "I + 1 < ?W")
      case True then show ?thesis using group_bound [OF N True] w by simp
    next
      case False
      then have "I + 1 = ?W" using I by simp
      then have "N * (I + 1) div ?W = N" by simp
      then show ?thesis using w False by simp
    qed
    then show ?thesis using True by simp
  qed simp
  show ?thesis
    using decode_group_bits [OF N I refl len, of i]
    unfolding fastpack_at_NI_def c unfolding add.commute [of 1 "N * I div ?W"] .
qed

lemma word_eq_take_bitI:
  fixes x y :: "'a::len word"
  assumes "\<And>i. bit x i \<longleftrightarrow> i < N \<and> bit y i"
  shows "x = take_bit N y"
  by (rule bit_eqI) (simp add: assms bit_take_bit_iff)

lemma kernel_at:
  fixes ins rest :: "'a::len word list"
  assumes N: "0 < N" "N < LENGTH('a)" and len: "length ins = LENGTH('a)" and k: "k < LENGTH('a)"
  shows "fastpack_at_NI N k (fastpack_from N 0 ins 0 (replicate N 0) @ rest) = take_bit N (ins ! k)"
proof (rule word_eq_take_bitI)
  fix i
  let ?p = "fastpack_from N 0 ins 0 (replicate N 0)"
  have "bit (fastpack_at_NI N k (?p @ rest)) i \<longleftrightarrow> i < N \<and> sbit (?p @ rest) (N * k + i)"
    using N k by (intro fastpack_at_NI_bits) auto
  moreover have "sbit (?p @ rest) (N * k + i) \<longleftrightarrow> bit (ins ! k) i" if "i < N"
    using block_index_less [OF that k] fastpack_block_bits [OF N len order_refl k that]
    by (subst sbit_append_left) (simp_all add: mult.commute)
  ultimately show "bit (fastpack_at_NI N k (?p @ rest)) i \<longleftrightarrow> i < N \<and> bit (ins ! k) i"
    by blast
qed

lemma fastpack_from_append:
  fixes ins out rest :: "'a::len word list"
  assumes "0 < N" "N < LENGTH('a)" "k + length ins \<le> LENGTH('a)" "length out = N"
    and "k < LENGTH('a) \<Longrightarrow> j = N * k div LENGTH('a)"
  shows "fastpack_from N k ins j (out @ rest) = fastpack_from N k ins j out @ rest"
  using assms
proof (induction ins arbitrary: k j out)
  case (Cons x ins)
  let ?W = "LENGTH('a)"
  have k: "k < ?W" using Cons.prems(3) by simp
  have j: "j < N" using group_bound [OF Cons.prems(1,2) k] Cons.prems(5) [OF k] by simp
  have nxt: "k + 1 < ?W \<Longrightarrow>
      (if k + 1 < ?W \<and> N * (k + 1) mod ?W < N * k mod ?W then j + 1 else j) = N * (k + 1) div ?W"
    using fastpack_step(2) [OF Cons.prems(1,2) k Cons.prems(5) [OF k], of out] Cons.prems(4) by simp
  show ?case
  proof (cases "k + 1 < ?W \<and> N * (k + 1) mod ?W < N * k mod ?W")
    case True
    then have "j + 1 < N" using nxt group_bound [OF Cons.prems(1,2), of "k + 1"] by simp
    with True j nxt Cons.prems show ?thesis unfolding fastpack_from.simps Let_def if_P [OF True]
      by (simp add: nth_append list_update_append Cons.IH)
  next
    case False
    with j nxt Cons.prems show ?thesis unfolding fastpack_from.simps Let_def if_not_P [OF False]
      by (simp add: nth_append list_update_append Cons.IH del: One_nat_def)
  qed
qed simp

section \<open>The interface between one block and the block loops\<close>

text \<open>
  \<open>pack\<close>, \<open>unpack\<close> and \<open>at\<close> of the header rely on the functions that handle one block
  only through the laws below: packing touches the first \<open>bits\<close> words of a cleared buffer,
  and unpacking or random access gives the packed values back.
\<close>

locale block_codec =
  fixes B :: nat
    and pack_blk unpack_blk :: "'a list \<Rightarrow> 'a list \<Rightarrow> nat \<Rightarrow> 'a list"
    and at_blk :: "'a list \<Rightarrow> nat \<Rightarrow> nat \<Rightarrow> 'a"
    and zero :: 'a and fits :: "nat \<Rightarrow> 'a \<Rightarrow> bool"
  assumes B_pos: "0 < B"
    and pack_blk_local: "1 \<le> bits \<Longrightarrow> bits \<le> B \<Longrightarrow> B \<le> length ins \<Longrightarrow>
      pack_blk ins (replicate bits zero @ rest) bits =
      pack_blk (take B ins) (replicate bits zero) bits @ rest"
    and pack_blk_length: "1 \<le> bits \<Longrightarrow> bits \<le> B \<Longrightarrow> length ins = B \<Longrightarrow>
      length (pack_blk ins (replicate bits zero) bits) = bits"
    and unpack_pack_blk: "1 \<le> bits \<Longrightarrow> bits \<le> B \<Longrightarrow> length ins = B \<Longrightarrow>
      list_all (fits bits) ins \<Longrightarrow> B \<le> length out \<Longrightarrow>
      unpack_blk (pack_blk ins (replicate bits zero) bits @ rest) out bits = ins @ drop B out"
    and at_pack_blk: "1 \<le> bits \<Longrightarrow> bits \<le> B \<Longrightarrow> length ins = B \<Longrightarrow>
      list_all (fits bits) ins \<Longrightarrow> i < B \<Longrightarrow>
      at_blk (pack_blk ins (replicate bits zero) bits @ rest) i bits = ins ! i"
begin

lemma pack_loop_Nil: "pack_loop B bits pack_blk [] out = out"
  by (subst pack_loop.simps) simp

lemma pack_loop_block:
  assumes "1 \<le> bits" "bits \<le> B" "B \<le> length ins"
  shows "pack_loop B bits pack_blk ins (replicate bits zero @ rest) =
    pack_blk (take B ins) (replicate bits zero) bits @ pack_loop B bits pack_blk (drop B ins) rest"
proof -
  have "ins \<noteq> []" using assms B_pos by auto
  then show ?thesis using assms B_pos pack_blk_length [of bits "take B ins"]
    by (subst pack_loop.simps) (simp add: Let_def pack_blk_local min_def)
qed

lemma unpack_loop_pack_loop:
  assumes bits: "1 \<le> bits" "bits \<le> B"
  shows "length ins = n * B \<Longrightarrow> length out = n * B \<Longrightarrow> list_all (fits bits) ins \<Longrightarrow>
   unpack_loop B bits unpack_blk out (pack_loop B bits pack_blk ins (replicate (n * bits) zero)) = ins"
proof (induction n arbitrary: ins out)
  case 0
  then show ?case by (simp add: pack_loop_Nil unpack_loop.simps)
next
  case (Suc n)
  let ?enc = "pack_blk (take B ins) (replicate bits zero) bits"
  let ?rest = "pack_loop B bits pack_blk (drop B ins) (replicate (n * bits) zero)"
  have fits: "list_all (fits bits) (take B ins)" "list_all (fits bits) (drop B ins)"
    using Suc.prems(3) by (metis append_take_drop_id list_all_append)+
  have e: "pack_loop B bits pack_blk ins (replicate (Suc n * bits) zero) = ?enc @ ?rest"
    using Suc.prems(1) pack_loop_block [OF bits, of ins "replicate (n * bits) zero"] by (simp add: replicate_add)
  have l: "length ?enc = bits" using Suc.prems(1) bits by (simp add: pack_blk_length)
  have "unpack_blk (?enc @ ?rest) out bits = take B ins @ drop B out"
    using Suc.prems fits bits by (intro unpack_pack_blk) simp_all
  then have "unpack_loop B bits unpack_blk out (?enc @ ?rest) =
      take B ins @ unpack_loop B bits unpack_blk (drop B out) ?rest"
    using Suc.prems B_pos l by (subst unpack_loop.simps) (auto simp: Let_def)
  also have "unpack_loop B bits unpack_blk (drop B out) ?rest = drop B ins"
    using Suc.prems fits by (intro Suc.IH) simp_all
  finally show ?case unfolding e by simp
qed

lemma pack_loop_append:
  assumes bits: "1 \<le> bits" "bits \<le> B"
  shows "length ins = n * B \<Longrightarrow>
    pack_loop B bits pack_blk ins (replicate (n * bits) zero @ rest) =
      pack_loop B bits pack_blk ins (replicate (n * bits) zero) @ rest \<and>
    length (pack_loop B bits pack_blk ins (replicate (n * bits) zero)) = n * bits"
proof (induction n arbitrary: ins)
  case (Suc n)
  have "length (pack_blk (take B ins) (replicate bits zero) bits) = bits" using Suc.prems bits by (simp add: pack_blk_length)
  then show ?case
    using Suc.IH [of "drop B ins"] Suc.prems pack_loop_block [OF bits, of ins "replicate (n * bits) zero @ rest"]
      pack_loop_block [OF bits, of ins "replicate (n * bits) zero"]
    by (simp add: replicate_add)
qed (simp add: pack_loop_Nil)

lemma at_pack_loop_append:
  assumes bits: "1 \<le> bits" "bits \<le> B"
  shows "length ins = n * B \<Longrightarrow> list_all (fits bits) ins \<Longrightarrow> i < length ins \<Longrightarrow>
   at_blk (drop (bits * (i div B)) (pack_loop B bits pack_blk ins (replicate (n * bits) zero) @ rest))
     (i mod B) bits = ins ! i"
proof (induction n arbitrary: ins i)
  case 0
  then show ?case by simp
next
  case (Suc n)
  let ?enc = "pack_blk (take B ins) (replicate bits zero) bits"
  let ?rest = "pack_loop B bits pack_blk (drop B ins) (replicate (n * bits) zero)"
  have fits: "list_all (fits bits) (take B ins)" "list_all (fits bits) (drop B ins)"
    using Suc.prems(2) by (metis append_take_drop_id list_all_append)+
  have e: "pack_loop B bits pack_blk ins (replicate (Suc n * bits) zero) @ rest = ?enc @ ?rest @ rest"
    using Suc.prems(1) pack_loop_block [OF bits, of ins "replicate (n * bits) zero"] by (simp add: replicate_add)
  have l: "length ?enc = bits" using Suc.prems(1) bits by (simp add: pack_blk_length)
  show ?case
  proof (cases "i < B")
    case True
    then show ?thesis unfolding e using Suc.prems fits bits by (simp add: at_pack_blk)
  next
    case False
    then have i: "i div B = Suc ((i - B) div B)" "i mod B = (i - B) mod B"
      using B_pos by (simp_all add: le_div_geq le_mod_geq)
    have "at_blk (drop (bits * ((i - B) div B)) (?rest @ rest)) ((i - B) mod B) bits = drop B ins ! (i - B)"
      using Suc.prems fits False by (intro Suc.IH) simp_all
    then show ?thesis unfolding e i using l False Suc.prems(1) by simp
  qed
qed

lemmas at_pack_loop = at_pack_loop_append [where rest = "[]", simplified append_Nil2]

end

lemma pack_block_32_kernel:
  assumes "1 \<le> bits" "bits < 32" "32 \<le> length ins"
  shows "pack_block_32 ins (replicate bits 0 @ rest) bits =
    fastpack_from bits 0 (take 32 ins) 0 (replicate bits 0) @ rest"
  using assms by (simp add: pack_block_32_def fastpack_32_def fastpack_from_append)

lemma pack_block_64_kernel:
  assumes "1 \<le> bits" "bits < 64" "64 \<le> length ins"
  shows "pack_block_64 ins (replicate bits 0 @ rest) bits =
    fastpack_from bits 0 (take 64 ins) 0 (replicate bits 0) @ rest"
  using assms by (simp add: pack_block_64_def fastpack_64_def fastpack_from_append)

lemmas pack_block_32_kernel' = pack_block_32_kernel [where rest = "[]", simplified]
lemmas pack_block_64_kernel' = pack_block_64_kernel [where rest = "[]", simplified]

lemma kernel_roundtrip_append:
  fixes ins rest :: "'a::len word list"
  assumes "0 < N" "N < LENGTH('a)" "length ins = LENGTH('a)"
  shows "fastunpack_from N 0 LENGTH('a) (fastpack_from N 0 ins 0 (replicate N 0) @ rest) 0 = map (take_bit N) ins"
proof (rule nth_equalityI)
  let ?p = "fastpack_from N 0 ins 0 (replicate N 0)"
  fix k assume "k < length (fastunpack_from N 0 LENGTH('a) (?p @ rest) 0)"
  then have k: "k < LENGTH('a)" by simp
  have "fastunpack_from N 0 LENGTH('a) (?p @ rest) 0 ! k = fastpack_at_NI N k (?p @ rest)"
    by (rule bit_eqI) (use assms k in \<open>simp add: fastunpack_from_nth fastpack_at_NI_bits\<close>)
  then show "fastunpack_from N 0 LENGTH('a) (?p @ rest) 0 ! k = map (take_bit N) ins ! k"
    using assms k by (simp add: kernel_at)
qed (use assms in simp)

lemma map_take_bit_fits: "list_all (\<lambda>x. take_bit n x = x) xs \<Longrightarrow> map (take_bit n) xs = xs"
  by (induction xs) auto

interpretation p32: block_codec 32 pack_block_32 unpack_block_32 fastpack_at_32 0
  "\<lambda>bits x. take_bit bits x = x"
proof (unfold_locales, goal_cases)
  case 1 then show ?case by simp
next
  case (2 bits ins rest)
  then show ?case
    by (cases "bits = 32") (simp add: pack_block_32_def memcpy_block_def,
        simp add: pack_block_32_kernel pack_block_32_kernel')
next
  case (3 bits ins)
  then show ?case
    by (cases "bits = 32") (simp add: pack_block_32_def memcpy_block_def,
        simp add: pack_block_32_kernel')
next
  case (4 bits ins out rest)
  then show ?case
    using kernel_roundtrip_append [where 'a = 32, of bits ins rest]
    by (cases "bits = 32") (simp add: pack_block_32_def memcpy_block_def unpack_block_32_def,
        simp add: pack_block_32_kernel' unpack_block_32_def fastunpack_32_def map_take_bit_fits)
next
  case (5 bits ins i rest)
  then show ?case
    by (cases "bits = 32") (simp add: pack_block_32_def memcpy_block_def fastpack_at_32_def nth_append,
        simp add: pack_block_32_kernel' fastpack_at_32_def fastpack_at_N_32_def kernel_at list_all_length)
qed

interpretation p64: block_codec 64 pack_block_64 unpack_block_64 fastpack_at_64 0
  "\<lambda>bits x. take_bit bits x = x"
proof (unfold_locales, goal_cases)
  case 1 then show ?case by simp
next
  case (2 bits ins rest)
  then show ?case
    by (cases "bits = 64") (simp add: pack_block_64_def memcpy_block_def,
        simp add: pack_block_64_kernel pack_block_64_kernel')
next
  case (3 bits ins)
  then show ?case
    by (cases "bits = 64") (simp add: pack_block_64_def memcpy_block_def,
        simp add: pack_block_64_kernel')
next
  case (4 bits ins out rest)
  then show ?case
    using kernel_roundtrip_append [where 'a = 64, of bits ins rest]
    by (cases "bits = 64") (simp add: pack_block_64_def memcpy_block_def unpack_block_64_def,
        simp add: pack_block_64_kernel' unpack_block_64_def fastunpack_64_def map_take_bit_fits)
next
  case (5 bits ins i rest)
  then show ?case
    by (cases "bits = 64") (simp add: pack_block_64_def memcpy_block_def fastpack_at_64_def nth_append,
        simp add: pack_block_64_kernel' fastpack_at_64_def fastpack_at_N_64_def kernel_at list_all_length)
qed


section \<open>Widths and sizes\<close>

lemma bit_less_bits:
  fixes x :: "'a::len word"
  assumes "bit x i"
  shows "i < LENGTH('a) - countl_zero x"
proof (rule ccontr)
  assume n: "\<not> i < LENGTH('a) - countl_zero x"
  have i: "i < LENGTH('a)" using assms by (rule bit_imp_le_length)
  let ?l = "rev [0..<LENGTH('a)]" and ?m = "LENGTH('a) - 1 - i"
  have "?m < length (takeWhile (\<lambda>i. \<not> bit x i) ?l)" using n i by (simp add: countl_zero_def)
  then have "\<not> bit x (?l ! ?m)"
    by (metis nth_mem set_takeWhileD takeWhile_nth)
  moreover have "?l ! ?m = i" using i by (simp add: rev_nth)
  ultimately show False using assms by simp
qed

lemma or_accum_bit: "bit (or_accum a xs) i \<longleftrightarrow> bit a i \<or> (\<exists>x\<in>set xs. bit x i)"
  by (induction a xs rule: or_accum.induct) (auto simp: bit_or_iff)

lemma bits_required_fits:
  "take_bit (bits_required_32 v) v = v" "take_bit (bits_required_64 w) w = w"
  by (rule bit_eqI; auto simp: bit_take_bit_iff bits_required_32_def bits_required_64_def
      dest: bit_less_bits)+

lemma fits_or_accum:
  fixes xs :: "'a::len word list"
  assumes "take_bit b (or_accum 0 xs) = or_accum 0 xs" "x \<in> set xs"
  shows "take_bit b x = x"
proof (rule bit_eqI)
  fix i
  have "bit x i \<Longrightarrow> i < b"
    using assms by (metis bit_take_bit_iff or_accum_bit)
  then show "bit (take_bit b x) i = bit x i" by (auto simp: bit_take_bit_iff)
qed

lemma unat_less_fits:
  fixes x :: "'a::len word"
  shows "unat x < 2 ^ n \<longleftrightarrow> take_bit n x = x"
  by (metis take_bit_nat_eq_self_iff unsigned_take_bit_eq unsigned_word_eqI)

lemma unpack_pack_32:
  assumes "1 \<le> bits" "bits \<le> 32" "length ins = n * 32" "length out = n * 32"
    and "\<forall>x\<in>set ins. unat x < 2 ^ bits"
  shows "unpack_32 out (pack_32 ins (replicate (n * bits) 0) bits) bits = ins"
  using p32.unpack_loop_pack_loop [OF assms(1-4)] assms(5)
  by (simp add: unpack_32_def pack_32_def list_all_iff unat_less_fits)

lemma at_pack_32:
  assumes "1 \<le> bits" "bits \<le> 32" "length ins = n * 32"
    and "\<forall>x\<in>set ins. unat x < 2 ^ bits" and "i < length ins"
  shows "at_32 (pack_32 ins (replicate (n * bits) 0) bits) i bits = ins ! i"
  using p32.at_pack_loop [OF assms(1-3)] assms(4,5)
  by (simp add: at_32_def pack_32_def list_all_iff unat_less_fits)

lemma unpack_pack_64:
  assumes "1 \<le> bits" "bits \<le> 64" "length ins = n * 64" "length out = n * 64"
    and "\<forall>x\<in>set ins. unat x < 2 ^ bits"
  shows "unpack_64 out (pack_64 ins (replicate (n * bits) 0) bits) bits = ins"
  using p64.unpack_loop_pack_loop [OF assms(1-4)] assms(5)
  by (simp add: unpack_64_def pack_64_def list_all_iff unat_less_fits)

lemma at_pack_64:
  assumes "1 \<le> bits" "bits \<le> 64" "length ins = n * 64"
    and "\<forall>x\<in>set ins. unat x < 2 ^ bits" and "i < length ins"
  shows "at_64 (pack_64 ins (replicate (n * bits) 0) bits) i bits = ins ! i"
  using p64.at_pack_loop [OF assms(1-3)] assms(4,5)
  by (simp add: at_64_def pack_64_def list_all_iff unat_less_fits)

section \<open>Properties\<close>

text \<open>
  C11: in an array of 32-bit values that \<open>pack\<close> wrote into a cleared buffer, with any number of blocks and any width from 1 to 32 that the
  values fit in, \<open>unpack\<close> finds all the values, whatever the output buffer held, and random access with \<open>at\<close> finds each of them without unpacking its
  block.
\<close>

theorem packed_32:
  assumes "1 \<le> bits" "bits \<le> 32" "length ins = n * 32" "\<forall>x\<in>set ins. unat x < 2 ^ bits" "length out = n * 32"
  shows "unpack_32 out (pack_32 ins (replicate (n * bits) 0) bits) bits = ins \<and>
    (\<forall>i < length ins. at_32 (pack_32 ins (replicate (n * bits) 0) bits) i bits = ins ! i)"
  using unpack_pack_32 [OF assms(1-3,5,4)] at_pack_32 [OF assms(1-4)] by blast

theorem packed_32_witness:
  "unpack_32 (replicate 64 7) (pack_32 (replicate 64 5) (replicate (2 * 3) 0) 3) 3 = replicate 64 5 \<and>
   at_32 (pack_32 (replicate 64 5) (replicate (2 * 3) 0) 3) 40 3 = 5"
  using packed_32 [of 3 "replicate 64 5" 2 "replicate 64 7"] by simp

text \<open>
  C18: in an array of 64-bit values that \<open>pack\<close> wrote into a cleared buffer, with any number of blocks and any width from 1 to 64 that the
  values fit in, \<open>unpack\<close> finds all the values, whatever the output buffer held, and random access with \<open>at\<close> finds each of them without unpacking its
  block.
\<close>

theorem packed_64:
  assumes "1 \<le> bits" "bits \<le> 64" "length ins = n * 64" "\<forall>x\<in>set ins. unat x < 2 ^ bits" "length out = n * 64"
  shows "unpack_64 out (pack_64 ins (replicate (n * bits) 0) bits) bits = ins \<and>
    (\<forall>i < length ins. at_64 (pack_64 ins (replicate (n * bits) 0) bits) i bits = ins ! i)"
  using unpack_pack_64 [OF assms(1-3,5,4)] at_pack_64 [OF assms(1-4)] by blast

theorem packed_64_witness:
  "unpack_64 (replicate 128 7) (pack_64 (replicate 128 5) (replicate (2 * 3) 0) 3) 3 = replicate 128 5 \<and>
   at_64 (pack_64 (replicate 128 5) (replicate (2 * 3) 0) 3) 40 3 = 5"
  using packed_64 [of 3 "replicate 128 5" 2 "replicate 128 7"] by simp

text \<open>
  The width that \<open>maxbits32\<close> and \<open>maxbits64\<close> compute for a block is large enough for
  every value of the block, and never larger than the block type.
\<close>

theorem maxbits_sufficient:
  "maxbits32 xs \<le> 32 \<and> (\<forall>x\<in>set xs. unat x < 2 ^ maxbits32 xs) \<and>
   maxbits64 ys \<le> 64 \<and> (\<forall>y\<in>set ys. unat y < 2 ^ maxbits64 ys)"
proof (intro conjI ballI)
  show "maxbits32 xs \<le> 32" "maxbits64 ys \<le> 64"
    by (simp_all add: maxbits32_def maxbits64_def bits_required_32_def bits_required_64_def)
  show "unat x < 2 ^ maxbits32 xs" if "x \<in> set xs" for x
    using fits_or_accum [OF bits_required_fits(1) that] by (simp add: unat_less_fits maxbits32_def)
  show "unat y < 2 ^ maxbits64 ys" if "y \<in> set ys" for y
    using fits_or_accum [OF bits_required_fits(2) that] by (simp add: unat_less_fits maxbits64_def)
qed

theorem maxbits_sufficient_witness:
  "unat (6 :: u32) < 2 ^ maxbits32 [5, 6]"
  using maxbits_sufficient [of "[5, 6]" "[]"] by simp

end
