(* ===== verification/Bytes.thy ===== *)
theory Bytes
  imports Prelude
begin

text \<open>
  Byte level codecs: \<open>core/utils/bytes_utils.hpp\<close> (fixed width and variable width integers),
  the zig-zag codes of \<open>core/utils/bit_utils.hpp\<close>, and the string, delta and shift-pack
  helpers of \<open>core/store/store_utils.hpp\<close>. An output iterator is the list of bytes it
  receives; an input iterator is the list of bytes still to come, and a read past its end
  (undefined behaviour in the source) is \<^term>\<open>None\<close>. A signed \<open>intN_t\<close> is the word
  with its bits, read by \<^term>\<open>sint\<close>.
\<close>

section \<open>Fixed width integers, most significant byte first\<close>

definition write_u16 :: "u16 \<Rightarrow> u8 list" where
  "write_u16 v = [ucast (drop_bit 8 v), ucast v]"

definition write_u32 :: "u32 \<Rightarrow> u8 list" where
  "write_u32 v = [ucast (drop_bit 24 v), ucast (drop_bit 16 v), ucast (drop_bit 8 v), ucast v]"

definition write_u64 :: "u64 \<Rightarrow> u8 list" where
  "write_u64 v = write_u32 (ucast (drop_bit 32 v)) @ write_u32 (ucast v)"

fun read_u16 :: "u8 list \<Rightarrow> (u16 \<times> u8 list) option" where
  "read_u16 (a # b # bs) = Some (push_bit 8 (ucast a) OR ucast b, bs)"
| "read_u16 _ = None"

fun read_u32 :: "u8 list \<Rightarrow> (u32 \<times> u8 list) option" where
  "read_u32 (a # b # c # d # bs) =
     Some (push_bit 24 (ucast a) OR push_bit 16 (ucast b) OR push_bit 8 (ucast c) OR ucast d, bs)"
| "read_u32 _ = None"

definition read_u64 :: "u8 list \<Rightarrow> (u64 \<times> u8 list) option" where
  "read_u64 bs =
     (case read_u32 bs of None \<Rightarrow> None
      | Some (hi, bs1) \<Rightarrow>
          (case read_u32 bs1 of None \<Rightarrow> None
           | Some (lo, bs2) \<Rightarrow> Some (push_bit 32 (ucast hi) OR ucast lo, bs2)))"

section \<open>Variable width integers\<close>

function vwrite_u32 :: "u32 \<Rightarrow> u8 list" where
  "vwrite_u32 x = (if 0x80 \<le> x then ucast (x OR 0x80) # vwrite_u32 (drop_bit 7 x) else [ucast x])"
  by pat_completeness auto
termination
  by (relation "measure unat")
     (auto simp: word_le_nat_alt drop_bit_eq_div unat_div)

function vwrite_u64 :: "u64 \<Rightarrow> u8 list" where
  "vwrite_u64 x = (if 0x80 \<le> x then ucast (x OR 0x80) # vwrite_u64 (drop_bit 7 x) else [ucast x])"
  by pat_completeness auto
termination
  by (relation "measure unat")
     (auto simp: word_le_nat_alt drop_bit_eq_div unat_div)

declare vwrite_u32.simps [simp del] vwrite_u64.simps [simp del]

text \<open>
  The readers are straight line code: the byte at shift \<open>s\<close> is added as \<open>b << s\<close>, and while
  its top bit is set the mask is subtracted again and the next shift is tried; the byte at
  the last shift is added without a test.
\<close>

fun vread_rest :: "nat list \<Rightarrow> nat \<Rightarrow> 'a::len word \<Rightarrow> u8 list \<Rightarrow> ('a word \<times> u8 list) option" where
  "vread_rest _ lst out [] = None"
| "vread_rest [] lst out (b # bs) = Some (out + push_bit lst (ucast b), bs)"
| "vread_rest (s # ss) lst out (b # bs) =
     (let out1 = out + push_bit s (ucast b)
      in if (ucast b :: 'a word) AND 0x80 = 0 then Some (out1, bs)
         else vread_rest ss lst (out1 - push_bit s 0x80) bs)"

definition vread_from :: "nat list \<Rightarrow> nat \<Rightarrow> u8 list \<Rightarrow> ('a::len word \<times> u8 list) option" where
  "vread_from ss lst bs =
     (case bs of [] \<Rightarrow> None
      | b # bs1 \<Rightarrow>
          (let out = (ucast b :: 'a word)
           in if out AND 0x80 = 0 then Some (out, bs1)
              else vread_rest ss lst (out - 0x80) bs1))"

definition vread_u32 :: "u8 list \<Rightarrow> (u32 \<times> u8 list) option" where
  "vread_u32 bs = vread_from [7, 14, 21] 28 bs"

definition vread_u64 :: "u8 list \<Rightarrow> (u64 \<times> u8 list) option" where
  "vread_u64 bs = vread_from [7, 14, 21, 28, 35, 42, 49, 56] 63 bs"

text \<open>\<open>vskip\<close>: at most \<open>n\<close> tested bytes, then one more without a test.\<close>

fun vskip_rest :: "nat \<Rightarrow> u8 list \<Rightarrow> u8 list option" where
  "vskip_rest _ [] = None"
| "vskip_rest 0 (b # bs) = Some bs"
| "vskip_rest (Suc n) (b # bs) = (if b AND 0x80 = 0 then Some bs else vskip_rest n bs)"

definition vskip_u32 :: "u8 list \<Rightarrow> u8 list option" where
  "vskip_u32 bs = vskip_rest 4 bs"

definition vskip_u64 :: "u8 list \<Rightarrow> u8 list option" where
  "vskip_u64 bs = vskip_rest 9 bs"

text \<open>\<open>std::bit_width(v) - 1\<close>, which the source computes as \<open>31 ^ __builtin_clz(v)\<close>.\<close>

function log2_floor :: "nat \<Rightarrow> nat" where
  "log2_floor x = (if 2 \<le> x then Suc (log2_floor (x div 2)) else 0)"
  by pat_completeness auto
termination
  by (relation "measure id") auto

declare log2_floor.simps [simp del]

definition vsize_u32 :: "u32 \<Rightarrow> nat" where
  "vsize_u32 v = (73 + 9 * log2_floor (unat (v OR 1))) div 2 ^ 6"

definition vsize_u64 :: "u64 \<Rightarrow> nat" where
  "vsize_u64 v = (73 + 9 * log2_floor (unat (v OR 1))) div 2 ^ 6"

section \<open>Zig-zag codes\<close>

definition zig_zag_encode32 :: "u32 \<Rightarrow> u32" where
  "zig_zag_encode32 v = signed_drop_bit 31 v XOR push_bit 1 v"

definition zig_zag_decode32 :: "u32 \<Rightarrow> u32" where
  "zig_zag_decode32 v = drop_bit 1 v XOR - (v AND 1)"

definition zig_zag_encode64 :: "u64 \<Rightarrow> u64" where
  "zig_zag_encode64 v = signed_drop_bit 63 v XOR push_bit 1 v"

definition zig_zag_decode64 :: "u64 \<Rightarrow> u64" where
  "zig_zag_decode64 v = drop_bit 1 v XOR - (v AND 1)"

definition zvwrite_32 :: "u32 \<Rightarrow> u8 list" where
  "zvwrite_32 v = vwrite_u32 (zig_zag_encode32 v)"

definition zvread_32 :: "u8 list \<Rightarrow> (u32 \<times> u8 list) option" where
  "zvread_32 bs = map_option (\<lambda>(v, r). (zig_zag_decode32 v, r)) (vread_u32 bs)"

definition zvwrite_64 :: "u64 \<Rightarrow> u8 list" where
  "zvwrite_64 v = vwrite_u64 (zig_zag_encode64 v)"

definition zvread_64 :: "u8 list \<Rightarrow> (u64 \<times> u8 list) option" where
  "zvread_64 bs = map_option (\<lambda>(v, r). (zig_zag_decode64 v, r)) (vread_u64 bs)"

section \<open>Strings and flags\<close>

text \<open>\<open>write_string\<close> truncates the length to 32 bits; the source asserts it fits.\<close>

definition write_string :: "u8 list \<Rightarrow> u8 list" where
  "write_string s = vwrite_u32 (word_of_nat (length s)) @ s"

text \<open>
  \<open>read_string\<close>: a string of the announced length, filled with as many bytes as the
  input has (the source asserts that all were read).
\<close>

definition read_string :: "u8 list \<Rightarrow> (u8 list \<times> u8 list) option" where
  "read_string bs =
     (case vread_u32 bs of None \<Rightarrow> None
      | Some (n, bs1) \<Rightarrow>
          (let len = unat n; got = take len bs1
           in Some (got @ replicate (len - length got) 0, drop len bs1)))"

definition vwrite_string :: "u8 list \<Rightarrow> u8 list" where
  "vwrite_string s = vwrite_u64 (word_of_nat (length s)) @ s"

definition vread_string :: "u8 list \<Rightarrow> (u8 list \<times> u8 list) option" where
  "vread_string bs =
     (case vread_u64 bs of None \<Rightarrow> None
      | Some (n, bs1) \<Rightarrow>
          (if unat n \<le> length bs1 then Some (take (unat n) bs1, drop (unat n) bs1) else None))"

definition shift_pack_64 :: "u64 \<Rightarrow> bool \<Rightarrow> u64" where
  "shift_pack_64 val b = push_bit 1 val OR of_bool b"

definition shift_pack_32 :: "u32 \<Rightarrow> bool \<Rightarrow> u32" where
  "shift_pack_32 val b = push_bit 1 val OR of_bool b"

definition shift_unpack_64 :: "u64 \<Rightarrow> u64 \<times> bool" where
  "shift_unpack_64 v = (drop_bit 1 v, v AND 1 \<noteq> 0)"

definition shift_unpack_32 :: "u32 \<Rightarrow> u32 \<times> bool" where
  "shift_unpack_32 v = (drop_bit 1 v, v AND 1 \<noteq> 0)"

section \<open>Delta coding\<close>

text \<open>
  \<open>encode::delta::encode\<close> runs from the back, replacing each element by its difference to
  its (still unchanged) predecessor; \<open>decode\<close> runs from the front, adding the (already
  decoded) predecessor. \<open>prev\<close> is that predecessor.
\<close>

fun delta_encode_from :: "'a::minus \<Rightarrow> 'a list \<Rightarrow> 'a list" where
  "delta_encode_from prev [] = []"
| "delta_encode_from prev (x # xs) = (x - prev) # delta_encode_from x xs"

fun delta_encode :: "'a::minus list \<Rightarrow> 'a list" where
  "delta_encode [] = []"
| "delta_encode (x # xs) = x # delta_encode_from x xs"

fun delta_decode_from :: "'a::plus \<Rightarrow> 'a list \<Rightarrow> 'a list" where
  "delta_decode_from prev [] = []"
| "delta_decode_from prev (x # xs) = (x + prev) # delta_decode_from (x + prev) xs"

fun delta_decode :: "'a::plus list \<Rightarrow> 'a list" where
  "delta_decode [] = []"
| "delta_decode (x # xs) = x # delta_decode_from x xs"

text \<open>The delta compressor for columns of 64-bit values (\<open>core/utils/delta_compression.cpp\<close>).\<close>

definition delta_compress :: "u64 list \<Rightarrow> u8 list" where
  "delta_compress xs = concat (map (\<lambda>x. vwrite_u64 (zig_zag_encode64 x)) (delta_encode xs))"

text \<open>The read loop \<open>for (; src != src_end; ++dst_end)\<close>: every \<open>vread\<close> consumes a byte.\<close>

lemma vread_rest_shorter: "vread_rest ss lst out bs = Some (x, r) \<Longrightarrow> length r < length bs"
  by (induction ss lst out bs rule: vread_rest.induct) (auto simp: Let_def split: if_splits)

lemma vread_from_shorter: "vread_from ss lst bs = Some (x, r) \<Longrightarrow> length r < length bs"
  by (auto simp: vread_from_def Let_def dest: vread_rest_shorter split: list.splits if_splits)

function vread_all :: "u8 list \<Rightarrow> u64 list option" where
  "vread_all bs =
     (if bs = [] then Some []
      else case vread_u64 bs of None \<Rightarrow> None
           | Some (v, r) \<Rightarrow> map_option (\<lambda>vs. zig_zag_decode64 v # vs) (vread_all r))"
  by pat_completeness auto
termination
  by (relation "measure length") (auto simp: vread_u64_def dest: vread_from_shorter)

declare vread_all.simps [simp del]

definition delta_decompress :: "u8 list \<Rightarrow> u64 list option" where
  "delta_decompress src = map_option delta_decode (vread_all src)"

section \<open>Reference encoding on naturals\<close>

fun vnat :: "nat \<Rightarrow> u8 list" where
  "vnat n = (if n < 128 then [word_of_nat n] else word_of_nat (n mod 128 + 128) # vnat (n div 128))"

declare vnat.simps [simp del]

lemma bit_128_nat: "bit (128 :: nat) i \<longleftrightarrow> i = 7"
proof -
  have e: "(128 :: nat) = 2 ^ 7" by simp
  show ?thesis unfolding e bit_exp_iff by auto
qed

lemma bit_128_int: "bit (128 :: int) i \<longleftrightarrow> i = 7"
proof -
  have e: "(128 :: int) = 2 ^ 7" by simp
  show ?thesis unfolding e bit_exp_iff by auto
qed

lemma bit_128_word:
  assumes "8 \<le> LENGTH('a)"
  shows "bit (128 :: 'a::len word) i \<longleftrightarrow> i = 7"
proof -
  have e: "(128 :: 'a word) = 2 ^ 7" by simp
  show ?thesis unfolding e bit_exp_iff using assms by auto
qed

lemma ucast_or_mask_byte:
  fixes x :: "'a::len word"
  assumes "8 \<le> LENGTH('a)"
  shows "(ucast (x OR 0x80) :: u8) = word_of_nat (unat x mod 128 + 128)"
proof (rule bit_word_eqI)
  fix i assume i: "i < LENGTH(8)"
  have "(unat x mod 128 + 128 :: nat) = take_bit 7 (unat x) + 128"
    by (simp add: take_bit_eq_mod)
  also have "\<dots> = or (take_bit 7 (unat x)) 128"
    by (rule disjunctive_add_eq_or, rule bit_eqI) (simp add: bit_and_iff bit_take_bit_iff bit_128_nat)
  finally show "bit (ucast (x OR 0x80) :: u8) i = bit (word_of_nat (unat x mod 128 + 128) :: u8) i"
    using i assms
    by (auto simp: bit_ucast_iff bit_or_iff bit_of_nat_iff bit_take_bit_iff bit_unsigned_iff
        bit_128_nat bit_128_int bit_128_word [OF assms] bit_128_word [where 'a = 8, simplified])
qed

lemma vwrite_u32_vnat: "vwrite_u32 x = vnat (unat x)"
proof (induction x rule: vwrite_u32.induct)
  case (1 x)
  show ?case
  proof (cases "0x80 \<le> x")
    case True
    then have "\<not> unat x < 128" by (simp add: word_le_nat_alt)
    with 1 [OF True] True show ?thesis
      by (subst vwrite_u32.simps, subst vnat.simps)
         (simp add: ucast_or_mask_byte unat_div drop_bit_eq_div)
  next
    case False
    then have "unat x < 128" by (simp add: word_le_nat_alt)
    with False show ?thesis
      by (subst vwrite_u32.simps, subst vnat.simps) (simp add: of_nat_unat)
  qed
qed

lemma vwrite_u64_vnat: "vwrite_u64 x = vnat (unat x)"
proof (induction x rule: vwrite_u64.induct)
  case (1 x)
  show ?case
  proof (cases "0x80 \<le> x")
    case True
    then have "\<not> unat x < 128" by (simp add: word_le_nat_alt)
    with 1 [OF True] True show ?thesis
      by (subst vwrite_u64.simps, subst vnat.simps)
         (simp add: ucast_or_mask_byte unat_div drop_bit_eq_div)
  next
    case False
    then have "unat x < 128" by (simp add: word_le_nat_alt)
    with False show ?thesis
      by (subst vwrite_u64.simps, subst vnat.simps) (simp add: of_nat_unat)
  qed
qed

lemma mask_byte_iff:
  assumes "8 \<le> LENGTH('a)"
  shows "(ucast b :: 'a::len word) AND 0x80 = 0 \<longleftrightarrow> unat (b :: u8) < 128"
proof -
  have "(0x80 :: 'a word) = 2 ^ 7" by simp
  then have "(ucast b :: 'a word) AND 0x80 = 0 \<longleftrightarrow> \<not> bit (ucast b :: 'a word) 7"
    by (metis and_exp_eq_0_iff_not_bit)
  also have "\<dots> \<longleftrightarrow> \<not> bit (unat b) 7" using assms by (simp add: bit_ucast_iff bit_unsigned_iff)
  also have "\<dots> \<longleftrightarrow> even (unat b div 128)" by (simp add: bit_iff_odd)
  also have "\<dots> \<longleftrightarrow> unat b < 128"
  proof (cases "unat b < 128")
    case False
    moreover have "unat b < 2 ^ LENGTH(8)" by (rule unsigned_less)
    ultimately have "unat b div 128 = 1" by (intro div_nat_eqI) simp_all
    with False show ?thesis by simp
  qed simp
  finally show ?thesis .
qed


lemma vread_rest_vnat:
  assumes "8 \<le> LENGTH('a)" "y < 128 ^ (n + 1)"
  shows "vread_rest (map (\<lambda>i. s + 7 * i) [0..<n]) (s + 7 * n) (out :: 'a::len word) (vnat y @ rest) =
    Some (out + word_of_nat (y * 2 ^ s), rest)"
  using assms
proof (induction n arbitrary: s y out)
  case 0
  then have "vnat y = [word_of_nat y]" by (subst vnat.simps) simp
  moreover have "(ucast (word_of_nat y :: u8) :: 'a word) = word_of_nat y"
    using 0 by (subst unsigned_of_nat) (simp add: take_bit_nat_eq_self)
  ultimately show ?case by (simp add: push_bit_eq_mult)
next
  case (Suc n)
  have shifts: "map (\<lambda>i. s + 7 * i) [0..<Suc n] = s # map (\<lambda>i. (s + 7) + 7 * i) [0..<n]"
    by (subst upt_conv_Cons) (simp_all add: map_Suc_upt [symmetric] del: upt_Suc map_Suc_upt)
  show ?case
  proof (cases "y < 128")
    case True
    then have "vnat y = [word_of_nat y]" by (subst vnat.simps) simp
    moreover have u: "(ucast (word_of_nat y :: u8) :: 'a word) = word_of_nat y"
      using True by (subst unsigned_of_nat) (simp add: take_bit_nat_eq_self)
    moreover have "(word_of_nat y :: 'a word) AND 0x80 = 0"
      using mask_byte_iff [OF Suc.prems(1), of "word_of_nat y"] True u
      by (simp add: unat_of_nat)
    ultimately show ?thesis unfolding shifts by (simp add: push_bit_eq_mult)
  next
    case False
    let ?b = "word_of_nat (y mod 128 + 128) :: u8"
    have v: "vnat y = ?b # vnat (y div 128)" using False by (subst vnat.simps) simp
    have u: "(ucast ?b :: 'a word) = word_of_nat (y mod 128) + 0x80"
      by (subst unsigned_of_nat) (simp add: take_bit_nat_eq_self)
    have nz: "(ucast ?b :: 'a word) AND 0x80 \<noteq> 0"
    proof -
      have "unat ?b = y mod 128 + 128" by (simp only: unat_of_nat) simp
      then show ?thesis using mask_byte_iff [OF Suc.prems(1), of ?b] by linarith
    qed
    have lt: "y div 128 < 128 ^ (n + 1)" using Suc.prems(2) by (simp add: less_mult_imp_div_less mult.commute)
    have "vread_rest (map (\<lambda>i. s + 7 * i) [0..<Suc n]) (s + 7 * Suc n) out (vnat y @ rest) =
      vread_rest (map (\<lambda>i. (s + 7) + 7 * i) [0..<n]) ((s + 7) + 7 * n)
        (out + push_bit s (ucast ?b) - push_bit s 0x80) (vnat (y div 128) @ rest)"
      unfolding shifts v using nz by (simp add: add.assoc)
    also have "\<dots> = Some (out + push_bit s (ucast ?b) - push_bit s 0x80 +
        word_of_nat (y div 128 * 2 ^ (s + 7)), rest)"
      using Suc.prems(1) lt by (rule Suc.IH)
    also have "out + push_bit s (ucast ?b) - push_bit s 0x80 + word_of_nat (y div 128 * 2 ^ (s + 7)) =
        out + word_of_nat ((y mod 128 + 128 * (y div 128)) * 2 ^ s)"
      unfolding u unfolding of_nat_mult of_nat_add of_nat_power of_nat_numeral
      by (simp add: push_bit_eq_mult algebra_simps power_add del: mod_mult_div_eq)
    finally show ?thesis by simp
  qed
qed

lemma vread_from_vnat:
  assumes "8 \<le> LENGTH('a)" "y < 128 ^ (n + 2)"
  shows "vread_from (map (\<lambda>i. 7 + 7 * i) [0..<n]) (7 + 7 * n) (vnat y @ rest) =
    Some (word_of_nat y :: 'a::len word, rest)"
proof -
  have "vread_from (map (\<lambda>i. 7 + 7 * i) [0..<n]) (7 + 7 * n) (vnat y @ rest) =
     vread_rest (map (\<lambda>i. 0 + 7 * i) [0..<Suc n]) (0 + 7 * Suc n) (0 :: 'a word) (vnat y @ rest)"
    by (simp add: vread_from_def upt_conv_Cons map_Suc_upt [symmetric] Let_def comp_def
        del: upt_Suc map_Suc_upt split: list.splits)
  then show ?thesis using vread_rest_vnat [where ?'a = 'a and y = y and n = "Suc n" and s = 0 and out = 0 and rest = rest] assms by simp
qed

lemma vread_u32_vwrite: "vread_u32 (vwrite_u32 x @ rest) = Some (x, rest)"
proof -
  have "unat x < 2 ^ LENGTH(32)" by (rule unsigned_less)
  then have "unat x < 128 ^ (3 + 2)" by (rule less_trans) simp
  then show ?thesis
    using vread_from_vnat [where ?'a = 32 and y = "unat x" and n = 3 and rest = rest]
    by (simp add: vread_u32_def vwrite_u32_vnat upt_rec)
qed

lemma vread_u64_vwrite: "vread_u64 (vwrite_u64 x @ rest) = Some (x, rest)"
proof -
  have "unat x < 2 ^ LENGTH(64)" by (rule unsigned_less)
  then have "unat x < 128 ^ (8 + 2)" by (rule less_trans) simp
  then show ?thesis
    using vread_from_vnat [where ?'a = 64 and y = "unat x" and n = 8 and rest = rest]
    by (simp add: vread_u64_def vwrite_u64_vnat upt_rec)
qed

lemma vskip_rest_vnat: "y < 128 ^ (n + 1) \<Longrightarrow> vskip_rest n (vnat y @ rest) = Some rest"
proof (induction n arbitrary: y)
  case 0
  then have "vnat y = [word_of_nat y]" by (subst vnat.simps) simp
  then show ?case by simp
next
  case (Suc n)
  show ?case
  proof (cases "y < 128")
    case True
    then have "vnat y = [word_of_nat y]" by (subst vnat.simps) simp
    moreover have "(word_of_nat y :: u8) AND 0x80 = 0"
      using mask_byte_iff [where ?'a = 8, of "word_of_nat y"] True by (simp add: unat_of_nat)
    ultimately show ?thesis by simp
  next
    case False
    let ?b = "word_of_nat (y mod 128 + 128) :: u8"
    have "unat ?b = y mod 128 + 128" by (simp only: unat_of_nat) simp
    then have "?b AND 0x80 \<noteq> 0" using mask_byte_iff [where ?'a = 8, of ?b] by simp
    moreover have "vnat y = ?b # vnat (y div 128)" using False by (subst vnat.simps) simp
    moreover have "y div 128 < 128 ^ (n + 1)" using Suc.prems by (simp add: less_mult_imp_div_less mult.commute)
    ultimately show ?thesis using Suc.IH by simp
  qed
qed

lemma log2_floor_bounds: "0 < n \<Longrightarrow> 2 ^ log2_floor n \<le> n \<and> n < 2 ^ (log2_floor n + 1)"
proof (induction n rule: log2_floor.induct)
  case (1 n)
  show ?case
  proof (cases "2 \<le> n")
    case True
    with 1 have "2 ^ log2_floor (n div 2) \<le> n div 2" "n div 2 < 2 ^ (log2_floor (n div 2) + 1)" by auto
    with True show ?thesis by (subst (1 2) log2_floor.simps) auto
  next
    case False
    with 1 show ?thesis by (subst (1 2) log2_floor.simps) auto
  qed
qed

lemma log2_floor_less: "n < 2 ^ (k + 1) \<Longrightarrow> log2_floor n \<le> k"
proof (induction k arbitrary: n)
  case 0 then show ?case by (subst log2_floor.simps) simp
next
  case (Suc k) 
  then have "log2_floor (n div 2) \<le> k" by (intro Suc.IH) simp
  then show ?case by (subst log2_floor.simps) simp
qed

lemma log2_floor_div: "2 ^ k \<le> n \<Longrightarrow> log2_floor n = log2_floor (n div 2 ^ k) + k"
proof (induction k arbitrary: n)
  case (Suc k)
  then have "2 \<le> n" by (metis dual_order.trans one_le_numeral one_le_power power_Suc2 mult_le_mono2 nat_mult_1 mult.commute)
  moreover have "log2_floor (n div 2) = log2_floor (n div 2 div 2 ^ k) + k"
    using Suc.prems by (intro Suc.IH) simp
  ultimately show ?case by (subst log2_floor.simps) (simp add: div_mult2_eq)
qed simp

lemma length_vnat: "length (vnat n) = 1 + log2_floor n div 7"
proof (induction n rule: vnat.induct)
  case (1 n)
  show ?case
  proof (cases "n < 128")
    case True
    then have "log2_floor n \<le> 6" by (intro log2_floor_less) simp
    with True show ?thesis by (subst vnat.simps) simp
  next
    case False
    then have "log2_floor n = log2_floor (n div 128) + 7" using log2_floor_div [of 7 n] by simp
    with 1 False show ?thesis by (subst vnat.simps) simp
  qed
qed

lemma log2_floor_or_one: "log2_floor (n OR 1) = log2_floor n"
proof -
  have e: "n OR 1 = n + of_bool (even n)" by (rule or_one_eq)
  have "(n OR 1) div 2 = n div 2" unfolding e by (cases "even n") (auto elim: evenE)
  moreover have "2 \<le> n OR 1 \<longleftrightarrow> 2 \<le> n" unfolding e by (cases "even n") (auto elim: evenE)
  ultimately show ?thesis by (subst (1 2) log2_floor.simps) simp
qed

lemma vsize_arith:
  assumes "l < 64"
  shows "(73 + 9 * l) div 64 = 1 + l div (7::nat)"
proof -
  have "list_all (\<lambda>l. (73 + 9 * l) div 64 = 1 + l div (7::nat)) [0..<64]" by code_simp
  then show ?thesis using assms by (simp add: list_all_iff)
qed

lemma vsize_length:
  "vsize_u32 x = length (vwrite_u32 x)" "vsize_u64 y = length (vwrite_u64 y)"
proof -
  have "unat x < 2 ^ LENGTH(32)" "unat y < 2 ^ LENGTH(64)" by (rule unsigned_less)+
  then have "log2_floor (unat x) \<le> 31" "log2_floor (unat y) \<le> 63"
    by (auto intro!: log2_floor_less)
  then show "vsize_u32 x = length (vwrite_u32 x)" "vsize_u64 y = length (vwrite_u64 y)"
    by (simp_all add: vsize_u32_def vsize_u64_def vwrite_u32_vnat vwrite_u64_vnat length_vnat
        unsigned_or_eq log2_floor_or_one [simplified] vsize_arith)
qed

lemma length_vwrite_bound: "length (vwrite_u32 x) \<le> 5" "length (vwrite_u64 y) \<le> 10"
proof -
  have "unat x < 2 ^ LENGTH(32)" "unat y < 2 ^ LENGTH(64)" by (rule unsigned_less)+
  then have "log2_floor (unat x) \<le> 31" "log2_floor (unat y) \<le> 63"
    by (auto intro!: log2_floor_less)
  then show "length (vwrite_u32 x) \<le> 5" "length (vwrite_u64 y) \<le> 10"
    by (simp_all add: vwrite_u32_vnat vwrite_u64_vnat length_vnat)
qed

section \<open>Zig-zag\<close>

lemma neg_and_one: "- (v AND 1) = (if odd (v :: 'a::len word) then - 1 else 0)"
  by (simp add: and_one_eq odd_iff_mod_2_eq_one)

lemma bit_zz_encode:
  "bit (signed_drop_bit (LENGTH('a) - 1) v XOR push_bit 1 v) i \<longleftrightarrow>
   i < LENGTH('a) \<and> bit v (LENGTH('a) - 1) \<noteq> (0 < i \<and> bit (v :: 'a::len word) (i - 1))"
proof (cases "i < LENGTH('a)")
  case True
  have "bit (signed_drop_bit (LENGTH('a) - 1) v) i \<longleftrightarrow> bit v (LENGTH('a) - 1)"
    using True by (cases i) (auto simp: bit_signed_drop_bit_iff)
  moreover have "bit (push_bit 1 v) i \<longleftrightarrow> 0 < i \<and> bit v (i - 1)"
    unfolding bit_push_bit_iff using True by auto
  ultimately show ?thesis using True unfolding bit_xor_iff by simp
qed (simp add: bit_word_ge_len)

lemma bit_zz_decode:
  "bit (drop_bit 1 v XOR - (v AND 1)) i \<longleftrightarrow>
   i < LENGTH('a) \<and> bit v (i + 1) \<noteq> bit (v :: 'a::len word) 0"
proof (cases "i < LENGTH('a)")
  case True
  then show ?thesis unfolding bit_xor_iff neg_and_one bit_drop_bit_eq by (simp add: bit_0 add.commute)
qed (simp add: bit_word_ge_len)

lemma bit_zig_zag32:
  "bit (zig_zag_encode32 v) i \<longleftrightarrow> i < 32 \<and> bit v 31 \<noteq> (0 < i \<and> bit v (i - 1))"
  "bit (zig_zag_decode32 v) i \<longleftrightarrow> i < 32 \<and> bit v (i + 1) \<noteq> bit v 0"
  using bit_zz_encode [where 'a = 32, of v i] bit_zz_decode [where 'a = 32, of v i]
  unfolding zig_zag_encode32_def zig_zag_decode32_def by simp_all

lemma bit_zig_zag64:
  "bit (zig_zag_encode64 v) i \<longleftrightarrow> i < 64 \<and> bit v 63 \<noteq> (0 < i \<and> bit v (i - 1))"
  "bit (zig_zag_decode64 v) i \<longleftrightarrow> i < 64 \<and> bit v (i + 1) \<noteq> bit v 0"
  using bit_zz_encode [where 'a = 64, of v i] bit_zz_decode [where 'a = 64, of v i]
  unfolding zig_zag_encode64_def zig_zag_decode64_def by simp_all

lemma zig_zag_decode_encode32 [simp]: "zig_zag_decode32 (zig_zag_encode32 v) = v"
proof (rule bit_word_eqI)
  fix n assume "n < LENGTH(32)"
  then show "bit (zig_zag_decode32 (zig_zag_encode32 v)) n = bit v n"
    by (cases "n = 31") (auto simp: bit_zig_zag32 bit_word_ge_len)
qed

lemma zig_zag_decode_encode64 [simp]: "zig_zag_decode64 (zig_zag_encode64 v) = v"
proof (rule bit_word_eqI)
  fix n assume "n < LENGTH(64)"
  then show "bit (zig_zag_decode64 (zig_zag_encode64 v)) n = bit v n"
    by (cases "n = 63") (auto simp: bit_zig_zag64 bit_word_ge_len)
qed

lemma zig_zag_encode_decode32 [simp]: "zig_zag_encode32 (zig_zag_decode32 v) = v"
proof (rule bit_word_eqI)
  fix n assume "n < LENGTH(32)"
  then show "bit (zig_zag_encode32 (zig_zag_decode32 v)) n = bit v n"
    by (cases n) (auto simp: bit_zig_zag32 bit_word_ge_len)
qed

lemma zig_zag_encode_decode64 [simp]: "zig_zag_encode64 (zig_zag_decode64 v) = v"
proof (rule bit_word_eqI)
  fix n assume "n < LENGTH(64)"
  then show "bit (zig_zag_encode64 (zig_zag_decode64 v)) n = bit v n"
    by (cases n) (auto simp: bit_zig_zag64 bit_word_ge_len)
qed

section \<open>Fixed width integers\<close>

lemma read_write_u16: "read_u16 (write_u16 v @ rest) = Some (v, rest)"
  by (auto simp: write_u16_def intro!: bit_word_eqI
      simp: bit_or_iff bit_push_bit_iff bit_ucast_iff bit_drop_bit_eq)

lemma read_write_u32: "read_u32 (write_u32 v @ rest) = Some (v, rest)"
proof -
  let ?w = "push_bit 24 (ucast (ucast (drop_bit 24 v) :: u8)) OR push_bit 16 (ucast (ucast (drop_bit 16 v) :: u8)) OR
      push_bit 8 (ucast (ucast (drop_bit 8 v) :: u8)) OR ucast (ucast v :: u8) :: u32"
  have "?w = v"
  proof (rule bit_word_eqI)
    fix n assume "n < LENGTH(32)"
    then have "n < 8 \<or> (\<exists>m<8. n = 8 + m) \<or> (\<exists>m<8. n = 16 + m) \<or> (\<exists>m<8. n = 24 + m)"
    proof -
      consider "n < 8" | "8 \<le> n" "n < 16" | "16 \<le> n" "n < 24" | "24 \<le> n" "n < 32"
        using \<open>n < LENGTH(32)\<close> by fastforce
      then show ?thesis
        by cases (auto simp: nat_le_iff_add)
    qed
    then show "bit ?w n = bit v n"
      by (elim disjE exE conjE)
         (simp_all add: bit_or_iff bit_push_bit_iff bit_ucast_iff bit_drop_bit_eq)
  qed
  then show ?thesis by (simp add: write_u32_def)
qed

lemma read_write_u64: "read_u64 (write_u64 v @ rest) = Some (v, rest)"
  by (auto simp: write_u64_def read_u64_def read_write_u32 intro!: bit_word_eqI
      simp: bit_or_iff bit_push_bit_iff bit_ucast_iff bit_drop_bit_eq)

section \<open>Delta coding\<close>

lemma delta_decode_encode_from:
  fixes xs :: "'a::ab_group_add list"
  shows "delta_decode_from p (delta_encode_from p xs) = xs"
  by (induction xs arbitrary: p) auto

lemma delta_decode_encode [simp]:
  fixes xs :: "'a::ab_group_add list"
  shows "delta_decode (delta_encode xs) = xs"
  by (cases xs) (simp_all add: delta_decode_encode_from)

lemma vwrite_u64_nonempty: "vwrite_u64 x \<noteq> []"
  by (subst vwrite_u64.simps) simp

lemma vread_all_concat:
  "vread_all (concat (map (\<lambda>x. vwrite_u64 (zig_zag_encode64 x)) xs)) = Some xs"
proof (induction xs)
  case Nil
  show ?case by (subst vread_all.simps) simp
next
  case (Cons x xs)
  then show ?case
    by (subst vread_all.simps) (simp add: vread_u64_vwrite vwrite_u64_nonempty)
qed

section \<open>Flags\<close>

lemma shift_pack_word:
  fixes v :: "'a::len word"
  assumes "\<not> bit v (LENGTH('a) - 1)"
  shows "drop_bit 1 (push_bit 1 v OR of_bool b) = v \<and> ((push_bit 1 v OR of_bool b) AND 1 \<noteq> 0 \<longleftrightarrow> b)"
proof
  show "drop_bit 1 (push_bit 1 v OR of_bool b) = v"
  proof (rule bit_word_eqI)
    fix n assume n: "n < LENGTH('a)"
    have "bit (push_bit 1 v) (1 + n) \<longleftrightarrow> 1 + n < LENGTH('a) \<and> bit v n"
      unfolding bit_push_bit_iff by simp
    moreover have "\<not> bit (of_bool b :: 'a word) (1 + n)" by (simp add: bit_of_bool_iff)
    ultimately show "bit (drop_bit 1 (push_bit 1 v OR of_bool b)) n = bit v n"
      unfolding bit_drop_bit_eq bit_or_iff comp_def using n assms by (cases "n = LENGTH('a) - 1") auto
  qed
  have "bit (push_bit 1 v OR of_bool b) 0 \<longleftrightarrow> b"
    unfolding bit_or_iff bit_push_bit_iff by (simp add: bit_of_bool_iff)
  then show "(push_bit 1 v OR of_bool b) AND 1 \<noteq> 0 \<longleftrightarrow> b"
    unfolding and_one_eq by (simp add: bit_0 odd_iff_mod_2_eq_one)
qed

section \<open>Properties\<close>


text \<open>
  C19: reading a variable width integer back from the bytes that \<open>vwrite\<close> produced gives
  the value and stops exactly behind it, for 32 and 64 bit values.
\<close>

theorem vread_vwrite:
  "vread_u32 (vwrite_u32 x @ rest) = Some (x, rest) \<and>
   vread_u64 (vwrite_u64 y @ rest) = Some (y, rest)"
  by (simp add: vread_u32_vwrite vread_u64_vwrite)

text \<open>
  \<open>vskip\<close> moves behind exactly one encoded value.
\<close>

theorem vskip_vwrite:
  "vskip_u32 (vwrite_u32 x @ rest) = Some rest \<and> vskip_u64 (vwrite_u64 y @ rest) = Some rest"
proof -
  have "unat x < 2 ^ LENGTH(32)" "unat y < 2 ^ LENGTH(64)" by (rule unsigned_less)+
  then have "unat x < 128 ^ (4 + 1)" "unat y < 128 ^ (9 + 1)" by (auto elim!: less_trans)
  then show ?thesis
    by (simp add: vskip_u32_def vskip_u64_def vwrite_u32_vnat vwrite_u64_vnat vskip_rest_vnat)
qed

text \<open>
  C21: the closed formula of \<open>vsize\<close> is the number of bytes \<open>vwrite\<close> emits, and it never
  exceeds \<open>const_max_vsize\<close>, 5 for 32 and 10 for 64 bit values.
\<close>

theorem vsize_correct:
  "vsize_u32 x = length (vwrite_u32 x) \<and> vsize_u32 x \<le> 5 \<and>
   vsize_u64 y = length (vwrite_u64 y) \<and> vsize_u64 y \<le> 10"
  by (simp add: vsize_length length_vwrite_bound)

text \<open>
  C22: zig-zag coding is a bijection on 32 and on 64 bit values, and a zig-zag variable
  width value is read back from what was written.
\<close>

theorem zig_zag_roundtrip:
  "zig_zag_decode32 (zig_zag_encode32 v) = v \<and> zig_zag_encode32 (zig_zag_decode32 v) = v \<and>
   zig_zag_decode64 (zig_zag_encode64 w) = w \<and> zig_zag_encode64 (zig_zag_decode64 w) = w \<and>
   zvread_32 (zvwrite_32 v @ rest) = Some (v, rest) \<and>
   zvread_64 (zvwrite_64 w @ rest) = Some (w, rest)"
  by (simp add: zvread_32_def zvwrite_32_def zvread_64_def zvwrite_64_def
      vread_u32_vwrite vread_u64_vwrite)

text \<open>
  Fixed width integers of 16, 32 and 64 bits are read back from their big endian bytes.
\<close>

theorem read_write_fixed:
  "read_u16 (write_u16 a @ rest) = Some (a, rest) \<and>
   read_u32 (write_u32 b @ rest) = Some (b, rest) \<and>
   read_u64 (write_u64 c @ rest) = Some (c, rest)"
  by (simp add: read_write_u16 read_write_u32 read_write_u64)

text \<open>
  Strings shorter than 4 GiB survive \<open>write_string\<close> and \<open>read_string\<close>, and
  \<open>vwrite_string\<close> and \<open>vread_string\<close>, with the reader stopping behind the string.
\<close>

theorem read_write_string:
  assumes "length s < 2 ^ 32"
  shows "read_string (write_string s @ rest) = Some (s, rest) \<and>
    vread_string (vwrite_string s @ rest) = Some (s, rest)"
proof -
  have "unat (word_of_nat (length s) :: u32) = length s" "unat (word_of_nat (length s) :: u64) = length s"
    using assms by (simp_all add: unat_of_nat)
  then show ?thesis
    by (simp add: read_string_def write_string_def vread_string_def vwrite_string_def
        vread_u32_vwrite vread_u64_vwrite Let_def)
qed

theorem read_write_string_witness:
  "read_string (write_string [1, 2, 3] @ [9]) = Some ([1, 2, 3], [9])"
  using read_write_string [of "[1, 2, 3]" "[9]"] by simp


text \<open>
  \<open>shift_unpack\<close> gives back the value and the flag that \<open>shift_pack\<close> combined, for
  values whose top bit is free, as the source asserts.
\<close>

theorem shift_pack_roundtrip:
  assumes "v \<le> 0x7FFFFFFFFFFFFFFF" and "w \<le> 0x7FFFFFFF"
  shows "shift_unpack_64 (shift_pack_64 v b) = (v, b) \<and> shift_unpack_32 (shift_pack_32 w c) = (w, c)"
proof -
  have "\<not> bit (unat v) 63" "\<not> bit (unat w) 31"
    using assms by (simp_all add: bit_iff_odd word_le_nat_alt)
  then have "\<not> bit v 63" "\<not> bit w 31" by (simp_all add: bit_unsigned_iff)
  then show ?thesis
    using shift_pack_word [of v b] shift_pack_word [of w c]
    unfolding shift_pack_64_def shift_unpack_64_def shift_pack_32_def shift_unpack_32_def by simp
qed

theorem shift_pack_roundtrip_witness:
  "shift_unpack_64 (shift_pack_64 5 True) = (5, True) \<and> shift_unpack_32 (shift_pack_32 9 False) = (9, False)"
  by (rule shift_pack_roundtrip) simp_all

end
