(* ===== verification/DocIterator.thy ===== *)
theory DocIterator
  imports Prelude "HOL-Library.Monad_Syntax"
begin

text \<open>
  Document iterators: the interface \<open>doc_iterator\<close> of \<open>core/index/iterators.hpp\<close>, the
  document limits of \<open>core/utils/type_limits.hpp\<close>, and two leaf iterators, the empty one and
  \<open>AllIterator\<close> of \<open>core/search/all_iterator.hpp\<close>.

  An iterator object is a value of some type \<open>'it\<close>; its virtual table is a record of
  functions on it. \<open>next\<close> and \<open>seek\<close> run loops over other iterators, so a call gives an
  option: \<^term>\<open>None\<close> is a call that does not return. The locale below states what a caller
  may rely on, in terms of the set of documents the iterator stands for.
\<close>

section \<open>Document limits\<close>

text \<open>\<open>doc_id_t\<close> is \<open>uint32_t\<close>; ids are naturals here and the wrap-around of \<open>id + 1\<close> is written out.\<close>

definition doc_invalid :: nat where "doc_invalid = 0"

definition doc_min :: nat where "doc_min = 1"

definition doc_eof :: nat where "doc_eof = 2 ^ 32 - 1"

definition doc_succ :: "nat \<Rightarrow> nat" where "doc_succ d = (d + 1) mod 2 ^ 32"

section \<open>The interface\<close>

record 'it doc_ops =
  value_of :: "'it \<Rightarrow> nat"
  next_of :: "'it \<Rightarrow> (bool \<times> 'it) option"
  seek_of :: "nat \<Rightarrow> 'it \<Rightarrow> (nat \<times> 'it) option"

text \<open>The first document of a set that is not below a target, \<open>eof\<close> when there is none.\<close>

definition first_ge :: "nat set \<Rightarrow> nat \<Rightarrow> nat" where
  "first_ge D t = Min (insert doc_eof {d \<in> D. t \<le> d \<and> d < doc_eof})"

definition doc_set :: "nat set \<Rightarrow> bool" where
  "doc_set D \<longleftrightarrow> D \<subseteq> {doc_min..<doc_eof}"

text \<open>
  The documented contract: a fresh iterator is at \<open>invalid\<close> or \<open>eof\<close>; \<open>next\<close> moves to the
  next document and tells whether there is one; \<open>seek\<close> to a valid target that is not behind
  the iterator moves to the first document not below it. Both keep the set of documents.
  What \<open>seek\<close> does with a target behind the iterator is left open. The part of the contract that only
  concerns \<open>next\<close> is a locale of its own.
\<close>

locale doc_cursor =
  fixes ops :: "'it doc_ops" and docs :: "'it \<Rightarrow> nat set" and invar :: "'it \<Rightarrow> bool"
  assumes docs_set: "invar it \<Longrightarrow> doc_set (docs it)"
    and value_in: "invar it \<Longrightarrow>
      value_of ops it = doc_invalid \<or> value_of ops it = doc_eof \<or> value_of ops it \<in> docs it"
    and next_law: "invar it \<Longrightarrow> \<exists>it'.
      next_of ops it = Some (value_of ops it' \<noteq> doc_eof, it') \<and> invar it' \<and> docs it' = docs it \<and>
      value_of ops it' = first_ge (docs it) (value_of ops it + 1)"

locale doc_iterator = doc_cursor +
  assumes seek_law: "invar it \<Longrightarrow> value_of ops it \<le> t \<Longrightarrow> doc_min \<le> t \<Longrightarrow> t \<le> doc_eof \<Longrightarrow> \<exists>it'.
      seek_of ops t it = Some (value_of ops it', it') \<and> invar it' \<and> docs it' = docs it \<and>
      value_of ops it' = first_ge (docs it) t"

section \<open>Facts on sets of documents\<close>

lemma doc_limits: "doc_invalid < doc_min" "doc_min < doc_eof" "doc_invalid < doc_eof" "doc_min = Suc doc_invalid"
  by (simp_all add: doc_invalid_def doc_min_def doc_eof_def)

lemma finite_first_ge: "finite {d \<in> D. t \<le> d \<and> d < doc_eof}"
  by (rule finite_subset [of _ "{..<doc_eof}"]) auto

lemma first_ge_le_eof [iter_simps]: "first_ge D t \<le> doc_eof"
  unfolding first_ge_def using finite_first_ge by (intro Min_le) auto

lemma first_ge_cases: "first_ge D t = doc_eof \<or> (first_ge D t \<in> D \<and> t \<le> first_ge D t \<and> first_ge D t < doc_eof)"
  using Min_in [of "insert doc_eof {d \<in> D. t \<le> d \<and> d < doc_eof}"] finite_first_ge
  unfolding first_ge_def by auto

lemma first_ge_least: "d \<in> D \<Longrightarrow> t \<le> d \<Longrightarrow> d < doc_eof \<Longrightarrow> first_ge D t \<le> d"
  unfolding first_ge_def using finite_first_ge by (intro Min_le) auto

lemma first_ge_eqI:
  assumes "r \<in> D" "t \<le> r" "r < doc_eof" "\<And>d. d \<in> D \<Longrightarrow> t \<le> d \<Longrightarrow> r \<le> d"
  shows "first_ge D t = r"
  unfolding first_ge_def using assms finite_first_ge by (intro Min_eqI) auto

lemma first_ge_eofI:
  assumes "\<And>d. d \<in> D \<Longrightarrow> t \<le> d \<Longrightarrow> doc_eof \<le> d"
  shows "first_ge D t = doc_eof"
  using first_ge_cases [of D t] assms by fastforce

lemma first_ge_ge: "t \<le> doc_eof \<Longrightarrow> t \<le> first_ge D t"
  using first_ge_cases [of D t] by auto

lemma first_ge_self: "t \<in> D \<Longrightarrow> t < doc_eof \<Longrightarrow> first_ge D t = t"
  by (rule first_ge_eqI) auto

lemma first_ge_at_eof [iter_simps]: "doc_eof \<le> t \<Longrightarrow> first_ge D t = doc_eof"
  by (rule first_ge_eofI) simp

lemma first_ge_fixed: "t \<in> D \<or> t = doc_eof \<Longrightarrow> t \<le> doc_eof \<Longrightarrow> first_ge D t = t"
  by (metis first_ge_at_eof first_ge_self order.order_iff_strict)

text \<open>Skipping ahead to a lower bound of the answer does not change it.\<close>

lemma first_ge_skip:
  assumes "t \<le> u" "\<And>d. d \<in> D \<Longrightarrow> t \<le> d \<Longrightarrow> d < doc_eof \<Longrightarrow> u \<le> d"
  shows "first_ge D u = first_ge D t"
proof -
  have "{d \<in> D. u \<le> d \<and> d < doc_eof} = {d \<in> D. t \<le> d \<and> d < doc_eof}" using assms by force
  then show ?thesis by (simp add: first_ge_def)
qed

lemma first_ge_subset_skip:
  assumes "D \<subseteq> E"
  shows "first_ge D (first_ge E t) = first_ge D t"
proof (cases "t \<le> doc_eof")
  case True
  then show ?thesis
    using assms first_ge_least [of _ E t] by (intro first_ge_skip first_ge_ge) auto
next
  case False
  then show ?thesis by (simp add: first_ge_at_eof)
qed

lemma first_ge_union:
  "first_ge (A \<union> B) t = min (first_ge A t) (first_ge B t)"
proof -
  have e: "insert doc_eof {d \<in> A \<union> B. t \<le> d \<and> d < doc_eof} =
      insert doc_eof {d \<in> A. t \<le> d \<and> d < doc_eof} \<union> insert doc_eof {d \<in> B. t \<le> d \<and> d < doc_eof}"
    by auto
  show ?thesis unfolding first_ge_def e using finite_first_ge by (intro Min_Un) auto
qed

text \<open>
  A sub-iterator at document \<open>v\<close> is usable for a parent at \<open>doc\<close> when it lags behind, so that the
  parent has to seek it, or when it stands on the first own document that is not below \<open>doc\<close>.
\<close>

definition tracks :: "nat set \<Rightarrow> nat \<Rightarrow> nat \<Rightarrow> bool" where
  "tracks D v doc \<longleftrightarrow> v \<le> doc \<or> v = first_ge D doc"

lemma tracks_lag: "v \<le> doc \<Longrightarrow> tracks D v doc"
  by (simp add: tracks_def)

lemma tracks_first_ge: "tracks D (first_ge D doc) doc"
  by (simp add: tracks_def)

lemma tracks_subset: "D \<subseteq> E \<Longrightarrow> tracks D (first_ge D t) (first_ge E t)"
  by (simp add: tracks_def first_ge_subset_skip)

text \<open>A sub-iterator that is not behind a later target stands on the answer for that target.\<close>

lemma tracks_ahead:
  assumes "tracks D v doc" "doc \<le> t" "t \<le> v" "doc < t \<or> v \<in> D \<or> v = doc_eof" "v \<le> doc_eof"
  shows "v = first_ge D t"
proof (cases "v \<le> doc")
  case True
  with assms(2,3) have vt: "v = t" "doc = t" by auto
  with assms(4) have "t \<in> D \<or> t = doc_eof" by auto
  with assms(5) vt show ?thesis by (metis first_ge_fixed)
next
  case False
  with assms(1) have v: "v = first_ge D doc" by (simp add: tracks_def)
  have "first_ge D t = first_ge D doc"
    using assms(2,3) first_ge_least [of _ D doc] unfolding v by (intro first_ge_skip) force+
  with v show ?thesis by simp
qed

lemma tracks_mono:
  assumes "tracks D v doc" "doc \<le> doc'" "v \<le> doc_eof"
  shows "tracks D v doc'"
proof (cases "v \<le> doc'")
  case False
  with assms have "v = first_ge D doc'" by (intro tracks_ahead [OF assms(1,2)]) (use first_ge_cases [of D doc] in \<open>auto simp: tracks_def\<close>)
  then show ?thesis by (simp add: tracks_def)
qed (simp add: tracks_def)

lemma doc_set_less: "doc_set D \<Longrightarrow> d \<in> D \<Longrightarrow> doc_min \<le> d \<and> d < doc_eof"
  by (auto simp: doc_set_def)

section \<open>Draining an iterator\<close>

text \<open>The loop \<open>while (it->next()) consume(it->value())\<close> that evaluates a query, with fuel.\<close>

fun drain :: "nat \<Rightarrow> 'it doc_ops \<Rightarrow> 'it \<Rightarrow> nat list option" where
  "drain 0 ops it = None"
| "drain (Suc n) ops it = do {
     (b, it') \<leftarrow> next_of ops it;
     if b then do { ds \<leftarrow> drain n ops it'; Some (value_of ops it' # ds) } else Some []
   }"

context doc_cursor
begin

lemma value_le_eof: "invar it \<Longrightarrow> value_of ops it \<le> doc_eof"
  using value_in [of it] docs_set [of it] doc_limits by (auto simp: doc_set_def)

lemma drain_correct:
  assumes "invar it" "card {d \<in> docs it. value_of ops it < d} < n"
  shows "drain n ops it = Some (sorted_list_of_set {d \<in> docs it. value_of ops it < d})"
  using assms
proof (induction n arbitrary: it)
  case 0
  then show ?case by simp
next
  case (Suc n)
  let ?v = "value_of ops it" and ?D = "docs it"
  let ?S = "{d \<in> ?D. ?v < d}"
  from next_law [OF Suc.prems(1)] obtain it' where
    it': "next_of ops it = Some (value_of ops it' \<noteq> doc_eof, it')" "invar it'" "docs it' = ?D"
    and v': "value_of ops it' = first_ge ?D (?v + 1)" by blast
  have fin: "finite ?S"
    by (rule finite_subset [of _ "{..<doc_eof}"]) (use docs_set [OF Suc.prems(1)] in \<open>auto simp: doc_set_def\<close>)
  show ?case
  proof (cases "first_ge ?D (?v + 1) = doc_eof")
    case True
    have "?S = {}"
    proof (rule ccontr)
      assume "?S \<noteq> {}"
      then obtain d where "d \<in> ?D" "?v < d" by auto
      with first_ge_least [of d ?D "?v + 1"] True docs_set [OF Suc.prems(1)]
      show False by (auto simp: doc_set_def)
    qed
    with True it' v' show ?thesis by (simp only: drain.simps) simp
  next
    case False
    let ?r = "first_ge ?D (?v + 1)"
    have r: "?r \<in> ?D" "?v < ?r" using first_ge_cases [of ?D "?v + 1"] False by auto
    have S: "?S = insert ?r {d \<in> ?D. ?r < d}"
      using r first_ge_least [of _ ?D "?v + 1"] doc_set_less [OF docs_set [OF Suc.prems(1)]]
      by (force simp: order.order_iff_strict)
    have fin': "finite {d \<in> ?D. ?r < d}" using fin S by (metis finite_insert)
    have "card {d \<in> docs it'. value_of ops it' < d} < n"
      using Suc.prems(2) S fin' unfolding it'(3) v' by simp
    with Suc.IH [OF it'(2)] have "drain n ops it' = Some (sorted_list_of_set {d \<in> ?D. ?r < d})"
      by (simp add: it'(3) v')
    moreover have "sorted_list_of_set ?S = ?r # sorted_list_of_set {d \<in> ?D. ?r < d}"
    proof -
      have "sorted_list_of_set ?S = insort ?r (sorted_list_of_set {d \<in> ?D. ?r < d})"
        unfolding S using fin' by (simp add: sorted_list_of_set.fold_insort_key.insert)
      also have "\<dots> = ?r # sorted_list_of_set {d \<in> ?D. ?r < d}"
        using fin' by (intro insort_is_Cons) auto
      finally show ?thesis .
    qed
    ultimately show ?thesis using it' v' False by simp
  qed
qed

end

lemmas iterator_docs_set = doc_cursor.docs_set [OF doc_iterator.axioms(1)]

lemmas iterator_drain = doc_cursor.drain_correct [OF doc_iterator.axioms(1)]

section \<open>Leaf iterators\<close>

text \<open>\<open>doc_iterator::empty()\<close>: always at \<open>eof\<close>.\<close>

definition empty_ops :: "unit doc_ops" where
  "empty_ops = \<lparr>value_of = \<lambda>_. doc_eof, next_of = \<lambda>_. Some (False, ()), seek_of = \<lambda>_ _. Some (doc_eof, ())\<rparr>"

text \<open>\<open>AllIterator\<close>: every document up to \<open>max_doc_\<close>.\<close>

record all_iterator =
  all_max_doc :: nat
  all_doc :: nat

definition all_next :: "all_iterator \<Rightarrow> bool \<times> all_iterator" where
  "all_next it =
     (if all_max_doc it \<le> all_doc it then (False, it\<lparr>all_doc := doc_eof\<rparr>)
      else (True, it\<lparr>all_doc := doc_succ (all_doc it)\<rparr>))"

definition all_seek :: "nat \<Rightarrow> all_iterator \<Rightarrow> nat \<times> all_iterator" where
  "all_seek target it =
     (let v = (if target \<le> all_max_doc it then target else doc_eof)
      in (v, it\<lparr>all_doc := v\<rparr>))"

definition all_ops :: "all_iterator doc_ops" where
  "all_ops = \<lparr>value_of = all_doc, next_of = \<lambda>it. Some (all_next it), seek_of = \<lambda>t it. Some (all_seek t it)\<rparr>"

definition all_docs :: "all_iterator \<Rightarrow> nat set" where
  "all_docs it = {doc_min..all_max_doc it}"

definition all_invar :: "all_iterator \<Rightarrow> bool" where
  "all_invar it \<longleftrightarrow> all_max_doc it < doc_eof \<and> (all_doc it \<le> all_max_doc it \<or> all_doc it = doc_eof)"

interpretation empty_it: doc_iterator empty_ops "\<lambda>_. {}" "\<lambda>_. True"
  by unfold_locales (auto simp: empty_ops_def doc_set_def first_ge_def)

interpretation all_it: doc_iterator all_ops all_docs all_invar
proof (unfold_locales, goal_cases)
  case (1 it) then show ?case by (auto simp: doc_set_def all_docs_def all_invar_def)
next
  case (2 it) then show ?case
    by (auto simp: all_ops_def all_docs_def all_invar_def doc_min_def doc_invalid_def)
next
  case (3 it)
  show ?case
  proof (cases "all_max_doc it \<le> all_doc it")
    case True
    then have "first_ge (all_docs it) (all_doc it + 1) = doc_eof"
      by (intro first_ge_eofI) (auto simp: all_docs_def)
    with True 3 show ?thesis by (auto simp: all_ops_def all_next_def all_docs_def all_invar_def)
  next
    case False
    then have s: "doc_succ (all_doc it) = all_doc it + 1"
      using 3 by (simp add: doc_succ_def all_invar_def doc_eof_def)
    have "first_ge (all_docs it) (all_doc it + 1) = all_doc it + 1"
      using False 3 by (intro first_ge_self) (auto simp: all_docs_def all_invar_def doc_min_def)
    with False 3 s show ?thesis by (auto simp: all_ops_def all_next_def all_docs_def all_invar_def)
  qed
next
  case (4 it t)
  have "first_ge (all_docs it) t = (if t \<le> all_max_doc it then t else doc_eof)"
    using 4 by (auto simp: all_docs_def all_invar_def intro!: first_ge_self first_ge_eofI)
  with 4 show ?case by (auto simp: all_ops_def all_seek_def all_docs_def all_invar_def Let_def)
qed

text \<open>
  \<open>AllIterator\<close> yields every document from 1 to the largest one, in order.
\<close>

theorem all_iteration:
  assumes "m < doc_eof" "m < n"
  shows "drain n all_ops \<lparr>all_max_doc = m, all_doc = doc_invalid\<rparr> = Some [doc_min..<m + 1]"
proof -
  let ?it = "\<lparr>all_max_doc = m, all_doc = doc_invalid\<rparr>"
  have e: "{d \<in> all_docs ?it. value_of all_ops ?it < d} = set [doc_min..<m + 1]"
    by (auto simp: all_docs_def all_ops_def doc_invalid_def doc_min_def)
  have s: "sorted_list_of_set (set [doc_min..<m + 1]) = [doc_min..<m + 1]"
    by (rule sorted_list_of_set.idem_if_sorted_distinct) (simp_all del: upt_Suc add: sorted_wrt_upt)
  have "card (set [doc_min..<m + 1]) < n" using assms(2) by (subst distinct_card) (simp_all add: doc_min_def)
  moreover have "all_invar ?it" using assms(1) by (simp add: all_invar_def doc_invalid_def)
  ultimately have "drain n all_ops ?it = Some (sorted_list_of_set (set [doc_min..<m + 1]))"
    using all_it.drain_correct [of ?it n] unfolding e by blast
  then show ?thesis unfolding s .
qed

theorem all_iteration_witness: "drain 5 all_ops \<lparr>all_max_doc = 3, all_doc = doc_invalid\<rparr> = Some [1, 2, 3]"
  using all_iteration [of 3 5] by (simp add: doc_eof_def doc_min_def upt_rec)

end
