(* ===== verification/Conjunction.thy ===== *)
theory Conjunction
  imports DocIterator
begin

text \<open>
  The conjunction of document iterators, \<open>Conjunction\<close> of \<open>core/search/conjunction.hpp\<close>, over
  the virtual table of its sub-iterators. Sub-iterators are never at \<open>eof\<close> when a
  conjunction is built (the query layer returns the empty iterator instead), which the
  invariant records.
\<close>

record 'it conjunction =
  conj_front :: 'it
  conj_tail :: "'it list"

definition conj_value :: "'it doc_ops \<Rightarrow> 'it conjunction \<Rightarrow> nat" where
  "conj_value ops c = value_of ops (conj_front c)"

text \<open>
  One run of the \<open>for\<close> loop of \<open>converge\<close>: seek every tail iterator to the target; the first
  one that lands behind it stops the loop with its document.
\<close>

fun converge_pass ::
  "'it doc_ops \<Rightarrow> nat \<Rightarrow> 'it list \<Rightarrow> (nat option \<times> 'it list) option" where
  "converge_pass ops target [] = Some (None, [])"
| "converge_pass ops target (it # its) = do {
     (doc, it') \<leftarrow> seek_of ops target it;
     if target < doc then Some (Some doc, it' # its)
     else do {
       (r, its') \<leftarrow> converge_pass ops target its;
       Some (r, it' # its')
     }
   }"

text \<open>\<open>converge\<close>, with its \<open>goto restart\<close> as the recursive call.\<close>

partial_function (option) converge ::
  "'it doc_ops \<Rightarrow> nat \<Rightarrow> 'it \<Rightarrow> 'it list \<Rightarrow> (nat \<times> 'it \<times> 'it list) option" where
  "converge ops target front tail = do {
     (r, tail') \<leftarrow> converge_pass ops target tail;
     case r of
       None \<Rightarrow> Some (target, front, tail')
     | Some doc \<Rightarrow> do {
         (target', front') \<leftarrow> seek_of ops doc front;
         if target' \<noteq> doc_eof then converge ops target' front' tail'
         else Some (target', front', tail')
       }
   }"

declare converge.simps [code]

definition conj_next :: "'it doc_ops \<Rightarrow> 'it conjunction \<Rightarrow> (bool \<times> 'it conjunction) option" where
  "conj_next ops c = do {
     (b, front) \<leftarrow> next_of ops (conj_front c);
     if \<not> b then Some (False, c\<lparr>conj_front := front\<rparr>)
     else do {
       (doc, front', tail') \<leftarrow> converge ops (value_of ops front) front (conj_tail c);
       Some (doc \<noteq> doc_eof, \<lparr>conj_front = front', conj_tail = tail'\<rparr>)
     }
   }"

definition conj_seek ::
  "'it doc_ops \<Rightarrow> nat \<Rightarrow> 'it conjunction \<Rightarrow> (nat \<times> 'it conjunction) option" where
  "conj_seek ops target c = do {
     (target', front) \<leftarrow> seek_of ops target (conj_front c);
     if target' = doc_eof then Some (doc_eof, c\<lparr>conj_front := front\<rparr>)
     else do {
       (doc, front', tail') \<leftarrow> converge ops target' front (conj_tail c);
       Some (doc, \<lparr>conj_front = front', conj_tail = tail'\<rparr>)
     }
   }"

definition conj_ops :: "'it doc_ops \<Rightarrow> 'it conjunction doc_ops" where
  "conj_ops ops = \<lparr>value_of = conj_value ops, next_of = conj_next ops, seek_of = conj_seek ops\<rparr>"

section \<open>Specification\<close>

definition conj_docs :: "('it \<Rightarrow> nat set) \<Rightarrow> 'it conjunction \<Rightarrow> nat set" where
  "conj_docs docs c = docs (conj_front c) \<inter> (\<Inter>it\<in>set (conj_tail c). docs it)"

definition conj_invar ::
  "'it doc_ops \<Rightarrow> ('it \<Rightarrow> nat set) \<Rightarrow> ('it \<Rightarrow> bool) \<Rightarrow> 'it conjunction \<Rightarrow> bool" where
  "conj_invar ops docs invar c \<longleftrightarrow>
     invar (conj_front c) \<and>
     (\<forall>it\<in>set (conj_tail c). invar it \<and> value_of ops it \<le> value_of ops (conj_front c)) \<and>
     (conj_value ops c = doc_invalid \<or> conj_value ops c = doc_eof \<or> conj_value ops c \<in> conj_docs docs c)"

section \<open>Correctness\<close>

context doc_iterator
begin

lemma converge_pass_correct:
  assumes "\<forall>it\<in>set its. invar it \<and> value_of ops it \<le> t" "doc_min \<le> t" "t < doc_eof"
  shows "\<exists>r its'. converge_pass ops t its = Some (r, its') \<and> map docs its' = map docs its \<and>
    (\<forall>it\<in>set its'. invar it) \<and>
    (case r of None \<Rightarrow> (\<forall>it\<in>set its'. value_of ops it \<le> t \<and> t \<in> docs it)
     | Some doc \<Rightarrow> t < doc \<and> doc \<le> doc_eof \<and> (\<forall>it\<in>set its'. value_of ops it \<le> doc) \<and>
         (\<exists>it\<in>set its'. \<forall>d\<in>docs it. t \<le> d \<longrightarrow> doc \<le> d))"
  using assms
proof (induction its)
  case Nil
  then show ?case by simp
next
  case (Cons it its)
  from seek_law [of it t] Cons.prems obtain it' where
    s: "seek_of ops t it = Some (value_of ops it', it')" "invar it'" "docs it' = docs it"
      "value_of ops it' = first_ge (docs it) t"
    by auto
  show ?case
  proof (cases "t < first_ge (docs it) t")
    case True
    have "\<forall>d\<in>docs it. t \<le> d \<longrightarrow> first_ge (docs it) t \<le> d"
      using first_ge_least docs_set [of it] Cons.prems(1) by (auto simp: doc_set_def)
    with True s Cons.prems show ?thesis
      by (intro exI [of _ "Some (first_ge (docs it) t)"] exI [of _ "it' # its"])
         (auto simp: first_ge_le_eof intro: less_imp_le order.trans)
  next
    case False
    then have e: "first_ge (docs it) t = t" using first_ge_ge [of t "docs it"] Cons.prems(3) by simp
    then have "t \<in> docs it" using first_ge_cases [of "docs it" t] Cons.prems(3) by auto
    moreover obtain r its' where
      "converge_pass ops t its = Some (r, its')" "map docs its' = map docs its"
      "\<forall>it\<in>set its'. invar it"
      and r: "case r of None \<Rightarrow> (\<forall>it\<in>set its'. value_of ops it \<le> t \<and> t \<in> docs it)
       | Some doc \<Rightarrow> t < doc \<and> doc \<le> doc_eof \<and> (\<forall>it\<in>set its'. value_of ops it \<le> doc) \<and>
           (\<exists>it\<in>set its'. \<forall>d\<in>docs it. t \<le> d \<longrightarrow> doc \<le> d)"
      using Cons by auto
    ultimately show ?thesis using e s False
      by (intro exI [of _ r] exI [of _ "it' # its'"]) (auto split: option.splits)
  qed
qed

lemma inter_docs_map_eq:
  "map docs xs = map docs ys \<Longrightarrow> (\<Inter>it\<in>set xs. docs it) = (\<Inter>it\<in>set ys. docs it)"
  by (metis (mono_tags, lifting) image_set)

lemma converge_correct:
  assumes "invar f" "value_of ops f \<in> docs f" "\<forall>it\<in>set its. invar it \<and> value_of ops it \<le> value_of ops f"
  shows "\<exists>f' its'. converge ops (value_of ops f) f its = Some (value_of ops f', f', its') \<and>
    invar f' \<and> docs f' = docs f \<and> map docs its' = map docs its \<and>
    (\<forall>it\<in>set its'. invar it \<and> value_of ops it \<le> value_of ops f') \<and>
    value_of ops f' = first_ge (docs f \<inter> (\<Inter>it\<in>set its. docs it)) (value_of ops f)"
  using assms
proof (induction "doc_eof - value_of ops f" arbitrary: f its rule: less_induct)
  case less
  let ?t = "value_of ops f" and ?I = "docs f \<inter> (\<Inter>it\<in>set its. docs it)"
  have t: "doc_min \<le> ?t" "?t < doc_eof"
    using docs_set [OF less.prems(1)] less.prems(2) by (auto simp: doc_set_def)
  from converge_pass_correct [OF less.prems(3) t] obtain r its' where
    p: "converge_pass ops ?t its = Some (r, its')" "map docs its' = map docs its" "\<forall>it\<in>set its'. invar it"
    and r: "case r of None \<Rightarrow> (\<forall>it\<in>set its'. value_of ops it \<le> ?t \<and> ?t \<in> docs it)
       | Some doc \<Rightarrow> ?t < doc \<and> doc \<le> doc_eof \<and> (\<forall>it\<in>set its'. value_of ops it \<le> doc) \<and>
           (\<exists>it\<in>set its'. \<forall>d\<in>docs it. ?t \<le> d \<longrightarrow> doc \<le> d)" by blast
  note I' = inter_docs_map_eq [OF p(2)]
  show ?case
  proof (cases r)
    case None
    then have "?t \<in> ?I" using r less.prems(2) unfolding I' [symmetric] by auto
    then have "first_ge ?I ?t = ?t" using t by (intro first_ge_self)
    with None r p less.prems show ?thesis
      by (intro exI [of _ f] exI [of _ its']) (subst converge.simps, auto)
  next
    case (Some doc)
    then have doc: "?t < doc" "doc \<le> doc_eof" "\<forall>it\<in>set its'. value_of ops it \<le> doc"
      and skip: "\<And>d. d \<in> ?I \<Longrightarrow> ?t \<le> d \<Longrightarrow> doc \<le> d"
      using r unfolding I' [symmetric] by auto
    from seek_law [OF less.prems(1), of doc] doc t obtain f' where
      f': "seek_of ops doc f = Some (value_of ops f', f')" "invar f'" "docs f' = docs f"
        "value_of ops f' = first_ge (docs f) doc" by auto
    have ge: "doc \<le> value_of ops f'" using first_ge_ge [OF doc(2)] f'(4) by simp
    have eq: "first_ge ?I (value_of ops f') = first_ge ?I ?t"
      using skip ge doc first_ge_least [of _ "docs f" doc] unfolding f'(4)
      by (intro first_ge_skip) auto
    show ?thesis
    proof (cases "value_of ops f' = doc_eof")
      case True
      then have "first_ge ?I ?t = doc_eof" using eq by (simp add: first_ge_at_eof)
      with True Some p f' doc ge show ?thesis
        by (intro exI [of _ f'] exI [of _ its']) (subst converge.simps, auto)
    next
      case False
      then have in': "value_of ops f' \<in> docs f'" using first_ge_cases [of "docs f" doc] f' by auto
      have closer: "doc_eof - value_of ops f' < doc_eof - ?t" using ge doc t by linarith
      have tl: "\<forall>it\<in>set its'. invar it \<and> value_of ops it \<le> value_of ops f'"
        using p(3) doc(3) ge by (meson order.trans)
      from less.hyps [OF closer f'(2) in' tl] obtain f2 its2 where
        c: "converge ops (value_of ops f') f' its' = Some (value_of ops f2, f2, its2)"
          "invar f2" "docs f2 = docs f'" "map docs its2 = map docs its'"
          "\<forall>it\<in>set its2. invar it \<and> value_of ops it \<le> value_of ops f2"
          "value_of ops f2 = first_ge (docs f' \<inter> (\<Inter>it\<in>set its'. docs it)) (value_of ops f')"
        by blast
      have "converge ops ?t f its = Some (value_of ops f2, f2, its2)"
        using p(1) Some f'(1) False c(1) by (subst converge.simps) simp
      with c p f' eq show ?thesis unfolding I' [symmetric] by auto
    qed
  qed
qed

lemma conj_next_correct:
  assumes "conj_invar ops docs invar c"
  shows "\<exists>c'. next_of (conj_ops ops) c = Some (value_of (conj_ops ops) c' \<noteq> doc_eof, c') \<and>
    conj_invar ops docs invar c' \<and> conj_docs docs c' = conj_docs docs c \<and>
    value_of (conj_ops ops) c' = first_ge (conj_docs docs c) (value_of (conj_ops ops) c + 1)"
proof -
  let ?f = "conj_front c" and ?its = "conj_tail c"
  let ?I = "docs ?f \<inter> (\<Inter>it\<in>set ?its. docs it)"
  have inv: "invar ?f" "\<forall>it\<in>set ?its. invar it \<and> value_of ops it \<le> value_of ops ?f"
    using assms by (auto simp: conj_invar_def)
  from next_law [OF inv(1)] obtain f where
    f: "next_of ops ?f = Some (value_of ops f \<noteq> doc_eof, f)" "invar f" "docs f = docs ?f"
      "value_of ops f = first_ge (docs ?f) (value_of ops ?f + 1)" by blast
  have ge: "value_of ops ?f \<le> value_of ops f"
    using first_ge_ge [of "value_of ops ?f + 1" "docs ?f"] value_le_eof [OF inv(1)] f(4)
      first_ge_at_eof [of "value_of ops ?f + 1" "docs ?f"] by (cases "value_of ops ?f = doc_eof") auto
  have eq: "first_ge ?I (value_of ops f) = first_ge ?I (value_of ops ?f + 1)"
    unfolding f(4) by (intro first_ge_subset_skip) auto
  show ?thesis
  proof (cases "value_of ops f = doc_eof")
    case True
    then have "first_ge ?I (value_of ops ?f + 1) = doc_eof" using eq by (simp add: first_ge_at_eof)
    with True f inv ge show ?thesis
      by (auto simp: conj_ops_def conj_next_def conj_value_def conj_docs_def conj_invar_def
          intro!: exI [of _ "c\<lparr>conj_front := f\<rparr>"] dest: order.trans)
  next
    case False
    then have in': "value_of ops f \<in> docs f" "value_of ops ?f + 1 \<le> value_of ops f"
      using first_ge_cases [of "docs ?f" "value_of ops ?f + 1"] f by auto
    have tl: "\<forall>it\<in>set ?its. invar it \<and> value_of ops it \<le> value_of ops f"
      using inv(2) ge by (meson order.trans)
    from converge_correct [OF f(2) in'(1) tl] obtain f' its' where
      c: "converge ops (value_of ops f) f ?its = Some (value_of ops f', f', its')"
        "invar f'" "docs f' = docs f" "map docs its' = map docs ?its"
        "\<forall>it\<in>set its'. invar it \<and> value_of ops it \<le> value_of ops f'"
        "value_of ops f' = first_ge (docs f \<inter> (\<Inter>it\<in>set ?its. docs it)) (value_of ops f)"
      by blast
    have v: "value_of ops f' = first_ge ?I (value_of ops ?f + 1)" using c(6) eq in'(2) f(3) by simp
    have "conj_next ops c = Some (value_of ops f' \<noteq> doc_eof, \<lparr>conj_front = f', conj_tail = its'\<rparr>)"
      using f(1) False c(1) by (simp add: conj_next_def)
    with c v f inter_docs_map_eq [OF c(4)] first_ge_cases [of ?I "value_of ops ?f + 1"] show ?thesis
      by (intro exI [of _ "\<lparr>conj_front = f', conj_tail = its'\<rparr>"])
         (auto simp: conj_ops_def conj_value_def conj_docs_def conj_invar_def)
  qed
qed

lemma conj_seek_correct:
  assumes "conj_invar ops docs invar c" "value_of (conj_ops ops) c \<le> t" "doc_min \<le> t" "t \<le> doc_eof"
  shows "\<exists>c'. seek_of (conj_ops ops) t c = Some (value_of (conj_ops ops) c', c') \<and>
    conj_invar ops docs invar c' \<and> conj_docs docs c' = conj_docs docs c \<and>
    value_of (conj_ops ops) c' = first_ge (conj_docs docs c) t"
proof -
  let ?f = "conj_front c" and ?its = "conj_tail c"
  let ?I = "docs ?f \<inter> (\<Inter>it\<in>set ?its. docs it)"
  have inv: "invar ?f" "\<forall>it\<in>set ?its. invar it \<and> value_of ops it \<le> value_of ops ?f"
    and le: "value_of ops ?f \<le> t" using assms by (auto simp: conj_invar_def conj_ops_def conj_value_def)
  from seek_law [OF inv(1) le assms(3,4)] obtain f where
    f: "seek_of ops t ?f = Some (value_of ops f, f)" "invar f" "docs f = docs ?f"
      "value_of ops f = first_ge (docs ?f) t" by blast
  have ge: "value_of ops ?f \<le> value_of ops f" "t \<le> value_of ops f"
    using first_ge_ge [OF assms(4), of "docs ?f"] le f(4) by simp_all
  have eq: "first_ge ?I (value_of ops f) = first_ge ?I t"
    unfolding f(4) by (intro first_ge_subset_skip) auto
  show ?thesis
  proof (cases "value_of ops f = doc_eof")
    case True
    then have "first_ge ?I t = doc_eof" using eq by (simp add: first_ge_at_eof)
    with True f inv ge show ?thesis
      by (auto simp: conj_ops_def conj_seek_def conj_value_def conj_docs_def conj_invar_def
          intro!: exI [of _ "c\<lparr>conj_front := f\<rparr>"] dest: order.trans)
  next
    case False
    then have in': "value_of ops f \<in> docs f" using first_ge_cases [of "docs ?f" t] f by auto
    have tl: "\<forall>it\<in>set ?its. invar it \<and> value_of ops it \<le> value_of ops f"
      using inv(2) ge by (meson order.trans)
    from converge_correct [OF f(2) in' tl] obtain f' its' where
      c: "converge ops (value_of ops f) f ?its = Some (value_of ops f', f', its')"
        "invar f'" "docs f' = docs f" "map docs its' = map docs ?its"
        "\<forall>it\<in>set its'. invar it \<and> value_of ops it \<le> value_of ops f'"
        "value_of ops f' = first_ge (docs f \<inter> (\<Inter>it\<in>set ?its. docs it)) (value_of ops f)"
      by blast
    have v: "value_of ops f' = first_ge ?I t" using c(6) eq f(3) by simp
    have "conj_seek ops t c = Some (value_of ops f', \<lparr>conj_front = f', conj_tail = its'\<rparr>)"
      using f(1) False c(1) by (simp add: conj_seek_def)
    with c v f inter_docs_map_eq [OF c(4)] first_ge_cases [of ?I t] show ?thesis
      by (intro exI [of _ "\<lparr>conj_front = f', conj_tail = its'\<rparr>"])
         (auto simp: conj_ops_def conj_value_def conj_docs_def conj_invar_def)
  qed
qed

text \<open>The conjunction is again an iterator, for the intersection of the document sets.\<close>

lemma conj_iterator: "doc_iterator (conj_ops ops) (conj_docs docs) (conj_invar ops docs invar)"
proof (unfold_locales, goal_cases)
  case (1 c) then show ?case using docs_set by (auto simp: conj_invar_def conj_docs_def doc_set_def)
next
  case (2 c) then show ?case by (auto simp: conj_invar_def conj_ops_def)
next
  case (3 c) then show ?case by (rule conj_next_correct)
next
  case (4 c t) then show ?case by (rule conj_seek_correct)
qed

end

section \<open>Properties\<close>

interpretation all_conj: doc_iterator "conj_ops all_ops" "conj_docs all_docs" "conj_invar all_ops all_docs all_invar"
  by (rule all_it.conj_iterator)

text \<open>
  C13: over sub-iterators that keep the iterator contract the conjunction keeps it
  too, for the intersection of their documents: \<open>next\<close> and \<open>seek\<close> return, and stop at the first
  common document behind the current one, respectively not below the target.
\<close>

theorem conjunction_contract:
  assumes "doc_iterator ops docs invar" "conj_invar ops docs invar c"
  shows "(\<exists>c'. conj_next ops c = Some (conj_value ops c' \<noteq> doc_eof, c') \<and> conj_invar ops docs invar c' \<and>
      conj_docs docs c' = conj_docs docs c \<and> conj_value ops c' = first_ge (conj_docs docs c) (conj_value ops c + 1)) \<and>
    (\<forall>t. conj_value ops c \<le> t \<and> doc_min \<le> t \<and> t \<le> doc_eof \<longrightarrow>
      (\<exists>c'. conj_seek ops t c = Some (conj_value ops c', c') \<and> conj_invar ops docs invar c' \<and>
        conj_docs docs c' = conj_docs docs c \<and> conj_value ops c' = first_ge (conj_docs docs c) t))"
  using doc_iterator.conj_next_correct [OF assms] doc_iterator.conj_seek_correct [OF assms]
  by (simp add: conj_ops_def)

theorem conjunction_contract_witness:
  "\<exists>c'. conj_seek all_ops 2 \<lparr>conj_front = \<lparr>all_max_doc = 9, all_doc = 0\<rparr>, conj_tail = [\<lparr>all_max_doc = 4, all_doc = 0\<rparr>]\<rparr> =
     Some (2, c')"
proof -
  let ?c = "\<lparr>conj_front = \<lparr>all_max_doc = 9, all_doc = 0\<rparr>, conj_tail = [\<lparr>all_max_doc = 4, all_doc = 0\<rparr>]\<rparr>"
  have inv: "conj_invar all_ops all_docs all_invar ?c"
    by (simp add: conj_invar_def conj_value_def all_invar_def all_ops_def doc_eof_def doc_invalid_def)
  have b: "conj_value all_ops ?c \<le> 2 \<and> doc_min \<le> 2 \<and> 2 \<le> doc_eof"
    by (simp add: conj_value_def all_ops_def doc_eof_def doc_min_def)
  have "first_ge (conj_docs all_docs ?c) 2 = 2"
    by (rule first_ge_self) (simp_all add: conj_docs_def all_docs_def doc_eof_def doc_min_def)
  with conjunction_contract [OF all_it.doc_iterator_axioms inv] b show ?thesis by metis
qed

text \<open>
  A conjunction built over fresh sub-iterators yields the common documents in
  increasing order, each once, and stops.
\<close>

theorem conjunction_drain:
  assumes "doc_iterator ops docs invar" "\<forall>it\<in>set (f # its). invar it \<and> value_of ops it = doc_invalid"
    "card (docs f \<inter> (\<Inter>it\<in>set its. docs it)) < n"
  shows "drain n (conj_ops ops) \<lparr>conj_front = f, conj_tail = its\<rparr> =
    Some (sorted_list_of_set (docs f \<inter> (\<Inter>it\<in>set its. docs it)))"
proof -
  let ?c = "\<lparr>conj_front = f, conj_tail = its\<rparr>" and ?D = "docs f \<inter> (\<Inter>it\<in>set its. docs it)"
  have "doc_set (docs f)" using iterator_docs_set [OF assms(1), of f] assms(2) by simp
  then have e: "{d \<in> conj_docs docs ?c. value_of (conj_ops ops) ?c < d} = ?D"
    using assms(2) by (auto simp: conj_docs_def conj_ops_def conj_value_def doc_invalid_def doc_set_def doc_min_def)
  have "conj_invar ops docs invar ?c" using assms(2) by (simp add: conj_invar_def conj_value_def)
  from iterator_drain [OF doc_iterator.conj_iterator [OF assms(1)] this, of n] assms(3)
  show ?thesis unfolding e by simp
qed

theorem conjunction_drain_witness:
  "drain 5 (conj_ops all_ops) \<lparr>conj_front = \<lparr>all_max_doc = 9, all_doc = 0\<rparr>, conj_tail = [\<lparr>all_max_doc = 3, all_doc = 0\<rparr>]\<rparr> =
     Some [1, 2, 3]"
proof -
  have "{1..9} \<inter> {1..3} = {1, 2, 3 :: nat}" by auto
  then show ?thesis
    using conjunction_drain [OF all_it.doc_iterator_axioms, of "\<lparr>all_max_doc = 9, all_doc = 0\<rparr>" "[\<lparr>all_max_doc = 3, all_doc = 0\<rparr>]" 5]
    by (simp add: all_invar_def all_ops_def all_docs_def doc_eof_def doc_min_def doc_invalid_def)
qed

end
