(* ===== verification/Exclusion.thy ===== *)
theory Exclusion
  imports DocIterator
begin

text \<open>
  The exclusion of document iterators, \<open>exclusion\<close> of \<open>core/search/exclusion.hpp\<close>: the documents
  of the included iterator that the excluded one does not have. The two iterators may be of
  different kinds, so there is a virtual table for each.
\<close>

record ('i, 'e) exclusion =
  excl_incl :: 'i
  excl_excl :: 'e

definition exclusion_value :: "'i doc_ops \<Rightarrow> ('i, 'e) exclusion \<Rightarrow> nat" where
  "exclusion_value iops x = value_of iops (excl_incl x)"

text \<open>The statement \<open>if (excl < target) excl = excl_->seek(target)\<close> that occurs twice in the private \<open>next\<close>.\<close>

definition excl_catch_up :: "'e doc_ops \<Rightarrow> nat \<Rightarrow> nat \<Rightarrow> 'e \<Rightarrow> (nat \<times> 'e) option" where
  "excl_catch_up eops target excl e = (if excl < target then seek_of eops target e else Some (excl, e))"

text \<open>The loop of the private \<open>next(target)\<close>.\<close>

partial_function (option) exclusion_loop ::
  "'i doc_ops \<Rightarrow> 'e doc_ops \<Rightarrow> nat \<Rightarrow> nat \<Rightarrow> 'i \<Rightarrow> 'e \<Rightarrow> (nat \<times> 'i \<times> 'e) option" where
  "exclusion_loop iops eops target excl i e =
     (if excl = target then do {
        (b, i') \<leftarrow> next_of iops i;
        if \<not> b then Some (value_of iops i', i', e)
        else do {
          (excl', e') \<leftarrow> excl_catch_up eops (value_of iops i') excl e;
          exclusion_loop iops eops (value_of iops i') excl' i' e'
        }
      } else Some (target, i, e))"

declare exclusion_loop.simps [code]

definition exclusion_next_impl ::
  "'i doc_ops \<Rightarrow> 'e doc_ops \<Rightarrow> nat \<Rightarrow> 'i \<Rightarrow> 'e \<Rightarrow> (nat \<times> 'i \<times> 'e) option" where
  "exclusion_next_impl iops eops target i e = do {
     (excl, e') \<leftarrow> excl_catch_up eops target (value_of eops e) e;
     exclusion_loop iops eops target excl i e'
   }"

definition exclusion_next ::
  "'i doc_ops \<Rightarrow> 'e doc_ops \<Rightarrow> ('i, 'e) exclusion \<Rightarrow> (bool \<times> ('i, 'e) exclusion) option" where
  "exclusion_next iops eops x = do {
     (b, i) \<leftarrow> next_of iops (excl_incl x);
     if \<not> b then Some (False, x\<lparr>excl_incl := i\<rparr>)
     else do {
       (doc, i', e') \<leftarrow> exclusion_next_impl iops eops (value_of iops i) i (excl_excl x);
       Some (doc \<noteq> doc_eof, \<lparr>excl_incl = i', excl_excl = e'\<rparr>)
     }
   }"

definition exclusion_seek ::
  "'i doc_ops \<Rightarrow> 'e doc_ops \<Rightarrow> nat \<Rightarrow> ('i, 'e) exclusion \<Rightarrow> (nat \<times> ('i, 'e) exclusion) option" where
  "exclusion_seek iops eops target x =
     (if target = doc_invalid then Some (value_of iops (excl_incl x), x)
      else do {
        (target', i) \<leftarrow> seek_of iops target (excl_incl x);
        if target' = doc_eof then Some (target', x\<lparr>excl_incl := i\<rparr>)
        else do {
          (doc, i', e') \<leftarrow> exclusion_next_impl iops eops target' i (excl_excl x);
          Some (doc, \<lparr>excl_incl = i', excl_excl = e'\<rparr>)
        }
      })"

definition exclusion_ops :: "'i doc_ops \<Rightarrow> 'e doc_ops \<Rightarrow> ('i, 'e) exclusion doc_ops" where
  "exclusion_ops iops eops =
     \<lparr>value_of = exclusion_value iops, next_of = exclusion_next iops eops, seek_of = exclusion_seek iops eops\<rparr>"

section \<open>Specification\<close>

definition exclusion_docs :: "('i \<Rightarrow> nat set) \<Rightarrow> ('e \<Rightarrow> nat set) \<Rightarrow> ('i, 'e) exclusion \<Rightarrow> nat set" where
  "exclusion_docs idocs edocs x = idocs (excl_incl x) - edocs (excl_excl x)"

definition exclusion_invar ::
  "'i doc_ops \<Rightarrow> ('i \<Rightarrow> nat set) \<Rightarrow> ('i \<Rightarrow> bool) \<Rightarrow> 'e doc_ops \<Rightarrow> ('e \<Rightarrow> nat set) \<Rightarrow> ('e \<Rightarrow> bool) \<Rightarrow>
   ('i, 'e) exclusion \<Rightarrow> bool" where
  "exclusion_invar iops idocs iinv eops edocs einv x \<longleftrightarrow>
     iinv (excl_incl x) \<and> einv (excl_excl x) \<and>
     tracks (edocs (excl_excl x)) (value_of eops (excl_excl x)) (exclusion_value iops x) \<and>
     exclusion_value iops x \<notin> edocs (excl_excl x)"

lemmas exclusion_simps = exclusion_ops_def exclusion_value_def exclusion_docs_def exclusion_invar_def

section \<open>Correctness\<close>

text \<open>The two providers an exclusion relies on.\<close>

locale exclusion_providers =
  incl: doc_iterator iops idocs iinv + excl: doc_iterator eops edocs einv
  for iops :: "'i doc_ops" and idocs iinv and eops :: "'e doc_ops" and edocs einv
begin

lemma catch_up_correct:
  assumes "einv e" "tracks (edocs e) (value_of eops e) t" "doc_min \<le> t" "t < doc_eof"
  shows "\<exists>e'. excl_catch_up eops t (value_of eops e) e = Some (value_of eops e', e') \<and> einv e' \<and>
    edocs e' = edocs e \<and> tracks (edocs e) (value_of eops e') t \<and> (value_of eops e' = t \<longleftrightarrow> t \<in> edocs e)"
proof (cases "value_of eops e < t")
  case True
  with excl.seek_law [of e t] assms obtain e' where
    e': "seek_of eops t e = Some (value_of eops e', e')" "einv e'" "edocs e' = edocs e"
      "value_of eops e' = first_ge (edocs e) t" by auto
  have "first_ge (edocs e) t = t \<longleftrightarrow> t \<in> edocs e"
    using first_ge_cases [of "edocs e" t] first_ge_self [of t "edocs e"] assms(4) by auto
  with True e' show ?thesis by (auto simp: excl_catch_up_def tracks_first_ge)
next
  case False
  have "value_of eops e = t \<longleftrightarrow> t \<in> edocs e"
    using False assms first_ge_self [of t "edocs e"] first_ge_cases [of "edocs e" t] excl.value_in [of e]
      doc_limits by (auto simp: tracks_def)
  with False assms show ?thesis by (auto simp: excl_catch_up_def)
qed

lemma loop_correct:
  assumes "iinv i" "einv e" "value_of iops i \<in> idocs i"
    "tracks (edocs e) (value_of eops e) (value_of iops i)"
    "value_of eops e = value_of iops i \<longleftrightarrow> value_of iops i \<in> edocs e"
  shows "\<exists>i' e'. exclusion_loop iops eops (value_of iops i) (value_of eops e) i e = Some (value_of iops i', i', e') \<and>
    iinv i' \<and> einv e' \<and> idocs i' = idocs i \<and> edocs e' = edocs e \<and>
    tracks (edocs e) (value_of eops e') (value_of iops i') \<and>
    value_of iops i' = first_ge (idocs i - edocs e) (value_of iops i)"
  using assms
proof (induction "doc_eof - value_of iops i" arbitrary: i e rule: less_induct)
  case less
  let ?t = "value_of iops i" and ?D = "idocs i - edocs e"
  have t: "doc_min \<le> ?t" "?t < doc_eof"
    using doc_set_less [OF incl.docs_set [OF less.prems(1)] less.prems(3)] by auto
  show ?case
  proof (cases "value_of eops e = ?t")
    case False
    then have "first_ge ?D ?t = ?t" using less.prems t by (intro first_ge_self) auto
    with False less.prems show ?thesis by (subst exclusion_loop.simps) auto
  next
    case True
    from incl.next_law [OF less.prems(1)] obtain i' where
      i': "next_of iops i = Some (value_of iops i' \<noteq> doc_eof, i')" "iinv i'" "idocs i' = idocs i"
        "value_of iops i' = first_ge (idocs i) (?t + 1)" by blast
    have lt: "?t < value_of iops i'" using first_ge_ge [of "?t + 1" "idocs i"] t i'(4) by simp
    have eq: "first_ge ?D (value_of iops i') = first_ge ?D ?t"
    proof (rule first_ge_skip)
      fix d assume d: "d \<in> ?D" "?t \<le> d" "d < doc_eof"
      then have "d \<noteq> ?t" using True less.prems(5) by auto
      with d show "value_of iops i' \<le> d" using first_ge_least [of d "idocs i" "?t + 1"] i'(4) by simp
    qed (use lt in simp)
    show ?thesis
    proof (cases "value_of iops i' = doc_eof")
      case eof: True
      then have "first_ge ?D ?t = doc_eof" using eq by (simp add: first_ge_at_eof)
      with eof True i' less.prems t show ?thesis
        by (subst exclusion_loop.simps) (auto intro!: tracks_lag)
    next
      case False
      then have in': "value_of iops i' \<in> idocs i'" using first_ge_cases [of "idocs i" "?t + 1"] i' by auto
      then have b: "doc_min \<le> value_of iops i'" "value_of iops i' < doc_eof"
        using doc_set_less [OF incl.docs_set [OF i'(2)] in'] by auto
      have "tracks (edocs e) (value_of eops e) (value_of iops i')"
        using True lt by (intro tracks_lag) simp
      from catch_up_correct [OF less.prems(2) this b] obtain e' where
        e': "excl_catch_up eops (value_of iops i') (value_of eops e) e = Some (value_of eops e', e')" "einv e'"
          "edocs e' = edocs e" "tracks (edocs e) (value_of eops e') (value_of iops i')"
          "value_of eops e' = value_of iops i' \<longleftrightarrow> value_of iops i' \<in> edocs e" by blast
      have closer: "doc_eof - value_of iops i' < doc_eof - ?t" using lt b by linarith
      from less.hyps [OF closer i'(2) e'(2) in'] e' obtain i2 e2 where
        r: "exclusion_loop iops eops (value_of iops i') (value_of eops e') i' e' = Some (value_of iops i2, i2, e2)"
          "iinv i2" "einv e2" "idocs i2 = idocs i'" "edocs e2 = edocs e"
          "tracks (edocs e) (value_of eops e2) (value_of iops i2)"
          "value_of iops i2 = first_ge (idocs i' - edocs e) (value_of iops i')" by auto
      have "exclusion_loop iops eops ?t (value_of eops e) i e = Some (value_of iops i2, i2, e2)"
        using True False i'(1) e'(1) r(1) by (subst exclusion_loop.simps) simp
      with r eq i'(3) show ?thesis by auto
    qed
  qed
qed

lemma next_impl_correct:
  assumes "iinv i" "einv e" "value_of iops i \<in> idocs i" "tracks (edocs e) (value_of eops e) (value_of iops i)"
  shows "\<exists>i' e'. exclusion_next_impl iops eops (value_of iops i) i e = Some (value_of iops i', i', e') \<and>
    iinv i' \<and> einv e' \<and> idocs i' = idocs i \<and> edocs e' = edocs e \<and>
    tracks (edocs e) (value_of eops e') (value_of iops i') \<and>
    value_of iops i' = first_ge (idocs i - edocs e) (value_of iops i)"
proof -
  have "doc_min \<le> value_of iops i" "value_of iops i < doc_eof"
    using doc_set_less [OF incl.docs_set [OF assms(1)] assms(3)] by auto
  from catch_up_correct [OF assms(2,4) this] obtain e' where
    e': "excl_catch_up eops (value_of iops i) (value_of eops e) e = Some (value_of eops e', e')" "einv e'"
      "edocs e' = edocs e" "tracks (edocs e') (value_of eops e') (value_of iops i)"
      "value_of eops e' = value_of iops i \<longleftrightarrow> value_of iops i \<in> edocs e'" by auto
  from loop_correct [OF assms(1) e'(2) assms(3) e'(4,5)] e'(1,3) show ?thesis
    by (auto simp: exclusion_next_impl_def)
qed

lemma lead_at_eof:
  "einv e \<Longrightarrow> tracks (edocs e) (value_of eops e) doc_eof \<and> doc_eof \<notin> edocs e"
  using excl.value_le_eof [of e] excl.docs_set [of e] by (auto simp: tracks_def doc_set_def)

lemma excl_not_first_ge: "einv e \<Longrightarrow> first_ge (D - edocs e) t \<notin> edocs e"
  using first_ge_cases [of "D - edocs e" t] excl.docs_set [of e] by (auto simp: doc_set_def)

lemma exclusion_next_correct:
  assumes "exclusion_invar iops idocs iinv eops edocs einv x"
  shows "\<exists>x'. next_of (exclusion_ops iops eops) x = Some (value_of (exclusion_ops iops eops) x' \<noteq> doc_eof, x') \<and>
    exclusion_invar iops idocs iinv eops edocs einv x' \<and> exclusion_docs idocs edocs x' = exclusion_docs idocs edocs x \<and>
    value_of (exclusion_ops iops eops) x' = first_ge (exclusion_docs idocs edocs x) (value_of (exclusion_ops iops eops) x + 1)"
proof -
  let ?i = "excl_incl x" and ?e = "excl_excl x"
  have inv: "iinv ?i" "einv ?e" "tracks (edocs ?e) (value_of eops ?e) (value_of iops ?i)"
    using assms by (auto simp: exclusion_invar_def exclusion_value_def)
  from incl.next_law [OF inv(1)] obtain i where
    i: "next_of iops ?i = Some (value_of iops i \<noteq> doc_eof, i)" "iinv i" "idocs i = idocs ?i"
      "value_of iops i = first_ge (idocs ?i) (value_of iops ?i + 1)" by blast
  have eq: "first_ge (idocs ?i - edocs ?e) (value_of iops i) = first_ge (idocs ?i - edocs ?e) (value_of iops ?i + 1)"
    unfolding i(4) by (intro first_ge_subset_skip) auto
  show ?thesis
  proof (cases "value_of iops i = doc_eof")
    case True
    with eq i(1-3) inv lead_at_eof [OF inv(2)] show ?thesis
      by (intro exI [of _ "x\<lparr>excl_incl := i\<rparr>"]) (simp add: exclusion_simps first_ge_at_eof exclusion_next_def)
  next
    case False
    have in': "value_of iops i \<in> idocs i" and le: "value_of iops ?i \<le> value_of iops i"
      using first_ge_cases [of "idocs ?i" "value_of iops ?i + 1"] False i by auto
    from next_impl_correct [OF i(2) inv(2) in' tracks_mono [OF inv(3) le excl.value_le_eof [OF inv(2)]]]
    obtain i' e' where
      r: "exclusion_next_impl iops eops (value_of iops i) i ?e = Some (value_of iops i', i', e')"
        "iinv i'" "einv e'" "idocs i' = idocs i" "edocs e' = edocs ?e"
        "tracks (edocs ?e) (value_of eops e') (value_of iops i')"
        "value_of iops i' = first_ge (idocs i - edocs ?e) (value_of iops i)" by blast
    with eq i False excl_not_first_ge [OF inv(2)] show ?thesis
      by (intro exI [of _ "\<lparr>excl_incl = i', excl_excl = e'\<rparr>"]) (simp add: exclusion_simps exclusion_next_def)
  qed
qed

lemma exclusion_seek_correct:
  assumes "exclusion_invar iops idocs iinv eops edocs einv x" "value_of (exclusion_ops iops eops) x \<le> t" "doc_min \<le> t" "t \<le> doc_eof"
  shows "\<exists>x'. seek_of (exclusion_ops iops eops) t x = Some (value_of (exclusion_ops iops eops) x', x') \<and>
    exclusion_invar iops idocs iinv eops edocs einv x' \<and> exclusion_docs idocs edocs x' = exclusion_docs idocs edocs x \<and>
    value_of (exclusion_ops iops eops) x' = first_ge (exclusion_docs idocs edocs x) t"
proof -
  let ?i = "excl_incl x" and ?e = "excl_excl x"
  have inv: "iinv ?i" "einv ?e" "tracks (edocs ?e) (value_of eops ?e) (value_of iops ?i)"
    and le: "value_of iops ?i \<le> t" and t: "t \<noteq> doc_invalid"
    using assms doc_limits by (auto simp: exclusion_invar_def exclusion_value_def exclusion_ops_def)
  from incl.seek_law [OF inv(1) le assms(3,4)] obtain i where
    i: "seek_of iops t ?i = Some (value_of iops i, i)" "iinv i" "idocs i = idocs ?i"
      "value_of iops i = first_ge (idocs ?i) t" by blast
  have eq: "first_ge (idocs ?i - edocs ?e) (value_of iops i) = first_ge (idocs ?i - edocs ?e) t"
    unfolding i(4) by (intro first_ge_subset_skip) auto
  show ?thesis
  proof (cases "value_of iops i = doc_eof")
    case True
    with eq i(1-3) t inv lead_at_eof [OF inv(2)] show ?thesis
      by (intro exI [of _ "x\<lparr>excl_incl := i\<rparr>"]) (simp add: exclusion_simps first_ge_at_eof exclusion_seek_def)
  next
    case False
    have in': "value_of iops i \<in> idocs i" and le': "value_of iops ?i \<le> value_of iops i"
      using first_ge_cases [of "idocs ?i" t] False i le by auto
    from next_impl_correct [OF i(2) inv(2) in' tracks_mono [OF inv(3) le' excl.value_le_eof [OF inv(2)]]]
    obtain i' e' where
      r: "exclusion_next_impl iops eops (value_of iops i) i ?e = Some (value_of iops i', i', e')"
        "iinv i'" "einv e'" "idocs i' = idocs i" "edocs e' = edocs ?e"
        "tracks (edocs ?e) (value_of eops e') (value_of iops i')"
        "value_of iops i' = first_ge (idocs i - edocs ?e) (value_of iops i)" by blast
    with eq i t False excl_not_first_ge [OF inv(2)] show ?thesis
      by (intro exI [of _ "\<lparr>excl_incl = i', excl_excl = e'\<rparr>"]) (simp add: exclusion_simps exclusion_seek_def)
  qed
qed

lemma exclusion_iterator:
  "doc_iterator (exclusion_ops iops eops) (exclusion_docs idocs edocs)
     (exclusion_invar iops idocs iinv eops edocs einv)"
proof (unfold_locales, goal_cases)
  case (1 x) then show ?case
    using incl.docs_set by (auto simp: exclusion_invar_def exclusion_docs_def doc_set_def)
next
  case (2 x) then show ?case
    using incl.value_in by (auto simp: exclusion_invar_def exclusion_docs_def exclusion_ops_def exclusion_value_def)
next
  case (3 x) then show ?case by (rule exclusion_next_correct)
next
  case (4 x t) then show ?case by (rule exclusion_seek_correct)
qed

end

section \<open>Properties\<close>

text \<open>
  An exclusion built over fresh iterators yields the documents of the included one
  that the excluded one does not have, in increasing order, and stops.
\<close>

theorem exclusion_drain:
  assumes "doc_iterator iops idocs iinv" "doc_iterator eops edocs einv"
    "iinv i" "einv e" "value_of iops i = doc_invalid" "value_of eops e = doc_invalid" "card (idocs i - edocs e) < n"
  shows "drain n (exclusion_ops iops eops) \<lparr>excl_incl = i, excl_excl = e\<rparr> =
    Some (sorted_list_of_set (idocs i - edocs e))"
proof -
  let ?x = "\<lparr>excl_incl = i, excl_excl = e\<rparr>"
  have p: "exclusion_providers iops idocs iinv eops edocs einv"
    using assms(1,2) by (simp add: exclusion_providers_def)
  have ds: "doc_set (idocs i)" "doc_set (edocs e)"
    using iterator_docs_set [OF assms(1,3)] iterator_docs_set [OF assms(2,4)] by auto
  then have e: "{d \<in> exclusion_docs idocs edocs ?x. value_of (exclusion_ops iops eops) ?x < d} = idocs i - edocs e"
    using assms(5) by (auto simp: exclusion_simps doc_set_def doc_min_def doc_invalid_def)
  have "exclusion_invar iops idocs iinv eops edocs einv ?x"
    using assms(3-6) ds(2) by (auto simp: exclusion_simps tracks_def doc_set_def doc_limits)
  from iterator_drain [OF exclusion_providers.exclusion_iterator [OF p] this, of n] assms(7)
  show ?thesis unfolding e by simp
qed

interpretation all_excl: exclusion_providers all_ops all_docs all_invar all_ops all_docs all_invar
  by (simp add: exclusion_providers_def all_it.doc_iterator_axioms)

theorem exclusion_drain_witness:
  "drain 4 (exclusion_ops all_ops all_ops)
     \<lparr>excl_incl = \<lparr>all_max_doc = 5, all_doc = 0\<rparr>, excl_excl = \<lparr>all_max_doc = 3, all_doc = 0\<rparr>\<rparr> = Some [4, 5]"
proof -
  have "{1..5} - {1..3} = {4, 5 :: nat}" by auto
  then show ?thesis
    using exclusion_drain [OF all_it.doc_iterator_axioms all_it.doc_iterator_axioms,
      of "\<lparr>all_max_doc = 5, all_doc = 0\<rparr>" "\<lparr>all_max_doc = 3, all_doc = 0\<rparr>" 4]
    by (simp add: all_invar_def all_ops_def all_docs_def doc_eof_def doc_min_def doc_invalid_def)
qed

text \<open>
  C15: on a positioned exclusion \<open>next\<close> returns and stops at the first document of
  the difference behind the current one; \<open>seek\<close> to the invalid document is a no-op, \<open>seek\<close> forward
  stops at the first document of the difference that is not below the target.
\<close>

theorem exclusion_contract:
  assumes "doc_iterator iops idocs iinv" "doc_iterator eops edocs einv"
    "exclusion_invar iops idocs iinv eops edocs einv x"
  shows "(\<exists>x'. exclusion_next iops eops x = Some (exclusion_value iops x' \<noteq> doc_eof, x') \<and>
      exclusion_invar iops idocs iinv eops edocs einv x' \<and> exclusion_docs idocs edocs x' = exclusion_docs idocs edocs x \<and>
      exclusion_value iops x' = first_ge (exclusion_docs idocs edocs x) (exclusion_value iops x + 1)) \<and>
    exclusion_seek iops eops doc_invalid x = Some (exclusion_value iops x, x) \<and>
    (\<forall>t. exclusion_value iops x \<le> t \<and> doc_min \<le> t \<and> t \<le> doc_eof \<longrightarrow>
      (\<exists>x'. exclusion_seek iops eops t x = Some (exclusion_value iops x', x') \<and>
      exclusion_invar iops idocs iinv eops edocs einv x' \<and> exclusion_docs idocs edocs x' = exclusion_docs idocs edocs x \<and>
      exclusion_value iops x' = first_ge (exclusion_docs idocs edocs x) t))"
proof -
  have p: "exclusion_providers iops idocs iinv eops edocs einv"
    using assms(1,2) by (simp add: exclusion_providers_def)
  show ?thesis
    using exclusion_providers.exclusion_next_correct [OF p assms(3)]
      exclusion_providers.exclusion_seek_correct [OF p assms(3)]
    by (simp add: exclusion_ops_def) (simp add: exclusion_seek_def exclusion_value_def)
qed

theorem exclusion_contract_witness:
  "\<exists>x'. exclusion_seek all_ops all_ops 4
     \<lparr>excl_incl = \<lparr>all_max_doc = 5, all_doc = 0\<rparr>, excl_excl = \<lparr>all_max_doc = 3, all_doc = 0\<rparr>\<rparr> = Some (4, x')"
proof -
  let ?x = "\<lparr>excl_incl = \<lparr>all_max_doc = 5, all_doc = 0\<rparr>, excl_excl = \<lparr>all_max_doc = 3, all_doc = 0\<rparr>\<rparr>"
  have inv: "exclusion_invar all_ops all_docs all_invar all_ops all_docs all_invar ?x"
    by (simp add: exclusion_simps tracks_def all_invar_def all_ops_def all_docs_def doc_eof_def doc_min_def)
  have b: "exclusion_value all_ops ?x \<le> 4 \<and> doc_min \<le> 4 \<and> 4 \<le> doc_eof"
    by (simp add: exclusion_value_def all_ops_def doc_eof_def doc_min_def)
  have "first_ge (exclusion_docs all_docs all_docs ?x) 4 = 4"
    by (rule first_ge_self) (simp_all add: exclusion_docs_def all_docs_def doc_eof_def doc_min_def)
  with exclusion_contract [OF all_it.doc_iterator_axioms all_it.doc_iterator_axioms inv] b show ?thesis by metis
qed

end
