(* ===== verification/Disjunction.thy ===== *)
theory Disjunction
  imports DocIterator
begin

text \<open>
  The disjunction of two document iterators, \<open>basic_disjunction\<close> of \<open>core/search/disjunction.hpp\<close>,
  with the traversal of the matching sub-iterators (\<open>visit\<close>). A sub-iterator may lag behind the
  current document, because \<open>seek\<close> stops at the first hit; every operation that needs its
  position moves it first.
\<close>

record 'it basic_disjunction =
  bd_lhs :: 'it
  bd_rhs :: 'it
  bd_doc :: nat

definition seek_iterator_impl :: "'it doc_ops \<Rightarrow> nat \<Rightarrow> 'it \<Rightarrow> (bool \<times> 'it) option" where
  "seek_iterator_impl ops target it =
     (if value_of ops it < target then do {
        (v, it') \<leftarrow> seek_of ops target it;
        Some (target = v, it')
      } else Some (False, it))"

definition next_iterator_impl :: "'it doc_ops \<Rightarrow> nat \<Rightarrow> 'it \<Rightarrow> 'it option" where
  "next_iterator_impl ops doc it =
     (let v = value_of ops it in
      if doc = v then do { (_, it') \<leftarrow> next_of ops it; Some it' }
      else if v < doc then do { (_, it') \<leftarrow> seek_of ops ((doc + of_bool (doc \<noteq> doc_eof)) mod 2 ^ 32) it; Some it' }
      else Some it)"

definition bd_next :: "'it doc_ops \<Rightarrow> 'it basic_disjunction \<Rightarrow> (bool \<times> 'it basic_disjunction) option" where
  "bd_next ops s = do {
     l \<leftarrow> next_iterator_impl ops (bd_doc s) (bd_lhs s);
     r \<leftarrow> next_iterator_impl ops (bd_doc s) (bd_rhs s);
     let doc = min (value_of ops l) (value_of ops r);
     Some (doc \<noteq> doc_eof, \<lparr>bd_lhs = l, bd_rhs = r, bd_doc = doc\<rparr>)
   }"

definition bd_seek :: "'it doc_ops \<Rightarrow> nat \<Rightarrow> 'it basic_disjunction \<Rightarrow> (nat \<times> 'it basic_disjunction) option" where
  "bd_seek ops target s =
     (if target \<le> bd_doc s then Some (bd_doc s, s)
      else do {
        (bl, l) \<leftarrow> seek_iterator_impl ops target (bd_lhs s);
        if bl then Some (target, \<lparr>bd_lhs = l, bd_rhs = bd_rhs s, bd_doc = target\<rparr>)
        else do {
          (br, r) \<leftarrow> seek_iterator_impl ops target (bd_rhs s);
          let doc = (if br then target else min (value_of ops l) (value_of ops r));
          Some (doc, \<lparr>bd_lhs = l, bd_rhs = r, bd_doc = doc\<rparr>)
        }
      })"

text \<open>
  \<open>visit\<close>: the visitor is called on every sub-iterator that stands on the current document,
  until it answers false. \<open>seek_iterator_impl\<close> moves a lagging right iterator first.
\<close>

definition bd_visit ::
  "'it doc_ops \<Rightarrow> ('ctx \<Rightarrow> 'it \<Rightarrow> bool \<times> 'ctx) \<Rightarrow> 'ctx \<Rightarrow> 'it basic_disjunction \<Rightarrow>
   ('ctx \<times> 'it basic_disjunction) option" where
  "bd_visit ops visitor ctx s =
     (let doc = bd_doc s;
          (cont, ctx1) = (if value_of ops (bd_lhs s) = doc then visitor ctx (bd_lhs s) else (True, ctx))
      in if \<not> cont then Some (ctx1, s)
         else do {
           (_, r) \<leftarrow> seek_iterator_impl ops doc (bd_rhs s);
           Some (if value_of ops r = doc then snd (visitor ctx1 r) else ctx1, s\<lparr>bd_rhs := r\<rparr>)
         })"

definition bd_ops :: "'it doc_ops \<Rightarrow> 'it basic_disjunction doc_ops" where
  "bd_ops ops = \<lparr>value_of = bd_doc, next_of = bd_next ops, seek_of = bd_seek ops\<rparr>"

section \<open>Specification\<close>

definition bd_docs :: "('it \<Rightarrow> nat set) \<Rightarrow> 'it basic_disjunction \<Rightarrow> nat set" where
  "bd_docs docs s = docs (bd_lhs s) \<union> docs (bd_rhs s)"

definition bd_invar ::
  "'it doc_ops \<Rightarrow> ('it \<Rightarrow> nat set) \<Rightarrow> ('it \<Rightarrow> bool) \<Rightarrow> 'it basic_disjunction \<Rightarrow> bool" where
  "bd_invar ops docs invar s \<longleftrightarrow>
     invar (bd_lhs s) \<and> invar (bd_rhs s) \<and> bd_doc s \<le> value_of ops (bd_lhs s) \<and>
     tracks (docs (bd_lhs s)) (value_of ops (bd_lhs s)) (bd_doc s) \<and>
     tracks (docs (bd_rhs s)) (value_of ops (bd_rhs s)) (bd_doc s) \<and>
     (bd_doc s = doc_invalid \<or> bd_doc s = doc_eof \<or> bd_doc s \<in> bd_docs docs s)"

lemmas bd_simps = bd_ops_def bd_docs_def bd_invar_def

section \<open>Correctness\<close>

context doc_iterator
begin

text \<open>\<open>next_iterator_impl\<close> leaves a sub-iterator on its first document behind the parent's.\<close>

lemma next_iterator_impl_correct:
  assumes "invar it" "tracks (docs it) (value_of ops it) doc" "doc \<le> doc_eof"
  shows "\<exists>it'. next_iterator_impl ops doc it = Some it' \<and> invar it' \<and> docs it' = docs it \<and>
    value_of ops it' = first_ge (docs it) (doc + 1)"
proof -
  consider (same) "doc = value_of ops it" | (lag) "value_of ops it < doc" | (ahead) "doc < value_of ops it"
    by linarith
  then show ?thesis
  proof cases
    case same
    with next_law [OF assms(1)] show ?thesis by (auto simp: next_iterator_impl_def)
  next
    case lag
    let ?t = "(doc + of_bool (doc \<noteq> doc_eof)) mod 2 ^ 32"
    have t: "?t = (if doc = doc_eof then doc_eof else doc + 1)"
      using assms(3) by (auto simp: doc_eof_def)
    have "first_ge (docs it) ?t = first_ge (docs it) (doc + 1)" unfolding t by (simp add: first_ge_at_eof)
    moreover have "value_of ops it \<le> ?t" "doc_min \<le> ?t" "?t \<le> doc_eof"
      unfolding t using lag assms(3) by (auto simp: doc_min_def)
    ultimately show ?thesis using seek_law [OF assms(1), of ?t] lag
      by (auto simp: next_iterator_impl_def Let_def)
  next
    case ahead
    have "value_of ops it = first_ge (docs it) (doc + 1)"
      using ahead by (intro tracks_ahead [OF assms(2)] value_le_eof assms(1)) auto
    with ahead assms(1) show ?thesis by (auto simp: next_iterator_impl_def)
  qed
qed

text \<open>\<open>seek_iterator_impl\<close> leaves it on its first document that is not below the target.\<close>

lemma seek_iterator_impl_correct:
  assumes "invar it" "tracks (docs it) (value_of ops it) doc" "doc < t" "t \<le> doc_eof"
  shows "\<exists>b it'. seek_iterator_impl ops t it = Some (b, it') \<and> invar it' \<and> docs it' = docs it \<and>
    value_of ops it' = first_ge (docs it) t \<and> (b \<longrightarrow> first_ge (docs it) t = t)"
proof (cases "value_of ops it < t")
  case True
  have "value_of ops it \<le> t" "doc_min \<le> t" using True assms(3) by (auto simp: doc_min_def)
  with seek_law [OF assms(1)] assms(4) True show ?thesis by (fastforce simp: seek_iterator_impl_def)
next
  case False
  have "value_of ops it = first_ge (docs it) t"
    using False assms(3) by (intro tracks_ahead [OF assms(2)] value_le_eof assms(1)) auto
  with False assms(1) show ?thesis by (auto simp: seek_iterator_impl_def)
qed

lemma bd_next_correct:
  assumes "bd_invar ops docs invar s"
  shows "\<exists>s'. next_of (bd_ops ops) s = Some (value_of (bd_ops ops) s' \<noteq> doc_eof, s') \<and>
    bd_invar ops docs invar s' \<and> bd_docs docs s' = bd_docs docs s \<and>
    value_of (bd_ops ops) s' = first_ge (bd_docs docs s) (value_of (bd_ops ops) s + 1)"
proof -
  have inv: "invar (bd_lhs s)" "invar (bd_rhs s)"
    "tracks (docs (bd_lhs s)) (value_of ops (bd_lhs s)) (bd_doc s)"
    "tracks (docs (bd_rhs s)) (value_of ops (bd_rhs s)) (bd_doc s)"
    using assms by (auto simp: bd_simps)
  have le: "bd_doc s \<le> doc_eof"
    using assms docs_set [OF inv(1)] docs_set [OF inv(2)] doc_limits by (auto simp: bd_simps doc_set_def)
  let ?D = "docs (bd_lhs s) \<union> docs (bd_rhs s)" and ?t = "bd_doc s + 1"
  obtain l where l: "next_iterator_impl ops (bd_doc s) (bd_lhs s) = Some l" "invar l" "docs l = docs (bd_lhs s)"
    "value_of ops l = first_ge (docs (bd_lhs s)) ?t"
    using next_iterator_impl_correct [OF inv(1,3) le] by blast
  obtain r where r: "next_iterator_impl ops (bd_doc s) (bd_rhs s) = Some r" "invar r" "docs r = docs (bd_rhs s)"
    "value_of ops r = first_ge (docs (bd_rhs s)) ?t"
    using next_iterator_impl_correct [OF inv(2,4) le] by blast
  have m: "min (value_of ops l) (value_of ops r) = first_ge ?D ?t" using l(4) r(4) by (simp add: first_ge_union)
  have "tracks (docs l) (value_of ops l) (first_ge ?D ?t)" "tracks (docs r) (value_of ops r) (first_ge ?D ?t)"
    unfolding l(3,4) r(3,4) by (auto intro!: tracks_subset)
  then show ?thesis using l r m first_ge_cases [of ?D ?t] min.cobounded1 [of "value_of ops l"]
    by (intro exI [of _ "\<lparr>bd_lhs = l, bd_rhs = r, bd_doc = first_ge ?D ?t\<rparr>"])
       (auto simp: bd_simps bd_next_def)
qed

lemma bd_seek_correct:
  assumes "bd_invar ops docs invar s" "value_of (bd_ops ops) s \<le> t" "doc_min \<le> t" "t \<le> doc_eof"
  shows "\<exists>s'. seek_of (bd_ops ops) t s = Some (value_of (bd_ops ops) s', s') \<and>
    bd_invar ops docs invar s' \<and> bd_docs docs s' = bd_docs docs s \<and>
    value_of (bd_ops ops) s' = first_ge (bd_docs docs s) t"
proof -
  have inv: "invar (bd_lhs s)" "invar (bd_rhs s)"
    "tracks (docs (bd_lhs s)) (value_of ops (bd_lhs s)) (bd_doc s)"
    "tracks (docs (bd_rhs s)) (value_of ops (bd_rhs s)) (bd_doc s)"
    using assms by (auto simp: bd_simps)
  let ?D = "docs (bd_lhs s) \<union> docs (bd_rhs s)"
  show ?thesis
  proof (cases "t \<le> bd_doc s")
    case True
    then have "bd_doc s = t" using assms by (simp add: bd_ops_def)
    moreover from this have "first_ge ?D t = t"
      using assms doc_limits by (intro first_ge_fixed) (auto simp: bd_simps)
    ultimately show ?thesis using assms True by (auto simp: bd_simps bd_seek_def)
  next
    case False
    obtain bl l where l: "seek_iterator_impl ops t (bd_lhs s) = Some (bl, l)" "invar l" "docs l = docs (bd_lhs s)"
      "value_of ops l = first_ge (docs (bd_lhs s)) t" "bl \<longrightarrow> first_ge (docs (bd_lhs s)) t = t"
      using seek_iterator_impl_correct [OF inv(1,3)] False assms(4) by (metis not_le)
    obtain br r where r: "seek_iterator_impl ops t (bd_rhs s) = Some (br, r)" "invar r" "docs r = docs (bd_rhs s)"
      "value_of ops r = first_ge (docs (bd_rhs s)) t" "br \<longrightarrow> first_ge (docs (bd_rhs s)) t = t"
      using seek_iterator_impl_correct [OF inv(2,4)] False assms(4) by (metis not_le)
    have ge: "t \<le> first_ge (docs (bd_lhs s)) t" "t \<le> first_ge (docs (bd_rhs s)) t"
      using first_ge_ge [OF assms(4)] by auto
    have in': "first_ge ?D t = doc_eof \<or> first_ge ?D t \<in> ?D" using first_ge_cases [of ?D t] by auto
    have tr: "tracks (docs l) (value_of ops l) (first_ge ?D t)" "tracks (docs r) (value_of ops r) (first_ge ?D t)"
      unfolding l(3,4) r(3,4) by (auto intro!: tracks_subset)
    have lge: "first_ge ?D t \<le> value_of ops l" by (simp add: l(4) first_ge_union)
    show ?thesis
    proof (cases bl)
      case True
      with l(5) ge have m: "first_ge ?D t = t" by (simp add: first_ge_union)
      have "tracks (docs (bd_rhs s)) (value_of ops (bd_rhs s)) t"
        using False by (intro tracks_mono [OF inv(4)] value_le_eof inv(2)) auto
      with l m lge tr(1) in' True False inv(2) show ?thesis
        by (intro exI [of _ "\<lparr>bd_lhs = l, bd_rhs = bd_rhs s, bd_doc = t\<rparr>"]) (auto simp: bd_simps bd_seek_def)
    next
      case bl: False
      have m: "(if br then t else min (value_of ops l) (value_of ops r)) = first_ge ?D t"
        using r(5) ge unfolding l(4) r(4) by (auto simp: first_ge_union)
      from l r m lge tr in' False bl show ?thesis
        by (intro exI [of _ "\<lparr>bd_lhs = l, bd_rhs = r, bd_doc = first_ge ?D t\<rparr>"])
           (auto simp: bd_simps bd_seek_def Let_def)
    qed
  qed
qed

lemma bd_iterator: "doc_iterator (bd_ops ops) (bd_docs docs) (bd_invar ops docs invar)"
proof (unfold_locales, goal_cases)
  case (1 s) then show ?case using docs_set by (auto simp: bd_simps doc_set_def)
next
  case (2 s) then show ?case by (auto simp: bd_simps)
next
  case (3 s) then show ?case by (rule bd_next_correct)
next
  case (4 s t) then show ?case by (rule bd_seek_correct)
qed

text \<open>
  \<open>visit\<close> on a positioned disjunction: the sub-iterators that have the current document are
  offered in order, moved onto it, and the disjunction stays where it is. The debug assertion
  of the source, that the left one does not lag, is part of the invariant.
\<close>

lemma bd_visit_correct:
  assumes "bd_invar ops docs invar s" "bd_doc s \<noteq> doc_invalid" "bd_doc s \<noteq> doc_eof"
  shows "\<exists>r. value_of ops (bd_lhs s) = first_ge (docs (bd_lhs s)) (bd_doc s) \<and>
    value_of ops r = first_ge (docs (bd_rhs s)) (bd_doc s) \<and>
    bd_invar ops docs invar (s\<lparr>bd_rhs := r\<rparr>) \<and> docs r = docs (bd_rhs s) \<and>
    bd_visit ops (\<lambda>c it. (True, f c it)) ctx s = Some
      (foldl f ctx (filter (\<lambda>it. bd_doc s \<in> docs it) [bd_lhs s, r]), s\<lparr>bd_rhs := r\<rparr>)"
proof -
  let ?d = "bd_doc s"
  have inv: "invar (bd_lhs s)" "invar (bd_rhs s)" "?d \<le> value_of ops (bd_lhs s)"
    "tracks (docs (bd_lhs s)) (value_of ops (bd_lhs s)) ?d" "tracks (docs (bd_rhs s)) (value_of ops (bd_rhs s)) ?d"
    "?d \<in> docs (bd_lhs s) \<or> ?d \<in> docs (bd_rhs s)"
    using assms(1-3) by (auto simp: bd_simps)
  have d: "doc_min \<le> ?d" "?d < doc_eof"
    using inv(6) doc_set_less [OF docs_set [OF inv(1)]] doc_set_less [OF docs_set [OF inv(2)]] by auto
  have ahead: "value_of ops it = first_ge (docs it) ?d"
    if "invar it" "?d \<le> value_of ops it" "tracks (docs it) (value_of ops it) ?d" for it
    using that d doc_limits value_in [OF that(1)] by (intro tracks_ahead [OF that(3)] value_le_eof that(1,2)) auto
  have at: "first_ge D ?d = ?d \<longleftrightarrow> ?d \<in> D" for D
    using first_ge_cases [of D ?d] first_ge_fixed [of ?d D] d by auto
  have l: "value_of ops (bd_lhs s) = first_ge (docs (bd_lhs s)) ?d" using ahead inv by blast
  obtain b r where r: "seek_iterator_impl ops ?d (bd_rhs s) = Some (b, r)" "invar r" "docs r = docs (bd_rhs s)"
    "value_of ops r = first_ge (docs (bd_rhs s)) ?d"
  proof (cases "value_of ops (bd_rhs s) < ?d")
    case True
    with seek_law [OF inv(2), of ?d] d that show ?thesis by (fastforce simp: seek_iterator_impl_def)
  next
    case False
    with ahead [OF inv(2) _ inv(5)] inv(2) that show ?thesis by (auto simp: seek_iterator_impl_def)
  qed
  have "bd_invar ops docs invar (s\<lparr>bd_rhs := r\<rparr>)"
    using assms(1) r(2-4) by (simp add: bd_simps tracks_first_ge)
  moreover have "bd_visit ops (\<lambda>c it. (True, f c it)) ctx s = Some
      (foldl f ctx (filter (\<lambda>it. ?d \<in> docs it) [bd_lhs s, r]), s\<lparr>bd_rhs := r\<rparr>)"
    using l r by (simp add: bd_visit_def at)
  ultimately show ?thesis using l r by blast
qed

end

section \<open>Properties\<close>

interpretation all_bd: doc_iterator "bd_ops all_ops" "bd_docs all_docs" "bd_invar all_ops all_docs all_invar"
  by (rule all_it.bd_iterator)

text \<open>
  C23: the disjunction of two iterators keeps the iterator contract for the union of
  their documents, although a sub-iterator may lag behind after a \<open>seek\<close>.
\<close>

theorem disjunction_contract:
  assumes "doc_iterator ops docs invar" "bd_invar ops docs invar s"
  shows "(\<exists>s'. bd_next ops s = Some (bd_doc s' \<noteq> doc_eof, s') \<and> bd_invar ops docs invar s' \<and>
      bd_docs docs s' = bd_docs docs s \<and> bd_doc s' = first_ge (bd_docs docs s) (bd_doc s + 1)) \<and>
    (\<forall>t. bd_doc s \<le> t \<and> doc_min \<le> t \<and> t \<le> doc_eof \<longrightarrow>
      (\<exists>s'. bd_seek ops t s = Some (bd_doc s', s') \<and> bd_invar ops docs invar s' \<and>
        bd_docs docs s' = bd_docs docs s \<and> bd_doc s' = first_ge (bd_docs docs s) t))"
  using doc_iterator.bd_next_correct [OF assms] doc_iterator.bd_seek_correct [OF assms]
  by (simp add: bd_ops_def)

theorem disjunction_contract_witness:
  "\<exists>s'. bd_seek all_ops 6 \<lparr>bd_lhs = \<lparr>all_max_doc = 9, all_doc = 0\<rparr>, bd_rhs = \<lparr>all_max_doc = 4, all_doc = 0\<rparr>, bd_doc = 0\<rparr> =
     Some (6, s')"
proof -
  let ?s = "\<lparr>bd_lhs = \<lparr>all_max_doc = 9, all_doc = 0\<rparr>, bd_rhs = \<lparr>all_max_doc = 4, all_doc = 0\<rparr>, bd_doc = 0\<rparr>"
  have inv: "bd_invar all_ops all_docs all_invar ?s"
    by (simp add: bd_simps tracks_def all_invar_def all_ops_def doc_eof_def doc_invalid_def)
  have b: "bd_doc ?s \<le> 6 \<and> doc_min \<le> 6 \<and> 6 \<le> doc_eof" by (simp add: doc_eof_def doc_min_def)
  have "first_ge (bd_docs all_docs ?s) 6 = 6"
    by (rule first_ge_self) (simp_all add: bd_docs_def all_docs_def doc_eof_def doc_min_def)
  with disjunction_contract [OF all_it.doc_iterator_axioms inv] b show ?thesis by metis
qed

text \<open>
  On a positioned disjunction \<open>visit\<close> offers exactly the sub-iterators that have
  the current document, in order, each standing on it, and leaves the disjunction on that document.
\<close>

theorem disjunction_visit:
  assumes "doc_iterator ops docs invar" "bd_invar ops docs invar s" "bd_doc s \<noteq> doc_invalid" "bd_doc s \<noteq> doc_eof"
  shows "\<exists>r. value_of ops (bd_lhs s) = first_ge (docs (bd_lhs s)) (bd_doc s) \<and>
    value_of ops r = first_ge (docs (bd_rhs s)) (bd_doc s) \<and>
    bd_invar ops docs invar (s\<lparr>bd_rhs := r\<rparr>) \<and> docs r = docs (bd_rhs s) \<and>
    bd_visit ops (\<lambda>c it. (True, f c it)) ctx s = Some
      (foldl f ctx (filter (\<lambda>it. bd_doc s \<in> docs it) [bd_lhs s, r]), s\<lparr>bd_rhs := r\<rparr>)"
  by (rule doc_iterator.bd_visit_correct [OF assms])

theorem disjunction_visit_witness:
  "\<exists>s'. bd_visit all_ops (\<lambda>c it. (True, c + (1 :: nat))) 0
     \<lparr>bd_lhs = \<lparr>all_max_doc = 9, all_doc = 3\<rparr>, bd_rhs = \<lparr>all_max_doc = 4, all_doc = 0\<rparr>, bd_doc = 3\<rparr> = Some (2, s')"
proof -
  let ?s = "\<lparr>bd_lhs = \<lparr>all_max_doc = 9, all_doc = 3\<rparr>, bd_rhs = \<lparr>all_max_doc = 4, all_doc = 0\<rparr>, bd_doc = 3\<rparr>"
  have "bd_invar all_ops all_docs all_invar ?s"
    by (simp add: bd_simps tracks_def all_invar_def all_ops_def all_docs_def doc_eof_def doc_min_def doc_invalid_def)
  then obtain r where "all_docs r = all_docs (bd_rhs ?s)" "bd_visit all_ops (\<lambda>c it. (True, c + (1 :: nat))) 0 ?s =
      Some (foldl (\<lambda>c it. c + 1) 0 (filter (\<lambda>it. bd_doc ?s \<in> all_docs it) [bd_lhs ?s, r]), ?s\<lparr>bd_rhs := r\<rparr>)"
    using disjunction_visit [OF all_it.doc_iterator_axioms, of ?s "\<lambda>c it. c + (1 :: nat)" 0]
    by (auto simp: doc_eof_def doc_invalid_def)
  then show ?thesis by (simp add: all_docs_def doc_min_def)
qed

end
