(* ===== verification/Bitset.thy ===== *)
theory Bitset
  imports DocIterator
begin

text \<open>
  The dynamic bit set of \<open>core/utils/bitset.hpp\<close> and the document iterator over an array of
  words, \<open>bitset_doc_iterator\<close> of \<open>core/search/bitset_doc_iterator.cpp\<close>.

  The array of a bit set is a list of 64-bit words whose length is the capacity. Fresh memory is
  not initialised by the allocator, so every operation that allocates takes the content the
  allocator delivers as an argument. \<^term>\<open>None\<close> is a failed assertion of the source.
\<close>

unbundle bit_operations_syntax

section \<open>Bits of a word\<close>

definition set_bit_w :: "u64 \<Rightarrow> nat \<Rightarrow> u64" where
  "set_bit_w v b = v OR push_bit b 1"

definition unset_bit_w :: "u64 \<Rightarrow> nat \<Rightarrow> u64" where
  "unset_bit_w v b = v AND NOT (push_bit b 1)"

definition reset_bit_w :: "u64 \<Rightarrow> nat \<Rightarrow> bool \<Rightarrow> u64" where
  "reset_bit_w v b on = (if on then set_bit_w v b else unset_bit_w v b)"

definition check_bit_w :: "u64 \<Rightarrow> nat \<Rightarrow> bool" where
  "check_bit_w v b \<longleftrightarrow> v AND push_bit b 1 \<noteq> 0"

text \<open>\<open>std::popcount\<close> and \<open>std::countr_zero\<close> of a 64-bit word.\<close>

definition popcount_w :: "u64 \<Rightarrow> nat" where
  "popcount_w w = length (filter (bit w) [0..<64])"

definition countr_zero_w :: "u64 \<Rightarrow> nat" where
  "countr_zero_w w = length (takeWhile (\<lambda>i. \<not> bit w i) [0..<64])"

text \<open>\<open>math::popcount(begin, end)\<close>.\<close>

fun popcount_range :: "u64 list \<Rightarrow> nat" where
  "popcount_range [] = 0"
| "popcount_range (w # ws) = popcount_w w + popcount_range ws"

section \<open>The bit set\<close>

record dyn_bitset =
  bs_data :: "u64 list"
  bs_words :: nat
  bs_bits :: nat

definition bits_to_words :: "nat \<Rightarrow> nat" where
  "bits_to_words n = ((n + 64 - 1) mod 2 ^ 64) div 64"

definition bs_bit :: "nat \<Rightarrow> nat" where "bs_bit i = i mod 64"

definition bs_word :: "nat \<Rightarrow> nat" where "bs_word i = i div 64"

definition bs_capacity_words :: "dyn_bitset \<Rightarrow> nat" where
  "bs_capacity_words b = length (bs_data b)"

definition bs_clear_offset :: "nat \<Rightarrow> dyn_bitset \<Rightarrow> dyn_bitset" where
  "bs_clear_offset off b =
     (if off < bs_words b then
        b\<lparr>bs_data := take off (bs_data b) @ replicate (bs_words b - off) 0 @ drop (bs_words b) (bs_data b)\<rparr>
      else b)"

definition bs_sanitize :: "dyn_bitset \<Rightarrow> dyn_bitset" where
  "bs_sanitize b =
     (let last_word_bits = bs_bit (bs_bits b) in
      if last_word_bits = 0 then b
      else b\<lparr>bs_data := (bs_data b)[bs_words b - 1 :=
             bs_data b ! (bs_words b - 1) AND NOT (push_bit last_word_bits (NOT 0))]\<rparr>)"

definition bs_reserve_words :: "u64 list \<Rightarrow> nat \<Rightarrow> dyn_bitset \<Rightarrow> dyn_bitset" where
  "bs_reserve_words fresh words b =
     (if bs_capacity_words b < words then
        b\<lparr>bs_data := take (bs_words b) (bs_data b) @ drop (bs_words b) (take words fresh)\<rparr>
      else b)"

definition bs_reserve :: "u64 list \<Rightarrow> nat \<Rightarrow> dyn_bitset \<Rightarrow> dyn_bitset" where
  "bs_reserve fresh n b = bs_reserve_words fresh (bits_to_words n) b"

definition bs_resize :: "u64 list \<Rightarrow> nat \<Rightarrow> dyn_bitset \<Rightarrow> dyn_bitset" where
  "bs_resize fresh n b =
     (let new_words = bits_to_words n;
          b1 = bs_reserve_words fresh new_words b;
          old_words = bs_words b1
      in bs_sanitize ((bs_clear_offset old_words (b1\<lparr>bs_words := new_words\<rparr>))\<lparr>bs_bits := n\<rparr>))"

definition bs_clear :: "dyn_bitset \<Rightarrow> dyn_bitset" where
  "bs_clear b = bs_clear_offset 0 b"

definition bs_reset_bits :: "u64 list \<Rightarrow> nat \<Rightarrow> dyn_bitset \<Rightarrow> dyn_bitset" where
  "bs_reset_bits fresh n b =
     (let new_words = bits_to_words n;
          b1 = (if bs_capacity_words b < new_words then b\<lparr>bs_data := take new_words fresh\<rparr> else b)
      in bs_clear (b1\<lparr>bs_words := new_words, bs_bits := n\<rparr>))"

definition bs_empty :: dyn_bitset where
  "bs_empty = \<lparr>bs_data = [], bs_words = 0, bs_bits = 0\<rparr>"

definition bs_update :: "(u64 \<Rightarrow> nat \<Rightarrow> u64) \<Rightarrow> nat \<Rightarrow> dyn_bitset \<Rightarrow> dyn_bitset option" where
  "bs_update f i b =
     (if i < bs_bits b then
        Some (b\<lparr>bs_data := (bs_data b)[bs_word i := f (bs_data b ! bs_word i) (bs_bit i)]\<rparr>)
      else None)"

definition bs_set :: "nat \<Rightarrow> dyn_bitset \<Rightarrow> dyn_bitset option" where
  "bs_set i b = bs_update set_bit_w i b"

definition bs_unset :: "nat \<Rightarrow> dyn_bitset \<Rightarrow> dyn_bitset option" where
  "bs_unset i b = bs_update unset_bit_w i b"

definition bs_reset :: "nat \<Rightarrow> bool \<Rightarrow> dyn_bitset \<Rightarrow> dyn_bitset option" where
  "bs_reset i on b = bs_update (\<lambda>v k. reset_bit_w v k on) i b"

definition bs_test :: "nat \<Rightarrow> dyn_bitset \<Rightarrow> bool option" where
  "bs_test i b = (if i < bs_bits b then Some (check_bit_w (bs_data b ! bs_word i) (bs_bit i)) else None)"

definition bs_try_set :: "nat \<Rightarrow> dyn_bitset \<Rightarrow> (bool \<times> dyn_bitset) option" where
  "bs_try_set i b =
     (if i < bs_bits b then
        (let data = bs_data b ! bs_word i; mask = push_bit (bs_bit i) 1
         in if data AND mask \<noteq> 0 then Some (False, b)
            else Some (True, b\<lparr>bs_data := (bs_data b)[bs_word i := data OR mask]\<rparr>))
      else None)"

definition bs_range :: "dyn_bitset \<Rightarrow> u64 list" where
  "bs_range b = take (bs_words b) (bs_data b)"

definition bs_any :: "dyn_bitset \<Rightarrow> bool" where
  "bs_any b = list_ex (\<lambda>w. w \<noteq> 0) (bs_range b)"

definition bs_none :: "dyn_bitset \<Rightarrow> bool" where
  "bs_none b \<longleftrightarrow> \<not> bs_any b"

definition bs_all :: "dyn_bitset \<Rightarrow> bool" where
  "bs_all b =
     (if bs_words b = 0 then True
      else list_all (\<lambda>w. w = - 1) (take (bs_words b - 1) (bs_data b)) \<and>
           popcount_w (bs_data b ! (bs_words b - 1)) = bs_bits b - (bs_words b - 1) * 64)"

definition bs_count :: "dyn_bitset \<Rightarrow> nat" where
  "bs_count b = popcount_range (bs_range b)"

definition bs_eq :: "dyn_bitset \<Rightarrow> dyn_bitset \<Rightarrow> bool" where
  "bs_eq a b = (if bs_bits a \<noteq> bs_bits b then False else bs_range a = bs_range b)"

section \<open>The set a bit set stands for\<close>

definition words_set :: "u64 list \<Rightarrow> nat set" where
  "words_set ws = {i. i < 64 * length ws \<and> bit (ws ! (i div 64)) (i mod 64)}"

definition bs_elems :: "dyn_bitset \<Rightarrow> nat set" where
  "bs_elems b = words_set (bs_range b)"

definition bs_invar :: "dyn_bitset \<Rightarrow> bool" where
  "bs_invar b \<longleftrightarrow> bs_bits b + 63 < 2 ^ 64 \<and> bs_words b = bits_to_words (bs_bits b) \<and>
     bs_words b \<le> length (bs_data b) \<and> bs_elems b \<subseteq> {..<bs_bits b}"

section \<open>Facts on words\<close>

lemma word_zero_iff_bits: "(w :: u64) = 0 \<longleftrightarrow> (\<forall>i<64. \<not> bit w i)"
  by (auto intro: bit_word_eqI)

lemma bit_set_bit_w: "n < 64 \<Longrightarrow> bit (set_bit_w v b) n = (if n = b then True else bit v n)"
  by (auto simp: set_bit_w_def bit_simps)

lemma bit_unset_bit_w: "n < 64 \<Longrightarrow> bit (unset_bit_w v b) n = (if n = b then False else bit v n)"
  by (auto simp: unset_bit_w_def bit_simps)

lemma check_bit_w_iff: "b < 64 \<Longrightarrow> check_bit_w v b \<longleftrightarrow> bit v b"
  by (auto simp: check_bit_w_def word_zero_iff_bits bit_simps)

lemma popcount_w_card: "popcount_w w = card {i. i < 64 \<and> bit w i}"
  unfolding popcount_w_def by (subst distinct_card [symmetric]) (auto intro!: arg_cong [where f = card])

lemma countr_zero_w:
  assumes "w \<noteq> 0"
  shows "countr_zero_w w < 64 \<and> bit w (countr_zero_w w) \<and> (\<forall>k<countr_zero_w w. \<not> bit w k)"
proof -
  let ?p = "\<lambda>i. \<not> bit w i" and ?xs = "[0..<64]"
  obtain i where "i < 64" "bit w i" using assms by (auto simp: word_zero_iff_bits)
  then have "takeWhile ?p ?xs \<noteq> ?xs" by (auto simp: takeWhile_eq_all_conv)
  then have lt: "countr_zero_w w < 64"
    using length_takeWhile_le [of ?p ?xs] takeWhile_eq_take [of ?p ?xs]
    by (auto simp: countr_zero_w_def order.order_iff_strict)
  then have "bit w (?xs ! countr_zero_w w)"
    using nth_length_takeWhile [of ?p ?xs] by (simp add: countr_zero_w_def)
  moreover have "\<not> bit w k" if "k < countr_zero_w w" for k
    using that takeWhile_nth [of k ?p ?xs] nth_mem [of k "takeWhile ?p ?xs"] set_takeWhileD [of _ ?p ?xs] lt
    by (auto simp: countr_zero_w_def)
  ultimately show ?thesis using lt by simp
qed

section \<open>Facts on arrays of words\<close>

lemma words_setI: "i < 64 * length ws \<Longrightarrow> bit (ws ! (i div 64)) (i mod 64) \<Longrightarrow> i \<in> words_set ws"
  by (simp add: words_set_def)

lemma words_set_bit: "q < length ws \<Longrightarrow> k < 64 \<Longrightarrow> bit (ws ! q) k \<longleftrightarrow> 64 * q + k \<in> words_set ws"
  by (auto simp: words_set_def)

lemma words_set_Nil [simp]: "words_set [] = {}"
  by (simp add: words_set_def)

lemma words_set_replicate [simp]: "words_set (replicate n 0) = {}"
  by (auto simp: words_set_def)

lemma words_set_append:
  "words_set (xs @ ys) = words_set xs \<union> (\<lambda>i. 64 * length xs + i) ` words_set ys"
proof (intro set_eqI)
  fix i
  show "i \<in> words_set (xs @ ys) \<longleftrightarrow> i \<in> words_set xs \<union> (\<lambda>i. 64 * length xs + i) ` words_set ys"
  proof (cases "64 * length xs \<le> i")
    case True
    then obtain j where "i = 64 * length xs + j" by (auto dest: le_Suc_ex)
    then show ?thesis by (auto simp: words_set_def nth_append)
  next
    case False
    then show ?thesis by (auto simp: words_set_def nth_append)
  qed
qed

lemma words_set_update:
  assumes "q < length ws"
  shows "words_set (ws[q := w]) =
    {i \<in> words_set ws. i div 64 \<noteq> q} \<union> {i. i div 64 = q \<and> bit w (i mod 64)}"
  using assms by (auto simp: words_set_def nth_list_update)

lemma words_set_Cons: "words_set (w # ws) = {i. i < 64 \<and> bit w i} \<union> (\<lambda>i. 64 + i) ` words_set ws"
  using words_set_append [of "[w]" ws] by (auto simp: words_set_def)

lemma finite_words_set [simp]: "finite (words_set ws)"
  by (rule finite_subset [of _ "{..<64 * length ws}"]) (auto simp: words_set_def)

lemma popcount_range_card: "popcount_range ws = card (words_set ws)"
proof (induction ws)
  case (Cons w ws)
  have "card (words_set (w # ws)) = card {i. i < 64 \<and> bit w i} + card ((\<lambda>i. 64 + i) ` words_set ws)"
    unfolding words_set_Cons by (intro card_Un_disjoint) auto
  then show ?case using Cons by (simp add: popcount_w_card card_image)
qed simp

lemma words_set_eq_iff: "length xs = length ys \<Longrightarrow> words_set xs = words_set ys \<longleftrightarrow> xs = ys"
proof
  assume len: "length xs = length ys" and eq: "words_set xs = words_set ys"
  show "xs = ys"
    by (rule nth_equalityI [OF len], rule bit_word_eqI)
       (use words_set_bit len eq in \<open>simp add: words_set_bit\<close>)
qed simp

lemma words_set_iff: "i \<in> words_set ws \<longleftrightarrow> i div 64 < length ws \<and> bit (ws ! (i div 64)) (i mod 64)"
proof -
  have "i < 64 * length ws \<longleftrightarrow> i div 64 < length ws" by auto
  then show ?thesis by (simp add: words_set_def)
qed

lemma words_set_update_iff:
  "q < length ws \<Longrightarrow> i \<in> words_set (ws[q := w]) \<longleftrightarrow>
     (if i div 64 = q then bit w (i mod 64) else i \<in> words_set ws)"
  by (auto simp: words_set_iff)

lemma words_set_take: "words_set (take k ws) = {i \<in> words_set ws. i < 64 * k}"
  by (auto simp: words_set_def)

section \<open>Every operation of the bit set\<close>

lemma bits_to_words_eq: "n + 63 < 2 ^ 64 \<Longrightarrow> bits_to_words n = (n + 63) div 64"
  by (simp add: bits_to_words_def)

lemma bs_word_less: "bs_invar b \<Longrightarrow> i < bs_bits b \<Longrightarrow> i div 64 < bs_words b"
  unfolding bs_invar_def by (simp add: bits_to_words_eq)

lemma bs_bits_le: "bs_invar b \<Longrightarrow> bs_bits b \<le> 64 * bs_words b"
  unfolding bs_invar_def by (simp add: bits_to_words_eq)

lemma length_bs_range: "bs_invar b \<Longrightarrow> length (bs_range b) = bs_words b"
  by (simp add: bs_range_def bs_invar_def)

lemma bs_mem: "bs_invar b \<Longrightarrow> i < bs_bits b \<Longrightarrow> i \<in> bs_elems b \<longleftrightarrow> bit (bs_data b ! (i div 64)) (i mod 64)"
  using bs_word_less [of b i] length_bs_range [of b]
  by (simp add: bs_elems_def words_set_def bs_range_def mult.commute div_less_iff_less_mult)

lemma bs_elems_less: "bs_invar b \<Longrightarrow> i \<in> bs_elems b \<Longrightarrow> i < bs_bits b"
  by (auto simp: bs_invar_def)

lemma bs_store:
  assumes "bs_invar b" "i < bs_bits b" "\<And>n. n < 64 \<Longrightarrow> n \<noteq> i mod 64 \<Longrightarrow> bit w n = bit (bs_data b ! (i div 64)) n"
  defines "b' \<equiv> b\<lparr>bs_data := (bs_data b)[i div 64 := w]\<rparr>"
  shows "bs_elems b' = (if bit w (i mod 64) then insert i (bs_elems b) else bs_elems b - {i}) \<and> bs_invar b'"
proof -
  note q = bs_word_less [OF assms(1,2)]
  note len = length_bs_range [OF assms(1)]
  have r: "bs_range b' = (bs_range b)[i div 64 := w]" by (simp add: b'_def bs_range_def take_update_swap)
  have "j \<in> words_set ((bs_range b)[i div 64 := w]) \<longleftrightarrow>
      (if j = i then bit w (i mod 64) else j \<in> words_set (bs_range b))" for j
  proof (cases "j div 64 = i div 64")
    case True
    then have "j = i \<or> j mod 64 \<noteq> i mod 64" by (metis div_mult_mod_eq)
    moreover have "j \<in> words_set (bs_range b) \<longleftrightarrow> bit (bs_data b ! (i div 64)) (j mod 64)"
      using True q len by (simp add: words_set_iff bs_range_def)
    ultimately show ?thesis using True q len assms(3) [of "j mod 64"] by (auto simp: words_set_update_iff)
  next
    case False
    then show ?thesis using q len by (auto simp: words_set_update_iff)
  qed
  then have e: "bs_elems b' = (if bit w (i mod 64) then insert i (bs_elems b) else bs_elems b - {i})"
    unfolding bs_elems_def r by (simp add: set_eq_iff)
  with assms(1,2) show ?thesis by (auto simp: bs_invar_def b'_def)
qed

lemma bs_sanitize_elems:
  assumes "bs_bits b + 63 < 2 ^ 64" "bs_words b = bits_to_words (bs_bits b)" "bs_words b \<le> length (bs_data b)"
  shows "bs_elems (bs_sanitize b) = bs_elems b \<inter> {..<bs_bits b} \<and> bs_invar (bs_sanitize b) \<and>
    bs_bits (bs_sanitize b) = bs_bits b"
proof -
  let ?n = "bs_bits b" and ?W = "bs_words b"
  have W: "?W = (?n + 63) div 64" using assms(1,2) by (simp add: bits_to_words_eq)
  have e: "bs_elems (bs_sanitize b) = bs_elems b \<inter> {..<?n}"
  proof (cases "?n mod 64 = 0")
    case True
    then obtain q where "?n = 64 * q" by auto
    then have "?n = 64 * ?W" using W by simp
    then show ?thesis using True assms(3)
      by (auto simp: bs_sanitize_def bs_bit_def bs_elems_def words_set_def bs_range_def)
  next
    case False
    have "?n + 63 = 64 * (?n div 64) + (?n mod 64 + 63)" by simp
    then have "?W = ?n div 64 + (?n mod 64 + 63) div 64" unfolding W by (metis div_mult_self4 zero_neq_numeral)
    moreover have "(?n mod 64 + 63) div 64 = 1" using False by (intro div_nat_eqI) auto
    ultimately have q: "?W - 1 = ?n div 64" "?W - 1 < ?W" by simp_all
    let ?w = "bs_data b ! (?W - 1) AND NOT (push_bit (?n mod 64) (NOT 0))"
    have r: "bs_range (bs_sanitize b) = (bs_range b)[?W - 1 := ?w]"
      using False by (simp add: bs_sanitize_def bs_bit_def bs_range_def take_update_swap)
    have len: "length (bs_range b) = ?W" using assms(3) by (simp add: bs_range_def)
    have q3: "?W - 1 < length (bs_range b)" using q(2) len by simp
    show ?thesis unfolding bs_elems_def r
    proof (intro set_eqI)
      fix i
      have lt: "i < ?n \<longleftrightarrow> i div 64 < ?n div 64 \<or> i div 64 = ?n div 64 \<and> i mod 64 < ?n mod 64"
        by (rule less_iff_div_mod)
      have "bit ?w (i mod 64) \<longleftrightarrow> bit (bs_data b ! (?W - 1)) (i mod 64) \<and> i mod 64 < ?n mod 64"
        by (auto simp: bit_simps)
      note w = this
      have mem: "i \<in> words_set (bs_range b) \<longleftrightarrow> i div 64 < ?W \<and> bit (bs_data b ! (i div 64)) (i mod 64)"
        using len by (auto simp: words_set_iff bs_range_def)
      show "i \<in> words_set ((bs_range b)[?W - 1 := ?w]) \<longleftrightarrow> i \<in> words_set (bs_range b) \<inter> {..<?n}"
      proof (cases "i div 64 = ?W - 1")
        case True
        with q(2) show ?thesis by (simp only: words_set_update_iff [OF q3] w Int_iff lessThan_iff mem lt q(1) [symmetric]) simp
      next
        case False
        then have "i div 64 < ?W \<longleftrightarrow> i div 64 < ?W - 1" using q(2) by linarith
        with False show ?thesis
          by (simp only: words_set_update_iff [OF q3] Int_iff lessThan_iff mem lt q(1) [symmetric]) auto
      qed
    qed
  qed
  moreover have "bs_bits (bs_sanitize b) = ?n" "bs_words (bs_sanitize b) = ?W"
    "length (bs_data (bs_sanitize b)) = length (bs_data b)"
    by (simp_all add: bs_sanitize_def Let_def)
  ultimately show ?thesis using assms by (simp add: bs_invar_def)
qed

lemma bs_resize_correct:
  assumes "bs_invar b" "n + 63 < 2 ^ 64" "bits_to_words n \<le> length fresh"
  shows "bs_elems (bs_resize fresh n b) = bs_elems b \<inter> {..<n} \<and> bs_invar (bs_resize fresh n b) \<and>
    bs_bits (bs_resize fresh n b) = n"
proof -
  let ?W = "bits_to_words n"
  define b1 where "b1 = bs_reserve_words fresh ?W b"
  define b2 where "b2 = (bs_clear_offset (bs_words b1) (b1\<lparr>bs_words := ?W\<rparr>))\<lparr>bs_bits := n\<rparr>"
  have b1: "bs_words b1 = bs_words b" "bs_range b1 = bs_range b" "?W \<le> length (bs_data b1)"
    "bs_words b \<le> length (bs_data b1)"
    using assms by (auto simp: b1_def bs_reserve_words_def bs_capacity_words_def bs_invar_def bs_range_def)
  have b2: "bs_range b2 = take ?W (bs_range b @ replicate (?W - bs_words b) 0)"
  proof (cases "bs_words b < ?W")
    case True
    have "take (bs_words b) (bs_data b1) = bs_range b" using b1(1,2) by (simp add: bs_range_def)
    with True b1 length_bs_range [OF assms(1)] show ?thesis
      by (simp add: b2_def bs_clear_offset_def bs_range_def)
  next
    case False
    then have "take ?W (bs_data b1) = take ?W (take (bs_words b1) (bs_data b1))" using b1(1) by simp
    also have "\<dots> = take ?W (bs_range b)" using b1(2) by (simp add: bs_range_def)
    finally show ?thesis using False b1(1) by (simp add: b2_def bs_clear_offset_def bs_range_def)
  qed
  have "bs_elems b2 \<inter> {..<n} = bs_elems b \<inter> {..<n}"
    using assms(2) by (auto simp: bs_elems_def b2 words_set_take words_set_append bits_to_words_eq)
  moreover have "bs_bits b2 = n" "bs_words b2 = ?W" "?W \<le> length (bs_data b2)"
    using b1 by (auto simp: b2_def bs_clear_offset_def)
  moreover have "bs_resize fresh n b = bs_sanitize b2"
    by (simp add: bs_resize_def b2_def b1_def Let_def)
  ultimately show ?thesis using bs_sanitize_elems [of b2] assms(2) by simp
qed

lemma bs_reset_bits_correct:
  assumes "bs_invar b" "n + 63 < 2 ^ 64" "bits_to_words n \<le> length fresh"
  shows "bs_elems (bs_reset_bits fresh n b) = {} \<and> bs_invar (bs_reset_bits fresh n b) \<and>
    bs_bits (bs_reset_bits fresh n b) = n"
  using assms
  by (auto simp: bs_reset_bits_def bs_clear_def bs_clear_offset_def bs_capacity_words_def bs_invar_def
      bs_elems_def bs_range_def Let_def)

lemma bs_clear_correct: "bs_invar b \<Longrightarrow> bs_elems (bs_clear b) = {} \<and> bs_invar (bs_clear b) \<and> bs_bits (bs_clear b) = bs_bits b"
  by (auto simp: bs_clear_def bs_clear_offset_def bs_invar_def bs_elems_def bs_range_def)

lemma bs_count_card: "bs_count b = card (bs_elems b)"
  by (simp add: bs_count_def bs_elems_def popcount_range_card)

lemma words_set_empty_iff: "words_set ws = {} \<longleftrightarrow> (\<forall>w\<in>set ws. w = 0)"
  by (induction ws) (auto simp: words_set_Cons word_zero_iff_bits)

lemma bs_any_iff: "bs_any b \<longleftrightarrow> bs_elems b \<noteq> {}"
  by (simp add: bs_any_def bs_elems_def words_set_empty_iff list_ex_iff)

lemma bs_eq_iff:
  "bs_invar a \<Longrightarrow> bs_invar b \<Longrightarrow> bs_eq a b \<longleftrightarrow> bs_bits a = bs_bits b \<and> bs_elems a = bs_elems b"
  using words_set_eq_iff [of "bs_range a" "bs_range b"] length_bs_range [of a] length_bs_range [of b]
  by (auto simp: bs_eq_def bs_elems_def bs_invar_def)

lemma popcount_range_ones: "list_all (\<lambda>w. w = - 1) ws \<Longrightarrow> popcount_range ws = 64 * length ws"
  by (induction ws) (simp_all add: popcount_w_def)

lemma popcount_range_append: "popcount_range (xs @ ys) = popcount_range xs + popcount_range ys"
  by (induction xs) simp_all

lemma bs_all_iff:
  assumes "bs_invar b"
  shows "bs_all b \<longleftrightarrow> bs_elems b = {..<bs_bits b}"
proof (cases "bs_words b = 0")
  case True
  then show ?thesis using bs_bits_le [OF assms] by (auto simp: bs_all_def bs_elems_def bs_range_def)
next
  case False
  let ?W = "bs_words b" and ?n = "bs_bits b"
  have len: "?W \<le> length (bs_data b)" using assms by (simp add: bs_invar_def)
  have W: "64 * (?W - 1) \<le> ?n" using assms by (simp add: bs_invar_def bits_to_words_eq)
  have r: "bs_range b = take (?W - 1) (bs_data b) @ [bs_data b ! (?W - 1)]"
    using False len by (simp add: bs_range_def take_Suc_conv_app_nth [symmetric])
  have cnt: "card (bs_elems b) = popcount_range (take (?W - 1) (bs_data b)) + popcount_w (bs_data b ! (?W - 1))"
    using bs_count_card [of b] unfolding bs_count_def r by (simp add: popcount_range_append)
  show ?thesis
  proof
    assume "bs_all b"
    then have "card (bs_elems b) = ?n"
      using False W len unfolding cnt by (simp add: bs_all_def popcount_range_ones)
    then show "bs_elems b = {..<?n}"
      using assms by (intro card_subset_eq) (auto simp: bs_invar_def)
  next
    assume eq: "bs_elems b = {..<?n}"
    have "bs_data b ! q = - 1" if "q < ?W - 1" for q
    proof (rule bit_word_eqI)
      fix k assume k: "k < LENGTH(64)"
      have "64 * q + k < 64 * (?W - 1)" using that k by simp
      then have "64 * q + k \<in> words_set (bs_range b)" using eq W by (simp add: bs_elems_def)
      then show "bit (bs_data b ! q) k \<longleftrightarrow> bit (- 1 :: u64) k"
        using words_set_bit [of q "bs_range b" k] that k len by (simp add: bs_range_def)
    qed
    then have ones: "list_all (\<lambda>w. w = - 1) (take (?W - 1) (bs_data b))"
      by (auto simp: list_all_length)
    moreover have "popcount_w (bs_data b ! (?W - 1)) = ?n - (?W - 1) * 64"
      using cnt popcount_range_ones [OF ones] len unfolding eq by (simp add: mult.commute)
    ultimately show "bs_all b" using False by (simp add: bs_all_def)
  qed
qed

lemma bs_update_correct:
  assumes "bs_invar b" "i < bs_bits b"
    "\<And>v n. n < 64 \<Longrightarrow> bit (f v (i mod 64)) n = (if n = i mod 64 then on else bit v n)"
  shows "\<exists>b'. bs_update f i b = Some b' \<and> bs_bits b' = bs_bits b \<and> bs_invar b' \<and>
    bs_elems b' = (if on then insert i (bs_elems b) else bs_elems b - {i})"
  using assms bs_store [OF assms(1,2), of "f (bs_data b ! (i div 64)) (i mod 64)"]
  by (simp add: bs_update_def bs_word_def bs_bit_def)

lemma bs_try_set_update:
  "i < bs_bits b \<Longrightarrow> bs_try_set i b =
     (if check_bit_w (bs_data b ! (i div 64)) (i mod 64) then Some (False, b)
      else map_option (Pair True) (bs_update set_bit_w i b))"
  unfolding bs_try_set_def check_bit_w_def bs_update_def set_bit_w_def bs_word_def bs_bit_def Let_def by simp

text \<open>What an update returns: the elements, the size and that the invariant holds.\<close>

definition bs_view :: "dyn_bitset \<Rightarrow> nat set \<times> nat \<times> bool" where
  "bs_view b = (bs_elems b, bs_bits b, bs_invar b)"

text \<open>
  C25: the updates of a bit set are the updates of a set of indices below its size:
  \<open>set\<close> inserts, \<open>unset\<close> removes, \<open>reset(i, b)\<close> does one or the other, \<open>try_set\<close> inserts and
  reports whether the index is new, \<open>test\<close> is membership; an index beyond the size is refused.
\<close>

theorem bitset_updates:
  assumes "bs_invar b"
  shows "map_option bs_view (bs_set i b) =
      (if i < bs_bits b then Some (insert i (bs_elems b), bs_bits b, True) else None) \<and>
    map_option bs_view (bs_unset i b) =
      (if i < bs_bits b then Some (bs_elems b - {i}, bs_bits b, True) else None) \<and>
    map_option bs_view (bs_reset i on b) =
      (if i < bs_bits b then Some (if on then insert i (bs_elems b) else bs_elems b - {i}, bs_bits b, True) else None) \<and>
    map_option (\<lambda>(new, b'). (new, bs_view b')) (bs_try_set i b) =
      (if i < bs_bits b then Some (i \<notin> bs_elems b, insert i (bs_elems b), bs_bits b, True) else None) \<and>
    bs_test i b = (if i < bs_bits b then Some (i \<in> bs_elems b) else None)"
proof (cases "i < bs_bits b")
  case False
  then show ?thesis
    by (simp add: bs_set_def bs_unset_def bs_reset_def bs_try_set_def bs_test_def bs_update_def)
next
  case True
  have test: "check_bit_w (bs_data b ! (i div 64)) (i mod 64) \<longleftrightarrow> i \<in> bs_elems b"
    using check_bit_w_iff bs_mem [OF assms True] by simp
  note upd = bs_update_correct [OF assms True]
  obtain b1 where "bs_update set_bit_w i b = Some b1" "bs_view b1 = (insert i (bs_elems b), bs_bits b, True)"
    using upd [of set_bit_w True, OF bit_set_bit_w] by (auto simp: bs_view_def)
  moreover obtain b2 where "bs_update unset_bit_w i b = Some b2" "bs_view b2 = (bs_elems b - {i}, bs_bits b, True)"
    using upd [of unset_bit_w False, OF bit_unset_bit_w] by (auto simp: bs_view_def)
  moreover have "(\<lambda>v k. reset_bit_w v k on) = (if on then set_bit_w else unset_bit_w)"
    by (auto simp: reset_bit_w_def)
  ultimately show ?thesis using True assms test
    by (simp add: bs_set_def bs_unset_def bs_reset_def bs_try_set_update bs_test_def bs_view_def bs_word_def
        bs_bit_def insert_absorb)
qed

text \<open>
  \<open>count\<close> is the number of elements, \<open>any\<close>, \<open>none\<close> and \<open>all\<close> tell whether the set is
  non-empty, empty, or full, and \<open>==\<close> compares size and elements.
\<close>

theorem bitset_queries:
  assumes "bs_invar a" "bs_invar b"
  shows "bs_count b = card (bs_elems b) \<and> (bs_any b \<longleftrightarrow> bs_elems b \<noteq> {}) \<and> (bs_none b \<longleftrightarrow> bs_elems b = {}) \<and>
    (bs_all b \<longleftrightarrow> bs_elems b = {..<bs_bits b}) \<and>
    (bs_eq a b \<longleftrightarrow> bs_bits a = bs_bits b \<and> bs_elems a = bs_elems b)"
  using assms by (simp add: bs_count_card bs_any_iff bs_none_def bs_all_iff bs_eq_iff)

text \<open>
  C26: resizing keeps exactly the elements below the new size, whatever the allocator
  left in fresh memory, in particular bits dropped by shrinking do not come back on growing;
  \<open>reset(bits)\<close> and \<open>clear\<close> empty the set.
\<close>

theorem bitset_sizes:
  assumes "bs_invar b" "n + 63 < 2 ^ 64" "bits_to_words n \<le> length fresh"
  shows "bs_view (bs_resize fresh n b) = (bs_elems b \<inter> {..<n}, n, True) \<and>
    bs_view (bs_reset_bits fresh n b) = ({}, n, True) \<and>
    bs_view (bs_clear b) = ({}, bs_bits b, True) \<and> bs_view bs_empty = ({}, 0, True)"
proof -
  have "bs_view bs_empty = ({}, 0, True)"
    by (simp add: bs_view_def bs_empty_def bs_elems_def bs_range_def bs_invar_def bits_to_words_def)
  then show ?thesis
    using bs_resize_correct [OF assms] bs_reset_bits_correct [OF assms] bs_clear_correct [OF assms(1)]
    by (simp add: bs_view_def)
qed

text \<open>A bit set of 70 bits with the bits 3 and 69 set, in an array with one spare word.\<close>

definition sample_bitset :: dyn_bitset where
  "sample_bitset = \<lparr>bs_data = [8, 32, 7], bs_words = 2, bs_bits = 70\<rparr>"

lemma sample_bitset_elems: "bs_elems sample_bitset = {3, 69}"
proof -
  have "words_set [8, 32] = set (filter (\<lambda>i. bit ([8, 32 :: u64] ! (i div 64)) (i mod 64)) [0..<128])"
    by (auto simp: words_set_def)
  also have "filter (\<lambda>i. bit ([8, 32 :: u64] ! (i div 64)) (i mod 64)) [0..<128] = [3, 69]" by code_simp
  finally show ?thesis by (simp add: sample_bitset_def bs_elems_def bs_range_def)
qed

lemma sample_bitset_bits: "bs_bits sample_bitset = 70"
  by (simp add: sample_bitset_def)

lemma sample_bitset_invar: "bs_invar sample_bitset"
  using sample_bitset_elems by (simp add: bs_invar_def bits_to_words_def) (simp add: sample_bitset_def)

theorem bitset_updates_witness:
  "map_option bs_view (bs_set 5 sample_bitset) = Some (insert 5 {3, 69}, 70, True) \<and>
   bs_test 69 sample_bitset = Some True \<and> bs_set 70 sample_bitset = None"
  using bitset_updates [OF sample_bitset_invar, of 5 True] bitset_updates [OF sample_bitset_invar, of 69 True]
    bitset_updates [OF sample_bitset_invar, of 70 True]
  unfolding sample_bitset_elems sample_bitset_bits by simp

theorem bitset_queries_witness: "bs_count sample_bitset = 2 \<and> bs_any sample_bitset \<and> \<not> bs_all sample_bitset"
proof -
  have "1 \<notin> {3, 69 :: nat}" "1 \<in> {..<70 :: nat}" by simp_all
  then have "{3, 69 :: nat} \<noteq> {..<70}" by blast
  then show ?thesis
    using bitset_queries [OF sample_bitset_invar sample_bitset_invar]
    unfolding sample_bitset_elems sample_bitset_bits by simp
qed

theorem bitset_sizes_witness:
  "bs_view (bs_resize [9, 9, 9, 9] 200 (bs_resize [0] 10 sample_bitset)) = ({3}, 200, True)"
proof -
  let ?b = "bs_resize [0] 10 sample_bitset"
  have b: "bs_elems ?b = {3}" "bs_invar ?b"
    using bitset_sizes [OF sample_bitset_invar, of 10 "[0]"]
    by (simp_all add: sample_bitset_elems bits_to_words_def bs_view_def)
  then show ?thesis using bitset_sizes [OF b(2), of 200 "[9, 9, 9, 9]"] by (simp add: bits_to_words_def)
qed

end
