(* ===== verification/BitsetIterator.thy ===== *)
theory BitsetIterator
  imports Bitset
begin

text \<open>
  \<open>bitset_doc_iterator\<close> of \<open>core/search/bitset_doc_iterator.cpp\<close>, the document iterator over an array of
  words, with \<open>refill\<close> as the base class has it (it never delivers more words). \<open>doc_id_t\<close>
  arithmetic is kept at 32 bits: \<open>base_\<close> starts at \<open>-64\<close> and the document before the first word
  is \<open>-1\<close>, both modulo \<open>2 ^ 32\<close>.
\<close>

record bitset_it =
  bi_words :: "u64 list"
  bi_next :: nat
  bi_word :: u64
  bi_base :: u32
  bi_doc :: u32

definition bi_reset :: "bitset_it \<Rightarrow> bitset_it" where
  "bi_reset s = s\<lparr>bi_next := 0, bi_word := 0, bi_base := - 64\<rparr>"

definition bi_make :: "u64 list \<Rightarrow> bitset_it" where
  "bi_make ws = bi_reset \<lparr>bi_words = ws, bi_next = 0, bi_word = 0, bi_base = 0,
     bi_doc = (if popcount_range ws \<noteq> 0 then 0 else - 1)\<rparr>"

text \<open>The loop of \<open>next\<close> that loads words until one has a bit left.\<close>

function bi_load :: "bitset_it \<Rightarrow> bool \<times> bitset_it" where
  "bi_load s =
     (if bi_word s = 0 then
        if length (bi_words s) \<le> bi_next s then (False, s\<lparr>bi_doc := - 1, bi_word := 0\<rparr>)
        else bi_load (s\<lparr>bi_word := bi_words s ! bi_next s, bi_next := bi_next s + 1,
                       bi_base := bi_base s + 64, bi_doc := bi_base s + 64 - 1\<rparr>)
      else (True, s))"
  by auto

termination
  by (relation "measure (\<lambda>s. length (bi_words s) - bi_next s)") auto

declare bi_load.simps [simp del]

definition bi_next_doc :: "bitset_it \<Rightarrow> bool \<times> bitset_it" where
  "bi_next_doc s =
     (let (b, s1) = bi_load s in
      if \<not> b then (False, s1)
      else let delta = countr_zero_w (bi_word s1)
           in (True, s1\<lparr>bi_word := drop_bit 1 (drop_bit delta (bi_word s1)),
                        bi_doc := bi_doc s1 + (1 + of_nat delta)\<rparr>))"

definition bi_seek :: "nat \<Rightarrow> bitset_it \<Rightarrow> nat \<times> bitset_it" where
  "bi_seek target s =
     (let word_idx = target div 64 in
      if length (bi_words s) \<le> word_idx then
        (unat (- 1 :: u32), s\<lparr>bi_next := word_idx, bi_doc := - 1, bi_word := 0\<rparr>)
      else
        (let bit_idx = target mod 64;
             base = of_nat (word_idx * 64);
             s1 = s\<lparr>bi_next := word_idx + 1, bi_base := base,
                    bi_word := drop_bit bit_idx (bi_words s ! word_idx),
                    bi_doc := base - 1 + of_nat bit_idx\<rparr>;
             s2 = snd (bi_next_doc s1)
         in (unat (bi_doc s2), s2)))"

definition bi_ops :: "bitset_it doc_ops" where
  "bi_ops = \<lparr>value_of = \<lambda>s. unat (bi_doc s), next_of = \<lambda>s. Some (bi_next_doc s), seek_of = \<lambda>t s. Some (bi_seek t s)\<rparr>"

section \<open>Specification\<close>

definition bi_docs :: "bitset_it \<Rightarrow> nat set" where
  "bi_docs s = words_set (bi_words s)"

text \<open>
  The state of the cursor when the next document is looked for from \<open>p\<close> on: the current word
  holds the bits of the loaded words that are not below \<open>p\<close>.
\<close>

definition bi_at :: "nat \<Rightarrow> bitset_it \<Rightarrow> bool" where
  "bi_at p s \<longleftrightarrow> (\<forall>k. bit (bi_word s) k \<longleftrightarrow> p + k < 64 * bi_next s \<and> p + k \<in> bi_docs s) \<and>
     (\<forall>d\<in>bi_docs s. 64 * bi_next s \<le> d \<longrightarrow> p \<le> d) \<and>
     (bi_word s \<noteq> 0 \<longrightarrow> bi_doc s + 1 = of_nat p) \<and>
     (bi_next s < length (bi_words s) \<longrightarrow> bi_base s + 64 = of_nat (64 * bi_next s))"

definition bi_bounds :: "u64 list \<Rightarrow> bool" where
  "bi_bounds ws \<longleftrightarrow> 64 * length ws < 2 ^ 32 \<and> 0 \<notin> words_set ws"

definition bi_invar :: "bitset_it \<Rightarrow> bool" where
  "bi_invar s \<longleftrightarrow> bi_bounds (bi_words s) \<and> bi_at (unat (bi_doc s) + 1) s \<and>
     (unat (bi_doc s) = doc_invalid \<or> unat (bi_doc s) = doc_eof \<or> unat (bi_doc s) \<in> bi_docs s)"

section \<open>Correctness\<close>

lemma words_set_bounds:
  assumes "bi_bounds ws"
  shows "doc_set (words_set ws)"
proof -
  have "doc_min \<le> d \<and> d < doc_eof" if "d \<in> words_set ws" for d
  proof -
    have "d \<noteq> 0" using that assms unfolding bi_bounds_def by metis
    moreover have "d < 64 * length ws" "64 * length ws < 2 ^ 32"
      using that assms by (auto simp: words_set_def bi_bounds_def)
    ultimately show ?thesis by (simp add: doc_min_def doc_eof_def)
  qed
  then show ?thesis by (auto simp: doc_set_def)
qed

lemma unat_minus_one_u32: "unat (- 1 :: u32) = doc_eof"
  by (simp add: doc_eof_def unsigned_minus_1_eq_mask mask_eq_exp_minus_1)

lemma unat_u32_le_eof: "unat (x :: u32) \<le> doc_eof"
  using unsigned_less [of x, where 'a = nat] by (simp add: doc_eof_def)

text \<open>The exhausted iterator.\<close>

lemma bi_invar_eof:
  assumes "bi_bounds (bi_words s)" "bi_word s = 0" "bi_doc s = - 1" "length (bi_words s) \<le> bi_next s"
  shows "bi_invar s"
proof -
  have "d < doc_eof" "d < 64 * bi_next s" if "d \<in> bi_docs s" for d
    using that words_set_bounds [OF assms(1)] assms(4) by (auto simp: bi_docs_def doc_set_def words_set_def)
  then show ?thesis
    using assms unfolding bi_invar_def bi_at_def by (fastforce simp: unat_minus_one_u32)
qed

text \<open>The loop stops at the word that holds the next document, or at the end.\<close>

lemma bi_load_correct:
  assumes "bi_at p s"
  shows "case bi_load s of (b, s') \<Rightarrow> bi_words s' = bi_words s \<and>
    (if b then bi_word s' \<noteq> 0 \<and> (\<exists>q. bi_at q s' \<and> (\<forall>d\<in>bi_docs s. p \<le> d \<longleftrightarrow> q \<le> d))
     else bi_word s' = 0 \<and> bi_doc s' = - 1 \<and> length (bi_words s) \<le> bi_next s' \<and>
       (\<forall>d\<in>bi_docs s. d < p))"
  using assms
proof (induction s arbitrary: p rule: bi_load.induct)
  case (1 s)
  show ?case
  proof (cases "bi_word s = 0")
    case False
    then show ?thesis using 1(2) by (subst bi_load.simps) auto
  next
    case word: True
    have ge: "p \<le> d \<longleftrightarrow> 64 * bi_next s \<le> d" if "d \<in> bi_docs s" for d
    proof -
      have "\<not> bit (bi_word s) (d - p)" using word by simp
      then show ?thesis using that 1(2) by (auto simp: bi_at_def)
    qed
    show ?thesis
    proof (cases "length (bi_words s) \<le> bi_next s")
      case True
      have "d < p" if "d \<in> bi_docs s" for d
        using that ge [of d] True by (fastforce simp: bi_docs_def words_set_def)
      with True word 1(2) show ?thesis by (subst bi_load.simps) (auto simp: bi_at_def)
    next
      case False
      let ?s = "s\<lparr>bi_word := bi_words s ! bi_next s, bi_next := bi_next s + 1,
                       bi_base := bi_base s + 64, bi_doc := bi_base s + 64 - 1\<rparr>"
      have "bit (bi_words s ! bi_next s) k \<longleftrightarrow> 64 * bi_next s + k < 64 * (bi_next s + 1) \<and>
          64 * bi_next s + k \<in> bi_docs s" for k
        using words_set_bit [of "bi_next s" "bi_words s" k] False bit_word_ge_len [of k "bi_words s ! bi_next s"]
        by (cases "k < 64") (auto simp: bi_docs_def)
      moreover have "bi_base s + 64 = of_nat (64 * bi_next s)" using 1(2) False by (auto simp: bi_at_def)
      ultimately have at: "bi_at (64 * bi_next s) ?s" by (auto simp: bi_at_def bi_docs_def)
      have "bi_load s = bi_load ?s" using word False by (subst bi_load.simps) simp
      moreover have "bi_docs ?s = bi_docs s" by (simp add: bi_docs_def)
      moreover note 1(1) [OF word False at]
      moreover have "d < 64 * bi_next s \<longleftrightarrow> d < p" if "d \<in> bi_docs s" for d using ge [OF that] by linarith
      ultimately show ?thesis using ge by (auto split: prod.splits if_splits)
    qed
  qed
qed

text \<open>\<open>next\<close> from a state that looks for documents from \<open>p\<close> on; bit 0 may be set.\<close>

lemma bi_next_step:
  assumes "64 * length (bi_words s) < 2 ^ 32" "bi_at p s"
  shows "case bi_next_doc s of (b, s') \<Rightarrow> bi_words s' = bi_words s \<and>
    (if b then \<exists>d. d \<in> bi_docs s \<and> p \<le> d \<and> (\<forall>e\<in>bi_docs s. p \<le> e \<longrightarrow> d \<le> e) \<and> unat (bi_doc s') = d \<and> bi_at (d + 1) s'
     else bi_word s' = 0 \<and> bi_doc s' = - 1 \<and> length (bi_words s) \<le> bi_next s' \<and> (\<forall>d\<in>bi_docs s. d < p))"
proof -
  obtain b s1 where s1: "bi_load s = (b, s1)" by fastforce
  note load = bi_load_correct [OF assms(2), unfolded s1, simplified]
  show ?thesis
  proof (cases b)
    case False
    then show ?thesis using load s1 by (simp add: bi_next_doc_def)
  next
    case True
    then obtain q where q: "bi_words s1 = bi_words s" "bi_word s1 \<noteq> 0" "bi_at q s1" "\<forall>d\<in>bi_docs s. p \<le> d \<longleftrightarrow> q \<le> d"
      using load by auto
    let ?k = "countr_zero_w (bi_word s1)"
    let ?s = "s1\<lparr>bi_word := drop_bit 1 (drop_bit ?k (bi_word s1)), bi_doc := bi_doc s1 + (1 + of_nat ?k)\<rparr>"
    note k = countr_zero_w [OF q(2)]
    have D: "bi_docs s1 = bi_docs s" "bi_docs ?s = bi_docs s" using q(1) by (simp_all add: bi_docs_def)
    have in': "q + ?k \<in> bi_docs s" "q + ?k < 64 * bi_next s1"
      and bits: "\<And>k. bit (bi_word s1) k \<longleftrightarrow> q + k < 64 * bi_next s1 \<and> q + k \<in> bi_docs s"
      using q(3) k D by (auto simp: bi_at_def)
    have lt: "q + ?k < 2 ^ 32" using in'(1) assms(1) by (auto simp: bi_docs_def words_set_def)
    have "bi_doc s1 + (1 + of_nat ?k) = of_nat (q + ?k)" using q(2,3) by (simp add: bi_at_def add.assoc [symmetric])
    then have v: "unat (bi_doc s1 + (1 + of_nat ?k)) = q + ?k"
      using lt by (simp add: unat_of_nat take_bit_nat_eq_self del: of_nat_add)
    have least: "q + ?k \<le> d" if d: "d \<in> bi_docs s" "p \<le> d" for d
    proof (rule ccontr)
      have "q \<le> d" using d q(4) by blast
      moreover assume "\<not> q + ?k \<le> d"
      ultimately have "d - q < ?k" "q + (d - q) = d" by auto
      then show False using bits [of "d - q"] d(1) in'(2) k by auto
    qed
    have "bit (drop_bit 1 (drop_bit ?k (bi_word s1))) j \<longleftrightarrow>
        q + ?k + 1 + j < 64 * bi_next s1 \<and> q + ?k + 1 + j \<in> bi_docs s" for j
      using bits [of "?k + 1 + j"] by (simp add: bit_drop_bit_eq add.assoc)
    moreover have "\<forall>d\<in>bi_docs s. 64 * bi_next s1 \<le> d \<longrightarrow> q + ?k + 1 \<le> d" using in'(2) by simp
    moreover have "bi_doc s1 + (1 + of_nat ?k) + 1 = of_nat (q + ?k + 1)"
      using q(2,3) by (simp add: bi_at_def add.assoc [symmetric])
    ultimately have "bi_at (q + ?k + 1) ?s" using q(3) D unfolding bi_at_def by simp
    moreover have "p \<le> q + ?k" using q(4) in'(1) by simp
    ultimately show ?thesis using s1 True q(1) v in'(1) least by (simp add: bi_next_doc_def Let_def)
  qed
qed

lemma bi_next_doc_correct:
  assumes "bi_bounds (bi_words s)" "bi_at p s"
  shows "case bi_next_doc s of (b, s') \<Rightarrow> b = (unat (bi_doc s') \<noteq> doc_eof) \<and> bi_words s' = bi_words s \<and>
    unat (bi_doc s') = first_ge (bi_docs s) p \<and> bi_invar s'"
proof -
  obtain b s' where n: "bi_next_doc s = (b, s')" by fastforce
  have len: "64 * length (bi_words s) < 2 ^ 32" using assms(1) by (simp add: bi_bounds_def)
  note step = bi_next_step [OF len assms(2), unfolded n, simplified]
  note ds = words_set_bounds [OF assms(1)]
  show ?thesis
  proof (cases b)
    case False
    then have l: "bi_words s' = bi_words s" "bi_word s' = 0" "bi_doc s' = - 1" "length (bi_words s) \<le> bi_next s'"
      "\<forall>d\<in>bi_docs s. d < p" using step by auto
    have "first_ge (bi_docs s) p = doc_eof" using l(5) by (intro first_ge_eofI) auto
    moreover have "bi_invar s'" using l assms(1) by (intro bi_invar_eof) auto
    ultimately show ?thesis using n False l by (simp add: unat_minus_one_u32)
  next
    case True
    then obtain d where d: "bi_words s' = bi_words s" "d \<in> bi_docs s" "p \<le> d" "\<forall>e\<in>bi_docs s. p \<le> e \<longrightarrow> d \<le> e"
      "unat (bi_doc s') = d" "bi_at (d + 1) s'" using step by auto
    then have lt: "d < doc_eof" using ds by (auto simp: bi_docs_def doc_set_def)
    have "first_ge (bi_docs s) p = d" using d lt by (intro first_ge_eqI) auto
    moreover have "bi_invar s'" using d assms(1) by (simp add: bi_invar_def bi_docs_def)
    ultimately show ?thesis using n True d lt by simp
  qed
qed

lemma bi_seek_correct:
  assumes "bi_bounds (bi_words s)" "t \<le> doc_eof"
  shows "case bi_seek t s of (v, s') \<Rightarrow> v = unat (bi_doc s') \<and> bi_words s' = bi_words s \<and>
    v = first_ge (bi_docs s) t \<and> bi_invar s'"
proof (cases "length (bi_words s) \<le> t div 64")
  case True
  then have len: "64 * length (bi_words s) \<le> t" by auto
  have "first_ge (bi_docs s) t = doc_eof"
    using len by (intro first_ge_eofI) (auto simp: bi_docs_def words_set_def)
  moreover have "bi_invar (s\<lparr>bi_next := t div 64, bi_doc := - 1, bi_word := 0\<rparr>)"
    using assms(1) True by (intro bi_invar_eof) auto
  ultimately show ?thesis using True by (simp add: bi_seek_def unat_minus_one_u32)
next
  case False
  let ?b = "of_nat (t div 64 * 64) :: u32"
  let ?s = "s\<lparr>bi_next := t div 64 + 1, bi_base := ?b, bi_word := drop_bit (t mod 64) (bi_words s ! (t div 64)),
      bi_doc := ?b - 1 + of_nat (t mod 64)\<rparr>"
  have D: "bi_docs ?s = bi_docs s" by (simp add: bi_docs_def)
  have "?b - 1 + of_nat (t mod 64) + 1 = of_nat (t div 64 * 64 + t mod 64)" by (simp only: of_nat_add) simp
  moreover have "bit (bi_words s ! (t div 64)) (t mod 64 + k) \<longleftrightarrow> t + k < 64 * (t div 64 + 1) \<and> t + k \<in> bi_docs s" for k
  proof -
    have e: "t + k = 64 * (t div 64) + (t mod 64 + k)" by simp
    have "t + k < 64 * (t div 64 + 1) \<longleftrightarrow> t mod 64 + k < 64" unfolding e by (simp only: distrib_left add_less_cancel_left mult_1_right)
    moreover have "bit (bi_words s ! (t div 64)) (t mod 64 + k) \<longleftrightarrow> t + k \<in> bi_docs s" if "t mod 64 + k < 64"
      unfolding e bi_docs_def using False that by (intro words_set_bit) auto
    moreover have "\<not> bit (bi_words s ! (t div 64)) (t mod 64 + k)" if "\<not> t mod 64 + k < 64"
      using that by (intro bit_word_ge_len) simp
    ultimately show ?thesis by blast
  qed
  ultimately have "bi_at t ?s" using False D by (auto simp: bi_at_def bit_drop_bit_eq algebra_simps)
  moreover have "bi_bounds (bi_words ?s)" using assms(1) by simp
  ultimately have "case bi_next_doc ?s of (b, s') \<Rightarrow> bi_words s' = bi_words s \<and>
      unat (bi_doc s') = first_ge (bi_docs s) t \<and> bi_invar s'"
    using bi_next_doc_correct [of ?s t] D by (auto split: prod.splits)
  then show ?thesis using False by (simp add: bi_seek_def Let_def split: prod.splits)
qed

text \<open>The iterator over the words meets the contract for the documents whose bit is set.\<close>

interpretation bitset_it: doc_iterator bi_ops bi_docs bi_invar
proof (unfold_locales, goal_cases)
  case (1 s) then show ?case using words_set_bounds by (auto simp: bi_invar_def bi_docs_def)
next
  case (2 s) then show ?case by (auto simp: bi_invar_def bi_ops_def)
next
  case (3 s)
  then show ?case
    using bi_next_doc_correct [of s "unat (bi_doc s) + 1"]
    by (cases "bi_next_doc s") (auto simp: bi_invar_def bi_ops_def bi_docs_def)
next
  case (4 s t)
  then show ?case using bi_seek_correct [of s t]
    by (cases "bi_seek t s") (auto simp: bi_invar_def bi_ops_def bi_docs_def)
qed

lemma bi_make_invar: "bi_bounds ws \<Longrightarrow> bi_invar (bi_make ws) \<and> bi_docs (bi_make ws) = words_set ws"
  using popcount_range_card [of ws] words_set_bounds [of ws]
  by (auto simp: bi_make_def bi_reset_def bi_invar_def bi_at_def bi_docs_def unat_minus_one_u32 doc_invalid_def doc_set_def doc_min_def)

lemma bi_make_value: "words_set ws \<noteq> {} \<Longrightarrow> value_of bi_ops (bi_make ws) = doc_invalid"
  by (simp add: bi_ops_def bi_make_def bi_reset_def popcount_range_card doc_invalid_def)

lemma words_set_code: "words_set ws = set (filter (\<lambda>i. bit (ws ! (i div 64)) (i mod 64)) [0..<64 * length ws])"
  by (auto simp: words_set_def)

text \<open>
  Running \<open>next\<close> to the end over a bit set, from the constructor on, yields
  exactly the indices of the set bits, in increasing order.
\<close>

theorem bitset_iteration:
  assumes "64 * length ws < 2 ^ 32" "0 \<notin> words_set ws" "card (words_set ws) < n"
  shows "drain n bi_ops (bi_make ws) = Some (sorted_list_of_set (words_set ws))"
proof -
  have ws: "bi_bounds ws" using assms by (simp add: bi_bounds_def)
  note mk = bi_make_invar [OF ws]
  have "{d \<in> bi_docs (bi_make ws). value_of bi_ops (bi_make ws) < d} = words_set ws"
  proof (cases "words_set ws = {}")
    case False
    then have "popcount_range ws \<noteq> 0" by (simp add: popcount_range_card)
    then show ?thesis using mk assms(2)
      by (auto simp: bi_ops_def bi_make_def bi_reset_def intro!: gr0I)
  qed (use mk in auto)
  with bitset_it.drain_correct [of "bi_make ws" n] mk assms(3) show ?thesis by simp
qed

theorem bitset_iteration_witness: "drain 9 bi_ops (bi_make [40, 0, 5]) = Some [3, 5, 128, 130]"
proof -
  have "words_set [40, 0, 5] = set (filter (\<lambda>i. bit ([40, 0, 5 :: u64] ! (i div 64)) (i mod 64)) [0..<192])"
    by (auto simp: words_set_def)
  also have "filter (\<lambda>i. bit ([40, 0, 5 :: u64] ! (i div 64)) (i mod 64)) [0..<192] = [3, 5, 128, 130]" by code_simp
  finally show ?thesis using bitset_iteration [of "[40, 0, 5]" 9] by (simp add: card_insert_if)
qed



end
