(* ===== verification/BlockDisjunction.thy ===== *)
theory BlockDisjunction
  imports BitsetIterator
begin

text \<open>
  The disjunction of many document iterators, \<open>block_disjunction\<close> of \<open>core/search/disjunction.hpp\<close>, which
  \<open>MakeDisjunction\<close> and \<open>MakeWeakDisjunction\<close> use for more than two sub-iterators. It reads ahead a
  window of documents into an array of words and enumerates their bits. With \<open>kMinMatch\<close> it also
  counts, per document of the window, how many sub-iterators have it, and delivers the documents with
  enough of them. Scores are not modelled (the merger is the one without scores), nor is
  \<open>kMinMatchFast\<close>, which nothing instantiates.

  \<^term>\<open>None\<close> is a call that does not return or an access outside the arrays of the object.
\<close>

section \<open>State\<close>

text \<open>\<open>block_disjunction_traits\<close>: \<open>kMinMatch\<close>, \<open>kSeekReadahead\<close>, \<open>kNumBlocks\<close>.\<close>

record block_traits =
  bt_min_match :: bool
  bt_readahead :: bool
  bt_num_blocks :: nat

definition kWindow :: "block_traits \<Rightarrow> nat" where
  "kWindow tr = 64 * max 1 (bt_num_blocks tr)"

record 'it block_disjunction =
  bk_mask :: "u64 list"
  bk_itrs :: "'it list"
  bk_begin :: nat
  bk_cur :: u64
  bk_base :: nat
  bk_min :: nat
  bk_max :: nat
  bk_doc :: nat
  bk_match :: nat
  bk_offset :: nat
  bk_counts :: "nat list"
  bk_min_match :: nat

definition bk_make :: "block_traits \<Rightarrow> 'it list \<Rightarrow> nat \<Rightarrow> 'it block_disjunction" where
  "bk_make tr its min_match_count =
     \<lparr>bk_mask = replicate (max 1 (bt_num_blocks tr)) 0, bk_itrs = its, bk_begin = max 1 (bt_num_blocks tr), bk_cur = 0,
      bk_base = doc_invalid, bk_min = doc_min, bk_max = doc_invalid,
      bk_doc = (if its = [] then doc_eof else doc_invalid),
      bk_match = (if its = [] then 0 else of_bool (\<not> bt_min_match tr)), bk_offset = 0,
      bk_counts = replicate (kWindow tr) 0, bk_min_match = max 1 min_match_count\<rparr>"

section \<open>Operations\<close>

text \<open>
  The loop of \<open>visit_and_purge\<close>: a sub-iterator that the visitor gives up is replaced by the last one, which is
  visited next. The first list are the sub-iterators before \<open>begin\<close>.
\<close>

function purge_loop ::
  "('it \<Rightarrow> 'st \<Rightarrow> (bool \<times> 'it \<times> 'st) option) \<Rightarrow> 'it list \<Rightarrow> 'it list \<Rightarrow> 'st \<Rightarrow> ('it list \<times> 'st) option" where
  "purge_loop visitor kept [] st = Some (kept, st)"
| "purge_loop visitor kept (it # its) st = do {
     (keep, it', st') \<leftarrow> visitor it st;
     if keep then purge_loop visitor (kept @ [it']) its st'
     else purge_loop visitor kept (if its = [] then [] else last its # butlast its) st'
   }"
  by pat_completeness auto

termination by (relation "measure (\<lambda>(_, _, its, _). length its)") auto

definition visit_and_purge ::
  "block_traits \<Rightarrow> nat \<Rightarrow> ('it \<Rightarrow> 'st \<Rightarrow> (bool \<times> 'it \<times> 'st) option) \<Rightarrow> 'it list \<Rightarrow> 'st \<Rightarrow> ('it list \<times> 'st) option" where
  "visit_and_purge tr min_match_count visitor its st = do {
     (its', st') \<leftarrow> purge_loop visitor [] its st;
     Some (if bt_min_match tr \<and> length its' < min_match_count then [] else its', st')
   }"

definition bk_reset :: "block_traits \<Rightarrow> 'it block_disjunction \<Rightarrow> 'it block_disjunction" where
  "bk_reset tr s =
     (let s1 = s\<lparr>bk_mask := replicate (length (bk_mask s)) 0\<rparr>
      in if bt_min_match tr then s1\<lparr>bk_counts := replicate (length (bk_counts s)) 0\<rparr> else s1)"

text \<open>Marking one document of the window; \<open>inc\<close> of \<open>min_match_buffer\<close> tells whether more matches are needed.\<close>

definition bk_mark :: "block_traits \<Rightarrow> nat \<Rightarrow> 'it block_disjunction \<times> bool \<Rightarrow> ('it block_disjunction \<times> bool) option" where
  "bk_mark tr val st =
     (let s = fst st; off = (val + 2 ^ 32 - bk_base s) mod 2 ^ 32 in
      if off < kWindow tr then
        let s1 = s\<lparr>bk_mask := (bk_mask s)[off div 64 := set_bit_w (bk_mask s ! (off div 64)) (off mod 64)]\<rparr> in
        if bt_min_match tr then
          let n = bk_counts s ! off + 1
          in Some (s1\<lparr>bk_counts := (bk_counts s)[off := n]\<rparr>, snd st \<and> n < bk_min_match s)
        else Some (s1, False)
      else None)"

text \<open>\<open>refill(it, empty)\<close>: all documents of one sub-iterator in the window.\<close>

partial_function (option) bk_fill_loop ::
  "'it doc_ops \<Rightarrow> block_traits \<Rightarrow> 'it \<Rightarrow> 'it block_disjunction \<times> bool \<Rightarrow>
   (bool \<times> 'it \<times> 'it block_disjunction \<times> bool) option" where
  "bk_fill_loop ops tr it st =
     (let val = value_of ops it in
      if bk_max (fst st) \<le> val then Some (True, it, (fst st)\<lparr>bk_min := min val (bk_min (fst st))\<rparr>, snd st)
      else do {
        st1 \<leftarrow> bk_mark tr val st;
        (b, it') \<leftarrow> next_of ops it;
        if b then bk_fill_loop ops tr it' st1 else Some (False, it', st1)
      })"

declare bk_fill_loop.simps [code]

definition bk_fill ::
  "'it doc_ops \<Rightarrow> block_traits \<Rightarrow> 'it \<Rightarrow> 'it block_disjunction \<times> bool \<Rightarrow>
   (bool \<times> 'it \<times> 'it block_disjunction \<times> bool) option" where
  "bk_fill ops tr it st = do {
     (b, it1) \<leftarrow> (if value_of ops it < bk_base (fst st) then next_of ops it else Some (True, it));
     if \<not> b \<or> value_of ops it1 = doc_eof then Some (False, it1, st)
     else bk_fill_loop ops tr it1 st
   }"

text \<open>\<open>refill()\<close>: windows are read until one has a document to deliver or no sub-iterator is left.\<close>

partial_function (option) bk_refill_loop ::
  "'it doc_ops \<Rightarrow> block_traits \<Rightarrow> 'it block_disjunction \<Rightarrow> ('it block_disjunction \<times> bool) option" where
  "bk_refill_loop ops tr s = do {
     let s1 = (if bt_min_match tr then bk_reset tr s else s);
     let s2 = s1\<lparr>bk_base := bk_min s1, bk_max := (bk_min s1 + kWindow tr) mod 2 ^ 32, bk_min := doc_eof\<rparr>;
     (its, s3, empty) \<leftarrow> visit_and_purge tr (bk_min_match s2) (bk_fill ops tr) (bk_itrs s2) (s2, True);
     let s4 = s3\<lparr>bk_itrs := its\<rparr>;
     if empty \<and> its \<noteq> [] then bk_refill_loop ops tr s4 else Some (s4, empty)
   }"

declare bk_refill_loop.simps [code]

text \<open>The loops over \<open>begin_\<close> of \<open>next\<close> and \<open>refill\<close>: on to the next word that is not zero.\<close>

function bk_advance :: "block_traits \<Rightarrow> 'it block_disjunction \<Rightarrow> 'it block_disjunction" where
  "bk_advance tr s =
     (if bk_cur s = 0 \<and> bk_begin s < length (bk_mask s) then
        bk_advance tr (s\<lparr>bk_cur := bk_mask s ! bk_begin s, bk_begin := bk_begin s + 1,
          bk_base := (bk_base s + 64) mod 2 ^ 32,
          bk_offset := (if bt_min_match tr then bk_offset s + 64 else bk_offset s)\<rparr>)
      else s)"
  by auto

termination by (relation "measure (\<lambda>(_, s). length (bk_mask s) - bk_begin s)") auto

declare bk_advance.simps [simp del]

definition bk_refill :: "'it doc_ops \<Rightarrow> block_traits \<Rightarrow> 'it block_disjunction \<Rightarrow> (bool \<times> 'it block_disjunction) option" where
  "bk_refill ops tr s =
     (if bk_itrs s = [] then Some (False, s)
      else do {
        (s1, empty) \<leftarrow> bk_refill_loop ops tr (if bt_min_match tr then s else bk_reset tr s);
        if empty then Some (False, s1)
        else do {
          let s2 = s1\<lparr>bk_cur := bk_mask s1 ! 0, bk_begin := 1,
                      bk_offset := (if bt_min_match tr then 0 else bk_offset s1)\<rparr>;
          let s3 = bk_advance tr s2;
          if bk_cur s3 = 0 then None else Some (True, s3)
        }
      })"

partial_function (option) bk_next ::
  "'it doc_ops \<Rightarrow> block_traits \<Rightarrow> 'it block_disjunction \<Rightarrow> (bool \<times> 'it block_disjunction) option" where
  "bk_next ops tr s = do {
     let s1 = bk_advance tr s;
     (ok, s2) \<leftarrow> (if bk_cur s1 = 0 then bk_refill ops tr s1 else Some (True, s1));
     if \<not> ok then Some (False, s2\<lparr>bk_doc := doc_eof, bk_match := 0\<rparr>)
     else do {
       let off = countr_zero_w (bk_cur s2);
       let s3 = s2\<lparr>bk_cur := unset_bit_w (bk_cur s2) off\<rparr>;
       if bt_min_match tr then
         if bk_offset s3 + off < length (bk_counts s3) then do {
           let s4 = s3\<lparr>bk_match := bk_counts s3 ! (bk_offset s3 + off)\<rparr>;
           if bk_match s4 < bk_min_match s4 then bk_next ops tr s4
           else Some (True, s4\<lparr>bk_doc := (bk_base s4 + off) mod 2 ^ 32\<rparr>)
         } else None
       else Some (True, s3\<lparr>bk_doc := (bk_base s3 + off) mod 2 ^ 32\<rparr>)
     }
   }"

declare bk_next.simps [code]

text \<open>The visitor of \<open>seek\<close>, on the current document and match count.\<close>

definition bk_seek_visitor ::
  "'it doc_ops \<Rightarrow> block_traits \<Rightarrow> nat \<Rightarrow> 'it \<Rightarrow> nat \<times> nat \<Rightarrow> (bool \<times> 'it \<times> nat \<times> nat) option" where
  "bk_seek_visitor ops tr target it st = do {
     (val, it') \<leftarrow> seek_of ops target it;
     if val = doc_eof then Some (False, it', st)
     else if val < fst st then Some (True, it', val, if bt_min_match tr then 1 else snd st)
     else Some (True, it', fst st, if bt_min_match tr \<and> target = val then snd st + 1 else snd st)
   }"

definition bk_seek :: "'it doc_ops \<Rightarrow> block_traits \<Rightarrow> nat \<Rightarrow> 'it block_disjunction \<Rightarrow> (nat \<times> 'it block_disjunction) option" where
  "bk_seek ops tr target s =
     (if target \<le> bk_doc s then Some (bk_doc s, s)
      else if target < bk_max s then do {
        let block_base = (bk_max s + 2 ^ 32 - kWindow tr) mod 2 ^ 32;
        let target = (target + 2 ^ 32 - block_base) mod 2 ^ 32;
        let block_offset = target div 64;
        if block_offset < length (bk_mask s) then do {
          (_, s') \<leftarrow> bk_next ops tr (s\<lparr>bk_base := (block_base + block_offset * 64) mod 2 ^ 32, bk_begin := block_offset + 1,
            bk_cur := bk_mask s ! block_offset AND push_bit (target mod 64) (NOT 0)\<rparr>);
          Some (bk_doc s', s')
        } else None
      } else do {
        (its, doc, mc) \<leftarrow> visit_and_purge tr (bk_min_match s) (bk_seek_visitor ops tr target) (bk_itrs s)
          (doc_eof, if bt_min_match tr then 0 else bk_match s);
        let s1 = s\<lparr>bk_itrs := its, bk_doc := doc, bk_match := mc\<rparr>;
        if its = [] then Some (doc_eof, s1\<lparr>bk_doc := doc_eof, bk_match := 0\<rparr>)
        else do {
          let s2 = s1\<lparr>bk_cur := 0, bk_begin := length (bk_mask s1), bk_max := doc\<rparr>;
          if bt_readahead tr then do {
            (_, s3) \<leftarrow> bk_next ops tr (s2\<lparr>bk_min := doc\<rparr>);
            Some (bk_doc s3, s3)
          } else do {
            let s3 = s2\<lparr>bk_min := (doc + 1) mod 2 ^ 32, bk_offset := 0\<rparr>;
            if bt_min_match tr \<and> mc < bk_min_match s3 then do {
              (_, s4) \<leftarrow> bk_next ops tr s3;
              Some (bk_doc s4, s4)
            } else Some (doc, s3)
          }
        }
      })"

definition bk_ops :: "'it doc_ops \<Rightarrow> block_traits \<Rightarrow> 'it block_disjunction doc_ops" where
  "bk_ops ops tr = \<lparr>value_of = bk_doc, next_of = bk_next ops tr, seek_of = bk_seek ops tr\<rparr>"

section \<open>What the sub-iterators promise\<close>

text \<open>
  \<open>seek\<close> is also called on sub-iterators that are ahead of the target. Those of the library either
  do nothing then or look up the target again; both leave an iterator in place that stands on the answer.
\<close>

locale seekable_iterator = doc_iterator +
  assumes seek_stay: "invar it \<Longrightarrow> doc_min \<le> t \<Longrightarrow> t \<le> value_of ops it \<Longrightarrow>
      value_of ops it = first_ge (docs it) t \<Longrightarrow> \<exists>it'. seek_of ops t it = Some (value_of ops it', it') \<and>
      invar it' \<and> docs it' = docs it \<and> value_of ops it' = value_of ops it"

section \<open>Counting sub-iterators\<close>

definition hits :: "('it \<Rightarrow> nat set) \<Rightarrow> 'it list \<Rightarrow> nat \<Rightarrow> nat" where
  "hits docs its d = length (filter (\<lambda>it. d \<in> docs it) its)"

lemma hits_simps [simp]:
  "hits docs [] d = 0" "hits docs (it # its) d = of_bool (d \<in> docs it) + hits docs its d"
  "hits docs (xs @ ys) d = hits docs xs d + hits docs ys d"
  by (simp_all add: hits_def)

lemma hits_rotate: "its \<noteq> [] \<Longrightarrow> hits docs (last its # butlast its) d = hits docs its d"
proof -
  assume "its \<noteq> []"
  then have "hits docs (butlast its @ [last its]) d = hits docs its d" by simp
  then show ?thesis by (simp only: hits_simps add.commute)
qed

lemma hits_le_length: "hits docs its d \<le> length its"
  by (simp add: hits_def)

lemma hits_pos: "0 < hits docs its d \<longleftrightarrow> (\<exists>it\<in>set its. d \<in> docs it)"
  by (auto simp: hits_def filter_empty_conv)

text \<open>A relation that every visit keeps holds at the end of \<open>visit_and_purge\<close>.\<close>

lemma purge_rule:
  assumes "\<And>kept it its st. R kept (it # its) st \<Longrightarrow> \<exists>keep it' st'. visitor it st = Some (keep, it', st') \<and>
      (if keep then R (kept @ [it']) its st' else R kept (if its = [] then [] else last its # butlast its) st')"
    and "R kept its st"
  shows "\<exists>its' st'. purge_loop visitor kept its st = Some (its', st') \<and> R its' [] st'"
  using assms(2)
proof (induction "length its" arbitrary: kept its st rule: less_induct)
  case less
  show ?case
  proof (cases its)
    case Nil
    then show ?thesis using less.prems by simp
  next
    case (Cons it rest)
    let ?rot = "if rest = [] then [] else last rest # butlast rest"
    from assms(1) [of kept it rest st] less.prems Cons obtain keep it' st' where
      v: "visitor it st = Some (keep, it', st')" "if keep then R (kept @ [it']) rest st' else R kept ?rot st'" by blast
    have "length rest < length its" "length ?rot < length its" using Cons by auto
    with less.hyps v show ?thesis unfolding Cons by (cases keep) auto
  qed
qed

lemma visit_and_purge_rule:
  assumes "\<And>kept it its st. R kept (it # its) st \<Longrightarrow> \<exists>keep it' st'. visitor it st = Some (keep, it', st') \<and>
      (if keep then R (kept @ [it']) its st' else R kept (if its = [] then [] else last its # butlast its) st')"
    and "R [] its st"
  shows "\<exists>its' st'. visit_and_purge tr m visitor its st =
      Some (if bt_min_match tr \<and> length its' < m then [] else its', st') \<and> R its' [] st'"
  using purge_rule [of R visitor "[]" its st] assms by (auto simp: visit_and_purge_def)

section \<open>Reading one window\<close>

text \<open>
  \<open>bk_ready docs ops b it\<close>: a sub-iterator from which a window that starts at \<open>b\<close> can be read. It stands on its first
  document from \<open>b\<close> on, or one step before it.
\<close>

definition bk_ready :: "('a \<Rightarrow> nat set) \<Rightarrow> 'a doc_ops \<Rightarrow> nat \<Rightarrow> 'a \<Rightarrow> bool" where
  "bk_ready docs ops b it \<longleftrightarrow>
     first_ge (docs it) b = (if b \<le> value_of ops it then value_of ops it else first_ge (docs it) (value_of ops it + 1))"

definition bk_blocks :: "block_traits \<Rightarrow> nat" where
  "bk_blocks tr = max 1 (bt_num_blocks tr)"

lemma kWindow_blocks: "kWindow tr = 64 * bk_blocks tr" "0 < bk_blocks tr"
  by (simp_all add: kWindow_def bk_blocks_def)

lemma kWindow_pos: "0 < kWindow tr"
  by (simp add: kWindow_blocks)

text \<open>The arrays have their sizes.\<close>

definition bk_shape :: "block_traits \<Rightarrow> 'it block_disjunction \<Rightarrow> bool" where
  "bk_shape tr s \<longleftrightarrow> length (bk_mask s) = bk_blocks tr \<and> length (bk_counts s) = kWindow tr"

lemma words_set_shape: "bk_shape tr s \<Longrightarrow> k \<in> words_set (bk_mask s) \<Longrightarrow> k < kWindow tr"
  by (auto simp: words_set_def bk_shape_def kWindow_blocks)

lemma bk_mark_correct:
  assumes "bk_shape tr s" "bk_base s \<le> d" "d < bk_base s + kWindow tr" "bk_base s + kWindow tr < 2 ^ 32"
  shows "\<exists>M C e'. bk_mark tr d (s, e) = Some (s\<lparr>bk_mask := M, bk_counts := C\<rparr>, e') \<and>
    length M = length (bk_mask s) \<and> length C = length (bk_counts s) \<and>
    words_set M = insert (d - bk_base s) (words_set (bk_mask s)) \<and>
    (\<forall>k. C ! k = bk_counts s ! k + of_bool (bt_min_match tr \<and> k = d - bk_base s)) \<and>
    (e' \<longleftrightarrow> bt_min_match tr \<and> e \<and> C ! (d - bk_base s) < bk_min_match s)"
proof -
  let ?o = "d - bk_base s"
  have off: "(d + 2 ^ 32 - bk_base s) mod 2 ^ 32 = ?o" "?o < kWindow tr"
    using assms(2-4) by (auto simp: mod_if)
  let ?M = "(bk_mask s)[?o div 64 := set_bit_w (bk_mask s ! (?o div 64)) (?o mod 64)]"
  have q: "?o div 64 < length (bk_mask s)"
    using off(2) assms(1) by (simp add: bk_shape_def kWindow_blocks less_mult_imp_div_less mult.commute)
  have "i \<in> words_set ?M \<longleftrightarrow> i = ?o \<or> i \<in> words_set (bk_mask s)" for i
  proof (cases "i div 64 = ?o div 64")
    case True
    then have "i mod 64 = ?o mod 64 \<longleftrightarrow> i = ?o" by (metis div_mult_mod_eq)
    with True q show ?thesis by (auto simp: words_set_update_iff [OF q] bit_set_bit_w words_set_iff)
  next
    case False
    then show ?thesis by (auto simp: words_set_update_iff [OF q])
  qed
  then have M: "words_set ?M = insert ?o (words_set (bk_mask s))" by blast
  have oc: "?o < length (bk_counts s)" using off(2) assms(1) by (simp add: bk_shape_def)
  show ?thesis
  proof (cases "bt_min_match tr")
    case True
    with off M oc show ?thesis
      by (intro exI [of _ ?M] exI [of _ "(bk_counts s)[?o := bk_counts s ! ?o + 1]"] exI)
         (simp add: bk_mark_def Let_def nth_list_update)
  next
    case False
    with off M show ?thesis
      by (intro exI [of _ ?M] exI [of _ "bk_counts s"] exI) (simp add: bk_mark_def Let_def)
  qed
qed

text \<open>
  The state of one pass over the sub-iterators \<open>its0\<close> for the window of \<open>s0\<close>: \<open>kept\<close> have been read and have documents
  behind the window, \<open>its\<close> are still to be read.
\<close>

definition bk_pass ::
  "('it \<Rightarrow> nat set) \<Rightarrow> 'it doc_ops \<Rightarrow> ('it \<Rightarrow> bool) \<Rightarrow> block_traits \<Rightarrow> 'it block_disjunction \<Rightarrow> 'it list \<Rightarrow>
   'it list \<Rightarrow> 'it list \<Rightarrow> 'it block_disjunction \<times> bool \<Rightarrow> bool" where
  "bk_pass docs ops invar tr s0 its0 kept its st \<longleftrightarrow>
     (\<exists>M C m. fst st = s0\<lparr>bk_mask := M, bk_counts := C, bk_min := m\<rparr>) \<and> bk_shape tr (fst st) \<and>
     (\<forall>it\<in>set kept. invar it \<and> value_of ops it = first_ge (docs it) (bk_max s0) \<and> value_of ops it \<noteq> doc_eof \<and>
       bk_min (fst st) \<le> value_of ops it) \<and>
     (bk_min (fst st) = doc_eof \<or> (\<exists>it\<in>set kept. value_of ops it = bk_min (fst st))) \<and>
     (\<forall>it\<in>set its. invar it \<and> bk_ready docs ops (bk_base s0) it) \<and>
     docs ` (set kept \<union> set its) \<subseteq> docs ` set its0 \<and>
     (\<forall>d. hits docs its d \<le> hits docs its0 d) \<and>
     (\<forall>k<kWindow tr. k \<in> words_set (bk_mask (fst st)) \<longleftrightarrow>
       hits docs its (bk_base s0 + k) < hits docs its0 (bk_base s0 + k)) \<and>
     (bt_min_match tr \<longrightarrow> (\<forall>k<kWindow tr. bk_counts (fst st) ! k + hits docs its (bk_base s0 + k) =
       hits docs its0 (bk_base s0 + k))) \<and>
     (\<forall>d\<ge>bk_max s0. hits docs kept d + hits docs its d = hits docs its0 d) \<and>
     (snd st \<longleftrightarrow> (\<forall>k<kWindow tr. if bt_min_match tr then bk_counts (fst st) ! k < bk_min_match s0
        else k \<notin> words_set (bk_mask (fst st))))"

lemma bk_passD:
  assumes "bk_pass docs ops invar tr s0 its0 kept its st"
  shows "\<exists>M C m. fst st = s0\<lparr>bk_mask := M, bk_counts := C, bk_min := m\<rparr>" "bk_shape tr (fst st)"
    "\<forall>it\<in>set kept. invar it \<and> value_of ops it = first_ge (docs it) (bk_max s0) \<and> value_of ops it \<noteq> doc_eof \<and>
       bk_min (fst st) \<le> value_of ops it"
    "bk_min (fst st) = doc_eof \<or> (\<exists>it\<in>set kept. value_of ops it = bk_min (fst st))"
    "\<forall>it\<in>set its. invar it \<and> bk_ready docs ops (bk_base s0) it"
    "docs ` (set kept \<union> set its) \<subseteq> docs ` set its0"
    "\<forall>d. hits docs its d \<le> hits docs its0 d"
    "\<forall>k<kWindow tr. k \<in> words_set (bk_mask (fst st)) \<longleftrightarrow>
       hits docs its (bk_base s0 + k) < hits docs its0 (bk_base s0 + k)"
    "bt_min_match tr \<longrightarrow> (\<forall>k<kWindow tr. bk_counts (fst st) ! k + hits docs its (bk_base s0 + k) =
       hits docs its0 (bk_base s0 + k))"
    "\<forall>d\<ge>bk_max s0. hits docs kept d + hits docs its d = hits docs its0 d"
    "snd st \<longleftrightarrow> (\<forall>k<kWindow tr. if bt_min_match tr then bk_counts (fst st) ! k < bk_min_match s0
        else k \<notin> words_set (bk_mask (fst st)))"
  using assms unfolding bk_pass_def by - (elim conjE, assumption)+

lemma bk_pass_cong:
  assumes "set its = set its'" "\<And>d. hits docs its d = hits docs its' d"
  shows "bk_pass docs ops invar tr s0 its0 kept its st = bk_pass docs ops invar tr s0 its0 kept its' st"
  by (simp add: bk_pass_def assms)

lemma bk_pass_rotate:
  "bk_pass docs ops invar tr s0 its0 kept (if its = [] then [] else last its # butlast its) st =
   bk_pass docs ops invar tr s0 its0 kept its st"
proof (cases "its = []")
  case False
  have "set (last its # butlast its) = set (butlast its @ [last its])" by auto
  then have "set (last its # butlast its) = set its" using False by simp
  with False hits_rotate [OF False] show ?thesis by (simp only: if_False) (intro bk_pass_cong; simp)
qed simp

section \<open>The state between calls\<close>

text \<open>Enough sub-iterators for a document to be delivered.\<close>

definition bk_enough :: "block_traits \<Rightarrow> nat \<Rightarrow> nat \<Rightarrow> bool" where
  "bk_enough tr m n \<longleftrightarrow> (if bt_min_match tr then m \<le> n else 0 < n)"

text \<open>
  \<open>bk_core\<close>: the sub-iterators can be read from \<open>min_\<close> on, and from there on they determine the documents \<open>D\<close>.
  Document ids stay a window away from the end of \<open>doc_id_t\<close>, so that \<open>min_ + kWindow\<close> does not wrap around.
\<close>

definition bk_core ::
  "('it \<Rightarrow> nat set) \<Rightarrow> 'it doc_ops \<Rightarrow> ('it \<Rightarrow> bool) \<Rightarrow> block_traits \<Rightarrow> nat set \<Rightarrow> 'it block_disjunction \<Rightarrow> bool" where
  "bk_core docs ops invar tr D s \<longleftrightarrow> bk_shape tr s \<and> 0 < bk_min_match s \<and> doc_min \<le> bk_min s \<and>
     (\<forall>it\<in>set (bk_itrs s). invar it \<and> bk_ready docs ops (bk_min s) it \<and> (\<forall>d\<in>docs it. d + 1 + kWindow tr < 2 ^ 32)) \<and>
     (bk_itrs s \<noteq> [] \<longrightarrow> bk_min s + kWindow tr < 2 ^ 32) \<and>
     (\<forall>d\<ge>bk_min s. d \<in> D \<longleftrightarrow> bk_enough tr (bk_min_match s) (hits docs (bk_itrs s) d)) \<and>
     (bt_min_match tr \<or> (\<forall>it\<in>set (bk_itrs s). docs it \<subseteq> D))"

lemma bk_core_empty: "bk_core docs ops invar tr D s \<Longrightarrow> bk_itrs s = [] \<Longrightarrow> d \<in> D \<Longrightarrow> d < bk_min s"
  by (rule ccontr) (auto simp: bk_core_def bk_enough_def not_less split: if_splits)

text \<open>\<open>bk_loaded p\<close>: the window holds the documents of \<open>D\<close> from \<open>p\<close> on that are below \<open>max_\<close>; the others are not below \<open>min_\<close>.\<close>

definition bk_loaded :: "block_traits \<Rightarrow> nat set \<Rightarrow> nat \<Rightarrow> 'it block_disjunction \<Rightarrow> bool" where
  "bk_loaded tr D p s \<longleftrightarrow> kWindow tr \<le> bk_max s \<and> bk_max s < 2 ^ 32 \<and> bk_max s \<le> bk_min s \<and>
     (\<forall>k<kWindow tr. p \<le> bk_max s - kWindow tr + k \<longrightarrow> (bk_max s - kWindow tr + k \<in> D \<longleftrightarrow>
       k \<in> words_set (bk_mask s) \<and> (bt_min_match tr \<longrightarrow> bk_min_match s \<le> bk_counts s ! k))) \<and>
     (\<forall>d\<in>D. p \<le> d \<and> bk_max s \<le> d \<longrightarrow> bk_min s \<le> d)"

lemma first_ge_max: "w \<le> u \<Longrightarrow> first_ge D (max (first_ge D w) u) = first_ge D u"
  using first_ge_least [of _ D w] by (intro first_ge_skip) auto

context doc_cursor
begin

lemma fill_loop_correct:
  assumes "invar it" "value_of ops it \<in> docs it" "bk_shape tr s" "bk_base s \<le> value_of ops it"
    "bk_max s = bk_base s + kWindow tr" "bk_base s + kWindow tr < 2 ^ 32"
  shows "\<exists>alive it' M C e'. bk_fill_loop ops tr it (s, e) = Some (alive, it',
        s\<lparr>bk_mask := M, bk_counts := C, bk_min := (if alive then min (value_of ops it') (bk_min s) else bk_min s)\<rparr>, e') \<and>
    invar it' \<and> docs it' = docs it \<and> value_of ops it' = first_ge (docs it) (max (value_of ops it) (bk_max s)) \<and>
    (alive \<longleftrightarrow> value_of ops it' \<noteq> doc_eof) \<and> length M = length (bk_mask s) \<and> length C = length (bk_counts s) \<and>
    (\<forall>k. k \<in> words_set M \<longleftrightarrow> k \<in> words_set (bk_mask s) \<or>
      (k < kWindow tr \<and> bk_base s + k \<in> docs it \<and> value_of ops it \<le> bk_base s + k)) \<and>
    (\<forall>k<kWindow tr. C ! k = bk_counts s ! k +
      of_bool (bt_min_match tr \<and> bk_base s + k \<in> docs it \<and> value_of ops it \<le> bk_base s + k)) \<and>
    (e' \<longleftrightarrow> e \<and> (\<forall>k<kWindow tr. bk_base s + k \<in> docs it \<and> value_of ops it \<le> bk_base s + k \<longrightarrow>
      bt_min_match tr \<and> C ! k < bk_min_match s))"
  using assms
proof (induction "doc_eof - value_of ops it" arbitrary: it s e rule: less_induct)
  case less
  let ?v = "value_of ops it" and ?b = "bk_base s" and ?W = "kWindow tr"
  have v: "?v < doc_eof" using doc_set_less [OF docs_set [OF less.prems(1)] less.prems(2)] by simp
  show ?case
  proof (cases "bk_max s \<le> ?v")
    case True
    have "first_ge (docs it) ?v = ?v" using less.prems(2) v by (intro first_ge_self)
    moreover have "\<not> ?v \<le> ?b + k" if "k < ?W" for k using True less.prems(5) that by simp
    ultimately show ?thesis using True less.prems v
      by (intro exI [of _ True] exI [of _ it] exI [of _ "bk_mask s"] exI [of _ "bk_counts s"] exI [of _ e])
         (auto simp: bk_fill_loop.simps [of ops tr it "(s, e)"] max_def)
  next
    case False
    let ?o = "?v - ?b"
    have o: "?o < ?W" "?b + ?o = ?v" using False less.prems(4,5) by auto
    obtain M C e1 where mk: "bk_mark tr ?v (s, e) = Some (s\<lparr>bk_mask := M, bk_counts := C\<rparr>, e1)"
      "length M = length (bk_mask s)" "length C = length (bk_counts s)"
      "words_set M = insert ?o (words_set (bk_mask s))"
      "\<And>k. C ! k = bk_counts s ! k + of_bool (bt_min_match tr \<and> k = ?o)"
      "e1 \<longleftrightarrow> bt_min_match tr \<and> e \<and> C ! ?o < bk_min_match s"
      using bk_mark_correct [OF less.prems(3,4), of e] False less.prems(5,6) by auto
    let ?s1 = "s\<lparr>bk_mask := M, bk_counts := C\<rparr>"
    obtain it1 where it1: "next_of ops it = Some (value_of ops it1 \<noteq> doc_eof, it1)" "invar it1" "docs it1 = docs it"
      "value_of ops it1 = first_ge (docs it) (?v + 1)"
      using next_law [OF less.prems(1)] by blast
    have after: "d \<in> docs it \<and> ?v \<le> d \<longleftrightarrow> d \<in> docs it \<and> (d = ?v \<or> value_of ops it1 \<le> d)" for d
    proof -
      have "value_of ops it1 \<le> d" if "d \<in> docs it" "?v < d"
        using first_ge_least [of d "docs it" "?v + 1"] that doc_set_less [OF docs_set [OF less.prems(1)]] it1(4) by auto
      moreover have "?v < d" if "d \<in> docs it" "value_of ops it1 \<le> d"
        using first_ge_ge [of "?v + 1" "docs it"] v it1(4) that by simp
      ultimately show ?thesis by (auto simp: order.order_iff_strict)
    qed
    have at: "bk_base s + k \<in> docs it \<and> ?v \<le> ?b + k \<longleftrightarrow> k = ?o \<or> bk_base s + k \<in> docs it \<and> value_of ops it1 \<le> ?b + k" for k
      using after [of "?b + k"] less.prems(2) o(2) by auto
    have mx: "max ?v (bk_max s) = bk_max s" "?v + 1 \<le> bk_max s" using False by auto
    have fg: "first_ge (docs it) (max (value_of ops it1) (bk_max s)) = first_ge (docs it) (bk_max s)"
      using first_ge_max [OF mx(2), of "docs it"] it1(4) by simp
    have step: "bk_fill_loop ops tr it (s, e) =
        (if value_of ops it1 \<noteq> doc_eof then bk_fill_loop ops tr it1 (?s1, e1) else Some (False, it1, ?s1, e1))"
      using False mk(1) it1(1) by (subst bk_fill_loop.simps) simp
    show ?thesis
    proof (cases "value_of ops it1 = doc_eof")
      case True
      have "bk_max s \<le> doc_eof" using less.prems(5,6) by (simp add: doc_eof_def)
      then have fe: "first_ge (docs it) (bk_max s) = doc_eof" using fg True by (simp add: max_def first_ge_at_eof)
      have no: "\<not> doc_eof \<le> ?b + k" if "k < ?W" for k using less.prems(6) that by (simp add: doc_eof_def)
      show ?thesis
        by (intro exI [of _ False] exI [of _ it1] exI [of _ M] exI [of _ C] exI [of _ e1])
           (use step True it1 fe mx mk at no in \<open>auto simp: o\<close>)
    next
      case v1: False
      have in1: "value_of ops it1 \<in> docs it1" using value_in [OF it1(2)] v1 first_ge_cases [of "docs it" "?v + 1"] it1(3,4) by auto
      have gt: "?v < value_of ops it1" using first_ge_ge [of "?v + 1" "docs it"] v it1(4) by simp
      then have lt: "doc_eof - value_of ops it1 < doc_eof - ?v" using v by linarith
      have p: "bk_shape tr ?s1" "bk_base ?s1 \<le> value_of ops it1" "bk_max ?s1 = bk_base ?s1 + ?W" "bk_base ?s1 + ?W < 2 ^ 32"
        using less.prems(3-6) mk(2,3) gt by (simp_all add: bk_shape_def)
      have "\<exists>alive it' M' C' e'. bk_fill_loop ops tr it1 (?s1, e1) = Some (alive, it', s\<lparr>bk_mask := M', bk_counts := C',
            bk_min := (if alive then min (value_of ops it') (bk_min s) else bk_min s)\<rparr>, e') \<and>
          invar it' \<and> docs it' = docs it \<and> value_of ops it' = first_ge (docs it) (bk_max s) \<and>
          (alive \<longleftrightarrow> value_of ops it' \<noteq> doc_eof) \<and> length M' = length M \<and> length C' = length C \<and>
          (\<forall>k. k \<in> words_set M' \<longleftrightarrow> k \<in> words_set M \<or>
            (k < ?W \<and> ?b + k \<in> docs it \<and> value_of ops it1 \<le> ?b + k)) \<and>
          (\<forall>k<?W. C' ! k = C ! k + of_bool (bt_min_match tr \<and> ?b + k \<in> docs it \<and> value_of ops it1 \<le> ?b + k)) \<and>
          (e' \<longleftrightarrow> e1 \<and> (\<forall>k<?W. ?b + k \<in> docs it \<and> value_of ops it1 \<le> ?b + k \<longrightarrow>
            bt_min_match tr \<and> C' ! k < bk_min_match s))"
        using less.hyps [OF lt it1(2) in1 p, of e1] unfolding it1(3) by (simp add: fg cong: if_cong split del: if_split)
      then obtain alive it' M' C' e' where
        r: "bk_fill_loop ops tr it1 (?s1, e1) = Some (alive, it', s\<lparr>bk_mask := M', bk_counts := C',
            bk_min := (if alive then min (value_of ops it') (bk_min s) else bk_min s)\<rparr>, e')"
          "invar it'" "docs it' = docs it" "value_of ops it' = first_ge (docs it) (bk_max s)"
          "alive \<longleftrightarrow> value_of ops it' \<noteq> doc_eof" "length M' = length M" "length C' = length C"
          "\<And>k. k \<in> words_set M' \<longleftrightarrow> k \<in> words_set M \<or>
            (k < ?W \<and> ?b + k \<in> docs it \<and> value_of ops it1 \<le> ?b + k)"
          "\<And>k. k < ?W \<Longrightarrow> C' ! k = C ! k + of_bool (bt_min_match tr \<and> ?b + k \<in> docs it \<and> value_of ops it1 \<le> ?b + k)"
          "e' \<longleftrightarrow> e1 \<and> (\<forall>k<?W. ?b + k \<in> docs it \<and> value_of ops it1 \<le> ?b + k \<longrightarrow> bt_min_match tr \<and> C' ! k < bk_min_match s)"
        by blast
      have no: "\<not> value_of ops it1 \<le> ?b + ?o" using gt o(2) by simp
      have words: "k \<in> words_set M' \<longleftrightarrow> k \<in> words_set (bk_mask s) \<or> (k < ?W \<and> ?b + k \<in> docs it \<and> ?v \<le> ?b + k)" for k
        using r(8) [of k] mk(4) at [of k] o(1) by auto
      have cnt: "C' ! k = bk_counts s ! k + of_bool (bt_min_match tr \<and> ?b + k \<in> docs it \<and> ?v \<le> ?b + k)" if "k < ?W" for k
        using r(9) [OF that] mk(5) [of k] at [of k] no by auto
      have "C' ! ?o = C ! ?o" using r(9) [OF o(1)] no by simp
      then have emp: "e' \<longleftrightarrow> e \<and> (\<forall>k<?W. ?b + k \<in> docs it \<and> ?v \<le> ?b + k \<longrightarrow> bt_min_match tr \<and> C' ! k < bk_min_match s)"
        unfolding r(10) mk(6) at using o(1) by auto
      show ?thesis
        by (intro exI [of _ alive] exI [of _ it'] exI [of _ M'] exI [of _ C'] exI [of _ e'])
           (use step v1 r(1-7) words cnt emp mx mk(2,3) in simp)
    qed
  qed
qed

lemma fill_correct:
  assumes "invar it" "bk_ready docs ops (bk_base s) it" "bk_shape tr s" "doc_min \<le> bk_base s"
    "bk_max s = bk_base s + kWindow tr" "bk_base s + kWindow tr < 2 ^ 32"
  shows "\<exists>alive it' M C e'. bk_fill ops tr it (s, e) = Some (alive, it',
        s\<lparr>bk_mask := M, bk_counts := C, bk_min := (if alive then min (value_of ops it') (bk_min s) else bk_min s)\<rparr>, e') \<and>
    invar it' \<and> docs it' = docs it \<and> value_of ops it' = first_ge (docs it) (bk_max s) \<and>
    (alive \<longleftrightarrow> value_of ops it' \<noteq> doc_eof) \<and> length M = length (bk_mask s) \<and> length C = length (bk_counts s) \<and>
    (\<forall>k. k \<in> words_set M \<longleftrightarrow> k \<in> words_set (bk_mask s) \<or> (k < kWindow tr \<and> bk_base s + k \<in> docs it)) \<and>
    (\<forall>k<kWindow tr. C ! k = bk_counts s ! k + of_bool (bt_min_match tr \<and> bk_base s + k \<in> docs it)) \<and>
    (e' \<longleftrightarrow> e \<and> (\<forall>k<kWindow tr. bk_base s + k \<in> docs it \<longrightarrow> bt_min_match tr \<and> C ! k < bk_min_match s))"
proof -
  let ?b = "bk_base s" and ?W = "kWindow tr"
  obtain b it1 where it1: "(if value_of ops it < ?b then next_of ops it else Some (True, it)) = Some (b, it1)"
    "invar it1" "docs it1 = docs it" "value_of ops it1 = first_ge (docs it) ?b" "value_of ops it1 = doc_eof \<or> b"
  proof (cases "value_of ops it < ?b")
    case True
    with next_law [OF assms(1)] assms(2) that show ?thesis by (fastforce simp: bk_ready_def)
  next
    case False
    with assms(1,2) that show ?thesis by (auto simp: bk_ready_def not_less)
  qed
  have le: "?b \<le> doc_eof" using assms(6) by (simp add: doc_eof_def)
  have ge: "value_of ops it1 \<le> ?b + k" if "?b + k \<in> docs it" for k
    using first_ge_least [OF that, of ?b] doc_set_less [OF docs_set [OF assms(1)] that] it1(4) by simp
  show ?thesis
  proof (cases "value_of ops it1 = doc_eof")
    case True
    have no: "?b + k \<notin> docs it" for k
      using ge [of k] True doc_set_less [OF docs_set [OF assms(1)], of "?b + k"] by auto
    have "first_ge (docs it) (bk_max s) = doc_eof"
      using first_ge_max [of ?b "bk_max s" "docs it"] True it1(4) assms(5) by (simp add: max_def first_ge_at_eof split: if_splits)
    then show ?thesis using it1 True no
      by (intro exI [of _ False] exI [of _ it1] exI [of _ "bk_mask s"] exI [of _ "bk_counts s"] exI [of _ e])
         (simp add: bk_fill_def)
  next
    case False
    then have v: "value_of ops it1 \<in> docs it1" "?b \<le> value_of ops it1"
      using first_ge_cases [of "docs it" ?b] it1(3,4) by auto
    have fg: "first_ge (docs it) (max (value_of ops it1) (bk_max s)) = first_ge (docs it) (bk_max s)"
      unfolding it1(4) assms(5) by (rule first_ge_max) simp
    have at: "?b + k \<in> docs it \<and> value_of ops it1 \<le> ?b + k \<longleftrightarrow> ?b + k \<in> docs it" for k using ge by blast
    from False it1(1,5) have "bk_fill ops tr it (s, e) = bk_fill_loop ops tr it1 (s, e)" by (simp add: bk_fill_def)
    with fill_loop_correct [OF it1(2) v(1) assms(3) v(2) assms(5,6), of e] show ?thesis
      unfolding it1(3) fg at by simp
  qed
qed

lemma pass_step:
  assumes "bk_pass docs ops invar tr s0 its0 kept (it # its) st" "doc_min \<le> bk_base s0"
    "bk_max s0 = bk_base s0 + kWindow tr" "bk_base s0 + kWindow tr < 2 ^ 32"
  shows "\<exists>keep it' st'. bk_fill ops tr it st = Some (keep, it', st') \<and>
    (if keep then bk_pass docs ops invar tr s0 its0 (kept @ [it']) its st'
     else bk_pass docs ops invar tr s0 its0 kept (if its = [] then [] else last its # butlast its) st')"
proof -
  obtain s e where st: "st = (s, e)" by fastforce
  let ?b = "bk_base s0" and ?W = "kWindow tr"
  note P = bk_passD [OF assms(1), unfolded st fst_conv snd_conv]
  obtain M0 C0 m0 where s: "s = s0\<lparr>bk_mask := M0, bk_counts := C0, bk_min := m0\<rparr>" using P(1) by blast
  have f: "bk_base s = ?b" "bk_max s = bk_max s0" "bk_min_match s = bk_min_match s0" by (simp_all add: s)
  have pre: "invar it" "bk_ready docs ops (bk_base s) it" "bk_shape tr s" "doc_min \<le> bk_base s"
    "bk_max s = bk_base s + ?W" "bk_base s + ?W < 2 ^ 32"
    using P(2,5) assms(2-4) by (simp_all add: f)
  obtain alive it' M C e' where
    r: "bk_fill ops tr it (s, e) = Some (alive, it', s\<lparr>bk_mask := M, bk_counts := C,
        bk_min := (if alive then min (value_of ops it') (bk_min s) else bk_min s)\<rparr>, e')"
      "invar it'" "docs it' = docs it" "value_of ops it' = first_ge (docs it) (bk_max s0)"
      "alive \<longleftrightarrow> value_of ops it' \<noteq> doc_eof" "length M = length (bk_mask s)" "length C = length (bk_counts s)"
      "\<And>k. k \<in> words_set M \<longleftrightarrow> k \<in> words_set (bk_mask s) \<or> (k < ?W \<and> ?b + k \<in> docs it)"
      "\<And>k. k < ?W \<Longrightarrow> C ! k = bk_counts s ! k + of_bool (bt_min_match tr \<and> ?b + k \<in> docs it)"
      "e' \<longleftrightarrow> e \<and> (\<forall>k<?W. ?b + k \<in> docs it \<longrightarrow> bt_min_match tr \<and> C ! k < bk_min_match s0)"
    using fill_correct [OF pre, of e] unfolding f by blast
  let ?s = "s\<lparr>bk_mask := M, bk_counts := C, bk_min := (if alive then min (value_of ops it') (bk_min s) else bk_min s)\<rparr>"
  let ?kept = "if alive then kept @ [it'] else kept"
  have beyond: "\<not> alive \<Longrightarrow> bk_max s0 \<le> d \<Longrightarrow> d \<notin> docs it" for d
    using r(4,5) first_ge_least [of d "docs it" "bk_max s0"] doc_set_less [OF docs_set [OF pre(1)], of d] by auto
  have "bk_pass docs ops invar tr s0 its0 ?kept its (?s, e')"
    unfolding bk_pass_def fst_conv snd_conv
  proof (intro conjI, goal_cases)
    case 1 show ?case by (intro exI) (simp add: s)
  next
    case 2 show ?case using pre(3) r(6,7) by (simp add: bk_shape_def)
  next
    case 3 show ?case using P(3) r(2-5) by (auto simp: min_def)
  next
    case 4 show ?case using P(4) by (auto simp: min_def)
  next
    case 5 show ?case using P(5) by simp
  next
    case 6 show ?case using P(6) r(3) by auto
  next
    case 7 show ?case using P(7) by (metis add_leD2 hits_simps(2))
  next
    case 8
    have "k \<in> words_set M \<longleftrightarrow> hits docs its (?b + k) < hits docs its0 (?b + k)" if "k < ?W" for k
      using spec [OF P(7), of "?b + k"] mp [OF spec [OF P(8), of k] that] r(8) [of k] that
      by (cases "?b + k \<in> docs it") auto
    then show ?case by simp
  next
    case 9
    then show ?case using P(9) r(9) by (auto simp: algebra_simps)
  next
    case 10
    have "hits docs kept d + hits docs (it # its) d = hits docs its0 d" if "bk_max s0 \<le> d" for d using P(10) that by blast
    then show ?case using beyond r(3) by (auto simp: add.assoc)
  next
    case 11
    have "e \<longleftrightarrow> (\<forall>k<?W. if bt_min_match tr then bk_counts s ! k < bk_min_match s0 else k \<notin> words_set (bk_mask s))"
      using P(11) by blast
    then show ?case unfolding r(10) using r(8,9) by (cases "bt_min_match tr") (auto split: if_splits)
  qed
  with r(1) show ?thesis unfolding st bk_pass_rotate by (cases alive) auto
qed

text \<open>One pass over all sub-iterators.\<close>

lemma pass_correct:
  assumes core: "bk_core docs ops invar tr D s" and its: "bk_itrs s \<noteq> []"
    and clean: "bt_min_match tr \<or> words_set (bk_mask s) = {}"
  defines "s1 \<equiv> (if bt_min_match tr then bk_reset tr s else s)"
  defines "s2 \<equiv> s1\<lparr>bk_base := bk_min s1, bk_max := (bk_min s1 + kWindow tr) mod 2 ^ 32, bk_min := doc_eof\<rparr>"
  shows "\<exists>its' s3 e. visit_and_purge tr (bk_min_match s2) (bk_fill ops tr) (bk_itrs s2) (s2, True) =
      Some (if bt_min_match tr \<and> length its' < bk_min_match s then [] else its', s3, e) \<and>
    bk_pass docs ops invar tr s2 (bk_itrs s) its' [] (s3, e)"
proof -
  have w: "bk_min s + kWindow tr < 2 ^ 32" "doc_min \<le> bk_min s" "bk_shape tr s" "0 < bk_min_match s"
    using core its by (auto simp: bk_core_def)
  have f: "bk_base s2 = bk_min s" "bk_max s2 = bk_min s + kWindow tr" "bk_itrs s2 = bk_itrs s" "bk_min_match s2 = bk_min_match s"
    using w(1) by (auto simp: s2_def s1_def bk_reset_def Let_def)
  have mask: "words_set (bk_mask s2) = {}" "bt_min_match tr \<Longrightarrow> bk_counts s2 = replicate (kWindow tr) 0" "bk_shape tr s2"
    using clean w(3) by (auto simp: s2_def s1_def bk_reset_def Let_def bk_shape_def)
  have start: "bk_pass docs ops invar tr s2 (bk_itrs s) [] (bk_itrs s) (s2, True)"
    unfolding bk_pass_def
  proof (intro conjI, goal_cases)
    case 1 show ?case by (intro exI [of _ "bk_mask s2"] exI [of _ "bk_counts s2"] exI [of _ "bk_min s2"]) simp
  next
    case 5 show ?case using core by (simp add: bk_core_def f)
  next
    case 11 show ?case using mask w(4) by (simp add: f)
  qed (use mask in \<open>simp_all add: s2_def\<close>)
  have "\<exists>its' st'. visit_and_purge tr (bk_min_match s2) (bk_fill ops tr) (bk_itrs s2) (s2, True) =
      Some (if bt_min_match tr \<and> length its' < bk_min_match s2 then [] else its', st') \<and>
    bk_pass docs ops invar tr s2 (bk_itrs s) its' [] st'"
    unfolding f(3) using start w(1,2) by (intro visit_and_purge_rule pass_step) (simp_all add: f)
  then show ?thesis unfolding f(4) by (metis surj_pair)
qed

text \<open>What a pass leaves behind.\<close>

lemma pass_result:
  assumes core: "bk_core docs ops invar tr D s" and ne: "bk_itrs s \<noteq> []" and D: "doc_set D"
    and pass: "bk_pass docs ops invar tr s2 (bk_itrs s) its' [] (s3, e)"
    and s2: "bk_base s2 = bk_min s" "bk_max s2 = bk_min s + kWindow tr" "bk_min_match s2 = bk_min_match s"
  defines "its2 \<equiv> (if bt_min_match tr \<and> length its' < bk_min_match s then [] else its')"
  defines "s4 \<equiv> s3\<lparr>bk_itrs := its2\<rparr>"
  shows "bk_core docs ops invar tr D s4" "bk_loaded tr D (bk_min s) s4" "bk_base s4 = bk_min s"
    "bk_max s4 = bk_min s + kWindow tr" "bk_max s4 \<le> bk_min s4"
    "e \<longleftrightarrow> (\<forall>d\<in>D. bk_min s \<le> d \<longrightarrow> bk_max s4 \<le> d)"
    "\<not> bt_min_match tr \<Longrightarrow> e \<Longrightarrow> words_set (bk_mask s4) = {}"
proof -
  note P = bk_passD [OF pass, unfolded fst_conv snd_conv]
  let ?b = "bk_min s" and ?W = "kWindow tr" and ?m = "bk_min_match s"
  let ?mx = "?b + ?W"
  have w: "?mx < 2 ^ 32" "doc_min \<le> ?b" "0 < ?m" using core ne by (auto simp: bk_core_def)
  have s3: "bk_base s3 = ?b" "bk_max s3 = ?mx" "bk_min_match s3 = ?m" using P(1) s2 by auto
  have sel: "d \<in> D \<longleftrightarrow> bk_enough tr ?m (hits docs (bk_itrs s) d)" if "?b \<le> d" for d
    using core that by (simp add: bk_core_def)
  have words: "k \<in> words_set (bk_mask s3) \<longleftrightarrow> 0 < hits docs (bk_itrs s) (?b + k)" if "k < ?W" for k
    using P(8) that s2(1) by simp
  have cnt: "bk_counts s3 ! k = hits docs (bk_itrs s) (?b + k)" if "k < ?W" "bt_min_match tr" for k
    using P(9) that s2(1) by simp
  have inwin: "?b + k \<in> D \<longleftrightarrow> k \<in> words_set (bk_mask s3) \<and> (bt_min_match tr \<longrightarrow> ?m \<le> bk_counts s3 ! k)" if "k < ?W" for k
    using sel [of "?b + k"] words [OF that] cnt [OF that] w(3) by (auto simp: bk_enough_def)
  have beyond: "hits docs its' d = hits docs (bk_itrs s) d" if "?mx \<le> d" for d using P(10) that s2(2) by simp
  have kept: "invar it" "value_of ops it = first_ge (docs it) ?mx" "value_of ops it \<noteq> doc_eof" "bk_min s3 \<le> value_of ops it"
    if "it \<in> set its'" for it using P(3) that s2(2) by auto
  have mx_eof: "?mx \<le> doc_eof" using w(1) by (simp add: doc_eof_def)
  have min_ge: "?mx \<le> bk_min s3"
    using P(4) kept(2) first_ge_ge [OF mx_eof] mx_eof by metis
  have cut: "bk_enough tr ?m (hits docs its2 d) \<longleftrightarrow> bk_enough tr ?m (hits docs its' d)" for d
    using hits_le_length [of docs its' d] w(3) by (auto simp: its2_def bk_enough_def)
  have sub: "set its2 \<subseteq> set its'" by (simp add: its2_def)
  have later: "bk_min s3 \<le> d" if "d \<in> D" "?mx \<le> d" for d
  proof -
    have "0 < hits docs its' d" using sel [of d] that beyond [of d] w(3) by (auto simp: bk_enough_def split: if_splits)
    then obtain it where it: "it \<in> set its'" "d \<in> docs it" by (auto simp: hits_pos)
    have "value_of ops it \<le> d"
      using first_ge_least [OF it(2) that(2)] doc_set_less [OF docs_set [OF kept(1) [OF it(1)]] it(2)] kept(2) [OF it(1)] by simp
    with kept(4) [OF it(1)] show ?thesis by simp
  qed
  have ready: "bk_ready docs ops (bk_min s3) it" if "it \<in> set its'" for it
    using first_ge_skip [of ?mx "bk_min s3" "docs it"] min_ge kept(2,4) [OF that] first_ge_least [of _ "docs it" ?mx]
    by (auto simp: bk_ready_def intro: order.trans)
  have bound: "d + 1 + ?W < 2 ^ 32" "bt_min_match tr \<or> d \<in> D" if "it \<in> set its'" "d \<in> docs it" for it d
  proof -
    have "docs it \<in> docs ` set (bk_itrs s)" using P(6) that(1) by blast
    then obtain it0 where "it0 \<in> set (bk_itrs s)" "docs it = docs it0" by blast
    then show "d + 1 + ?W < 2 ^ 32" "bt_min_match tr \<or> d \<in> D" using core that(2) unfolding bk_core_def by (metis subsetD)+
  qed
  have min_bound: "bk_min s3 + ?W < 2 ^ 32" if ne2: "its2 \<noteq> []"
  proof -
    obtain it where "it \<in> set its'" using ne2 sub by (cases its2) auto
    with kept value_le_eof P(4) obtain it' where it': "it' \<in> set its'" "value_of ops it' = bk_min s3"
      by (metis le_antisym)
    then have "bk_min s3 \<in> docs it'" using kept(2,3) [OF it'(1)] first_ge_cases [of "docs it'" ?mx] by auto
    with bound(1) [OF it'(1)] show ?thesis by fastforce
  qed
  show "bk_core docs ops invar tr D s4"
    unfolding bk_core_def
  proof (intro conjI, goal_cases)
    case 1 show ?case using P(2) by (simp add: s4_def bk_shape_def)
  next
    case 2 show ?case using w(3) by (simp add: s4_def s3)
  next
    case 3 show ?case using w(2) min_ge by (simp add: s4_def)
  next
    case 4 show ?case using sub kept(1) ready bound(1) by (auto simp: s4_def)
  next
    case 5 show ?case using min_bound by (simp add: s4_def)
  next
    case 6 show ?case using sel beyond cut min_ge by (simp add: s4_def s3)
  next
    case 7 show ?case using sub bound(2) by (auto simp: s4_def)
  qed
  show "bk_loaded tr D ?b s4" using w(1) inwin later min_ge by (simp add: bk_loaded_def s4_def s3)
  show "bk_base s4 = ?b" "bk_max s4 = ?mx" "bk_max s4 \<le> bk_min s4" using min_ge by (simp_all add: s4_def s3)
  have e: "e \<longleftrightarrow> (\<forall>k<?W. ?b + k \<notin> D)"
    unfolding P(11) s2(3) using inwin w(3) words cnt by (auto simp: not_less split: if_splits)
  show "e \<longleftrightarrow> (\<forall>d\<in>D. ?b \<le> d \<longrightarrow> bk_max s4 \<le> d)"
  proof
    assume e
    then show "\<forall>d\<in>D. ?b \<le> d \<longrightarrow> bk_max s4 \<le> d"
      unfolding e s4_def by (auto simp: s3) (metis le_add_diff_inverse less_diff_conv2 nat_add_left_cancel_less not_le)
  qed (auto simp: e s4_def s3)
  show "\<not> bt_min_match tr \<Longrightarrow> e \<Longrightarrow> words_set (bk_mask s4) = {}"
    using inwin words_set_shape [OF P(2)] by (auto simp: e s4_def)
qed

lemma refill_loop_correct:
  assumes "bk_core docs ops invar tr D s" "bk_itrs s \<noteq> []" "doc_set D" "bt_min_match tr \<or> words_set (bk_mask s) = {}"
  shows "\<exists>s' e. bk_refill_loop ops tr s = Some (s', e) \<and> bk_core docs ops invar tr D s' \<and>
    bk_begin s' = bk_begin s \<and> bk_cur s' = bk_cur s \<and> bk_min_match s' = bk_min_match s \<and>
    (if e then bk_itrs s' = [] \<and> (\<forall>d\<in>D. d < bk_min s)
     else bk_loaded tr D (bk_min s) s' \<and> bk_max s' = bk_base s' + kWindow tr \<and> bk_min s \<le> bk_base s' \<and>
       (\<forall>d\<in>D. bk_min s \<le> d \<longrightarrow> bk_base s' \<le> d) \<and> (\<exists>d\<in>D. bk_base s' \<le> d \<and> d < bk_max s'))"
  using assms
proof (induction "doc_eof - bk_min s" arbitrary: s rule: less_induct)
  case less
  note core = less.prems(1) and ne = less.prems(2)
  let ?s1 = "if bt_min_match tr then bk_reset tr s else s"
  let ?s2 = "?s1\<lparr>bk_base := bk_min ?s1, bk_max := (bk_min ?s1 + kWindow tr) mod 2 ^ 32, bk_min := doc_eof\<rparr>"
  have w: "bk_min s + kWindow tr < 2 ^ 32" "0 < bk_min_match s" using core ne by (auto simp: bk_core_def)
  have f: "bk_base ?s2 = bk_min s" "bk_max ?s2 = bk_min s + kWindow tr" "bk_min_match ?s2 = bk_min_match s"
    "bk_begin ?s2 = bk_begin s" "bk_cur ?s2 = bk_cur s"
    using w(1) by (simp_all add: bk_reset_def Let_def)
  obtain its' s3 e where v: "visit_and_purge tr (bk_min_match ?s2) (bk_fill ops tr) (bk_itrs ?s2) (?s2, True) =
      Some (if bt_min_match tr \<and> length its' < bk_min_match s then [] else its', s3, e)"
    and pass: "bk_pass docs ops invar tr ?s2 (bk_itrs s) its' [] (s3, e)"
    using pass_correct [OF core ne less.prems(4)] by blast
  let ?its = "if bt_min_match tr \<and> length its' < bk_min_match s then [] else its'"
  let ?s4 = "s3\<lparr>bk_itrs := ?its\<rparr>"
  note R = pass_result [OF core ne less.prems(3) pass f(1-3)]
  have same: "bk_begin ?s4 = bk_begin s" "bk_cur ?s4 = bk_cur s" "bk_min_match ?s4 = bk_min_match s"
    using bk_passD(1) [OF pass] f(3-5) by auto
  have eq: "bk_refill_loop ops tr s = (if e \<and> ?its \<noteq> [] then bk_refill_loop ops tr ?s4 else Some (?s4, e))"
    using v by (subst bk_refill_loop.simps) (simp add: Let_def)
  show ?case
  proof (cases "e \<and> ?its \<noteq> []")
    case True
    have up: "bk_min s < bk_min ?s4" using R(4,5) kWindow_pos [of tr] by simp
    have skip: "bk_min ?s4 \<le> d" if "d \<in> D" "bk_min s \<le> d" for d
      using R(2,6) True that by (simp add: bk_loaded_def)
    have "bk_min s < doc_eof" using w(1) kWindow_pos [of tr] by (simp add: doc_eof_def)
    then have "doc_eof - bk_min ?s4 < doc_eof - bk_min s" using up by linarith
    moreover have "bk_itrs ?s4 \<noteq> []" using True by simp
    ultimately obtain s' e' where s': "bk_refill_loop ops tr ?s4 = Some (s', e')" "bk_core docs ops invar tr D s'"
      "bk_begin s' = bk_begin s" "bk_cur s' = bk_cur s" "bk_min_match s' = bk_min_match s"
      "if e' then bk_itrs s' = [] \<and> (\<forall>d\<in>D. d < bk_min ?s4)
       else bk_loaded tr D (bk_min ?s4) s' \<and> bk_max s' = bk_base s' + kWindow tr \<and> bk_min ?s4 \<le> bk_base s' \<and>
         (\<forall>d\<in>D. bk_min ?s4 \<le> d \<longrightarrow> bk_base s' \<le> d) \<and> (\<exists>d\<in>D. bk_base s' \<le> d \<and> d < bk_max s')"
      using less.hyps [of ?s4] R(1,7) True less.prems(3) same by metis
    have "\<forall>d\<in>D. d < bk_min s" if e'
      using s'(6) that skip by (metis not_le)
    moreover have "bk_loaded tr D (bk_min s) s'" if "\<not> e'"
      using s'(6) that up skip by (auto simp: bk_loaded_def)
    moreover have "bk_min s \<le> bk_base s' \<and> (\<forall>d\<in>D. bk_min s \<le> d \<longrightarrow> bk_base s' \<le> d)" if "\<not> e'"
      using s'(6) that up skip by auto
    ultimately show ?thesis using s' True unfolding eq by (auto split: if_splits)
  next
    case False
    have "d < bk_min s" if "e" "d \<in> D" for d
    proof (rule ccontr)
      assume "\<not> d < bk_min s"
      with R(2,6) that have "bk_min ?s4 \<le> d" by (auto simp: bk_loaded_def)
      moreover have "bk_itrs ?s4 = []" using False that(1) by simp
      ultimately show False using bk_core_empty [OF R(1) _ that(2)] by simp
    qed
    moreover have "bk_itrs ?s4 = []" if e using False that by simp
    moreover have "\<exists>d\<in>D. bk_base ?s4 \<le> d \<and> d < bk_max ?s4" if "\<not> e" using R(3,6) that by (auto simp: not_le)
    ultimately show ?thesis using False R(1-4) same unfolding eq
      by (intro exI [of _ ?s4] exI [of _ e]) (cases e; simp)
  qed
qed

end

section \<open>Walking through the window\<close>

text \<open>Fields that do not matter.\<close>

lemma bk_loaded_frame [simp]:
  "bk_loaded tr D p (s\<lparr>bk_cur := c\<rparr>) = bk_loaded tr D p s" "bk_loaded tr D p (s\<lparr>bk_begin := b\<rparr>) = bk_loaded tr D p s"
  "bk_loaded tr D p (s\<lparr>bk_base := x\<rparr>) = bk_loaded tr D p s" "bk_loaded tr D p (s\<lparr>bk_offset := y\<rparr>) = bk_loaded tr D p s"
  "bk_loaded tr D p (s\<lparr>bk_doc := d\<rparr>) = bk_loaded tr D p s" "bk_loaded tr D p (s\<lparr>bk_match := m\<rparr>) = bk_loaded tr D p s"
  by (simp_all add: bk_loaded_def)

lemma bk_core_frame [simp]:
  "bk_core docs ops invar tr D (s\<lparr>bk_cur := c\<rparr>) = bk_core docs ops invar tr D s"
  "bk_core docs ops invar tr D (s\<lparr>bk_begin := b\<rparr>) = bk_core docs ops invar tr D s"
  "bk_core docs ops invar tr D (s\<lparr>bk_base := x\<rparr>) = bk_core docs ops invar tr D s"
  "bk_core docs ops invar tr D (s\<lparr>bk_offset := y\<rparr>) = bk_core docs ops invar tr D s"
  "bk_core docs ops invar tr D (s\<lparr>bk_doc := d\<rparr>) = bk_core docs ops invar tr D s"
  "bk_core docs ops invar tr D (s\<lparr>bk_match := m\<rparr>) = bk_core docs ops invar tr D s"
  "bk_core docs ops invar tr D (s\<lparr>bk_max := u\<rparr>) = bk_core docs ops invar tr D s"
  by (simp_all add: bk_core_def bk_shape_def)

lemma bk_loaded_mono: "bk_loaded tr D p s \<Longrightarrow> p \<le> q \<Longrightarrow> bk_loaded tr D q s"
  unfolding bk_loaded_def by (meson order.trans)

text \<open>\<open>bk_window p\<close>: a window is loaded and the cursor stands in it, the documents from \<open>p\<close> on being still to come.\<close>

definition bk_window :: "block_traits \<Rightarrow> nat set \<Rightarrow> nat \<Rightarrow> 'it block_disjunction \<Rightarrow> bool" where
  "bk_window tr D p s \<longleftrightarrow> bk_loaded tr D p s \<and> 1 \<le> bk_begin s \<and> bk_begin s \<le> bk_blocks tr \<and>
     bk_base s = bk_max s - kWindow tr + 64 * (bk_begin s - 1) \<and>
     (bt_min_match tr \<longrightarrow> bk_offset s = 64 * (bk_begin s - 1)) \<and> p \<le> bk_base s + 64 \<and>
     (\<forall>i<64. bit (bk_cur s) i \<longrightarrow> p \<le> bk_base s + i \<and> 64 * (bk_begin s - 1) + i \<in> words_set (bk_mask s)) \<and>
     (\<forall>d\<in>D. p \<le> d \<and> d < bk_base s + 64 \<longrightarrow> bk_base s \<le> d \<and> bit (bk_cur s) (d - bk_base s))"

text \<open>\<open>bk_idle p\<close>: the window is used up, the next one starts at \<open>min_\<close>.\<close>

definition bk_idle :: "block_traits \<Rightarrow> nat set \<Rightarrow> nat \<Rightarrow> 'it block_disjunction \<Rightarrow> bool" where
  "bk_idle tr D p s \<longleftrightarrow> bk_cur s = 0 \<and> bk_begin s = bk_blocks tr \<and> p \<le> bk_min s \<and> (\<forall>d\<in>D. p \<le> d \<longrightarrow> bk_min s \<le> d)"

lemma bk_window_frame [simp]:
  "bk_window tr D p (s\<lparr>bk_doc := d\<rparr>) = bk_window tr D p s" "bk_window tr D p (s\<lparr>bk_match := m\<rparr>) = bk_window tr D p s"
  by (simp_all add: bk_window_def)

lemma bk_window_base:
  assumes "bk_window tr D p s"
  shows "bk_base s + 64 = bk_max s - kWindow tr + 64 * bk_begin s" "bk_base s + 64 \<le> bk_max s" "bk_max s < 2 ^ 32"
proof -
  have w: "1 \<le> bk_begin s" "bk_begin s \<le> bk_blocks tr" "bk_base s = bk_max s - kWindow tr + 64 * (bk_begin s - 1)"
    "kWindow tr \<le> bk_max s" "bk_max s < 2 ^ 32"
    using assms unfolding bk_window_def bk_loaded_def by blast+
  have "64 * (bk_begin s - 1) + 64 = 64 * bk_begin s" using w(1) by (cases "bk_begin s") auto
  then show "bk_base s + 64 = bk_max s - kWindow tr + 64 * bk_begin s" using w(3) by simp
  moreover have "64 * bk_begin s \<le> kWindow tr" using w(2) by (simp add: kWindow_blocks)
  ultimately show "bk_base s + 64 \<le> bk_max s" using w(4) by linarith
qed (use assms in \<open>simp add: bk_window_def bk_loaded_def\<close>)

text \<open>The bit of a document of the window.\<close>

lemma bk_loaded_bit:
  assumes "bk_loaded tr D p s" "bk_shape tr s" "j < bk_blocks tr" "i < 64"
    "p \<le> bk_max s - kWindow tr + 64 * j + i" "bk_max s - kWindow tr + 64 * j + i \<in> D"
  shows "bit (bk_mask s ! j) i"
proof -
  have "64 * j + i < kWindow tr" unfolding kWindow_blocks using block_index_less [OF assms(4,3)] by simp
  moreover have "k \<in> words_set (bk_mask s)" if "k < kWindow tr" "p \<le> bk_max s - kWindow tr + k" "bk_max s - kWindow tr + k \<in> D" for k
    using assms(1) that unfolding bk_loaded_def by blast
  ultimately have "64 * j + i \<in> words_set (bk_mask s)" using assms(5,6) by (simp only: add.assoc)
  with words_set_bit [of j "bk_mask s" i] assms(2-4) show ?thesis by (simp add: bk_shape_def)
qed

lemma bk_window_used_up:
  assumes "bk_window tr D p s" "bk_cur s = 0" "bk_begin s = bk_blocks tr"
  shows "bk_idle tr D p s" "d \<in> D \<Longrightarrow> p \<le> d \<Longrightarrow> bk_max s \<le> d"
proof -
  have "kWindow tr \<le> bk_max s" using assms(1) by (simp add: bk_window_def bk_loaded_def)
  then have mx: "bk_base s + 64 = bk_max s" using bk_window_base(1) [OF assms(1)] assms(3) by (simp add: kWindow_blocks)
  show "bk_max s \<le> d" if "d \<in> D" "p \<le> d" for d
    using assms(1,2) that mx by (fastforce simp: bk_window_def not_le)
  then show "bk_idle tr D p s" using assms mx by (auto simp: bk_window_def bk_idle_def bk_loaded_def)
qed

lemma advance_correct:
  assumes "bk_window tr D p s" "bk_shape tr s"
  shows "\<exists>c b base off. bk_advance tr s = s\<lparr>bk_cur := c, bk_begin := b, bk_base := base, bk_offset := off\<rparr> \<and>
    bk_window tr D p (bk_advance tr s) \<and> (c \<noteq> 0 \<or> b = bk_blocks tr)"
  using assms
proof (induction tr s rule: bk_advance.induct)
  case (1 tr s)
  show ?case
  proof (cases "bk_cur s = 0 \<and> bk_begin s < length (bk_mask s)")
    case False
    then have "bk_advance tr s = s" by (subst bk_advance.simps) (simp only: if_False)
    moreover have "bk_cur s \<noteq> 0 \<or> bk_begin s = bk_blocks tr" using False 1(2,3) by (auto simp: bk_window_def bk_shape_def)
    ultimately show ?thesis using 1(2)
      by (intro exI [of _ "bk_cur s"] exI [of _ "bk_begin s"] exI [of _ "bk_base s"] exI [of _ "bk_offset s"]) simp
  next
    case True
    let ?s = "s\<lparr>bk_cur := bk_mask s ! bk_begin s, bk_begin := bk_begin s + 1, bk_base := (bk_base s + 64) mod 2 ^ 32,
      bk_offset := (if bt_min_match tr then bk_offset s + 64 else bk_offset s)\<rparr>"
    note w = 1(2) [unfolded bk_window_def]
    have lt: "bk_begin s < bk_blocks tr" using True 1(3) by (simp add: bk_shape_def)
    note b64 = bk_window_base(1) [OF 1(2)]
    have base: "(bk_base s + 64) mod 2 ^ 32 = bk_base s + 64" using bk_window_base(2,3) [OF 1(2)] by simp
    have words: "64 * bk_begin s + i \<in> words_set (bk_mask s)" if "i < 64" "bit (bk_mask s ! bk_begin s) i" for i
      using words_set_bit [of "bk_begin s" "bk_mask s" i] that True by simp
    have docs: "bk_base s + 64 \<le> d \<and> bit (bk_mask s ! bk_begin s) (d - (bk_base s + 64))"
      if d: "d \<in> D" "p \<le> d" "d < bk_base s + 64 + 64" for d
    proof -
      have "\<not> d < bk_base s + 64" using w d(1,2) True by (metis bit_0_eq bot_apply bot_bool_def)
      then obtain i where "d = bk_base s + 64 + i" "i < 64" using d(3) by (auto simp: le_iff_add not_less)
      then show ?thesis using bk_loaded_bit [OF _ 1(3) lt, of D p i] d w unfolding b64 by auto
    qed
    have base1: "bk_base ?s = bk_base s + 64" using base by simp
    have "bk_window tr D p ?s"
      unfolding bk_window_def base1
    proof (intro conjI, goal_cases)
      case 1 show ?case using w by simp
    next
      case 4 show ?case using b64 by simp
    next
      case 5 show ?case using w by (cases "bk_begin s") auto
    next
      case 6 show ?case using w by linarith
    next
      case 7 show ?case using words w by (auto intro: trans_le_add1)
    next
      case 8 show ?case using docs by simp
    qed (use lt in simp_all)
    moreover have "bk_shape tr ?s" using 1(3) by (simp add: bk_shape_def)
    ultimately obtain c b base off where
      "bk_advance tr ?s = ?s\<lparr>bk_cur := c, bk_begin := b, bk_base := base, bk_offset := off\<rparr>"
      "bk_window tr D p (bk_advance tr ?s)" "c \<noteq> 0 \<or> b = bk_blocks tr"
      using 1(1) True by blast
    moreover have "bk_advance tr s = bk_advance tr ?s" using True by (subst bk_advance.simps) (simp only: if_True simp_thms)
    ultimately show ?thesis by (intro exI [of _ c] exI [of _ b] exI [of _ base] exI [of _ off]) simp
  qed
qed

text \<open>Taking the lowest bit of the current word.\<close>

lemma window_take:
  assumes "bk_window tr D p s" "bk_shape tr s" "bk_cur s \<noteq> 0"
  defines "i \<equiv> countr_zero_w (bk_cur s)"
  defines "d \<equiv> bk_base s + i"
  shows "p \<le> d" "\<forall>e\<in>D. p \<le> e \<longrightarrow> d \<le> e" "d < bk_max s" "bk_max s - kWindow tr \<le> d"
    "bk_window tr D (d + 1) (s\<lparr>bk_cur := unset_bit_w (bk_cur s) i\<rparr>)"
    "bt_min_match tr \<Longrightarrow> bk_offset s + i < kWindow tr \<and> (d \<in> D \<longleftrightarrow> bk_min_match s \<le> bk_counts s ! (bk_offset s + i))"
    "\<not> bt_min_match tr \<Longrightarrow> d \<in> D"
proof -
  note w = assms(1) [unfolded bk_window_def]
  have i: "i < 64" "bit (bk_cur s) i" "\<And>k. k < i \<Longrightarrow> \<not> bit (bk_cur s) k"
    using countr_zero_w [OF assms(3)] by (auto simp: i_def)
  have ld: "bk_loaded tr D p s" using w by blast
  have D: "bk_base s \<le> e \<and> bit (bk_cur s) (e - bk_base s)" if "e \<in> D" "p \<le> e" "e < bk_base s + 64" for e using w that by blast
  show p: "p \<le> d" unfolding d_def using w i(1,2) by blast
  show "\<forall>e\<in>D. p \<le> e \<longrightarrow> d \<le> e"
  proof (intro ballI impI)
    fix e assume e: "e \<in> D" "p \<le> e"
    show "d \<le> e"
    proof (cases "e < bk_base s + 64")
      case True
      then have "\<not> e - bk_base s < i" "bk_base s \<le> e" using D [OF e] i(3) by blast+
      then show ?thesis unfolding d_def by linarith
    next
      case False
      then show ?thesis using i(1) by (simp add: d_def)
    qed
  qed
  show mx: "d < bk_max s" using bk_window_base(2) [OF assms(1)] i(1) by (simp add: d_def)
  show "bk_max s - kWindow tr \<le> d" using w by (simp add: d_def)
  let ?s = "s\<lparr>bk_cur := unset_bit_w (bk_cur s) i\<rparr>"
  have bits: "bit (unset_bit_w (bk_cur s) i) k \<longleftrightarrow> k \<noteq> i \<and> bit (bk_cur s) k" if "k < 64" for k
    using bit_unset_bit_w [OF that] by auto
  show "bk_window tr D (d + 1) ?s"
    unfolding bk_window_def
  proof (intro conjI, goal_cases)
    case 1 show ?case using bk_loaded_mono [OF ld] p by simp
  next
    case 6 show ?case using i(1) by (simp add: d_def)
  next
    case 7 show ?case
    proof (intro allI impI)
      fix k assume k: "k < 64" "bit (bk_cur ?s) k"
      then have "k \<noteq> i" "bit (bk_cur s) k" using bits [OF k(1)] by auto
      moreover have "i < k" using i(3) [of k] calculation by (metis linorder_neqE_nat)
      moreover have "64 * (bk_begin s - 1) + k \<in> words_set (bk_mask s)" using w k(1) calculation(2) by blast
      ultimately show "d + 1 \<le> bk_base ?s + k \<and> 64 * (bk_begin ?s - 1) + k \<in> words_set (bk_mask ?s)"
        by (simp add: d_def)
    qed
  next
    case 8 show ?case
    proof (intro ballI impI)
      fix e assume e: "e \<in> D" "d + 1 \<le> e \<and> e < bk_base ?s + 64"
      with D [of e] p have "bk_base s \<le> e" "bit (bk_cur s) (e - bk_base s)" by auto
      moreover have "e - bk_base s < 64" "e - bk_base s \<noteq> i" using e calculation(1) by (auto simp: d_def)
      ultimately show "bk_base ?s \<le> e \<and> bit (bk_cur ?s) (e - bk_base ?s)" using bits by simp
    qed
  qed (use w in simp_all)
  let ?k = "64 * (bk_begin s - 1) + i"
  have k: "?k \<in> words_set (bk_mask s)" using w i by blast
  then have kW: "?k < kWindow tr" using words_set_shape [OF assms(2)] by blast
  have d: "d = bk_max s - kWindow tr + ?k" using w by (simp add: d_def)
  have "d \<in> D \<longleftrightarrow> (bt_min_match tr \<longrightarrow> bk_min_match s \<le> bk_counts s ! ?k)"
    using ld kW k p unfolding d bk_loaded_def by blast
  then show "bt_min_match tr \<Longrightarrow> bk_offset s + i < kWindow tr \<and> (d \<in> D \<longleftrightarrow> bk_min_match s \<le> bk_counts s ! (bk_offset s + i))"
    "\<not> bt_min_match tr \<Longrightarrow> d \<in> D"
    using w kW by auto
qed

text \<open>An exhausted disjunction.\<close>

definition bk_done :: "block_traits \<Rightarrow> 'it block_disjunction \<Rightarrow> bool" where
  "bk_done tr s \<longleftrightarrow> bk_itrs s = [] \<and> bk_cur s = 0 \<and> bk_begin s = bk_blocks tr"

context doc_cursor
begin

lemma refill_correct:
  assumes core: "bk_core docs ops invar tr D s" and D: "doc_set D" and idle: "bk_idle tr D p s"
  shows "\<exists>ok s'. bk_refill ops tr s = Some (ok, s') \<and> bk_core docs ops invar tr D s' \<and>
    (if ok then bk_window tr D p s' \<and> bk_cur s' \<noteq> 0 else bk_done tr s' \<and> (\<forall>d\<in>D. d < p))"
proof (cases "bk_itrs s = []")
  case True
  then have "\<forall>d\<in>D. d < p" using bk_core_empty [OF core True] idle by (metis bk_idle_def not_le)
  with True core idle show ?thesis
    by (intro exI [of _ False] exI [of _ s]) (simp add: bk_refill_def bk_done_def bk_idle_def)
next
  case False
  let ?s0 = "if bt_min_match tr then s else bk_reset tr s"
  have s0: "bk_core docs ops invar tr D ?s0" "bk_itrs ?s0 \<noteq> []" "bt_min_match tr \<or> words_set (bk_mask ?s0) = {}"
    "bk_min ?s0 = bk_min s" "bk_begin ?s0 = bk_begin s" "bk_cur ?s0 = bk_cur s"
    using core False by (auto simp: bk_reset_def bk_core_def bk_shape_def)
  obtain s1 e where s1: "bk_refill_loop ops tr ?s0 = Some (s1, e)" "bk_core docs ops invar tr D s1"
    "bk_begin s1 = bk_begin s" "bk_cur s1 = bk_cur s"
    "if e then bk_itrs s1 = [] \<and> (\<forall>d\<in>D. d < bk_min s)
     else bk_loaded tr D (bk_min s) s1 \<and> bk_max s1 = bk_base s1 + kWindow tr \<and> bk_min s \<le> bk_base s1 \<and>
       (\<forall>d\<in>D. bk_min s \<le> d \<longrightarrow> bk_base s1 \<le> d) \<and> (\<exists>d\<in>D. bk_base s1 \<le> d \<and> d < bk_max s1)"
    using refill_loop_correct [OF s0(1,2) D s0(3)] unfolding s0(4-6) by blast
  have pm: "p \<le> bk_min s" "\<forall>d\<in>D. p \<le> d \<longrightarrow> bk_min s \<le> d" using idle by (auto simp: bk_idle_def)
  show ?thesis
  proof (cases e)
    case True
    then have "\<forall>d\<in>D. d < p" using s1(5) pm by (metis not_le)
    with True s1 False idle show ?thesis
      by (intro exI [of _ False] exI [of _ s1]) (simp add: bk_refill_def bk_done_def bk_idle_def)
  next
    case nz: False
    let ?s2 = "s1\<lparr>bk_cur := bk_mask s1 ! 0, bk_begin := 1, bk_offset := (if bt_min_match tr then 0 else bk_offset s1)\<rparr>"
    have l: "bk_loaded tr D (bk_min s) s1" "bk_max s1 = bk_base s1 + kWindow tr" "bk_min s \<le> bk_base s1"
      "\<forall>d\<in>D. bk_min s \<le> d \<longrightarrow> bk_base s1 \<le> d" "\<exists>d\<in>D. bk_base s1 \<le> d \<and> d < bk_max s1"
      using s1(5) nz by auto
    have shape: "bk_shape tr s1" "bk_shape tr ?s2" using s1(2) by (auto simp: bk_core_def bk_shape_def)
    have ld: "bk_loaded tr D p s1"
      using l(1-3) pm unfolding bk_loaded_def by (metis trans_le_add1 add_diff_cancel_right')
    have "bk_window tr D p ?s2"
      unfolding bk_window_def
    proof (intro conjI, goal_cases)
      case 1 show ?case using ld by simp
    next
      case 7
      have "0 < length (bk_mask s1)" using shape(1) kWindow_blocks(2) [of tr] unfolding bk_shape_def by simp
      then have "i \<in> words_set (bk_mask s1)" if "i < 64" "bit (bk_mask s1 ! 0) i" for i
        using words_set_bit [of 0 "bk_mask s1" i] that by simp
      then show ?case using pm(1) l(3) by auto
    next
      case 8
      show ?case
      proof (intro ballI impI)
        fix d assume d: "d \<in> D" "p \<le> d \<and> d < bk_base ?s2 + 64"
        then have b: "bk_base s1 \<le> d" using pm(2) l(4) by blast
        then obtain i where "d = bk_base s1 + i" "i < 64" using d(2) by (auto simp: le_iff_add)
        then have "bit (bk_mask s1 ! 0) i"
          using bk_loaded_bit [OF ld shape(1) kWindow_blocks(2), of i] d l(2) by simp
        then show "bk_base ?s2 \<le> d \<and> bit (bk_cur ?s2) (d - bk_base ?s2)" using \<open>d = bk_base s1 + i\<close> by simp
      qed
    qed (use l(2,3) pm(1) kWindow_blocks(2) [of tr] in auto)
    from advance_correct [OF this shape(2)] obtain c b base off where
      a: "bk_advance tr ?s2 = ?s2\<lparr>bk_cur := c, bk_begin := b, bk_base := base, bk_offset := off\<rparr>"
        "bk_window tr D p (bk_advance tr ?s2)" "c \<noteq> 0 \<or> b = bk_blocks tr" by blast
    have c: "c \<noteq> 0"
    proof
      assume "c = 0"
      then have u: "bk_cur (bk_advance tr ?s2) = 0" "bk_begin (bk_advance tr ?s2) = bk_blocks tr" using a(1,3) by simp_all
      obtain d where "d \<in> D" "p \<le> d" "d < bk_max s1" using l(3,5) pm(1) by (meson order.trans)
      with bk_window_used_up(2) [OF a(2) u, of d] a(1) show False by simp
    qed
    have "bk_refill ops tr s = Some (True, bk_advance tr ?s2)"
      using False s1(1) nz a(1) c by (simp add: bk_refill_def Let_def)
    moreover have "bk_core docs ops invar tr D (bk_advance tr ?s2)" unfolding a(1) using s1(2) by simp
    moreover have "bk_cur (bk_advance tr ?s2) \<noteq> 0" using a(1) c by simp
    ultimately show ?thesis using a(2) by (intro exI [of _ True] exI [of _ "bk_advance tr ?s2"]) simp
  qed
qed

lemma next_correct:
  assumes "bk_core docs ops invar tr D s" "doc_set D" "bk_window tr D p s \<or> bk_idle tr D p s"
  shows "\<exists>s'. bk_next ops tr s = Some (bk_doc s' \<noteq> doc_eof, s') \<and> bk_core docs ops invar tr D s' \<and>
    bk_doc s' = first_ge D p \<and>
    (if bk_doc s' = doc_eof then bk_done tr s'
     else bk_window tr D (bk_doc s' + 1) s' \<and> bk_max s' - kWindow tr \<le> bk_doc s' \<and> bk_doc s' < bk_max s')"
  using assms
proof (induction "doc_eof - p" arbitrary: p s rule: less_induct)
  case less
  let ?s1 = "bk_advance tr s"
  have shape: "bk_shape tr s" using less.prems(1) by (simp add: bk_core_def)
  obtain s1: "bk_core docs ops invar tr D ?s1" and
    s1': "bk_window tr D p ?s1 \<and> bk_cur ?s1 \<noteq> 0 \<or> bk_cur ?s1 = 0 \<and> bk_idle tr D p ?s1"
  proof (cases "bk_window tr D p s")
    case True
    from advance_correct [OF this shape] obtain c b base off where
      a: "?s1 = s\<lparr>bk_cur := c, bk_begin := b, bk_base := base, bk_offset := off\<rparr>" "bk_window tr D p ?s1" "c \<noteq> 0 \<or> b = bk_blocks tr"
      by blast
    have "bk_core docs ops invar tr D ?s1" unfolding a(1) using less.prems(1) by simp
    moreover have "bk_window tr D p ?s1 \<and> bk_cur ?s1 \<noteq> 0 \<or> bk_cur ?s1 = 0 \<and> bk_idle tr D p ?s1"
      using a(2,3) bk_window_used_up(1) [OF a(2)] by (cases "c = 0") (simp_all add: a(1))
    ultimately show ?thesis using that by blast
  next
    case False
    with less.prems(3) have i: "bk_idle tr D p s" by blast
    then have "?s1 = s" using shape by (subst bk_advance.simps) (simp add: bk_idle_def bk_shape_def)
    then show ?thesis using that less.prems(1) i by (simp add: bk_idle_def)
  qed
  obtain ok s2 where ok: "(if bk_cur ?s1 = 0 then bk_refill ops tr ?s1 else Some (True, ?s1)) = Some (ok, s2)"
    "bk_core docs ops invar tr D s2" "if ok then bk_window tr D p s2 \<and> bk_cur s2 \<noteq> 0 else bk_done tr s2 \<and> (\<forall>d\<in>D. d < p)"
  proof (cases "bk_cur ?s1 = 0")
    case True
    then have "bk_idle tr D p ?s1" using s1' by blast
    from refill_correct [OF s1 less.prems(2) this] that True show ?thesis by auto
  next
    case False
    then show ?thesis using that [of True ?s1] s1 s1' by simp
  qed
  show ?case
  proof (cases ok)
    case False
    let ?s' = "s2\<lparr>bk_doc := doc_eof, bk_match := 0\<rparr>"
    have "bk_next ops tr s = Some (False, ?s')" using ok(1) False by (subst bk_next.simps) (simp add: Let_def)
    moreover have "first_ge D p = doc_eof" using ok(3) False by (intro first_ge_eofI) (auto simp: not_less [symmetric])
    ultimately show ?thesis using ok(2,3) False by (intro exI [of _ ?s']) (simp add: bk_done_def)
  next
    case True
    then have win: "bk_window tr D p s2" "bk_cur s2 \<noteq> 0" using ok(3) by auto
    have sh2: "bk_shape tr s2" using ok(2) by (simp add: bk_core_def)
    let ?i = "countr_zero_w (bk_cur s2)"
    let ?d = "bk_base s2 + ?i"
    note T = window_take [OF win(1) sh2 win(2)]
    let ?s3 = "s2\<lparr>bk_cur := unset_bit_w (bk_cur s2) ?i\<rparr>"
    have md: "?d mod 2 ^ 32 = ?d" "?d < doc_eof"
      using T(3) bk_window_base(3) [OF win(1)] by (auto simp: doc_eof_def)
    have fg: "first_ge D p = ?d" if "?d \<in> D" using that T(1,2) md(2) by (intro first_ge_eqI) auto
    show ?thesis
    proof (cases "bt_min_match tr")
      case False
      let ?s' = "?s3\<lparr>bk_doc := ?d\<rparr>"
      have "bk_next ops tr s = Some (True, ?s')"
        using ok(1) True False md(1) by (subst bk_next.simps) (simp add: Let_def)
      then show ?thesis using ok(2) T(3-5) T(7) [OF False] fg md(2)
        by (intro exI [of _ ?s']) simp
    next
      case mm: True
      note T6 = T(6) [OF mm]
      let ?n = "bk_counts s2 ! (bk_offset s2 + ?i)"
      let ?s4 = "?s3\<lparr>bk_match := ?n\<rparr>"
      have len: "bk_offset s2 + ?i < length (bk_counts s2)" using T6 sh2 by (simp add: bk_shape_def)
      have eq: "bk_next ops tr s = (if ?n < bk_min_match s2 then bk_next ops tr ?s4 else Some (True, ?s4\<lparr>bk_doc := ?d\<rparr>))"
        using ok(1) True mm md(1) len by (subst bk_next.simps) (simp add: Let_def)
      show ?thesis
      proof (cases "?n < bk_min_match s2")
        case True
        then have out: "?d \<notin> D" using T6 by simp
        have "?d + 1 \<le> e" if "e \<in> D" "p \<le> e" for e
          using T(2) out that by (metis Suc_eq_plus1 Suc_leI le_neq_implies_less)
        then have "first_ge D (?d + 1) = first_ge D p" using T(1) by (intro first_ge_skip) simp_all
        moreover have "doc_eof - (?d + 1) < doc_eof - p" using T(1) md(2) by linarith
        moreover have "bk_window tr D (?d + 1) ?s4 \<or> bk_idle tr D (?d + 1) ?s4" using T(5) by simp
        moreover have "bk_core docs ops invar tr D ?s4" using ok(2) by simp
        ultimately have "\<exists>s'. bk_next ops tr ?s4 = Some (bk_doc s' \<noteq> doc_eof, s') \<and> bk_core docs ops invar tr D s' \<and>
            bk_doc s' = first_ge D p \<and>
            (if bk_doc s' = doc_eof then bk_done tr s'
             else bk_window tr D (bk_doc s' + 1) s' \<and> bk_max s' - kWindow tr \<le> bk_doc s' \<and> bk_doc s' < bk_max s')"
          using less.hyps [of "?d + 1" ?s4, OF _ _ less.prems(2)] by metis
        then show ?thesis using True unfolding eq by (simp only: if_True)
      next
        case False
        then have "?d \<in> D" using T6 by simp
        then show ?thesis using False ok(2) T(3-5) fg md(2) unfolding eq
          by (intro exI [of _ "?s4\<lparr>bk_doc := ?d\<rparr>"]) simp
      qed
    qed
  qed
qed

end

section \<open>The iterator\<close>

definition bk_invar ::
  "('it \<Rightarrow> nat set) \<Rightarrow> 'it doc_ops \<Rightarrow> ('it \<Rightarrow> bool) \<Rightarrow> block_traits \<Rightarrow> nat set \<Rightarrow> 'it block_disjunction \<Rightarrow> bool" where
  "bk_invar docs ops invar tr D s \<longleftrightarrow> doc_set D \<and> bk_core docs ops invar tr D s \<and>
     (if bk_doc s = doc_eof then bk_done tr s
      else (bk_doc s = doc_invalid \<or> bk_doc s \<in> D) \<and>
        (bk_window tr D (bk_doc s + 1) s \<and> bk_max s - kWindow tr \<le> bk_doc s \<or>
         bk_idle tr D (bk_doc s + 1) s \<and> bk_max s \<le> bk_doc s))"

text \<open>The documents with enough sub-iterators.\<close>

definition bk_docs :: "('it \<Rightarrow> nat set) \<Rightarrow> block_traits \<Rightarrow> 'it list \<Rightarrow> nat \<Rightarrow> nat set" where
  "bk_docs docs tr its m = {d. bk_enough tr (max 1 m) (hits docs its d)}"

lemma bk_docs_union: "\<not> bt_min_match tr \<Longrightarrow> bk_docs docs tr its m = (\<Union>it\<in>set its. docs it)"
  by (auto simp: bk_docs_def bk_enough_def hits_pos)

context doc_cursor
begin

lemma bk_docs_set:
  assumes "\<forall>it\<in>set its. invar it"
  shows "doc_set (bk_docs docs tr its m)"
proof -
  have "d \<in> {doc_min..<doc_eof}" if "d \<in> bk_docs docs tr its m" for d
  proof -
    have "0 < hits docs its d" using that by (auto simp: bk_docs_def bk_enough_def split: if_splits)
    then show ?thesis using assms doc_set_less [OF docs_set] by (auto simp: hits_pos)
  qed
  then show ?thesis by (auto simp: doc_set_def)
qed

lemma bk_make_invar:
  assumes "\<forall>it\<in>set its. invar it \<and> bk_ready docs ops doc_min it \<and> (\<forall>d\<in>docs it. d + 1 + kWindow tr < 2 ^ 32)"
    "doc_min + kWindow tr < 2 ^ 32"
  shows "bk_invar docs ops invar tr (bk_docs docs tr its m) (bk_make tr its m)"
proof -
  let ?s = "bk_make tr its m" and ?D = "bk_docs docs tr its m"
  have D: "doc_set ?D" using assms(1) by (intro bk_docs_set) blast
  have "bk_core docs ops invar tr ?D ?s"
    using assms bk_docs_union [of tr docs its m]
    by (auto simp: bk_core_def bk_make_def bk_shape_def bk_blocks_def bk_docs_def)
  moreover have "bk_idle tr ?D (doc_invalid + 1) ?s" if "its \<noteq> []"
    using D by (auto simp: bk_idle_def bk_make_def bk_blocks_def doc_set_def doc_limits(4))
  moreover have "bk_done tr ?s" if "its = []" using that by (simp add: bk_done_def bk_make_def bk_blocks_def)
  ultimately show ?thesis using D doc_limits by (auto simp: bk_invar_def bk_make_def)
qed

lemma bk_next_law:
  assumes "bk_invar docs ops invar tr D s"
  shows "\<exists>s'. bk_next ops tr s = Some (bk_doc s' \<noteq> doc_eof, s') \<and> bk_invar docs ops invar tr D s' \<and>
    bk_doc s' = first_ge D (bk_doc s + 1)"
proof -
  have inv: "doc_set D" "bk_core docs ops invar tr D s" using assms by (auto simp: bk_invar_def)
  show ?thesis
  proof (cases "bk_doc s = doc_eof")
    case True
    then have d: "bk_done tr s" using assms by (simp add: bk_invar_def)
    then have "bk_advance tr s = s"
      using inv(2) by (subst bk_advance.simps) (simp add: bk_done_def bk_core_def bk_shape_def)
    then have "bk_next ops tr s = Some (False, s\<lparr>bk_doc := doc_eof, bk_match := 0\<rparr>)"
      using d by (subst bk_next.simps) (simp add: bk_done_def bk_refill_def Let_def)
    then show ?thesis using True d inv
      by (intro exI [of _ "s\<lparr>bk_doc := doc_eof, bk_match := 0\<rparr>"]) (simp add: bk_invar_def bk_done_def first_ge_at_eof)
  next
    case False
    then have "bk_window tr D (bk_doc s + 1) s \<or> bk_idle tr D (bk_doc s + 1) s" using assms by (auto simp: bk_invar_def)
    from next_correct [OF inv(2,1) this] obtain s' where
      s': "bk_next ops tr s = Some (bk_doc s' \<noteq> doc_eof, s')" "bk_core docs ops invar tr D s'"
        "bk_doc s' = first_ge D (bk_doc s + 1)"
        "if bk_doc s' = doc_eof then bk_done tr s'
         else bk_window tr D (bk_doc s' + 1) s' \<and> bk_max s' - kWindow tr \<le> bk_doc s' \<and> bk_doc s' < bk_max s'" by blast
    have "bk_doc s' \<noteq> doc_eof \<Longrightarrow> bk_doc s' \<in> D" using first_ge_cases [of D "bk_doc s + 1"] s'(3) by simp
    then have "bk_invar docs ops invar tr D s'" using s'(2,4) inv(1) by (auto simp: bk_invar_def)
    with s'(1,3) show ?thesis by blast
  qed
qed

lemma bk_cursor: "doc_cursor (bk_ops ops tr) (\<lambda>_. D) (bk_invar docs ops invar tr D)"
proof (unfold_locales, goal_cases)
  case (1 s) then show ?case by (simp add: bk_invar_def)
next
  case (2 s) then show ?case by (auto simp: bk_invar_def bk_ops_def split: if_splits)
next
  case (3 s) then show ?case using bk_next_law [OF 3] by (simp add: bk_ops_def)
qed

end

end
