(* ===== verification/BlockSeek.thy ===== *)
theory BlockSeek
  imports BlockDisjunction
begin

text \<open>
  \<open>block_disjunction::seek\<close> of \<open>core/search/disjunction.hpp\<close> for a union: inside the window that has been read, and behind it.
\<close>

section \<open>Seeking in a union\<close>

text \<open>The state of the pass over the sub-iterators in \<open>seek\<close>.\<close>

definition bk_seek_pass ::
  "('it \<Rightarrow> nat set) \<Rightarrow> 'it doc_ops \<Rightarrow> ('it \<Rightarrow> bool) \<Rightarrow> nat \<Rightarrow> 'it list \<Rightarrow> 'it list \<Rightarrow> 'it list \<Rightarrow> nat \<times> nat \<Rightarrow> bool" where
  "bk_seek_pass docs ops invar t its0 kept its st \<longleftrightarrow>
     (\<forall>it\<in>set kept. invar it \<and> value_of ops it = first_ge (docs it) t \<and> value_of ops it \<noteq> doc_eof \<and> fst st \<le> value_of ops it) \<and>
     (fst st = doc_eof \<or> (\<exists>it\<in>set kept. value_of ops it = fst st)) \<and>
     set its \<subseteq> set its0 \<and> docs ` set kept \<subseteq> docs ` set its0 \<and>
     (\<forall>d\<ge>t. hits docs kept d + hits docs its d = hits docs its0 d)"

lemma bk_seek_pass_rotate:
  "bk_seek_pass docs ops invar t its0 kept (if its = [] then [] else last its # butlast its) st =
   bk_seek_pass docs ops invar t its0 kept its st"
proof (cases "its = []")
  case False
  have "set (last its # butlast its) = set (butlast its @ [last its])" by auto
  then have "set (last its # butlast its) = set its" using False by simp
  with False hits_rotate [OF False] show ?thesis by (simp only: if_False bk_seek_pass_def)
qed simp

context seekable_iterator
begin

lemma seek_pass_step:
  assumes "bk_seek_pass docs ops invar t its0 kept (it # its) st" "doc_min \<le> t" "t \<le> doc_eof"
    and all: "\<forall>it\<in>set its0. invar it \<and> (value_of ops it \<le> t \<or> value_of ops it = first_ge (docs it) t)"
  shows "\<exists>keep it' st'. bk_seek_visitor ops tr t it st = Some (keep, it', st') \<and>
    (if keep then bk_seek_pass docs ops invar t its0 (kept @ [it']) its st'
     else bk_seek_pass docs ops invar t its0 kept (if its = [] then [] else last its # butlast its) st')"
proof -
  have it: "it \<in> set its0" "invar it" "value_of ops it \<le> t \<or> value_of ops it = first_ge (docs it) t"
    using assms(1) all by (auto simp: bk_seek_pass_def)
  obtain it' where it': "seek_of ops t it = Some (value_of ops it', it')" "invar it'" "docs it' = docs it"
    "value_of ops it' = first_ge (docs it) t"
  proof (cases "value_of ops it \<le> t")
    case True
    with seek_law [OF it(2) _ assms(2,3)] that show ?thesis by blast
  next
    case False
    with seek_stay [OF it(2) assms(2)] it(3) that show ?thesis by force
  qed
  have gone: "d \<notin> docs it" if "value_of ops it' = doc_eof" "t \<le> d" for d
    using first_ge_least [of d "docs it" t] doc_set_less [OF docs_set [OF it(2)], of d] it'(4) that by auto
  obtain doc n where st: "st = (doc, n)" by fastforce
  have P: "\<forall>it\<in>set kept. invar it \<and> value_of ops it = first_ge (docs it) t \<and> value_of ops it \<noteq> doc_eof \<and> doc \<le> value_of ops it"
    "doc = doc_eof \<or> (\<exists>it\<in>set kept. value_of ops it = doc)" "set its \<subseteq> set its0" "docs ` set kept \<subseteq> docs ` set its0"
    "\<forall>d\<ge>t. hits docs kept d + (of_bool (d \<in> docs it) + hits docs its d) = hits docs its0 d"
    using assms(1) unfolding st bk_seek_pass_def fst_conv hits_simps list.set by blast+
  show ?thesis
  proof (cases "value_of ops it' = doc_eof")
    case True
    have "hits docs kept d + hits docs its d = hits docs its0 d" if "t \<le> d" for d
      using mp [OF spec [OF P(5), of d] that] gone [OF True that] by simp
    then have "bk_seek_pass docs ops invar t its0 kept its st"
      using P(1-4) unfolding st bk_seek_pass_def fst_conv by blast
    moreover have "bk_seek_visitor ops tr t it st = Some (False, it', st)" using it'(1) True by (simp add: bk_seek_visitor_def)
    ultimately show ?thesis unfolding bk_seek_pass_rotate by (metis (full_types))
  next
    case False
    have h: "hits docs (kept @ [it']) d + hits docs its d = hits docs its0 d" if "t \<le> d" for d
      using mp [OF spec [OF P(5), of d] that] it'(3) by (simp add: add.assoc)
    have sub: "docs ` set (kept @ [it']) \<subseteq> docs ` set its0" using P(4) it(1) it'(3) by simp
    have pass: "bk_seek_pass docs ops invar t its0 (kept @ [it']) its (min (value_of ops it') doc, m)" for m
      unfolding bk_seek_pass_def fst_conv using P(1-3) h sub it' False by (auto simp: min_def)
    have "\<exists>m. bk_seek_visitor ops tr t it st = Some (True, it', min (value_of ops it') doc, m)"
      using it'(1) False by (auto simp: bk_seek_visitor_def st min_def)
    then show ?thesis using pass by fastforce
  qed
qed

text \<open>Inside the window.\<close>

lemma seek_window:
  assumes "bk_core docs ops invar tr D s" "doc_set D" "\<not> bt_min_match tr" "bk_window tr D (bk_doc s + 1) s"
    "bk_max s - kWindow tr \<le> bk_doc s" "bk_doc s < t" "t < bk_max s"
  shows "\<exists>s'. bk_seek ops tr t s = Some (bk_doc s', s') \<and> bk_doc s' = first_ge D t \<and> bk_invar docs ops invar tr D s'"
proof -
  have ld: "bk_loaded tr D (bk_doc s + 1) s" using assms(4) by (simp add: bk_window_def)
  have mx: "kWindow tr \<le> bk_max s" "bk_max s < 2 ^ 32" using ld by (auto simp: bk_loaded_def)
  have shape: "bk_shape tr s" using assms(1) by (simp add: bk_core_def)
  let ?w = "bk_max s - kWindow tr"
  let ?t = "t - ?w" let ?j = "?t div 64"
  have w: "(bk_max s + 2 ^ 32 - kWindow tr) mod 2 ^ 32 = ?w" using mx by (simp add: mod_if)
  have tw: "(t + 2 ^ 32 - ?w) mod 2 ^ 32 = ?t" using assms(5-7) mx by (simp add: mod_if)
  have t: "t = ?w + ?t" "?t < kWindow tr" "?t = 64 * ?j + ?t mod 64" using assms(5-7) mx by auto
  have j: "?j < bk_blocks tr" using t(2) by (simp add: kWindow_blocks less_mult_imp_div_less mult.commute)
  have b: "(?w + ?j * 64) mod 2 ^ 32 = ?w + 64 * ?j" using t assms(7) mx(2) by (simp add: mult.commute)
  let ?s = "s\<lparr>bk_base := ?w + 64 * ?j, bk_begin := ?j + 1,
    bk_cur := bk_mask s ! ?j AND push_bit (?t mod 64) (NOT 0)\<rparr>"
  have bits: "bit (bk_mask s ! ?j AND push_bit (?t mod 64) (NOT 0)) i \<longleftrightarrow> bit (bk_mask s ! ?j) i \<and> ?t mod 64 \<le> i" if "i < 64" for i
    using that by (auto simp: bit_and_iff bit_push_bit_iff bit_not_iff bit_mask_iff)
  have win: "bk_window tr D t ?s"
    unfolding bk_window_def
  proof (intro conjI, goal_cases)
    case 1 show ?case using bk_loaded_mono [OF ld, of t] assms(6) by simp
  next
    case 6
    have "?t mod 64 < 64" by simp
    then have "t \<le> ?w + 64 * ?j + 64" using t(1,3) by linarith
    then show ?case by simp
  next
    case 7
    have "64 * ?j + i \<in> words_set (bk_mask s)" if "i < 64" "bit (bk_mask s ! ?j) i" for i
      using words_set_bit [of ?j "bk_mask s" i] that shape j by (simp add: bk_shape_def)
    moreover have "t \<le> ?w + 64 * ?j + i" if "?t mod 64 \<le> i" for i using t(1,3) that by linarith
    ultimately show ?case using bits by simp
  next
    case 8
    show ?case
    proof (intro ballI impI)
      fix d assume d: "d \<in> D" "t \<le> d \<and> d < bk_base ?s + 64"
      have "?w + 64 * ?j \<le> d" using d(2) t(1,3) by linarith
      then obtain i where i: "d = ?w + 64 * ?j + i" "i < 64" using d(2) by (auto simp: le_iff_add)
      have "bk_doc s + 1 \<le> d" using d(2) assms(6) by linarith
      then have "bit (bk_mask s ! ?j) i" using bk_loaded_bit [OF ld shape j i(2)] d(1) i(1) by simp
      moreover have "?t mod 64 \<le> i" using d(2) i(1) t(1,3) by linarith
      ultimately show "bk_base ?s \<le> d \<and> bit (bk_cur ?s) (d - bk_base ?s)" using bits [OF i(2)] i(1) by simp
    qed
  qed (use j assms(3) in simp_all)
  have core: "bk_core docs ops invar tr D ?s" using assms(1) by simp
  from next_correct [OF core assms(2)] win obtain s' where
    s': "bk_next ops tr ?s = Some (bk_doc s' \<noteq> doc_eof, s')" "bk_core docs ops invar tr D s'" "bk_doc s' = first_ge D t"
      "if bk_doc s' = doc_eof then bk_done tr s'
       else bk_window tr D (bk_doc s' + 1) s' \<and> bk_max s' - kWindow tr \<le> bk_doc s' \<and> bk_doc s' < bk_max s'" by blast
  have "bk_doc s' \<noteq> doc_eof \<Longrightarrow> bk_doc s' \<in> D" using first_ge_cases [of D t] s'(3) by simp
  then have inv: "bk_invar docs ops invar tr D s'" using s'(2,4) assms(2) by (auto simp: bk_invar_def)
  have "\<not> t \<le> bk_doc s" "?j < length (bk_mask s)" using assms(6) j shape by (auto simp: bk_shape_def)
  then have "bk_seek ops tr t s = Some (bk_doc s', s')"
    unfolding bk_seek_def w tw Let_def b using assms(7) s'(1) by simp
  with s'(3) inv show ?thesis by blast
qed

text \<open>
  Behind the window every sub-iterator is moved. No document of the set is between the read-ahead position and
  the target, so each sub-iterator either lags behind the target or stands on the answer.
\<close>

lemma seek_gap:
  assumes "bk_invar docs ops invar tr D s" "bk_doc s < t" "bk_max s \<le> t" "t \<le> doc_eof" "d \<in> D" "t \<le> d"
  shows "bk_min s \<le> d"
proof -
  have "bk_window tr D (bk_doc s + 1) s \<or> bk_idle tr D (bk_doc s + 1) s" using assms(1,2,4) by (auto simp: bk_invar_def)
  moreover have "bk_doc s + 1 \<le> d" "bk_max s \<le> d" using assms(2,3,6) by auto
  ultimately show ?thesis using assms(5) by (auto simp: bk_window_def bk_loaded_def bk_idle_def)
qed

lemma union_coreD:
  assumes "bk_core docs ops invar tr D s" "\<not> bt_min_match tr" "it \<in> set (bk_itrs s)"
  shows "invar it" "bk_ready docs ops (bk_min s) it" "docs it \<subseteq> D" "\<forall>d\<in>docs it. d + 1 + kWindow tr < 2 ^ 32"
    "bk_min s \<le> doc_eof"
  using assms by (auto simp: bk_core_def doc_eof_def)

lemma seek_position:
  assumes inv: "bk_invar docs ops invar tr D s" "\<not> bt_min_match tr" "it \<in> set (bk_itrs s)"
    and t: "bk_doc s < t" "bk_max s \<le> t" "doc_min \<le> t" "t \<le> doc_eof"
  shows "value_of ops it \<le> t \<or> value_of ops it = first_ge (docs it) t"
proof (cases "value_of ops it \<le> t")
  case False
  have "bk_core docs ops invar tr D s" using inv(1) by (simp add: bk_invar_def)
  note its = union_coreD [OF this inv(2,3)]
  note gap = seek_gap [OF inv(1) t(1,2,4)]
  have "value_of ops it = doc_eof \<or> value_of ops it \<in> D"
    using value_in [OF its(1)] its(3) False t(3) doc_limits by auto
  then have "bk_min s \<le> value_of ops it" using gap [of "value_of ops it"] its(5) False by auto
  then have v: "value_of ops it = first_ge (docs it) (bk_min s)" using its(2) by (simp add: bk_ready_def)
  have "first_ge (docs it) t = first_ge (docs it) (bk_min s)"
  proof (cases "t \<le> bk_min s")
    case True
    with gap its(3) show ?thesis by (intro first_ge_skip [symmetric]) auto
  next
    case gt: False
    then show ?thesis using False first_ge_least [of _ "docs it" "bk_min s"] v by (intro first_ge_skip) force+
  qed
  with v show ?thesis by simp
qed simp

text \<open>The pass keeps the sub-iterators that have a document from the target on, moved to the first such document.\<close>

lemma seek_run:
  assumes inv: "bk_invar docs ops invar tr D s" and mm: "\<not> bt_min_match tr"
    and t: "bk_doc s < t" "bk_max s \<le> t" "doc_min \<le> t" "t \<le> doc_eof"
  shows "\<exists>its' doc mc. visit_and_purge tr (bk_min_match s) (bk_seek_visitor ops tr t) (bk_itrs s) (doc_eof, bk_match s) =
      Some (its', doc, mc) \<and> bk_seek_pass docs ops invar t (bk_itrs s) its' [] (doc, mc)"
proof -
  have core: "bk_core docs ops invar tr D s" using inv by (simp add: bk_invar_def)
  have start: "bk_seek_pass docs ops invar t (bk_itrs s) [] (bk_itrs s) (doc_eof, bk_match s)" by (simp add: bk_seek_pass_def)
  have pre: "\<forall>it\<in>set (bk_itrs s). invar it \<and> (value_of ops it \<le> t \<or> value_of ops it = first_ge (docs it) t)"
    using union_coreD(1) [OF core mm] seek_position [OF inv mm _ t] by blast
  have "\<exists>its' st'. visit_and_purge tr (bk_min_match s) (bk_seek_visitor ops tr t) (bk_itrs s) (doc_eof, bk_match s) =
      Some (if bt_min_match tr \<and> length its' < bk_min_match s then [] else its', st') \<and>
      bk_seek_pass docs ops invar t (bk_itrs s) its' [] st'"
    by (rule visit_and_purge_rule, erule seek_pass_step [OF _ t(3,4) pre], rule start)
  with mm show ?thesis by auto
qed

lemma seek_members:
  assumes inv: "bk_invar docs ops invar tr D s" and mm: "\<not> bt_min_match tr"
    and t: "bk_doc s < t" "bk_max s \<le> t" "t \<le> doc_eof"
    and pass: "bk_seek_pass docs ops invar t (bk_itrs s) its' [] st" and d: "t \<le> d"
  shows "d \<in> D \<longleftrightarrow> (\<exists>it\<in>set its'. d \<in> docs it)"
proof -
  have core: "bk_core docs ops invar tr D s" using inv by (simp add: bk_invar_def)
  have "d \<in> D \<longleftrightarrow> 0 < hits docs (bk_itrs s) d"
  proof (cases "bk_min s \<le> d")
    case True
    then show ?thesis using core mm by (simp add: bk_core_def bk_enough_def)
  next
    case False
    then have "d \<notin> D" using seek_gap [OF inv t] d by blast
    then show ?thesis using union_coreD(3) [OF core mm] by (auto simp: hits_pos)
  qed
  also have "hits docs (bk_itrs s) d = hits docs its' d" using pass d by (simp add: bk_seek_pass_def)
  finally show ?thesis by (simp add: hits_pos)
qed

text \<open>The smallest of these documents is the answer, and the windows can be read on from it.\<close>

lemma seek_landing:
  assumes inv: "bk_invar docs ops invar tr D s" and mm: "\<not> bt_min_match tr"
    and t: "bk_doc s < t" "bk_max s \<le> t" "doc_min \<le> t" "t \<le> doc_eof"
    and pass: "bk_seek_pass docs ops invar t (bk_itrs s) its' [] (doc, mc)" and ne: "its' \<noteq> []"
  shows "doc \<in> D" "t \<le> doc" "doc < doc_eof" "first_ge D t = doc"
    "b = doc \<or> b = doc + 1 \<Longrightarrow> bk_core docs ops invar tr D (s\<lparr>bk_itrs := its', bk_doc := doc, bk_match := mc, bk_cur := 0,
       bk_begin := length (bk_mask s), bk_max := doc, bk_min := b\<rparr>)"
proof -
  have core: "bk_core docs ops invar tr D s" and D: "doc_set D" using inv by (auto simp: bk_invar_def)
  note P = pass [unfolded bk_seek_pass_def fst_conv]
  note mem = seek_members [OF inv mm t(1,2,4) pass]
  have kept: "invar it" "value_of ops it = first_ge (docs it) t" "value_of ops it \<noteq> doc_eof" "doc \<le> value_of ops it"
    "docs it \<subseteq> D" "\<forall>d\<in>docs it. d + 1 + kWindow tr < 2 ^ 32" if it: "it \<in> set its'" for it
  proof -
    show "invar it" "value_of ops it = first_ge (docs it) t" "value_of ops it \<noteq> doc_eof" "doc \<le> value_of ops it"
      using P it by blast+
    have "docs it \<in> docs ` set (bk_itrs s)" using P it by blast
    then obtain it0 where "it0 \<in> set (bk_itrs s)" "docs it = docs it0" by blast
    then show "docs it \<subseteq> D" "\<forall>d\<in>docs it. d + 1 + kWindow tr < 2 ^ 32" using union_coreD(3,4) [OF core mm] by auto
  qed
  have le: "doc \<le> d" if dt: "d \<in> D" "t \<le> d" for d
  proof -
    obtain it where it: "it \<in> set its'" "d \<in> docs it" using mem [OF dt(2)] dt(1) by blast
    have "value_of ops it \<le> d"
      using first_ge_least [OF it(2) dt(2)] doc_set_less [OF D dt(1)] kept(2) [OF it(1)] by simp
    with kept(4) [OF it(1)] show ?thesis by simp
  qed
  obtain it0 where it0: "it0 \<in> set its'" using ne by (cases its') auto
  have "doc \<noteq> doc_eof" using kept(3,4) [OF it0] value_le_eof [OF kept(1) [OF it0]] by auto
  then obtain it1 where it1: "it1 \<in> set its'" "value_of ops it1 = doc" using P by blast
  have doc: "doc \<in> docs it1" "t \<le> doc" "doc < doc_eof"
    using first_ge_cases [of "docs it1" t] kept(2,3) [OF it1(1)] it1(2) by auto
  then show dD: "doc \<in> D" and "t \<le> doc" "doc < doc_eof" using kept(5) [OF it1(1)] by auto
  then show "first_ge D t = doc" using le by (intro first_ge_eqI) auto
  have bound: "doc + 1 + kWindow tr < 2 ^ 32" using kept(6) [OF it1(1)] doc(1) by blast
  have ready: "bk_ready docs ops doc it \<and> bk_ready docs ops (doc + 1) it" if it: "it \<in> set its'" for it
  proof -
    have "first_ge (docs it) doc = value_of ops it"
      unfolding kept(2) [OF it] using doc(2) le kept(5) [OF it] by (intro first_ge_skip) auto
    moreover have "first_ge (docs it) (doc + 1) = value_of ops it" if gt: "doc + 1 \<le> value_of ops it"
      unfolding kept(2) [OF it] using doc(2) gt first_ge_least [of _ "docs it" t] kept(2) [OF it]
      by (intro first_ge_skip) (auto intro: order.trans)
    ultimately show ?thesis using kept(4) [OF it]
      by (cases "value_of ops it = doc") (auto simp: bk_ready_def)
  qed
  have dmin: "doc_min \<le> doc" using doc(2) t(3) by simp
  assume b: "b = doc \<or> b = doc + 1"
  show "bk_core docs ops invar tr D (s\<lparr>bk_itrs := its', bk_doc := doc, bk_match := mc, bk_cur := 0,
      bk_begin := length (bk_mask s), bk_max := doc, bk_min := b\<rparr>)"
    unfolding bk_core_def
  proof (intro conjI, goal_cases)
    case 4 show ?case using kept(1,6) ready b by auto
  next
    case 6 show ?case using mem b doc(2) mm by (auto simp: bk_enough_def hits_pos)
  next
    case 7 show ?case using kept(5) by auto
  qed (use core b bound dmin in \<open>auto simp: bk_core_def bk_shape_def\<close>)
qed

lemma seek_beyond:
  assumes inv: "bk_invar docs ops invar tr D s" and mm: "\<not> bt_min_match tr"
    and t: "bk_doc s < t" "bk_max s \<le> t" "doc_min \<le> t" "t \<le> doc_eof"
  shows "\<exists>s'. bk_seek ops tr t s = Some (bk_doc s', s') \<and> bk_doc s' = first_ge D t \<and>
    (bk_doc s' \<noteq> doc_eof \<longrightarrow> bk_invar docs ops invar tr D s')"
proof -
  obtain its' doc mc where vp: "visit_and_purge tr (bk_min_match s) (bk_seek_visitor ops tr t) (bk_itrs s)
      (doc_eof, bk_match s) = Some (its', doc, mc)"
    and pass: "bk_seek_pass docs ops invar t (bk_itrs s) its' [] (doc, mc)"
    using seek_run [OF inv mm t] by blast
  have seek: "bk_seek ops tr t s = do {
      let s1 = s\<lparr>bk_itrs := its', bk_doc := doc, bk_match := mc\<rparr>;
      if its' = [] then Some (doc_eof, s1\<lparr>bk_doc := doc_eof, bk_match := 0\<rparr>)
      else do {
        let s2 = s1\<lparr>bk_cur := 0, bk_begin := length (bk_mask s1), bk_max := doc\<rparr>;
        if bt_readahead tr then do { (_, s3) \<leftarrow> bk_next ops tr (s2\<lparr>bk_min := doc\<rparr>); Some (bk_doc s3, s3) }
        else Some (doc, s2\<lparr>bk_min := (doc + 1) mod 2 ^ 32, bk_offset := 0\<rparr>)
      } }"
    using t(1,2) mm vp by (simp add: bk_seek_def Let_def)
  show ?thesis
  proof (cases "its' = []")
    case True
    have "first_ge D t = doc_eof" using seek_members [OF inv mm t(1,2,4) pass] True by (intro first_ge_eofI) auto
    then show ?thesis using seek True by (simp add: Let_def)
  next
    case False
    note l = seek_landing [OF inv mm t pass False]
    have D: "doc_set D" and len: "length (bk_mask s) = bk_blocks tr"
      using inv by (auto simp: bk_invar_def bk_core_def bk_shape_def)
    let ?s2 = "s\<lparr>bk_itrs := its', bk_doc := doc, bk_match := mc, bk_cur := 0, bk_begin := length (bk_mask s), bk_max := doc\<rparr>"
    show ?thesis
    proof (cases "bt_readahead tr")
      case True
      have "bk_idle tr D doc (?s2\<lparr>bk_min := doc\<rparr>)" by (simp add: bk_idle_def len)
      then have "bk_window tr D doc (?s2\<lparr>bk_min := doc\<rparr>) \<or> bk_idle tr D doc (?s2\<lparr>bk_min := doc\<rparr>)" by blast
      from next_correct [OF l(5) [OF disjI1 [OF refl]] D this] obtain s' where
        s': "bk_next ops tr (?s2\<lparr>bk_min := doc\<rparr>) = Some (bk_doc s' \<noteq> doc_eof, s')" "bk_core docs ops invar tr D s'"
          "bk_doc s' = first_ge D doc"
          "if bk_doc s' = doc_eof then bk_done tr s'
           else bk_window tr D (bk_doc s' + 1) s' \<and> bk_max s' - kWindow tr \<le> bk_doc s' \<and> bk_doc s' < bk_max s'" by blast
      have d': "bk_doc s' = doc" using s'(3) first_ge_self [OF l(1,3)] by simp
      then have "bk_invar docs ops invar tr D s'" using s'(2,4) D l(1,3) by (simp add: bk_invar_def)
      moreover have "bk_seek ops tr t s = Some (bk_doc s', s')" using seek False True s'(1) by (simp add: Let_def)
      ultimately show ?thesis using d' l(4) by (intro exI [of _ s']) simp
    next
      case ra: False
      let ?s' = "?s2\<lparr>bk_min := doc + 1, bk_offset := 0\<rparr>"
      have md: "(doc + 1) mod 2 ^ 32 = doc + 1" using l(3) by (simp add: doc_eof_def)
      have "bk_core docs ops invar tr D ?s'" using l(5) [of "doc + 1"] by simp
      then have "bk_invar docs ops invar tr D ?s'" using D l(1,3) len by (auto simp: bk_invar_def bk_idle_def)
      moreover have "bk_seek ops tr t s = Some (doc, ?s')" using seek False ra unfolding md by (simp add: Let_def)
      ultimately show ?thesis using l(4) by (intro exI [of _ ?s']) simp
    qed
  qed
qed

lemma bk_seek_law:
  assumes "bk_invar docs ops invar tr D s" "\<not> bt_min_match tr" "bk_doc s \<le> t" "doc_min \<le> t" "t \<le> doc_eof"
  shows "\<exists>s'. bk_seek ops tr t s = Some (bk_doc s', s') \<and> bk_doc s' = first_ge D t \<and>
    (bk_doc s' \<noteq> doc_eof \<longrightarrow> bk_invar docs ops invar tr D s')"
proof -
  have inv: "doc_set D" "bk_core docs ops invar tr D s" using assms(1) by (auto simp: bk_invar_def)
  consider (here) "bk_doc s = t" | (window) "bk_doc s < t" "t < bk_max s" | (beyond) "bk_doc s < t" "bk_max s \<le> t"
    using assms(3) by linarith
  then show ?thesis
  proof cases
    case here
    have "first_ge D t = t" using assms(1,4,5) here doc_limits
      by (intro first_ge_fixed) (auto simp: bk_invar_def split: if_splits)
    with here assms(1) show ?thesis by (auto simp: bk_seek_def)
  next
    case window
    then have "bk_window tr D (bk_doc s + 1) s" "bk_max s - kWindow tr \<le> bk_doc s"
      using assms(1,5) by (auto simp: bk_invar_def split: if_splits)
    from seek_window [OF inv(2,1) assms(2) this window] show ?thesis by blast
  next
    case beyond
    from seek_beyond [OF assms(1,2) beyond assms(4,5)] show ?thesis .
  qed
qed

end

section \<open>Sub-iterators of the library\<close>

interpretation bitset_seekable: seekable_iterator bi_ops bi_docs bi_invar
proof (unfold_locales, goal_cases)
  case (1 s t)
  then have "t \<le> doc_eof" using bitset_it.value_le_eof [OF 1(1)] by simp
  with 1 bi_seek_correct [of s t] show ?case
    by (cases "bi_seek t s") (auto simp: bi_invar_def bi_ops_def bi_docs_def)
qed

interpretation all_seekable: seekable_iterator all_ops all_docs all_invar
proof (unfold_locales, goal_cases)
  case (1 it t)
  have "all_seek t it = (all_doc it, it)"
  proof (cases "t \<le> all_max_doc it")
    case True
    then have "first_ge (all_docs it) t = t"
      using 1(1,2) by (intro first_ge_self) (auto simp: all_docs_def all_invar_def)
    with True 1(4) show ?thesis by (simp add: all_seek_def all_ops_def)
  next
    case False
    then have "first_ge (all_docs it) t = doc_eof" by (intro first_ge_eofI) (auto simp: all_docs_def)
    with False 1(4) show ?thesis by (simp add: all_seek_def all_ops_def)
  qed
  with 1(1) show ?case by (auto simp: all_ops_def)
qed

interpretation bitset_blocks: doc_cursor "bk_ops bi_ops tr" "\<lambda>_. D" "bk_invar bi_docs bi_ops bi_invar tr D" for tr D
  by (rule bitset_it.bk_cursor)

section \<open>Properties\<close>

lemma bk_make_fresh:
  assumes "doc_cursor ops docs invar"
    and "\<forall>it\<in>set its. invar it \<and> value_of ops it = doc_invalid \<and> (\<forall>d\<in>docs it. d + 1 + kWindow tr < 2 ^ 32)"
    and "doc_min + kWindow tr < 2 ^ 32"
  shows "bk_invar docs ops invar tr (bk_docs docs tr its m) (bk_make tr its m)"
  using assms(2,3) by (intro doc_cursor.bk_make_invar [OF assms(1)]) (auto simp: bk_ready_def doc_min_def doc_invalid_def)

text \<open>
  C9: running \<open>next\<close> to the end of a block disjunction over any iterators that keep the contract of
  \<open>next\<close> returns, and yields in increasing order every document that enough of the sub-iterators have: one without
  \<open>kMinMatch\<close>, \<open>min_match_count\<close> (at least one) with it. This holds for every number of blocks in the window, whatever
  windows the documents fall into, as long as the last window ends before the range of document ids does.
\<close>

theorem block_disjunction_drain:
  assumes "doc_cursor ops docs invar"
    and "\<forall>it\<in>set its. invar it \<and> value_of ops it = doc_invalid \<and> (\<forall>d\<in>docs it. d + 1 + kWindow tr < 2 ^ 32)"
    and "doc_min + kWindow tr < 2 ^ 32"
    and "card {d. (if bt_min_match tr then max 1 m else 1) \<le> length (filter (\<lambda>it. d \<in> docs it) its)} < n"
  shows "drain n (bk_ops ops tr) (bk_make tr its m) =
    Some (sorted_list_of_set {d. (if bt_min_match tr then max 1 m else 1) \<le> length (filter (\<lambda>it. d \<in> docs it) its)})"
proof -
  let ?D = "bk_docs docs tr its m" and ?s = "bk_make tr its m"
  have D: "{d. (if bt_min_match tr then max 1 m else 1) \<le> length (filter (\<lambda>it. d \<in> docs it) its)} = ?D"
    by (auto simp: bk_docs_def bk_enough_def hits_def Suc_le_eq)
  note inv = bk_make_fresh [OF assms(1-3), of m]
  have "{d \<in> ?D. value_of (bk_ops ops tr) ?s < d} = ?D"
  proof (cases "its = []")
    case True
    then have "?D = {}" by (auto simp: bk_docs_def bk_enough_def)
    then show ?thesis by simp
  next
    case False
    have "0 < d" if "d \<in> ?D" for d using inv that by (auto simp: bk_invar_def doc_set_def doc_min_def)
    then show ?thesis using False by (auto simp: bk_ops_def bk_make_def doc_invalid_def)
  qed
  with doc_cursor.drain_correct [OF doc_cursor.bk_cursor [OF assms(1)] inv, of n] assms(4)
  show ?thesis unfolding D by simp
qed

theorem block_disjunction_drain_witness:
  "drain 4 (bk_ops bi_ops \<lparr>bt_min_match = True, bt_readahead = True, bt_num_blocks = 2\<rparr>)
     (bk_make \<lparr>bt_min_match = True, bt_readahead = True, bt_num_blocks = 2\<rparr> (map bi_make [[40, 0, 1], [32, 0, 1], [2, 0, 3]]) 2) =
   Some [5, 128]"
proof -
  let ?tr = "\<lparr>bt_min_match = True, bt_readahead = True, bt_num_blocks = 2\<rparr>"
  let ?its = "map bi_make [[40, 0, 1], [32, 0, 1], [2, 0, 3]]"
  have w: "words_set [40, 0, 1] = {3, 5, 128}" "words_set [32, 0, 1] = {5, 128}" "words_set [2, 0, 3] = {1, 128, 129}"
    unfolding words_set_code by code_simp+
  have k: "kWindow ?tr = 128" by (simp add: kWindow_def)
  have b: "bi_bounds [40, 0, 1]" "bi_bounds [32, 0, 1]" "bi_bounds [2, 0, 3]" by (simp_all add: bi_bounds_def w)
  note mk = bi_make_invar [OF b(1)] bi_make_invar [OF b(2)] bi_make_invar [OF b(3)]
  have docs: "bi_docs (bi_make [40, 0, 1]) = {3, 5, 128}" "bi_docs (bi_make [32, 0, 1]) = {5, 128}"
    "bi_docs (bi_make [2, 0, 3]) = {1, 128, 129}" using mk w by simp_all
  have "\<forall>it\<in>set ?its. bi_invar it \<and> value_of bi_ops it = doc_invalid \<and> (\<forall>d\<in>bi_docs it. d + 1 + kWindow ?tr < 2 ^ 32)"
    using mk by (simp add: docs k bi_make_value w)
  moreover have e: "{d. (if bt_min_match ?tr then max 1 2 else 1) \<le> length (filter (\<lambda>it. d \<in> bi_docs it) ?its)} = {5, 128}"
    by (auto simp: docs split: if_splits)
  ultimately show ?thesis
    using block_disjunction_drain [OF bitset_it.doc_cursor_axioms, of ?its ?tr 2 4] by (simp add: e k doc_min_def)
qed

text \<open>
  C35: in a union (no \<open>kMinMatch\<close>), \<open>seek\<close> to any valid target that is not behind the iterator
  returns and moves to the first document of the union that is not below the target, in the window that has been
  read or behind it, with and without read-ahead; afterwards \<open>next\<close> and \<open>seek\<close> can go on.
\<close>

theorem block_disjunction_seek:
  assumes "seekable_iterator ops docs invar" "bk_invar docs ops invar tr D s" "\<not> bt_min_match tr"
    "bk_doc s \<le> t" "doc_min \<le> t" "t \<le> doc_eof"
  shows "\<exists>s'. bk_seek ops tr t s = Some (bk_doc s', s') \<and> bk_doc s' = first_ge D t \<and>
    (bk_doc s' \<noteq> doc_eof \<longrightarrow> bk_invar docs ops invar tr D s')"
  by (rule seekable_iterator.bk_seek_law [OF assms])

theorem block_disjunction_seek_witness:
  "\<exists>s'. bk_seek all_ops \<lparr>bt_min_match = False, bt_readahead = False, bt_num_blocks = 8\<rparr> 700
     (bk_make \<lparr>bt_min_match = False, bt_readahead = False, bt_num_blocks = 8\<rparr>
       [\<lparr>all_max_doc = 900, all_doc = 0\<rparr>, \<lparr>all_max_doc = 4, all_doc = 0\<rparr>, \<lparr>all_max_doc = 5, all_doc = 0\<rparr>] 0) = Some (700, s')"
proof -
  let ?tr = "\<lparr>bt_min_match = False, bt_readahead = False, bt_num_blocks = 8\<rparr>"
  let ?its = "[\<lparr>all_max_doc = 900, all_doc = 0\<rparr>, \<lparr>all_max_doc = 4, all_doc = 0\<rparr>, \<lparr>all_max_doc = 5, all_doc = 0\<rparr>]"
  let ?D = "bk_docs all_docs ?tr ?its 0"
  have inv: "bk_invar all_docs all_ops all_invar ?tr ?D (bk_make ?tr ?its 0)"
    by (rule bk_make_fresh [OF all_it.doc_cursor_axioms])
      (auto simp: all_invar_def all_ops_def all_docs_def kWindow_def doc_eof_def doc_invalid_def doc_min_def)
  have "first_ge ?D 700 = 700"
    by (rule first_ge_self) (simp_all add: bk_docs_union all_docs_def doc_eof_def doc_min_def)
  with block_disjunction_seek [OF all_seekable.seekable_iterator_axioms inv, of 700] show ?thesis
    by (auto simp: bk_make_def doc_eof_def doc_min_def doc_invalid_def)
qed

end
