(* ===== verification/BufferedInput.thy ===== *)
theory BufferedInput
  imports Bytes "HOL-Library.Monad_Syntax"
begin

text \<open>
  Buffered input, \<open>buffered_index_input\<close> of \<open>core/store/data_input.cpp\<close>. The virtual functions of
  the derived class (\<open>read_internal\<close>, \<open>seek_internal\<close>, \<open>length\<close>) are a record of functions on a state of
  their own. \<^term>\<open>None\<close> is an exception of the derived class or a read of bytes the buffer does
  not hold, which the source leaves undefined.
\<close>

section \<open>State and operations\<close>

record 'r in_ops =
  read_internal :: "nat \<Rightarrow> 'r \<Rightarrow> (u8 list \<times> 'r) option"
  seek_internal :: "nat \<Rightarrow> 'r \<Rightarrow> 'r option"
  length_of :: "'r \<Rightarrow> nat"

text \<open>The valid bytes from \<open>buf_\<close> to \<open>end_\<close>, the distance of \<open>begin_\<close> from \<open>buf_\<close>, \<open>start_\<close> and \<open>buf_size_\<close>.\<close>

record 'r in_state =
  ib_buf :: "u8 list"
  ib_pos :: nat
  ib_start :: nat
  ib_size :: nat
  ib_raw :: 'r

definition ib_reset :: "nat \<Rightarrow> nat \<Rightarrow> 'r \<Rightarrow> 'r in_state" where
  "ib_reset sz start raw = \<lparr>ib_buf = [], ib_pos = 0, ib_start = start, ib_size = sz, ib_raw = raw\<rparr>"

definition ib_remain :: "'r in_state \<Rightarrow> nat" where
  "ib_remain s = length (ib_buf s) - ib_pos s"

definition ib_file_pointer :: "'r in_state \<Rightarrow> nat" where
  "ib_file_pointer s = ib_start s + ib_pos s"

definition ib_eof :: "'r in_ops \<Rightarrow> 'r in_state \<Rightarrow> bool" where
  "ib_eof ops s \<longleftrightarrow> length_of ops (ib_raw s) \<le> ib_file_pointer s"

definition ib_refill :: "'r in_ops \<Rightarrow> 'r in_state \<Rightarrow> (nat \<times> 'r in_state) option" where
  "ib_refill ops s =
     (let data_start = ib_file_pointer s;
          data_end = min (data_start + ib_size s) (length_of ops (ib_raw s))
      in if data_end \<le> data_start then Some (0, s)
         else do {
           (bs, r) \<leftarrow> read_internal ops (data_end - data_start) (ib_raw s);
           Some (data_end - data_start, s\<lparr>ib_buf := bs, ib_pos := 0, ib_start := data_start, ib_raw := r\<rparr>)
         })"

text \<open>Copying \<open>n\<close> bytes from \<open>begin_\<close> and advancing it.\<close>

definition ib_take :: "nat \<Rightarrow> 'r in_state \<Rightarrow> (u8 list \<times> 'r in_state) option" where
  "ib_take n s =
     (if n \<le> ib_remain s then Some (take n (drop (ib_pos s) (ib_buf s)), s\<lparr>ib_pos := ib_pos s + n\<rparr>) else None)"

definition ib_read_byte :: "'r in_ops \<Rightarrow> 'r in_state \<Rightarrow> (u8 \<times> 'r in_state) option" where
  "ib_read_byte ops s = do {
     s1 \<leftarrow> (if length (ib_buf s) \<le> ib_pos s then map_option snd (ib_refill ops s) else Some s);
     (bs, s2) \<leftarrow> ib_take 1 s1;
     Some (hd bs, s2)
   }"

definition ib_read_bytes :: "'r in_ops \<Rightarrow> nat \<Rightarrow> 'r in_state \<Rightarrow> (u8 list \<times> 'r in_state) option" where
  "ib_read_bytes ops count s = do {
     let read = min count (ib_remain s);
     (b, s1) \<leftarrow> ib_take read s;
     if read = count then Some (b, s1)
     else do {
       let sz = count - read;
       if sz < ib_size s1 then do {
         (filled, s2) \<leftarrow> ib_refill ops s1;
         (b', s3) \<leftarrow> ib_take (min sz filled) s2;
         Some (b @ b', s3)
       } else do {
         (b', r) \<leftarrow> read_internal ops sz (ib_raw s1);
         Some (b @ b', s1\<lparr>ib_raw := r, ib_start := ib_start s1 + (ib_pos s1 + length b'), ib_buf := [], ib_pos := 0\<rparr>)
       }
     }
   }"

definition ib_seek :: "'r in_ops \<Rightarrow> nat \<Rightarrow> 'r in_state \<Rightarrow> 'r in_state option" where
  "ib_seek ops p s =
     (if ib_start s \<le> p \<and> p < ib_start s + length (ib_buf s) then Some (s\<lparr>ib_pos := p - ib_start s\<rparr>)
      else do {
        r \<leftarrow> seek_internal ops p (ib_raw s);
        Some (s\<lparr>ib_raw := r, ib_buf := [], ib_pos := 0, ib_start := p\<rparr>)
      })"

definition ib_skip :: "'r in_ops \<Rightarrow> nat \<Rightarrow> 'r in_state \<Rightarrow> 'r in_state option" where
  "ib_skip ops count s = ib_seek ops (ib_file_pointer s + count) s"

text \<open>\<open>read_bytes(offset, b, count)\<close>.\<close>

definition ib_read_bytes_at :: "'r in_ops \<Rightarrow> nat \<Rightarrow> nat \<Rightarrow> 'r in_state \<Rightarrow> (u8 list \<times> 'r in_state) option" where
  "ib_read_bytes_at ops off count s = do { s1 \<leftarrow> ib_seek ops off s; ib_read_bytes ops count s1 }"

text \<open>The two versions of \<open>read_buffer\<close>; a null pointer is \<^term>\<open>None\<close> in the first component.\<close>

definition ib_read_buffer :: "'r in_ops \<Rightarrow> nat \<Rightarrow> bool \<Rightarrow> 'r in_state \<Rightarrow> (u8 list option \<times> 'r in_state) option" where
  "ib_read_buffer ops sz persistent s =
     (if persistent then Some (None, s)
      else if sz \<le> ib_remain s then do { (b, s1) \<leftarrow> ib_take sz s; Some (Some b, s1) }
      else if sz \<le> min (ib_size s) (length_of ops (ib_raw s) - ib_file_pointer s) then do {
        r \<leftarrow> seek_internal ops (ib_file_pointer s) (ib_raw s);
        (_, s1) \<leftarrow> ib_refill ops (s\<lparr>ib_raw := r\<rparr>);
        (b, s2) \<leftarrow> ib_take sz s1;
        Some (Some b, s2)
      } else Some (None, s))"

definition ib_read_buffer_at ::
  "'r in_ops \<Rightarrow> nat \<Rightarrow> nat \<Rightarrow> bool \<Rightarrow> 'r in_state \<Rightarrow> (u8 list option \<times> 'r in_state) option" where
  "ib_read_buffer_at ops off sz persistent s =
     (if persistent then Some (None, s)
      else if sz \<le> ib_size s \<and> off + sz \<le> length_of ops (ib_raw s) then do {
        s1 \<leftarrow> ib_seek ops off s;
        ib_read_buffer ops sz persistent s1
      } else Some (None, s))"

section \<open>Integers\<close>

text \<open>
  A stream as an input iterator: the decoders of \<open>bytes_utils.hpp\<close> over \<open>*this\<close> fetch bytes one by one
  with \<open>read_byte\<close>. The fixed width ones fetch a known number of bytes, the variable width ones
  stop at a byte without the top bit.
\<close>

fun fetch :: "('s \<Rightarrow> (u8 \<times> 's) option) \<Rightarrow> nat \<Rightarrow> 's \<Rightarrow> (u8 list \<times> 's) option" where
  "fetch rd 0 s = Some ([], s)"
| "fetch rd (Suc n) s = do { (b, s1) \<leftarrow> rd s; (bs, s2) \<leftarrow> fetch rd n s1; Some (b # bs, s2) }"

fun svread_rest :: "('s \<Rightarrow> (u8 \<times> 's) option) \<Rightarrow> nat list \<Rightarrow> nat \<Rightarrow> 'a::len word \<Rightarrow> 's \<Rightarrow> ('a word \<times> 's) option" where
  "svread_rest rd [] lst out s = do { (b, s1) \<leftarrow> rd s; Some (out + push_bit lst (ucast b), s1) }"
| "svread_rest rd (k # ks) lst out s = do {
     (b, s1) \<leftarrow> rd s;
     let out1 = out + push_bit k (ucast b);
     if (ucast b :: 'a word) AND 0x80 = 0 then Some (out1, s1)
     else svread_rest rd ks lst (out1 - push_bit k 0x80) s1
   }"

definition svread_from :: "('s \<Rightarrow> (u8 \<times> 's) option) \<Rightarrow> nat list \<Rightarrow> nat \<Rightarrow> 's \<Rightarrow> ('a::len word \<times> 's) option" where
  "svread_from rd ks lst s = do {
     (b, s1) \<leftarrow> rd s;
     let out = (ucast b :: 'a word);
     if out AND 0x80 = 0 then Some (out, s1) else svread_rest rd ks lst (out - 0x80) s1
   }"

text \<open>
  Decoding at \<open>begin_\<close> directly in the buffer: \<open>window\<close> are the bytes from \<open>begin_\<close> to \<open>end_\<close>, \<open>adv\<close> advances \<open>begin_\<close>. The
  inputs that have a buffer read an integer there when the longest encoding fits, and byte by byte otherwise.
\<close>

definition decode_in ::
  "('s \<Rightarrow> u8 list) \<Rightarrow> (nat \<Rightarrow> 's \<Rightarrow> 's) \<Rightarrow> (u8 list \<Rightarrow> ('v \<times> u8 list) option) \<Rightarrow> 's \<Rightarrow> ('v \<times> 's) option" where
  "decode_in window adv dec s = do {
     (v, r) \<leftarrow> dec (window s);
     Some (v, adv (length (window s) - length r) s)
   }"

definition read_fixed_in ::
  "('s \<Rightarrow> (u8 \<times> 's) option) \<Rightarrow> ('s \<Rightarrow> u8 list) \<Rightarrow> (nat \<Rightarrow> 's \<Rightarrow> 's) \<Rightarrow> nat \<Rightarrow> (u8 list \<Rightarrow> ('v \<times> u8 list) option) \<Rightarrow>
   's \<Rightarrow> ('v \<times> 's) option" where
  "read_fixed_in rd window adv n dec s =
     (if length (window s) < n then do {
        (bs, s1) \<leftarrow> fetch rd n s;
        (v, _) \<leftarrow> dec bs;
        Some (v, s1)
      } else decode_in window adv dec s)"

definition read_vint_in ::
  "('s \<Rightarrow> (u8 \<times> 's) option) \<Rightarrow> ('s \<Rightarrow> u8 list) \<Rightarrow> (nat \<Rightarrow> 's \<Rightarrow> 's) \<Rightarrow> 's \<Rightarrow> (u32 \<times> 's) option" where
  "read_vint_in rd window adv s =
     (if length (window s) < 5 then svread_from rd [7, 14, 21] 28 s else decode_in window adv vread_u32 s)"

definition read_vlong_in ::
  "('s \<Rightarrow> (u8 \<times> 's) option) \<Rightarrow> ('s \<Rightarrow> u8 list) \<Rightarrow> (nat \<Rightarrow> 's \<Rightarrow> 's) \<Rightarrow> 's \<Rightarrow> (u64 \<times> 's) option" where
  "read_vlong_in rd window adv s =
     (if length (window s) < 10 then svread_from rd [7, 14, 21, 28, 35, 42, 49, 56] 63 s
      else decode_in window adv vread_u64 s)"

definition ib_window :: "'r in_state \<Rightarrow> u8 list" where
  "ib_window s = drop (ib_pos s) (ib_buf s)"

definition ib_adv :: "nat \<Rightarrow> 'r in_state \<Rightarrow> 'r in_state" where
  "ib_adv n s = s\<lparr>ib_pos := ib_pos s + n\<rparr>"

definition ib_read_short :: "'r in_ops \<Rightarrow> 'r in_state \<Rightarrow> (u16 \<times> 'r in_state) option" where
  "ib_read_short ops s = read_fixed_in (ib_read_byte ops) ib_window ib_adv 2 read_u16 s"

definition ib_read_int :: "'r in_ops \<Rightarrow> 'r in_state \<Rightarrow> (u32 \<times> 'r in_state) option" where
  "ib_read_int ops s = read_fixed_in (ib_read_byte ops) ib_window ib_adv 4 read_u32 s"

definition ib_read_long :: "'r in_ops \<Rightarrow> 'r in_state \<Rightarrow> (u64 \<times> 'r in_state) option" where
  "ib_read_long ops s = read_fixed_in (ib_read_byte ops) ib_window ib_adv 8 read_u64 s"

definition ib_read_vint :: "'r in_ops \<Rightarrow> 'r in_state \<Rightarrow> (u32 \<times> 'r in_state) option" where
  "ib_read_vint ops s = read_vint_in (ib_read_byte ops) ib_window ib_adv s"

definition ib_read_vlong :: "'r in_ops \<Rightarrow> 'r in_state \<Rightarrow> (u64 \<times> 'r in_state) option" where
  "ib_read_vlong ops s = read_vlong_in (ib_read_byte ops) ib_window ib_adv s"

section \<open>What a derived class promises\<close>

text \<open>
  The derived class reads a file: \<open>read_internal\<close> delivers the bytes at the current position, all
  that are asked for or all that are left, and \<open>seek_internal\<close> moves inside the file and refuses a
  position behind its end.
\<close>

locale raw_source =
  fixes ops :: "'r in_ops" and raw_file :: "'r \<Rightarrow> u8 list" and raw_pos :: "'r \<Rightarrow> nat" and raw_ok :: "'r \<Rightarrow> bool"
  assumes length_law: "raw_ok r \<Longrightarrow> length_of ops r = length (raw_file r)"
    and read_law: "raw_ok r \<Longrightarrow> raw_pos r \<le> length (raw_file r) \<Longrightarrow> \<exists>r'.
      read_internal ops n r = Some (take n (drop (raw_pos r) (raw_file r)), r') \<and> raw_ok r' \<and>
      raw_file r' = raw_file r \<and> raw_pos r' = min (raw_pos r + n) (length (raw_file r))"
    and seek_law: "raw_ok r \<Longrightarrow> p \<le> length (raw_file r) \<Longrightarrow> \<exists>r'.
      seek_internal ops p r = Some r' \<and> raw_ok r' \<and> raw_file r' = raw_file r \<and> raw_pos r' = p"
    and seek_beyond: "raw_ok r \<Longrightarrow> length (raw_file r) < p \<Longrightarrow> seek_internal ops p r = None"

section \<open>The stream behind the buffer\<close>

definition ib_file :: "('r \<Rightarrow> u8 list) \<Rightarrow> 'r in_state \<Rightarrow> u8 list" where
  "ib_file raw_file s = raw_file (ib_raw s)"

definition ib_invar :: "('r \<Rightarrow> u8 list) \<Rightarrow> ('r \<Rightarrow> nat) \<Rightarrow> ('r \<Rightarrow> bool) \<Rightarrow> 'r in_state \<Rightarrow> bool" where
  "ib_invar raw_file raw_pos raw_ok s \<longleftrightarrow>
     raw_ok (ib_raw s) \<and> 0 < ib_size s \<and> ib_pos s \<le> length (ib_buf s) \<and>
     raw_pos (ib_raw s) = ib_start s + length (ib_buf s) \<and>
     raw_pos (ib_raw s) \<le> length (raw_file (ib_raw s)) \<and>
     take (length (ib_buf s)) (drop (ib_start s) (raw_file (ib_raw s))) = ib_buf s"

definition ib_stream :: "('r \<Rightarrow> u8 list) \<Rightarrow> ('r \<Rightarrow> nat) \<Rightarrow> ('r \<Rightarrow> bool) \<Rightarrow> u8 list \<Rightarrow> 'r in_state \<Rightarrow> bool" where
  "ib_stream raw_file raw_pos raw_ok f s \<longleftrightarrow> ib_invar raw_file raw_pos raw_ok s \<and> ib_file raw_file s = f"

text \<open>The bytes still to come.\<close>

definition ib_rest :: "('r \<Rightarrow> u8 list) \<Rightarrow> 'r in_state \<Rightarrow> u8 list" where
  "ib_rest raw_file s = drop (ib_file_pointer s) (ib_file raw_file s)"

text \<open>
  \<open>reads iv rest res dec\<close>: the stateful result \<open>res\<close> agrees with the result \<open>dec\<close> of decoding the
  list of bytes to come, failure included.
\<close>

definition reads :: "('s \<Rightarrow> bool) \<Rightarrow> ('s \<Rightarrow> u8 list) \<Rightarrow> ('v \<times> 's) option \<Rightarrow> ('v \<times> u8 list) option \<Rightarrow> bool" where
  "reads iv rest res dec \<longleftrightarrow>
     (case dec of None \<Rightarrow> res = None
      | Some (v, bs) \<Rightarrow> \<exists>s'. res = Some (v, s') \<and> iv s' \<and> rest s' = bs)"

section \<open>Decoding through a byte reader\<close>

locale byte_reader =
  fixes rd :: "'s \<Rightarrow> (u8 \<times> 's) option" and iv :: "'s \<Rightarrow> bool" and rest :: "'s \<Rightarrow> u8 list"
  assumes rd_nil: "iv s \<Longrightarrow> rest s = [] \<Longrightarrow> rd s = None"
    and rd_cons: "iv s \<Longrightarrow> rest s = b # bs \<Longrightarrow> \<exists>s'. rd s = Some (b, s') \<and> iv s' \<and> rest s' = bs"
begin

lemma fetch_correct:
  "iv s \<Longrightarrow> reads iv rest (fetch rd n s)
     (if n \<le> length (rest s) then Some (take n (rest s), drop n (rest s)) else None)"
proof (induction n arbitrary: s)
  case (Suc n)
  show ?case
  proof (cases "rest s")
    case Nil
    then show ?thesis using rd_nil [OF Suc.prems] by (simp add: reads_def)
  next
    case (Cons b bs)
    then obtain s' where s': "rd s = Some (b, s')" "iv s'" "rest s' = bs" using rd_cons Suc.prems by blast
    with Suc.IH [OF s'(2)] Cons show ?thesis by (auto simp: reads_def split: if_splits)
  qed
qed (simp add: reads_def)

lemma svread_rest_correct: "iv s \<Longrightarrow> reads iv rest (svread_rest rd ks lst out s) (vread_rest ks lst out (rest s))"
proof (induction ks arbitrary: s out)
  case Nil
  show ?case using rd_nil [OF Nil] rd_cons [OF Nil] by (cases "rest s") (fastforce simp: reads_def)+
next
  case (Cons k ks)
  show ?case
  proof (cases "rest s")
    case Nil
    then show ?thesis using rd_nil [OF Cons.prems] by (simp add: reads_def)
  next
    case (Cons b bs)
    then obtain s' where s': "rd s = Some (b, s')" "iv s'" "rest s' = bs" using rd_cons Cons.prems by blast
    with Cons.IH [OF s'(2)] Cons show ?thesis by (auto simp: reads_def Let_def)
  qed
qed

lemma svread_from_correct: "iv s \<Longrightarrow> reads iv rest (svread_from rd ks lst s) (vread_from ks lst (rest s))"
proof (cases "rest s")
  case Nil
  moreover assume "iv s"
  ultimately show ?thesis using rd_nil by (simp add: reads_def svread_from_def vread_from_def)
next
  case (Cons b bs)
  moreover assume "iv s"
  ultimately obtain s' where s': "rd s = Some (b, s')" "iv s'" "rest s' = bs" using rd_cons by blast
  with svread_rest_correct [OF s'(2)] Cons show ?thesis
    by (auto simp: reads_def svread_from_def vread_from_def Let_def)
qed

end

section \<open>Decoders on a prefix\<close>

text \<open>The fixed width decoders need and consume exactly their width.\<close>

lemma read_u16_split:
  "length bs < 2 \<Longrightarrow> read_u16 bs = None" "2 \<le> length bs \<Longrightarrow> \<exists>v. \<forall>ys. read_u16 (take 2 bs @ ys) = Some (v, ys)"
  by (auto simp: numeral_eq_Suc Suc_le_length_iff less_Suc_eq length_Suc_conv)

lemma read_u32_split:
  "length bs < 4 \<Longrightarrow> read_u32 bs = None" "4 \<le> length bs \<Longrightarrow> \<exists>v. \<forall>ys. read_u32 (take 4 bs @ ys) = Some (v, ys)"
  by (auto simp: numeral_eq_Suc Suc_le_length_iff less_Suc_eq length_Suc_conv)

lemma read_u64_split:
  "length bs < 8 \<Longrightarrow> read_u64 bs = None" "8 \<le> length bs \<Longrightarrow> \<exists>v. \<forall>ys. read_u64 (take 8 bs @ ys) = Some (v, ys)"
  by (auto simp: numeral_eq_Suc Suc_le_length_iff less_Suc_eq length_Suc_conv read_u64_def)

lemma vread_rest_append: "vread_rest ks lst out bs = Some (v, r) \<Longrightarrow> vread_rest ks lst out (bs @ ys) = Some (v, r @ ys)"
  by (induction ks lst out bs rule: vread_rest.induct) (auto simp: Let_def split: if_splits)

lemma vread_from_append: "vread_from ks lst bs = Some (v, r) \<Longrightarrow> vread_from ks lst (bs @ ys) = Some (v, r @ ys)"
  by (auto simp: vread_from_def Let_def vread_rest_append split: list.splits if_splits)

lemma vread_rest_total:
  "length ks < length bs \<Longrightarrow> \<exists>v n. vread_rest ks lst out bs = Some (v, drop n bs) \<and> n \<le> length bs"
proof (induction ks lst out bs rule: vread_rest.induct)
  case (2 lst out b bs)
  then show ?case by (intro exI [of _ "out + push_bit lst (ucast b)"] exI [of _ 1]) simp
next
  case (3 k ks lst out b bs)
  show ?case
  proof (cases "(ucast b :: 'a word) AND 0x80 = 0")
    case True
    then show ?thesis by (intro exI [of _ "out + push_bit k (ucast b)"] exI [of _ 1]) (simp add: Let_def)
  next
    case False
    with 3 obtain v n where "vread_rest ks lst (out + push_bit k (ucast b) - push_bit k 0x80) bs = Some (v, drop n bs)"
      "n \<le> length bs" by auto
    with False show ?thesis by (intro exI [of _ v] exI [of _ "Suc n"]) (simp add: Let_def)
  qed
qed simp

lemma vread_from_total:
  assumes "length ks + 1 < length bs"
  shows "\<exists>v n. (vread_from ks lst bs :: ('a::len word \<times> u8 list) option) = Some (v, drop n bs) \<and> n \<le> length bs"
proof -
  obtain b bs' where bs: "bs = b # bs'" using assms by (cases bs) auto
  show ?thesis
  proof (cases "(ucast b :: 'a word) AND 0x80 = 0")
    case True
    then show ?thesis by (intro exI [of _ "ucast b"] exI [of _ 1]) (simp add: bs vread_from_def Let_def)
  next
    case False
    obtain v n where "vread_rest ks lst ((ucast b :: 'a word) - 0x80) bs' = Some (v, drop n bs')" "n \<le> length bs'"
      using vread_rest_total [of ks bs' lst "(ucast b :: 'a word) - 0x80"] assms bs by auto
    with False show ?thesis by (intro exI [of _ v] exI [of _ "Suc n"]) (simp add: bs vread_from_def Let_def)
  qed
qed

section \<open>Decoding in a window\<close>

text \<open>A byte reader with some of the bytes to come in memory.\<close>

locale window_reader = byte_reader rd iv rest
  for rd :: "'s \<Rightarrow> (u8 \<times> 's) option" and iv :: "'s \<Rightarrow> bool" and rest :: "'s \<Rightarrow> u8 list" +
  fixes window :: "'s \<Rightarrow> u8 list" and adv :: "nat \<Rightarrow> 's \<Rightarrow> 's"
  assumes window_law: "iv s \<Longrightarrow> \<exists>more. rest s = window s @ more"
    and adv_law: "iv s \<Longrightarrow> n \<le> length (window s) \<Longrightarrow> iv (adv n s) \<and> rest (adv n s) = drop n (rest s)"
begin

lemma decode_correct:
  assumes "iv s" and "\<exists>v n. dec (window s) = Some (v, drop n (window s)) \<and> n \<le> length (window s)"
    and "\<And>v bs r ys. dec bs = Some (v, r) \<Longrightarrow> dec (bs @ ys) = Some (v, r @ ys)"
  shows "reads iv rest (decode_in window adv dec s) (dec (rest s))"
proof -
  obtain v n where v: "dec (window s) = Some (v, drop n (window s))" "n \<le> length (window s)" using assms(2) by blast
  obtain more where more: "rest s = window s @ more" using window_law [OF assms(1)] by blast
  have "dec (rest s) = Some (v, drop n (rest s))" using assms(3) [OF v(1), of more] v(2) more by simp
  moreover have "decode_in window adv dec s = Some (v, adv n s)" using v by (simp add: decode_in_def)
  ultimately show ?thesis using adv_law [OF assms(1) v(2)] by (simp add: reads_def)
qed

lemma fixed_correct:
  assumes "iv s"
    and dec: "\<And>bs. length bs < n \<Longrightarrow> dec bs = None" "\<And>bs. n \<le> length bs \<Longrightarrow> \<exists>v. \<forall>ys. dec (take n bs @ ys) = Some (v, ys)"
  shows "reads iv rest (read_fixed_in rd window adv n dec s) (dec (rest s))"
proof (cases "length (window s) < n")
  case True
  note f = fetch_correct [OF assms(1), of n]
  show ?thesis
  proof (cases "n \<le> length (rest s)")
    case le: True
    then obtain v where v: "\<forall>ys. dec (take n (rest s) @ ys) = Some (v, ys)" using dec(2) by blast
    then have "dec (rest s) = Some (v, drop n (rest s))" "dec (take n (rest s)) = Some (v, [])"
      using spec [OF v, of "drop n (rest s)"] spec [OF v, of "[]"] by simp_all
    with f le True show ?thesis by (auto simp: reads_def read_fixed_in_def)
  next
    case False
    with f True dec(1) [of "rest s"] show ?thesis by (simp add: reads_def read_fixed_in_def)
  qed
next
  case False
  let ?bs = "window s"
  have len: "n \<le> length ?bs" using False by simp
  then obtain v where v: "\<forall>ys. dec (take n ?bs @ ys) = Some (v, ys)" using dec(2) by blast
  have app: "dec (bs @ ys) = Some (w, r @ ys)" if "dec bs = Some (w, r)" for w bs r ys
  proof -
    have l: "n \<le> length bs" using dec(1) [of bs] that by (cases "n \<le> length bs") auto
    obtain u where u: "\<forall>ys. dec (take n bs @ ys) = Some (u, ys)" using dec(2) [OF l] by blast
    show ?thesis using spec [OF u, of "drop n bs"] spec [OF u, of "drop n bs @ ys"] that by (simp flip: append.assoc)
  qed
  have "dec ?bs = Some (v, drop n ?bs)" using spec [OF v, of "drop n ?bs"] by simp
  then have "\<exists>v m. dec ?bs = Some (v, drop m ?bs) \<and> m \<le> length ?bs" using len by blast
  from decode_correct [OF assms(1) this app] False show ?thesis by (simp add: read_fixed_in_def)
qed

lemma vint_correct: "iv s \<Longrightarrow> reads iv rest (read_vint_in rd window adv s) (vread_u32 (rest s))"
proof (cases "length (window s) < 5")
  case True
  assume "iv s"
  with True show ?thesis using svread_from_correct [of s] by (simp add: read_vint_in_def vread_u32_def)
next
  case False
  assume s: "iv s"
  have "length [7, 14, 21 :: nat] + 1 < length (window s)" using False by simp
  from vread_from_total [OF this, of 28] False show ?thesis unfolding read_vint_in_def
    by (simp, intro decode_correct [OF s]) (auto simp: vread_u32_def vread_from_append)
qed

lemma vlong_correct: "iv s \<Longrightarrow> reads iv rest (read_vlong_in rd window adv s) (vread_u64 (rest s))"
proof (cases "length (window s) < 10")
  case True
  assume "iv s"
  with True show ?thesis using svread_from_correct [of s] by (simp add: read_vlong_in_def vread_u64_def)
next
  case False
  assume s: "iv s"
  have "length [7, 14, 21, 28, 35, 42, 49, 56 :: nat] + 1 < length (window s)" using False by simp
  from vread_from_total [OF this, of 63] False show ?thesis unfolding read_vlong_in_def
    by (simp, intro decode_correct [OF s]) (auto simp: vread_u64_def vread_from_append)
qed

lemma ints_correct:
  assumes "iv s"
  shows "reads iv rest (read_fixed_in rd window adv 2 read_u16 s) (read_u16 (rest s))"
    "reads iv rest (read_fixed_in rd window adv 4 read_u32 s) (read_u32 (rest s))"
    "reads iv rest (read_fixed_in rd window adv 8 read_u64 s) (read_u64 (rest s))"
  using fixed_correct [OF assms read_u16_split] fixed_correct [OF assms read_u32_split]
    fixed_correct [OF assms read_u64_split] by blast+

lemma byte_correct: "iv s \<Longrightarrow> reads iv rest (rd s) (case rest s of [] \<Rightarrow> None | b # bs \<Rightarrow> Some (b, bs))"
  using rd_nil [of s] rd_cons [of s] by (auto simp: reads_def split: list.split)

end

section \<open>Correctness\<close>

context raw_source
begin

lemma stream_buf:
  assumes "ib_stream raw_file raw_pos raw_ok f s"
  shows "drop (ib_pos s) (ib_buf s) = take (ib_remain s) (ib_rest raw_file s)" "ib_remain s \<le> length (ib_rest raw_file s)"
    "ib_file_pointer s + length (ib_rest raw_file s) = length f"
proof -
  have b: "take (length (ib_buf s)) (drop (ib_start s) f) = ib_buf s" "ib_pos s \<le> length (ib_buf s)"
    "ib_start s + length (ib_buf s) \<le> length f" "ib_file raw_file s = f"
    using assms by (auto simp: ib_stream_def ib_invar_def ib_file_def)
  have "drop (ib_pos s) (take (length (ib_buf s)) (drop (ib_start s) f)) = take (ib_remain s) (drop (ib_file_pointer s) f)"
    by (simp add: drop_take ib_remain_def ib_file_pointer_def add.commute)
  then show "drop (ib_pos s) (ib_buf s) = take (ib_remain s) (ib_rest raw_file s)"
    using b(1,4) by (simp add: ib_rest_def)
  show "ib_remain s \<le> length (ib_rest raw_file s)" "ib_file_pointer s + length (ib_rest raw_file s) = length f"
    using b by (simp_all add: ib_rest_def ib_remain_def ib_file_pointer_def)
qed

lemma take_correct:
  assumes "ib_stream raw_file raw_pos raw_ok f s" "n \<le> ib_remain s"
  shows "reads (ib_stream raw_file raw_pos raw_ok f) (ib_rest raw_file) (ib_take n s)
    (Some (take n (ib_rest raw_file s), drop n (ib_rest raw_file s)))"
proof -
  let ?s = "s\<lparr>ib_pos := ib_pos s + n\<rparr>"
  have "take n (drop (ib_pos s) (ib_buf s)) = take n (ib_rest raw_file s)"
    unfolding stream_buf(1) [OF assms(1)] using assms(2) by simp
  then have "ib_take n s = Some (take n (ib_rest raw_file s), ?s)" using assms(2) by (simp add: ib_take_def)
  moreover have "ib_pos s + n \<le> length (ib_buf s)"
    using assms by (auto simp: ib_remain_def ib_stream_def ib_invar_def)
  then have "ib_stream raw_file raw_pos raw_ok f ?s" using assms(1) by (auto simp: ib_stream_def ib_invar_def ib_file_def)
  moreover have "ib_rest raw_file ?s = drop n (ib_rest raw_file s)"
    by (simp add: ib_rest_def ib_file_def ib_file_pointer_def ac_simps)
  ultimately show ?thesis by (simp add: reads_def)
qed

text \<open>Refilling a buffer when the derived class stands at the current position.\<close>

lemma refill_at:
  assumes "raw_ok (ib_raw s)" "0 < ib_size s" "raw_pos (ib_raw s) = ib_file_pointer s" "raw_file (ib_raw s) = f"
    "ib_file_pointer s < length f"
  shows "\<exists>s'. ib_refill ops s = Some (min (ib_size s) (length (ib_rest raw_file s)), s') \<and>
    ib_stream raw_file raw_pos raw_ok f s' \<and> ib_rest raw_file s' = ib_rest raw_file s \<and>
    ib_remain s' = min (ib_size s) (length (ib_rest raw_file s))"
proof -
  let ?r = "ib_raw s" and ?n = "min (ib_size s) (length (ib_rest raw_file s))"
  have rest: "ib_rest raw_file s = drop (ib_file_pointer s) f" using assms(4) by (simp add: ib_rest_def ib_file_def)
  have n: "min (ib_file_pointer s + ib_size s) (length_of ops ?r) - ib_file_pointer s = ?n"
    using assms(4,5) length_law [OF assms(1)] rest by (auto simp: min_def)
  from read_law [OF assms(1), of ?n] assms rest obtain r' where
    r': "read_internal ops ?n ?r = Some (take ?n (ib_rest raw_file s), r')" "raw_ok r'" "raw_file r' = f"
      "raw_pos r' = min (ib_file_pointer s + ?n) (length f)" by auto
  let ?s = "s\<lparr>ib_buf := take ?n (ib_rest raw_file s), ib_pos := 0, ib_start := ib_file_pointer s, ib_raw := r'\<rparr>"
  have rp: "raw_pos r' = ib_file_pointer s + ?n" using r'(4) rest assms(5) by (auto simp: min_def)
  have "0 < ?n" using assms(2,5) rest by simp
  then have "\<not> min (ib_file_pointer s + ib_size s) (length_of ops ?r) \<le> ib_file_pointer s" using n by linarith
  then have "ib_refill ops s = Some (?n, ?s)" using r'(1) n by (simp add: ib_refill_def Let_def)
  moreover have "ib_stream raw_file raw_pos raw_ok f ?s" "ib_rest raw_file ?s = ib_rest raw_file s" "ib_remain ?s = ?n"
    using r'(2,3) rp assms(2,4,5) rest
    by (simp_all add: ib_stream_def ib_invar_def ib_file_def ib_rest_def ib_remain_def) (simp_all add: ib_file_pointer_def)
  ultimately show ?thesis by blast
qed

lemma refill_correct:
  assumes "ib_stream raw_file raw_pos raw_ok f s" "ib_remain s = 0"
  shows "\<exists>s'. ib_refill ops s = Some (min (ib_size s) (length (ib_rest raw_file s)), s') \<and>
    ib_stream raw_file raw_pos raw_ok f s' \<and> ib_rest raw_file s' = ib_rest raw_file s \<and>
    ib_remain s' = min (ib_size s) (length (ib_rest raw_file s))"
proof -
  have s: "raw_ok (ib_raw s)" "0 < ib_size s" "raw_pos (ib_raw s) = ib_file_pointer s" "raw_file (ib_raw s) = f"
    using assms by (auto simp: ib_stream_def ib_invar_def ib_file_def ib_remain_def ib_file_pointer_def)
  show ?thesis
  proof (cases "ib_file_pointer s < length f")
    case True
    then show ?thesis by (rule refill_at [OF s])
  next
    case False
    then have "ib_rest raw_file s = []" "length_of ops (ib_raw s) \<le> ib_file_pointer s"
      using s length_law [OF s(1)] by (simp_all add: ib_rest_def ib_file_def)
    then show ?thesis using assms by (simp add: ib_refill_def Let_def)
  qed
qed

lemma read_byte_reader: "byte_reader (ib_read_byte ops) (ib_stream raw_file raw_pos raw_ok f) (ib_rest raw_file)"
proof -
  have step: "\<exists>s1. (if length (ib_buf s) \<le> ib_pos s then map_option snd (ib_refill ops s) else Some s) = Some s1 \<and>
      ib_stream raw_file raw_pos raw_ok f s1 \<and> ib_rest raw_file s1 = ib_rest raw_file s \<and>
      (ib_rest raw_file s \<noteq> [] \<longrightarrow> 1 \<le> ib_remain s1) \<and> (ib_rest raw_file s = [] \<longrightarrow> ib_remain s1 = 0)"
    if s: "ib_stream raw_file raw_pos raw_ok f s" for s
  proof (cases "length (ib_buf s) \<le> ib_pos s")
    case True
    then have "ib_remain s = 0" by (simp add: ib_remain_def)
    moreover have "0 < ib_size s" using s by (simp add: ib_stream_def ib_invar_def)
    ultimately show ?thesis using refill_correct [OF s] True by (auto simp: Suc_le_eq)
  next
    case False
    then show ?thesis using s stream_buf(2) [OF s] by (auto simp: ib_remain_def)
  qed
  show ?thesis
  proof (unfold_locales, goal_cases)
    case (1 s)
    then obtain s1 where s1: "(if length (ib_buf s) \<le> ib_pos s then map_option snd (ib_refill ops s) else Some s) = Some s1"
      "ib_remain s1 = 0" using step [OF 1(1)] by blast
    show ?case unfolding ib_read_byte_def s1(1) using s1(2) by (simp add: ib_take_def)
  next
    case (2 s b bs)
    then obtain s1 where s1: "(if length (ib_buf s) \<le> ib_pos s then map_option snd (ib_refill ops s) else Some s) = Some s1"
      "ib_stream raw_file raw_pos raw_ok f s1" "ib_rest raw_file s1 = b # bs" "1 \<le> ib_remain s1"
      using step [OF 2(1)] by auto
    show ?case unfolding ib_read_byte_def s1(1) using take_correct [OF s1(2,4)] s1(3) by (auto simp: reads_def)
  qed
qed

text \<open>Reading directly into the caller's memory, behind the buffer.\<close>

lemma read_direct:
  assumes "ib_stream raw_file raw_pos raw_ok f s" "ib_remain s = 0"
  shows "\<exists>b r. read_internal ops n (ib_raw s) = Some (b, r) \<and> b = take n (ib_rest raw_file s) \<and>
    ib_stream raw_file raw_pos raw_ok f
      (s\<lparr>ib_raw := r, ib_start := ib_start s + (ib_pos s + length b), ib_buf := [], ib_pos := 0\<rparr>) \<and>
    ib_rest raw_file (s\<lparr>ib_raw := r, ib_start := ib_start s + (ib_pos s + length b), ib_buf := [], ib_pos := 0\<rparr>) =
      drop n (ib_rest raw_file s)"
proof -
  have s: "raw_ok (ib_raw s)" "0 < ib_size s" "raw_pos (ib_raw s) = ib_file_pointer s" "raw_file (ib_raw s) = f"
    "ib_file_pointer s \<le> length f"
    using assms by (auto simp: ib_stream_def ib_invar_def ib_file_def ib_remain_def ib_file_pointer_def)
  have rest: "ib_rest raw_file s = drop (ib_file_pointer s) f" using s(4) by (simp add: ib_rest_def ib_file_def)
  from read_law [OF s(1), of n] s rest obtain r where
    r: "read_internal ops n (ib_raw s) = Some (take n (ib_rest raw_file s), r)" "raw_ok r" "raw_file r = f"
      "raw_pos r = min (ib_file_pointer s + n) (length f)" by auto
  let ?b = "take n (ib_rest raw_file s)"
  have p: "raw_pos r = ib_file_pointer s + length ?b" "ib_file_pointer s + length ?b \<le> length f"
    using r(4) s(5) rest by (auto simp: min_def)
  have "drop (ib_file_pointer s + length ?b) f = drop n (drop (ib_file_pointer s) f)"
    using rest by (cases "n \<le> length (ib_rest raw_file s)") (auto simp: ac_simps)
  then show ?thesis using r p s(2,4) rest
    by (auto simp: ib_stream_def ib_invar_def ib_file_def ib_rest_def ib_file_pointer_def add.assoc)
qed

lemma read_bytes_correct:
  assumes "ib_stream raw_file raw_pos raw_ok f s"
  shows "reads (ib_stream raw_file raw_pos raw_ok f) (ib_rest raw_file) (ib_read_bytes ops n s)
    (Some (take n (ib_rest raw_file s), drop n (ib_rest raw_file s)))"
proof -
  let ?rest = "ib_rest raw_file s" and ?m = "min n (ib_remain s)"
  obtain s1 where s1: "ib_take ?m s = Some (take ?m ?rest, s1)" "ib_stream raw_file raw_pos raw_ok f s1"
    "ib_rest raw_file s1 = drop ?m ?rest" "ib_remain s1 = ib_remain s - ?m" "ib_size s1 = ib_size s"
    using take_correct [OF assms, of ?m] by (auto simp: reads_def ib_take_def ib_remain_def)
  show ?thesis
  proof (cases "?m = n")
    case True
    with s1 show ?thesis by (simp add: ib_read_bytes_def reads_def Let_def)
  next
    case False
    then have m: "?m = ib_remain s" "ib_remain s1 = 0" using s1(4) by (auto simp: min_def split: if_splits)
    have app: "take n ?rest = take ?m ?rest @ take (n - ?m) (drop ?m ?rest)"
      using False m by (simp add: take_add [symmetric])
    show ?thesis
    proof (cases "n - ?m < ib_size s")
      case True
      obtain s2 where s2: "ib_refill ops s1 = Some (min (ib_size s) (length (drop ?m ?rest)), s2)"
        "ib_stream raw_file raw_pos raw_ok f s2" "ib_rest raw_file s2 = drop ?m ?rest"
        "ib_remain s2 = min (ib_size s) (length (drop ?m ?rest))"
        using refill_correct [OF s1(2) m(2)] s1(3,5) by auto
      let ?k = "min (n - ?m) (min (ib_size s) (length (drop ?m ?rest)))"
      have k: "take ?k (drop ?m ?rest) = take (n - ?m) (drop ?m ?rest)" "drop ?k (drop ?m ?rest) = drop (n - ?m) (drop ?m ?rest)"
        using True by (auto simp: min_def)
      obtain s3 where s3: "ib_take ?k s2 = Some (take (n - ?m) (drop ?m ?rest), s3)" "ib_stream raw_file raw_pos raw_ok f s3"
        "ib_rest raw_file s3 = drop (n - ?m) (drop ?m ?rest)"
      proof -
        have "?k \<le> ib_remain s2" unfolding s2(4) by (rule min.cobounded2)
        from take_correct [OF s2(2) this] show ?thesis
          unfolding s2(3) k reads_def by (simp only: option.case prod.case) (blast intro: that)
      qed
      have "ib_read_bytes ops n s = Some (take ?m ?rest @ take (n - ?m) (drop ?m ?rest), s3)"
        unfolding ib_read_bytes_def Let_def s1(1) using False True s1(5) s2(1) s3(1) by (simp del: drop_drop)
      moreover have "drop (n - ?m) (drop ?m ?rest) = drop n ?rest" by simp
      ultimately show ?thesis using s3(2,3) unfolding app reads_def by simp
    next
      case nt: False
      from read_direct [OF s1(2) m(2), of "n - ?m"] obtain b r where
        d: "read_internal ops (n - ?m) (ib_raw s1) = Some (b, r)" "b = take (n - ?m) (drop ?m ?rest)"
        and st: "ib_stream raw_file raw_pos raw_ok f
          (s1\<lparr>ib_raw := r, ib_start := ib_start s1 + (ib_pos s1 + length b), ib_buf := [], ib_pos := 0\<rparr>)"
        "ib_rest raw_file (s1\<lparr>ib_raw := r, ib_start := ib_start s1 + (ib_pos s1 + length b), ib_buf := [], ib_pos := 0\<rparr>) =
          drop n ?rest" using s1(3) by auto
      have "ib_read_bytes ops n s = Some (take ?m ?rest @ b,
          s1\<lparr>ib_raw := r, ib_start := ib_start s1 + (ib_pos s1 + length b), ib_buf := [], ib_pos := 0\<rparr>)"
        unfolding ib_read_bytes_def Let_def s1(1) using False nt s1(5) d(1) by auto
      then show ?thesis using st unfolding app d(2) [symmetric] reads_def by simp
    qed
  qed
qed

lemma seek_correct:
  assumes "ib_stream raw_file raw_pos raw_ok f s"
  shows "if p \<le> length f then \<exists>s'. ib_seek ops p s = Some s' \<and> ib_stream raw_file raw_pos raw_ok f s' \<and>
      ib_file_pointer s' = p \<and> ib_rest raw_file s' = drop p f \<and> ib_size s' = ib_size s else ib_seek ops p s = None"
proof -
  have s: "raw_ok (ib_raw s)" "raw_file (ib_raw s) = f" "ib_start s + length (ib_buf s) \<le> length f" "0 < ib_size s"
    using assms by (auto simp: ib_stream_def ib_invar_def ib_file_def)
  show ?thesis
  proof (cases "ib_start s \<le> p \<and> p < ib_start s + length (ib_buf s)")
    case True
    then show ?thesis using assms s(3)
      by (auto simp: ib_seek_def ib_stream_def ib_invar_def ib_file_def ib_file_pointer_def ib_rest_def)
  next
    case False
    then show ?thesis using seek_law [OF s(1), of p] seek_beyond [OF s(1), of p] s
      by (auto simp: ib_seek_def ib_stream_def ib_invar_def ib_file_def ib_file_pointer_def ib_rest_def)
  qed
qed

text \<open>Decoding in the buffer agrees with decoding the rest of the file.\<close>

lemma window: "window_reader (ib_read_byte ops) (ib_stream raw_file raw_pos raw_ok f) (ib_rest raw_file) ib_window ib_adv"
proof -
  have "window_reader_axioms (ib_stream raw_file raw_pos raw_ok f) (ib_rest raw_file) ib_window ib_adv"
  proof (unfold_locales, goal_cases)
    case (1 s)
    then show ?case using stream_buf(1) [OF 1] by (metis append_take_drop_id ib_window_def)
  next
    case (2 s n)
    then have "n \<le> ib_remain s" by (simp add: ib_window_def ib_remain_def)
    with take_correct [OF 2(1) this] show ?case by (auto simp: ib_take_def ib_adv_def reads_def)
  qed
  with read_byte_reader show ?thesis by (rule window_reader.intro)
qed

lemma read_vint_correct:
  assumes "ib_stream raw_file raw_pos raw_ok f s"
  shows "reads (ib_stream raw_file raw_pos raw_ok f) (ib_rest raw_file) (ib_read_vint ops s) (vread_u32 (ib_rest raw_file s))"
  unfolding ib_read_vint_def by (rule window_reader.vint_correct [OF window assms])

lemma read_vlong_correct:
  assumes "ib_stream raw_file raw_pos raw_ok f s"
  shows "reads (ib_stream raw_file raw_pos raw_ok f) (ib_rest raw_file) (ib_read_vlong ops s) (vread_u64 (ib_rest raw_file s))"
  unfolding ib_read_vlong_def by (rule window_reader.vlong_correct [OF window assms])

lemma read_byte_correct:
  assumes "ib_stream raw_file raw_pos raw_ok f s"
  shows "reads (ib_stream raw_file raw_pos raw_ok f) (ib_rest raw_file) (ib_read_byte ops s)
    (case ib_rest raw_file s of [] \<Rightarrow> None | b # bs \<Rightarrow> Some (b, bs))"
  by (rule window_reader.byte_correct [OF window assms])

lemma read_ints_correct:
  assumes "ib_stream raw_file raw_pos raw_ok f s"
  shows "reads (ib_stream raw_file raw_pos raw_ok f) (ib_rest raw_file) (ib_read_short ops s) (read_u16 (ib_rest raw_file s))"
    "reads (ib_stream raw_file raw_pos raw_ok f) (ib_rest raw_file) (ib_read_int ops s) (read_u32 (ib_rest raw_file s))"
    "reads (ib_stream raw_file raw_pos raw_ok f) (ib_rest raw_file) (ib_read_long ops s) (read_u64 (ib_rest raw_file s))"
  unfolding ib_read_short_def ib_read_int_def ib_read_long_def by (rule window_reader.ints_correct [OF window assms])+

text \<open>\<open>read_buffer\<close> hands out the bytes when the buffer can hold them, and changes nothing otherwise.\<close>

lemma read_buffer_correct:
  assumes "ib_stream raw_file raw_pos raw_ok f s"
  shows "if \<not> persistent \<and> (n \<le> ib_remain s \<or> n \<le> min (ib_size s) (length (ib_rest raw_file s)))
    then \<exists>s'. ib_read_buffer ops n persistent s = Some (Some (take n (ib_rest raw_file s)), s') \<and>
      ib_stream raw_file raw_pos raw_ok f s' \<and> ib_rest raw_file s' = drop n (ib_rest raw_file s)
    else ib_read_buffer ops n persistent s = Some (None, s)"
proof (cases "\<not> persistent \<and> \<not> n \<le> ib_remain s \<and> n \<le> min (ib_size s) (length (ib_rest raw_file s))")
  case False
  have "length_of ops (ib_raw s) - ib_file_pointer s = length (ib_rest raw_file s)"
    using assms length_law [of "ib_raw s"] by (simp add: ib_stream_def ib_invar_def ib_file_def ib_rest_def)
  with False take_correct [OF assms, of n] show ?thesis by (auto simp: ib_read_buffer_def reads_def)
next
  case True
  have s: "raw_ok (ib_raw s)" "0 < ib_size s" "raw_file (ib_raw s) = f" "ib_file_pointer s < length f"
    and len: "length_of ops (ib_raw s) - ib_file_pointer s = length (ib_rest raw_file s)"
    using assms True length_law [of "ib_raw s"] by (auto simp: ib_stream_def ib_invar_def ib_file_def ib_rest_def)
  from seek_law [OF s(1), of "ib_file_pointer s"] s obtain r where
    r: "seek_internal ops (ib_file_pointer s) (ib_raw s) = Some r" "raw_ok r" "raw_file r = f" "raw_pos r = ib_file_pointer s"
    by auto
  let ?s = "s\<lparr>ib_raw := r\<rparr>"
  have fp: "ib_file_pointer ?s = ib_file_pointer s" "ib_rest raw_file ?s = ib_rest raw_file s"
    using r(3) s(3) by (simp_all add: ib_file_pointer_def ib_rest_def ib_file_def)
  obtain s1 where s1: "ib_refill ops ?s = Some (min (ib_size s) (length (ib_rest raw_file s)), s1)"
    "ib_stream raw_file raw_pos raw_ok f s1" "ib_rest raw_file s1 = ib_rest raw_file s"
    "ib_remain s1 = min (ib_size s) (length (ib_rest raw_file s))"
    using refill_at [of ?s f] r s fp by auto
  with True r(1) take_correct [OF s1(2), of n] len show ?thesis by (auto simp: ib_read_buffer_def reads_def)
qed

lemma skip_correct:
  assumes "ib_stream raw_file raw_pos raw_ok f s"
  shows "if n \<le> length (ib_rest raw_file s) then \<exists>s'. ib_skip ops n s = Some s' \<and> ib_stream raw_file raw_pos raw_ok f s' \<and>
      ib_rest raw_file s' = drop n (ib_rest raw_file s) else ib_skip ops n s = None"
proof -
  have "ib_file_pointer s + n \<le> length f \<longleftrightarrow> n \<le> length (ib_rest raw_file s)" using stream_buf(3) [OF assms] by linarith
  moreover have "drop (ib_file_pointer s + n) f = drop n (ib_rest raw_file s)"
    using assms by (simp add: ib_rest_def ib_stream_def add.commute)
  ultimately show ?thesis using seek_correct [OF assms, of "ib_file_pointer s + n"] by (auto simp: ib_skip_def)
qed

lemma eof_correct: "ib_stream raw_file raw_pos raw_ok f s \<Longrightarrow> ib_eof ops s \<longleftrightarrow> ib_rest raw_file s = []"
  using length_law [of "ib_raw s"] by (simp add: ib_eof_def ib_rest_def ib_file_def ib_stream_def ib_invar_def)

lemma read_bytes_at_correct:
  assumes "ib_stream raw_file raw_pos raw_ok f s" "p \<le> length f"
  shows "reads (ib_stream raw_file raw_pos raw_ok f) (ib_rest raw_file) (ib_read_bytes_at ops p n s)
    (Some (take n (drop p f), drop n (drop p f)))"
proof -
  obtain s1 where s1: "ib_seek ops p s = Some s1" "ib_stream raw_file raw_pos raw_ok f s1" "ib_rest raw_file s1 = drop p f"
    using seek_correct [OF assms(1), of p] assms(2) by auto
  from read_bytes_correct [OF s1(2), of n] s1(1) show ?thesis unfolding s1(3) by (simp add: ib_read_bytes_at_def)
qed

lemma read_buffer_at_correct:
  assumes "ib_stream raw_file raw_pos raw_ok f s"
  shows "\<exists>r s'. ib_read_buffer_at ops p n persistent s = Some (r, s') \<and> ib_stream raw_file raw_pos raw_ok f s' \<and>
    (if persistent \<or> ib_size s < n \<or> length f < p + n then r = None \<and> s' = s
     else r = Some (take n (drop p f)) \<and> ib_rest raw_file s' = drop (p + n) f)"
proof (cases "persistent \<or> ib_size s < n \<or> length f < p + n")
  case True
  with assms length_law [of "ib_raw s"] show ?thesis
    by (auto simp: ib_read_buffer_at_def ib_stream_def ib_invar_def ib_file_def)
next
  case False
  then obtain s1 where s1: "ib_seek ops p s = Some s1" "ib_stream raw_file raw_pos raw_ok f s1"
    "ib_rest raw_file s1 = drop p f" "ib_size s1 = ib_size s"
    using seek_correct [OF assms, of p] by auto
  have "ib_read_buffer_at ops p n persistent s = ib_read_buffer ops n False s1"
    using False s1(1) assms length_law [of "ib_raw s"]
    by (simp add: ib_read_buffer_at_def ib_stream_def ib_invar_def ib_file_def)
  moreover have "n \<le> min (ib_size s1) (length (ib_rest raw_file s1))" using False s1(3,4) by auto
  ultimately show ?thesis
    using read_buffer_correct [OF s1(2), of False n] False s1(3) by (auto simp: add.commute)
qed

end

section \<open>Properties\<close>

text \<open>
  C14: over a derived class that reads a file, every reading operation delivers what
  decoding the bytes from the current position on gives and advances by exactly that many bytes, wherever
  the buffer boundaries fall; at the end of the file it fails exactly when the bytes are missing.
  \<open>read_bytes\<close> delivers the bytes that are left when there are fewer.
\<close>

theorem input_reads:
  assumes "raw_source ops raw_file raw_pos raw_ok" "ib_stream raw_file raw_pos raw_ok f s"
  shows "reads (ib_stream raw_file raw_pos raw_ok f) (ib_rest raw_file) (ib_read_byte ops s)
      (case ib_rest raw_file s of [] \<Rightarrow> None | b # bs \<Rightarrow> Some (b, bs)) \<and>
    reads (ib_stream raw_file raw_pos raw_ok f) (ib_rest raw_file) (ib_read_bytes ops n s)
      (Some (take n (ib_rest raw_file s), drop n (ib_rest raw_file s))) \<and>
    reads (ib_stream raw_file raw_pos raw_ok f) (ib_rest raw_file) (ib_read_short ops s) (read_u16 (ib_rest raw_file s)) \<and>
    reads (ib_stream raw_file raw_pos raw_ok f) (ib_rest raw_file) (ib_read_int ops s) (read_u32 (ib_rest raw_file s)) \<and>
    reads (ib_stream raw_file raw_pos raw_ok f) (ib_rest raw_file) (ib_read_long ops s) (read_u64 (ib_rest raw_file s)) \<and>
    reads (ib_stream raw_file raw_pos raw_ok f) (ib_rest raw_file) (ib_read_vint ops s) (vread_u32 (ib_rest raw_file s)) \<and>
    reads (ib_stream raw_file raw_pos raw_ok f) (ib_rest raw_file) (ib_read_vlong ops s) (vread_u64 (ib_rest raw_file s))"
  using raw_source.read_byte_correct [OF assms] raw_source.read_bytes_correct [OF assms]
    raw_source.read_ints_correct [OF assms] raw_source.read_vint_correct [OF assms]
    raw_source.read_vlong_correct [OF assms] by blast


text \<open>A file in memory.\<close>

definition list_source :: "(u8 list \<times> nat) in_ops" where
  "list_source = \<lparr>
     read_internal = \<lambda>n (f, p). Some (take n (drop p f), (f, min (p + n) (length f))),
     seek_internal = \<lambda>p (f, _). if length f < p then None else Some (f, p),
     length_of = \<lambda>(f, _). length f\<rparr>"

interpretation list_source: raw_source list_source fst snd "\<lambda>_. True"
  by unfold_locales (auto simp: list_source_def)

lemma list_source_start: "0 < sz \<Longrightarrow> ib_stream fst snd (\<lambda>_. True) f (ib_reset sz 0 (f, 0))"
  by (simp add: ib_reset_def ib_stream_def ib_invar_def ib_file_def)

text \<open>Four bytes behind a buffer of two.\<close>

definition sample_input :: "(u8 list \<times> nat) in_state" where
  "sample_input = ib_reset 2 0 ([0xAC, 2, 0, 7], 0)"

lemma sample_input_stream: "ib_stream fst snd (\<lambda>_. True) [0xAC, 2, 0, 7] sample_input"
  by (simp add: sample_input_def ib_reset_def ib_stream_def ib_invar_def ib_file_def)

lemma sample_input_rest: "ib_rest fst sample_input = [0xAC, 2, 0, 7]"
  by (simp add: sample_input_def ib_reset_def ib_rest_def ib_file_def ib_file_pointer_def)

theorem input_reads_witness:
  "\<exists>s s'. ib_read_vint list_source sample_input = Some (300, s) \<and> ib_rest fst s = [0, 7] \<and>
     ib_read_bytes list_source 3 sample_input = Some ([0xAC, 2, 0], s')"
proof -
  have "vread_u32 [0xAC, 2, 0, 7] = Some (300, [0, 7])" by code_simp
  then show ?thesis
    using input_reads [OF list_source.raw_source_axioms sample_input_stream, of 3]
    unfolding sample_input_rest by (auto simp: reads_def)
qed


end
