(* ===== verification/BufferedOutput.thy ===== *)
theory BufferedOutput
  imports Bytes "HOL-Library.Monad_Syntax"
begin

text \<open>
  Buffered output, \<open>buffered_index_output\<close> of \<open>core/store/data_output.cpp\<close>. The virtual
  \<open>flush_buffer\<close> of the derived class is an argument of every operation; it acts on a state of
  its own and may fail, which is an exception in the source and \<^term>\<open>None\<close> here, as is a store
  behind the end of the buffer. The locale \<open>raw_sink\<close> states what a derived class promises.
\<close>

section \<open>State and operations\<close>

text \<open>
  \<open>buf_\<close> with its size, the distance of \<open>pos_\<close> from it, \<open>start_\<close>, and the state of the derived
  class. \<open>end_\<close> is always \<open>buf_ + buf_size_\<close>.
\<close>

record 'r out_state =
  ob_buf :: "u8 list"
  ob_pos :: nat
  ob_start :: nat
  ob_raw :: 'r

definition ob_reset :: "u8 list \<Rightarrow> 'r \<Rightarrow> 'r out_state" where
  "ob_reset buf raw = \<lparr>ob_buf = buf, ob_pos = 0, ob_start = 0, ob_raw = raw\<rparr>"

definition ob_remain :: "'r out_state \<Rightarrow> nat" where
  "ob_remain s = length (ob_buf s) - ob_pos s"

definition ob_file_pointer :: "'r out_state \<Rightarrow> nat" where
  "ob_file_pointer s = ob_start s + ob_pos s"

text \<open>Storing bytes at \<open>pos_\<close> and advancing it: \<open>*pos_++ = b\<close>, and \<open>memcpy\<close> followed by \<open>pos_ += n\<close>.\<close>

definition ob_put :: "u8 list \<Rightarrow> 'r out_state \<Rightarrow> 'r out_state option" where
  "ob_put bs s =
     (if length bs \<le> ob_remain s then
        Some (s\<lparr>ob_buf := take (ob_pos s) (ob_buf s) @ bs @ drop (ob_pos s + length bs) (ob_buf s),
                ob_pos := ob_pos s + length bs\<rparr>)
      else None)"

definition ob_flush :: "(u8 list \<Rightarrow> 'r \<Rightarrow> 'r option) \<Rightarrow> 'r out_state \<Rightarrow> 'r out_state option" where
  "ob_flush flush_buffer s =
     (let size = ob_pos s in
      if size \<noteq> 0 then do {
        r \<leftarrow> flush_buffer (take size (ob_buf s)) (ob_raw s);
        Some (s\<lparr>ob_raw := r, ob_start := ob_start s + size, ob_pos := 0\<rparr>)
      } else Some s)"

definition ob_write_byte :: "(u8 list \<Rightarrow> 'r \<Rightarrow> 'r option) \<Rightarrow> u8 \<Rightarrow> 'r out_state \<Rightarrow> 'r out_state option" where
  "ob_write_byte flush_buffer b s = do {
     s1 \<leftarrow> (if length (ob_buf s) \<le> ob_pos s then ob_flush flush_buffer s else Some s);
     ob_put [b] s1
   }"

text \<open>The stream as an output iterator: \<open>irs::write(*this, v)\<close> and \<open>irs::vwrite(*this, v)\<close> send bytes one by one.\<close>

fun ob_emit :: "(u8 list \<Rightarrow> 'r \<Rightarrow> 'r option) \<Rightarrow> u8 list \<Rightarrow> 'r out_state \<Rightarrow> 'r out_state option" where
  "ob_emit flush_buffer [] s = Some s"
| "ob_emit flush_buffer (b # bs) s = do {
     s1 \<leftarrow> ob_write_byte flush_buffer b s;
     ob_emit flush_buffer bs s1
   }"

text \<open>The loop of \<open>write_bytes\<close> over slices of the input.\<close>

partial_function (option) ob_slices ::
  "(u8 list \<Rightarrow> 'r \<Rightarrow> 'r option) \<Rightarrow> u8 list \<Rightarrow> nat \<Rightarrow> 'r out_state \<Rightarrow> 'r out_state option" where
  "ob_slices flush_buffer bs left s =
     (if bs = [] then Some s
      else do {
        let n = min (length bs) left;
        s1 \<leftarrow> ob_put (take n bs) s;
        if ob_pos s1 = length (ob_buf s1) then do {
          s2 \<leftarrow> ob_flush flush_buffer s1;
          ob_slices flush_buffer (drop n bs) (length (ob_buf s1)) s2
        } else ob_slices flush_buffer (drop n bs) (left - n) s1
      })"

declare ob_slices.simps [code]

definition ob_write_bytes :: "(u8 list \<Rightarrow> 'r \<Rightarrow> 'r option) \<Rightarrow> u8 list \<Rightarrow> 'r out_state \<Rightarrow> 'r out_state option" where
  "ob_write_bytes flush_buffer b s =
     (let left = ob_remain s in
      if length b < left then ob_put b s
      else if length (ob_buf s) \<le> length b then do {
        s1 \<leftarrow> (if 0 < ob_pos s then ob_flush flush_buffer s else Some s);
        r \<leftarrow> flush_buffer b (ob_raw s1);
        Some (s1\<lparr>ob_raw := r, ob_start := ob_start s1 + length b\<rparr>)
      } else ob_slices flush_buffer b left s)"

text \<open>Integers: directly into the buffer when the longest encoding fits, byte by byte otherwise.\<close>

definition ob_write_fixed ::
  "(u8 list \<Rightarrow> 'r \<Rightarrow> 'r option) \<Rightarrow> nat \<Rightarrow> u8 list \<Rightarrow> 'r out_state \<Rightarrow> 'r out_state option" where
  "ob_write_fixed flush_buffer max_size bs s =
     (if ob_remain s < max_size then ob_emit flush_buffer bs s else ob_put bs s)"

definition ob_write_short :: "(u8 list \<Rightarrow> 'r \<Rightarrow> 'r option) \<Rightarrow> u16 \<Rightarrow> 'r out_state \<Rightarrow> 'r out_state option" where
  "ob_write_short flush_buffer v s = ob_write_fixed flush_buffer 2 (write_u16 v) s"

definition ob_write_int :: "(u8 list \<Rightarrow> 'r \<Rightarrow> 'r option) \<Rightarrow> u32 \<Rightarrow> 'r out_state \<Rightarrow> 'r out_state option" where
  "ob_write_int flush_buffer v s = ob_write_fixed flush_buffer 4 (write_u32 v) s"

definition ob_write_long :: "(u8 list \<Rightarrow> 'r \<Rightarrow> 'r option) \<Rightarrow> u64 \<Rightarrow> 'r out_state \<Rightarrow> 'r out_state option" where
  "ob_write_long flush_buffer v s = ob_write_fixed flush_buffer 8 (write_u64 v) s"

definition ob_write_vint :: "(u8 list \<Rightarrow> 'r \<Rightarrow> 'r option) \<Rightarrow> u32 \<Rightarrow> 'r out_state \<Rightarrow> 'r out_state option" where
  "ob_write_vint flush_buffer v s = ob_write_fixed flush_buffer 5 (vwrite_u32 v) s"

definition ob_write_vlong :: "(u8 list \<Rightarrow> 'r \<Rightarrow> 'r option) \<Rightarrow> u64 \<Rightarrow> 'r out_state \<Rightarrow> 'r out_state option" where
  "ob_write_vlong flush_buffer v s = ob_write_fixed flush_buffer 10 (vwrite_u64 v) s"

definition ob_close :: "(u8 list \<Rightarrow> 'r \<Rightarrow> 'r option) \<Rightarrow> 'r out_state \<Rightarrow> (nat \<times> 'r out_state) option" where
  "ob_close flush_buffer s = do {
     r \<leftarrow> (if 0 < ob_pos s then flush_buffer (take (ob_pos s) (ob_buf s)) (ob_raw s) else Some (ob_raw s));
     let size = ob_file_pointer s;
     Some (size, s\<lparr>ob_raw := r, ob_start := 0, ob_pos := 0\<rparr>)
   }"

section \<open>Sequences of writes\<close>

text \<open>The operations of the interface \<open>data_output\<close> and \<open>flush\<close>, and the bytes each one stands for.\<close>

datatype out_op =
    WriteByte u8
  | WriteBytes "u8 list"
  | WriteShort u16
  | WriteInt u32
  | WriteLong u64
  | WriteVint u32
  | WriteVlong u64
  | Flush

fun op_bytes :: "out_op \<Rightarrow> u8 list" where
  "op_bytes (WriteByte b) = [b]"
| "op_bytes (WriteBytes bs) = bs"
| "op_bytes (WriteShort v) = write_u16 v"
| "op_bytes (WriteInt v) = write_u32 v"
| "op_bytes (WriteLong v) = write_u64 v"
| "op_bytes (WriteVint v) = vwrite_u32 v"
| "op_bytes (WriteVlong v) = vwrite_u64 v"
| "op_bytes Flush = []"

fun ob_op :: "(u8 list \<Rightarrow> 'r \<Rightarrow> 'r option) \<Rightarrow> out_op \<Rightarrow> 'r out_state \<Rightarrow> 'r out_state option" where
  "ob_op flush_buffer (WriteByte b) s = ob_write_byte flush_buffer b s"
| "ob_op flush_buffer (WriteBytes bs) s = ob_write_bytes flush_buffer bs s"
| "ob_op flush_buffer (WriteShort v) s = ob_write_short flush_buffer v s"
| "ob_op flush_buffer (WriteInt v) s = ob_write_int flush_buffer v s"
| "ob_op flush_buffer (WriteLong v) s = ob_write_long flush_buffer v s"
| "ob_op flush_buffer (WriteVint v) s = ob_write_vint flush_buffer v s"
| "ob_op flush_buffer (WriteVlong v) s = ob_write_vlong flush_buffer v s"
| "ob_op flush_buffer Flush s = ob_flush flush_buffer s"

fun ob_run :: "(u8 list \<Rightarrow> 'r \<Rightarrow> 'r option) \<Rightarrow> out_op list \<Rightarrow> 'r out_state \<Rightarrow> 'r out_state option" where
  "ob_run flush_buffer [] s = Some s"
| "ob_run flush_buffer (x # xs) s = do { s1 \<leftarrow> ob_op flush_buffer x s; ob_run flush_buffer xs s1 }"

section \<open>What a derived class promises\<close>

text \<open>\<open>flush_buffer\<close> appends the bytes and keeps the invariant of the derived class, or fails.\<close>

locale raw_sink =
  fixes flush_buffer :: "u8 list \<Rightarrow> 'r \<Rightarrow> 'r option"
    and raw_contents :: "'r \<Rightarrow> u8 list" and raw_ok :: "'r \<Rightarrow> bool"
  assumes flush_law: "flush_buffer bs r = Some r' \<Longrightarrow> raw_ok r \<Longrightarrow> raw_contents r' = raw_contents r @ bs \<and> raw_ok r'"

text \<open>A sink that never fails.\<close>

locale reliable_sink = raw_sink +
  assumes flush_total: "\<exists>r'. flush_buffer bs r = Some r'"

section \<open>The stream of bytes behind the buffer\<close>

definition ob_contents :: "('r \<Rightarrow> u8 list) \<Rightarrow> 'r out_state \<Rightarrow> u8 list" where
  "ob_contents raw_contents s = raw_contents (ob_raw s) @ take (ob_pos s) (ob_buf s)"

definition ob_invar :: "('r \<Rightarrow> u8 list) \<Rightarrow> ('r \<Rightarrow> bool) \<Rightarrow> 'r out_state \<Rightarrow> bool" where
  "ob_invar raw_contents raw_ok s \<longleftrightarrow> ob_buf s \<noteq> [] \<and> ob_pos s \<le> length (ob_buf s) \<and>
     ob_start s = length (raw_contents (ob_raw s)) \<and> raw_ok (ob_raw s)"

text \<open>\<open>ob_appends c ok s bs r\<close>: if \<open>r\<close> is a result it is \<open>s\<close> with \<open>bs\<close> appended and the invariant kept.\<close>

definition ob_appends :: "('r \<Rightarrow> u8 list) \<Rightarrow> ('r \<Rightarrow> bool) \<Rightarrow> 'r out_state \<Rightarrow> u8 list \<Rightarrow> 'r out_state option \<Rightarrow> bool" where
  "ob_appends raw_contents raw_ok s bs res \<longleftrightarrow>
     (case res of None \<Rightarrow> True
      | Some s' \<Rightarrow> ob_contents raw_contents s' = ob_contents raw_contents s @ bs \<and>
          ob_invar raw_contents raw_ok s' \<and> length (ob_buf s') = length (ob_buf s))"

lemma bind_Some_map: "a \<bind> (\<lambda>x. Some (f x)) = map_option f a"
  by (cases a) simp_all

lemma ob_appendsI:
  "(\<And>s'. res = Some s' \<Longrightarrow> ob_contents c s' = ob_contents c s @ bs \<and> ob_invar c ok s' \<and> length (ob_buf s') = length (ob_buf s)) \<Longrightarrow>
   ob_appends c ok s bs res"
  by (simp add: ob_appends_def split: option.split)

lemma ob_appendsD:
  "ob_appends c ok s bs (Some s') \<Longrightarrow>
   ob_contents c s' = ob_contents c s @ bs \<and> ob_invar c ok s' \<and> length (ob_buf s') = length (ob_buf s)"
  by (simp add: ob_appends_def)

lemma ob_appends_bind:
  assumes "ob_appends c ok s bs1 r" "\<And>s1. r = Some s1 \<Longrightarrow> ob_invar c ok s1 \<Longrightarrow> ob_appends c ok s1 bs2 (f s1)"
  shows "ob_appends c ok s (bs1 @ bs2) (r \<bind> f)"
  using assms by (cases r) (auto simp: ob_appends_def split: option.splits)

lemma ob_put_appends:
  assumes "ob_invar c ok s"
  shows "ob_appends c ok s bs (ob_put bs s)"
  using assms by (intro ob_appendsI) (auto simp: ob_put_def ob_remain_def ob_contents_def ob_invar_def split: if_splits)

lemma ob_put_total: "length bs \<le> ob_remain s \<Longrightarrow> \<exists>s'. ob_put bs s = Some s' \<and> length (ob_buf s') = length (ob_buf s)
   \<and> ob_pos s' = ob_pos s + length bs"
  by (auto simp: ob_put_def ob_remain_def)

context raw_sink
begin

lemma flush_appends:
  assumes "ob_invar raw_contents raw_ok s"
  shows "ob_appends raw_contents raw_ok s [] (ob_flush flush_buffer s)"
  using assms
  by (intro ob_appendsI)
     (auto simp: ob_flush_def ob_contents_def ob_invar_def Let_def dest!: flush_law split: if_splits option.splits
       elim!: bind_eq_Some_conv [THEN iffD1, elim_format])

lemma flush_pos: "ob_flush flush_buffer s = Some s' \<Longrightarrow> ob_pos s' = 0"
  by (auto simp: ob_flush_def Let_def bind_eq_Some_conv split: if_splits)

lemma write_byte_appends:
  assumes "ob_invar raw_contents raw_ok s"
  shows "ob_appends raw_contents raw_ok s [b] (ob_write_byte flush_buffer b s)"
proof -
  have "ob_appends raw_contents raw_ok s [] (if length (ob_buf s) \<le> ob_pos s then ob_flush flush_buffer s else Some s)"
    using assms flush_appends [OF assms] by (auto simp: ob_appends_def)
  from ob_appends_bind [OF this ob_put_appends] show ?thesis by (simp add: ob_write_byte_def)
qed

lemma emit_appends:
  assumes "ob_invar raw_contents raw_ok s"
  shows "ob_appends raw_contents raw_ok s bs (ob_emit flush_buffer bs s)"
  using assms
proof (induction bs arbitrary: s)
  case (Cons b bs)
  from ob_appends_bind [OF write_byte_appends [OF Cons.prems] Cons.IH] show ?case by simp
qed (simp add: ob_appends_def)

text \<open>The slice loop appends; it can only fail where \<open>flush_buffer\<close> fails.\<close>

lemma slices_appends:
  assumes "ob_invar raw_contents raw_ok s" "left = ob_remain s"
  shows "ob_appends raw_contents raw_ok s bs (ob_slices flush_buffer bs left s) \<and>
    ((\<forall>bs r. flush_buffer bs r \<noteq> None) \<longrightarrow> ob_slices flush_buffer bs left s \<noteq> None)"
  using assms
proof (induction "2 * length bs + of_bool (left = 0)" arbitrary: bs left s rule: less_induct)
  case less
  show ?case
  proof (cases "bs = []")
    case True
    then show ?thesis using less.prems by (subst (1 2) ob_slices.simps) (simp add: ob_appends_def)
  next
    case False
    let ?n = "min (length bs) left"
    obtain s1 where s1: "ob_put (take ?n bs) s = Some s1" "length (ob_buf s1) = length (ob_buf s)"
      "ob_pos s1 = ob_pos s + ?n"
      using ob_put_total [of "take ?n bs" s] less.prems(2) by auto
    have a1: "ob_appends raw_contents raw_ok s (take ?n bs) (Some s1)"
      using ob_put_appends [OF less.prems(1), of "take ?n bs"] s1(1) by simp
    note inv1 = ob_appendsD [OF a1]
    have buf: "0 < length (ob_buf s)" "ob_pos s \<le> length (ob_buf s)" "left = length (ob_buf s) - ob_pos s"
      using less.prems by (auto simp: ob_invar_def ob_remain_def)
    have combine: "ob_appends raw_contents raw_ok s (take ?n bs @ drop ?n bs) r"
      if "ob_appends raw_contents raw_ok s1 (drop ?n bs) r" for r
      using ob_appends_bind [OF a1, of "drop ?n bs" "\<lambda>_. r"] that by simp
    show ?thesis
    proof (cases "ob_pos s1 = length (ob_buf s1)")
      case True
      then have eq: "ob_slices flush_buffer bs left s = do {
          s2 \<leftarrow> ob_flush flush_buffer s1; ob_slices flush_buffer (drop ?n bs) (length (ob_buf s1)) s2 }"
        using False s1(1) by (subst ob_slices.simps) (simp add: Let_def)
      have dec: "2 * length (drop ?n bs) + of_bool (length (ob_buf s1) = 0) < 2 * length bs + of_bool (left = 0)"
      proof -
        have "of_bool (length (ob_buf s1) = 0) = (0 :: nat)" using buf(1) s1(2) by simp
        then show ?thesis using False by (cases "left = 0") (simp_all only: length_drop, auto)
      qed
      have step: "ob_appends raw_contents raw_ok s2 (drop ?n bs) (ob_slices flush_buffer (drop ?n bs) (length (ob_buf s1)) s2) \<and>
          ((\<forall>bs r. flush_buffer bs r \<noteq> None) \<longrightarrow> ob_slices flush_buffer (drop ?n bs) (length (ob_buf s1)) s2 \<noteq> None)"
        if "ob_flush flush_buffer s1 = Some s2" for s2
        using that flush_appends [of s1] inv1 flush_pos [OF that]
        by (intro less.hyps [OF dec]) (auto simp: ob_appends_def ob_remain_def)
      have "ob_appends raw_contents raw_ok s1 (drop ?n bs) (ob_slices flush_buffer bs left s)"
        unfolding eq using ob_appends_bind [OF flush_appends, of s1 "drop ?n bs"] inv1 step by simp
      moreover have "ob_flush flush_buffer s1 \<noteq> None" if "\<forall>bs r. flush_buffer bs r \<noteq> None"
        using that by (simp add: ob_flush_def Let_def bind_Some_map del: not_None_eq)
      ultimately show ?thesis using combine step unfolding eq by (auto simp del: not_None_eq)
    next
      case nf: False
      then have eq: "ob_slices flush_buffer bs left s = ob_slices flush_buffer (drop ?n bs) (left - ?n) s1"
        using False s1(1) by (subst ob_slices.simps) (simp add: Let_def)
      have "2 * length (drop ?n bs) + of_bool (left - ?n = 0) < 2 * length bs + of_bool (left = 0)"
        using buf s1(2,3) nf False by (cases "left = 0") auto
      moreover have "ob_invar raw_contents raw_ok s1" using inv1 by blast
      moreover have "left - ?n = ob_remain s1" using buf s1(2,3) by (simp add: ob_remain_def)
      ultimately have "ob_appends raw_contents raw_ok s1 (drop ?n bs) (ob_slices flush_buffer (drop ?n bs) (left - ?n) s1) \<and>
          ((\<forall>bs r. flush_buffer bs r \<noteq> None) \<longrightarrow> ob_slices flush_buffer (drop ?n bs) (left - ?n) s1 \<noteq> None)"
        by (rule less.hyps)
      with combine show ?thesis unfolding eq by (auto simp del: not_None_eq)
    qed
  qed
qed

lemma write_bytes_appends:
  assumes "ob_invar raw_contents raw_ok s"
  shows "ob_appends raw_contents raw_ok s bs (ob_write_bytes flush_buffer bs s)"
proof -
  have f: "ob_appends raw_contents raw_ok s [] (if 0 < ob_pos s then ob_flush flush_buffer s else Some s)"
    using assms flush_appends [OF assms] by (auto simp: ob_appends_def)
  have d: "ob_appends raw_contents raw_ok s1 bs (do {
      r \<leftarrow> flush_buffer bs (ob_raw s1); Some (s1\<lparr>ob_raw := r, ob_start := ob_start s1 + length bs\<rparr>) })"
    if "(if 0 < ob_pos s then ob_flush flush_buffer s else Some s) = Some s1" "ob_invar raw_contents raw_ok s1" for s1
    using that flush_pos [of s s1]
    by (intro ob_appendsI) (auto simp: bind_eq_Some_conv ob_contents_def ob_invar_def dest!: flush_law split: if_splits)
  from ob_appends_bind [OF f d] slices_appends [OF assms refl, of bs] ob_put_appends [OF assms, of bs]
  show ?thesis by (auto simp: ob_write_bytes_def Let_def)
qed

lemma write_fixed_appends:
  "ob_invar raw_contents raw_ok s \<Longrightarrow> ob_appends raw_contents raw_ok s bs (ob_write_fixed flush_buffer n bs s)"
  by (simp add: ob_write_fixed_def emit_appends ob_put_appends)

lemma close_correct:
  assumes "ob_invar raw_contents raw_ok s" "ob_close flush_buffer s = Some (n, s')"
  shows "raw_contents (ob_raw s') = ob_contents raw_contents s \<and> n = length (ob_contents raw_contents s) \<and> raw_ok (ob_raw s')"
  using assms
  by (auto simp: ob_close_def bind_eq_Some_conv ob_contents_def ob_invar_def ob_file_pointer_def Let_def
      dest!: flush_law split: if_splits)

lemmas ob_write_defs = ob_write_short_def ob_write_int_def ob_write_long_def ob_write_vint_def ob_write_vlong_def

lemma op_appends: "ob_invar raw_contents raw_ok s \<Longrightarrow> ob_appends raw_contents raw_ok s (op_bytes x) (ob_op flush_buffer x s)"
  by (cases x) (simp_all add: write_byte_appends write_bytes_appends flush_appends write_fixed_appends ob_write_defs)

lemma run_appends:
  "ob_invar raw_contents raw_ok s \<Longrightarrow>
   ob_appends raw_contents raw_ok s (concat (map op_bytes xs)) (ob_run flush_buffer xs s)"
proof (induction xs arbitrary: s)
  case (Cons x xs)
  from ob_appends_bind [OF op_appends [OF Cons.prems] Cons.IH] show ?case by simp
qed (simp add: ob_appends_def)

lemma reset_invar:
  "buf \<noteq> [] \<Longrightarrow> raw_contents r = [] \<Longrightarrow> raw_ok r \<Longrightarrow>
   ob_invar raw_contents raw_ok (ob_reset buf r) \<and> ob_contents raw_contents (ob_reset buf r) = []"
  by (simp add: ob_invar_def ob_reset_def ob_contents_def)

lemma file_pointer_length:
  "ob_invar raw_contents raw_ok s \<Longrightarrow> ob_file_pointer s = length (ob_contents raw_contents s)"
  by (simp add: ob_invar_def ob_file_pointer_def ob_contents_def)

end

context reliable_sink
begin

lemma flush_buffer_some: "flush_buffer bs r \<noteq> None"
  using flush_total [of bs r] by auto

lemma flush_some: "ob_flush flush_buffer s \<noteq> None"
  using flush_buffer_some by (simp add: ob_flush_def Let_def bind_Some_map del: not_None_eq)

lemma write_byte_some: "ob_invar raw_contents raw_ok s \<Longrightarrow> ob_write_byte flush_buffer b s \<noteq> None"
  using flush_appends [of s] flush_some [of s] flush_pos [of s]
  by (auto simp: ob_write_byte_def ob_put_def ob_remain_def ob_appends_def ob_invar_def Suc_le_eq split: if_splits)

lemma emit_some: "ob_invar raw_contents raw_ok s \<Longrightarrow> ob_emit flush_buffer bs s \<noteq> None"
proof (induction bs arbitrary: s)
  case (Cons b bs)
  then show ?case using write_byte_some [of s b] write_byte_appends [of s b] by (auto simp: ob_appends_def)
qed simp

lemma write_bytes_some: "ob_invar raw_contents raw_ok s \<Longrightarrow> ob_write_bytes flush_buffer bs s \<noteq> None"
proof -
  assume inv: "ob_invar raw_contents raw_ok s"
  show ?thesis
    using slices_appends [OF inv refl, of bs] flush_buffer_some flush_some [of s] ob_put_total [of bs s]
    by (auto simp: ob_write_bytes_def Let_def bind_Some_map bind_eq_None_conv simp del: not_None_eq)
qed

lemma write_fixed_some: "ob_invar raw_contents raw_ok s \<Longrightarrow> length bs \<le> n \<Longrightarrow> ob_write_fixed flush_buffer n bs s \<noteq> None"
  using emit_some [of s bs] ob_put_total [of bs s] by (auto simp: ob_write_fixed_def)

lemma op_some: "ob_invar raw_contents raw_ok s \<Longrightarrow> ob_op flush_buffer x s \<noteq> None"
  using write_byte_some write_bytes_some flush_some write_fixed_some length_vwrite_bound
  by (cases x) (simp_all add: ob_write_defs write_u16_def write_u32_def write_u64_def del: not_None_eq)

lemma run_some: "ob_invar raw_contents raw_ok s \<Longrightarrow> ob_run flush_buffer xs s \<noteq> None"
proof (induction xs arbitrary: s)
  case (Cons x xs)
  then show ?case using op_some [of s x] op_appends [of s x] by (auto simp: ob_appends_def)
qed simp

lemma close_some: "ob_close flush_buffer s \<noteq> None"
  using flush_buffer_some by (auto simp: ob_close_def Let_def bind_Some_map simp del: not_None_eq)

lemma stream_correct:
  assumes "raw_ok r" "raw_contents r = []" "buf \<noteq> []"
  shows "\<exists>s s'. ob_run flush_buffer xs (ob_reset buf r) = Some s \<and>
    ob_file_pointer s = length (concat (map op_bytes xs)) \<and>
    ob_close flush_buffer s = Some (length (concat (map op_bytes xs)), s') \<and>
    raw_contents (ob_raw s') = concat (map op_bytes xs)"
proof -
  note init = reset_invar [OF assms(3,2,1)]
  obtain s where s: "ob_run flush_buffer xs (ob_reset buf r) = Some s" using run_some init by blast
  have inv: "ob_invar raw_contents raw_ok s" and c: "ob_contents raw_contents s = concat (map op_bytes xs)"
    using run_appends [of "ob_reset buf r" xs] init s by (auto simp: ob_appends_def)
  obtain n s' where "ob_close flush_buffer s = Some (n, s')" using close_some [of s] by fast
  with close_correct [OF inv this] file_pointer_length [OF inv] s c show ?thesis by auto
qed

end

section \<open>Properties\<close>

text \<open>
  C16: whatever the size of the buffer, a sequence of writes and flushes on a fresh stream
  over a sink that does not fail, followed by \<open>close\<close>, returns, leaves exactly the encoded bytes in
  the sink in order, and reports their number. Before \<open>close\<close>, \<open>file_pointer\<close> is the number of
  bytes written so far.
\<close>

theorem output_stream:
  assumes "reliable_sink flush_buffer raw_contents raw_ok" "raw_ok r" "raw_contents r = []" "buf \<noteq> []"
  shows "\<exists>s s'. ob_run flush_buffer xs (ob_reset buf r) = Some s \<and>
    ob_file_pointer s = length (concat (map op_bytes xs)) \<and>
    ob_close flush_buffer s = Some (length (concat (map op_bytes xs)), s') \<and>
    raw_contents (ob_raw s') = concat (map op_bytes xs)"
  using assms by (rule reliable_sink.stream_correct)

text \<open>A sink in memory.\<close>

interpretation list_sink: reliable_sink "\<lambda>bs r. Some (r @ bs)" "\<lambda>r. r" "\<lambda>_. True"
  by unfold_locales auto

theorem output_stream_witness:
  "\<exists>s'. ob_run (\<lambda>bs r. Some (r @ bs)) [WriteInt 1, WriteBytes [7, 8, 9], WriteVint 300] (ob_reset [0, 0] []) \<bind>
     ob_close (\<lambda>bs r. Some (r @ bs)) = Some (9, s') \<and> ob_raw s' = [0, 0, 0, 1, 7, 8, 9, 172, 2]"
proof -
  let ?xs = "[WriteInt 1, WriteBytes [7, 8, 9], WriteVint 300]"
  have "vwrite_u32 300 = [172, 2]" by code_simp
  then have b: "concat (map op_bytes ?xs) = [0, 0, 0, 1, 7, 8, 9, 172, 2]" by (simp add: write_u32_def)
  obtain s s' where "ob_run (\<lambda>bs r. Some (r @ bs)) ?xs (ob_reset [0, 0] []) = Some s"
    "ob_close (\<lambda>bs r. Some (r @ bs)) s = Some (length (concat (map op_bytes ?xs)), s')"
    "ob_raw s' = concat (map op_bytes ?xs)"
    using output_stream [OF list_sink.reliable_sink_axioms, of "[]" "[0, 0]" ?xs] by blast
  then show ?thesis unfolding b by (simp del: ob_run.simps)
qed

end
