(* ===== verification/DataStreams.thy ===== *)
theory DataStreams
  imports BufferedInput BufferedOutput
begin

text \<open>
  The interfaces \<open>index_output\<close> and \<open>index_input\<close> of \<open>core/store/data_output.hpp\<close> and \<open>core/store/data_input.hpp\<close>, as
  far as the formats use them: records of functions on the state of a stream, with what their clients rely on as locales.
  The buffered streams are instances.
\<close>

section \<open>Output\<close>

record 'o index_out =
  out_do :: "out_op \<Rightarrow> 'o \<Rightarrow> 'o option"
  out_pointer :: "'o \<Rightarrow> nat"

fun out_run :: "'o index_out \<Rightarrow> out_op list \<Rightarrow> 'o \<Rightarrow> 'o option" where
  "out_run io [] s = Some s"
| "out_run io (x # xs) s = do { s1 \<leftarrow> out_do io x s; out_run io xs s1 }"

text \<open>A stream that takes every write and tells how many bytes it has taken.\<close>

locale index_sink =
  fixes io :: "'o index_out" and contents :: "'o \<Rightarrow> u8 list" and ok :: "'o \<Rightarrow> bool"
  assumes do_law: "ok s \<Longrightarrow> \<exists>s'. out_do io x s = Some s' \<and> contents s' = contents s @ op_bytes x \<and> ok s'"
    and pointer_law: "ok s \<Longrightarrow> out_pointer io s = length (contents s)"
begin

lemma run_law: "ok s \<Longrightarrow> \<exists>s'. out_run io xs s = Some s' \<and> contents s' = contents s @ concat (map op_bytes xs) \<and> ok s'"
proof (induction xs arbitrary: s)
  case (Cons x xs)
  obtain s1 where s1: "out_do io x s = Some s1" "contents s1 = contents s @ op_bytes x" "ok s1"
    using do_law [OF Cons.prems] by blast
  then show ?case using Cons.IH [OF s1(3)] by auto
qed simp

end

definition ob_io :: "(u8 list \<Rightarrow> 'r \<Rightarrow> 'r option) \<Rightarrow> 'r out_state index_out" where
  "ob_io flush_buffer = \<lparr>out_do = ob_op flush_buffer, out_pointer = ob_file_pointer\<rparr>"

sublocale reliable_sink \<subseteq> buffered: index_sink "ob_io flush_buffer" "ob_contents raw_contents" "ob_invar raw_contents raw_ok"
proof (unfold_locales, goal_cases)
  case (1 s x)
  obtain s' where "ob_op flush_buffer x s = Some s'" using op_some [OF 1] by blast
  with op_appends [OF 1, of x] show ?case by (simp add: ob_io_def ob_appends_def)
next
  case (2 s)
  then show ?case by (simp add: ob_io_def file_pointer_length)
qed

section \<open>Input\<close>

record 'i index_in =
  in_byte :: "'i \<Rightarrow> (u8 \<times> 'i) option"
  in_bytes :: "nat \<Rightarrow> 'i \<Rightarrow> (u8 list \<times> 'i) option"
  in_short :: "'i \<Rightarrow> (u16 \<times> 'i) option"
  in_int :: "'i \<Rightarrow> (u32 \<times> 'i) option"
  in_long :: "'i \<Rightarrow> (u64 \<times> 'i) option"
  in_vint :: "'i \<Rightarrow> (u32 \<times> 'i) option"
  in_vlong :: "'i \<Rightarrow> (u64 \<times> 'i) option"
  in_buffer :: "nat \<Rightarrow> 'i \<Rightarrow> (u8 list option \<times> 'i) option"
  in_persistent :: "nat \<Rightarrow> 'i \<Rightarrow> (u8 list option \<times> 'i) option"
  in_seek :: "nat \<Rightarrow> 'i \<Rightarrow> 'i option"
  in_pointer :: "'i \<Rightarrow> nat"

text \<open>
  A stream over a file \<open>f\<close>: reads deliver what decoding the bytes from the current position on gives, and
  \<open>seek\<close> moves to any byte of the file.
\<close>

locale index_reader =
  fixes io :: "'i index_in" and stream :: "u8 list \<Rightarrow> 'i \<Rightarrow> bool" and rest :: "'i \<Rightarrow> u8 list"
  assumes byte_law: "stream f s \<Longrightarrow> reads (stream f) rest (in_byte io s) (case rest s of [] \<Rightarrow> None | b # bs \<Rightarrow> Some (b, bs))"
    and bytes_law: "stream f s \<Longrightarrow> reads (stream f) rest (in_bytes io n s) (Some (take n (rest s), drop n (rest s)))"
    and short_law: "stream f s \<Longrightarrow> reads (stream f) rest (in_short io s) (read_u16 (rest s))"
    and int_law: "stream f s \<Longrightarrow> reads (stream f) rest (in_int io s) (read_u32 (rest s))"
    and long_law: "stream f s \<Longrightarrow> reads (stream f) rest (in_long io s) (read_u64 (rest s))"
    and vint_law: "stream f s \<Longrightarrow> reads (stream f) rest (in_vint io s) (vread_u32 (rest s))"
    and vlong_law: "stream f s \<Longrightarrow> reads (stream f) rest (in_vlong io s) (vread_u64 (rest s))"
    and pointer_law: "stream f s \<Longrightarrow> in_pointer io s \<le> length f \<and> rest s = drop (in_pointer io s) f"
    and inside_law: "stream f s \<Longrightarrow> p < length f \<Longrightarrow> \<exists>s'. in_seek io p s = Some s' \<and> stream f s' \<and> rest s' = drop p f"

begin

lemma byte_at: "stream f s \<Longrightarrow> rest s = b # r \<Longrightarrow> \<exists>s'. in_byte io s = Some (b, s') \<and> stream f s' \<and> rest s' = r"
  using byte_law [of f s] by (simp add: reads_def)

lemma bytes_at: "stream f s \<Longrightarrow> rest s = bs @ r \<Longrightarrow> length bs = n \<Longrightarrow>
    \<exists>s'. in_bytes io n s = Some (bs, s') \<and> stream f s' \<and> rest s' = r"
  using bytes_law [of f s n] by (auto simp: reads_def)

lemma short_at: "stream f s \<Longrightarrow> rest s = write_u16 v @ r \<Longrightarrow> \<exists>s'. in_short io s = Some (v, s') \<and> stream f s' \<and> rest s' = r"
  using short_law [of f s] by (simp add: reads_def read_write_u16)

lemma int_at: "stream f s \<Longrightarrow> rest s = write_u32 v @ r \<Longrightarrow> \<exists>s'. in_int io s = Some (v, s') \<and> stream f s' \<and> rest s' = r"
  using int_law [of f s] by (simp add: reads_def read_write_u32)

lemma long_at: "stream f s \<Longrightarrow> rest s = write_u64 v @ r \<Longrightarrow> \<exists>s'. in_long io s = Some (v, s') \<and> stream f s' \<and> rest s' = r"
  using long_law [of f s] by (simp add: reads_def read_write_u64)

lemma vint_at: "stream f s \<Longrightarrow> rest s = vwrite_u32 v @ r \<Longrightarrow> \<exists>s'. in_vint io s = Some (v, s') \<and> stream f s' \<and> rest s' = r"
  using vint_law [of f s] by (simp add: reads_def vread_u32_vwrite)

lemma vlong_at: "stream f s \<Longrightarrow> rest s = vwrite_u64 v @ r \<Longrightarrow> \<exists>s'. in_vlong io s = Some (v, s') \<and> stream f s' \<and> rest s' = r"
  using vlong_law [of f s] by (simp add: reads_def vread_u64_vwrite)

end

text \<open>
  What the formats need in addition: \<open>read_buffer\<close>, with either hint, may decline, and then changes nothing; \<open>seek\<close>
  also moves to the end of the file, and reading goes on from there.
\<close>

locale index_source = index_reader io stream rest
  for io :: "'i index_in" and stream :: "u8 list \<Rightarrow> 'i \<Rightarrow> bool" and rest :: "'i \<Rightarrow> u8 list" +
  assumes buffer_law: "stream f s \<Longrightarrow> \<exists>b s'. in_buffer io n s = Some (b, s') \<and> stream f s' \<and>
      (case b of None \<Rightarrow> rest s' = rest s
       | Some bs \<Rightarrow> n \<le> length (rest s) \<and> bs = take n (rest s) \<and> rest s' = drop n (rest s))"
    and persistent_law: "stream f s \<Longrightarrow> \<exists>b s'. in_persistent io n s = Some (b, s') \<and> stream f s' \<and>
      (case b of None \<Rightarrow> rest s' = rest s
       | Some bs \<Rightarrow> n \<le> length (rest s) \<and> bs = take n (rest s) \<and> rest s' = drop n (rest s))"
    and seek_law: "stream f s \<Longrightarrow> p \<le> length f \<Longrightarrow> \<exists>s'. in_seek io p s = Some s' \<and> stream f s' \<and> rest s' = drop p f"
begin

lemma skip_at:
  assumes "stream f s" "rest s = bs @ r" "length bs = n"
  shows "\<exists>s'. in_seek io (in_pointer io s + n) s = Some s' \<and> stream f s' \<and> rest s' = r"
proof -
  have p: "in_pointer io s \<le> length f" "rest s = drop (in_pointer io s) f" using pointer_law [OF assms(1)] by auto
  then have "length f - in_pointer io s = n + length r" using assms(2,3) by (metis length_append length_drop)
  moreover have "drop (in_pointer io s + n) f = drop n (rest s)" using p(2) by (simp add: add.commute)
  ultimately show ?thesis using seek_law [OF assms(1), of "in_pointer io s + n"] p(1) assms(2,3) by simp
qed

end

lemma source_reader: "index_source io stream rest \<Longrightarrow> index_reader io stream rest"
  by (rule index_source.axioms)

definition ib_io :: "'r in_ops \<Rightarrow> 'r in_state index_in" where
  "ib_io ops = \<lparr>in_byte = ib_read_byte ops, in_bytes = ib_read_bytes ops, in_short = ib_read_short ops, in_int = ib_read_int ops,
     in_long = ib_read_long ops, in_vint = ib_read_vint ops, in_vlong = ib_read_vlong ops,
     in_buffer = (\<lambda>n. ib_read_buffer ops n False),
     in_persistent = (\<lambda>n. ib_read_buffer ops n True), in_seek = ib_seek ops, in_pointer = ib_file_pointer\<rparr>"

sublocale raw_source \<subseteq> buffered: index_source "ib_io ops" "ib_stream raw_file raw_pos raw_ok" "ib_rest raw_file"
proof (unfold_locales, goal_cases)
  case (8 f s)
  then show ?case using stream_buf(3) [OF 8] by (simp add: ib_io_def ib_rest_def ib_stream_def)
next
  case (9 f s p)
  with seek_correct [OF 9(1), of p] show ?case by (auto simp: ib_io_def)
next
  case (10 f s n)
  have "n \<le> ib_remain s \<Longrightarrow> n \<le> length (ib_rest raw_file s)" using stream_buf(2) [OF 10] by simp
  with read_buffer_correct [OF 10, of False n] 10 show ?case by (auto simp: ib_io_def split: if_splits)
next
  case (11 f s n)
  have "n \<le> ib_remain s \<Longrightarrow> n \<le> length (ib_rest raw_file s)" using stream_buf(2) [OF 11] by simp
  with read_buffer_correct [OF 11, of True n] 11 show ?case by (auto simp: ib_io_def split: if_splits)
next
  case (12 f s p)
  with seek_correct [OF 12(1), of p] show ?case by (auto simp: ib_io_def)
qed (simp_all add: ib_io_def read_byte_correct read_bytes_correct read_ints_correct read_vint_correct read_vlong_correct)

end
