(* ===== verification/Checksum.thy ===== *)
theory Checksum
  imports Prelude
begin

text \<open>
  Checksums: what the development relies on of \<open>absl::ExtendCrc32c\<close>, which \<open>core/utils/crc.hpp\<close> wraps
  with a zero seed and a zero exclusive or at both ends. The remainder computed bit by bit serves as
  an instance.
\<close>

text \<open>Extending a checksum by two pieces is extending it by their concatenation.\<close>

locale crc_extension =
  fixes crc_ext :: "u32 \<Rightarrow> u8 list \<Rightarrow> u32"
  assumes extend_nil: "crc_ext c [] = c"
    and extend_append: "crc_ext (crc_ext c xs) ys = crc_ext c (xs @ ys)"

fun crc32c_bits :: "nat \<Rightarrow> u32 \<Rightarrow> u32" where
  "crc32c_bits 0 c = c"
| "crc32c_bits (Suc n) c = crc32c_bits n (if bit c 0 then drop_bit 1 c XOR 0x82F63B78 else drop_bit 1 c)"

definition crc32c_extend :: "u32 \<Rightarrow> u8 list \<Rightarrow> u32" where
  "crc32c_extend c bs = fold (\<lambda>b c. crc32c_bits 8 (c XOR ucast b)) bs c"

interpretation crc32c: crc_extension crc32c_extend
  by unfold_locales (simp_all add: crc32c_extend_def)

end
