(* ===== verification/FsOutput.thy ===== *)
theory FsOutput
  imports BufferedOutput Checksum
begin

text \<open>
  Output to a file: \<open>file_utils::fwrite\<close> of \<open>core/utils/file_utils.cpp\<close> over the system call
  \<open>write\<close>, and \<open>fs_index_output\<close> of \<open>core/store/fs_directory.cpp\<close>, the buffered output that keeps a
  running CRC of what reached the file. The system call and \<open>absl::ExtendCrc32c\<close> (through
  \<open>core/utils/crc.hpp\<close>) are parameters; the locales state what their documentation says.
\<close>

section \<open>Operations\<close>

text \<open>The result of \<open>write\<close> and \<open>read\<close>: a count, an interruption by a signal, another error.\<close>

datatype sys_result = SysDone nat | SysIntr | SysError

text \<open>The loop of \<open>fwrite\<close>: what is left when it stops. It has no bound on interruptions.\<close>

partial_function (option) fwrite_loop ::
  "(u8 list \<Rightarrow> 'os \<Rightarrow> sys_result \<times> 'os) \<Rightarrow> u8 list \<Rightarrow> 'os \<Rightarrow> (u8 list \<times> 'os) option" where
  "fwrite_loop sys_write bs os =
     (if bs = [] then Some ([], os)
      else let to_write = min (length bs) (2 ^ 30) in
        case sys_write (take to_write bs) os of
          (SysDone n, os') \<Rightarrow> fwrite_loop sys_write (drop n bs) os'
        | (SysIntr, os') \<Rightarrow> fwrite_loop sys_write bs os'
        | (SysError, os') \<Rightarrow> Some (bs, os'))"

declare fwrite_loop.simps [code]

definition fwrite :: "(u8 list \<Rightarrow> 'os \<Rightarrow> sys_result \<times> 'os) \<Rightarrow> u8 list \<Rightarrow> 'os \<Rightarrow> (nat \<times> 'os) option" where
  "fwrite sys_write bs os = do {
     (left, os') \<leftarrow> fwrite_loop sys_write bs os;
     Some (length bs - length left, os')
   }"

record 'os fs_out =
  fo_os :: 'os
  fo_crc :: u32

definition fs_flush_buffer ::
  "(u8 list \<Rightarrow> 'os \<Rightarrow> sys_result \<times> 'os) \<Rightarrow> (u32 \<Rightarrow> u8 list \<Rightarrow> u32) \<Rightarrow> u8 list \<Rightarrow> 'os fs_out \<Rightarrow> 'os fs_out option" where
  "fs_flush_buffer sys_write crc_ext b f = do {
     (len_written, os') \<leftarrow> fwrite sys_write b (fo_os f);
     let f' = \<lparr>fo_os = os', fo_crc = crc_ext (fo_crc f) (take len_written b)\<rparr>;
     if b \<noteq> [] \<and> len_written \<noteq> length b then None else Some f'
   }"

definition fs_open :: "'os \<Rightarrow> u8 list \<Rightarrow> 'os fs_out out_state" where
  "fs_open os buf = ob_reset buf \<lparr>fo_os = os, fo_crc = 0\<rparr>"

text \<open>\<open>checksum()\<close> flushes the buffer first.\<close>

definition fs_checksum ::
  "(u8 list \<Rightarrow> 'os \<Rightarrow> sys_result \<times> 'os) \<Rightarrow> (u32 \<Rightarrow> u8 list \<Rightarrow> u32) \<Rightarrow> 'os fs_out out_state \<Rightarrow>
   (u64 \<times> 'os fs_out out_state) option" where
  "fs_checksum sys_write crc_ext s = do {
     s' \<leftarrow> ob_flush (fs_flush_buffer sys_write crc_ext) s;
     Some (ucast (fo_crc (ob_raw s')), s')
   }"

section \<open>What the environment promises\<close>

text \<open>\<open>write\<close> appends a prefix and reports its length, or leaves the file alone.\<close>

locale posix_write =
  fixes sys_write :: "u8 list \<Rightarrow> 'os \<Rightarrow> sys_result \<times> 'os" and file_bytes :: "'os \<Rightarrow> u8 list"
  assumes write_done: "sys_write bs os = (SysDone n, os') \<Longrightarrow> n \<le> length bs \<and> file_bytes os' = file_bytes os @ take n bs"
    and write_intr: "sys_write bs os = (SysIntr, os') \<Longrightarrow> file_bytes os' = file_bytes os"
    and write_error: "sys_write bs os = (SysError, os') \<Longrightarrow> file_bytes os' = file_bytes os"

text \<open>A disk that is not full and does not fail: every call makes progress.\<close>

locale posix_write_ok = posix_write +
  assumes write_progress: "bs \<noteq> [] \<Longrightarrow> \<exists>n os'. sys_write bs os = (SysDone n, os') \<and> 0 < n"

locale fs_env = posix_write sys_write file_bytes + crc_extension crc_ext
  for sys_write :: "u8 list \<Rightarrow> 'os \<Rightarrow> sys_result \<times> 'os" and file_bytes and crc_ext

locale fs_env_ok = fs_env sys_write file_bytes crc_ext + posix_write_ok sys_write file_bytes
  for sys_write :: "u8 list \<Rightarrow> 'os \<Rightarrow> sys_result \<times> 'os" and file_bytes and crc_ext

definition fs_file :: "('os \<Rightarrow> u8 list) \<Rightarrow> 'os fs_out \<Rightarrow> u8 list" where
  "fs_file file_bytes f = file_bytes (fo_os f)"

text \<open>The running checksum is the one of the file.\<close>

definition fs_ok :: "('os \<Rightarrow> u8 list) \<Rightarrow> (u32 \<Rightarrow> u8 list \<Rightarrow> u32) \<Rightarrow> 'os fs_out \<Rightarrow> bool" where
  "fs_ok file_bytes crc_ext f \<longleftrightarrow> fo_crc f = crc_ext 0 (file_bytes (fo_os f))"

section \<open>Correctness\<close>

context posix_write
begin

text \<open>When the loop returns, what is missing from the file is what is left.\<close>

lemma fwrite_loop_correct:
  assumes "fwrite_loop sys_write bs os = Some (rest, os')"
  shows "\<exists>wr. bs = wr @ rest \<and> file_bytes os' = file_bytes os @ wr"
proof -
  let ?P = "\<lambda>sw bs os y. sw = sys_write \<longrightarrow> (\<exists>wr. bs = wr @ fst y \<and> file_bytes (snd y) = file_bytes os @ wr)"
  have "?P sys_write bs os (rest, os')"
  proof (rule fwrite_loop.raw_induct [where P = ?P, OF _ assms], goal_cases)
    case (1 loop sw bs os y)
    show ?case
    proof (intro impI)
      assume sw: "sw = sys_write"
      let ?n = "min (length bs) (2 ^ 30)"
      obtain r os1 where call: "sys_write (take ?n bs) os = (r, os1)" by fastforce
      show "\<exists>wr. bs = wr @ fst y \<and> file_bytes (snd y) = file_bytes os @ wr"
      proof (cases "bs = []")
        case True
        with 1(2) show ?thesis by auto
      next
        case False
        show ?thesis
        proof (cases r)
          case (SysDone n)
          with 1(2) call sw False have "loop sys_write (drop n bs) os1 = Some y" by (simp add: Let_def)
          from 1(1) [OF this] obtain wr where
            wr: "drop n bs = wr @ fst y" "file_bytes (snd y) = file_bytes os1 @ wr" by blast
          have "n \<le> ?n" "file_bytes os1 = file_bytes os @ take n bs"
            using write_done [of "take ?n bs"] call SysDone by (auto simp: min_def split: if_splits)
          with wr show ?thesis by (intro exI [of _ "take n bs @ wr"]) (metis append.assoc append_take_drop_id)
        next
          case SysIntr
          with 1(2) call sw False have "loop sys_write bs os1 = Some y" by (simp add: Let_def)
          from 1(1) [OF this] show ?thesis using write_intr [of "take ?n bs"] call SysIntr by auto
        next
          case SysError
          with 1(2) call sw False show ?thesis using write_error [of "take ?n bs" os os1] by (auto simp: Let_def)
        qed
      qed
    qed
  qed
  then show ?thesis by simp
qed

lemma fwrite_correct:
  assumes "fwrite sys_write bs os = Some (n, os')"
  shows "n \<le> length bs \<and> file_bytes os' = file_bytes os @ take n bs"
  using assms by (auto simp: fwrite_def bind_eq_Some_conv dest!: fwrite_loop_correct)

end

context posix_write_ok
begin

lemma fwrite_loop_total: "\<exists>os'. fwrite_loop sys_write bs os = Some ([], os')"
proof (induction "length bs" arbitrary: bs os rule: less_induct)
  case less
  show ?case
  proof (cases "bs = []")
    case True
    then show ?thesis by (subst fwrite_loop.simps) simp
  next
    case False
    let ?n = "min (length bs) (2 ^ 30)"
    obtain n os1 where w: "sys_write (take ?n bs) os = (SysDone n, os1)" "0 < n"
      using write_progress [of "take ?n bs" os] False by auto
    then have "length (drop n bs) < length bs" using False by simp
    from less.hyps [OF this] w False show ?thesis by (subst fwrite_loop.simps) (simp add: Let_def)
  qed
qed

lemma fwrite_total: "\<exists>os'. fwrite sys_write bs os = Some (length bs, os')"
  using fwrite_loop_total [of bs os] by (auto simp: fwrite_def)

end

text \<open>\<open>fs_index_output::flush_buffer\<close> keeps the contract of a buffered output, with the CRC in its invariant.\<close>

sublocale fs_env \<subseteq> fs: raw_sink "fs_flush_buffer sys_write crc_ext" "fs_file file_bytes" "fs_ok file_bytes crc_ext"
  by unfold_locales
     (auto simp: fs_flush_buffer_def fs_file_def fs_ok_def bind_eq_Some_conv Let_def extend_append extend_nil
       dest!: fwrite_correct split: if_splits)

sublocale fs_env_ok \<subseteq> fs: reliable_sink "fs_flush_buffer sys_write crc_ext" "fs_file file_bytes" "fs_ok file_bytes crc_ext"
proof unfold_locales
  fix bs and r :: "'os fs_out"
  obtain os' where "fwrite sys_write bs (fo_os r) = Some (length bs, os')" using fwrite_total by blast
  then show "\<exists>r'. fs_flush_buffer sys_write crc_ext bs r = Some r'" by (simp add: fs_flush_buffer_def)
qed

context fs_env
begin

lemma file_partial:
  assumes "file_bytes os = []" "buf \<noteq> []"
    "ob_run (fs_flush_buffer sys_write crc_ext) xs (fs_open os buf) = Some s"
    "fs_checksum sys_write crc_ext s = Some (c, s1)"
  shows "file_bytes (fo_os (ob_raw s1)) = concat (map op_bytes xs) \<and> c = ucast (crc_ext 0 (concat (map op_bytes xs)))"
proof -
  have init: "ob_invar (fs_file file_bytes) (fs_ok file_bytes crc_ext) (fs_open os buf)"
    "ob_contents (fs_file file_bytes) (fs_open os buf) = []"
    using fs.reset_invar [OF assms(2), of "\<lparr>fo_os = os, fo_crc = 0\<rparr>"] assms(1)
    by (simp_all add: fs_open_def fs_file_def fs_ok_def extend_nil)
  have inv: "ob_invar (fs_file file_bytes) (fs_ok file_bytes crc_ext) s"
    "ob_contents (fs_file file_bytes) s = concat (map op_bytes xs)"
    using fs.run_appends [OF init(1), of xs] init assms(3) by (auto simp: ob_appends_def)
  have s1: "ob_flush (fs_flush_buffer sys_write crc_ext) s = Some s1" "c = ucast (fo_crc (ob_raw s1))"
    using assms(4) by (auto simp: fs_checksum_def bind_eq_Some_conv)
  then show ?thesis
    using fs.flush_appends [OF inv(1)] fs.flush_pos [OF s1(1)] inv(2)
    by (auto simp: ob_appends_def ob_contents_def ob_invar_def fs_file_def fs_ok_def)
qed

end

context fs_env_ok
begin

lemma file_correct:
  assumes "file_bytes os = []" "buf \<noteq> []"
  shows "\<exists>s s1 s2. ob_run (fs_flush_buffer sys_write crc_ext) xs (fs_open os buf) = Some s \<and>
    fs_checksum sys_write crc_ext s = Some (ucast (crc_ext 0 (concat (map op_bytes xs))), s1) \<and>
    ob_close (fs_flush_buffer sys_write crc_ext) s1 = Some (length (concat (map op_bytes xs)), s2) \<and>
    file_bytes (fo_os (ob_raw s1)) = concat (map op_bytes xs) \<and>
    file_bytes (fo_os (ob_raw s2)) = concat (map op_bytes xs)"
proof -
  let ?fb = "fs_flush_buffer sys_write crc_ext" and ?bs = "concat (map op_bytes xs)"
  have init: "ob_invar (fs_file file_bytes) (fs_ok file_bytes crc_ext) (fs_open os buf)"
    "ob_contents (fs_file file_bytes) (fs_open os buf) = []"
    using fs.reset_invar [OF assms(2), of "\<lparr>fo_os = os, fo_crc = 0\<rparr>"] assms(1)
    by (simp_all add: fs_open_def fs_file_def fs_ok_def extend_nil)
  obtain s where s: "ob_run ?fb xs (fs_open os buf) = Some s" using fs.run_some [OF init(1)] by blast
  have inv: "ob_invar (fs_file file_bytes) (fs_ok file_bytes crc_ext) s" "ob_contents (fs_file file_bytes) s = ?bs"
    using fs.run_appends [OF init(1), of xs] init s by (auto simp: ob_appends_def)
  obtain s1 where s1: "ob_flush ?fb s = Some s1" using fs.flush_some by blast
  have inv1: "ob_invar (fs_file file_bytes) (fs_ok file_bytes crc_ext) s1" "ob_contents (fs_file file_bytes) s1 = ?bs"
    using fs.flush_appends [OF inv(1)] s1 inv by (auto simp: ob_appends_def)
  then have f1: "file_bytes (fo_os (ob_raw s1)) = ?bs" "fo_crc (ob_raw s1) = crc_ext 0 ?bs"
    using fs.flush_pos [OF s1] by (auto simp: ob_contents_def ob_invar_def fs_file_def fs_ok_def)
  obtain n s2 where "ob_close ?fb s1 = Some (n, s2)" using fs.close_some [of s1] by fast
  with fs.close_correct [OF inv1(1) this] inv1(2) s s1 f1 show ?thesis
    by (auto simp: fs_checksum_def fs_file_def)
qed

end

section \<open>Properties\<close>

text \<open>
  C31: a sequence of writes to a new file over a disk that accepts data, in pieces of any
  size, ends with exactly the encoded bytes in the file; \<open>checksum\<close> flushes and returns the CRC of
  all bytes written so far, and \<open>close\<close> reports their number.
\<close>

theorem file_output:
  assumes "fs_env_ok sys_write file_bytes crc_ext" "file_bytes os = []" "buf \<noteq> []"
  shows "\<exists>s s1 s2. ob_run (fs_flush_buffer sys_write crc_ext) xs (fs_open os buf) = Some s \<and>
    fs_checksum sys_write crc_ext s = Some (ucast (crc_ext 0 (concat (map op_bytes xs))), s1) \<and>
    ob_close (fs_flush_buffer sys_write crc_ext) s1 = Some (length (concat (map op_bytes xs)), s2) \<and>
    file_bytes (fo_os (ob_raw s1)) = concat (map op_bytes xs) \<and>
    file_bytes (fo_os (ob_raw s2)) = concat (map op_bytes xs)"
  using assms by (rule fs_env_ok.file_correct)

text \<open>A disk that takes at most three bytes per call.\<close>

definition slow_write :: "u8 list \<Rightarrow> u8 list \<Rightarrow> sys_result \<times> u8 list" where
  "slow_write bs os = (SysDone (min 3 (length bs)), os @ take 3 bs)"

interpretation slow_disk: fs_env_ok slow_write "\<lambda>os. os" crc32c_extend
  by unfold_locales (auto simp: slow_write_def min_def)

theorem file_output_witness:
  "\<exists>s s1. ob_run (fs_flush_buffer slow_write crc32c_extend) [WriteInt 1, WriteBytes [7, 8, 9]] (fs_open [] [0, 0, 0]) = Some s \<and>
     fs_checksum slow_write crc32c_extend s = Some (ucast (crc32c_extend 0 [0, 0, 0, 1, 7, 8, 9]), s1) \<and>
     fo_os (ob_raw s1) = [0, 0, 0, 1, 7, 8, 9]"
proof -
  have "concat (map op_bytes [WriteInt 1, WriteBytes [7, 8, 9]]) = [0, 0, 0, 1, 7, 8, 9]" by (simp add: write_u32_def)
  then show ?thesis
    using file_output [OF slow_disk.fs_env_ok_axioms, of "[]" "[0, 0, 0]" "[WriteInt 1, WriteBytes [7, 8, 9]]"]
    by (metis list.distinct(1))
qed

text \<open>
  C32: on a disk that may fail or be interrupted, whatever succeeds has written exactly
  the encoded bytes, and the running CRC is the one of the file.
\<close>

theorem file_output_faults:
  assumes "fs_env sys_write file_bytes crc_ext" "file_bytes os = []" "buf \<noteq> []"
    "ob_run (fs_flush_buffer sys_write crc_ext) xs (fs_open os buf) = Some s"
    "fs_checksum sys_write crc_ext s = Some (c, s1)"
  shows "file_bytes (fo_os (ob_raw s1)) = concat (map op_bytes xs) \<and> c = ucast (crc_ext 0 (concat (map op_bytes xs)))"
  using assms by (rule fs_env.file_partial)

text \<open>A disk that is interrupted on every second call.\<close>

definition flaky_write :: "u8 list \<Rightarrow> bool \<times> u8 list \<Rightarrow> sys_result \<times> (bool \<times> u8 list)" where
  "flaky_write bs os = (if fst os then (SysIntr, (False, snd os)) else (SysDone (length bs), (True, snd os @ bs)))"

interpretation flaky_disk: fs_env flaky_write snd crc32c_extend
  by unfold_locales (auto simp: flaky_write_def split: if_splits)

lemma fwrite_loop_nil: "fwrite_loop w [] os = Some ([], os)"
  by (subst fwrite_loop.simps) simp

lemma flaky_loop:
  assumes "bs \<noteq> []" "length bs \<le> 2 ^ 30"
  shows "fwrite_loop flaky_write bs (False, f) = Some ([], (True, f @ bs))"
    "fwrite_loop flaky_write bs (True, f) = fwrite_loop flaky_write bs (False, f)"
  using assms by (subst fwrite_loop.simps, simp add: flaky_write_def Let_def min_def fwrite_loop_nil)+

lemma flaky_fwrite: "length bs \<le> 2 ^ 30 \<Longrightarrow> \<exists>os'. fwrite flaky_write bs os = Some (length bs, os')"
  by (cases os; cases "fst os"; cases "bs = []") (auto simp: fwrite_def flaky_loop fwrite_loop_nil)

theorem file_output_faults_witness:
  "\<exists>s c s1. ob_run (fs_flush_buffer flaky_write crc32c_extend) [WriteByte 5, WriteShort 6] (fs_open (True, []) [0, 0, 0, 0]) = Some s \<and>
     fs_checksum flaky_write crc32c_extend s = Some (c, s1) \<and> snd (fo_os (ob_raw s1)) = [5, 0, 6]"
proof -
  let ?run = "ob_run (fs_flush_buffer flaky_write crc32c_extend) [WriteByte 5, WriteShort 6] (fs_open (True, []) [0, 0, 0, 0])"
  obtain s where s: "?run = Some s" "ob_pos s = 3"
    by (simp add: fs_open_def ob_reset_def ob_write_byte_def ob_put_def ob_remain_def ob_write_short_def ob_write_fixed_def write_u16_def)
  have "length (take 3 (ob_buf s)) \<le> 2 ^ 30" by (rule order.trans [of _ 3]) simp_all
  then obtain os' where "fwrite flaky_write (take 3 (ob_buf s)) (fo_os (ob_raw s)) = Some (length (take 3 (ob_buf s)), os')"
    using flaky_fwrite by blast
  then obtain c s1 where c: "fs_checksum flaky_write crc32c_extend s = Some (c, s1)"
    using s(2) by (simp add: fs_checksum_def ob_flush_def fs_flush_buffer_def)
  have "concat (map op_bytes [WriteByte 5, WriteShort 6]) = [5, 0, 6]" by (simp add: write_u16_def)
  with file_output_faults [OF flaky_disk.fs_env_axioms _ _ s(1) c] s c show ?thesis by auto
qed

end
