(* ===== verification/FsInput.thy ===== *)
theory FsInput
  imports BufferedInput Checksum
begin

text \<open>
  Input from a file: \<open>file_utils::fread\<close> of \<open>core/utils/file_utils.cpp\<close> over the system call \<open>read\<close>,
  and \<open>fs_index_input\<close> of \<open>core/store/fs_directory.cpp\<close>. A native handle is shared by all copies of
  an input (\<open>dup\<close>), so its position may be anywhere when an input reads: every read compares the
  position recorded in the handle with its own and moves the handle first.
\<close>

section \<open>Operations\<close>

datatype read_result = ReadData "u8 list" | ReadIntr | ReadError

partial_function (option) fread ::
  "(nat \<Rightarrow> 'os \<Rightarrow> read_result \<times> 'os) \<Rightarrow> nat \<Rightarrow> 'os \<Rightarrow> (u8 list \<times> 'os) option" where
  "fread sys_read left os =
     (if left = 0 then Some ([], os)
      else let to_read = min left 0x7ffff000 in
        case sys_read to_read os of
          (ReadData bs, os') \<Rightarrow>
            (if bs = [] then Some ([], os')
             else do { (r, os2) \<leftarrow> fread sys_read (left - length bs) os'; Some (bs @ r, os2) })
        | (ReadIntr, os') \<Rightarrow> fread sys_read left os'
        | (ReadError, os') \<Rightarrow> Some ([], os'))"

declare fread.simps [code]

text \<open>The shared handle: the system's file state, the size and the position recorded for it.\<close>

record 'os file_handle =
  fh_os :: 'os
  fh_size :: nat
  fh_pos :: nat

record 'os fs_in =
  fi_handle :: "'os file_handle"
  fi_pos :: nat

definition fs_length :: "'os fs_in \<Rightarrow> nat" where
  "fs_length i = fh_size (fi_handle i)"

definition fs_seek_internal :: "nat \<Rightarrow> 'os fs_in \<Rightarrow> 'os fs_in option" where
  "fs_seek_internal pos i = (if fh_size (fi_handle i) < pos then None else Some (i\<lparr>fi_pos := pos\<rparr>))"

definition fs_read_internal ::
  "(nat \<Rightarrow> 'os \<Rightarrow> read_result \<times> 'os) \<Rightarrow> (nat \<Rightarrow> 'os \<Rightarrow> 'os option) \<Rightarrow> nat \<Rightarrow> 'os fs_in \<Rightarrow>
   (u8 list \<times> 'os fs_in) option" where
  "fs_read_internal sys_read sys_seek len i = do {
     let h = fi_handle i;
     h1 \<leftarrow> (if fh_pos h \<noteq> fi_pos i
            then do { os \<leftarrow> sys_seek (fi_pos i) (fh_os h); Some (h\<lparr>fh_os := os, fh_pos := fi_pos i\<rparr>) }
            else Some h);
     (bs, os') \<leftarrow> fread sys_read len (fh_os h1);
     let p = fh_pos h1 + length bs;
     Some (bs, i\<lparr>fi_handle := h1\<lparr>fh_os := os', fh_pos := p\<rparr>, fi_pos := p\<rparr>)
   }"

definition fs_in_ops ::
  "(nat \<Rightarrow> 'os \<Rightarrow> read_result \<times> 'os) \<Rightarrow> (nat \<Rightarrow> 'os \<Rightarrow> 'os option) \<Rightarrow> 'os fs_in in_ops" where
  "fs_in_ops sys_read sys_seek =
     \<lparr>read_internal = fs_read_internal sys_read sys_seek, seek_internal = fs_seek_internal, length_of = fs_length\<rparr>"

definition fs_in_open :: "'os file_handle \<Rightarrow> 'os fs_in in_state" where
  "fs_in_open h = ib_reset 1024 0 \<lparr>fi_handle = h, fi_pos = 0\<rparr>"

text \<open>\<open>dup\<close>: a copy at the same place with an empty buffer, over the same handle.\<close>

definition fs_dup :: "'os fs_in in_state \<Rightarrow> 'os fs_in in_state" where
  "fs_dup s = ib_reset 1024 (ib_file_pointer s) \<lparr>fi_handle = fi_handle (ib_raw s), fi_pos = ib_file_pointer s\<rparr>"

text \<open>
  \<open>checksum(offset)\<close>: reads with \<open>read_internal\<close> from \<open>pos_\<close>, the position behind the buffer, into a local
  array (of unspecified content at first) and restores \<open>pos_\<close> at the end.
\<close>

partial_function (option) fs_checksum_loop ::
  "(nat \<Rightarrow> 'os \<Rightarrow> read_result \<times> 'os) \<Rightarrow> (nat \<Rightarrow> 'os \<Rightarrow> 'os option) \<Rightarrow> (u32 \<Rightarrow> u8 list \<Rightarrow> u32) \<Rightarrow> nat \<Rightarrow> nat \<Rightarrow>
   u8 list \<Rightarrow> u32 \<Rightarrow> 'os fs_in \<Rightarrow> (u32 \<times> 'os fs_in) option" where
  "fs_checksum_loop sys_read sys_seek crc_ext pos e buf crc i =
     (if pos < e then do {
        let to_read = min (e - pos) (length buf);
        (bs, i') \<leftarrow> fs_read_internal sys_read sys_seek to_read i;
        let buf' = bs @ drop (length bs) buf;
        fs_checksum_loop sys_read sys_seek crc_ext (pos + length bs) e buf' (crc_ext crc (take to_read buf')) i'
      } else Some (crc, i))"

declare fs_checksum_loop.simps [code]

definition fs_in_checksum ::
  "(nat \<Rightarrow> 'os \<Rightarrow> read_result \<times> 'os) \<Rightarrow> (nat \<Rightarrow> 'os \<Rightarrow> 'os option) \<Rightarrow> (u32 \<Rightarrow> u8 list \<Rightarrow> u32) \<Rightarrow> u8 list \<Rightarrow> nat \<Rightarrow>
   'os fs_in in_state \<Rightarrow> (u64 \<times> 'os fs_in in_state) option" where
  "fs_in_checksum sys_read sys_seek crc_ext buf offset s = do {
     let i = ib_raw s;
     let b = fi_pos i;
     let e = min (b + offset) (fh_size (fi_handle i));
     (crc, i') \<leftarrow> fs_checksum_loop sys_read sys_seek crc_ext b e buf 0 i;
     Some (ucast crc, s\<lparr>ib_raw := i'\<lparr>fi_pos := b\<rparr>\<rparr>)
   }"

text \<open>An input whose shared handle has been used through another copy.\<close>

definition fs_with_handle :: "'os file_handle \<Rightarrow> 'os fs_in in_state \<Rightarrow> 'os fs_in in_state" where
  "fs_with_handle h s = s\<lparr>ib_raw := (ib_raw s)\<lparr>fi_handle := h\<rparr>\<rparr>"

section \<open>What the environment promises\<close>

text \<open>
  A file that is only read: \<open>read\<close> delivers some of the bytes at the offset, at least one when there are
  any, and \<open>lseek\<close> moves the offset.
\<close>

locale posix_read =
  fixes sys_read :: "nat \<Rightarrow> 'os \<Rightarrow> read_result \<times> 'os" and sys_seek :: "nat \<Rightarrow> 'os \<Rightarrow> 'os option"
    and file_bytes :: "'os \<Rightarrow> u8 list" and file_off :: "'os \<Rightarrow> nat"
  assumes read_data: "0 < n \<Longrightarrow> \<exists>bs os'. sys_read n os = (ReadData bs, os') \<and> file_bytes os' = file_bytes os \<and>
      file_off os' = file_off os + length bs \<and> length bs \<le> n \<and>
      bs = take (length bs) (drop (file_off os) (file_bytes os)) \<and>
      (bs = [] \<longrightarrow> length (file_bytes os) \<le> file_off os)"
    and seek_ok: "\<exists>os'. sys_seek p os = Some os' \<and> file_bytes os' = file_bytes os \<and> file_off os' = p"

definition fs_in_ok :: "('os \<Rightarrow> u8 list) \<Rightarrow> ('os \<Rightarrow> nat) \<Rightarrow> 'os fs_in \<Rightarrow> bool" where
  "fs_in_ok file_bytes file_off i \<longleftrightarrow>
     fh_size (fi_handle i) = length (file_bytes (fh_os (fi_handle i))) \<and>
     file_off (fh_os (fi_handle i)) = fh_pos (fi_handle i)"

definition fs_in_file :: "('os \<Rightarrow> u8 list) \<Rightarrow> 'os fs_in \<Rightarrow> u8 list" where
  "fs_in_file file_bytes i = file_bytes (fh_os (fi_handle i))"

section \<open>Correctness\<close>

context posix_read
begin

lemma fread_correct:
  "\<exists>os'. fread sys_read n os = Some (take n (drop (file_off os) (file_bytes os)), os') \<and>
     file_bytes os' = file_bytes os \<and> file_off os' = file_off os + length (take n (drop (file_off os) (file_bytes os)))"
proof (induction n arbitrary: os rule: less_induct)
  case (less n)
  show ?case
  proof (cases "n = 0")
    case True
    then show ?thesis by (subst fread.simps) simp
  next
    case False
    let ?d = "drop (file_off os) (file_bytes os)"
    have pos: "0 < min n 0x7ffff000" using False by simp
    obtain bs os1 where c: "sys_read (min n 0x7ffff000) os = (ReadData bs, os1)" "file_bytes os1 = file_bytes os"
      "file_off os1 = file_off os + length bs" "length bs \<le> min n 0x7ffff000" "bs = take (length bs) ?d"
      "bs = [] \<longrightarrow> length (file_bytes os) \<le> file_off os"
      using read_data [OF pos, of os] by blast
    have le: "length bs \<le> n" using c(4) by simp
    show ?thesis
    proof (cases "bs = []")
      case True
      then show ?thesis using False c by (subst fread.simps) (simp add: Let_def)
    next
      case nn: False
      then have "n - length bs < n" using False by (cases bs) auto
      from less.IH [OF this, of os1] obtain os2 where
        r: "fread sys_read (n - length bs) os1 = Some (take (n - length bs) (drop (length bs) ?d), os2)"
          "file_bytes os2 = file_bytes os"
          "file_off os2 = file_off os + length bs + length (take (n - length bs) (drop (length bs) ?d))"
        using c(2,3) by (auto simp: add.commute)
      have t: "bs @ take (n - length bs) (drop (length bs) ?d) = take n ?d"
        using le c(5) by (metis le_add_diff_inverse take_add)
      have "fread sys_read n os = Some (take n ?d, os2)"
        using False nn c(1) r(1) t by (subst fread.simps) (simp add: Let_def)
      moreover have "length bs + length (take (n - length bs) (drop (length bs) ?d)) = length (take n ?d)"
        using arg_cong [OF t, of length] by simp
      ultimately show ?thesis using r(2,3) by (metis add.assoc)
    qed
  qed
qed

lemma read_internal_correct:
  assumes "fs_in_ok file_bytes file_off i"
  shows "\<exists>i'. fs_read_internal sys_read sys_seek n i = Some (take n (drop (fi_pos i) (fs_in_file file_bytes i)), i') \<and>
    fs_in_ok file_bytes file_off i' \<and> fs_in_file file_bytes i' = fs_in_file file_bytes i \<and>
    fi_pos i' = fi_pos i + length (take n (drop (fi_pos i) (fs_in_file file_bytes i))) \<and>
    fh_size (fi_handle i') = fh_size (fi_handle i)"
proof -
  let ?h = "fi_handle i"
  obtain h1 where h1: "(if fh_pos ?h \<noteq> fi_pos i
      then do { os \<leftarrow> sys_seek (fi_pos i) (fh_os ?h); Some (?h\<lparr>fh_os := os, fh_pos := fi_pos i\<rparr>) } else Some ?h) = Some h1"
    "file_bytes (fh_os h1) = fs_in_file file_bytes i" "file_off (fh_os h1) = fi_pos i" "fh_pos h1 = fi_pos i"
    "fh_size h1 = fh_size ?h"
    using seek_ok [of "fi_pos i" "fh_os ?h"] assms
    by (cases "fh_pos ?h = fi_pos i") (auto simp: fs_in_ok_def fs_in_file_def)
  obtain os' where os': "fread sys_read n (fh_os h1) = Some (take n (drop (fi_pos i) (fs_in_file file_bytes i)), os')"
    "file_bytes os' = fs_in_file file_bytes i"
    "file_off os' = fi_pos i + length (take n (drop (fi_pos i) (fs_in_file file_bytes i)))"
    using fread_correct [of n "fh_os h1"] unfolding h1(2,3) by blast
  show ?thesis unfolding fs_read_internal_def Let_def h1(1)
    using h1 os' assms by (auto simp: fs_in_ok_def fs_in_file_def)
qed

end

text \<open>\<open>fs_index_input\<close> keeps the contract of a buffered input.\<close>

sublocale posix_read \<subseteq> fs: raw_source "fs_in_ops sys_read sys_seek" "fs_in_file file_bytes" fi_pos "fs_in_ok file_bytes file_off"
proof (unfold_locales, goal_cases)
  case (1 r) then show ?case by (simp add: fs_in_ops_def fs_length_def fs_in_ok_def fs_in_file_def)
next
  case (2 r n)
  from read_internal_correct [OF 2(1), of n] 2(2) show ?case by (auto simp: fs_in_ops_def min_def)
next
  case (3 r p) then show ?case
    by (auto simp: fs_in_ops_def fs_seek_internal_def fs_in_ok_def fs_in_file_def)
next
  case (4 r p) then show ?case by (auto simp: fs_in_ops_def fs_seek_internal_def fs_in_ok_def fs_in_file_def)
qed

context posix_read
begin

lemma source: "raw_source (fs_in_ops sys_read sys_seek) (fs_in_file file_bytes) fi_pos (fs_in_ok file_bytes file_off)"
  by (rule fs.raw_source_axioms)

end

abbreviation fs_stream :: "('os \<Rightarrow> u8 list) \<Rightarrow> ('os \<Rightarrow> nat) \<Rightarrow> u8 list \<Rightarrow> 'os fs_in in_state \<Rightarrow> bool" where
  "fs_stream file_bytes file_off \<equiv> ib_stream (fs_in_file file_bytes) fi_pos (fs_in_ok file_bytes file_off)"

lemma take_drop_split: "n \<le> m \<Longrightarrow> take m (drop p f) = take n (drop p f) @ take (m - n) (drop (p + n) f)"
  by (metis add.commute drop_drop le_add_diff_inverse take_add)

locale fs_in_env = posix_read sys_read sys_seek file_bytes file_off + crc_extension crc_ext
  for sys_read :: "nat \<Rightarrow> 'os \<Rightarrow> read_result \<times> 'os" and sys_seek file_bytes file_off crc_ext
begin

lemma checksum_loop_correct:
  assumes "fs_in_ok file_bytes file_off i" "fi_pos i = pos" "e \<le> length (fs_in_file file_bytes i)" "buf \<noteq> []"
  shows "\<exists>i'. fs_checksum_loop sys_read sys_seek crc_ext pos e buf crc i =
      Some (crc_ext crc (take (e - pos) (drop pos (fs_in_file file_bytes i))), i') \<and>
    fs_in_ok file_bytes file_off i' \<and> fs_in_file file_bytes i' = fs_in_file file_bytes i"
  using assms
proof (induction "e - pos" arbitrary: pos i buf crc rule: less_induct)
  case less
  let ?f = "fs_in_file file_bytes i"
  show ?case
  proof (cases "pos < e")
    case False
    then show ?thesis using less.prems by (subst fs_checksum_loop.simps) (simp add: extend_nil)
  next
    case True
    let ?n = "min (e - pos) (length buf)"
    have n: "0 < ?n" "?n \<le> e - pos" using True less.prems(4) by auto
    let ?bs = "take ?n (drop pos ?f)"
    have len: "length ?bs = ?n" using less.prems(3) n(2) by simp
    obtain i1 where i1: "fs_read_internal sys_read sys_seek ?n i = Some (?bs, i1)" "fs_in_ok file_bytes file_off i1"
      "fs_in_file file_bytes i1 = ?f" "fi_pos i1 = pos + ?n"
      using read_internal_correct [OF less.prems(1), of ?n] less.prems(2) len by auto
    let ?buf = "?bs @ drop ?n buf"
    have buf: "take ?n ?buf = ?bs" "?buf \<noteq> []" using len n(1) by auto
    have "e - (pos + ?n) < e - pos" using True n(1) by linarith
    from less.hyps [OF this i1(2,4), of ?buf "crc_ext crc ?bs"] less.prems(3) i1(3) buf(2) obtain i' where
      i': "fs_checksum_loop sys_read sys_seek crc_ext (pos + ?n) e ?buf (crc_ext crc ?bs) i1 =
        Some (crc_ext (crc_ext crc ?bs) (take (e - (pos + ?n)) (drop (pos + ?n) ?f)), i')"
      "fs_in_ok file_bytes file_off i'" "fs_in_file file_bytes i' = ?f" by auto
    have "take (e - pos) (drop pos ?f) = ?bs @ take (e - (pos + ?n)) (drop (pos + ?n) ?f)"
      using take_drop_split [OF n(2), of pos ?f] by (simp add: diff_diff_left)
    then have "fs_checksum_loop sys_read sys_seek crc_ext pos e buf crc i =
        Some (crc_ext crc (take (e - pos) (drop pos ?f)), i')"
      using True i1(1) i'(1) buf(1) len by (subst fs_checksum_loop.simps) (simp add: Let_def extend_append)
    then show ?thesis using i'(2,3) by blast
  qed
qed

lemma checksum_correct:
  assumes "fs_stream file_bytes file_off f s" "buf \<noteq> []"
  shows "\<exists>s'. fs_in_checksum sys_read sys_seek crc_ext buf offset s =
      Some (ucast (crc_ext 0 (take offset (drop (ib_file_pointer s + ib_remain s) f))), s') \<and>
    fs_stream file_bytes file_off f s' \<and> ib_rest (fs_in_file file_bytes) s' = ib_rest (fs_in_file file_bytes) s"
proof -
  let ?i = "ib_raw s" and ?b = "ib_file_pointer s + ib_remain s"
  have i: "fs_in_ok file_bytes file_off ?i" "fs_in_file file_bytes ?i = f" "fi_pos ?i = ?b" "?b \<le> length f"
    "fh_size (fi_handle ?i) = length f"
    using assms(1)
    by (auto simp: ib_stream_def ib_invar_def ib_file_def ib_file_pointer_def ib_remain_def fs_in_ok_def fs_in_file_def)
  let ?e = "min (?b + offset) (length f)"
  have t: "take (?e - ?b) (drop ?b f) = take offset (drop ?b f)" using i(4) by (auto simp: min_def)
  obtain i' where i': "fs_checksum_loop sys_read sys_seek crc_ext ?b ?e buf 0 ?i =
      Some (crc_ext 0 (take offset (drop ?b f)), i')" "fs_in_ok file_bytes file_off i'" "fs_in_file file_bytes i' = f"
    using checksum_loop_correct [OF i(1,3), of ?e buf 0] assms(2) i(2) t by auto
  let ?s = "s\<lparr>ib_raw := i'\<lparr>fi_pos := ?b\<rparr>\<rparr>"
  have "fs_in_checksum sys_read sys_seek crc_ext buf offset s = Some (ucast (crc_ext 0 (take offset (drop ?b f))), ?s)"
    using i'(1) i(3,5) by (simp add: fs_in_checksum_def Let_def)
  moreover have "fs_stream file_bytes file_off f ?s"
    using assms(1) i' i(3)
    by (auto simp: ib_stream_def ib_invar_def ib_file_def fs_in_ok_def fs_in_file_def)
  moreover have "ib_rest (fs_in_file file_bytes) ?s = ib_rest (fs_in_file file_bytes) s"
    using i'(3) i(2) by (simp add: ib_rest_def ib_file_def ib_file_pointer_def fs_in_file_def)
  ultimately show ?thesis by blast
qed

end

text \<open>An input does not depend on where a copy left the shared handle.\<close>

lemma fs_with_handle_stream:
  assumes "fs_stream file_bytes file_off f s" "fh_size h = length f" "file_bytes (fh_os h) = f" "file_off (fh_os h) = fh_pos h"
  shows "fs_stream file_bytes file_off f (fs_with_handle h s) \<and>
    ib_rest (fs_in_file file_bytes) (fs_with_handle h s) = ib_rest (fs_in_file file_bytes) s"
  using assms
  by (auto simp: ib_stream_def ib_invar_def ib_file_def ib_rest_def ib_file_pointer_def fs_with_handle_def fs_in_ok_def fs_in_file_def)

lemma fs_stream_handle:
  "fs_stream file_bytes file_off f s \<Longrightarrow> fh_size (fi_handle (ib_raw s)) = length f \<and>
    file_bytes (fh_os (fi_handle (ib_raw s))) = f \<and> file_off (fh_os (fi_handle (ib_raw s))) = fh_pos (fi_handle (ib_raw s))"
  by (auto simp: ib_stream_def ib_invar_def ib_file_def fs_in_ok_def fs_in_file_def)

lemma fs_dup_stream:
  assumes "fs_stream file_bytes file_off f s"
  shows "fs_stream file_bytes file_off f (fs_dup s) \<and>
    ib_rest (fs_in_file file_bytes) (fs_dup s) = ib_rest (fs_in_file file_bytes) s"
  using assms
  by (auto simp: fs_dup_def ib_reset_def ib_stream_def ib_invar_def ib_file_def ib_rest_def ib_file_pointer_def fs_in_ok_def fs_in_file_def)

section \<open>Properties\<close>

text \<open>
  C33: a copy made by \<open>dup\<close> starts at the same place, and reading through it, which moves the
  shared handle, does not disturb the original: the original then reads exactly the bytes it would have
  read, and the copy goes on where it was after the original has read.
\<close>

theorem dup_isolated:
  assumes "posix_read sys_read sys_seek file_bytes file_off" "fs_stream file_bytes file_off f s"
  shows "\<exists>d1 s1 d2. ib_read_bytes (fs_in_ops sys_read sys_seek) n (fs_dup s) =
      Some (take n (ib_rest (fs_in_file file_bytes) s), d1) \<and>
    ib_read_bytes (fs_in_ops sys_read sys_seek) m (fs_with_handle (fi_handle (ib_raw d1)) s) =
      Some (take m (ib_rest (fs_in_file file_bytes) s), s1) \<and>
    ib_read_bytes (fs_in_ops sys_read sys_seek) k (fs_with_handle (fi_handle (ib_raw s1)) d1) =
      Some (take k (drop n (ib_rest (fs_in_file file_bytes) s)), d2)"
proof -
  let ?ops = "fs_in_ops sys_read sys_seek" and ?R = "ib_rest (fs_in_file file_bytes)"
  have src: "raw_source ?ops (fs_in_file file_bytes) fi_pos (fs_in_ok file_bytes file_off)"
    using assms(1) by (rule posix_read.source)
  note rd = raw_source.read_bytes_correct [OF src, unfolded reads_def, simplified]
  obtain d1 where d1: "ib_read_bytes ?ops n (fs_dup s) = Some (take n (?R s), d1)" "fs_stream file_bytes file_off f d1"
    "?R d1 = drop n (?R s)"
    using rd fs_dup_stream [OF assms(2)] by metis
  note h1 = fs_with_handle_stream [OF assms(2)] fs_stream_handle [OF d1(2)]
  obtain s1 where s1: "ib_read_bytes ?ops m (fs_with_handle (fi_handle (ib_raw d1)) s) = Some (take m (?R s), s1)"
    "fs_stream file_bytes file_off f s1"
    using rd h1 by metis
  note h2 = fs_with_handle_stream [OF d1(2)] fs_stream_handle [OF s1(2)]
  obtain d2 where "ib_read_bytes ?ops k (fs_with_handle (fi_handle (ib_raw s1)) d1) = Some (take k (?R d1), d2)"
    using rd h2 by metis
  with d1 s1 show ?thesis by auto
qed


text \<open>A file of which at most two bytes are delivered per call.\<close>

definition slow_read :: "nat \<Rightarrow> u8 list \<times> nat \<Rightarrow> read_result \<times> (u8 list \<times> nat)" where
  "slow_read n os = (let bs = take (min 2 n) (drop (snd os) (fst os)) in (ReadData bs, (fst os, snd os + length bs)))"

definition slow_seek :: "nat \<Rightarrow> u8 list \<times> nat \<Rightarrow> (u8 list \<times> nat) option" where
  "slow_seek p os = Some (fst os, p)"

interpretation slow_file: fs_in_env slow_read slow_seek fst snd crc32c_extend
  by unfold_locales (auto simp: slow_read_def slow_seek_def Let_def min_def)

definition sample_handle :: "(u8 list \<times> nat) file_handle" where
  "sample_handle = \<lparr>fh_os = ([1, 2, 3, 4, 5], 0), fh_size = 5, fh_pos = 0\<rparr>"

lemma sample_handle_stream: "fs_stream fst snd [1, 2, 3, 4, 5] (fs_in_open sample_handle)"
  by (simp add: fs_in_open_def sample_handle_def ib_reset_def ib_stream_def ib_invar_def ib_file_def fs_in_ok_def fs_in_file_def)

lemma sample_handle_rest: "ib_rest (fs_in_file fst) (fs_in_open sample_handle) = [1, 2, 3, 4, 5]"
  by (simp add: fs_in_open_def sample_handle_def ib_reset_def ib_rest_def ib_file_def ib_file_pointer_def fs_in_file_def)

theorem dup_isolated_witness:
  "\<exists>d1 s1. ib_read_bytes (fs_in_ops slow_read slow_seek) 4 (fs_dup (fs_in_open sample_handle)) = Some ([1, 2, 3, 4], d1) \<and>
     ib_read_bytes (fs_in_ops slow_read slow_seek) 2 (fs_with_handle (fi_handle (ib_raw d1)) (fs_in_open sample_handle)) =
       Some ([1, 2], s1)"
  using dup_isolated [OF slow_file.posix_read_axioms sample_handle_stream, of 4 2 0]
  unfolding sample_handle_rest by auto


end
