(* ===== verification/IndexFile.thy ===== *)
theory IndexFile
  imports DataStreams FsOutput FsInput
begin

text \<open>
  Files as the formats see them: \<open>index_output\<close> with its \<open>checksum\<close>, and \<open>index_input\<close> with \<open>length\<close>, \<open>checksum\<close> and
  \<open>dup\<close> (\<open>core/store/data_output.hpp\<close>, \<open>core/store/data_input.hpp\<close>), as records of functions over the streams of
  \<open>DataStreams\<close>. The contracts are the locales \<open>file_sink\<close> and \<open>file_source\<close>; files on a disk are instances.
\<close>

section \<open>Writing\<close>

record 'o file_out =
  fw_io :: "'o index_out"
  fw_checksum :: "'o \<Rightarrow> (u64 \<times> 'o) option"

text \<open>A stream that takes every write and knows the CRC of all it has taken.\<close>

locale file_sink = index_sink "fw_io fo" contents ok
  for fo :: "'o file_out" and contents :: "'o \<Rightarrow> u8 list" and ok :: "'o \<Rightarrow> bool" +
  fixes crc_ext :: "u32 \<Rightarrow> u8 list \<Rightarrow> u32"
  assumes checksum_law: "ok s \<Longrightarrow> \<exists>s'. fw_checksum fo s = Some (ucast (crc_ext 0 (contents s)), s') \<and>
    contents s' = contents s \<and> ok s'"

definition fs_file_out ::
  "(u8 list \<Rightarrow> 'os \<Rightarrow> sys_result \<times> 'os) \<Rightarrow> (u32 \<Rightarrow> u8 list \<Rightarrow> u32) \<Rightarrow> 'os fs_out out_state file_out" where
  "fs_file_out sys_write crc_ext =
     \<lparr>fw_io = ob_io (fs_flush_buffer sys_write crc_ext), fw_checksum = fs_checksum sys_write crc_ext\<rparr>"

lemma fs_file_out_simps [simp]:
  "fw_io (fs_file_out sys_write crc_ext) = ob_io (fs_flush_buffer sys_write crc_ext)"
  "fw_checksum (fs_file_out sys_write crc_ext) = fs_checksum sys_write crc_ext"
  by (simp_all add: fs_file_out_def)

context fs_env_ok
begin

lemma checksum_at:
  assumes "ob_invar (fs_file file_bytes) (fs_ok file_bytes crc_ext) s"
  shows "\<exists>s'. fs_checksum sys_write crc_ext s = Some (ucast (crc_ext 0 (ob_contents (fs_file file_bytes) s)), s') \<and>
    ob_contents (fs_file file_bytes) s' = ob_contents (fs_file file_bytes) s \<and>
    ob_invar (fs_file file_bytes) (fs_ok file_bytes crc_ext) s'"
proof -
  obtain s1 where s1: "ob_flush (fs_flush_buffer sys_write crc_ext) s = Some s1" using fs.flush_some by blast
  then have i: "ob_invar (fs_file file_bytes) (fs_ok file_bytes crc_ext) s1"
    "ob_contents (fs_file file_bytes) s1 = ob_contents (fs_file file_bytes) s"
    using fs.flush_appends [OF assms] by (auto simp: ob_appends_def)
  then have "fo_crc (ob_raw s1) = crc_ext 0 (ob_contents (fs_file file_bytes) s)"
    using fs.flush_pos [OF s1] by (auto simp: ob_contents_def ob_invar_def fs_file_def fs_ok_def)
  with i s1 show ?thesis by (auto simp: fs_checksum_def)
qed

lemma open_ok:
  assumes "file_bytes os = []" "buf \<noteq> []"
  shows "ob_invar (fs_file file_bytes) (fs_ok file_bytes crc_ext) (fs_open os buf)"
    "ob_contents (fs_file file_bytes) (fs_open os buf) = []"
  using fs.reset_invar [OF assms(2), of "\<lparr>fo_os = os, fo_crc = 0\<rparr>"] assms(1)
  by (simp_all add: fs_open_def fs_file_def fs_ok_def extend_nil)

end

sublocale fs_env_ok \<subseteq> disk: file_sink "fs_file_out sys_write crc_ext"
  "ob_contents (fs_file file_bytes)" "ob_invar (fs_file file_bytes) (fs_ok file_bytes crc_ext)" crc_ext
  using checksum_at fs.buffered.index_sink_axioms by (simp add: file_sink_def file_sink_axioms_def)

section \<open>Reading\<close>

text \<open>
  \<open>fr_share s d\<close> is the stream \<open>s\<close> after its copy \<open>d\<close> has been used: the two may have a handle in common.
\<close>

record 'i file_in =
  fr_io :: "'i index_in"
  fr_length :: "'i \<Rightarrow> nat"
  fr_checksum :: "nat \<Rightarrow> 'i \<Rightarrow> (u64 \<times> 'i) option"
  fr_dup :: "'i \<Rightarrow> 'i option"
  fr_share :: "'i \<Rightarrow> 'i \<Rightarrow> 'i"

text \<open>
  The checksum of the first bytes of the file is promised for a stream at the start that is \<open>fresh\<close>, as it is
  after opening, or after a copy was moved there.
\<close>

locale file_source = index_reader "fr_io fi" stream rest
  for fi :: "'i file_in" and stream :: "u8 list \<Rightarrow> 'i \<Rightarrow> bool" and rest :: "'i \<Rightarrow> u8 list" +
  fixes fresh :: "'i \<Rightarrow> bool" and crc_ext :: "u32 \<Rightarrow> u8 list \<Rightarrow> u32"
  assumes length_law: "stream f s \<Longrightarrow> fr_length fi s = length f"
    and checksum_law: "stream f s \<Longrightarrow> fresh s \<Longrightarrow> in_pointer (fr_io fi) s = 0 \<Longrightarrow> n \<le> length f \<Longrightarrow>
      \<exists>s'. fr_checksum fi n s = Some (ucast (crc_ext 0 (take n f)), s') \<and> stream f s' \<and> rest s' = rest s"
    and dup_law: "stream f s \<Longrightarrow> f \<noteq> [] \<Longrightarrow> \<exists>d d'. fr_dup fi s = Some d \<and> stream f d \<and> rest d = rest s \<and>
      in_seek (fr_io fi) 0 d = Some d' \<and> stream f d' \<and> fresh d' \<and> in_pointer (fr_io fi) d' = 0"
    and share_law: "stream f s \<Longrightarrow> stream f d \<Longrightarrow> stream f (fr_share fi s d) \<and> rest (fr_share fi s d) = rest s"

definition fs_file_in ::
  "(nat \<Rightarrow> 'os \<Rightarrow> read_result \<times> 'os) \<Rightarrow> (nat \<Rightarrow> 'os \<Rightarrow> 'os option) \<Rightarrow> (u32 \<Rightarrow> u8 list \<Rightarrow> u32) \<Rightarrow> u8 list \<Rightarrow>
   'os fs_in in_state file_in" where
  "fs_file_in sys_read sys_seek crc_ext buf =
     \<lparr>fr_io = ib_io (fs_in_ops sys_read sys_seek), fr_length = fs_length \<circ> ib_raw,
      fr_checksum = fs_in_checksum sys_read sys_seek crc_ext buf, fr_dup = Some \<circ> fs_dup,
      fr_share = (\<lambda>s d. fs_with_handle (fi_handle (ib_raw d)) s)\<rparr>"

lemma fs_file_in_simps [simp]:
  "fr_io (fs_file_in sys_read sys_seek crc_ext buf) = ib_io (fs_in_ops sys_read sys_seek)"
  "fr_length (fs_file_in sys_read sys_seek crc_ext buf) s = fs_length (ib_raw s)"
  "fr_checksum (fs_file_in sys_read sys_seek crc_ext buf) = fs_in_checksum sys_read sys_seek crc_ext buf"
  "fr_dup (fs_file_in sys_read sys_seek crc_ext buf) s = Some (fs_dup s)"
  "fr_share (fs_file_in sys_read sys_seek crc_ext buf) s d = fs_with_handle (fi_handle (ib_raw d)) s"
  by (simp_all add: fs_file_in_def)

context fs_in_env
begin

lemma dup_rewound:
  assumes "fs_stream file_bytes file_off f s"
  shows "\<exists>d. ib_seek (fs_in_ops sys_read sys_seek) 0 (fs_dup s) = Some d \<and> fs_stream file_bytes file_off f d \<and>
    ib_file_pointer d = 0 \<and> ib_remain d = 0"
proof -
  have dup: "fs_stream file_bytes file_off f (fs_dup s)" using fs_dup_stream [OF assms] by blast
  show ?thesis using fs.seek_correct [OF dup, of 0]
    by (auto simp: ib_seek_def fs_dup_def ib_reset_def ib_remain_def ib_file_pointer_def bind_eq_Some_conv split: if_splits)
qed

lemma disk_source:
  assumes "buf \<noteq> []"
  shows "file_source (fs_file_in sys_read sys_seek crc_ext buf) (fs_stream file_bytes file_off)
    (ib_rest (fs_in_file file_bytes)) (\<lambda>s. ib_remain s = 0) crc_ext"
proof -
  have io: "in_pointer (ib_io (fs_in_ops sys_read sys_seek)) = ib_file_pointer"
    "in_seek (ib_io (fs_in_ops sys_read sys_seek)) = ib_seek (fs_in_ops sys_read sys_seek)" by (simp_all add: ib_io_def)
  have "file_source_axioms (fs_file_in sys_read sys_seek crc_ext buf) (fs_stream file_bytes file_off)
    (ib_rest (fs_in_file file_bytes)) (\<lambda>s. ib_remain s = 0) crc_ext"
  proof (unfold_locales, goal_cases)
    case (1 f s)
    then show ?case using fs_stream_handle [OF 1] by (simp add: fs_length_def)
  next
    case (2 f s n)
    then show ?case using checksum_correct [OF 2(1) assms, of n] by (auto simp: io)
  next
    case (3 f s)
    then show ?case using dup_rewound [OF 3(1)] fs_dup_stream [OF 3(1)] by (auto simp: io)
  next
    case (4 f s d)
    then show ?case using fs_with_handle_stream [OF 4(1)] fs_stream_handle [OF 4(2)] by simp
  qed
  then show ?thesis using fs.buffered.index_reader_axioms by (simp add: file_source_def)
qed

end

lemma fs_in_open_stream:
  assumes "file_bytes (fh_os h) = f" "fh_size h = length f" "file_off (fh_os h) = fh_pos h"
  shows "fs_stream file_bytes file_off f (fs_in_open h)" "ib_rest (fs_in_file file_bytes) (fs_in_open h) = f"
  using assms
  by (simp_all add: fs_in_open_def ib_reset_def ib_stream_def ib_invar_def ib_file_def ib_rest_def ib_file_pointer_def
      fs_in_ok_def fs_in_file_def)

section \<open>Strings\<close>

text \<open>\<open>write_string\<close> and \<open>read_string\<close> of \<open>core/store/store_utils.hpp\<close>; the source asserts that all of the string was there.\<close>

definition string_ops :: "u8 list \<Rightarrow> out_op list" where
  "string_ops str = [WriteVint (word_of_nat (length str)), WriteBytes str]"

definition in_string :: "'i index_in \<Rightarrow> 'i \<Rightarrow> (u8 list \<times> 'i) option" where
  "in_string io s = do {
     (n, s1) \<leftarrow> in_vint io s;
     let len = unat n;
     (got, s2) \<leftarrow> in_bytes io len s1;
     Some (got @ replicate (len - length got) 0, s2)
   }"

lemma string_ops_bytes: "concat (map op_bytes (string_ops str)) = write_string str"
  by (simp add: string_ops_def write_string_def)

text \<open>Results of the reading operations, one fact per operation, when decoding succeeds.\<close>

lemma readsD: "reads iv rest res (Some (v, bs)) \<Longrightarrow> \<exists>s'. res = Some (v, s') \<and> iv s' \<and> rest s' = bs"
  by (simp add: reads_def)

context index_reader
begin

lemma string_law:
  assumes "stream f s"
  shows "reads (stream f) rest (in_string io s) (read_string (rest s))"
proof (cases "vread_u32 (rest s)")
  case None
  with vint_law [OF assms] show ?thesis by (simp add: reads_def in_string_def read_string_def)
next
  case (Some p)
  obtain n bs1 where p: "p = (n, bs1)" by fastforce
  obtain s1 where s1: "in_vint io s = Some (n, s1)" "stream f s1" "rest s1 = bs1"
    using readsD [OF vint_law [OF assms, unfolded Some p]] by blast
  from readsD [OF bytes_law [OF s1(2), of "unat n", unfolded s1(3)]] s1(1) Some p show ?thesis
    by (auto simp: reads_def in_string_def read_string_def Let_def)
qed

lemma string_at:
  assumes "stream f s" "rest s = write_string str @ r" "length str < 2 ^ 32"
  shows "\<exists>s'. in_string io s = Some (str, s') \<and> stream f s' \<and> rest s' = r"
proof -
  have "unat (word_of_nat (length str) :: u32) = length str" using assms(3) by (simp add: unat_of_nat take_bit_nat_eq_self)
  then have "read_string (rest s) = Some (str, r)"
    using assms(2) by (simp add: read_string_def write_string_def vread_u32_vwrite)
  with string_law [OF assms(1)] show ?thesis by (simp add: reads_def)
qed

end

end
