(* ===== verification/FormatUtils.thy ===== *)
theory FormatUtils
  imports IndexFile
begin

text \<open>
  The frame of every index file, \<open>core/formats/format_utils.cpp\<close>: a header with a magic number, the
  format name and a version, and a footer with a magic number, an algorithm id and the CRC of
  everything before it. Any output and input with a checksum will do; files on a disk are one instance.
\<close>

section \<open>Writing\<close>

definition kFormatMagic :: u32 where "kFormatMagic = 0x3fd76c17"

definition kFooterMagic :: u32 where "kFooterMagic = - kFormatMagic"

definition kFooterLen :: nat where "kFooterLen = 2 * 4 + 8"

text \<open>The calls of \<open>write_header\<close>.\<close>

definition header_ops :: "u8 list \<Rightarrow> u32 \<Rightarrow> out_op list" where
  "header_ops format ver = WriteInt kFormatMagic # string_ops format @ [WriteInt ver]"

definition write_header :: "'o file_out \<Rightarrow> u8 list \<Rightarrow> u32 \<Rightarrow> 'o \<Rightarrow> 'o option" where
  "write_header fo format ver s = out_run (fw_io fo) (header_ops format ver) s"

definition write_footer :: "'o file_out \<Rightarrow> 'o \<Rightarrow> 'o option" where
  "write_footer fo s = do {
     s1 \<leftarrow> out_run (fw_io fo) [WriteInt kFooterMagic, WriteInt 0] s;
     (crc, s2) \<leftarrow> fw_checksum fo s1;
     out_do (fw_io fo) (WriteLong crc) s2
   }"

definition header_length :: "u8 list \<Rightarrow> nat" where
  "header_length format = 4 * 2 + vsize_u64 (word_of_nat (length format)) + length format"

section \<open>Reading\<close>

text \<open>\<open>illegal_state\<close>, \<open>index_error\<close>, \<open>io_error\<close>, and what is no exception: a failing stream, assertion or pointer.\<close>

datatype format_error = IllegalState | IndexError | IoError | Undefined

text \<open>A call inside a function that may throw.\<close>

definition lift_in :: "'a option \<Rightarrow> ('a \<Rightarrow> format_error + 'b) \<Rightarrow> format_error + 'b" where
  "lift_in r k = (case r of None \<Rightarrow> Inl Undefined | Some x \<Rightarrow> k x)"

text \<open>The distance of the position from the end of the file; it may be negative.\<close>

definition bytes_left :: "'i file_in \<Rightarrow> 'i \<Rightarrow> int" where
  "bytes_left fi s = int (fr_length fi s) - int (in_pointer (fr_io fi) s)"

definition check_header :: "'i file_in \<Rightarrow> u8 list \<Rightarrow> int \<Rightarrow> int \<Rightarrow> 'i \<Rightarrow> format_error + (u32 \<times> 'i)" where
  "check_header fi req_format min_ver max_ver s =
     (let left = bytes_left fi s in
      if left < 0 then Inl IllegalState
      else if nat left < header_length req_format then Inl IndexError
      else lift_in (in_int (fr_io fi) s) (\<lambda>(magic, s1).
        if magic \<noteq> kFormatMagic then Inl IndexError
        else lift_in (in_string (fr_io fi) s1) (\<lambda>(format, s2).
          if format \<noteq> req_format then Inl IndexError
          else lift_in (in_int (fr_io fi) s2) (\<lambda>(ver, s3).
            if sint ver < min_ver \<or> max_ver < sint ver then Inl IndexError
            else Inr (ver, s3)))))"

definition validate_footer :: "'i file_in \<Rightarrow> 'i \<Rightarrow> format_error + 'i" where
  "validate_footer fi s =
     (if bytes_left fi s \<noteq> int kFooterLen then Inl IndexError
      else lift_in (in_int (fr_io fi) s) (\<lambda>(magic, s1).
        if magic \<noteq> kFooterMagic then Inl IndexError
        else lift_in (in_int (fr_io fi) s1) (\<lambda>(alg_id, s2).
          if alg_id \<noteq> 0 then Inl IndexError else Inr s2)))"

definition read_checksum :: "'i file_in \<Rightarrow> 'i \<Rightarrow> format_error + (u64 \<times> 'i)" where
  "read_checksum fi s =
     lift_in (in_seek (fr_io fi) ((fr_length fi s + 2 ^ 64 - kFooterLen) mod 2 ^ 64) s) (\<lambda>s1.
       case validate_footer fi s1 of Inl e \<Rightarrow> Inl e
       | Inr s2 \<Rightarrow> lift_in (in_long (fr_io fi) s2) Inr)"

definition check_footer :: "'i file_in \<Rightarrow> u64 \<Rightarrow> 'i \<Rightarrow> format_error + (u64 \<times> 'i)" where
  "check_footer fi checksum s =
     (case validate_footer fi s of Inl e \<Rightarrow> Inl e
      | Inr s1 \<Rightarrow> lift_in (in_long (fr_io fi) s1) (\<lambda>(c, s2).
          if checksum \<noteq> c then Inl IndexError else Inr (checksum, s2)))"

text \<open>
  \<open>format_utils::checksum\<close>: over a copy moved to the start, unless the input already stands there.
  The input itself is not moved; a handle it shares with the copy may be.
\<close>

definition format_checksum :: "'i file_in \<Rightarrow> 'i \<Rightarrow> format_error + (u64 \<times> 'i)" where
  "format_checksum fi s =
     (let len = fr_length fi s in
      if len < 8 then Inl IndexError
      else if in_pointer (fr_io fi) s \<noteq> 0 then
        (case fr_dup fi s of None \<Rightarrow> Inl IoError
         | Some d \<Rightarrow> lift_in (in_seek (fr_io fi) 0 d) (\<lambda>d1.
             lift_in (fr_checksum fi (len - 8) d1) (\<lambda>(c, d2). Inr (c, fr_share fi s d2))))
      else lift_in (fr_checksum fi (len - 8) s) Inr)"

section \<open>The frame as bytes\<close>

definition header_bytes :: "u8 list \<Rightarrow> u32 \<Rightarrow> u8 list" where
  "header_bytes format ver = write_u32 kFormatMagic @ write_string format @ write_u32 ver"

definition footer_bytes :: "(u32 \<Rightarrow> u8 list \<Rightarrow> u32) \<Rightarrow> u8 list \<Rightarrow> u8 list" where
  "footer_bytes crc_ext body =
     (let pre = write_u32 kFooterMagic @ write_u32 0 in pre @ write_u64 (ucast (crc_ext 0 (body @ pre))))"

lemma header_ops_bytes: "concat (map op_bytes (header_ops format ver)) = header_bytes format ver"
  by (simp add: header_ops_def header_bytes_def string_ops_bytes)

lemma lift_in_simps [simp]: "lift_in (Some x) k = k x" "lift_in None k = Inl Undefined"
  by (simp_all add: lift_in_def)

lemma length_footer_bytes: "length (footer_bytes crc_ext body) = kFooterLen"
  by (simp add: footer_bytes_def kFooterLen_def write_u32_def write_u64_def Let_def)

lemma length_header_bytes:
  assumes "length format < 2 ^ 32"
  shows "length (header_bytes format ver) = header_length format"
proof -
  have "unat (word_of_nat (length format) :: u32) = length format" "unat (word_of_nat (length format) :: u64) = length format"
    using assms by (simp_all add: unat_of_nat take_bit_nat_eq_self)
  then have "vwrite_u32 (word_of_nat (length format)) = vwrite_u64 (word_of_nat (length format))"
    by (simp add: vwrite_u32_vnat vwrite_u64_vnat)
  then show ?thesis
    by (simp add: header_bytes_def header_length_def write_string_def write_u32_def vsize_length)
qed

section \<open>Reading a frame\<close>

context file_source
begin

lemma left_at: "stream f s \<Longrightarrow> bytes_left fi s = int (length (rest s))"
  using pointer_law [of f s] length_law [of f s] by (simp add: bytes_left_def)

lemma check_header_at:
  assumes "stream f s" "rest s = header_bytes format ver @ bs" "length format < 2 ^ 32"
  shows "\<exists>s'. check_header fi req lo hi s =
      (if length (rest s) < header_length req \<or> format \<noteq> req \<or> sint ver < lo \<or> hi < sint ver
       then Inl IndexError else Inr (ver, s')) \<and>
    stream f s' \<and> rest s' = bs"
proof -
  obtain s1 where s1: "in_int (fr_io fi) s = Some (kFormatMagic, s1)" "stream f s1"
    "rest s1 = write_string format @ write_u32 ver @ bs"
    using int_at [OF assms(1)] assms(2) by (auto simp: header_bytes_def)
  obtain s2 where s2: "in_string (fr_io fi) s1 = Some (format, s2)" "stream f s2"
    "rest s2 = write_u32 ver @ bs"
    using string_at [OF s1(2,3) assms(3)] by blast
  obtain s3 where s3: "in_int (fr_io fi) s2 = Some (ver, s3)" "stream f s3" "rest s3 = bs"
    using int_at [OF s2(2,3)] by blast
  show ?thesis
    by (intro exI [of _ s3]) (auto simp: check_header_def left_at [OF assms(1)] s1(1) s2(1) s3 Let_def)
qed

lemma validate_footer_at:
  assumes "stream f s" "rest s = write_u32 kFooterMagic @ write_u32 0 @ bs" "length bs = 8"
  shows "\<exists>s'. validate_footer fi s = Inr s' \<and> stream f s' \<and> rest s' = bs"
proof -
  obtain s1 where s1: "in_int (fr_io fi) s = Some (kFooterMagic, s1)" "stream f s1"
    "rest s1 = write_u32 0 @ bs"
    using int_at [OF assms(1,2)] by blast
  obtain s2 where s2: "in_int (fr_io fi) s1 = Some (0, s2)" "stream f s2" "rest s2 = bs"
    using int_at [OF s1(2,3)] by blast
  have "length (rest s) = kFooterLen" using assms(2,3) by (simp add: kFooterLen_def write_u32_def)
  then show ?thesis using s1(1) s2 by (simp add: validate_footer_def left_at [OF assms(1)] Let_def)
qed

lemma check_footer_at:
  assumes "stream f s" "rest s = footer_bytes crc_ext body"
  defines "c \<equiv> ucast (crc_ext 0 (body @ write_u32 kFooterMagic @ write_u32 0))"
  shows "\<exists>s'. check_footer fi checksum s = (if checksum = c then Inr (c, s') else Inl IndexError) \<and>
    stream f s' \<and> rest s' = []"
proof -
  obtain s1 where s1: "validate_footer fi s = Inr s1" "stream f s1"
    "rest s1 = write_u64 c @ []"
    using validate_footer_at [OF assms(1), of "write_u64 c"] assms(2)
    by (auto simp: footer_bytes_def Let_def c_def write_u64_def write_u32_def)
  obtain s2 where "in_long (fr_io fi) s1 = Some (c, s2)" "stream f s2" "rest s2 = []"
    using long_at [OF s1(2,3)] by blast
  then show ?thesis using s1(1) by (auto simp: check_footer_def)
qed

lemma read_checksum_at:
  assumes "stream f s" "f = body @ footer_bytes crc_ext body" "length f < 2 ^ 64"
  shows "\<exists>s'. read_checksum fi s = Inr (ucast (crc_ext 0 (body @ write_u32 kFooterMagic @ write_u32 0)), s') \<and>
    stream f s' \<and> rest s' = []"
proof -
  let ?c = "ucast (crc_ext 0 (body @ write_u32 kFooterMagic @ write_u32 0)) :: u64"
  have "fr_length fi s = length f" using assms(1) by (rule length_law)
  then have p: "(fr_length fi s + 2 ^ 64 - kFooterLen) mod 2 ^ 64 = length body"
    using assms(2,3) length_footer_bytes [of crc_ext body] by (simp add: kFooterLen_def)
  obtain s1 where s1: "in_seek (fr_io fi) (length body) s = Some s1" "stream f s1"
    "rest s1 = footer_bytes crc_ext body"
    using inside_law [OF assms(1), of "length body"] assms(2) length_footer_bytes [of crc_ext body] by (auto simp: kFooterLen_def)
  obtain s2 where s2: "validate_footer fi s1 = Inr s2" "stream f s2"
    "rest s2 = write_u64 ?c @ []"
    using validate_footer_at [OF s1(2), of "write_u64 ?c"] s1(3)
    by (auto simp: footer_bytes_def Let_def write_u64_def write_u32_def)
  obtain s3 where "in_long (fr_io fi) s2 = Some (?c, s3)" "stream f s3" "rest s3 = []"
    using long_at [OF s2(2,3)] by blast
  then show ?thesis using s1(1) s2(1) unfolding read_checksum_def p by simp
qed

text \<open>What \<open>check_header\<close> accepts, exactly, on any input.\<close>

lemma check_header_iff:
  assumes "stream f s"
  shows "(\<exists>s'. check_header fi req lo hi s = Inr (ver, s') \<and> stream f s' \<and> rest s' = bs) \<longleftrightarrow>
    header_length req \<le> length (rest s) \<and>
    (\<exists>r1 r2. read_u32 (rest s) = Some (kFormatMagic, r1) \<and> read_string r1 = Some (req, r2) \<and>
      read_u32 r2 = Some (ver, bs) \<and> lo \<le> sint ver \<and> sint ver \<le> hi)" (is "?L \<longleftrightarrow> ?R")
proof
  assume ?L
  then obtain s1 s2 s' where c: "header_length req \<le> length (rest s)"
    "in_int (fr_io fi) s = Some (kFormatMagic, s1)" "in_string (fr_io fi) s1 = Some (req, s2)"
    "in_int (fr_io fi) s2 = Some (ver, s')" "lo \<le> sint ver" "sint ver \<le> hi" "rest s' = bs"
    by (auto simp: check_header_def lift_in_def left_at [OF assms] Let_def split: if_splits option.splits)
  from int_law [OF assms] c(2) have r1: "read_u32 (rest s) = Some (kFormatMagic, rest s1)"
    "stream f s1" by (auto simp: reads_def split: option.splits)
  from string_law [OF r1(2)] c(3) have r2: "read_string (rest s1) = Some (req, rest s2)"
    "stream f s2" by (auto simp: reads_def split: option.splits)
  from int_law [OF r2(2)] c(4,7) have "read_u32 (rest s2) = Some (ver, bs)"
    by (auto simp: reads_def split: option.splits)
  with c r1 r2 show ?R by blast
next
  assume ?R
  then obtain r1 r2 where c: "header_length req \<le> length (rest s)"
    "read_u32 (rest s) = Some (kFormatMagic, r1)" "read_string r1 = Some (req, r2)"
    "read_u32 r2 = Some (ver, bs)" "lo \<le> sint ver" "sint ver \<le> hi" by blast
  obtain s1 where s1: "in_int (fr_io fi) s = Some (kFormatMagic, s1)" "stream f s1" "rest s1 = r1"
    using readsD [OF int_law [OF assms, unfolded c(2)]] by blast
  obtain s2 where s2: "in_string (fr_io fi) s1 = Some (req, s2)" "stream f s2" "rest s2 = r2"
    using readsD [OF string_law [OF s1(2), unfolded s1(3) c(3)]] by blast
  obtain s3 where s3: "in_int (fr_io fi) s2 = Some (ver, s3)" "stream f s3" "rest s3 = bs"
    using readsD [OF int_law [OF s2(2), unfolded s2(3) c(4)]] by blast
  show ?L by (intro exI [of _ s3]) (use c s1 s2 s3 in \<open>auto simp: check_header_def left_at [OF assms] Let_def\<close>)
qed

end

section \<open>Writing a frame\<close>

context file_sink
begin

lemma write_header_at:
  "ok s \<Longrightarrow> \<exists>s'. write_header fo format ver s = Some s' \<and> contents s' = contents s @ header_bytes format ver \<and> ok s'"
  using run_law [of s "header_ops format ver"] by (simp add: write_header_def header_ops_bytes)

lemma write_footer_at:
  assumes "ok s"
  shows "\<exists>s'. write_footer fo s = Some s' \<and> contents s' = contents s @ footer_bytes crc_ext (contents s) \<and> ok s'"
proof -
  obtain s1 where s1: "out_run (fw_io fo) [WriteInt kFooterMagic, WriteInt 0] s = Some s1" "ok s1"
    "contents s1 = contents s @ write_u32 kFooterMagic @ write_u32 0"
    using run_law [OF assms, of "[WriteInt kFooterMagic, WriteInt 0]"] by auto
  obtain s2 where s2: "fw_checksum fo s1 = Some (ucast (crc_ext 0 (contents s1)), s2)" "contents s2 = contents s1" "ok s2"
    using checksum_law [OF s1(2)] by blast
  obtain s3 where "out_do (fw_io fo) (WriteLong (ucast (crc_ext 0 (contents s1)))) s2 = Some s3"
    "contents s3 = contents s2 @ write_u64 (ucast (crc_ext 0 (contents s1)))" "ok s3"
    using do_law [OF s2(3), of "WriteLong (ucast (crc_ext 0 (contents s1)))"] by auto
  then show ?thesis using s1 s2 by (auto simp: write_footer_def footer_bytes_def Let_def)
qed

lemma frame_law:
  fixes format ver xs
  assumes "ok s" "contents s = []"
  defines "body \<equiv> header_bytes format ver @ concat (map op_bytes xs)"
  shows "\<exists>s1 s2 s3. write_header fo format ver s = Some s1 \<and> out_run (fw_io fo) xs s1 = Some s2 \<and> write_footer fo s2 = Some s3 \<and>
    contents s3 = body @ footer_bytes crc_ext body \<and> ok s3"
proof -
  obtain s1 where s1: "write_header fo format ver s = Some s1" "contents s1 = header_bytes format ver" "ok s1"
    using write_header_at [OF assms(1), of format ver] assms(2) by auto
  obtain s2 where s2: "out_run (fw_io fo) xs s1 = Some s2" "contents s2 = body" "ok s2"
    using run_law [OF s1(3), of xs] s1(2) by (auto simp: body_def)
  show ?thesis using write_footer_at [OF s2(3)] s1(1) s2(1,2) by auto
qed

end

text \<open>On a disk, with \<open>close\<close>.\<close>

context fs_env_ok
begin

lemma frame_at:
  fixes format ver xs
  assumes "file_bytes os = []" "buf \<noteq> []"
  defines "body \<equiv> header_bytes format ver @ concat (map op_bytes xs)"
  shows "\<exists>s1 s2 s3 s4. write_header (fs_file_out sys_write crc_ext) format ver (fs_open os buf) = Some s1 \<and>
    out_run (ob_io (fs_flush_buffer sys_write crc_ext)) xs s1 = Some s2 \<and>
    write_footer (fs_file_out sys_write crc_ext) s2 = Some s3 \<and>
    ob_close (fs_flush_buffer sys_write crc_ext) s3 = Some (length body + kFooterLen, s4) \<and>
    file_bytes (fo_os (ob_raw s4)) = body @ footer_bytes crc_ext body"
proof -
  obtain s1 s2 s3 where s: "write_header (fs_file_out sys_write crc_ext) format ver (fs_open os buf) = Some s1"
    "out_run (ob_io (fs_flush_buffer sys_write crc_ext)) xs s1 = Some s2" "write_footer (fs_file_out sys_write crc_ext) s2 = Some s3"
    "ob_contents (fs_file file_bytes) s3 = body @ footer_bytes crc_ext body"
    "ob_invar (fs_file file_bytes) (fs_ok file_bytes crc_ext) s3"
    using disk.frame_law [OF open_ok [OF assms(1,2)], of format ver xs] by (auto simp: body_def)
  obtain n s4 where s4: "ob_close (fs_flush_buffer sys_write crc_ext) s3 = Some (n, s4)" using fs.close_some [of s3] by fast
  with fs.close_correct [OF s(5) this] s show ?thesis by (auto simp: fs_file_def length_footer_bytes)
qed

end

section \<open>The checksum of a file\<close>

context file_source
begin

lemma format_checksum_law:
  assumes "stream f s" "8 \<le> length f" "in_pointer (fr_io fi) s = 0 \<Longrightarrow> fresh s"
  shows "\<exists>s'. format_checksum fi s = Inr (ucast (crc_ext 0 (take (length f - 8) f)), s') \<and> stream f s' \<and> rest s' = rest s"
proof (cases "in_pointer (fr_io fi) s = 0")
  case True
  then show ?thesis using checksum_law [OF assms(1) assms(3) True, of "length f - 8"] assms(2) True
    by (auto simp: format_checksum_def length_law [OF assms(1)])
next
  case False
  have "f \<noteq> []" using assms(2) by auto
  then obtain d d1 where d: "fr_dup fi s = Some d" "in_seek (fr_io fi) 0 d = Some d1" "stream f d1" "fresh d1" "in_pointer (fr_io fi) d1 = 0"
    using dup_law [OF assms(1)] by blast
  obtain d2 where "fr_checksum fi (length f - 8) d1 = Some (ucast (crc_ext 0 (take (length f - 8) f)), d2)" "stream f d2"
    using checksum_law [OF d(3-5), of "length f - 8"] by auto
  then show ?thesis using d share_law [OF assms(1), of d2] assms(2) False
    by (auto simp: format_checksum_def length_law [OF assms(1)])
qed

end

context fs_in_env
begin

lemma format_checksum_at:
  fixes s :: "'os fs_in in_state"
  assumes "fs_stream file_bytes file_off f s" "buf \<noteq> []"
  defines "from \<equiv> (if ib_file_pointer s = 0 then ib_remain s else 0)"
  shows "if length f < 8 then format_checksum (fs_file_in sys_read sys_seek crc_ext buf) s = Inl IndexError
    else \<exists>s'. format_checksum (fs_file_in sys_read sys_seek crc_ext buf) s =
        Inr (ucast (crc_ext 0 (take (length f - 8) (drop from f))), s') \<and>
      fs_stream file_bytes file_off f s' \<and> ib_rest (fs_in_file file_bytes) s' = ib_rest (fs_in_file file_bytes) s"
proof -
  let ?fi = "fs_file_in sys_read sys_seek crc_ext buf"
  have len: "fs_length (ib_raw s) = length f" using fs_stream_handle [OF assms(1)] by (simp add: fs_length_def)
  have io: "in_pointer (ib_io (fs_in_ops sys_read sys_seek)) s = ib_file_pointer s" by (simp add: ib_io_def)
  show ?thesis
  proof (cases "length f < 8 \<or> ib_file_pointer s \<noteq> 0")
    case True
    then show ?thesis using file_source.format_checksum_law [OF disk_source [OF assms(2)] assms(1)] io
      by (auto simp: from_def format_checksum_def len Let_def)
  next
    case False
    then show ?thesis using checksum_correct [OF assms(1,2), of "length f - 8"] io
      by (auto simp: from_def format_checksum_def len Let_def)
  qed
qed

end

section \<open>Properties\<close>

text \<open>
  On a disk that accepts data, \<open>write_header\<close>, any sequence of writes, \<open>write_footer\<close> and
  \<open>close\<close> leave the header, the encoded bytes and the footer with the CRC of everything before it in the
  file, and \<open>close\<close> reports the length of the file.
\<close>

theorem frame_written:
  assumes "fs_env_ok sys_write file_bytes crc_ext" "file_bytes os = []" "buf \<noteq> []"
  shows "\<exists>s1 s2 s3 s4. write_header (fs_file_out sys_write crc_ext) format ver (fs_open os buf) = Some s1 \<and>
    out_run (ob_io (fs_flush_buffer sys_write crc_ext)) xs s1 = Some s2 \<and>
    write_footer (fs_file_out sys_write crc_ext) s2 = Some s3 \<and>
    ob_close (fs_flush_buffer sys_write crc_ext) s3 =
      Some (length (header_bytes format ver @ concat (map op_bytes xs)) + kFooterLen, s4) \<and>
    file_bytes (fo_os (ob_raw s4)) = header_bytes format ver @ concat (map op_bytes xs) @
      footer_bytes crc_ext (header_bytes format ver @ concat (map op_bytes xs))"
  using fs_env_ok.frame_at [OF assms, of format ver xs] by simp

theorem frame_written_witness:
  "\<exists>s1 s2 s3 n s4. write_header (fs_file_out slow_write crc32c_extend) [97] 1 (fs_open [] [0, 0]) = Some s1 \<and>
     out_run (ob_io (fs_flush_buffer slow_write crc32c_extend)) [WriteVint 300] s1 = Some s2 \<and>
     write_footer (fs_file_out slow_write crc32c_extend) s2 = Some s3 \<and>
     ob_close (fs_flush_buffer slow_write crc32c_extend) s3 = Some (n, s4) \<and>
     take 12 (fo_os (ob_raw s4)) = [0x3f, 0xd7, 0x6c, 0x17, 1, 97, 0, 0, 0, 1, 0xAC, 2]"
proof -
  let ?b = "header_bytes [97] 1 @ concat (map op_bytes [WriteVint 300])"
  have "?b = [0x3f, 0xd7, 0x6c, 0x17, 1, 97, 0, 0, 0, 1, 0xAC, 2]" by code_simp
  then have "take 12 (?b @ r) = [0x3f, 0xd7, 0x6c, 0x17, 1, 97, 0, 0, 0, 1, 0xAC, 2]" for r by (simp only: take_append) simp
  then show ?thesis
    using frame_written [OF slow_disk.fs_env_ok_axioms, of "[]" "[0, 0]" "[97]" 1 "[WriteVint 300]"]
    by (metis append.assoc list.distinct(1))
qed

text \<open>
  C27: \<open>check_header\<close> accepts an input exactly when enough bytes are left and they decode to the
  magic number, the required format name and a version in the given range; it then stands behind the
  header and returns the version. In particular it accepts a header that \<open>write_header\<close> wrote when the name
  is the required one and the version is in the range, and rejects it as an index error otherwise.
\<close>

theorem header_check:
  assumes "file_source fi stream rest fresh crc_ext" "stream f s"
  shows "((\<exists>s'. check_header fi req lo hi s = Inr (ver, s') \<and> stream f s' \<and> rest s' = bs) \<longleftrightarrow>
      header_length req \<le> length (rest s) \<and>
      (\<exists>r1 r2. read_u32 (rest s) = Some (kFormatMagic, r1) \<and> read_string r1 = Some (req, r2) \<and>
        read_u32 r2 = Some (ver, bs) \<and> lo \<le> sint ver \<and> sint ver \<le> hi)) \<and>
    (rest s = header_bytes format v @ r \<and> length format < 2 ^ 32 \<longrightarrow>
      (if format = req \<and> lo \<le> sint v \<and> sint v \<le> hi
       then \<exists>s'. check_header fi req lo hi s = Inr (v, s') \<and> stream f s' \<and> rest s' = r
       else check_header fi req lo hi s = Inl IndexError))"
  using file_source.check_header_iff [OF assms, of req lo hi ver bs]
    file_source.check_header_at [OF assms, of format v r req lo hi] length_header_bytes [of format v]
  by (cases "header_length req \<le> length (rest s)") (auto simp: not_le)

text \<open>A file of the bytes \<open>bs\<close>, opened from a disk that delivers at most two at a time.\<close>

definition slow_in :: "(u8 list \<times> nat) fs_in in_state file_in" where
  "slow_in = fs_file_in slow_read slow_seek crc32c_extend [0, 0]"

definition slow_open :: "u8 list \<Rightarrow> (u8 list \<times> nat) fs_in in_state" where
  "slow_open bs = fs_in_open \<lparr>fh_os = (bs, 0), fh_size = length bs, fh_pos = 0\<rparr>"

lemma slow_source: "file_source slow_in (fs_stream fst snd) (ib_rest (fs_in_file fst)) (\<lambda>s. ib_remain s = 0) crc32c_extend"
  unfolding slow_in_def by (rule slow_file.disk_source) simp

lemma slow_open_stream: "fs_stream fst snd bs (slow_open bs)" "ib_rest (fs_in_file fst) (slow_open bs) = bs"
  by (simp_all add: slow_open_def fs_in_open_stream)

theorem header_check_witness:
  "(\<exists>s'. check_header slow_in [97] 0 3 (slow_open (header_bytes [97] 1 @ [7])) = Inr (1, s') \<and> ib_rest (fs_in_file fst) s' = [7]) \<and>
   check_header slow_in [98] 0 3 (slow_open (header_bytes [97] 1 @ [7])) = Inl IndexError \<and>
   check_header slow_in [97] 2 3 (slow_open (header_bytes [97] 1 @ [7])) = Inl IndexError"
  using header_check [OF slow_source slow_open_stream(1) [of "header_bytes [97] 1 @ [7]"],
      where req = "[97]" and lo = 0 and hi = 3 and v = 1 and format = "[97]" and r = "[7]" and ver = 0 and bs = "[]"]
    header_check [OF slow_source slow_open_stream(1) [of "header_bytes [97] 1 @ [7]"],
      where req = "[98]" and lo = 0 and hi = 3 and v = 1 and format = "[97]" and r = "[7]" and ver = 0 and bs = "[]"]
    header_check [OF slow_source slow_open_stream(1) [of "header_bytes [97] 1 @ [7]"],
      where req = "[97]" and lo = 2 and hi = 3 and v = 1 and format = "[97]" and r = "[7]" and ver = 0 and bs = "[]"]
  unfolding slow_open_stream(2) by auto


definition sample_footed :: "u8 list" where
  "sample_footed = [7, 8] @ footer_bytes crc32c_extend [7, 8]"


text \<open>
  C29: \<open>format_utils::checksum\<close> fails on a file of less than eight bytes. From any position other
  than the start, and at the start with an empty buffer, it returns the CRC of the file without its
  last eight bytes; at the start with bytes in the buffer, the buffered bytes are skipped. The input
  stays where it was.
\<close>

theorem checksum_range:
  assumes "fs_in_env sys_read sys_seek file_bytes file_off crc_ext" "fs_stream file_bytes file_off f s" "buf \<noteq> []"
  shows "if length f < 8 then format_checksum (fs_file_in sys_read sys_seek crc_ext buf) s = Inl IndexError
    else \<exists>s'. format_checksum (fs_file_in sys_read sys_seek crc_ext buf) s =
        Inr (ucast (crc_ext 0 (take (length f - 8) (drop (if ib_file_pointer s = 0 then ib_remain s else 0) f))), s') \<and>
      fs_stream file_bytes file_off f s' \<and> ib_rest (fs_in_file file_bytes) s' = ib_rest (fs_in_file file_bytes) s"
  using assms by (rule fs_in_env.format_checksum_at)

text \<open>A file of nine bytes with all of it in the buffer, as after one byte was read and the input moved back.\<close>

definition sample_full :: "(u8 list \<times> nat) fs_in in_state" where
  "sample_full = \<lparr>ib_buf = replicate 9 1, ib_pos = 0, ib_start = 0, ib_size = 1024,
     ib_raw = \<lparr>fi_handle = \<lparr>fh_os = (replicate 9 1, 9), fh_size = 9, fh_pos = 9\<rparr>, fi_pos = 9\<rparr>\<rparr>"

theorem checksum_range_witness:
  "\<exists>s'. format_checksum slow_in sample_full = Inr (0, s') \<and>
     format_checksum slow_in sample_full \<noteq> Inr (ucast (crc32c_extend 0 [1]), s')"
proof -
  have s: "fs_stream fst snd (replicate 9 1) sample_full" "ib_file_pointer sample_full = 0" "ib_remain sample_full = 9"
    by (simp_all add: sample_full_def ib_stream_def ib_invar_def ib_file_def fs_in_ok_def fs_in_file_def
        ib_file_pointer_def ib_remain_def)
  have c: "ucast (crc32c_extend 0 []) = (0 :: u64)" "ucast (crc32c_extend 0 [1]) \<noteq> (0 :: u64)" by code_simp+
  show ?thesis
    using checksum_range [OF slow_file.fs_in_env_axioms s(1), of "[0, 0]"] s(2,3) c by (auto simp: slow_in_def)
qed

end
