(* ===== verification/MemoryStream.thy ===== *)
theory MemoryStream
  imports IndexFile
begin

text \<open>
  Files in memory: \<open>raw_block_vector\<close> of \<open>core/utils/container_utils.hpp\<close>, whose buckets double in size up to the last
  of the precomputed ones, and \<open>memory_file\<close>, \<open>memory_index_output\<close>, \<open>memory_output\<close> of
  \<open>core/store/memory_directory.hpp\<close> and \<open>.cpp\<close>, and the variant \<open>checksum_memory_index_output\<close>. The stream is shown to be a reliable sink whose \<open>reset\<close> empties
  it and whose \<open>>>\<close> copies what has been written.
\<close>

section \<open>Buckets\<close>

definition NumBuckets :: nat where "NumBuckets = 16"

definition SkipBits :: nat where "SkipBits = 8"

text \<open>\<open>BucketMeta\<close>: offset and size of a bucket.\<close>

fun bucket_meta :: "nat \<Rightarrow> nat \<times> nat" where
  "bucket_meta 0 = (0, 2 ^ SkipBits)"
| "bucket_meta (Suc i) = (case bucket_meta i of (offset, sz) \<Rightarrow> (offset + sz, sz * 2))"

definition kLast :: "nat \<times> nat" where "kLast = bucket_meta (NumBuckets - 1)"

definition ComputeBucketOffset :: "nat \<Rightarrow> nat" where
  "ComputeBucketOffset position = log2_floor (position div 2 ^ SkipBits + 1)"

record buffer_t =
  bt_offset :: nat
  bt_data :: "u8 list"

definition buffer_offset :: "nat \<Rightarrow> nat" where
  "buffer_offset position =
     (if position < fst kLast then ComputeBucketOffset position
      else NumBuckets - 1 + (position - fst kLast) div snd kLast)"

text \<open>Allocated memory holds arbitrary bytes.\<close>

definition allocate :: "(nat \<Rightarrow> u8) \<Rightarrow> nat \<Rightarrow> u8 list" where
  "allocate garbage n = map garbage [0..<n]"

definition CreateValue :: "(nat \<Rightarrow> u8) \<Rightarrow> buffer_t list \<Rightarrow> buffer_t" where
  "CreateValue garbage buffers =
     (if length buffers < NumBuckets then
        \<lparr>bt_offset = fst (bucket_meta (length buffers)), bt_data = allocate garbage (snd (bucket_meta (length buffers)))\<rparr>
      else \<lparr>bt_offset = bt_offset (last buffers) + snd kLast, bt_data = allocate garbage (snd kLast)\<rparr>)"

definition push_buffer :: "(nat \<Rightarrow> u8) \<Rightarrow> buffer_t list \<Rightarrow> buffer_t list" where
  "push_buffer garbage buffers = buffers @ [CreateValue garbage buffers]"

section \<open>The file\<close>

record memory_file =
  mf_buffers :: "buffer_t list"
  mf_len :: nat

definition mf_reset :: "memory_file \<Rightarrow> memory_file" where
  "mf_reset f = f\<lparr>mf_len := 0\<rparr>"

text \<open>\<open>memory_file::operator>>\<close>: the pieces it passes to \<open>write_bytes\<close>.\<close>

fun mf_pieces :: "buffer_t list \<Rightarrow> nat \<Rightarrow> u8 list list" where
  "mf_pieces [] len = []"
| "mf_pieces (b # bs) len =
     (if len = 0 then []
      else let to_copy = min len (length (bt_data b)) in take to_copy (bt_data b) # mf_pieces bs (len - to_copy))"

definition mf_buffer_length :: "memory_file \<Rightarrow> nat \<Rightarrow> nat" where
  "mf_buffer_length f i =
     (let last_buf = buffer_offset (mf_len f) in
      if i = last_buf then (mf_len f - bt_offset (mf_buffers f ! i)) mod length (bt_data (mf_buffers f ! i))
      else if i < last_buf then length (bt_data (mf_buffers f ! i)) else 0)"

section \<open>The output stream\<close>

text \<open>\<open>buf_\<close> as the index of a buffer of the file, none after \<open>reset\<close>, and the distance of \<open>pos_\<close> from its start.\<close>

record memory_output =
  mo_file :: memory_file
  mo_buf :: "nat option"
  mo_pos :: nat

definition mo_buffer :: "'x memory_output_scheme \<Rightarrow> buffer_t" where
  "mo_buffer s = (case mo_buf s of None \<Rightarrow> \<lparr>bt_offset = 0, bt_data = []\<rparr> | Some i \<Rightarrow> mf_buffers (mo_file s) ! i)"

definition mo_remain :: "'x memory_output_scheme \<Rightarrow> nat" where
  "mo_remain s = length (bt_data (mo_buffer s)) - mo_pos s"

definition mo_file_pointer :: "'x memory_output_scheme \<Rightarrow> nat" where
  "mo_file_pointer s = bt_offset (mo_buffer s) + mo_pos s"

definition memory_output_new :: memory_output where
  "memory_output_new = \<lparr>mo_file = \<lparr>mf_buffers = [], mf_len = 0\<rparr>, mo_buf = None, mo_pos = 0\<rparr>"

definition mo_stream_reset :: "'x memory_output_scheme \<Rightarrow> 'x memory_output_scheme" where
  "mo_stream_reset s = s\<lparr>mo_buf := None, mo_pos := 0\<rparr>"

definition mo_reset :: "'x memory_output_scheme \<Rightarrow> 'x memory_output_scheme" where
  "mo_reset s = mo_stream_reset (s\<lparr>mo_file := mf_reset (mo_file s)\<rparr>)"

definition mo_truncate :: "nat \<Rightarrow> 'x memory_output_scheme \<Rightarrow> 'x memory_output_scheme option" where
  "mo_truncate p s =
     (let idx = buffer_offset p in
      if idx < length (mf_buffers (mo_file s))
      then Some (s\<lparr>mo_buf := Some idx, mo_pos := p - bt_offset (mf_buffers (mo_file s) ! idx)\<rparr>)
      else None)"

definition mo_switch_buffer :: "(nat \<Rightarrow> u8) \<Rightarrow> 'x memory_output_scheme \<Rightarrow> 'x memory_output_scheme" where
  "mo_switch_buffer garbage s =
     (let idx = buffer_offset (mo_file_pointer s); bufs = mf_buffers (mo_file s) in
      if idx < length bufs then s\<lparr>mo_buf := Some idx, mo_pos := 0\<rparr>
      else s\<lparr>mo_file := (mo_file s)\<lparr>mf_buffers := push_buffer garbage bufs\<rparr>, mo_buf := Some (length bufs), mo_pos := 0\<rparr>)"

text \<open>Storing bytes at \<open>pos_\<close> and advancing it; outside of the buffer this is undefined.\<close>

definition mo_put :: "u8 list \<Rightarrow> 'x memory_output_scheme \<Rightarrow> 'x memory_output_scheme option" where
  "mo_put bs s =
     (if bs = [] then Some s
      else case mo_buf s of
        None \<Rightarrow> None
      | Some i \<Rightarrow>
          if length bs \<le> mo_remain s then
            let b = mf_buffers (mo_file s) ! i;
                b' = b\<lparr>bt_data := take (mo_pos s) (bt_data b) @ bs @ drop (mo_pos s + length bs) (bt_data b)\<rparr>
            in Some (s\<lparr>mo_file := (mo_file s)\<lparr>mf_buffers := (mf_buffers (mo_file s))[i := b']\<rparr>,
                       mo_pos := mo_pos s + length bs\<rparr>)
          else None)"

text \<open>\<open>switch_buffer\<close> and \<open>flush\<close> are virtual: the writes take the function they call as an argument.\<close>

definition mo_write_byte ::
  "('x memory_output_scheme \<Rightarrow> 'x memory_output_scheme) \<Rightarrow> u8 \<Rightarrow> 'x memory_output_scheme \<Rightarrow> 'x memory_output_scheme option" where
  "mo_write_byte switch b s = mo_put [b] (if mo_remain s = 0 then switch s else s)"

fun mo_emit ::
  "('x memory_output_scheme \<Rightarrow> 'x memory_output_scheme) \<Rightarrow> u8 list \<Rightarrow> 'x memory_output_scheme \<Rightarrow> 'x memory_output_scheme option" where
  "mo_emit switch [] s = Some s"
| "mo_emit switch (b # bs) s = do { s1 \<leftarrow> mo_write_byte switch b s; mo_emit switch bs s1 }"

partial_function (option) mo_write_bytes ::
  "('x memory_output_scheme \<Rightarrow> 'x memory_output_scheme) \<Rightarrow> u8 list \<Rightarrow> 'x memory_output_scheme \<Rightarrow> 'x memory_output_scheme option" where
  "mo_write_bytes switch bs s =
     (if bs = [] then Some s
      else do {
        let s1 = (if mo_remain s = 0 then switch s else s);
        let to_copy = min (mo_remain s1) (length bs);
        s2 \<leftarrow> mo_put (take to_copy bs) s1;
        mo_write_bytes switch (drop to_copy bs) s2
      })"

declare mo_write_bytes.simps [code]

definition mo_write_fixed ::
  "('x memory_output_scheme \<Rightarrow> 'x memory_output_scheme) \<Rightarrow> nat \<Rightarrow> u8 list \<Rightarrow> 'x memory_output_scheme \<Rightarrow>
   'x memory_output_scheme option" where
  "mo_write_fixed switch max_size bs s = (if mo_remain s < max_size then mo_emit switch bs s else mo_put bs s)"

definition mo_flush :: "'x memory_output_scheme \<Rightarrow> 'x memory_output_scheme" where
  "mo_flush s = s\<lparr>mo_file := (mo_file s)\<lparr>mf_len := mo_file_pointer s\<rparr>\<rparr>"

text \<open>\<open>write_short\<close> is the default of \<open>data_output\<close>, byte by byte.\<close>

fun mo_op ::
  "('x memory_output_scheme \<Rightarrow> 'x memory_output_scheme) \<Rightarrow> ('x memory_output_scheme \<Rightarrow> 'x memory_output_scheme) \<Rightarrow>
   out_op \<Rightarrow> 'x memory_output_scheme \<Rightarrow> 'x memory_output_scheme option" where
  "mo_op switch flush (WriteByte b) s = mo_write_byte switch b s"
| "mo_op switch flush (WriteBytes bs) s = mo_write_bytes switch bs s"
| "mo_op switch flush (WriteShort v) s = mo_emit switch (write_u16 v) s"
| "mo_op switch flush (WriteInt v) s = mo_write_fixed switch 4 (write_u32 v) s"
| "mo_op switch flush (WriteLong v) s = mo_write_fixed switch 8 (write_u64 v) s"
| "mo_op switch flush (WriteVint v) s = mo_write_fixed switch 5 (vwrite_u32 v) s"
| "mo_op switch flush (WriteVlong v) s = mo_write_fixed switch 10 (vwrite_u64 v) s"
| "mo_op switch flush Flush s = Some (flush s)"

definition mo_io :: "(nat \<Rightarrow> u8) \<Rightarrow> memory_output index_out" where
  "mo_io garbage = \<lparr>out_do = mo_op (mo_switch_buffer garbage) mo_flush, out_pointer = mo_file_pointer\<rparr>"

section \<open>The output stream with a checksum\<close>

text \<open>\<open>crc_begin_\<close> as the distance from the start of the current buffer, and the CRC of what is before it.\<close>

record checksum_output = memory_output +
  co_begin :: nat
  co_crc :: u32

definition checksum_output_new :: "memory_file \<Rightarrow> checksum_output" where
  "checksum_output_new f = \<lparr>mo_file = f, mo_buf = None, mo_pos = 0, co_begin = 0, co_crc = 0\<rparr>"

text \<open>\<open>crc_.process_block(crc_begin_, pos_)\<close>.\<close>

definition co_process :: "(u32 \<Rightarrow> u8 list \<Rightarrow> u32) \<Rightarrow> checksum_output \<Rightarrow> checksum_output" where
  "co_process crc_ext s =
     s\<lparr>co_crc := crc_ext (co_crc s) (take (mo_pos s - co_begin s) (drop (co_begin s) (bt_data (mo_buffer s))))\<rparr>"

definition co_flush :: "(u32 \<Rightarrow> u8 list \<Rightarrow> u32) \<Rightarrow> checksum_output \<Rightarrow> checksum_output" where
  "co_flush crc_ext s = (let s1 = co_process crc_ext s in mo_flush (s1\<lparr>co_begin := mo_pos s1\<rparr>))"

definition co_checksum :: "(u32 \<Rightarrow> u8 list \<Rightarrow> u32) \<Rightarrow> checksum_output \<Rightarrow> u64 \<times> checksum_output" where
  "co_checksum crc_ext s = (let s1 = co_process crc_ext s; s2 = s1\<lparr>co_begin := mo_pos s1\<rparr> in (ucast (co_crc s2), s2))"

definition co_switch_buffer :: "(u32 \<Rightarrow> u8 list \<Rightarrow> u32) \<Rightarrow> (nat \<Rightarrow> u8) \<Rightarrow> checksum_output \<Rightarrow> checksum_output" where
  "co_switch_buffer crc_ext garbage s =
     (let s1 = mo_switch_buffer garbage (co_process crc_ext s) in s1\<lparr>co_begin := mo_pos s1\<rparr>)"

definition co_file_out :: "(u32 \<Rightarrow> u8 list \<Rightarrow> u32) \<Rightarrow> (nat \<Rightarrow> u8) \<Rightarrow> checksum_output file_out" where
  "co_file_out crc_ext garbage =
     \<lparr>fw_io = \<lparr>out_do = mo_op (co_switch_buffer crc_ext garbage) (co_flush crc_ext), out_pointer = mo_file_pointer\<rparr>,
      fw_checksum = (\<lambda>s. Some (co_checksum crc_ext s))\<rparr>"

text \<open>\<open>CloseImpl\<close>: the file of the stream, complete.\<close>

definition co_close :: "(u32 \<Rightarrow> u8 list \<Rightarrow> u32) \<Rightarrow> checksum_output \<Rightarrow> nat \<times> memory_file" where
  "co_close crc_ext s = (let f = mo_file (co_flush crc_ext s) in (mf_len f, f))"

section \<open>Every position lies in its bucket\<close>

definition blk_size :: "nat \<Rightarrow> nat" where
  "blk_size i = 256 * 2 ^ min i 15"

definition blk_off :: "nat \<Rightarrow> nat" where
  "blk_off i = (\<Sum>k<i. blk_size k)"

lemma blk_off_Suc [simp]: "blk_off (Suc i) = blk_off i + blk_size i"
  by (simp add: blk_off_def)

lemma blk_off_0 [simp]: "blk_off 0 = 0"
  by (simp add: blk_off_def)

lemma blk_size_pos [simp]: "0 < blk_size i"
  by (simp add: blk_size_def)

lemma bucket_meta_blk: "i < 16 \<Longrightarrow> bucket_meta i = (blk_off i, blk_size i)"
proof (induction i)
  case (Suc i)
  then have "min (Suc i) 15 = Suc i" "min i 15 = i" by simp_all
  with Suc show ?case by (simp add: blk_size_def)
qed (simp add: blk_size_def SkipBits_def)

lemma blk_size_large: "15 \<le> i \<Longrightarrow> blk_size i = blk_size 15"
  by (simp add: blk_size_def)

lemma kLast_blk: "kLast = (blk_off 15, blk_size 15)"
  by (simp add: kLast_def NumBuckets_def bucket_meta_blk)

lemma blk_off_small: "i \<le> 15 \<Longrightarrow> blk_off i + 256 = 256 * 2 ^ i"
proof (induction i)
  case (Suc i)
  then have "min i 15 = i" by simp
  with Suc show ?case by (simp add: blk_size_def)
qed simp

lemma blk_off_large: "blk_off (15 + k) = blk_off 15 + k * blk_size 15"
proof (induction k)
  case (Suc k)
  have "blk_off (15 + Suc k) = blk_off (15 + k) + blk_size 15"
    using blk_size_large [of "15 + k"] by (simp only: add_Suc_right blk_off_Suc le_add1)
  with Suc show ?case by simp
qed simp

lemma blk_off_mono: "i \<le> j \<Longrightarrow> blk_off i \<le> blk_off j"
  by (auto simp: blk_off_def intro: sum_mono2)

lemma buffer_offset_blk:
  assumes "blk_off i \<le> p" "p < blk_off (Suc i)"
  shows "buffer_offset p = i"
proof (cases "i < 15")
  case True
  have "blk_off (Suc i) \<le> blk_off 15" using True by (intro blk_off_mono) simp
  then have small: "p < fst kLast" using assms(2) by (simp add: kLast_blk)
  have "256 * 2 ^ i \<le> p + 256" "p + 256 < 256 * 2 ^ Suc i"
    using assms True blk_off_small [of i] blk_off_small [of "Suc i"] by simp_all
  then have q: "2 ^ i \<le> p div 2 ^ 8 + 1" "p div 2 ^ 8 + 1 < 2 ^ (i + 1)" by simp_all
  have "log2_floor (p div 2 ^ 8 + 1) \<le> i" using q(2) by (rule log2_floor_less)
  moreover have "log2_floor (p div 2 ^ 8 + 1) \<ge> i" using log2_floor_div [OF q(1)] by simp
  ultimately show ?thesis using small by (simp add: buffer_offset_def ComputeBucketOffset_def SkipBits_def)
next
  case False
  then obtain k where k: "i = 15 + k" using le_Suc_ex not_le_imp_less by (metis linorder_not_less)
  have "blk_off 15 + k * blk_size 15 \<le> p" "p < blk_off 15 + Suc k * blk_size 15"
    using assms k blk_off_large [of k] blk_off_large [of "Suc k"] by (simp_all only: add_Suc_right)
  then have "\<not> p < fst kLast" "(p - fst kLast) div snd kLast = k"
    unfolding kLast_blk fst_conv snd_conv by (simp_all add: div_nat_eqI mult.commute)
  then show ?thesis by (simp add: buffer_offset_def NumBuckets_def k)
qed

section \<open>The content of a stream\<close>

definition mf_wf :: "buffer_t list \<Rightarrow> bool" where
  "mf_wf bufs \<longleftrightarrow> (\<forall>i<length bufs. bt_offset (bufs ! i) = blk_off i \<and> length (bt_data (bufs ! i)) = blk_size i)"

definition mo_invar :: "'x memory_output_scheme \<Rightarrow> bool" where
  "mo_invar s \<longleftrightarrow> mf_wf (mf_buffers (mo_file s)) \<and>
     (case mo_buf s of None \<Rightarrow> mo_pos s = 0
      | Some i \<Rightarrow> i < length (mf_buffers (mo_file s)) \<and> mo_pos s \<le> blk_size i)"

definition mo_contents :: "'x memory_output_scheme \<Rightarrow> u8 list" where
  "mo_contents s = (case mo_buf s of None \<Rightarrow> []
     | Some i \<Rightarrow> concat (map bt_data (take i (mf_buffers (mo_file s)))) @ take (mo_pos s) (bt_data (mf_buffers (mo_file s) ! i)))"

lemma CreateValue_blk:
  assumes "mf_wf bufs"
  shows "bt_offset (CreateValue garbage bufs) = blk_off (length bufs)"
    and "length (bt_data (CreateValue garbage bufs)) = blk_size (length bufs)"
proof -
  have "bt_offset (CreateValue garbage bufs) = blk_off (length bufs) \<and>
    length (bt_data (CreateValue garbage bufs)) = blk_size (length bufs)"
  proof (cases "length bufs < 16")
    case True
    then show ?thesis by (simp add: CreateValue_def NumBuckets_def bucket_meta_blk allocate_def)
  next
    case False
    then obtain k where k: "length bufs = Suc (15 + k)" using le_Suc_ex [of 16 "length bufs"] by auto
    then have "last bufs = bufs ! (15 + k)" "15 + k < length bufs" by (simp_all add: last_conv_nth flip: length_0_conv)
    then have "bt_offset (last bufs) = blk_off (15 + k)" using assms by (simp add: mf_wf_def)
    moreover have "blk_off (length bufs) = blk_off (15 + k) + blk_size 15" "blk_size (length bufs) = blk_size 15"
      using blk_size_large [of "15 + k"] blk_size_large [of "length bufs"] unfolding k blk_off_Suc by simp_all
    ultimately show ?thesis using False by (simp add: CreateValue_def NumBuckets_def kLast_blk allocate_def)
  qed
  then show "bt_offset (CreateValue garbage bufs) = blk_off (length bufs)"
    "length (bt_data (CreateValue garbage bufs)) = blk_size (length bufs)" by auto
qed

lemma mf_wf_push: "mf_wf bufs \<Longrightarrow> mf_wf (push_buffer garbage bufs)"
  using CreateValue_blk [of bufs garbage] by (auto simp: mf_wf_def push_buffer_def nth_append less_Suc_eq)

lemma mf_wf_concat: "mf_wf bufs \<Longrightarrow> i \<le> length bufs \<Longrightarrow> length (concat (map bt_data (take i bufs))) = blk_off i"
  by (induction i) (simp_all add: take_Suc_conv_app_nth mf_wf_def)

lemma mo_pointer_length: "mo_invar s \<Longrightarrow> mo_file_pointer s = length (mo_contents s)"
  using mf_wf_concat [of "mf_buffers (mo_file s)"]
  by (auto simp: mo_invar_def mo_file_pointer_def mo_buffer_def mo_contents_def mf_wf_def split: option.splits)

lemma mo_switch_buffer_keeps:
  assumes "mo_invar s" "mo_remain s = 0"
  shows "mo_invar (mo_switch_buffer garbage s) \<and> mo_contents (mo_switch_buffer garbage s) = mo_contents s \<and>
    0 < mo_remain (mo_switch_buffer garbage s)"
proof -
  let ?bufs = "mf_buffers (mo_file s)"
  define j where "j = (case mo_buf s of None \<Rightarrow> 0 | Some i \<Rightarrow> Suc i)"
  have wf: "mf_wf ?bufs" "mf_wf (push_buffer garbage ?bufs)" using assms(1) mf_wf_push by (auto simp: mo_invar_def)
  have j: "j \<le> length ?bufs" "mo_contents s = concat (map bt_data (take j ?bufs))"
    using assms by (auto simp: j_def mo_invar_def mo_contents_def mo_remain_def mo_buffer_def mf_wf_def take_Suc_conv_app_nth
      split: option.splits)
  then have "mo_file_pointer s = blk_off j" using mo_pointer_length [OF assms(1)] mf_wf_concat [OF wf(1)] by simp
  then have idx: "buffer_offset (mo_file_pointer s) = j" by (intro buffer_offset_blk) simp_all
  show ?thesis
  proof (cases "j < length ?bufs")
    case True
    then show ?thesis using idx j wf
      by (auto simp: mo_switch_buffer_def Let_def mo_invar_def mo_contents_def mo_remain_def mo_buffer_def mf_wf_def)
  next
    case False
    then have "j = length ?bufs" using j(1) by simp
    then show ?thesis using idx j wf CreateValue_blk [OF wf(1), of garbage]
      by (auto simp: mo_switch_buffer_def Let_def mo_invar_def mo_contents_def mo_remain_def mo_buffer_def push_buffer_def)
  qed
qed

definition mo_appends :: "'x memory_output_scheme \<Rightarrow> u8 list \<Rightarrow> 'x memory_output_scheme option \<Rightarrow> bool" where
  "mo_appends s bs r \<longleftrightarrow> (\<exists>s'. r = Some s' \<and> mo_contents s' = mo_contents s @ bs \<and> mo_invar s')"

lemma mo_put_appends:
  assumes inv: "mo_invar s" and room: "length bs \<le> mo_remain s"
  shows "mo_appends s bs (mo_put bs s)"
proof (cases "bs = []")
  case False
  let ?bufs = "mf_buffers (mo_file s)"
  obtain i where i: "mo_buf s = Some i" using False room inv by (cases "mo_buf s") (auto simp: mo_remain_def mo_buffer_def)
  then have l: "i < length ?bufs" "length (bt_data (?bufs ! i)) = blk_size i" "mo_pos s + length bs \<le> blk_size i"
    using inv room False by (auto simp: mo_invar_def mf_wf_def mo_remain_def mo_buffer_def)
  then show ?thesis using i False room inv
    by (auto simp: mo_appends_def mo_put_def Let_def mo_contents_def mo_invar_def mf_wf_def nth_list_update)
qed (use inv in \<open>simp add: mo_appends_def mo_put_def\<close>)

lemma mo_flush_keeps: "mo_invar s \<Longrightarrow> mo_invar (mo_flush s) \<and> mo_contents (mo_flush s) = mo_contents s"
  by (simp add: mo_flush_def mo_invar_def mo_contents_def split: option.splits)

definition mo_appends_keeping ::
  "('x memory_output_scheme \<Rightarrow> bool) \<Rightarrow> 'x memory_output_scheme \<Rightarrow> u8 list \<Rightarrow> 'x memory_output_scheme option \<Rightarrow> bool" where
  "mo_appends_keeping keep s bs r \<longleftrightarrow> (\<exists>s'. r = Some s' \<and> mo_contents s' = mo_contents s @ bs \<and> mo_invar s' \<and> keep s')"

text \<open>What the writes rely on: a switch of the buffer makes room and keeps the contents, and an invariant of a derived class.\<close>

locale memory_virtual =
  fixes switch flush :: "'x memory_output_scheme \<Rightarrow> 'x memory_output_scheme" and keep :: "'x memory_output_scheme \<Rightarrow> bool"
  assumes switch_law: "mo_invar s \<Longrightarrow> keep s \<Longrightarrow> mo_remain s = 0 \<Longrightarrow>
      mo_invar (switch s) \<and> keep (switch s) \<and> mo_contents (switch s) = mo_contents s \<and> 0 < mo_remain (switch s)"
    and flush_law: "mo_invar s \<Longrightarrow> keep s \<Longrightarrow> mo_invar (flush s) \<and> keep (flush s) \<and> mo_contents (flush s) = mo_contents s"
    and put_law: "mo_invar s \<Longrightarrow> keep s \<Longrightarrow> mo_put bs s = Some s' \<Longrightarrow> keep s'"
begin

lemma put_appends: "mo_invar s \<Longrightarrow> keep s \<Longrightarrow> length bs \<le> mo_remain s \<Longrightarrow> mo_appends_keeping keep s bs (mo_put bs s)"
  using mo_put_appends [of s bs] put_law [of s bs] by (auto simp: mo_appends_keeping_def mo_appends_def)

lemma write_byte_appends: "mo_invar s \<Longrightarrow> keep s \<Longrightarrow> mo_appends_keeping keep s [b] (mo_write_byte switch b s)"
  using switch_law [of s] put_appends [of "switch s" "[b]"] put_appends [of s "[b]"]
  by (auto simp: mo_write_byte_def mo_appends_keeping_def Suc_le_eq)

lemma emit_appends: "mo_invar s \<Longrightarrow> keep s \<Longrightarrow> mo_appends_keeping keep s bs (mo_emit switch bs s)"
proof (induction bs arbitrary: s)
  case (Cons b bs)
  then obtain s1 where s1: "mo_write_byte switch b s = Some s1" "mo_contents s1 = mo_contents s @ [b]" "mo_invar s1" "keep s1"
    using write_byte_appends [of s b] by (auto simp: mo_appends_keeping_def)
  with Cons.IH [OF s1(3,4)] show ?case by (auto simp: mo_appends_keeping_def)
qed (simp add: mo_appends_keeping_def)

lemma write_bytes_appends: "mo_invar s \<Longrightarrow> keep s \<Longrightarrow> mo_appends_keeping keep s bs (mo_write_bytes switch bs s)"
proof (induction "length bs" arbitrary: bs s rule: less_induct)
  case less
  show ?case
  proof (cases "bs = []")
    case True
    then show ?thesis using less.prems by (subst mo_write_bytes.simps) (simp add: mo_appends_keeping_def)
  next
    case False
    let ?s1 = "if mo_remain s = 0 then switch s else s"
    let ?n = "min (mo_remain ?s1) (length bs)"
    have s1: "mo_invar ?s1" "keep ?s1" "mo_contents ?s1 = mo_contents s" "0 < mo_remain ?s1"
      using switch_law [of s] less.prems by auto
    obtain s2 where s2: "mo_put (take ?n bs) ?s1 = Some s2" "mo_contents s2 = mo_contents s @ take ?n bs" "mo_invar s2" "keep s2"
      using put_appends [OF s1(1,2), of "take ?n bs"] s1(3) unfolding mo_appends_keeping_def by (auto simp del: min_less_iff_disj)
    have "length (drop ?n bs) < length bs" using False s1(4) by simp
    from less.hyps [OF this s2(3,4)]
    have "mo_appends_keeping keep s2 (drop ?n bs) (mo_write_bytes switch (drop ?n bs) s2)" .
    moreover have "mo_write_bytes switch bs s = mo_write_bytes switch (drop ?n bs) s2"
      using False s2(1) by (subst mo_write_bytes.simps) (simp add: Let_def)
    ultimately show ?thesis using s2(2) unfolding mo_appends_keeping_def by auto
  qed
qed

lemma write_fixed_appends: "mo_invar s \<Longrightarrow> keep s \<Longrightarrow> length bs \<le> n \<Longrightarrow> mo_appends_keeping keep s bs (mo_write_fixed switch n bs s)"
  using emit_appends put_appends by (simp add: mo_write_fixed_def)

lemma op_appends: "mo_invar s \<Longrightarrow> keep s \<Longrightarrow> mo_appends_keeping keep s (op_bytes x) (mo_op switch flush x s)"
  using flush_law [of s] length_vwrite_bound
  by (cases x) (simp_all add: write_byte_appends write_bytes_appends emit_appends write_fixed_appends
    write_u32_def write_u64_def, simp_all add: mo_appends_keeping_def)

end

interpretation memory_base: memory_virtual "mo_switch_buffer garbage" mo_flush "\<lambda>_. True"
  using mo_switch_buffer_keeps mo_flush_keeps by unfold_locales auto

interpretation memory: index_sink "mo_io garbage" mo_contents mo_invar
  using memory_base.op_appends mo_pointer_length by unfold_locales (simp_all add: mo_io_def mo_appends_keeping_def)

text \<open>The checksum covers the contents up to \<open>crc_begin_\<close>.\<close>

definition co_keep :: "(u32 \<Rightarrow> u8 list \<Rightarrow> u32) \<Rightarrow> checksum_output \<Rightarrow> bool" where
  "co_keep crc_ext s \<longleftrightarrow> co_begin s \<le> mo_pos s \<and>
     co_crc s = crc_ext 0 (take (length (mo_contents s) - (mo_pos s - co_begin s)) (mo_contents s))"

lemma mo_contents_cong:
  "mo_file s' = mo_file s \<Longrightarrow> mo_buf s' = mo_buf s \<Longrightarrow> mo_pos s' = mo_pos s \<Longrightarrow> mo_contents s' = mo_contents s"
  "mo_file s' = mo_file s \<Longrightarrow> mo_buf s' = mo_buf s \<Longrightarrow> mo_pos s' = mo_pos s \<Longrightarrow> mo_invar s' = mo_invar s"
  "mo_file s' = mo_file s \<Longrightarrow> mo_buf s' = mo_buf s \<Longrightarrow> mo_pos s' = mo_pos s \<Longrightarrow> mo_remain s' = mo_remain s"
  by (simp_all add: mo_contents_def mo_invar_def mo_remain_def mo_buffer_def split: option.splits)

lemma co_process_keeps:
  "mo_invar (co_process crc_ext s) = mo_invar s" "mo_contents (co_process crc_ext s) = mo_contents s"
  "mo_remain (co_process crc_ext s) = mo_remain s" "mo_pos (co_process crc_ext s) = mo_pos s"
  by (rule mo_contents_cong; simp add: co_process_def)+ (simp add: co_process_def)

text \<open>The bytes of the current buffer up to the position end the contents.\<close>

lemma mo_contents_tail:
  assumes "mo_invar s" "b \<le> mo_pos s"
  shows "mo_contents s = take (length (mo_contents s) - (mo_pos s - b)) (mo_contents s) @ take (mo_pos s - b) (drop b (bt_data (mo_buffer s)))"
proof (cases "mo_buf s")
  case None
  then show ?thesis using assms by (simp add: mo_contents_def mo_invar_def)
next
  case (Some i)
  let ?d = "bt_data (mf_buffers (mo_file s) ! i)" and ?c = "concat (map bt_data (take i (mf_buffers (mo_file s))))"
  have l: "mo_pos s \<le> length ?d" using assms(1) Some by (simp add: mo_invar_def mf_wf_def)
  have "take (mo_pos s) ?d = take b ?d @ take (mo_pos s - b) (drop b ?d)"
    using assms(2) by (metis le_add_diff_inverse take_add)
  moreover have "take (length (mo_contents s) - (mo_pos s - b)) (mo_contents s) = ?c @ take b ?d"
    using Some l assms(2) by (simp add: mo_contents_def min_def)
  ultimately show ?thesis using Some by (simp add: mo_contents_def mo_buffer_def)
qed

context crc_extension
begin

lemma co_process_crc:
  assumes "mo_invar s" "co_keep crc_ext s"
  shows "co_crc (co_process crc_ext s) = crc_ext 0 (mo_contents s)"
  using mo_contents_tail [OF assms(1), of "co_begin s"] assms(2) by (simp add: co_process_def co_keep_def extend_append)

lemma co_switch_law:
  assumes "mo_invar s" "co_keep crc_ext s" "mo_remain s = 0"
  shows "mo_invar (co_switch_buffer crc_ext garbage s) \<and> co_keep crc_ext (co_switch_buffer crc_ext garbage s) \<and>
    mo_contents (co_switch_buffer crc_ext garbage s) = mo_contents s \<and> 0 < mo_remain (co_switch_buffer crc_ext garbage s)"
proof -
  let ?p = "co_process crc_ext s"
  let ?q = "mo_switch_buffer garbage ?p"
  have q: "mo_invar ?q" "mo_contents ?q = mo_contents s" "0 < mo_remain ?q"
    using mo_switch_buffer_keeps [of ?p garbage] assms by (simp_all add: co_process_keeps)
  have e: "co_switch_buffer crc_ext garbage s = ?q\<lparr>co_begin := mo_pos ?q\<rparr>" by (simp add: co_switch_buffer_def Let_def)
  have same: "mo_contents (?q\<lparr>co_begin := mo_pos ?q\<rparr>) = mo_contents ?q" "mo_invar (?q\<lparr>co_begin := mo_pos ?q\<rparr>) = mo_invar ?q"
    "mo_remain (?q\<lparr>co_begin := mo_pos ?q\<rparr>) = mo_remain ?q"
    by (rule mo_contents_cong; simp)+
  have "co_crc ?q = co_crc ?p" by (simp add: mo_switch_buffer_def Let_def)
  then show ?thesis unfolding e using same q co_process_crc [OF assms(1,2)] by (simp add: co_keep_def)
qed

lemma co_checksum_law:
  assumes "mo_invar s" "co_keep crc_ext s"
  shows "\<exists>s'. co_checksum crc_ext s = (ucast (crc_ext 0 (mo_contents s)), s') \<and> mo_contents s' = mo_contents s \<and> mo_invar s' \<and> co_keep crc_ext s'"
proof -
  let ?q = "(co_process crc_ext s)\<lparr>co_begin := mo_pos s\<rparr>"
  have same: "mo_contents ?q = mo_contents s" "mo_invar ?q = mo_invar s"
    by (rule mo_contents_cong; simp add: co_process_def)+
  then have "co_keep crc_ext ?q" using co_process_crc [OF assms] by (simp add: co_keep_def co_process_keeps)
  then show ?thesis using same assms(1) co_process_crc [OF assms]
    by (intro exI [of _ ?q]) (simp add: co_checksum_def Let_def co_process_keeps)
qed

lemma co_flush_law:
  assumes "mo_invar s" "co_keep crc_ext s"
  shows "mo_invar (co_flush crc_ext s) \<and> co_keep crc_ext (co_flush crc_ext s) \<and> mo_contents (co_flush crc_ext s) = mo_contents s"
proof -
  obtain q where q: "co_checksum crc_ext s = (ucast (crc_ext 0 (mo_contents s)), q)" "mo_contents q = mo_contents s" "mo_invar q" "co_keep crc_ext q"
    using co_checksum_law [OF assms] by blast
  then have e: "co_flush crc_ext s = mo_flush q" by (simp add: co_flush_def co_checksum_def Let_def)
  have "co_keep crc_ext (mo_flush q)" using q(4) mo_flush_keeps [OF q(3)] by (simp add: co_keep_def) (simp add: mo_flush_def)
  then show ?thesis using e mo_flush_keeps [OF q(3)] q(2) by simp
qed

lemma co_put_law:
  assumes "mo_invar s" "co_keep crc_ext s" "mo_put bs s = Some s'"
  shows "co_keep crc_ext s'"
proof -
  have "length bs \<le> mo_remain s \<or> bs = []" using assms(3) by (auto simp: mo_put_def split: option.splits if_splits)
  then have "mo_contents s' = mo_contents s @ bs" using mo_put_appends [OF assms(1), of bs] assms(3) by (auto simp: mo_appends_def)
  moreover have "mo_pos s' = mo_pos s + length bs \<and> co_begin s' = co_begin s \<and> co_crc s' = co_crc s"
    using assms(3) by (auto simp: mo_put_def Let_def split: option.splits if_splits)
  ultimately show ?thesis using assms(2) by (simp add: co_keep_def)
qed

end

sublocale crc_extension \<subseteq> checksummed: memory_virtual "co_switch_buffer crc_ext garbage" "co_flush crc_ext" "co_keep crc_ext"
  for garbage
proof (unfold_locales, goal_cases)
  case (1 s)
  then show ?case by (rule co_switch_law)
next
  case (2 s)
  then show ?case by (rule co_flush_law)
next
  case (3 s bs s')
  then show ?case by (rule co_put_law)
qed

sublocale crc_extension \<subseteq> memory_file: file_sink "co_file_out crc_ext garbage" mo_contents "\<lambda>s. mo_invar s \<and> co_keep crc_ext s" crc_ext
  for garbage
proof (unfold_locales, goal_cases)
  case (1 s x)
  then show ?case using checksummed.op_appends [where s = s and x = x and garbage = garbage] by (auto simp: mo_appends_keeping_def co_file_out_def)
next
  case (2 s)
  then show ?case by (simp add: co_file_out_def mo_pointer_length)
next
  case (3 s)
  then show ?case using co_checksum_law [of s] by (auto simp: co_file_out_def)
qed

lemma mo_reset_empties: "mo_invar s \<Longrightarrow> mo_invar (mo_reset s) \<and> mo_contents (mo_reset s) = []"
  by (simp add: mo_reset_def mf_reset_def mo_stream_reset_def mo_invar_def mo_contents_def)

lemma mo_stream_reset_empties: "mo_invar s \<Longrightarrow> mo_invar (mo_stream_reset s) \<and> mo_contents (mo_stream_reset s) = []"
  by (simp add: mo_stream_reset_def mo_invar_def mo_contents_def)

lemma mo_new_empty: "mo_invar memory_output_new" "mo_contents memory_output_new = []"
  by (simp_all add: memory_output_new_def mo_invar_def mo_contents_def mf_wf_def)

lemma concat_mf_pieces: "concat (mf_pieces bs len) = take len (concat (map bt_data bs))"
  by (induction bs len rule: mf_pieces.induct) (auto simp: Let_def min_def)

lemma mo_flush_pieces:
  assumes "mo_invar s"
  shows "concat (mf_pieces (mf_buffers (mo_file (mo_flush s))) (mf_len (mo_file (mo_flush s)))) = mo_contents s"
proof (cases "mo_buf s")
  case None
  then show ?thesis using assms
    by (simp add: concat_mf_pieces mo_flush_def mo_contents_def mo_file_pointer_def mo_buffer_def mo_invar_def)
next
  case (Some i)
  let ?bufs = "mf_buffers (mo_file s)"
  have l: "i < length ?bufs" "mf_wf ?bufs" "mo_pos s \<le> length (bt_data (?bufs ! i))"
    using assms Some by (auto simp: mo_invar_def mf_wf_def)
  have "concat (map bt_data ?bufs) = mo_contents s @ drop (mo_pos s) (bt_data (?bufs ! i)) @ concat (map bt_data (drop (Suc i) ?bufs))"
    using Some l(1) by (subst id_take_nth_drop [OF l(1)]) (simp add: mo_contents_def)
  then show ?thesis using mo_pointer_length [OF assms] by (simp add: concat_mf_pieces mo_flush_def)
qed

end
