(* ===== verification/MemoryInput.thy ===== *)
theory MemoryInput
  imports MemoryStream
begin

text \<open>
  Input from a file in memory: \<open>memory_index_input\<close> of \<open>core/store/memory_directory.cpp\<close>, which walks over the buckets of
  a \<open>memory_file\<close>. It is an \<open>index_reader\<close> and a \<open>file_source\<close>.
\<close>

section \<open>Operations\<close>

text \<open>
  \<open>buf_\<close> as the index of a bucket, or null; \<open>begin_\<close> as the distance from \<open>buf_\<close>; \<open>end_\<close> too, or null. \<open>seek\<close> behind
  the end clears \<open>buf_\<close> and \<open>begin_\<close> and leaves \<open>end_\<close>: then \<open>begin_\<close> is a null pointer below \<open>end_\<close>.
\<close>

record memory_input =
  mi_file :: memory_file
  mi_buf :: "nat option"
  mi_begin :: nat
  mi_end :: "nat option"
  mi_start :: nat

definition mi_new :: "memory_file \<Rightarrow> memory_input" where
  "mi_new f = \<lparr>mi_file = f, mi_buf = None, mi_begin = 0, mi_end = None, mi_start = 0\<rparr>"

definition mi_length :: "memory_input \<Rightarrow> nat" where
  "mi_length s = mf_len (mi_file s)"

definition mi_file_pointer :: "memory_input \<Rightarrow> nat" where
  "mi_file_pointer s = mi_start s + mi_begin s"

definition mi_eof :: "memory_input \<Rightarrow> bool" where
  "mi_eof s \<longleftrightarrow> mi_length s \<le> mi_file_pointer s"

text \<open>\<open>min(buf.size, length - buf.offset)\<close>; the difference wraps around for a bucket behind the end.\<close>

definition mi_valid :: "memory_file \<Rightarrow> buffer_t \<Rightarrow> nat" where
  "mi_valid f b = (if bt_offset b \<le> mf_len f then min (length (bt_data b)) (mf_len f - bt_offset b) else length (bt_data b))"

definition mi_switch_buffer :: "nat \<Rightarrow> memory_input \<Rightarrow> memory_input option" where
  "mi_switch_buffer p s =
     (let f = mi_file s; idx = buffer_offset p in
      if idx < length (mf_buffers f) then
        let b = mf_buffers f ! idx;
            s1 = (if mi_buf s = Some idx then s
                  else s\<lparr>mi_buf := Some idx, mi_start := bt_offset b, mi_end := Some (mi_valid f b)\<rparr>)
        in if mi_start s1 \<le> p \<and> p < mi_start s1 + the (mi_end s1) then Some (s1\<lparr>mi_begin := p - mi_start s1\<rparr>) else None
      else None)"

text \<open>The bytes from \<open>begin_\<close> to \<open>end_\<close>; none may be read through a null pointer.\<close>

definition mi_window :: "memory_input \<Rightarrow> u8 list" where
  "mi_window s = (case (mi_buf s, mi_end s) of
     (Some i, Some e) \<Rightarrow> take (e - mi_begin s) (drop (mi_begin s) (bt_data (mf_buffers (mi_file s) ! i)))
   | _ \<Rightarrow> [])"

definition mi_adv :: "nat \<Rightarrow> memory_input \<Rightarrow> memory_input" where
  "mi_adv n s = s\<lparr>mi_begin := mi_begin s + n\<rparr>"

text \<open>\<open>begin_ >= end_\<close>, on pointers.\<close>

definition mi_exhausted :: "memory_input \<Rightarrow> bool" where
  "mi_exhausted s = (case mi_end s of None \<Rightarrow> True | Some e \<Rightarrow> mi_buf s \<noteq> None \<and> e \<le> mi_begin s)"

definition mi_read_byte :: "memory_input \<Rightarrow> (u8 \<times> memory_input) option" where
  "mi_read_byte s = do {
     s1 \<leftarrow> (if mi_exhausted s then mi_switch_buffer (mi_file_pointer s) s else Some s);
     case mi_window s1 of [] \<Rightarrow> None | b # _ \<Rightarrow> Some (b, mi_adv 1 s1)
   }"

partial_function (option) mi_read_bytes :: "nat \<Rightarrow> memory_input \<Rightarrow> (u8 list \<times> memory_input) option" where
  "mi_read_bytes left s =
     (if left = 0 then Some ([], s)
      else if mi_exhausted s \<and> mi_eof s then Some ([], s)
      else do {
        s1 \<leftarrow> (if mi_exhausted s then mi_switch_buffer (mi_file_pointer s) s else Some s);
        let copied = min (length (mi_window s1)) left;
        if mi_buf s1 = None then None
        else do {
          (bs, s2) \<leftarrow> mi_read_bytes (left - copied) (mi_adv copied s1);
          Some (take copied (mi_window s1) @ bs, s2)
        }
      })"

declare mi_read_bytes.simps [code]

definition mi_seek :: "nat \<Rightarrow> memory_input \<Rightarrow> memory_input option" where
  "mi_seek p s =
     (if mi_length s \<le> p then Some (s\<lparr>mi_buf := None, mi_begin := 0, mi_start := mi_length s\<rparr>)
      else mi_switch_buffer p s)"

text \<open>\<open>read_buffer(size)\<close> hands out bytes of the current bucket, or a null pointer.\<close>

definition mi_read_buffer :: "nat \<Rightarrow> memory_input \<Rightarrow> (u8 list option \<times> memory_input) option" where
  "mi_read_buffer sz s =
     (case (mi_buf s, mi_end s) of
        (Some i, Some e) \<Rightarrow>
          if e < mi_begin s + sz then Some (None, s) else Some (Some (take sz (mi_window s)), mi_adv sz s)
      | (None, Some e) \<Rightarrow> if sz = 0 then Some (None, s) else None
      | _ \<Rightarrow> Some (None, s))"

definition mi_read_buffer_at :: "nat \<Rightarrow> nat \<Rightarrow> memory_input \<Rightarrow> (u8 list option \<times> memory_input) option" where
  "mi_read_buffer_at off sz s =
     (let f = mi_file s; idx = buffer_offset off in
      if idx < length (mf_buffers f) then
        let b = mf_buffers f ! idx; from = off - bt_offset b in
        if from + sz \<le> mi_valid f b
        then Some (Some (take sz (drop from (bt_data b))),
          s\<lparr>mi_buf := Some idx, mi_begin := from + sz, mi_end := Some (mi_valid f b), mi_start := bt_offset b\<rparr>)
        else Some (None, s)
      else None)"

definition mi_read_bytes_at :: "nat \<Rightarrow> nat \<Rightarrow> memory_input \<Rightarrow> (u8 list \<times> memory_input) option" where
  "mi_read_bytes_at off n s = do { s1 \<leftarrow> mi_seek off s; mi_read_bytes n s1 }"

text \<open>The buckets from \<open>idx\<close> on, but for the last one: the CRC, the bytes still wanted, and the next bucket.\<close>

function mi_crc_blocks ::
  "(u32 \<Rightarrow> u8 list \<Rightarrow> u32) \<Rightarrow> buffer_t list \<Rightarrow> nat \<Rightarrow> nat \<Rightarrow> nat \<Rightarrow> u32 \<Rightarrow> u32 \<times> nat \<times> nat" where
  "mi_crc_blocks crc_ext bufs lst idx off crc =
     (if off \<noteq> 0 \<and> idx < lst then
        let d = bt_data (bufs ! idx); n = min off (length d)
        in mi_crc_blocks crc_ext bufs lst (idx + 1) (off - n) (crc_ext crc (take n d))
      else (crc, off, idx))"
  by pat_completeness auto
termination by (relation "measure (\<lambda>(_, _, lst, idx, _, _). lst - idx)") auto

text \<open>The buckets from \<open>idx\<close> on, with the last one.\<close>

definition mi_crc_from :: "(u32 \<Rightarrow> u8 list \<Rightarrow> u32) \<Rightarrow> memory_file \<Rightarrow> nat \<Rightarrow> nat \<Rightarrow> u32 \<Rightarrow> u32" where
  "mi_crc_from crc_ext f idx off crc =
     (let bufs = mf_buffers f; lst = length bufs - 1; (crc1, off1, idx1) = mi_crc_blocks crc_ext bufs lst idx off crc
      in if off1 \<noteq> 0 \<and> idx1 = lst then
           let b = bufs ! lst; n = (if bt_offset b \<le> mf_len f then min off1 (mf_len f - bt_offset b) else off1)
           in crc_ext crc1 (take n (bt_data b))
         else crc1)"

definition mi_checksum :: "(u32 \<Rightarrow> u8 list \<Rightarrow> u32) \<Rightarrow> nat \<Rightarrow> memory_input \<Rightarrow> u64" where
  "mi_checksum crc_ext offset s =
     (if mf_len (mi_file s) = 0 then 0
      else
        let idx = buffer_offset (mi_file_pointer s) in
        if mi_buf s \<noteq> None then
          let n = min offset (length (mi_window s))
          in ucast (mi_crc_from crc_ext (mi_file s) (idx + 1) (offset - n) (crc_ext 0 (take n (mi_window s))))
        else ucast (mi_crc_from crc_ext (mi_file s) idx offset 0))"

definition mi_io :: "memory_input index_in" where
  "mi_io = \<lparr>in_byte = mi_read_byte, in_bytes = mi_read_bytes,
     in_short = read_fixed_in mi_read_byte mi_window mi_adv 2 read_u16,
     in_int = read_fixed_in mi_read_byte mi_window mi_adv 4 read_u32,
     in_long = read_fixed_in mi_read_byte mi_window mi_adv 8 read_u64,
     in_vint = read_vint_in mi_read_byte mi_window mi_adv, in_vlong = read_vlong_in mi_read_byte mi_window mi_adv,
     in_buffer = mi_read_buffer, in_persistent = mi_read_buffer, in_seek = mi_seek, in_pointer = mi_file_pointer\<rparr>"

text \<open>\<open>dup\<close> and \<open>reopen\<close> copy the stream; the file is only read.\<close>

definition mi_file_in :: "(u32 \<Rightarrow> u8 list \<Rightarrow> u32) \<Rightarrow> memory_input file_in" where
  "mi_file_in crc_ext = \<lparr>fr_io = mi_io, fr_length = mi_length, fr_checksum = (\<lambda>n s. Some (mi_checksum crc_ext n s, s)),
     fr_dup = Some, fr_share = (\<lambda>s d. s)\<rparr>"

section \<open>The bytes of a file\<close>

definition mf_ok :: "memory_file \<Rightarrow> bool" where
  "mf_ok f \<longleftrightarrow> mf_wf (mf_buffers f) \<and> mf_len f \<le> blk_off (length (mf_buffers f))"

definition mf_bytes :: "memory_file \<Rightarrow> u8 list" where
  "mf_bytes f = take (mf_len f) (concat (map bt_data (mf_buffers f)))"

lemma length_mf_bytes: "mf_ok f \<Longrightarrow> length (mf_bytes f) = mf_len f"
  using mf_wf_concat [of "mf_buffers f" "length (mf_buffers f)"] by (simp add: mf_ok_def mf_bytes_def)

text \<open>A closed stream leaves its contents.\<close>

lemma co_close_bytes:
  assumes "mo_invar s"
  shows "fst (co_close crc_ext s) = length (mo_contents s)" "mf_ok (snd (co_close crc_ext s))"
    "mf_bytes (snd (co_close crc_ext s)) = mo_contents s"
proof -
  let ?f = "mo_file (mo_flush s)"
  have f: "snd (co_close crc_ext s) = ?f" "fst (co_close crc_ext s) = mo_file_pointer s"
    by (simp_all add: co_close_def co_flush_def co_process_def mo_flush_def mo_file_pointer_def mo_buffer_def Let_def split: option.splits)
  have wf: "mf_wf (mf_buffers ?f)" using mo_flush_keeps [OF assms] by (simp add: mo_invar_def)
  have b: "mf_bytes ?f = mo_contents s" using mo_flush_pieces [OF assms] by (simp add: mf_bytes_def concat_mf_pieces)
  have len: "mf_len ?f = length (mo_contents s)" using mo_pointer_length [OF assms] by (simp add: mo_flush_def)
  have "length (mf_bytes ?f) \<le> blk_off (length (mf_buffers ?f))"
    using mf_wf_concat [OF wf, of "length (mf_buffers ?f)"] by (simp add: mf_bytes_def)
  then show "fst (co_close crc_ext s) = length (mo_contents s)" "mf_ok (snd (co_close crc_ext s))"
    "mf_bytes (snd (co_close crc_ext s)) = mo_contents s"
    using f wf b len mo_pointer_length [OF assms] by (simp_all add: mf_ok_def)
qed

lemma blk_exists: "\<exists>i. blk_off i \<le> p \<and> p < blk_off (Suc i)"
proof -
  have "p < blk_off (Suc p)"
  proof (induction p)
    case (Suc p)
    then show ?case using blk_size_pos [of "Suc p"] by (subst blk_off_Suc) linarith
  qed (simp add: blk_size_def)
  then have "\<exists>n. p < blk_off n" ..
  then obtain n where n: "p < blk_off n" "\<And>m. m < n \<Longrightarrow> \<not> p < blk_off m" using ex_least_nat_le [of "\<lambda>n. p < blk_off n"] by blast
  then obtain i where "n = Suc i" by (cases n) auto
  with n(1) n(2) [of i] show ?thesis by (intro exI [of _ i]) simp
qed

lemma buffer_offset_bounds: "blk_off (buffer_offset p) \<le> p \<and> p < blk_off (buffer_offset p) + blk_size (buffer_offset p)"
proof -
  obtain i where i: "blk_off i \<le> p" "p < blk_off (Suc i)" using blk_exists by blast
  then show ?thesis using buffer_offset_blk [OF i] by simp
qed

lemma buffer_offset_lt: "p < blk_off n \<Longrightarrow> buffer_offset p < n"
  using blk_off_mono [of n "buffer_offset p"] buffer_offset_bounds [of p] by (meson le_trans not_le)

text \<open>A bucket holds the bytes of the file from its offset on.\<close>

lemma bucket_bytes:
  assumes "mf_ok f" "i < length (mf_buffers f)"
  shows "\<exists>more. drop (blk_off i) (mf_bytes f) = take (mf_len f - blk_off i) (bt_data (mf_buffers f ! i)) @ more"
proof -
  let ?bufs = "mf_buffers f"
  have "concat (map bt_data ?bufs) = concat (map bt_data (take i ?bufs)) @ bt_data (?bufs ! i) @ concat (map bt_data (drop (Suc i) ?bufs))"
    by (subst id_take_nth_drop [OF assms(2)]) simp
  moreover have "length (concat (map bt_data (take i ?bufs))) = blk_off i"
    using assms by (intro mf_wf_concat) (simp_all add: mf_ok_def)
  ultimately have "drop (blk_off i) (concat (map bt_data ?bufs)) = bt_data (?bufs ! i) @ concat (map bt_data (drop (Suc i) ?bufs))"
    by (metis append_eq_conv_conj)
  then show ?thesis by (auto simp: mf_bytes_def drop_take take_append)
qed

section \<open>The stream\<close>

definition mi_stream :: "u8 list \<Rightarrow> memory_input \<Rightarrow> bool" where
  "mi_stream f s \<longleftrightarrow> mf_ok (mi_file s) \<and> mf_bytes (mi_file s) = f \<and>
     (case mi_buf s of
        None \<Rightarrow> mi_end s = None \<and> mi_begin s = 0 \<and> mi_start s = 0
      | Some i \<Rightarrow> i < length (mf_buffers (mi_file s)) \<and> mi_start s = blk_off i \<and> blk_off i \<le> mi_length s \<and>
          mi_end s = Some (min (blk_size i) (mi_length s - blk_off i)) \<and> mi_begin s \<le> min (blk_size i) (mi_length s - blk_off i))"

definition mi_rest :: "memory_input \<Rightarrow> u8 list" where
  "mi_rest s = drop (mi_file_pointer s) (mf_bytes (mi_file s))"

lemma mi_stream_length: "mi_stream f s \<Longrightarrow> mi_length s = length f"
  using length_mf_bytes [of "mi_file s"] by (auto simp: mi_stream_def mi_length_def)

lemma mi_stream_pointer: "mi_stream f s \<Longrightarrow> mi_file_pointer s \<le> length f"
  using mi_stream_length [of f s] by (auto simp: mi_stream_def mi_file_pointer_def split: option.splits)

lemma mi_new_stream: "mf_ok f \<Longrightarrow> mi_stream (mf_bytes f) (mi_new f) \<and> mi_rest (mi_new f) = mf_bytes f \<and> mi_file_pointer (mi_new f) = 0"
  by (simp add: mi_stream_def mi_new_def mi_rest_def mi_file_pointer_def)

lemma mi_window_bytes:
  assumes "mi_stream f s"
  shows "\<exists>more. mi_rest s = mi_window s @ more"
proof (cases "mi_buf s")
  case None
  then show ?thesis by (simp add: mi_window_def)
next
  case (Some i)
  let ?d = "bt_data (mf_buffers (mi_file s) ! i)" and ?n = "mi_length s - blk_off i"
  have s: "mf_ok (mi_file s)" "i < length (mf_buffers (mi_file s))" "mi_start s = blk_off i" "mi_begin s \<le> ?n"
    "mi_end s = Some (min (blk_size i) ?n)" "mf_bytes (mi_file s) = f" "length ?d = blk_size i" "mi_begin s \<le> blk_size i"
    using assms Some by (auto simp: mi_stream_def mf_ok_def mf_wf_def)
  obtain more where "drop (blk_off i) f = take ?n ?d @ more" using bucket_bytes [OF s(1,2)] s(6) by (auto simp: mi_length_def)
  then have "drop (mi_begin s) (drop (blk_off i) f) = drop (mi_begin s) (take ?n ?d) @ more" using s(4,7,8) by simp
  moreover have "drop (mi_begin s) (take ?n ?d) = take (min (blk_size i) ?n - mi_begin s) (drop (mi_begin s) ?d)"
    using s(7,8) by (auto simp: drop_take min_def)
  ultimately show ?thesis using s(3,5,6) Some by (auto simp: mi_window_def mi_rest_def mi_file_pointer_def add.commute)
qed

lemma mi_adv_stream:
  assumes "mi_stream f s" "n \<le> length (mi_window s)"
  shows "mi_stream f (mi_adv n s) \<and> mi_rest (mi_adv n s) = drop n (mi_rest s)"
proof (cases "mi_buf s")
  case None
  then show ?thesis using assms by (simp add: mi_window_def mi_adv_def)
next
  case (Some i)
  then show ?thesis using assms by (auto simp: mi_stream_def mi_window_def mi_adv_def mi_rest_def mi_file_pointer_def mi_length_def ac_simps)
qed

lemma mi_valid_stream:
  "mf_ok f \<Longrightarrow> i < length (mf_buffers f) \<Longrightarrow> blk_off i \<le> mf_len f \<Longrightarrow> mi_valid f (mf_buffers f ! i) = min (blk_size i) (mf_len f - blk_off i)"
  by (simp add: mi_valid_def mf_ok_def mf_wf_def)

text \<open>\<open>switch_buffer\<close> goes to any byte of the file and fails at its end.\<close>

lemma mi_switch_inside:
  assumes "mi_stream f s \<or> mf_ok (mi_file s) \<and> mf_bytes (mi_file s) = f \<and> mi_buf s = None" "p < length f"
  shows "\<exists>s'. mi_switch_buffer p s = Some s' \<and> mi_stream f s' \<and> mi_file_pointer s' = p \<and> mi_window s' \<noteq> []"
proof -
  let ?F = "mi_file s" and ?i = "buffer_offset p"
  have F: "mf_ok ?F" "mf_bytes ?F = f" "mf_len ?F = length f" using assms(1) length_mf_bytes by (auto simp: mi_stream_def)
  have i: "?i < length (mf_buffers ?F)" using F assms(2) by (intro buffer_offset_lt) (simp add: mf_ok_def)
  have p: "blk_off ?i \<le> p" "p < blk_off ?i + blk_size ?i" using buffer_offset_bounds [of p] by auto
  have b: "bt_offset (mf_buffers ?F ! ?i) = blk_off ?i" "length (bt_data (mf_buffers ?F ! ?i)) = blk_size ?i"
    using F(1) i by (simp_all add: mf_ok_def mf_wf_def)
  have v: "mi_valid ?F (mf_buffers ?F ! ?i) = min (blk_size ?i) (length f - blk_off ?i)"
    using mi_valid_stream [OF F(1) i] F(3) p(1) assms(2) by simp
  let ?s = "\<lparr>mi_file = ?F, mi_buf = Some ?i, mi_begin = p - blk_off ?i, mi_end = Some (min (blk_size ?i) (length f - blk_off ?i)), mi_start = blk_off ?i\<rparr>"
  have "mi_switch_buffer p s = Some ?s"
  proof (cases "mi_buf s = Some ?i")
    case True
    then have "mi_start s = blk_off ?i" "mi_end s = Some (min (blk_size ?i) (length f - blk_off ?i))"
      using assms(1) F(3) by (auto simp: mi_stream_def mi_length_def)
    then show ?thesis using True i p assms(2) by (cases s) (auto simp: mi_switch_buffer_def Let_def)
  next
    case False
    then show ?thesis using i p assms(2) v b by (cases s) (auto simp: mi_switch_buffer_def Let_def)
  qed
  moreover have "p - blk_off ?i \<le> blk_size ?i" "p - blk_off ?i \<le> length f - blk_off ?i" using p assms(2) by linarith+
  then have "mi_stream f ?s" using F i p assms(2) by (simp add: mi_stream_def mi_length_def)
  moreover have "p - blk_off ?i < blk_size ?i" "p - blk_off ?i < length f - blk_off ?i" using p assms(2) by linarith+
  then have "mi_window ?s \<noteq> []" using b(2) by (simp add: mi_window_def not_le)
  ultimately show ?thesis using p(1) by (auto simp: mi_file_pointer_def)
qed

lemma mi_switch_end:
  assumes "mi_stream f s" "p = length f"
  shows "mi_switch_buffer p s = None"
proof -
  let ?F = "mi_file s" and ?i = "buffer_offset p"
  have F: "mf_ok ?F" "mf_len ?F = length f" using assms(1) length_mf_bytes by (auto simp: mi_stream_def)
  have p: "blk_off ?i \<le> p" "p < blk_off ?i + blk_size ?i" using buffer_offset_bounds [of p] by auto
  have "bt_offset (mf_buffers ?F ! ?i) = blk_off ?i" "mi_valid ?F (mf_buffers ?F ! ?i) = min (blk_size ?i) (length f - blk_off ?i)"
    if i: "?i < length (mf_buffers ?F)"
    using mi_valid_stream [OF F(1) i] F p(1) assms(2) i by (simp_all add: mf_ok_def mf_wf_def)
  then show ?thesis using assms p F(2)
    by (auto simp: mi_switch_buffer_def Let_def mi_stream_def mi_length_def)
qed

lemma mi_exhausted_window: "mi_stream f s \<Longrightarrow> mi_exhausted s \<longleftrightarrow> mi_window s = []"
  by (auto simp: mi_exhausted_def mi_window_def mi_stream_def mf_ok_def mf_wf_def split: option.splits)

text \<open>The state the reads start from.\<close>

lemma mi_ready:
  assumes "mi_stream f s" "mi_rest s \<noteq> []"
  shows "\<exists>s1. (if mi_exhausted s then mi_switch_buffer (mi_file_pointer s) s else Some s) = Some s1 \<and> mi_stream f s1 \<and>
    mi_rest s1 = mi_rest s \<and> mi_window s1 \<noteq> []"
proof (cases "mi_exhausted s")
  case True
  have "mf_bytes (mi_file s) = f" using assms(1) by (simp add: mi_stream_def)
  then have "mi_file_pointer s < length f" using assms(2) by (simp add: mi_rest_def)
  then obtain s1 where s1: "mi_switch_buffer (mi_file_pointer s) s = Some s1" "mi_stream f s1" "mi_file_pointer s1 = mi_file_pointer s"
    "mi_window s1 \<noteq> []" using mi_switch_inside [OF disjI1 [OF assms(1)]] by blast
  then have "mi_rest s1 = mi_rest s" using assms(1) by (simp add: mi_rest_def mi_stream_def)
  then show ?thesis using True s1 by simp
next
  case False
  then show ?thesis using mi_exhausted_window [OF assms(1)] assms(1) by simp
qed

lemma mi_done: "mi_stream f s \<Longrightarrow> mi_rest s = [] \<Longrightarrow> mi_exhausted s \<and> mi_file_pointer s = length f"
  using mi_exhausted_window [of f s] mi_window_bytes [of f s] mi_stream_pointer [of f s]
  by (auto simp: mi_rest_def mi_stream_def)

lemma mi_byte_reader: "byte_reader mi_read_byte (mi_stream f) mi_rest"
proof (unfold_locales, goal_cases)
  case (1 s)
  then show ?case using mi_done [OF 1] mi_switch_end [OF 1(1)] by (simp add: mi_read_byte_def)
next
  case (2 s b bs)
  then obtain s1 where s1: "(if mi_exhausted s then mi_switch_buffer (mi_file_pointer s) s else Some s) = Some s1" "mi_stream f s1"
    "mi_rest s1 = b # bs" "mi_window s1 \<noteq> []" using mi_ready [OF 2(1)] by auto
  then obtain w where "mi_window s1 = b # w" using mi_window_bytes [OF s1(2)] by (cases "mi_window s1") auto
  then show ?case unfolding mi_read_byte_def s1(1) using mi_adv_stream [OF s1(2), of 1] s1(3) by simp
qed

lemma mi_window_reader: "window_reader mi_read_byte (mi_stream f) mi_rest mi_window mi_adv"
  using mi_byte_reader mi_window_bytes mi_adv_stream by (simp add: window_reader_def window_reader_axioms_def)

lemma mi_read_bytes_correct:
  "mi_stream f s \<Longrightarrow> reads (mi_stream f) mi_rest (mi_read_bytes n s) (Some (take n (mi_rest s), drop n (mi_rest s)))"
proof (induction n arbitrary: s rule: less_induct)
  case (less n)
  show ?case
  proof (cases "n = 0 \<or> mi_rest s = []")
    case True
    then show ?thesis using less.prems mi_done [OF less.prems] mi_stream_length [OF less.prems]
      by (subst mi_read_bytes.simps) (auto simp: reads_def mi_eof_def)
  next
    case False
    then obtain s1 where s1: "(if mi_exhausted s then mi_switch_buffer (mi_file_pointer s) s else Some s) = Some s1" "mi_stream f s1"
      "mi_rest s1 = mi_rest s" "mi_window s1 \<noteq> []" using mi_ready [OF less.prems] by blast
    let ?c = "min (length (mi_window s1)) n"
    have c: "0 < ?c" "?c \<le> n" using False s1(4) by auto
    have "\<not> mi_eof s" using False less.prems mi_stream_length [OF less.prems] by (auto simp: mi_eof_def mi_rest_def mi_stream_def)
    moreover have "mi_buf s1 \<noteq> None" using s1(4) by (cases "mi_buf s1") (simp_all add: mi_window_def)
    ultimately have e: "mi_read_bytes n s = do { (bs, s2) \<leftarrow> mi_read_bytes (n - ?c) (mi_adv ?c s1); Some (take ?c (mi_window s1) @ bs, s2) }"
      using False s1(1) by (subst mi_read_bytes.simps) (auto simp: Let_def)
    have st: "mi_stream f (mi_adv ?c s1)" "mi_rest (mi_adv ?c s1) = drop ?c (mi_rest s)"
      using mi_adv_stream [OF s1(2), of ?c] s1(3) by simp_all
    have "n - ?c < n" using c by simp
    from less.IH [OF this st(1)] obtain s2 where s2: "mi_read_bytes (n - ?c) (mi_adv ?c s1) = Some (take (n - ?c) (drop ?c (mi_rest s)), s2)"
      "mi_stream f s2" "mi_rest s2 = drop (n - ?c) (drop ?c (mi_rest s))" unfolding st(2) by (auto simp: reads_def)
    obtain more where "mi_rest s = mi_window s1 @ more" using mi_window_bytes [OF s1(2)] s1(3) by auto
    then have "take ?c (mi_window s1) = take ?c (mi_rest s)" by simp
    moreover have "take n (mi_rest s) = take ?c (mi_rest s) @ take (n - ?c) (drop ?c (mi_rest s))"
      using c(2) by (metis le_add_diff_inverse take_add)
    moreover have "drop (n - ?c) (drop ?c (mi_rest s)) = drop n (mi_rest s)" using c(2) by simp
    ultimately show ?thesis unfolding e s2(1) using s2(2,3) by (simp add: reads_def)
  qed
qed

interpretation mi: index_reader mi_io mi_stream mi_rest
proof (unfold_locales, goal_cases)
  case (8 f s)
  then show ?case using mi_stream_pointer [OF 8] by (simp add: mi_io_def mi_rest_def mi_stream_def)
next
  case (9 f s p)
  have "mi_seek p s = mi_switch_buffer p s" using 9 mi_stream_length [OF 9(1)] by (simp add: mi_seek_def)
  with mi_switch_inside [OF disjI1 [OF 9(1)] 9(2)] show ?case by (auto simp: mi_io_def mi_rest_def mi_stream_def)
qed (simp_all add: mi_io_def mi_read_bytes_correct window_reader.ints_correct [OF mi_window_reader] window_reader.vint_correct [OF mi_window_reader]
  window_reader.vlong_correct [OF mi_window_reader] window_reader.byte_correct [OF mi_window_reader])

lemma mi_read_buffer_correct:
  assumes "mi_stream f s"
  shows "\<exists>b s'. mi_read_buffer n s = Some (b, s') \<and> mi_stream f s' \<and>
    (case b of None \<Rightarrow> s' = s | Some bs \<Rightarrow> n \<le> length (mi_rest s) \<and> bs = take n (mi_rest s) \<and> mi_rest s' = drop n (mi_rest s))"
proof (cases "mi_buf s")
  case None
  then show ?thesis using assms by (simp add: mi_read_buffer_def mi_stream_def)
next
  case (Some i)
  then obtain e where e: "mi_end s = Some e" "mi_begin s \<le> e" "length (mi_window s) = e - mi_begin s"
    using assms by (auto simp: mi_stream_def mi_window_def mf_ok_def mf_wf_def)
  obtain more where "mi_rest s = mi_window s @ more" using mi_window_bytes [OF assms] by blast
  then show ?thesis using assms Some e mi_adv_stream [OF assms, of n] by (auto simp: mi_read_buffer_def)
qed

text \<open>\<open>read_buffer(offset, size)\<close> hands out bytes that lie in one bucket.\<close>

lemma mi_read_buffer_at_correct:
  assumes "mi_stream f s" "p < length f"
  shows "\<exists>b s'. mi_read_buffer_at p n s = Some (b, s') \<and> mi_stream f s' \<and>
    (case b of None \<Rightarrow> s' = s | Some bs \<Rightarrow> p + n \<le> length f \<and> bs = take n (drop p f) \<and> mi_rest s' = drop (p + n) f)"
proof -
  let ?F = "mi_file s" and ?i = "buffer_offset p" and ?q = "p - blk_off (buffer_offset p)"
  have F: "mf_ok ?F" "mf_bytes ?F = f" "mf_len ?F = length f" using assms(1) length_mf_bytes by (auto simp: mi_stream_def)
  have i: "?i < length (mf_buffers ?F)" using F assms(2) by (intro buffer_offset_lt) (simp add: mf_ok_def)
  have p: "blk_off ?i \<le> p" "p = blk_off ?i + ?q" using buffer_offset_bounds [of p] by auto
  have b: "bt_offset (mf_buffers ?F ! ?i) = blk_off ?i" "length (bt_data (mf_buffers ?F ! ?i)) = blk_size ?i"
    using F(1) i by (simp_all add: mf_ok_def mf_wf_def)
  have v: "mi_valid ?F (mf_buffers ?F ! ?i) = min (blk_size ?i) (length f - blk_off ?i)"
    using mi_valid_stream [OF F(1) i] F(3) p(1) assms(2) by simp
  let ?s = "s\<lparr>mi_buf := Some ?i, mi_begin := ?q + n, mi_end := Some (min (blk_size ?i) (length f - blk_off ?i)), mi_start := blk_off ?i\<rparr>"
  obtain more where more: "drop (blk_off ?i) f = take (length f - blk_off ?i) (bt_data (mf_buffers ?F ! ?i)) @ more"
    using bucket_bytes [OF F(1) i] F(2,3) by auto
  have "mi_stream f ?s" "mi_rest ?s = drop (p + n) f" "take n (drop ?q (bt_data (mf_buffers ?F ! ?i))) = take n (drop p f)" "p + n \<le> length f"
    if n: "?q + n \<le> min (blk_size ?i) (length f - blk_off ?i)"
  proof -
    show "mi_stream f ?s" using F i p assms(2) n by (simp add: mi_stream_def mi_length_def)
    show "mi_rest ?s = drop (p + n) f" using F(2) p(1) by (simp add: mi_rest_def mi_file_pointer_def)
    show "p + n \<le> length f" using n p(1) assms(2) by linarith
    have "drop p f = drop ?q (drop (blk_off ?i) f)" using p(2) by (metis add.commute drop_drop)
    also have "\<dots> = drop ?q (take (length f - blk_off ?i) (bt_data (mf_buffers ?F ! ?i))) @ more"
    proof -
      have "?q \<le> length (take (length f - blk_off ?i) (bt_data (mf_buffers ?F ! ?i)))" using n b(2) by simp
      then show ?thesis unfolding more by (simp only: drop_append diff_is_0_eq' drop_0)
    qed
    finally have d: "drop p f = drop ?q (take (length f - blk_off ?i) (bt_data (mf_buffers ?F ! ?i))) @ more" .
    have "n \<le> length (drop ?q (take (length f - blk_off ?i) (bt_data (mf_buffers ?F ! ?i))))" using n b(2) by (simp add: le_diff_conv2)
    then have "take n (drop p f) = take n (drop ?q (take (length f - blk_off ?i) (bt_data (mf_buffers ?F ! ?i))))"
      unfolding d by (simp only: take_append diff_is_0_eq' take_0 append_Nil2)
    moreover have "n \<le> length f - blk_off ?i - ?q" using n by linarith
    ultimately show "take n (drop ?q (bt_data (mf_buffers ?F ! ?i))) = take n (drop p f)"
      by (simp only: drop_take take_take min_absorb1)
  qed
  then show ?thesis using i b(1) v assms(1) by (auto simp: mi_read_buffer_at_def Let_def)
qed

section \<open>The checksum\<close>

declare mi_crc_blocks.simps [simp del]

lemma mi_crc_blocks_0 [simp]: "mi_crc_blocks crc_ext bufs lst idx 0 crc = (crc, 0, idx)"
  by (simp add: mi_crc_blocks.simps)

lemma drop_bucket: "i < length bufs \<Longrightarrow> concat (map bt_data (drop i bufs)) = bt_data (bufs ! i) @ concat (map bt_data (drop (Suc i) bufs))"
  by (simp flip: Cons_nth_drop_Suc)

text \<open>The bytes of the file from a bucket on, in the buckets.\<close>

lemma buckets_bytes:
  assumes "mf_ok f" "i \<le> length (mf_buffers f)" "n \<le> mf_len f - blk_off i"
  shows "take n (concat (map bt_data (drop i (mf_buffers f)))) = take n (drop (blk_off i) (mf_bytes f))"
proof -
  let ?bufs = "mf_buffers f"
  have "concat (map bt_data ?bufs) = concat (map bt_data (take i ?bufs)) @ concat (map bt_data (drop i ?bufs))"
    by (metis append_take_drop_id concat_append map_append)
  moreover have "length (concat (map bt_data (take i ?bufs))) = blk_off i" using assms by (intro mf_wf_concat) (simp_all add: mf_ok_def)
  ultimately have "drop (blk_off i) (concat (map bt_data ?bufs)) = concat (map bt_data (drop i ?bufs))"
    by (metis append_eq_conv_conj)
  then show ?thesis using assms(3) by (simp add: mf_bytes_def drop_take min_def)
qed

context crc_extension
begin

lemma mi_crc_blocks_correct:
  assumes "mf_wf bufs" "idx \<le> lst" "lst < length bufs" "mi_crc_blocks crc_ext bufs lst idx off crc = (crc1, off1, idx2)"
  shows "crc_ext crc (take off (concat (map bt_data (drop idx bufs)))) = crc_ext crc1 (take off1 (concat (map bt_data (drop idx2 bufs)))) \<and>
    (off1 = 0 \<or> idx2 = lst \<and> off1 + blk_off lst = off + blk_off idx)"
  using assms
proof (induction "lst - idx" arbitrary: idx off crc rule: less_induct)
  case less
  let ?d = "bt_data (bufs ! idx)" and ?D = "\<lambda>i. concat (map bt_data (drop i bufs))"
  let ?n = "min off (length ?d)"
  show ?case
  proof (cases "off \<noteq> 0 \<and> idx < lst")
    case False
    then show ?thesis using less.prems by (auto simp: mi_crc_blocks.simps [of _ _ lst idx])
  next
    case True
    have len: "length ?d = blk_size idx" "idx < length bufs" using less.prems True by (simp_all add: mf_wf_def)
    have r: "mi_crc_blocks crc_ext bufs lst (idx + 1) (off - ?n) (crc_ext crc (take ?n ?d)) = (crc1, off1, idx2)"
      using less.prems(4) True by (subst (asm) mi_crc_blocks.simps) (simp add: Let_def)
    have "lst - (idx + 1) < lst - idx" "idx + 1 \<le> lst" using True by linarith+
    note ih = less.hyps [OF this(1) less.prems(1) this(2) less.prems(3) r]
    have "take off (?D idx) = take ?n ?d @ take (off - ?n) (?D (idx + 1))"
      by (cases "off \<le> length ?d") (simp_all add: drop_bucket [OF len(2)] take_append)
    then have "crc_ext crc (take off (?D idx)) = crc_ext (crc_ext crc (take ?n ?d)) (take (off - ?n) (?D (idx + 1)))"
      by (simp add: extend_append)
    moreover have "off1 = 0 \<or> idx2 = lst \<and> off1 + blk_off lst = off + blk_off idx"
    proof (cases "off \<le> length ?d")
      case small: True
      then show ?thesis using ih r by auto
    next
      case False
      then show ?thesis using ih len(1) by (auto simp: min_def)
    qed
    ultimately show ?thesis using ih by simp
  qed
qed

lemma mi_checksum_correct:
  assumes "mi_stream f s" "mi_buf s = None \<or> mi_window s \<noteq> []" "n \<le> length (mi_rest s)"
  shows "mi_checksum crc_ext n s = ucast (crc_ext 0 (take n (mi_rest s)))"
proof (cases "f = []")
  case True
  then have "mi_length s = 0" "mi_rest s = []" using mi_stream_length [OF assms(1)] assms(1) by (simp_all add: mi_rest_def mi_stream_def)
  then show ?thesis by (simp add: mi_checksum_def mi_length_def extend_nil)
next
  case False
  let ?F = "mi_file s" and ?bufs = "mf_buffers (mi_file s)" and ?lst = "length (mf_buffers (mi_file s)) - 1"
  let ?D = "\<lambda>i. concat (map bt_data (drop i (mf_buffers (mi_file s))))"
  have F: "mf_ok ?F" "mf_wf ?bufs" "mf_bytes ?F = f" "mf_len ?F = length f" "length f \<le> blk_off (length ?bufs)"
    using assms(1) length_mf_bytes by (auto simp: mi_stream_def mf_ok_def)
  have ne: "length f \<noteq> 0" "length ?bufs \<noteq> 0" using False F(5) by (cases ?bufs; simp)+
  have dF: "length (mi_rest s) = length f - mi_file_pointer s" using F(3) by (simp add: mi_rest_def)
  have tail: "mi_crc_from crc_ext ?F idx off crc = crc_ext crc (take off (drop (blk_off idx) f))"
    if "off = 0 \<or> idx \<le> ?lst \<and> off + blk_off idx \<le> length f" for idx off crc
  proof (cases "off = 0")
    case True
    then show ?thesis by (simp add: mi_crc_from_def extend_nil)
  next
    case off: False
    then have idx: "idx \<le> ?lst" "off + blk_off idx \<le> length f" using that by auto
    obtain crc1 off1 idx2 where r: "mi_crc_blocks crc_ext ?bufs ?lst idx off crc = (crc1, off1, idx2)" by (metis prod_cases3)
    have lst: "?lst < length ?bufs" using ne(2) by simp
    note c = mi_crc_blocks_correct [OF F(2) idx(1) lst r]
    have D: "take off (?D idx) = take off (drop (blk_off idx) f)"
      using buckets_bytes [OF F(1), of idx off] idx lst F(3,4) by simp
    show ?thesis
    proof (cases "off1 = 0")
      case True
      then show ?thesis using r c D by (simp add: mi_crc_from_def extend_nil)
    next
      case o: False
      then have l: "idx2 = ?lst" "off1 + blk_off ?lst \<le> length f" using c idx(2) by auto
      have "bt_offset (?bufs ! ?lst) = blk_off ?lst" using F(2) lst by (simp add: mf_wf_def)
      moreover have "?D ?lst = bt_data (?bufs ! ?lst)" using drop_bucket [OF lst] lst by simp
      moreover have "blk_off ?lst \<le> length f" "min off1 (length f - blk_off ?lst) = off1" using l(2) by linarith+
      ultimately show ?thesis using r c D l o F(4) by (simp add: mi_crc_from_def Let_def)
    qed
  qed
  show ?thesis
  proof (cases "mi_buf s")
    case None
    then have z: "mi_file_pointer s = 0" using assms(1) by (simp add: mi_stream_def mi_file_pointer_def)
    have "buffer_offset 0 = 0" using buffer_offset_bounds [of 0] blk_off_mono [of 1 "buffer_offset 0"] by (cases "buffer_offset 0") (auto simp: blk_size_def)
    then show ?thesis using tail [of n 0 0] None z assms(3) dF ne F(3,4)
      by (simp add: mi_checksum_def mi_rest_def)
  next
    case (Some i)
    let ?w = "mi_window s"
    let ?m = "min n (length ?w)"
    have s: "i < length ?bufs" "mi_start s = blk_off i" "mi_end s = Some (min (blk_size i) (length f - blk_off i))"
      "mi_begin s < min (blk_size i) (length f - blk_off i)" "length ?w = min (blk_size i) (length f - blk_off i) - mi_begin s"
      using assms(1,2) Some F(2,4) by (auto simp: mi_stream_def mi_window_def mi_length_def mf_wf_def)
    then have "buffer_offset (mi_file_pointer s) = i" by (intro buffer_offset_blk) (auto simp: mi_file_pointer_def)
    then have e: "mi_checksum crc_ext n s = ucast (crc_ext (crc_ext 0 (take ?m ?w)) (take (n - ?m) (drop (blk_off (i + 1)) f)))"
      if "n - ?m = 0 \<or> i + 1 \<le> ?lst \<and> n - ?m + blk_off (i + 1) \<le> length f"
      using tail [OF that, of "crc_ext 0 (take ?m ?w)"] Some ne F(4) by (simp add: mi_checksum_def Let_def)
    obtain more where more: "mi_rest s = ?w @ more" using mi_window_bytes [OF assms(1)] by blast
    show ?thesis
    proof (cases "n \<le> length ?w")
      case True
      then show ?thesis using e more by (simp add: extend_nil)
    next
      case big: False
      then have "length ?w < length f - mi_file_pointer s" using assms(3) dF by simp
      then have full: "blk_size i < length f - blk_off i" "length ?w = blk_size i - mi_begin s" "mi_begin s < blk_size i"
        using s by (auto simp: mi_file_pointer_def min_def split: if_splits)
      then have next_off: "mi_file_pointer s + length ?w = blk_off (i + 1)" "blk_off (i + 1) < length f" using s(2) by (simp_all add: mi_file_pointer_def)
      then have "i + 1 \<le> ?lst" using F(5) blk_off_mono [of "length ?bufs" "i + 1"] by linarith
      moreover have "n - ?m + blk_off (i + 1) \<le> length f" using big next_off assms(3) dF by simp
      ultimately have "mi_checksum crc_ext n s = ucast (crc_ext 0 (take ?m ?w @ take (n - ?m) (drop (blk_off (i + 1)) f)))"
        using e [OF disjI2] by (simp only: extend_append)
      moreover have "more = drop (blk_off (i + 1)) f"
        using more next_off(1) F(3) by (metis append_eq_conv_conj drop_drop add.commute mi_rest_def)
      ultimately show ?thesis using more big by simp
    qed
  qed
qed

end

sublocale crc_extension \<subseteq> memory_input: file_source "mi_file_in crc_ext" mi_stream mi_rest "\<lambda>s. mi_buf s = None \<or> mi_window s \<noteq> []" crc_ext
proof -
  have io: "fr_io (mi_file_in crc_ext) = mi_io" "in_pointer mi_io = mi_file_pointer" "in_seek mi_io = mi_seek"
    by (simp_all add: mi_file_in_def mi_io_def)
  have "file_source_axioms (mi_file_in crc_ext) mi_stream mi_rest (\<lambda>s. mi_buf s = None \<or> mi_window s \<noteq> []) crc_ext"
  proof (unfold_locales, goal_cases)
    case (1 f s)
    then show ?case by (simp add: mi_file_in_def mi_stream_length)
  next
    case (2 f s n)
    then have "mi_rest s = f" by (simp add: io mi_rest_def mi_stream_def)
    then show ?case using mi_checksum_correct [OF 2(1), of n] 2 by (simp add: mi_file_in_def)
  next
    case (3 f s)
    then have "mi_seek 0 s = mi_switch_buffer 0 s" using mi_stream_length [OF 3(1)] by (simp add: mi_seek_def)
    then show ?case using mi_switch_inside [OF disjI1 [OF 3(1)], of 0] 3 unfolding io by (auto simp: mi_file_in_def)
  next
    case (4 f s d)
    then show ?case by (simp add: mi_file_in_def)
  qed
  then show "file_source (mi_file_in crc_ext) mi_stream mi_rest (\<lambda>s. mi_buf s = None \<or> mi_window s \<noteq> []) crc_ext"
    using mi.index_reader_axioms by (simp add: file_source_def io)
qed

section \<open>Properties\<close>

text \<open>
  C17: from a file in memory, opened or read before, \<open>seek\<close> to a byte of the file and \<open>read_bytes\<close> give the bytes there
  across buckets, a variable width integer is decoded there, and from a position in a bucket \<open>checksum(n)\<close> is the CRC of the next \<open>n\<close>
  bytes. At the end of a bucket that was read \<open>checksum\<close> leaves out the next one: it is 0 when that is the last. After a \<open>seek\<close> to
  the end, reading gives no bytes on a fresh stream, and fails on one that has been read.
\<close>

theorem memory_file_input:
  assumes "crc_extension crc_ext" "mi_stream f s"
  shows "(p < length f \<longrightarrow> (\<exists>s1. mi_seek p s = Some s1 \<and> mi_stream f s1 \<and> mi_file_pointer s1 = p \<and>
      (\<exists>s2. mi_read_bytes n s1 = Some (take n (drop p f), s2) \<and> mi_stream f s2) \<and>
      (case vread_u64 (drop p f) of None \<Rightarrow> in_vlong mi_io s1 = None | Some (v, r) \<Rightarrow> \<exists>s2. in_vlong mi_io s1 = Some (v, s2) \<and> mi_rest s2 = r) \<and>
      (n \<le> length f - p \<longrightarrow> mi_checksum crc_ext n s1 = ucast (crc_ext 0 (take n (drop p f)))))) \<and>
    (mi_buf s = Some i \<and> mi_window s = [] \<and> length (mf_buffers (mi_file s)) = i + 2 \<and> mi_file_pointer s < length f \<longrightarrow> mi_checksum crc_ext n s = 0) \<and>
    (length f \<le> p \<longrightarrow> (\<exists>s1. mi_seek p s = Some s1 \<and> mi_eof s1 \<and>
      mi_read_bytes (Suc n) s1 = (if mi_buf s = None then Some ([], s1) else None)))"
proof (intro conjI impI)
  assume p: "p < length f"
  have "mi_seek p s = mi_switch_buffer p s" using p mi_stream_length [OF assms(2)] by (simp add: mi_seek_def)
  then obtain s1 where s1: "mi_seek p s = Some s1" "mi_stream f s1" "mi_file_pointer s1 = p" "mi_window s1 \<noteq> []"
    using mi_switch_inside [OF disjI1 [OF assms(2)] p] by auto
  then have r: "mi_rest s1 = drop p f" by (simp add: mi_rest_def mi_stream_def)
  show "\<exists>s1. mi_seek p s = Some s1 \<and> mi_stream f s1 \<and> mi_file_pointer s1 = p \<and>
      (\<exists>s2. mi_read_bytes n s1 = Some (take n (drop p f), s2) \<and> mi_stream f s2) \<and>
      (case vread_u64 (drop p f) of None \<Rightarrow> in_vlong mi_io s1 = None | Some (v, r) \<Rightarrow> \<exists>s2. in_vlong mi_io s1 = Some (v, s2) \<and> mi_rest s2 = r) \<and>
      (n \<le> length f - p \<longrightarrow> mi_checksum crc_ext n s1 = ucast (crc_ext 0 (take n (drop p f))))"
    using s1 mi_read_bytes_correct [OF s1(2), of n] mi.vlong_law [OF s1(2)] crc_extension.mi_checksum_correct [OF assms(1) s1(2), of n]
    unfolding r by (auto simp: reads_def split: option.splits)
next
  assume b: "mi_buf s = Some i \<and> mi_window s = [] \<and> length (mf_buffers (mi_file s)) = i + 2 \<and> mi_file_pointer s < length f"
  then have s: "mi_length s = length f" "mi_start s = blk_off i" "mi_begin s = min (blk_size i) (length f - blk_off i)" "mf_wf (mf_buffers (mi_file s))"
    using assms(2) mi_stream_length [OF assms(2)] mi_exhausted_window [OF assms(2)]
    by (auto simp: mi_stream_def mi_exhausted_def mf_ok_def)
  then have "blk_size i \<le> length f - blk_off i" using b by (simp add: mi_file_pointer_def) linarith
  then have "mi_file_pointer s = blk_off (Suc i)" using s by (simp add: mi_file_pointer_def)
  then have "buffer_offset (mi_file_pointer s) = Suc i" by (intro buffer_offset_blk) simp_all
  moreover have "mi_crc_blocks crc_ext (mf_buffers (mi_file s)) (Suc i) (Suc (Suc i)) n 0 = (0, n, Suc (Suc i))"
    by (subst mi_crc_blocks.simps) simp
  ultimately show "mi_checksum crc_ext n s = 0" using b s(1) crc_extension.extend_nil [OF assms(1)]
    by (auto simp: mi_checksum_def mi_length_def mi_crc_from_def)
next
  assume p: "length f \<le> p"
  let ?s = "s\<lparr>mi_buf := None, mi_begin := 0, mi_start := mi_length s\<rparr>"
  have "mi_seek p s = Some ?s" "mi_eof ?s" using p mi_stream_length [OF assms(2)]
    by (simp_all add: mi_seek_def mi_eof_def mi_file_pointer_def mi_length_def)
  moreover have "mi_exhausted ?s \<longleftrightarrow> mi_buf s = None" using assms(2) by (auto simp: mi_exhausted_def mi_stream_def split: option.splits)
  ultimately show "\<exists>s1. mi_seek p s = Some s1 \<and> mi_eof s1 \<and> mi_read_bytes (Suc n) s1 = (if mi_buf s = None then Some ([], s1) else None)"
    by (subst mi_read_bytes.simps) (auto simp: Let_def)
qed

text \<open>A file of 300 bytes, in two buckets.\<close>

definition two_buckets :: memory_file where
  "two_buckets = \<lparr>mf_buffers = [\<lparr>bt_offset = 0, bt_data = replicate 256 1\<rparr>, \<lparr>bt_offset = 256, bt_data = replicate 512 2\<rparr>], mf_len = 300\<rparr>"

lemma two_buckets_ok: "mf_ok two_buckets" "length (mf_bytes two_buckets) = 300" "take 2 (drop 255 (mf_bytes two_buckets)) = [1, 2]"
proof -
  show "mf_ok two_buckets" by (simp add: two_buckets_def mf_ok_def mf_wf_def less_Suc_eq blk_size_def)
  have "mf_bytes two_buckets = replicate 256 1 @ replicate 44 2" by (simp add: two_buckets_def mf_bytes_def)
  then show "length (mf_bytes two_buckets) = 300" "take 2 (drop 255 (mf_bytes two_buckets)) = [1, 2]"
    by (simp_all add: numeral_2_eq_2)
qed

theorem memory_file_input_witness:
  "\<exists>s1 s2 s3. mi_seek 255 (mi_new two_buckets) = Some s1 \<and> mi_read_bytes 2 s1 = Some ([1, 2], s2) \<and>
     mi_checksum crc32c_extend 2 s1 = ucast (crc32c_extend 0 [1, 2]) \<and>
     mi_seek 300 (mi_new two_buckets) = Some s3 \<and> mi_read_bytes 1 s3 = Some ([], s3)"
proof -
  note s = conjunct1 [OF mi_new_stream [OF two_buckets_ok(1)]]
  have b: "mi_buf (mi_new two_buckets) = None" by (simp add: mi_new_def)
  show ?thesis
    using memory_file_input [OF crc32c.crc_extension_axioms s, of 255 2] memory_file_input [OF crc32c.crc_extension_axioms s, of 300 0]
    unfolding two_buckets_ok b by auto
qed

end
