(* ===== verification/Simd.thy ===== *)
theory Simd
  imports BitPacking Bytes
begin

text \<open>
  The vectorised routines of \<open>core/utils/simd_utils.hpp\<close> that block encoding uses. A vector is the list of its lanes and
  the number of lanes is an argument, since it depends on the target the code is compiled for.
\<close>

section \<open>Lanes\<close>

text \<open>\<open>LoadU\<close>, \<open>StoreU\<close> and \<open>CombineShiftRightLanes\<close>.\<close>

definition loadu :: "nat \<Rightarrow> nat \<Rightarrow> 'a list \<Rightarrow> 'a list" where
  "loadu Step i xs = take Step (drop i xs)"

definition storeu :: "'a list \<Rightarrow> nat \<Rightarrow> 'a list \<Rightarrow> 'a list" where
  "storeu v i xs = take i xs @ v @ drop (i + length v) xs"

definition combine_shift_right_lanes :: "nat \<Rightarrow> 'a list \<Rightarrow> 'a list \<Rightarrow> 'a list" where
  "combine_shift_right_lanes n hi lo = take (length hi) (drop n (lo @ hi))"

section \<open>Comparing and measuring a block\<close>

text \<open>\<open>all_equal\<close>: rounds of \<open>Step\<close> vectors, then the remaining elements one by one.\<close>

fun all_equal_from :: "nat \<Rightarrow> 'a \<Rightarrow> nat \<Rightarrow> 'a list \<Rightarrow> bool" where
  "all_equal_from Step value 0 xs = list_all (\<lambda>x. value = x) xs"
| "all_equal_from Step value (Suc steps) xs =
     (if \<exists>j\<in>set [0..<Step]. \<not> list_all (\<lambda>x. value = x) (loadu Step (j * Step) xs) then False
      else all_equal_from Step value steps (drop (Step * Step) xs))"

definition all_equal :: "nat \<Rightarrow> 'a list \<Rightarrow> bool" where
  "all_equal Step xs = all_equal_from Step (hd xs) (length xs div (Step * Step)) xs"

text \<open>\<open>maxbits\<close>: the lanes are or-ed in rounds of \<open>2 * Step\<close> vectors; the largest lane stands for all of them.\<close>

fun or_round :: "nat \<Rightarrow> nat \<Rightarrow> 'a::len word list \<Rightarrow> 'a word list \<Rightarrow> 'a word list" where
  "or_round Step 0 xs acc = acc"
| "or_round Step (Suc j) xs acc = or_round Step j (drop Step xs) (map2 (OR) acc (loadu Step 0 xs))"

fun or_rounds :: "nat \<Rightarrow> nat \<Rightarrow> 'a::len word list \<Rightarrow> 'a word list \<Rightarrow> 'a word list \<times> 'a word list" where
  "or_rounds Step 0 xs acc = (acc, xs)"
| "or_rounds Step (Suc steps) xs acc =
     or_rounds Step steps (drop (2 * Step * Step) xs) (or_round Step (2 * Step) xs acc)"

definition simd_maxbits32 :: "nat \<Rightarrow> u32 list \<Rightarrow> nat" where
  "simd_maxbits32 Step xs =
     (let (acc, rest) = or_rounds Step (length xs div (2 * Step * Step)) xs (replicate Step 0)
      in bits_required_32 (or_accum (fold max acc 0) rest))"

section \<open>Delta encoding in place\<close>

text \<open>The version for vectors of four lanes.\<close>

function delta_128_loop :: "nat \<Rightarrow> 'a::minus list \<Rightarrow> 'a list \<Rightarrow> 'a list" where
  "delta_128_loop i prev xs =
     (if i < length xs then
        let vec = loadu 4 i xs
        in delta_128_loop (i + 4) vec (storeu (map2 (-) vec (combine_shift_right_lanes 3 vec prev)) i xs)
      else xs)"
  by auto

definition delta_encode_128 :: "'a::minus list \<Rightarrow> 'a \<Rightarrow> 'a list" where
  "delta_encode_128 xs init = delta_128_loop 0 (replicate 4 init) xs"

text \<open>The version for wider vectors: a scalar part, then vectors loaded one element before the ones they are subtracted from.\<close>

function delta_scalar :: "nat \<Rightarrow> nat \<Rightarrow> 'a::minus \<Rightarrow> 'a list \<Rightarrow> 'a list \<times> 'a" where
  "delta_scalar i n init xs =
     (if i < n then delta_scalar (i + 1) n (xs ! i) (xs[i := xs ! i - init]) else (xs, init))"
  by auto

termination by (relation "measure (\<lambda>(i, n, _, _). n - i)") auto

function delta_256_loop :: "nat \<Rightarrow> nat \<Rightarrow> 'a::minus list \<Rightarrow> 'a list \<Rightarrow> 'a list" where
  "delta_256_loop Step i prev xs =
     (let vec = loadu Step i xs in
      if 0 < Step \<and> i < length xs - Step then
        delta_256_loop Step (i + Step) (loadu Step (i + Step - 1) xs) (storeu (map2 (-) vec prev) i xs)
      else storeu (map2 (-) vec prev) i xs)"
  by auto

definition delta_encode_256 :: "nat \<Rightarrow> 'a::minus list \<Rightarrow> 'a \<Rightarrow> 'a list" where
  "delta_encode_256 Step xs init =
     (if Step < length xs then
        let (xs1, init1) = delta_scalar 0 (Step - 1) init xs;
            prev = loadu Step (Step - 1) xs1
        in delta_256_loop Step Step prev (xs1[Step - 1 := xs1 ! (Step - 1) - init1])
      else fst (delta_scalar 0 Step init xs))"

section \<open>Zig-zag coding of lanes\<close>

text \<open>\<open>zig_zag_encode\<close> shifts the unsigned lane and \<open>zig_zag_decode\<close> the signed one.\<close>

definition simd_zig_zag_encode :: "u32 \<Rightarrow> u32" where
  "simd_zig_zag_encode v = drop_bit 31 v XOR push_bit 1 v"

definition simd_zig_zag_decode :: "u32 \<Rightarrow> u32" where
  "simd_zig_zag_decode uv = signed_drop_bit 1 uv XOR (0 - (uv AND 1))"

section \<open>Loops end and keep the length\<close>

lemma length_loadu [simp]: "length (loadu Step i xs) = min Step (length xs - i)"
  by (simp add: loadu_def)

lemma length_storeu: "i + length v \<le> length xs \<Longrightarrow> length (storeu v i xs) = length xs"
  by (simp add: storeu_def)

lemma length_storeu_ge: "i \<le> length xs \<Longrightarrow> length xs \<le> length (storeu v i xs) \<and> length (storeu v i xs) \<le> max (length xs) (i + length v)"
  by (auto simp: storeu_def)

lemma length_combine [simp]: "n \<le> length lo \<Longrightarrow> length (combine_shift_right_lanes n hi lo) = length hi"
  by (simp add: combine_shift_right_lanes_def)

lemma nth_loadu [simp]: "k < min Step (length xs - i) \<Longrightarrow> loadu Step i xs ! k = xs ! (i + k)"
  by (auto simp: loadu_def)

lemma nth_storeu:
  "i + length v \<le> length xs \<Longrightarrow> k < length xs \<Longrightarrow>
   storeu v i xs ! k = (if i \<le> k \<and> k < i + length v then v ! (k - i) else xs ! k)"
  by (auto simp: storeu_def nth_append min_def)

lemma length_store_vec:
  "i < length xs \<Longrightarrow> length (storeu (map2 f (loadu Step i xs) w) i xs) = length xs"
  by (intro length_storeu) auto

termination delta_128_loop
  by (relation "measure (\<lambda>(i, _, xs). length xs - i)") (auto simp: length_store_vec)

termination delta_256_loop
  by (relation "measure (\<lambda>(Step, i, _, xs). length xs - i)") (auto simp: length_store_vec)

declare delta_128_loop.simps [simp del] delta_256_loop.simps [simp del] delta_scalar.simps [simp del]

section \<open>Equivalence with the scalar routines\<close>

lemma list_all_chunks:
  "list_all P (take (n * Step) xs) \<longleftrightarrow> (\<forall>j\<in>set [0..<n]. list_all P (loadu Step (j * Step) xs))"
proof (induction n)
  case (Suc n)
  have "take (Suc n * Step) xs = take (n * Step) xs @ take Step (drop (n * Step) xs)"
    using take_add [of "n * Step" Step xs] by (simp add: add.commute)
  with Suc show ?case by (auto simp: loadu_def list_all_append less_Suc_eq)
qed simp

lemma all_equal_from_iff:
  "all_equal_from Step v n xs \<longleftrightarrow> list_all (\<lambda>x. v = x) xs"
proof (induction Step v n xs rule: all_equal_from.induct)
  case (2 Step v n xs)
  have "list_all (\<lambda>x. v = x) xs \<longleftrightarrow>
      list_all (\<lambda>x. v = x) (take (Step * Step) xs) \<and> list_all (\<lambda>x. v = x) (drop (Step * Step) xs)"
    by (metis append_take_drop_id list_all_append)
  then show ?case using 2 list_all_chunks [of "\<lambda>x. v = x" Step Step xs] by auto
qed simp

text \<open>The number of bits as the least width that a word fits in.\<close>

lemma countl_zero_bit:
  fixes x :: "'a::len word"
  assumes "x \<noteq> 0"
  shows "countl_zero x < LENGTH('a) \<and> bit x (LENGTH('a) - Suc (countl_zero x))"
proof -
  let ?P = "\<lambda>i. \<not> bit x i" and ?xs = "rev [0..<LENGTH('a)]"
  obtain i where i: "bit x i" using assms by (auto simp: bit_eq_iff)
  then have "i < LENGTH('a)" using bit_word_ge_len [of i x] by (meson not_le)
  then have "i \<in> set ?xs" by simp
  with i have "takeWhile ?P ?xs \<noteq> ?xs" by (metis takeWhile_eq_all_conv)
  then have lt: "length (takeWhile ?P ?xs) < length ?xs"
    by (metis le_neq_implies_less length_takeWhile_le take_all takeWhile_eq_take order_refl)
  from nth_length_takeWhile [OF lt] lt show ?thesis by (simp add: countl_zero_def rev_nth)
qed

lemma bits_required_le: "bits_required_32 v \<le> n \<longleftrightarrow> take_bit n v = v"
proof
  assume "bits_required_32 v \<le> n"
  then have "take_bit n (take_bit (bits_required_32 v) v) = take_bit (bits_required_32 v) v" by (simp add: min.absorb2)
  then show "take_bit n v = v" unfolding bits_required_fits .
next
  assume fits: "take_bit n v = v"
  show "bits_required_32 v \<le> n"
  proof (cases "v = 0")
    case False
    from countl_zero_bit [OF False] have c: "countl_zero v < 32" "bit v (32 - Suc (countl_zero v))" by auto
    then have "bit (take_bit n v) (32 - Suc (countl_zero v))" using fits by simp
    then have "32 - Suc (countl_zero v) < n" by (simp add: bit_take_bit_iff)
    with c(1) False show ?thesis by (simp add: bits_required_32_def)
  qed (simp add: bits_required_32_def)
qed

lemma fits_or: "take_bit n x OR take_bit n y = x OR y \<longleftrightarrow> take_bit n x = x \<and> take_bit n y = (y :: 'a::len word)"
  by (auto simp: bit_eq_iff bit_take_bit_iff bit_or_iff)

lemma fits_or_accum_iff: "take_bit n (or_accum a xs) = or_accum a xs \<longleftrightarrow> take_bit n a = a \<and> (\<forall>x\<in>set xs. take_bit n x = x)"
  by (induction a xs rule: or_accum.induct) (auto simp: fits_or)

lemma fits_fold_max:
  fixes a :: "'a::len word"
  shows "take_bit n (fold max xs a) = fold max xs a \<longleftrightarrow> take_bit n a = a \<and> (\<forall>x\<in>set xs. take_bit n x = x)"
proof (induction xs arbitrary: a)
  case (Cons x xs)
  have "unat (max x a) < 2 ^ n \<longleftrightarrow> unat x < 2 ^ n \<and> unat a < 2 ^ n" by (auto simp: max_def word_le_nat_alt)
  with Cons show ?case by (auto simp: unat_less_fits)
qed simp

lemma fits_map2_or:
  fixes xs ys :: "'a::len word list"
  shows "length xs = length ys \<Longrightarrow>
   (\<forall>z\<in>set (map2 (OR) xs ys). take_bit n z = z) \<longleftrightarrow> (\<forall>x\<in>set xs. take_bit n x = x) \<and> (\<forall>y\<in>set ys. take_bit n y = y)"
  by (induction xs ys rule: list_induct2) (auto simp: fits_or)

lemma or_round_fits:
  "length acc = Step \<Longrightarrow> j * Step \<le> length xs \<Longrightarrow> length (or_round Step j xs acc) = Step \<and>
   ((\<forall>z\<in>set (or_round Step j xs acc). take_bit n z = z) \<longleftrightarrow>
    (\<forall>x\<in>set acc. take_bit n x = x) \<and> (\<forall>x\<in>set (take (j * Step) xs). take_bit n x = x))"
proof (induction Step j xs acc rule: or_round.induct)
  case (2 Step j xs acc)
  have len: "length acc = length (loadu Step 0 xs)" using 2(2,3) by simp
  have "set (take (Suc j * Step) xs) = set (loadu Step 0 xs) \<union> set (take (j * Step) (drop Step xs))"
    using take_add [of Step "j * Step" xs] by (simp add: loadu_def)
  with 2 fits_map2_or [OF len, of n] show ?case by auto
qed simp

lemma or_rounds_fits:
  "length acc = Step \<Longrightarrow> k * (2 * Step * Step) \<le> length xs \<Longrightarrow> or_rounds Step k xs acc = (acc', rest) \<Longrightarrow>
   (\<forall>z\<in>set acc' \<union> set rest. take_bit n z = z) \<longleftrightarrow> (\<forall>x\<in>set acc \<union> set xs. take_bit n x = x)"
proof (induction Step k xs acc arbitrary: acc' rest rule: or_rounds.induct)
  case (2 Step k xs acc)
  let ?m = "2 * Step * Step"
  have r: "length (or_round Step (2 * Step) xs acc) = Step"
    "(\<forall>z\<in>set (or_round Step (2 * Step) xs acc). take_bit n z = z) \<longleftrightarrow>
     (\<forall>x\<in>set acc. take_bit n x = x) \<and> (\<forall>x\<in>set (take ?m xs). take_bit n x = x)"
    using or_round_fits [OF 2(2), of "2 * Step" xs n] 2(3) by auto
  have "set xs = set (take ?m xs) \<union> set (drop ?m xs)" by (metis append_take_drop_id set_append)
  with 2(1) [OF r(1)] 2(3,4) r(2) show ?case by (auto simp: algebra_simps)
qed auto

lemma simd_maxbits_eq: "simd_maxbits32 Step xs = maxbits32 xs"
proof -
  obtain acc rest where e: "or_rounds Step (length xs div (2 * Step * Step)) xs (replicate Step 0) = (acc, rest)" by fastforce
  have "length xs div (2 * Step * Step) * (2 * Step * Step) \<le> length xs" by simp
  from or_rounds_fits [OF _ this e] have
    "(\<forall>z\<in>set acc \<union> set rest. take_bit n z = z) \<longleftrightarrow> (\<forall>x\<in>set (replicate Step 0) \<union> set xs. take_bit n x = x)" for n by simp
  moreover have "(\<forall>x\<in>set (replicate Step 0) \<union> set xs. take_bit n x = x) \<longleftrightarrow> (\<forall>x\<in>set xs. take_bit n x = x)" for n
    by (auto simp: set_replicate_conv_if)
  ultimately have "simd_maxbits32 Step xs \<le> n \<longleftrightarrow> maxbits32 xs \<le> n" for n
    by (simp add: simd_maxbits32_def maxbits32_def e bits_required_le fits_or_accum_iff fits_fold_max ball_Un)
  then show ?thesis by (meson order.antisym order.refl)
qed

text \<open>Both vectorised versions compute the differences of neighbours, the first one to \<open>init\<close>.\<close>

lemma length_delta_encode_from [simp]: "length (delta_encode_from p xs) = length xs"
  by (induction xs arbitrary: p) auto

lemma nth_delta_encode_from: "k < length xs \<Longrightarrow> delta_encode_from p xs ! k = xs ! k - (p # xs) ! k"
  by (induction xs arbitrary: p k) (auto simp: nth_Cons split: nat.split)

text \<open>\<open>delta_upto p orig i zs\<close>: \<open>orig\<close> with the elements before \<open>i\<close> replaced by their differences.\<close>

definition delta_upto :: "'a::minus \<Rightarrow> 'a list \<Rightarrow> nat \<Rightarrow> 'a list \<Rightarrow> bool" where
  "delta_upto p orig i zs \<longleftrightarrow> length zs = length orig \<and> (\<forall>k<length orig. zs ! k = (if k < i then orig ! k - (p # orig) ! k else orig ! k))"

lemma delta_upto_all: "delta_upto p orig i zs \<Longrightarrow> length orig \<le> i \<Longrightarrow> zs = delta_encode_from p orig"
  by (intro nth_equalityI) (auto simp: delta_upto_def nth_delta_encode_from)

lemma delta_upto_store:
  assumes "delta_upto p orig i zs" "i + Step \<le> length orig" "length prev = Step" "\<forall>k<Step. prev ! k = (p # orig) ! (i + k)"
  shows "delta_upto p orig (i + Step) (storeu (map2 (-) (loadu Step i zs) prev) i zs)"
proof -
  let ?v = "map2 (-) (loadu Step i zs) prev"
  have z: "length zs = length orig" "\<And>k. k < length orig \<Longrightarrow> zs ! k = (if k < i then orig ! k - (p # orig) ! k else orig ! k)"
    using assms(1) by (auto simp: delta_upto_def)
  have v: "length ?v = Step" using assms(2,3) z(1) by simp
  have "storeu ?v i zs ! k = (if k < i + Step then orig ! k - (p # orig) ! k else orig ! k)" if k: "k < length orig" for k
  proof (cases "i \<le> k \<and> k < i + Step")
    case True
    then have ki: "k - i < Step" "i + (k - i) = k" by auto
    then have "?v ! (k - i) = zs ! k - prev ! (k - i)" using assms(2,3) z(1) by simp
    also have "\<dots> = orig ! k - (p # orig) ! k" using ki assms(4) z(2) [OF k] True by auto
    finally have "?v ! (k - i) = orig ! k - (p # orig) ! k" .
    with True show ?thesis using nth_storeu [of i ?v zs k] v assms(2) z(1) k by simp
  next
    case False
    then show ?thesis using nth_storeu [of i ?v zs k] v assms(2) z k by auto
  qed
  then show ?thesis using length_storeu [of i ?v zs] v assms(2) z(1) by (simp add: delta_upto_def)
qed

lemma loadu_orig:
  assumes "delta_upto p orig i zs" "i \<le> j" "k < Step" "j + k < length orig"
  shows "loadu Step j zs ! k = orig ! (j + k)"
  using assms by (simp add: delta_upto_def)

text \<open>A vector loaded one element before \<open>j\<close> holds what the vector at \<open>j\<close> is subtracted by.\<close>

lemma loadu_prev:
  assumes "delta_upto p orig i zs" "i < j" "j + Step \<le> length orig"
  shows "length (loadu Step (j - 1) zs) = Step \<and> (\<forall>k<Step. loadu Step (j - 1) zs ! k = (p # orig) ! (j + k))"
proof -
  have "loadu Step (j - 1) zs ! k = (p # orig) ! (j + k)" if "k < Step" for k
    using loadu_orig [OF assms(1), of "j - 1" k Step] assms(2,3) that by (cases j) auto
  moreover have "length zs = length orig" using assms(1) by (simp add: delta_upto_def)
  ultimately show ?thesis using assms(2,3) by simp
qed

lemma delta_128_loop_correct:
  assumes "delta_upto p orig i zs" "length orig mod 4 = 0" "i mod 4 = 0" "length prev = 4" "prev ! 3 = (p # orig) ! i"
  shows "delta_128_loop i prev zs = delta_encode_from p orig"
  using assms
proof (induction i prev zs rule: delta_128_loop.induct)
  case (1 i prev zs)
  have len: "length zs = length orig" using 1(2) by (simp add: delta_upto_def)
  show ?case
  proof (cases "i < length zs")
    case False
    then show ?thesis using delta_upto_all [OF 1(2)] len by (subst delta_128_loop.simps) simp
  next
    case True
    let ?vec = "loadu 4 i zs" and ?w = "combine_shift_right_lanes 3 (loadu 4 i zs) prev"
    have i4: "i + 4 \<le> length orig" using True len 1(3,4) by presburger
    have vec: "length ?vec = 4" "\<And>k. k < 4 \<Longrightarrow> ?vec ! k = orig ! (i + k)"
      using i4 len loadu_orig [OF 1(2), of i] by auto
    have "?w ! k = (p # orig) ! (i + k)" if "k < 4" for k
    proof (cases k)
      case 0
      then show ?thesis using 1(5,6) vec(1) by (simp add: combine_shift_right_lanes_def nth_append)
    next
      case (Suc j)
      then have "?w ! k = ?vec ! j" using that 1(5) vec(1) by (simp add: combine_shift_right_lanes_def nth_append)
      then show ?thesis using Suc vec(2) that by simp
    qed
    moreover have "length ?w = 4" using 1(5) vec(1) by simp
    ultimately have up: "delta_upto p orig (i + 4) (storeu (map2 (-) ?vec ?w) i zs)"
      using delta_upto_store [OF 1(2) i4] by blast
    have "?vec ! 3 = (p # orig) ! (i + 4)" using vec(2) [of 3] by (simp add: add.commute)
    then have "delta_128_loop (i + 4) ?vec (storeu (map2 (-) ?vec ?w) i zs) = delta_encode_from p orig"
      using 1(1) [OF True refl up 1(3)] 1(4) vec(1) by simp
    then show ?thesis using True by (subst delta_128_loop.simps) simp
  qed
qed

lemma delta_scalar_correct:
  assumes "delta_upto p orig i zs" "i \<le> n" "n \<le> length orig" "init = (p # orig) ! i"
  shows "delta_upto p orig n (fst (delta_scalar i n init zs)) \<and> snd (delta_scalar i n init zs) = (p # orig) ! n"
  using assms
proof (induction i n init zs rule: delta_scalar.induct)
  case (1 i n init zs)
  show ?case
  proof (cases "i < n")
    case True
    have "delta_upto p orig (i + 1) (zs[i := zs ! i - init])"
      using 1(2,4,5) True by (auto simp: delta_upto_def nth_list_update less_Suc_eq)
    moreover have "zs ! i = (p # orig) ! (i + 1)" using 1(2,4) True by (simp add: delta_upto_def)
    ultimately show ?thesis using 1(1) [OF True] 1(4) True by (subst (1 2) delta_scalar.simps) simp
  next
    case False
    then show ?thesis using 1(2-5) by (subst (1 2) delta_scalar.simps) simp
  qed
qed

lemma delta_256_loop_correct:
  assumes "delta_upto p orig i zs" "0 < Step" "length orig mod Step = 0" "i mod Step = 0" "0 < i" "i < length orig"
    "length prev = Step" "\<forall>k<Step. prev ! k = (p # orig) ! (i + k)"
  shows "delta_256_loop Step i prev zs = delta_encode_from p orig"
  using assms
proof (induction Step i prev zs rule: delta_256_loop.induct)
  case (1 Step i prev zs)
  have len: "length zs = length orig" using 1(2) by (simp add: delta_upto_def)
  have iS: "i + Step \<le> length orig" by (rule multiple_add_le [OF 1(4,5,7)])
  let ?zs = "storeu (map2 (-) (loadu Step i zs) prev) i zs"
  have up: "delta_upto p orig (i + Step) ?zs" by (rule delta_upto_store [OF 1(2) iS 1(8,9)])
  show ?case
  proof (cases "i < length zs - Step")
    case True
    let ?prev = "loadu Step (i + Step - 1) zs"
    have lt: "(i + Step) mod Step = 0" "i + Step < length orig" using 1(5) True len by auto
    moreover have "length ?prev = Step" "\<forall>k<Step. ?prev ! k = (p # orig) ! (i + Step + k)"
      using loadu_prev [OF 1(2), of "i + Step" Step] 1(3) multiple_add_le [OF 1(4) lt] by auto
    ultimately have "delta_256_loop Step (i + Step) ?prev ?zs = delta_encode_from p orig"
      using 1(1) [OF refl] True 1(3,4,6) up by simp
    then show ?thesis using True 1(3) by (subst delta_256_loop.simps) (simp add: Let_def)
  next
    case False
    then have "delta_256_loop Step i prev zs = ?zs" by (subst delta_256_loop.simps) (simp add: Let_def)
    then show ?thesis using delta_upto_all [OF up] False len by simp
  qed
qed

lemma delta_upto_start: "delta_upto p orig 0 orig"
  by (simp add: delta_upto_def)

lemma delta_encode_256_correct:
  assumes "0 < Step" "length xs mod Step = 0" "xs \<noteq> []"
  shows "delta_encode_256 Step xs init = delta_encode_from init xs"
proof (cases "Step < length xs")
  case True
  obtain xs1 i1 where s: "delta_scalar 0 (Step - 1) init xs = (xs1, i1)" by fastforce
  then have up: "delta_upto init xs (Step - 1) xs1" and i1: "i1 = (init # xs) ! (Step - 1)"
    using delta_scalar_correct [OF delta_upto_start, of "Step - 1" xs init init] True by auto
  let ?xs = "xs1[Step - 1 := xs1 ! (Step - 1) - i1]"
  have "delta_upto init xs Step ?xs"
    using up i1 True assms(1) by (auto simp: delta_upto_def nth_list_update)
  moreover have "Step + Step \<le> length xs" using multiple_add_le [OF assms(2) _ True] by simp
  then have "length (loadu Step (Step - 1) xs1) = Step" "\<forall>k<Step. loadu Step (Step - 1) xs1 ! k = (init # xs) ! (Step + k)"
    using loadu_prev [OF up, of Step Step] assms(1) by auto
  ultimately have "delta_256_loop Step Step (loadu Step (Step - 1) xs1) ?xs = delta_encode_from init xs"
    using delta_256_loop_correct [of init xs Step ?xs Step] assms True by simp
  then show ?thesis using True s by (simp add: delta_encode_256_def)
next
  case False
  then have "length xs = Step" using multiple_add_le [OF assms(2), of 0] assms(3) by simp
  then show ?thesis
    using False delta_scalar_correct [OF delta_upto_start, of Step xs init init] delta_upto_all [of init xs Step]
    by (simp add: delta_encode_256_def)
qed

lemma delta_encode_128_correct:
  assumes "length xs mod 4 = 0"
  shows "delta_encode_128 xs init = delta_encode_from init xs"
  using delta_128_loop_correct [OF delta_upto_start assms, of "replicate 4 init"] by (simp add: delta_encode_128_def)

section \<open>Properties\<close>



lemma bit_signed_drop_one:
  "bit (signed_drop_bit 1 (v :: 'a::len word)) i \<longleftrightarrow> i < LENGTH('a) \<and> bit v (if i = LENGTH('a) - 1 then i else i + 1)"
  by (cases "i < LENGTH('a)") (auto simp: bit_signed_drop_bit_iff bit_word_ge_len)

lemma bit_simd_zig_zag:
  "bit (simd_zig_zag_encode v) i \<longleftrightarrow> i < 32 \<and> (if i = 0 then bit v 31 else bit v (i - 1))"
  "bit (simd_zig_zag_decode v) i \<longleftrightarrow> i < 32 \<and> bit v (if i = 31 then 31 else i + 1) \<noteq> bit v 0"
proof -
  show "bit (simd_zig_zag_encode v) i \<longleftrightarrow> i < 32 \<and> (if i = 0 then bit v 31 else bit v (i - 1))"
    unfolding simd_zig_zag_encode_def bit_xor_iff bit_drop_bit_eq bit_push_bit_iff
    by (cases "i < 32") (auto simp: bit_word_ge_len)
  have "bit (signed_drop_bit 1 v) i \<longleftrightarrow> i < 32 \<and> bit v (if i = 31 then 31 else i + 1)"
    using bit_signed_drop_one [where 'a = 32, of v i] by simp
  then show "bit (simd_zig_zag_decode v) i \<longleftrightarrow> i < 32 \<and> bit v (if i = 31 then 31 else i + 1) \<noteq> bit v 0"
    unfolding simd_zig_zag_decode_def bit_xor_iff diff_0 neg_and_one
    by (cases "i < 32") (simp_all add: bit_0 bit_word_ge_len)
qed

lemma simd_zig_zag_bits: "simd_zig_zag_decode (simd_zig_zag_encode v) = v \<longleftrightarrow> \<not> bit v 31 \<and> \<not> bit v 30"
proof -
  have r: "bit (simd_zig_zag_decode (simd_zig_zag_encode v)) i \<longleftrightarrow> i < 32 \<and> bit v (if i = 31 then 30 else i) \<noteq> bit v 31" for i
    unfolding bit_simd_zig_zag by auto
  show ?thesis
  proof
    assume "simd_zig_zag_decode (simd_zig_zag_encode v) = v"
    then show "\<not> bit v 31 \<and> \<not> bit v 30" using r [of 30] r [of 31] by auto
  next
    assume "\<not> bit v 31 \<and> \<not> bit v 30"
    then show "simd_zig_zag_decode (simd_zig_zag_encode v) = v" by (intro bit_word_eqI) (auto simp: r)
  qed
qed

text \<open>
  C37: the vectorised zig-zag coding of a lane gives the value back exactly for the values from 0 to
  \<open>2\<^sup>3\<^sup>0 - 1\<close>. It is not the zig-zag coding of \<open>bit_utils.hpp\<close> and loses every negative value, because the encoder shifts
  the unsigned lane where the scalar code shifts the signed value.
\<close>

theorem simd_zig_zag_range: "simd_zig_zag_decode (simd_zig_zag_encode v) = v \<longleftrightarrow> unat v < 2 ^ 30"
proof -
  have "\<not> bit v 31 \<and> \<not> bit v 30 \<longleftrightarrow> take_bit 30 v = v"
  proof
    assume h: "\<not> bit v 31 \<and> \<not> bit v 30"
    have "bit v n \<longleftrightarrow> n < 30 \<and> bit v n" if "n < 32" for n
    proof (cases "n < 30")
      case False
      then have "n = 30 \<or> n = 31" using that by linarith
      with h show ?thesis by auto
    qed simp
    then show "take_bit 30 v = v" by (intro bit_word_eqI) (simp add: bit_take_bit_iff)
  next
    assume "take_bit 30 v = v"
    then have "bit v n \<Longrightarrow> n < 30" for n by (metis bit_take_bit_iff)
    then show "\<not> bit v 31 \<and> \<not> bit v 30" by fastforce
  qed
  then show ?thesis unfolding simd_zig_zag_bits unat_less_fits .
qed

end
