(* ===== verification/Bitpack.thy ===== *)
theory Bitpack
  imports Simd DataStreams
begin

text \<open>
  Blocks of integers in a stream: \<open>core/utils/bitpack.hpp\<close> (run length encoding or bit packing), the block
  functions of \<open>format_traits\<close> in \<open>core/formats/formats_10.cpp\<close>, and the average encoding of
  \<open>core/store/store_avg_utils.hpp\<close>. The streams are given by their interfaces.
\<close>

section \<open>Memory as bytes\<close>

text \<open>
  The casts between \<open>uint32_t*\<close> or \<open>uint64_t*\<close> and \<open>byte_type*\<close>, on a little endian machine. \<open>store_bytes\<close> overwrites the
  first bytes of an array of words, as \<open>memset\<close> and reading into the array do.
\<close>

definition word_bytes :: "'a::len word \<Rightarrow> u8 list" where
  "word_bytes w = map (\<lambda>i. ucast (drop_bit (8 * i) w)) [0..<LENGTH('a) div 8]"

definition bytes_word :: "u8 list \<Rightarrow> 'a::len word" where
  "bytes_word bs = foldr (\<lambda>b acc. ucast b OR push_bit 8 acc) bs 0"

definition words_bytes :: "'a::len word list \<Rightarrow> u8 list" where
  "words_bytes ws = concat (map word_bytes ws)"

primrec read_words :: "nat \<Rightarrow> u8 list \<Rightarrow> 'a::len word list" where
  "read_words 0 bs = []"
| "read_words (Suc n) bs = bytes_word (take (LENGTH('a) div 8) bs) # read_words n (drop (LENGTH('a) div 8) bs)"

definition bytes_words :: "u8 list \<Rightarrow> 'a::len word list" where
  "bytes_words bs = read_words (length bs div (LENGTH('a) div 8)) bs"

definition store_bytes :: "u8 list \<Rightarrow> 'a::len word list \<Rightarrow> 'a word list" where
  "store_bytes bs ws = bytes_words (bs @ drop (length bs) (words_bytes ws))"

section \<open>Blocks\<close>

text \<open>
  \<open>write_block32\<close>. \<open>decoded\<close> is the block and \<open>encoded\<close> the scratch array; \<open>Step\<close> is the number of
  lanes. The width is computed by \<open>packed::maxbits32\<close>, which \<open>simd::maxbits\<close> agrees with.
\<close>

definition write_block32 ::
  "nat \<Rightarrow> (u32 list \<Rightarrow> u32 list \<Rightarrow> nat \<Rightarrow> u32 list) \<Rightarrow> 'o index_out \<Rightarrow> u32 list \<Rightarrow> u32 list \<Rightarrow> 'o \<Rightarrow> (nat \<times> 'o) option" where
  "write_block32 Step pack io decoded encoded out =
     (if all_equal Step decoded then do {
        out1 \<leftarrow> out_do io (WriteByte 0) out;
        out2 \<leftarrow> out_do io (WriteVint (hd decoded)) out1;
        Some (0, out2)
      } else do {
        let bits = maxbits32 decoded;
        let buf_size = unat (bytes_required_32 (of_nat (length decoded)) (of_nat bits));
        let encoded1 = pack decoded (store_bytes (replicate buf_size 0) encoded) bits;
        out1 \<leftarrow> out_do io (WriteByte (of_nat bits AND 0xFF)) out;
        out2 \<leftarrow> out_do io (WriteBytes (take buf_size (words_bytes encoded1))) out1;
        Some (bits, out2)
      })"

definition write_block64 ::
  "nat \<Rightarrow> (u64 list \<Rightarrow> u64 list \<Rightarrow> nat \<Rightarrow> u64 list) \<Rightarrow> 'o index_out \<Rightarrow> u64 list \<Rightarrow> u64 list \<Rightarrow> 'o \<Rightarrow> (nat \<times> 'o) option" where
  "write_block64 Step pack io decoded encoded out =
     (if all_equal Step decoded then do {
        out1 \<leftarrow> out_do io (WriteByte 0) out;
        out2 \<leftarrow> out_do io (WriteVlong (hd decoded)) out1;
        Some (0, out2)
      } else do {
        let bits = maxbits64 decoded;
        let buf_size = unat (bytes_required_64 (of_nat (length decoded)) (of_nat bits));
        let encoded1 = pack decoded (store_bytes (replicate buf_size 0) encoded) bits;
        out1 \<leftarrow> out_do io (WriteByte (of_nat bits AND 0xFF)) out;
        out2 \<leftarrow> out_do io (WriteBytes (take buf_size (words_bytes encoded1))) out1;
        Some (bits, out2)
      })"

definition read_block_impl32 ::
  "(u32 list \<Rightarrow> u32 list \<Rightarrow> nat \<Rightarrow> u32 list) \<Rightarrow> 'i index_in \<Rightarrow> u32 list \<Rightarrow> u32 list \<Rightarrow> 'i \<Rightarrow> (u32 list \<times> 'i) option" where
  "read_block_impl32 unpack io encoded decoded s = do {
     (b, s1) \<leftarrow> in_byte io s;
     let bits = unat b;
     if bits = 0 then do {
       (v, s2) \<leftarrow> in_vint io s1;
       Some (replicate (length decoded) v, s2)
     } else do {
       let required = unat (bytes_required_32 (of_nat (length decoded)) (of_nat bits));
       (buf, s2) \<leftarrow> in_buffer io required s1;
       case buf of
         Some bs \<Rightarrow> Some (unpack decoded (bytes_words bs) bits, s2)
       | None \<Rightarrow> do {
           (bs, s3) \<leftarrow> in_bytes io required s2;
           Some (unpack decoded (store_bytes bs encoded) bits, s3)
         }
     }
   }"

definition skip_block32 :: "'i index_in \<Rightarrow> nat \<Rightarrow> 'i \<Rightarrow> 'i option" where
  "skip_block32 io sz s = do {
     (b, s1) \<leftarrow> in_byte io s;
     let bits = unat b;
     if bits = 0 then do { (_, s2) \<leftarrow> in_vint io s1; Some s2 }
     else in_seek io (in_pointer io s1 + unat (bytes_required_32 (of_nat sz) (of_nat bits))) s1
   }"

section \<open>The blocks of the postings\<close>

text \<open>\<open>format_traits::pack_block\<close> and \<open>unpack_block\<close>: four blocks of 32 values.\<close>

definition at_offset :: "nat \<Rightarrow> ('a list \<Rightarrow> 'a list) \<Rightarrow> 'a list \<Rightarrow> 'a list" where
  "at_offset n f xs = take n xs @ f (drop n xs)"

definition format_pack_block :: "u32 list \<Rightarrow> u32 list \<Rightarrow> nat \<Rightarrow> u32 list" where
  "format_pack_block decoded encoded bits =
     (let e1 = pack_block_32 decoded encoded bits;
          e2 = at_offset bits (\<lambda>e. pack_block_32 (drop 32 decoded) e bits) e1;
          e3 = at_offset (2 * bits) (\<lambda>e. pack_block_32 (drop (2 * 32) decoded) e bits) e2
      in at_offset (3 * bits) (\<lambda>e. pack_block_32 (drop (3 * 32) decoded) e bits) e3)"

definition format_unpack_block :: "u32 list \<Rightarrow> u32 list \<Rightarrow> nat \<Rightarrow> u32 list" where
  "format_unpack_block decoded encoded bits =
     (let d1 = unpack_block_32 encoded decoded bits;
          d2 = at_offset 32 (\<lambda>d. unpack_block_32 (drop bits encoded) d bits) d1;
          d3 = at_offset (2 * 32) (\<lambda>d. unpack_block_32 (drop (2 * bits) encoded) d bits) d2
      in at_offset (3 * 32) (\<lambda>d. unpack_block_32 (drop (3 * bits) encoded) d bits) d3)"

text \<open>\<open>format_traits::write_block\<close>, \<open>read_block\<close> and \<open>skip_block\<close>, for any pair of packing functions.\<close>

record block_fns =
  bf_lanes :: nat
  bf_size :: nat
  bf_pack :: "u32 list \<Rightarrow> u32 list \<Rightarrow> nat \<Rightarrow> u32 list"
  bf_unpack :: "u32 list \<Rightarrow> u32 list \<Rightarrow> nat \<Rightarrow> u32 list"

definition format_traits :: "nat \<Rightarrow> block_fns" where
  "format_traits Step = \<lparr>bf_lanes = Step, bf_size = 128, bf_pack = format_pack_block, bf_unpack = format_unpack_block\<rparr>"

definition write_block :: "block_fns \<Rightarrow> 'o index_out \<Rightarrow> u32 list \<Rightarrow> u32 list \<Rightarrow> 'o \<Rightarrow> 'o option" where
  "write_block bf io decoded buf out = map_option snd (write_block32 (bf_lanes bf) (bf_pack bf) io decoded buf out)"

definition read_block :: "block_fns \<Rightarrow> 'i index_in \<Rightarrow> u32 list \<Rightarrow> u32 list \<Rightarrow> 'i \<Rightarrow> (u32 list \<times> 'i) option" where
  "read_block bf io buf decoded s = read_block_impl32 (bf_unpack bf) io buf decoded s"

definition skip_block :: "block_fns \<Rightarrow> 'i index_in \<Rightarrow> 'i \<Rightarrow> 'i option" where
  "skip_block bf io s = skip_block32 io (bf_size bf) s"

section \<open>Bytes and words\<close>

lemma bit_bytes_word:
  "bit (bytes_word bs :: 'a::len word) n \<longleftrightarrow> n < LENGTH('a) \<and> n div 8 < length bs \<and> bit (bs ! (n div 8)) (n mod 8)"
proof (induction bs arbitrary: n)
  case (Cons b bs)
  have e: "(bytes_word (b # bs) :: 'a word) = ucast b OR push_bit 8 (bytes_word bs)" by (simp add: bytes_word_def)
  show ?case
  proof (cases "n < 8")
    case True
    then show ?thesis by (auto simp: e bit_or_iff bit_push_bit_iff bit_ucast_iff)
  next
    case False
    then have n: "n div 8 = Suc ((n - 8) div 8)" "n mod 8 = (n - 8) mod 8" by (simp_all add: le_div_geq le_mod_geq)
    have "\<not> bit b n" using False by (intro bit_word_ge_len) simp
    then show ?thesis using False Cons [of "n - 8"]
      unfolding e bit_or_iff bit_push_bit_iff bit_ucast_iff n by auto
  qed
qed (simp add: bytes_word_def)

lemma length_word_bytes [simp]: "length (word_bytes (w :: 'a::len word)) = LENGTH('a) div 8"
  by (simp add: word_bytes_def)

lemma bytes_word_bytes: "8 dvd LENGTH('a) \<Longrightarrow> bytes_word (word_bytes (w :: 'a::len word)) = w"
proof (rule bit_word_eqI)
  fix n assume d: "8 dvd LENGTH('a)" and n: "n < LENGTH('a)"
  then have "n div 8 < LENGTH('a) div 8" by (auto simp: dvd_def less_mult_imp_div_less mult.commute)
  then show "bit (bytes_word (word_bytes w) :: 'a word) n = bit w n"
    using n by (simp add: bit_bytes_word word_bytes_def bit_ucast_iff bit_drop_bit_eq)
qed

lemma length_words_bytes [simp]: "length (words_bytes (ws :: 'a::len word list)) = length ws * (LENGTH('a) div 8)"
  by (induction ws) (simp_all add: words_bytes_def)

lemma words_bytes_append: "words_bytes (xs @ ys) = words_bytes xs @ words_bytes ys"
  by (simp add: words_bytes_def)

lemma read_words_bytes:
  "8 dvd LENGTH('a) \<Longrightarrow> read_words (length ws) (words_bytes (ws :: 'a::len word list) @ r) = ws"
  by (induction ws) (simp_all add: words_bytes_def bytes_word_bytes)

lemma read_words_add:
  "read_words (m + n) bs = (read_words m bs :: 'a::len word list) @ read_words n (drop (m * (LENGTH('a) div 8)) bs)"
  by (induction m arbitrary: bs) (simp_all add: add.commute)

lemma bytes_words_append:
  assumes "8 dvd LENGTH('a)"
  shows "bytes_words (words_bytes (ws :: 'a::len word list) @ bs) = ws @ bytes_words bs"
proof -
  have "0 < LENGTH('a) div 8" using assms by (metis div_greater_zero_iff dvd_imp_le len_gt_0 zero_less_numeral)
  then have "length (words_bytes ws @ bs) div (LENGTH('a) div 8) = length ws + length bs div (LENGTH('a) div 8)" by simp
  then show ?thesis using read_words_bytes [OF assms, of ws bs]
    by (simp add: bytes_words_def read_words_add)
qed

lemma bytes_words_bytes: "8 dvd LENGTH('a) \<Longrightarrow> bytes_words (words_bytes (ws :: 'a::len word list)) = ws"
  using bytes_words_append [of ws "[]"] by (simp add: bytes_words_def)

lemma store_bytes_words:
  assumes "8 dvd LENGTH('a)" "length vs \<le> length ws"
  shows "store_bytes (words_bytes vs) (ws :: 'a::len word list) = vs @ drop (length vs) ws"
proof -
  have "ws = take (length vs) ws @ drop (length vs) ws" by simp
  then have "words_bytes ws = words_bytes (take (length vs) ws) @ words_bytes (drop (length vs) ws)"
    by (metis words_bytes_append)
  then have "drop (length (words_bytes vs)) (words_bytes ws) = words_bytes (drop (length vs) ws)"
    using assms(2) by (simp add: min_def)
  then show ?thesis using bytes_words_append [OF assms(1), of vs "words_bytes (drop (length vs) ws)"] bytes_words_bytes [OF assms(1)]
    by (simp add: store_bytes_def)
qed

lemma words_bytes_zero: "words_bytes (replicate n (0 :: 'a::len word)) = replicate (n * (LENGTH('a) div 8)) 0"
proof (induction n)
  case (Suc n)
  have "word_bytes (0 :: 'a word) = replicate (LENGTH('a) div 8) 0"
    by (simp add: word_bytes_def map_replicate_const)
  with Suc show ?case by (simp add: words_bytes_def replicate_add)
qed (simp add: words_bytes_def)

lemma memset_zero:
  assumes "8 dvd LENGTH('a)" "n \<le> length ws"
  shows "store_bytes (replicate (n * (LENGTH('a) div 8)) 0) (ws :: 'a::len word list) = replicate n 0 @ drop n ws"
  using store_bytes_words [OF assms(1), of "replicate n 0" ws] assms(2) by (simp add: words_bytes_zero)

section \<open>What the packing functions of a format promise\<close>

text \<open>
  Packing a block of \<open>bf_size\<close> values touches the first words of a cleared array only, and unpacking needs only these.
  The packing functions of the SSE formats come from the simdcomp library; they are covered as far as they keep this law.
\<close>

locale block_packer =
  fixes bf :: block_fns
  assumes size_law: "bf_size bf mod 32 = 0" "0 < bf_size bf" "bf_size bf \<le> 2 ^ 16"
    and pack_law: "length xs = bf_size bf \<Longrightarrow> 1 \<le> bits \<Longrightarrow> bits \<le> 32 \<Longrightarrow>
      length (bf_pack bf xs (replicate (bf_size bf div 32 * bits) 0) bits) = bf_size bf div 32 * bits \<and>
      bf_pack bf xs (replicate (bf_size bf div 32 * bits) 0 @ rest) bits =
        bf_pack bf xs (replicate (bf_size bf div 32 * bits) 0) bits @ rest"
    and unpack_law: "length xs = bf_size bf \<Longrightarrow> length dec = bf_size bf \<Longrightarrow> 1 \<le> bits \<Longrightarrow> bits \<le> 32 \<Longrightarrow>
      \<forall>x\<in>set xs. unat x < 2 ^ bits \<Longrightarrow>
      bf_unpack bf dec (bf_pack bf xs (replicate (bf_size bf div 32 * bits) 0) bits @ rest) bits = xs"

text \<open>The bytes of a block.\<close>

definition block_bytes :: "block_fns \<Rightarrow> u32 list \<Rightarrow> u8 list" where
  "block_bytes bf xs =
     (if \<forall>x\<in>set xs. x = hd xs then 0 # vwrite_u32 (hd xs)
      else of_nat (maxbits32 xs) #
        words_bytes (bf_pack bf xs (replicate (bf_size bf div 32 * maxbits32 xs) 0) (maxbits32 xs)))"

lemma all_equal_iff: "all_equal Step xs \<longleftrightarrow> (\<forall>x\<in>set xs. x = hd xs)"
  by (auto simp: all_equal_def all_equal_from_iff list_all_iff)

lemma maxbits32_bounds:
  "maxbits32 xs \<le> 32" "x \<in> set xs \<Longrightarrow> unat x < 2 ^ maxbits32 xs" "\<not> (\<forall>x\<in>set xs. x = hd xs) \<Longrightarrow> 1 \<le> maxbits32 xs"
proof -
  have fits: "take_bit (maxbits32 xs) (or_accum 0 xs) = or_accum 0 xs" by (simp add: maxbits32_def bits_required_fits)
  show "maxbits32 xs \<le> 32"
    using unsigned_less [of "or_accum 0 xs :: u32"] by (simp add: maxbits32_def bits_required_le unat_less_fits [symmetric])
  show x: "unat x < 2 ^ maxbits32 xs" if "x \<in> set xs" for x
    using fits_or_accum [OF fits that] by (simp add: unat_less_fits)
  show "1 \<le> maxbits32 xs" if ne: "\<not> (\<forall>x\<in>set xs. x = hd xs)"
  proof (rule ccontr)
    assume "\<not> 1 \<le> maxbits32 xs"
    then have "maxbits32 xs = 0" by simp
    then have zero: "y = 0" if "y \<in> set xs" for y using x [OF that] by (simp add: unat_eq_0)
    moreover have "hd xs \<in> set xs" using ne by (cases xs) auto
    ultimately show False using ne by metis
  qed
qed

context block_packer
begin

lemma required_bytes:
  assumes "bits \<le> 32"
  shows "unat (bytes_required_32 (of_nat (bf_size bf)) (of_nat bits)) = bf_size bf div 32 * bits * 4"
proof -
  obtain n where n: "bf_size bf = 32 * n" using size_law(1) by (auto simp: mod_eq_0_iff_dvd)
  have le: "32 * n * bits + 7 < 2 ^ 32"
  proof -
    have "32 * n * bits \<le> 2 ^ 16 * 32" using size_law(3) assms n by (intro mult_le_mono) auto
    then have "32 * n * bits + 7 \<le> 2 ^ 16 * 32 + 7" by (rule add_le_mono1)
    also have "\<dots> < 2 ^ 32" by simp
    finally show ?thesis .
  qed
  have w: "(of_nat (bf_size bf) * of_nat bits + 8 - 1 :: u32) = of_nat (32 * n * bits + 7)"
    by (simp add: n)
  have "unat (bytes_required_32 (of_nat (bf_size bf)) (of_nat bits)) = unat (of_nat (32 * n * bits + 7) :: u32) div unat (8 :: u32)"
    unfolding bytes_required_32_def div_ceil32_def w by (rule unat_div)
  also have "unat (of_nat (32 * n * bits + 7) :: u32) = 32 * n * bits + 7"
    unfolding unat_of_nat using le by (intro mod_less) simp
  also have "(32 * n * bits + 7) div unat (8 :: u32) = bf_size bf div 32 * bits * 4" by (simp add: n)
  finally show ?thesis .
qed

lemma write_block_appends:
  assumes "index_sink io contents ok" "ok s" "length xs = bf_size bf" "bf_size bf \<le> length buf"
  shows "\<exists>s'. write_block bf io xs buf s = Some s' \<and> contents s' = contents s @ block_bytes bf xs \<and> ok s'"
proof (cases "\<forall>x\<in>set xs. x = hd xs")
  case True
  obtain s1 where s1: "out_do io (WriteByte 0) s = Some s1" "contents s1 = contents s @ [0]" "ok s1"
    using index_sink.do_law [OF assms(1,2), of "WriteByte 0"] by auto
  obtain s2 where s2: "out_do io (WriteVint (hd xs)) s1 = Some s2" "contents s2 = contents s1 @ vwrite_u32 (hd xs)" "ok s2"
    using index_sink.do_law [OF assms(1) s1(3), of "WriteVint (hd xs)"] by auto
  have "all_equal (bf_lanes bf) xs" using True by (simp add: all_equal_iff)
  then show ?thesis using True s1 s2 by (simp add: write_block_def write_block32_def block_bytes_def)
next
  case False
  let ?b = "maxbits32 xs" and ?n = "bf_size bf div 32"
  let ?e = "bf_pack bf xs (replicate (?n * ?b) 0) ?b"
  note b = maxbits32_bounds(1) [of xs] maxbits32_bounds(3) [OF False]
  have "?n * ?b \<le> ?n * 32" using b(1) by simp
  also have "?n * 32 = bf_size bf" using size_law(1) by auto
  finally have len: "?n * ?b \<le> length buf" using assms(4) by simp
  note p = pack_law [OF assms(3) b(2,1)]
  have "store_bytes (replicate (?n * ?b * 4) 0) buf = replicate (?n * ?b) 0 @ drop (?n * ?b) buf"
    using memset_zero [where 'a = 32, OF _ len] by simp
  then have enc: "take (?n * ?b * 4) (words_bytes (bf_pack bf xs (store_bytes (replicate (?n * ?b * 4) 0) buf) ?b)) = words_bytes ?e"
    using p by (simp add: words_bytes_append)
  have w: "(v AND 0xFF :: u8) = v" for v
  proof -
    have "(0xFF :: u8) = - 1" by simp
    then show ?thesis by (simp only: and.right_neutral)
  qed
  obtain s1 where s1: "out_do io (WriteByte (of_nat ?b)) s = Some s1" "contents s1 = contents s @ [of_nat ?b]" "ok s1"
    using index_sink.do_law [OF assms(1,2), of "WriteByte (of_nat ?b)"] by auto
  obtain s2 where s2: "out_do io (WriteBytes (words_bytes ?e)) s1 = Some s2" "contents s2 = contents s1 @ words_bytes ?e" "ok s2"
    using index_sink.do_law [OF assms(1) s1(3), of "WriteBytes (words_bytes ?e)"] by auto
  have "\<not> all_equal (bf_lanes bf) xs" "block_bytes bf xs = of_nat ?b # words_bytes ?e"
    unfolding block_bytes_def using False by (simp add: all_equal_iff, intro if_not_P)
  then show ?thesis using s1 s2 enc w required_bytes [OF b(1)] assms(3)
    by (simp add: write_block_def write_block32_def Let_def)
qed

lemma read_block_at:
  assumes "index_source io stream rest" "stream f s" "rest s = block_bytes bf xs @ r"
    and len: "length xs = bf_size bf" "length dec = bf_size bf" "bf_size bf \<le> length buf"
  shows "\<exists>s'. read_block bf io buf dec s = Some (xs, s') \<and> stream f s' \<and> rest s' = r"
    and "\<exists>s'. skip_block bf io s = Some s' \<and> stream f s' \<and> rest s' = r"
proof -
  have "(\<exists>s'. read_block bf io buf dec s = Some (xs, s') \<and> stream f s' \<and> rest s' = r) \<and>
    (\<exists>s'. skip_block bf io s = Some s' \<and> stream f s' \<and> rest s' = r)"
  proof (cases "\<forall>x\<in>set xs. x = hd xs")
    case True
    then obtain s1 where s1: "in_byte io s = Some (0, s1)" "stream f s1" "rest s1 = vwrite_u32 (hd xs) @ r"
      using index_reader.byte_at [OF source_reader [OF assms(1)] assms(2)] assms(3) by (auto simp: block_bytes_def)
    obtain s2 where s2: "in_vint io s1 = Some (hd xs, s2)" "stream f s2" "rest s2 = r"
      using index_reader.vint_at [OF source_reader [OF assms(1)] s1(2,3)] by blast
    have "replicate (bf_size bf) (hd xs) = xs" using True len(1) by (metis replicate_eqI)
    then show ?thesis using s1 s2 len by (simp add: read_block_def read_block_impl32_def skip_block_def skip_block32_def)
  next
    case False
    let ?b = "maxbits32 xs" and ?n = "bf_size bf div 32"
    let ?e = "bf_pack bf xs (replicate (?n * ?b) 0) ?b"
    note b = maxbits32_bounds(1) [of xs] maxbits32_bounds(3) [OF False]
    have e: "length ?e = ?n * ?b" using pack_law [OF len(1) b(2,1)] by simp
    obtain s1 where s1: "in_byte io s = Some (of_nat ?b, s1)" "stream f s1" "rest s1 = words_bytes ?e @ r"
      using index_reader.byte_at [OF source_reader [OF assms(1)] assms(2)] assms(3) False by (auto simp: block_bytes_def)
    have ub: "unat (of_nat ?b :: u8) = ?b" using b(1) by (simp add: unat_of_nat take_bit_nat_eq_self)
    note req = required_bytes [OF b(1)]
    have un: "bf_unpack bf dec (?e @ r') ?b = xs" for r'
      using unpack_law [OF len(1,2) b(2,1)] maxbits32_bounds(2) by blast
    obtain bo s2 where s2: "in_buffer io (?n * ?b * 4) s1 = Some (bo, s2)" "stream f s2"
      "case bo of None \<Rightarrow> rest s2 = rest s1
       | Some bs \<Rightarrow> ?n * ?b * 4 \<le> length (rest s1) \<and> bs = take (?n * ?b * 4) (rest s1) \<and> rest s2 = drop (?n * ?b * 4) (rest s1)"
      using index_source.buffer_law [OF assms(1) s1(2), of "?n * ?b * 4"] by blast
    have rd: "\<exists>s'. read_block bf io buf dec s = Some (xs, s') \<and> stream f s' \<and> rest s' = r"
    proof (cases bo)
      case None
      then obtain s3 where s3: "in_bytes io (?n * ?b * 4) s2 = Some (words_bytes ?e, s3)" "stream f s3" "rest s3 = r"
        using index_reader.bytes_at [OF source_reader [OF assms(1)] s2(2), of "words_bytes ?e" r "?n * ?b * 4"] s2(3) s1(3) e by auto
      have "?n * ?b \<le> ?n * 32" using b(1) by simp
      also have "?n * 32 = bf_size bf" using size_law(1) by auto
      finally have "length ?e \<le> length buf" using len(3) e by simp
      then have "store_bytes (words_bytes ?e) buf = ?e @ drop (length ?e) buf"
        using store_bytes_words [where 'a = 32, of ?e buf] by simp
      then show ?thesis using s1(1) s2(1) s3 None ub b(2) req un len(2)
        by (simp add: read_block_def read_block_impl32_def Let_def)
    next
      case (Some bs)
      then have bs: "bs = words_bytes ?e" "rest s2 = r" using s2(3) s1(3) e by auto
      have "bytes_words bs = ?e @ []" using bytes_words_bytes [where 'a = 32, of ?e] bs(1) by simp
      then show ?thesis using s1(1) s2(1,2) bs(2) Some ub b(2) req un [of "[]"] len(2)
        by (simp add: read_block_def read_block_impl32_def Let_def)
    qed
    have "\<exists>s'. in_seek io (in_pointer io s1 + ?n * ?b * 4) s1 = Some s' \<and> stream f s' \<and> rest s' = r"
      using index_source.skip_at [OF assms(1) s1(2,3), of "?n * ?b * 4"] e by simp
    then have "\<exists>s'. skip_block bf io s = Some s' \<and> stream f s' \<and> rest s' = r"
      using s1(1) ub b(2) req by (simp add: skip_block_def skip_block32_def Let_def)
    with rd show ?thesis by blast
  qed
  then show "\<exists>s'. read_block bf io buf dec s = Some (xs, s') \<and> stream f s' \<and> rest s' = r"
    "\<exists>s'. skip_block bf io s = Some s' \<and> stream f s' \<and> rest s' = r" by blast+
qed

end

lemma at_offset_append: "length a = n \<Longrightarrow> at_offset n f (a @ r) = a @ f r"
  by (simp add: at_offset_def)

text \<open>Four blocks one after the other, as the general block loop would pack them.\<close>

lemma format_pack_block_eq:
  assumes "length xs = 128" "1 \<le> bits" "bits \<le> 32"
  shows "format_pack_block xs (replicate (4 * bits) 0 @ rest) bits =
    concat (map (\<lambda>k. pack_block_32 (take 32 (drop (32 * k) xs)) (replicate bits 0) bits) [0, 1, 2, 3]) @ rest"
proof -
  let ?P = "\<lambda>k. pack_block_32 (take 32 (drop (32 * k) xs)) (replicate bits 0) bits"
  have len: "length (?P k) = bits" if "k < 4" for k
    using p32.pack_blk_length [OF assms(2,3), of "take 32 (drop (32 * k) xs)"] assms(1) that by simp
  have step: "pack_block_32 (drop (32 * k) xs) (replicate bits 0 @ r) bits = ?P k @ r" if "k < 4" for k r
    using p32.pack_blk_local [OF assms(2,3), of "drop (32 * k) xs"] assms(1) that by simp
  have four: "replicate (4 * bits) 0 @ rest = replicate bits 0 @ replicate bits 0 @ replicate bits 0 @ replicate bits (0 :: u32) @ rest"
    by (simp add: replicate_add [symmetric] del: append_assoc add: append_assoc [symmetric])
  have off: "at_offset n f (a @ r) = a @ f r" if "length a = n" for n f and a r :: "u32 list"
    using that by (rule at_offset_append)
  show ?thesis
    unfolding format_pack_block_def four Let_def
    using step [of 0] step [of 1] step [of 2] step [of 3] len [of 0] len [of 1] len [of 2] len [of 3]
      off [of "?P 0" bits] off [of "?P 0 @ ?P 1" "2 * bits"] off [of "?P 0 @ ?P 1 @ ?P 2" "3 * bits"]
    by simp
qed

lemma format_unpack_block_eq:
  assumes "length xs = 128" "length dec = 128" "1 \<le> bits" "bits \<le> 32" "\<forall>x\<in>set xs. unat x < 2 ^ bits"
  shows "format_unpack_block dec
    (concat (map (\<lambda>k. pack_block_32 (take 32 (drop (32 * k) xs)) (replicate bits 0) bits) [0, 1, 2, 3]) @ rest) bits = xs"
proof -
  let ?X = "\<lambda>k. take 32 (drop (32 * k) xs)"
  let ?P = "\<lambda>k. pack_block_32 (?X k) (replicate bits 0) bits"
  have len: "length (?P k) = bits" "length (?X k) = 32" if "k < 4" for k
    using p32.pack_blk_length [OF assms(3,4), of "?X k"] assms(1) that by simp_all
  have step: "unpack_block_32 (?P k @ r) d bits = ?X k @ drop 32 d" if "k < 4" "32 \<le> length d" for k r d
  proof (rule p32.unpack_pack_blk [OF assms(3,4)])
    show "list_all (\<lambda>x. take_bit bits x = x) (?X k)"
      using assms(5) unfolding list_all_iff unat_less_fits by (meson in_set_dropD in_set_takeD)
  qed (use len that in auto)
  have off: "at_offset n f (a @ r) = a @ f r" if "length a = n" for n f and a r :: "u32 list"
    using that by (rule at_offset_append)
  have "?X 0 @ ?X 1 @ ?X 2 @ ?X 3 = xs"
    using take_add [of 32 32 xs] take_add [of 64 32 xs] take_add [of 96 32 xs] assms(1) by simp
  then show ?thesis
    unfolding format_unpack_block_def Let_def
    using step [of 0 dec "?P 1 @ ?P 2 @ ?P 3 @ rest"] step [of 1 "drop 32 dec" "?P 2 @ ?P 3 @ rest"]
      step [of 2 "drop 64 dec" "?P 3 @ rest"] step [of 3 "drop 96 dec" rest]
      len [of 0] len [of 1] len [of 2] len [of 3] assms(2)
      off [of "?X 0" 32] off [of "?X 0 @ ?X 1" "2 * 32"] off [of "?X 0 @ ?X 1 @ ?X 2" "3 * 32"]
    by simp
qed

interpretation format128: block_packer "format_traits Step" for Step
proof (unfold_locales, goal_cases)
  case (4 xs bits rest)
  have "length xs = 128" using 4 by (simp add: format_traits_def)
  with format_pack_block_eq [OF this 4(2,3), of rest] format_pack_block_eq [OF this 4(2,3), of "[]"]
    p32.pack_blk_length [OF 4(2,3)] show ?case
    by (simp add: format_traits_def mult.commute)
next
  case (5 xs dec bits rest)
  have "length xs = 128" "length dec = 128" using 5 by (simp_all add: format_traits_def)
  with format_pack_block_eq [OF this(1) 5(3,4), of "[]"] format_unpack_block_eq [OF this 5(3,4,5), of rest] show ?case
    by (simp add: format_traits_def mult.commute)
qed (simp_all add: format_traits_def)

section \<open>Properties\<close>

text \<open>
  C10: a block of 128 values written by \<open>write_block\<close> to a stream that takes every write is read back
  by \<open>read_block\<close> from a stream over a file that has these bytes at the current position, whether the values are all
  equal or bit packed and whether the input hands out its buffer or copies; \<open>skip_block\<close> moves behind the block.
\<close>

theorem block_roundtrip:
  assumes "index_sink oio contents ok" "ok s" "index_source iio stream rest"
    "length xs = 128" "length dec = 128" "128 \<le> length buf" "128 \<le> length buf'"
  shows "\<exists>s' bs. write_block (format_traits Step) oio xs buf s = Some s' \<and> ok s' \<and> contents s' = contents s @ bs \<and>
    (\<forall>f i r. stream f i \<and> rest i = bs @ r \<longrightarrow>
      (\<exists>i'. read_block (format_traits Step') iio buf' dec i = Some (xs, i') \<and> stream f i' \<and> rest i' = r) \<and>
      (\<exists>i'. skip_block (format_traits Step') iio i = Some i' \<and> stream f i' \<and> rest i' = r))"
proof -
  have sz: "bf_size (format_traits Step) = 128" for Step by (simp add: format_traits_def)
  have bb: "block_bytes (format_traits Step) xs = block_bytes (format_traits Step') xs"
    by (simp add: block_bytes_def format_traits_def)
  show ?thesis
    using format128.write_block_appends [OF assms(1,2), of xs Step buf] assms(4,6)
      format128.read_block_at [OF assms(3), of _ _ Step' xs _ dec buf'] assms(4,5,7)
    unfolding sz bb by blast
qed

text \<open>A block read through a buffer of two bytes, so that it is copied.\<close>

theorem block_roundtrip_witness:
  "\<exists>s' i'. write_block (format_traits 4) (ob_io (\<lambda>bs r. Some (r @ bs))) ([7] @ replicate 127 9) (replicate 128 0) (ob_reset [0, 0] []) = Some s' \<and>
     read_block (format_traits 8) (ib_io list_source) (replicate 128 0) (replicate 128 0)
       (ib_reset 2 0 (ob_contents (\<lambda>r. r) s', 0)) = Some ([7] @ replicate 127 9, i')"
proof -
  let ?xs = "[7] @ replicate 127 9 :: u32 list"
  let ?s = "ob_reset [0, 0] ([] :: u8 list)"
  have inv: "ob_invar (\<lambda>r. r) (\<lambda>_. True) ?s" "ob_contents (\<lambda>r. r) ?s = []"
    using list_sink.reset_invar [of "[0, 0]" "[]"] by auto
  obtain s' bs where s': "write_block (format_traits 4) (ob_io (\<lambda>bs r. Some (r @ bs))) ?xs (replicate 128 0) ?s = Some s'"
    "ob_contents (\<lambda>r. r) s' = bs"
    "\<And>f i r. ib_stream fst snd (\<lambda>_. True) f i \<Longrightarrow> ib_rest fst i = bs @ r \<Longrightarrow>
      \<exists>i'. read_block (format_traits 8) (ib_io list_source) (replicate 128 0) (replicate 128 0) i = Some (?xs, i')"
    using block_roundtrip [OF list_sink.buffered.index_sink_axioms inv(1) list_source.buffered.index_source_axioms,
        of ?xs "replicate 128 0" "replicate 128 0" "replicate 128 0" 4 8] inv(2) by fastforce
  have "ib_stream fst snd (\<lambda>_. True) bs (ib_reset 2 0 (bs, 0))" "ib_rest fst (ib_reset 2 0 (bs, 0)) = bs @ []"
    by (simp_all add: ib_reset_def ib_stream_def ib_invar_def ib_file_def ib_rest_def ib_file_pointer_def)
  from s'(3) [OF this] s'(1,2) show ?thesis by auto
qed

end
