(* ===== verification/AvgEncoding.thy ===== *)
theory AvgEncoding
  imports Bitpack
begin

text \<open>
  The average encoding of \<open>core/store/store_avg_utils.hpp\<close>, with which the column store writes its keys and
  addresses: the differences to a line through the first element, zig-zag coded, in a block. The slope comes
  from a rounded floating point division, which is an argument \<open>lround_div\<close> of the encoder; decoding does not depend on it.
  The functions on streams are modelled for 64-bit values; the overloads for 32-bit values have the same text.
\<close>

section \<open>Encoding in memory\<close>

fun avg_encode_loop :: "('a::len word \<Rightarrow> 'a word) \<Rightarrow> 'a word \<Rightarrow> 'a word \<Rightarrow> 'a word \<Rightarrow> 'a word list \<Rightarrow> 'a word list \<times> 'a word" where
  "avg_encode_loop zz avg avg_base val [] = ([], val)"
| "avg_encode_loop zz avg avg_base val (x # xs) =
     (let avg_base1 = avg_base + avg;
          e = zz (x - avg_base1);
          (es, val1) = avg_encode_loop zz avg avg_base1 (val OR e) xs
      in (e # es, val1))"

definition avg_encode64 :: "(u64 \<Rightarrow> nat \<Rightarrow> u64) \<Rightarrow> u64 list \<Rightarrow> (u64 \<times> u64 \<times> bool) \<times> u64 list" where
  "avg_encode64 lround_div xs =
     (let base = hd xs;
          distance = length xs - 1;
          avg = lround_div (last xs - base) (if 0 < distance then distance else 1);
          (es, val) = avg_encode_loop zig_zag_encode64 avg base 0 (tl xs)
      in ((base, avg, val = 0), 0 # es))"

definition avg_encode32 :: "(u32 \<Rightarrow> nat \<Rightarrow> u32) \<Rightarrow> u32 list \<Rightarrow> (u32 \<times> u32) \<times> u32 list" where
  "avg_encode32 lround_div xs =
     (let base = hd xs;
          distance = length xs - 1;
          avg = lround_div (last xs - base) (if 0 < distance then distance else 1)
      in ((base, avg), 0 # fst (avg_encode_loop zig_zag_encode32 avg base 0 (tl xs))))"

text \<open>\<open>visit\<close> and \<open>visit_packed\<close>, as the list of the values given to the visitor; \<open>decode\<close> stores this list.\<close>

fun avg_visit :: "('a::len word \<Rightarrow> 'a word) \<Rightarrow> 'a word \<Rightarrow> 'a word \<Rightarrow> 'a word list \<Rightarrow> 'a word list" where
  "avg_visit zz base avg [] = []"
| "avg_visit zz base avg (e # es) = (base + zz e) # avg_visit zz (base + avg) avg es"

definition avg_decode64 :: "u64 \<Rightarrow> u64 \<Rightarrow> u64 list \<Rightarrow> u64 list" where
  "avg_decode64 base avg es = avg_visit zig_zag_decode64 base avg es"

definition avg_decode32 :: "u32 \<Rightarrow> u32 \<Rightarrow> u32 list \<Rightarrow> u32 list" where
  "avg_decode32 base avg es = avg_visit zig_zag_decode32 base avg es"

fun visit_packed :: "(nat \<Rightarrow> 'a::len word) \<Rightarrow> ('a word \<Rightarrow> 'a word) \<Rightarrow> 'a word \<Rightarrow> 'a word \<Rightarrow> nat \<Rightarrow> nat \<Rightarrow> 'a word list" where
  "visit_packed at_i zz base avg i 0 = []"
| "visit_packed at_i zz base avg i (Suc n) = (base + zz (at_i i)) # visit_packed at_i zz (base + avg) avg (i + 1) n"

section \<open>Blocks in a stream\<close>

definition avg_write_block64 ::
  "nat \<Rightarrow> 'o index_out \<Rightarrow> u64 \<Rightarrow> u64 \<Rightarrow> u64 list \<Rightarrow> u64 list \<Rightarrow> 'o \<Rightarrow> (nat \<times> 'o) option" where
  "avg_write_block64 Step io base avg decoded encoded out = do {
     out1 \<leftarrow> out_do io (WriteVlong base) out;
     out2 \<leftarrow> out_do io (WriteVlong avg) out1;
     write_block64 Step pack_64 io decoded encoded out2
   }"

fun arith_seq :: "'a::len word \<Rightarrow> 'a word \<Rightarrow> nat \<Rightarrow> 'a word list" where
  "arith_seq base avg 0 = []"
| "arith_seq base avg (Suc n) = base # arith_seq (base + avg) avg n"

definition visit_block_rl64 :: "'i index_in \<Rightarrow> u64 \<Rightarrow> u64 \<Rightarrow> nat \<Rightarrow> 'i \<Rightarrow> (u64 list \<times> 'i) option" where
  "visit_block_rl64 io base avg n s = do { (v, s1) \<leftarrow> in_vlong io s; Some (arith_seq (base + v) avg n, s1) }"

definition visit_block_packed64 :: "'i index_in \<Rightarrow> nat \<Rightarrow> u64 list \<Rightarrow> 'i \<Rightarrow> (u64 list \<times> 'i) option" where
  "visit_block_packed64 io n packed s = do {
     (base, s1) \<leftarrow> in_vlong io s;
     (avg, s2) \<leftarrow> in_vlong io s1;
     (bits, s3) \<leftarrow> in_vint io s2;
     if bits = 0 then visit_block_rl64 io base avg n s3
     else do {
       (bs, s4) \<leftarrow> in_bytes io (8 * unat (blocks_required_64 (of_nat n) (ucast bits))) s3;
       let packed1 = store_bytes bs packed;
       Some (visit_packed (\<lambda>i. at_64 packed1 i (unat bits)) zig_zag_decode64 base avg 0 n, s4)
     }
   }"

definition visit_block_packed_tail64 :: "'i index_in \<Rightarrow> nat \<Rightarrow> u64 list \<Rightarrow> 'i \<Rightarrow> (u64 list \<times> 'i) option" where
  "visit_block_packed_tail64 io n packed s = do {
     (base, s1) \<leftarrow> in_vlong io s;
     (avg, s2) \<leftarrow> in_vlong io s1;
     (bits, s3) \<leftarrow> in_vint io s2;
     if bits = 0 then visit_block_rl64 io base avg n s3
     else do {
       let block_size = div_ceil64 (of_nat n) 64 * 64;
       (bs, s4) \<leftarrow> in_bytes io (8 * unat (blocks_required_64 block_size (ucast bits))) s3;
       let packed1 = store_bytes bs packed;
       Some (visit_packed (\<lambda>i. at_64 packed1 i (unat bits)) zig_zag_decode64 base avg 0 n, s4)
     }
   }"

text \<open>\<open>read_block_rl64\<close>: base and slope, and whether the block is exactly the line they describe.\<close>

definition read_block_rl64 :: "'i index_in \<Rightarrow> 'i \<Rightarrow> ((bool \<times> u64 \<times> u64) \<times> 'i) option" where
  "read_block_rl64 io s = do {
     (base, s1) \<leftarrow> in_vlong io s;
     (avg, s2) \<leftarrow> in_vlong io s1;
     (bits, s3) \<leftarrow> in_vint io s2;
     (v, s4) \<leftarrow> in_vlong io s3;
     Some ((bits = 0 \<and> v = 0, base, avg), s4)
   }"

definition check_block_rl64 :: "'i index_in \<Rightarrow> u64 \<Rightarrow> 'i \<Rightarrow> (bool \<times> 'i) option" where
  "check_block_rl64 io expected_avg s =
     map_option (\<lambda>((rl, _, avg), s1). (expected_avg = avg \<and> rl, s1)) (read_block_rl64 io s)"

section \<open>Decoding gives the values back\<close>

lemma avg_visit_loop:
  assumes "\<And>v. zd (ze v) = v"
  shows "avg_visit zd (b + avg) avg (fst (avg_encode_loop ze avg b val xs)) = xs"
proof (induction xs arbitrary: b val)
  case (Cons x xs)
  then show ?case using Cons [of "b + avg" "val OR ze (x - (b + avg))"] assms by (simp add: Let_def case_prod_beta)
qed simp

lemma length_avg_encode_loop [simp]: "length (fst (avg_encode_loop ze avg b val xs)) = length xs"
  by (induction ze avg b val xs rule: avg_encode_loop.induct) (simp_all add: Let_def case_prod_beta)

lemma word_or_zero: "x OR y = 0 \<longleftrightarrow> x = 0 \<and> y = (0 :: 'a::len word)"
  by (auto simp: bit_eq_iff bit_or_iff)

lemma avg_encode_loop_zero:
  "snd (avg_encode_loop ze avg b val xs) = 0 \<longleftrightarrow> val = 0 \<and> (\<forall>e\<in>set (fst (avg_encode_loop ze avg b val xs)). e = 0)"
  by (induction ze avg b val xs rule: avg_encode_loop.induct) (auto simp: Let_def case_prod_beta word_or_zero)

lemma zz_zero [simp]: "zig_zag_decode64 0 = 0" "zig_zag_decode32 0 = 0"
  by (simp_all add: zig_zag_decode64_def zig_zag_decode32_def)

lemma avg_visit_append: "avg_visit zd b avg (xs @ ys) = avg_visit zd b avg xs @ avg_visit zd (b + of_nat (length xs) * avg) avg ys"
  by (induction xs arbitrary: b) (simp_all add: algebra_simps)

lemma avg_visit_zero: "zd 0 = 0 \<Longrightarrow> avg_visit zd b avg (replicate n 0) = arith_seq b avg n"
  by (induction n arbitrary: b) simp_all

lemma length_avg_visit [simp]: "length (avg_visit zd b avg es) = length es"
  by (induction zd b avg es rule: avg_visit.induct) simp_all

lemma take_avg_visit: "take n (avg_visit zd b avg es) = avg_visit zd b avg (take n es)"
  by (induction es arbitrary: b n) (simp_all add: take_Cons split: nat.split)

lemma avg_encode64_correct:
  assumes "xs \<noteq> []" "avg_encode64 lr xs = ((base, avg, z), es)"
  shows "avg_visit zig_zag_decode64 base avg es = xs" "length es = length xs" "hd es = 0" "z \<longleftrightarrow> (\<forall>e\<in>set es. e = 0)"
proof -
  have e: "es = 0 # fst (avg_encode_loop zig_zag_encode64 avg base 0 (tl xs))" "base = hd xs"
    "z \<longleftrightarrow> snd (avg_encode_loop zig_zag_encode64 avg base 0 (tl xs)) = 0"
    using assms(2) by (auto simp: avg_encode64_def Let_def case_prod_beta)
  show "avg_visit zig_zag_decode64 base avg es = xs" "length es = length xs" "hd es = 0" "z \<longleftrightarrow> (\<forall>e\<in>set es. e = 0)"
    using assms(1) avg_visit_loop [of zig_zag_decode64 zig_zag_encode64] avg_encode_loop_zero [of zig_zag_encode64 avg base 0 "tl xs"]
    unfolding e by simp_all
qed

lemma avg_encode32_correct:
  assumes "xs \<noteq> []" "avg_encode32 lr xs = ((base, avg), es)"
  shows "avg_visit zig_zag_decode32 base avg es = xs" "length es = length xs" "hd es = 0"
proof -
  have e: "es = 0 # fst (avg_encode_loop zig_zag_encode32 avg base 0 (tl xs))" "base = hd xs"
    using assms(2) by (auto simp: avg_encode32_def Let_def)
  show "avg_visit zig_zag_decode32 base avg es = xs" "length es = length xs" "hd es = 0"
    using assms(1) avg_visit_loop [of zig_zag_decode32 zig_zag_encode32] unfolding e by simp_all
qed

lemma visit_packed_eq:
  "(\<And>j. j < n \<Longrightarrow> at_i (i + j) = ys ! (i + j)) \<Longrightarrow> i + n \<le> length ys \<Longrightarrow>
   visit_packed at_i zz base avg i n = avg_visit zz base avg (take n (drop i ys))"
proof (induction n arbitrary: i base)
  case (Suc n)
  have "drop i ys = ys ! i # drop (i + 1) ys" using Suc.prems(2) Cons_nth_drop_Suc [of i ys] by simp
  moreover have "visit_packed at_i zz (base + avg) avg (i + 1) n = avg_visit zz (base + avg) avg (take n (drop (i + 1) ys))"
    using Suc.prems(1) [of "Suc _"] Suc.prems(2) by (intro Suc.IH) auto
  ultimately show ?case using Suc.prems(1) [of 0] by simp
qed simp

section \<open>Widths of 64-bit blocks\<close>

lemma maxbits64_bounds:
  "maxbits64 xs \<le> 64" "x \<in> set xs \<Longrightarrow> take_bit (maxbits64 xs) x = x" "\<not> (\<forall>x\<in>set xs. x = hd xs) \<Longrightarrow> 1 \<le> maxbits64 xs"
proof -
  have fits: "take_bit (maxbits64 xs) (or_accum 0 xs) = or_accum 0 xs" by (simp add: maxbits64_def bits_required_fits)
  show "maxbits64 xs \<le> 64" by (simp add: maxbits64_def bits_required_64_def)
  show x: "take_bit (maxbits64 xs) x = x" if "x \<in> set xs" for x using fits_or_accum [OF fits that] .
  show "1 \<le> maxbits64 xs" if ne: "\<not> (\<forall>x\<in>set xs. x = hd xs)"
  proof (rule ccontr)
    assume "\<not> 1 \<le> maxbits64 xs"
    then have "maxbits64 xs = 0" by simp
    then have zero: "y = 0" if "y \<in> set xs" for y using x [OF that] by simp
    moreover have "hd xs \<in> set xs" using ne by (cases xs) auto
    ultimately show False using ne by metis
  qed
qed

lemma unat_ceil_div:
  fixes m :: nat
  assumes "m + d < 2 ^ LENGTH('a)" "0 < d"
  shows "unat ((of_nat m + of_nat d - 1) div of_nat d :: 'a::len word) = (m + d - 1) div d"
proof -
  have w: "of_nat m + of_nat d - 1 = (of_nat (m + d - 1) :: 'a word)" using assms(2) by (simp add: of_nat_diff)
  have k: "unat (of_nat k :: 'a word) = k" if "k < 2 ^ LENGTH('a)" for k using that by (simp add: unat_of_nat)
  have "m + d - 1 < 2 ^ LENGTH('a)" "d < 2 ^ LENGTH('a)" using assms by auto
  then show ?thesis unfolding w unat_div by (simp only: k)
qed

lemma required64:
  assumes "n * 64 \<le> 2 ^ 32" "bits \<le> 64"
  shows "unat (bytes_required_64 (of_nat (n * 64)) (of_nat bits)) = n * bits * 8"
    "unat (blocks_required_64 (of_nat (n * 64)) (of_nat bits)) = n * bits"
proof -
  have "n * 64 * bits \<le> 2 ^ 32 * 64" using assms by (intro mult_le_mono) auto
  then have le: "n * 64 * bits + 64 < 2 ^ LENGTH(64)" by simp
  then show "unat (bytes_required_64 (of_nat (n * 64)) (of_nat bits)) = n * bits * 8"
    using unat_ceil_div [where 'a = 64, of "n * 64 * bits" 8] by (simp add: bytes_required_64_def div_ceil64_def)
  show "unat (blocks_required_64 (of_nat (n * 64)) (of_nat bits)) = n * bits"
    using unat_ceil_div [where 'a = 64, OF le] by (simp add: blocks_required_64_def div_ceil64_def)
qed

section \<open>Reading blocks\<close>

lemma ucast_of_nat_small:
  assumes "b < 2 ^ LENGTH('b)"
  shows "ucast (of_nat b :: 'b::len word) = (of_nat b :: 'a::len word)"
  using assms by (simp add: unsigned_of_nat take_bit_nat_eq_self)

lemma vwrite_u32_small: "b < 128 \<Longrightarrow> vwrite_u32 (of_nat b) = [of_nat b]"
  by (subst vwrite_u32.simps) (simp add: word_le_nat_alt unat_of_nat ucast_of_nat_small)

lemma bits_at:
  assumes "index_source io stream rest" "stream f s" "rest s = of_nat b # r" "b < 128"
  shows "\<exists>s'. in_vint io s = Some (of_nat b, s') \<and> stream f s' \<and> rest s' = r"
  using index_reader.vint_at [OF source_reader [OF assms(1)] assms(2), of "of_nat b" r] assms(3,4) by (simp add: vwrite_u32_small)

lemma ucast_bits: "b < 128 \<Longrightarrow> (ucast (of_nat b :: u32) :: u64) = of_nat b \<and> unat (of_nat b :: u32) = b"
  by (simp add: unat_of_nat ucast_of_nat_small)

text \<open>The bytes of a block of 64-bit values.\<close>

definition block_bytes64 :: "u64 list \<Rightarrow> u8 list" where
  "block_bytes64 ys =
     (if \<forall>y\<in>set ys. y = hd ys then 0 # vwrite_u64 (hd ys)
      else of_nat (maxbits64 ys) # words_bytes (pack_64 ys (replicate (length ys div 64 * maxbits64 ys) 0) (maxbits64 ys)))"

lemma width_le: "bits \<le> B \<Longrightarrow> n * B \<le> k \<Longrightarrow> n * bits \<le> (k :: nat)"
  by (meson mult_le_mono2 order.trans)

lemma write_block64_appends:
  assumes "index_sink io contents ok" "ok s" "length ys = n * 64" "n * 64 \<le> 2 ^ 32" "n * 64 \<le> length buf"
  shows "\<exists>b s'. write_block64 Step pack_64 io ys buf s = Some (b, s') \<and> contents s' = contents s @ block_bytes64 ys \<and> ok s'"
proof (cases "\<forall>y\<in>set ys. y = hd ys")
  case True
  obtain s2 where s2: "out_run io [WriteByte 0, WriteVlong (hd ys)] s = Some s2"
    "contents s2 = contents s @ 0 # vwrite_u64 (hd ys)" "ok s2"
    using index_sink.run_law [OF assms(1,2), of "[WriteByte 0, WriteVlong (hd ys)]"] by auto
  have "all_equal Step ys" using True by (simp add: all_equal_iff)
  then show ?thesis using True s2 by (auto simp: write_block64_def block_bytes64_def bind_eq_Some_conv)
next
  case False
  let ?b = "maxbits64 ys"
  let ?e = "pack_64 ys (replicate (n * ?b) 0) ?b"
  note b = maxbits64_bounds(1) [of ys] maxbits64_bounds(3) [OF False]
  have len: "n * ?b \<le> length buf" using width_le [OF b(1) assms(5)] .
  have p: "pack_64 ys (replicate (n * ?b) 0 @ rest) ?b = ?e @ rest" "length ?e = n * ?b" for rest
    using p64.pack_loop_append [OF b(2,1) assms(3), of rest] by (simp_all add: pack_64_def)
  have "store_bytes (replicate (n * ?b * 8) 0) buf = replicate (n * ?b) 0 @ drop (n * ?b) buf"
    using memset_zero [where 'a = 64, OF _ len] by simp
  then have enc: "take (n * ?b * 8) (words_bytes (pack_64 ys (store_bytes (replicate (n * ?b * 8) 0) buf) ?b)) = words_bytes ?e"
    using p by (simp add: words_bytes_append)
  have w: "(v AND 0xFF :: u8) = v" for v
  proof -
    have "(0xFF :: u8) = - 1" by simp
    then show ?thesis by (simp only: and.right_neutral)
  qed
  obtain s2 where s2: "out_run io [WriteByte (of_nat ?b), WriteBytes (words_bytes ?e)] s = Some s2"
    "contents s2 = contents s @ of_nat ?b # words_bytes ?e" "ok s2"
    using index_sink.run_law [OF assms(1,2), of "[WriteByte (of_nat ?b), WriteBytes (words_bytes ?e)]"] by auto
  have n: "length ys div 64 = n" using assms(3) by simp
  have "\<not> all_equal Step ys" "block_bytes64 ys = of_nat ?b # words_bytes ?e"
    unfolding block_bytes64_def n using False by (simp add: all_equal_iff, intro if_not_P)
  then show ?thesis using s2 enc w required64(1) [OF assms(4) b(1)] assms(3)
    by (auto simp: write_block64_def Let_def bind_eq_Some_conv)
qed

lemma avg_block_head64:
  assumes "index_source io stream rest" "stream f s" "rest s = vwrite_u64 base @ vwrite_u64 avg @ of_nat b # r" "b < 128"
  shows "\<exists>s1 s2 s3. in_vlong io s = Some (base, s1) \<and> in_vlong io s1 = Some (avg, s2) \<and> in_vint io s2 = Some (of_nat b, s3) \<and>
    stream f s3 \<and> rest s3 = r"
proof -
  obtain s1 where s1: "in_vlong io s = Some (base, s1)" "stream f s1" "rest s1 = vwrite_u64 avg @ of_nat b # r"
    using index_reader.vlong_at [OF source_reader [OF assms(1)] assms(2,3)] by blast
  obtain s2 where s2: "in_vlong io s1 = Some (avg, s2)" "stream f s2" "rest s2 = of_nat b # r"
    using index_reader.vlong_at [OF source_reader [OF assms(1)] s1(2,3)] by blast
  from bits_at [OF assms(1) s2(2,3) assms(4)] s1(1) s2(1) show ?thesis by blast
qed

lemma visit_tail64_at:
  assumes src: "index_source io stream rest" and s: "stream f s" "rest s = vwrite_u64 base @ vwrite_u64 avg @ block_bytes64 ys @ r"
    and ys: "length ys = n * 64" "n * 64 \<le> 2 ^ 32" "n * 64 \<le> length packed" "hd ys = 0"
    and k: "n = (k + 63) div 64" "0 < k"
  shows "\<exists>s'. visit_block_packed_tail64 io k packed s = Some (avg_visit zig_zag_decode64 base avg (take k ys), s') \<and>
      stream f s' \<and> rest s' = r"
    and "k = n * 64 \<Longrightarrow> \<exists>s'. visit_block_packed64 io k packed s = Some (avg_visit zig_zag_decode64 base avg (take k ys), s') \<and>
      stream f s' \<and> rest s' = r"
proof -
  have kn: "k \<le> n * 64" "k \<le> 2 ^ 32" using k ys(2) by auto
  have "(\<exists>s'. visit_block_packed_tail64 io k packed s = Some (avg_visit zig_zag_decode64 base avg (take k ys), s') \<and>
      stream f s' \<and> rest s' = r) \<and>
    (k = n * 64 \<longrightarrow> (\<exists>s'. visit_block_packed64 io k packed s = Some (avg_visit zig_zag_decode64 base avg (take k ys), s') \<and>
      stream f s' \<and> rest s' = r))"
  proof (cases "\<forall>y\<in>set ys. y = hd ys")
    case True
    then have bb: "block_bytes64 ys = of_nat 0 # vwrite_u64 0" using ys(4) by (simp add: block_bytes64_def)
    obtain s1 s2 s3 where h: "in_vlong io s = Some (base, s1)" "in_vlong io s1 = Some (avg, s2)" "in_vint io s2 = Some (of_nat 0, s3)"
      "stream f s3" "rest s3 = vwrite_u64 0 @ r"
      using avg_block_head64 [OF src s(1), of base avg 0 "vwrite_u64 0 @ r"] s(2) bb by auto
    obtain s4 where s4: "in_vlong io s3 = Some (0, s4)" "stream f s4" "rest s4 = r"
      using index_reader.vlong_at [OF source_reader [OF src] h(4,5)] by blast
    have "take k ys = replicate k 0" using True ys(1,4) kn(1) by (intro replicate_eqI) (auto dest: in_set_takeD)
    then have "avg_visit zig_zag_decode64 base avg (take k ys) = arith_seq base avg k" by (simp add: avg_visit_zero)
    then show ?thesis using h s4
      by (auto simp: visit_block_packed_tail64_def visit_block_packed64_def visit_block_rl64_def)
  next
    case False
    let ?b = "maxbits64 ys"
    let ?e = "pack_64 ys (replicate (n * ?b) 0) ?b"
    note b = maxbits64_bounds(1) [of ys] maxbits64_bounds(3) [OF False]
    have n: "length ys div 64 = n" using ys(1) by simp
    have bb: "block_bytes64 ys = of_nat ?b # words_bytes ?e"
      unfolding block_bytes64_def n using False by (intro if_not_P)
    have e: "length ?e = n * ?b" using p64.pack_loop_append [OF b(2,1) ys(1), of "[]"] by (simp add: pack_64_def)
    have b128: "?b < 128" using b(1) by simp
    obtain s1 s2 s3 where h: "in_vlong io s = Some (base, s1)" "in_vlong io s1 = Some (avg, s2)" "in_vint io s2 = Some (of_nat ?b, s3)"
      "stream f s3" "rest s3 = words_bytes ?e @ r"
      using avg_block_head64 [OF src s(1), of base avg ?b "words_bytes ?e @ r"] s(2) bb b128 by auto
    obtain s4 where s4: "in_bytes io (8 * (n * ?b)) s3 = Some (words_bytes ?e, s4)" "stream f s4" "rest s4 = r"
      using index_reader.bytes_at [OF source_reader [OF src] h(4,5), of "8 * (n * ?b)"] e by auto
    have "length ?e \<le> length packed" using width_le [OF b(1) ys(3)] e by simp
    then have st: "store_bytes (words_bytes ?e) packed = ?e @ drop (length ?e) packed"
      using store_bytes_words [where 'a = 64, of ?e packed] by simp
    have fits: "list_all (\<lambda>y. take_bit ?b y = y) ys" using maxbits64_bounds(2) by (simp add: list_all_iff)
    have "at_64 (?e @ rest') i ?b = ys ! i" if "i < length ys" for i rest'
      using p64.at_pack_loop_append [OF b(2,1) ys(1) fits that, of rest'] by (simp add: at_64_def pack_64_def)
    then have v: "visit_packed (\<lambda>i. at_64 (?e @ drop (length ?e) packed) i ?b) zig_zag_decode64 base avg 0 k =
        avg_visit zig_zag_decode64 base avg (take k ys)"
      using visit_packed_eq [of k "\<lambda>i. at_64 (?e @ drop (length ?e) packed) i ?b" 0 ys] kn(1) ys(1) by simp
    have u: "(of_nat ?b :: u32) \<noteq> 0" "unat (of_nat ?b :: u32) = ?b" "(ucast (of_nat ?b :: u32) :: u64) = of_nat ?b"
      using ucast_bits [OF b128] b(2) by (auto simp: unat_eq_zero [symmetric])
    have "unat (div_ceil64 (of_nat k) 64) = n"
      using unat_ceil_div [where 'a = 64, of k 64] kn k by (simp add: div_ceil64_def)
    moreover have "w = of_nat (unat w)" for w :: u64 by simp
    ultimately have "div_ceil64 (of_nat k) 64 = of_nat n" by metis
    then have ceil: "div_ceil64 (of_nat k) 64 * 64 = of_nat (n * 64)" by simp
    show ?thesis
      using h s4 st v u required64(2) [OF ys(2) b(1)]
      by (auto simp: visit_block_packed_tail64_def visit_block_packed64_def ceil Let_def)
  qed
  then show "\<exists>s'. visit_block_packed_tail64 io k packed s = Some (avg_visit zig_zag_decode64 base avg (take k ys), s') \<and>
      stream f s' \<and> rest s' = r"
    "k = n * 64 \<Longrightarrow> \<exists>s'. visit_block_packed64 io k packed s = Some (avg_visit zig_zag_decode64 base avg (take k ys), s') \<and>
      stream f s' \<and> rest s' = r" by blast+
qed

section \<open>Properties\<close>

lemma avg_write_block64_appends:
  assumes "index_sink io contents ok" "ok s" "length ys = n * 64" "n * 64 \<le> 2 ^ 32" "n * 64 \<le> length buf"
  shows "\<exists>b s'. avg_write_block64 Step io base avg ys buf s = Some (b, s') \<and>
    contents s' = contents s @ vwrite_u64 base @ vwrite_u64 avg @ block_bytes64 ys \<and> ok s'"
proof -
  obtain s2 where s2: "out_run io [WriteVlong base, WriteVlong avg] s = Some s2"
    "contents s2 = contents s @ vwrite_u64 base @ vwrite_u64 avg" "ok s2"
    using index_sink.run_law [OF assms(1,2), of "[WriteVlong base, WriteVlong avg]"] by auto
  from write_block64_appends [OF assms(1) s2(3) assms(3-5), of Step] s2 show ?thesis
    by (auto simp: avg_write_block64_def bind_eq_Some_conv)
qed

lemma read_rl64_at:
  assumes src: "index_source io stream rest" and s: "stream f s" "rest s = vwrite_u64 base @ vwrite_u64 avg @ block_bytes64 ys @ r"
    and ys: "hd ys = 0" "\<forall>y\<in>set ys. y = 0"
  shows "\<exists>s'. read_block_rl64 io s = Some ((True, base, avg), s') \<and> stream f s' \<and> rest s' = r"
proof -
  have bb: "block_bytes64 ys = of_nat 0 # vwrite_u64 0" using ys by (simp add: block_bytes64_def)
  obtain s1 s2 s3 where h: "in_vlong io s = Some (base, s1)" "in_vlong io s1 = Some (avg, s2)" "in_vint io s2 = Some (of_nat 0, s3)"
    "stream f s3" "rest s3 = vwrite_u64 0 @ r"
    using avg_block_head64 [OF src s(1), of base avg 0 "vwrite_u64 0 @ r"] s(2) bb by auto
  with index_reader.vlong_at [OF source_reader [OF src] h(4,5)] show ?thesis by (auto simp: read_block_rl64_def)
qed



end
