(* ===== verification/SkipWriter.thy ===== *)
theory SkipWriter
  imports MemoryStream
begin

text \<open>
  \<open>SkipWriter\<close> of \<open>core/formats/skip_list.hpp\<close> and \<open>skip_list.cpp\<close>: a multi-level skip list, each level in a
  stream in memory of its own. The streams are given by their interface, the state \<open>'w\<close> of the object that supplies the entries is
  threaded through the callback.
\<close>

section \<open>State and operations\<close>

text \<open>
  \<open>memory_output\<close>: a stream, the \<open>reset\<close> of file and stream, the \<open>reset\<close> of the stream alone, and the pieces that
  \<open>stream >> out\<close> copies.
\<close>

record 'm mem_stream =
  mem_io :: "'m index_out"
  mem_reset :: "'m \<Rightarrow> 'm"
  mem_stream_reset :: "'m \<Rightarrow> 'm"
  mem_chunks :: "'m \<Rightarrow> u8 list list"

record 'm skip_writer =
  sw_levels :: "'m list"
  sw_max_levels :: nat
  sw_skip_0 :: nat
  sw_skip_n :: nat

function math_log :: "nat \<Rightarrow> nat \<Rightarrow> nat" where
  "math_log x base = (if 2 \<le> base \<and> base \<le> x then Suc (math_log (x div base) base) else 0)"
  by auto

termination by (relation "measure fst") auto

declare math_log.simps [simp del]

definition count_max_levels :: "nat \<Rightarrow> nat \<Rightarrow> nat \<Rightarrow> nat" where
  "count_max_levels skip_0 skip_n count = (if skip_0 < count then 1 + math_log (count div skip_0) skip_n else 0)"

text \<open>\<open>Prepare\<close>; \<open>new_level\<close> is a fresh stream.\<close>

definition sw_prepare :: "'m mem_stream \<Rightarrow> 'm \<Rightarrow> nat \<Rightarrow> nat \<Rightarrow> 'm skip_writer \<Rightarrow> 'm skip_writer" where
  "sw_prepare ms new_level max_levels count s =
     (let n = min max_levels (count_max_levels (sw_skip_0 s) (sw_skip_n s) count);
          old = map (mem_reset ms) (sw_levels s)
      in s\<lparr>sw_max_levels := n, sw_levels := old @ replicate (n - length old) new_level\<rparr>)"

definition sw_reset :: "'m mem_stream \<Rightarrow> 'm skip_writer \<Rightarrow> 'm skip_writer" where
  "sw_reset ms s = s\<lparr>sw_levels := map (mem_stream_reset ms) (sw_levels s)\<rparr>"

text \<open>The loop of \<open>Skip\<close> over the levels from 1 on.\<close>

function sw_skip_loop ::
  "'m mem_stream \<Rightarrow> (nat \<Rightarrow> 'w \<times> 'm \<Rightarrow> ('w \<times> 'm) option) \<Rightarrow> nat \<Rightarrow> nat \<Rightarrow> nat \<Rightarrow> 'w \<times> 'm skip_writer \<Rightarrow>
   ('w \<times> 'm skip_writer) option" where
  "sw_skip_loop ms write i count child (w, s) =
     (if count mod sw_skip_n s = 0 \<and> i < sw_max_levels s then do {
        (w1, m1) \<leftarrow> write i (w, sw_levels s ! i);
        let next_child = out_pointer (mem_io ms) m1;
        m2 \<leftarrow> out_do (mem_io ms) (WriteVlong (of_nat child)) m1;
        sw_skip_loop ms write (i + 1) (count div sw_skip_n s) next_child (w1, s\<lparr>sw_levels := (sw_levels s)[i := m2]\<rparr>)
      } else Some (w, s))"
  by auto

termination by (relation "measure (\<lambda>(_, _, i, _, _, _, s). sw_max_levels s - i)") auto

declare sw_skip_loop.simps [simp del]

definition sw_skip ::
  "'m mem_stream \<Rightarrow> (nat \<Rightarrow> 'w \<times> 'm \<Rightarrow> ('w \<times> 'm) option) \<Rightarrow> nat \<Rightarrow> 'w \<times> 'm skip_writer \<Rightarrow> ('w \<times> 'm skip_writer) option" where
  "sw_skip ms write count = (\<lambda>(w, s).
     if count mod sw_skip_0 s = 0 then
       if sw_levels s = [] then None
       else do {
         (w1, m1) \<leftarrow> write 0 (w, sw_levels s ! 0);
         sw_skip_loop ms write 1 (count div sw_skip_0 s) (out_pointer (mem_io ms) m1)
           (w1, s\<lparr>sw_levels := (sw_levels s)[0 := m1]\<rparr>)
       }
     else Some (w, s))"

text \<open>\<open>CountLevels\<close>: up to the last of the levels in use that is not empty.\<close>

definition sw_count_levels :: "'m mem_stream \<Rightarrow> 'm skip_writer \<Rightarrow> nat" where
  "sw_count_levels ms s =
     length (dropWhile (\<lambda>m. out_pointer (mem_io ms) m = 0) (rev (take (sw_max_levels s) (sw_levels s))))"

text \<open>The loop of \<open>FlushLevels\<close>, from the highest level down.\<close>

fun sw_flush_loop :: "'m mem_stream \<Rightarrow> 'o index_out \<Rightarrow> 'm list \<Rightarrow> 'o \<Rightarrow> ('m list \<times> 'o) option" where
  "sw_flush_loop ms io [] out = Some ([], out)"
| "sw_flush_loop ms io (m # down) out = do {
     m1 \<leftarrow> out_do (mem_io ms) Flush m;
     out1 \<leftarrow> out_do io (WriteVlong (of_nat (out_pointer (mem_io ms) m1))) out;
     out2 \<leftarrow> out_run io (map WriteBytes (mem_chunks ms m1)) out1;
     (down1, out3) \<leftarrow> sw_flush_loop ms io down out2;
     Some (m1 # down1, out3)
   }"

definition sw_flush_levels ::
  "'m mem_stream \<Rightarrow> 'o index_out \<Rightarrow> nat \<Rightarrow> 'm skip_writer \<Rightarrow> 'o \<Rightarrow> ('m skip_writer \<times> 'o) option" where
  "sw_flush_levels ms io num_levels s out = do {
     out1 \<leftarrow> out_do io (WriteVint (of_nat num_levels)) out;
     (ls, out2) \<leftarrow> sw_flush_loop ms io (rev (take num_levels (sw_levels s))) out1;
     Some (s\<lparr>sw_levels := rev ls @ drop num_levels (sw_levels s)\<rparr>, out2)
   }"

section \<open>What a stream in memory promises\<close>

text \<open>It takes every write, can be emptied, and after \<open>flush\<close> its pieces are its content.\<close>

locale memory_sink = index_sink "mem_io ms" contents ok
  for ms :: "'m mem_stream" and contents :: "'m \<Rightarrow> u8 list" and ok :: "'m \<Rightarrow> bool" +
  assumes reset_law: "ok m \<Longrightarrow> ok (mem_reset ms m) \<and> contents (mem_reset ms m) = []"
    and stream_reset_law: "ok m \<Longrightarrow> ok (mem_stream_reset ms m) \<and> contents (mem_stream_reset ms m) = []"
    and chunks_law: "ok m \<Longrightarrow> out_do (mem_io ms) Flush m = Some m' \<Longrightarrow> concat (mem_chunks ms m') = contents m'"

section \<open>The content of the levels\<close>

text \<open>
  The entries are numbered from 1, entry \<open>t\<close> of level \<open>i\<close> is entry \<open>n\<^sup>i t\<close> of level 0. \<open>body i j\<close> is what the callback
  writes for entry \<open>j\<close> on level \<open>i\<close>; from level 1 on it is followed by the position of the same entry one level below, behind
  its body.
\<close>

fun sk_entry :: "(nat \<Rightarrow> nat \<Rightarrow> u8 list) \<Rightarrow> nat \<Rightarrow> nat \<Rightarrow> nat \<Rightarrow> u8 list" where
  "sk_entry body n 0 t = body 0 t"
| "sk_entry body n (Suc i) t = body (Suc i) (n ^ Suc i * t) @
     vwrite_u64 (of_nat (length (concat (map (sk_entry body n i) [1..<n * t])) + length (body i (n ^ i * (n * t)))))"

definition sk_level :: "(nat \<Rightarrow> nat \<Rightarrow> u8 list) \<Rightarrow> nat \<Rightarrow> nat \<Rightarrow> nat \<Rightarrow> u8 list" where
  "sk_level body n i m = concat (map (sk_entry body n i) [1..<m + 1])"

text \<open>The position in level \<open>i\<close> behind the body of its entry \<open>t\<close>.\<close>

definition sk_pos :: "(nat \<Rightarrow> nat \<Rightarrow> u8 list) \<Rightarrow> nat \<Rightarrow> nat \<Rightarrow> nat \<Rightarrow> nat" where
  "sk_pos body n i t = length (sk_level body n i (t - 1)) + length (body i (n ^ i * t))"

lemma sk_level_Suc: "sk_level body n i (Suc m) = sk_level body n i m @ sk_entry body n i (Suc m)"
  by (simp add: sk_level_def)

lemma sk_level_0 [simp]: "sk_level body n i 0 = []"
  by (simp add: sk_level_def)

lemma sk_entry_Suc: "sk_entry body n (Suc i) t = body (Suc i) (n ^ Suc i * t) @ vwrite_u64 (of_nat (sk_pos body n i (n * t)))"
proof -
  have e: "[1..<k] = [1..<k - 1 + 1]" for k by (cases k) simp_all
  show ?thesis unfolding sk_pos_def sk_level_def sk_entry.simps(2) e [of "n * t", symmetric] by (rule refl)
qed

declare sk_entry.simps(2) [simp del]

lemma pred_div:
  fixes j d :: nat
  assumes "1 \<le> j"
  shows "d dvd j \<Longrightarrow> j div d = Suc ((j - 1) div d)" "\<not> d dvd j \<Longrightarrow> (j - 1) div d = j div d"
proof -
  show "j div d = Suc ((j - 1) div d)" if dv: "d dvd j"
  proof -
    obtain q where q: "j = d * q" using dv by (elim dvdE)
    then have "0 < d" "0 < q" using assms by (auto intro: Nat.gr0I)
    then obtain r where "q = Suc r" by (cases q) auto
    then have "j - 1 = d * r + (d - 1)" using q \<open>0 < d\<close> by simp
    then have "(j - 1) div d = (d * r + (d - 1)) div d" by (rule arg_cong)
    also have "\<dots> = r" using \<open>0 < d\<close> by (subst div_mult_self4) simp_all
    finally have "(j - 1) div d = r" .
    then show ?thesis using q \<open>q = Suc r\<close> \<open>0 < d\<close> by simp
  qed
  show "(j - 1) div d = j div d" if ndv: "\<not> d dvd j"
  proof (cases "d = 0")
    case False
    have r: "0 < j mod d" using ndv by (auto simp: dvd_eq_mod_eq_0)
    have "j = d * (j div d) + j mod d" by simp
    then have "j - 1 = d * (j div d) + (j mod d - 1)" using r by linarith
    moreover have "j mod d - 1 < d" using False by (simp add: less_imp_diff_less)
    ultimately show ?thesis using False by simp
  qed simp
qed

section \<open>Adding an entry\<close>

text \<open>\<open>c i\<close> entries have been written on level \<open>i\<close>.\<close>

definition sw_holds :: "('m \<Rightarrow> u8 list) \<Rightarrow> ('m \<Rightarrow> bool) \<Rightarrow> (nat \<Rightarrow> nat \<Rightarrow> u8 list) \<Rightarrow> (nat \<Rightarrow> nat) \<Rightarrow> 'm skip_writer \<Rightarrow> bool" where
  "sw_holds contents ok body c s \<longleftrightarrow> sw_max_levels s \<le> length (sw_levels s) \<and>
     (\<forall>m\<in>set (sw_levels s). ok m) \<and>
     (\<forall>i < sw_max_levels s. contents (sw_levels s ! i) = sk_level body (sw_skip_n s) i (c i))"

text \<open>
  What the callback promises: for the next entry of a level it appends the body of that entry. \<open>I w c\<close> says that the state \<open>w\<close> fits
  to the numbers \<open>c\<close> of entries written so far.
\<close>

definition skip_callback ::
  "('m \<Rightarrow> u8 list) \<Rightarrow> ('m \<Rightarrow> bool) \<Rightarrow> (nat \<Rightarrow> nat \<Rightarrow> u8 list) \<Rightarrow> nat \<Rightarrow> nat \<Rightarrow> ('w \<Rightarrow> (nat \<Rightarrow> nat) \<Rightarrow> bool) \<Rightarrow> nat \<Rightarrow>
   (nat \<Rightarrow> 'w \<times> 'm \<Rightarrow> ('w \<times> 'm) option) \<Rightarrow> bool" where
  "skip_callback contents ok body n max_levels I j write \<longleftrightarrow>
     (\<forall>i w m c. i < max_levels \<and> I w c \<and> ok m \<and> n ^ i * (c i + 1) = j \<longrightarrow>
       (\<exists>w' m'. write i (w, m) = Some (w', m') \<and> contents m' = contents m @ body i j \<and> ok m' \<and> I w' (c(i := c i + 1))))"

context memory_sink
begin

lemma sw_skip_level:
  assumes hold: "sw_holds contents ok body c s" and i: "i < sw_max_levels s"
    and cb: "skip_callback contents ok body (sw_skip_n s) (sw_max_levels s) I j write" and w: "I w c"
    and j: "sw_skip_n s ^ i * (c i + 1) = j"
  shows "\<exists>w1 m1. write i (w, sw_levels s ! i) = Some (w1, m1) \<and> ok m1 \<and> I w1 (c(i := c i + 1)) \<and>
    contents m1 = sk_level body (sw_skip_n s) i (c i) @ body i j \<and>
    out_pointer (mem_io ms) m1 = sk_pos body (sw_skip_n s) i (c i + 1)"
proof -
  have m: "ok (sw_levels s ! i)" "contents (sw_levels s ! i) = sk_level body (sw_skip_n s) i (c i)"
    using hold i by (auto simp: sw_holds_def)
  then obtain w1 m1 where m1: "write i (w, sw_levels s ! i) = Some (w1, m1)" "ok m1" "I w1 (c(i := c i + 1))"
    "contents m1 = sk_level body (sw_skip_n s) i (c i) @ body i j"
    using cb i w j unfolding skip_callback_def by metis
  then show ?thesis using pointer_law [OF m1(2)] j by (auto simp: sk_pos_def)
qed

lemma sw_holds_update:
  assumes "sw_holds contents ok body c s" "i < sw_max_levels s" "ok m" "contents m = sk_level body (sw_skip_n s) i (c i + 1)"
  shows "sw_holds contents ok body (c(i := c i + 1)) (s\<lparr>sw_levels := (sw_levels s)[i := m]\<rparr>)"
  using assms set_update_subset_insert [of "sw_levels s" i m]
  by (auto simp: sw_holds_def nth_list_update)

lemma sw_skip_loop_correct:
  assumes "sw_holds contents ok body c s" "skip_callback contents ok body (sw_skip_n s) (sw_max_levels s) I j write" "I w c"
    and "1 \<le> j" "2 \<le> sw_skip_n s" "1 \<le> i" "i \<le> sw_max_levels s" "sw_skip_n s ^ (i - 1) dvd j"
    and "count = j div sw_skip_n s ^ (i - 1)" "child = sk_pos body (sw_skip_n s) (i - 1) count"
    and "\<forall>k. c k = (if k < i then j div sw_skip_n s ^ k else (j - 1) div sw_skip_n s ^ k)"
  shows "\<exists>w' s' c'. sw_skip_loop ms write i count child (w, s) = Some (w', s') \<and> sw_holds contents ok body c' s' \<and> I w' c' \<and>
    sw_skip_n s' = sw_skip_n s \<and> sw_skip_0 s' = sw_skip_0 s \<and> sw_max_levels s' = sw_max_levels s \<and>
    length (sw_levels s') = length (sw_levels s) \<and> (\<forall>k < sw_max_levels s. c' k = j div sw_skip_n s ^ k)"
  using assms
proof (induction "sw_max_levels s - i" arbitrary: i count child w s c)
  case 0
  then have "sw_skip_loop ms write i count child (w, s) = Some (w, s)" by (subst sw_skip_loop.simps) simp
  moreover have "\<forall>k < sw_max_levels s. c k = j div sw_skip_n s ^ k" using 0 by auto
  ultimately show ?case using 0(2,4) by auto
next
  case (Suc x)
  note p = Suc.prems
  let ?n = "sw_skip_n s"
  have ilt: "i < sw_max_levels s" using Suc.hyps(2) by simp
  have ci: "c i = (j - 1) div ?n ^ i" using p(11) by simp
  have pw: "?n ^ i = ?n ^ (i - 1) * ?n" using p(6) by (cases i) simp_all
  have dv: "count mod ?n = 0 \<longleftrightarrow> ?n ^ i dvd j"
  proof -
    obtain q where q: "j = ?n ^ (i - 1) * q" using p(8) by (elim dvdE)
    have pos: "0 < ?n ^ (i - 1)" using p(5) by simp
    then have "count = q" using p(9) q by simp
    then show ?thesis unfolding pw q using p(5) by (simp add: dvd_eq_mod_eq_0 [symmetric])
  qed
  show ?case
  proof (cases "count mod ?n = 0")
    case False
    then have nd: "\<not> ?n ^ k dvd j" if "i \<le> k" for k
      using dv that by (meson dvd_trans le_imp_power_dvd)
    have "\<forall>k < sw_max_levels s. c k = j div ?n ^ k" using p(11) pred_div(2) [OF p(4)] nd by auto
    moreover have "sw_skip_loop ms write i count child (w, s) = Some (w, s)" using False by (subst sw_skip_loop.simps) simp
    ultimately show ?thesis using p(1,3) by auto
  next
    case True
    then have d: "?n ^ i dvd j" using dv by simp
    have cj: "c i + 1 = j div ?n ^ i" using ci pred_div(1) [OF p(4) d] by simp
    then have j: "?n ^ i * (c i + 1) = j" using d by simp
    obtain w1 m1 where m1: "write i (w, sw_levels s ! i) = Some (w1, m1)" "ok m1" "I w1 (c(i := c i + 1))"
      "contents m1 = sk_level body ?n i (c i) @ body i j" "out_pointer (mem_io ms) m1 = sk_pos body ?n i (c i + 1)"
      using sw_skip_level [OF p(1) ilt p(2,3) j] by blast
    obtain m2 where m2: "out_do (mem_io ms) (WriteVlong (of_nat child)) m1 = Some m2" "ok m2"
      "contents m2 = contents m1 @ vwrite_u64 (of_nat child)"
      using do_law [OF m1(2), of "WriteVlong (of_nat child)"] by auto
    obtain i' where i': "i = Suc i'" using p(6) by (cases i) auto
    have "count = ?n * (c i + 1)" using p(9) j i' p(5) by (auto simp: mult.assoc)
    then have "sk_entry body ?n i (c i + 1) = body i j @ vwrite_u64 (of_nat child)"
      using p(10) j by (simp add: i' sk_entry_Suc)
    then have "contents m2 = sk_level body ?n i (c i + 1)" using m1(4) m2(3) sk_level_Suc [of body ?n i "c i"] by simp
    note hold = sw_holds_update [OF p(1) ilt m2(2) this]
    let ?s = "s\<lparr>sw_levels := (sw_levels s)[i := m2]\<rparr>" and ?c = "c(i := c i + 1)"
    have "\<exists>w' s' c'. sw_skip_loop ms write (i + 1) (count div ?n) (sk_pos body ?n i (c i + 1)) (w1, ?s) = Some (w', s') \<and>
      sw_holds contents ok body c' s' \<and> I w' c' \<and>
      sw_skip_n s' = sw_skip_n ?s \<and> sw_skip_0 s' = sw_skip_0 ?s \<and> sw_max_levels s' = sw_max_levels ?s \<and>
      length (sw_levels s') = length (sw_levels ?s) \<and> (\<forall>k < sw_max_levels ?s. c' k = j div sw_skip_n ?s ^ k)"
    proof (rule Suc.hyps(1) [OF _ hold])
      show "count div ?n = j div sw_skip_n ?s ^ (i + 1 - 1)" using p(9) pw by (simp add: div_mult2_eq)
      then show "sk_pos body ?n i (c i + 1) = sk_pos body (sw_skip_n ?s) (i + 1 - 1) (count div ?n)" using cj by simp
      show "\<forall>k. ?c k = (if k < i + 1 then j div sw_skip_n ?s ^ k else (j - 1) div sw_skip_n ?s ^ k)"
        using p(11) cj by auto
    qed (use Suc.hyps(2) p(2,4,5) m1(3) d ilt in auto)
    then show ?thesis using True ilt m1(1,5) m2(1) by (subst sw_skip_loop.simps) (simp add: Let_def)
  qed
qed

lemma sw_reset_empty:
  assumes "\<forall>m\<in>set (sw_levels s). ok m" "sw_max_levels s \<le> length (sw_levels s)"
  shows "sw_holds contents ok body (\<lambda>_. 0) (sw_reset ms s)"
  using assms stream_reset_law by (auto simp: sw_holds_def sw_reset_def)

lemma sw_prepare_empty:
  assumes "\<forall>m\<in>set (sw_levels s). ok m" "ok new_level" "contents new_level = []"
  shows "sw_holds contents ok body (\<lambda>_. 0) (sw_prepare ms new_level max_levels count s)"
  using assms reset_law by (auto simp: sw_holds_def sw_prepare_def Let_def nth_append)

lemma sw_skip_correct:
  assumes "sw_holds contents ok body c s" "skip_callback contents ok body (sw_skip_n s) (sw_max_levels s) I j write" "I w c"
    and "1 \<le> j" "2 \<le> sw_skip_n s" "0 < sw_skip_0 s" "1 \<le> sw_max_levels s" "\<forall>k. c k = (j - 1) div sw_skip_n s ^ k"
  shows "\<exists>w' s' c'. sw_skip ms write (sw_skip_0 s * j) (w, s) = Some (w', s') \<and> sw_holds contents ok body c' s' \<and> I w' c' \<and>
    sw_skip_n s' = sw_skip_n s \<and> sw_skip_0 s' = sw_skip_0 s \<and> sw_max_levels s' = sw_max_levels s \<and>
    length (sw_levels s') = length (sw_levels s) \<and> (\<forall>k < sw_max_levels s. c' k = j div sw_skip_n s ^ k)"
proof -
  let ?n = "sw_skip_n s"
  have c0: "c 0 + 1 = j" using assms(4,8) by simp
  have l: "0 < sw_max_levels s" "sw_levels s \<noteq> []" using assms(1,7) by (auto simp: sw_holds_def)
  obtain w1 m1 where m1: "write 0 (w, sw_levels s ! 0) = Some (w1, m1)" "ok m1" "I w1 (c(0 := c 0 + 1))"
    "contents m1 = sk_level body ?n 0 (c 0) @ body 0 j" "out_pointer (mem_io ms) m1 = sk_pos body ?n 0 (c 0 + 1)"
    using sw_skip_level [OF assms(1) l(1) assms(2,3)] c0 by (auto simp del: fun_upd_apply One_nat_def)
  have "contents m1 = sk_level body ?n 0 (c 0 + 1)" using m1(4) c0 sk_level_Suc [of body ?n 0 "c 0"] by simp
  note hold = sw_holds_update [OF assms(1) l(1) m1(2) this]
  let ?s = "s\<lparr>sw_levels := (sw_levels s)[0 := m1]\<rparr>" and ?c = "c(0 := c 0 + 1)"
  have "\<exists>w' s' c'. sw_skip_loop ms write 1 j (sk_pos body ?n 0 j) (w1, ?s) = Some (w', s') \<and>
      sw_holds contents ok body c' s' \<and> I w' c' \<and>
      sw_skip_n s' = sw_skip_n ?s \<and> sw_skip_0 s' = sw_skip_0 ?s \<and> sw_max_levels s' = sw_max_levels ?s \<and>
      length (sw_levels s') = length (sw_levels ?s) \<and> (\<forall>k < sw_max_levels ?s. c' k = j div sw_skip_n ?s ^ k)"
  proof (rule sw_skip_loop_correct [OF hold, where I = I])
    show "\<forall>k. ?c k = (if k < 1 then j div sw_skip_n ?s ^ k else (j - 1) div sw_skip_n ?s ^ k)" using assms(8) c0 by auto
  qed (use assms(2,4,5,7) m1(3) c0 in simp_all)
  then show ?thesis using m1(1,5) c0 l assms(6) by (simp add: sw_skip_def)
qed

end

section \<open>Flushing the levels\<close>

lemma math_log_less: "2 \<le> n \<Longrightarrow> 0 < m \<Longrightarrow> n ^ k \<le> m \<longleftrightarrow> k \<le> math_log m n"
proof (induction m n arbitrary: k rule: math_log.induct)
  case (1 m n)
  show ?case
  proof (cases "n \<le> m")
    case True
    have step: "n * a \<le> m \<longleftrightarrow> a \<le> m div n" for a
      using 1(2) less_eq_div_iff_mult_less_eq [of n a m] by (simp add: mult.commute)
    show ?thesis
    proof (cases k)
      case (Suc k')
      have "0 < m div n" using True 1(2) by (simp add: div_greater_zero_iff)
      then show ?thesis using 1 True Suc step [of "n ^ k'"] by (subst math_log.simps) simp
    qed (use 1 in simp)
  next
    case False
    then have "math_log m n = 0" by (subst math_log.simps) simp
    moreover have "k = 0" if "n ^ k \<le> m"
    proof (rule ccontr)
      assume "k \<noteq> 0"
      then have "n ^ 1 \<le> n ^ k" using 1(2) by (intro power_increasing) simp_all
      with that False show False by simp
    qed
    ultimately show ?thesis using 1(3) by auto
  qed
qed

text \<open>The number of levels that \<open>m\<close> entries fill, of at most \<open>max_levels\<close>.\<close>

definition sk_height :: "nat \<Rightarrow> nat \<Rightarrow> nat \<Rightarrow> nat" where
  "sk_height n max_levels m = (if m = 0 then 0 else min max_levels (1 + math_log m n))"

lemma sk_height_le: "sk_height n max_levels m \<le> max_levels"
  by (simp add: sk_height_def)

lemma sk_height_iff: "2 \<le> n \<Longrightarrow> i < max_levels \<Longrightarrow> 0 < m div n ^ i \<longleftrightarrow> i < sk_height n max_levels m"
  using math_log_less [of n m i] by (auto simp: sk_height_def div_greater_zero_iff)

text \<open>What \<open>Flush\<close> writes: the number of levels, then every level with its length, the highest first.\<close>

definition sk_list :: "(nat \<Rightarrow> nat \<Rightarrow> u8 list) \<Rightarrow> nat \<Rightarrow> nat \<Rightarrow> nat \<Rightarrow> u8 list" where
  "sk_list body n num_levels m = vwrite_u32 (of_nat num_levels) @
     concat (map (\<lambda>i. vwrite_u64 (of_nat (length (sk_level body n i (m div n ^ i)))) @ sk_level body n i (m div n ^ i))
       (rev [0..<num_levels]))"

lemma sk_entry_nonempty: "(\<And>j. body 0 j \<noteq> []) \<Longrightarrow> sk_entry body n i t \<noteq> []"
  by (cases i) (simp_all add: sk_entry_Suc vwrite_u64_nonempty)

lemma sk_level_empty: "(\<And>j. body 0 j \<noteq> []) \<Longrightarrow> sk_level body n i m = [] \<longleftrightarrow> m = 0"
  by (cases m) (simp_all add: sk_level_Suc sk_entry_nonempty)

lemma length_dropWhile_rev:
  assumes "L \<le> length xs" "\<And>i. i < length xs \<Longrightarrow> P (xs ! i) \<longleftrightarrow> L \<le> i"
  shows "length (dropWhile P (rev xs)) = L"
proof -
  have "\<forall>x\<in>set (rev (drop L xs)). P x" using assms by (auto simp: in_set_conv_nth)
  moreover have "rev xs = rev (drop L xs) @ rev (take L xs)" by (metis append_take_drop_id rev_append)
  ultimately have "dropWhile P (rev xs) = dropWhile P (rev (take L xs))"
    using dropWhile_append2 [of "rev (drop L xs)" P] by metis
  also have "\<dots> = rev (take L xs)"
  proof (cases L)
    case (Suc k)
    then have "take L xs = take k xs @ [xs ! k]" "\<not> P (xs ! k)" using assms by (simp_all add: take_Suc_conv_app_nth)
    then show ?thesis by simp
  qed simp
  finally show ?thesis using assms(1) by simp
qed

text \<open>A list of streams in memory that is flushed into a stream.\<close>

locale skip_streams = memory_sink ms contents ok + out: index_sink io out_contents out_ok
  for ms :: "'m mem_stream" and contents :: "'m \<Rightarrow> u8 list" and ok :: "'m \<Rightarrow> bool"
    and io :: "'o index_out" and out_contents :: "'o \<Rightarrow> u8 list" and out_ok :: "'o \<Rightarrow> bool"
begin

lemma flush_loop_law:
  assumes "\<forall>m\<in>set xs. ok m" "out_ok out"
  shows "\<exists>ys out'. sw_flush_loop ms io xs out = Some (ys, out') \<and> length ys = length xs \<and> (\<forall>m\<in>set ys. ok m) \<and> out_ok out' \<and>
    out_contents out' = out_contents out @ concat (map (\<lambda>m. vwrite_u64 (of_nat (length (contents m))) @ contents m) xs)"
  using assms
proof (induction xs arbitrary: out)
  case (Cons m xs)
  obtain m1 where m1: "out_do (mem_io ms) Flush m = Some m1" "contents m1 = contents m" "ok m1"
    using do_law [of m Flush] Cons.prems by auto
  have len: "out_pointer (mem_io ms) m1 = length (contents m)" using pointer_law [OF m1(3)] m1(2) by simp
  obtain out1 where out1: "out_do io (WriteVlong (of_nat (length (contents m)))) out = Some out1" "out_ok out1"
    "out_contents out1 = out_contents out @ vwrite_u64 (of_nat (length (contents m)))"
    using out.do_law [OF Cons.prems(2), of "WriteVlong (of_nat (length (contents m)))"] by auto
  have "concat (map op_bytes (map WriteBytes (mem_chunks ms m1))) = contents m"
    using chunks_law [OF _ m1(1)] Cons.prems m1(2) by (simp add: comp_def)
  then obtain out2 where out2: "out_run io (map WriteBytes (mem_chunks ms m1)) out1 = Some out2" "out_ok out2"
    "out_contents out2 = out_contents out1 @ contents m"
    using out.run_law [OF out1(2), of "map WriteBytes (mem_chunks ms m1)"] by auto
  obtain ys out3 where "sw_flush_loop ms io xs out2 = Some (ys, out3)" "length ys = length xs" "\<forall>m\<in>set ys. ok m" "out_ok out3"
    "out_contents out3 = out_contents out2 @ concat (map (\<lambda>m. vwrite_u64 (of_nat (length (contents m))) @ contents m) xs)"
    using Cons.IH [OF _ out2(2)] Cons.prems(1) by auto
  then show ?case using m1 len out1 out2 by simp
qed simp

lemma count_levels_law:
  assumes "sw_holds contents ok body c s" "\<forall>i < sw_max_levels s. c i = m div sw_skip_n s ^ i" "2 \<le> sw_skip_n s"
    and "\<And>j. body 0 j \<noteq> []"
  shows "sw_count_levels ms s = sk_height (sw_skip_n s) (sw_max_levels s) m"
  unfolding sw_count_levels_def
proof (rule length_dropWhile_rev)
  let ?xs = "take (sw_max_levels s) (sw_levels s)"
  have len: "length ?xs = sw_max_levels s" using assms(1) by (simp add: sw_holds_def)
  show "sk_height (sw_skip_n s) (sw_max_levels s) m \<le> length ?xs" unfolding len by (rule sk_height_le)
  show "out_pointer (mem_io ms) (?xs ! i) = 0 \<longleftrightarrow> sk_height (sw_skip_n s) (sw_max_levels s) m \<le> i" if "i < length ?xs" for i
  proof -
    have i: "i < sw_max_levels s" using that len by simp
    then have "ok (sw_levels s ! i)" "contents (sw_levels s ! i) = sk_level body (sw_skip_n s) i (m div sw_skip_n s ^ i)"
      using assms(1,2) by (auto simp: sw_holds_def)
    then have "out_pointer (mem_io ms) (?xs ! i) = 0 \<longleftrightarrow> m div sw_skip_n s ^ i = 0"
      using i pointer_law sk_level_empty [of body, OF assms(4)] by simp
    then show ?thesis using sk_height_iff [OF assms(3) i, of m] by linarith
  qed
qed

lemma flush_levels_law:
  assumes "sw_holds contents ok body c s" "\<forall>i < sw_max_levels s. c i = m div sw_skip_n s ^ i" "out_ok out"
    and L: "L \<le> sw_max_levels s"
  shows "\<exists>s' out'. sw_flush_levels ms io L s out = Some (s', out') \<and> out_ok out' \<and>
    out_contents out' = out_contents out @ sk_list body (sw_skip_n s) L m \<and>
    length (sw_levels s') = length (sw_levels s) \<and> (\<forall>m\<in>set (sw_levels s'). ok m) \<and>
    sw_max_levels s' = sw_max_levels s \<and> sw_skip_0 s' = sw_skip_0 s \<and> sw_skip_n s' = sw_skip_n s"
proof -
  have L': "L \<le> length (sw_levels s)" "\<forall>m\<in>set (sw_levels s). ok m" using assms(1) L by (auto simp: sw_holds_def)
  have lev: "take L (sw_levels s) = map (\<lambda>i. sw_levels s ! i) [0..<L]" using L' by (intro nth_equalityI) auto
  obtain out1 where out1: "out_do io (WriteVint (of_nat L)) out = Some out1" "out_ok out1"
    "out_contents out1 = out_contents out @ vwrite_u32 (of_nat L)"
    using out.do_law [OF assms(3), of "WriteVint (of_nat L)"] by auto
  obtain ys out2 where ys: "sw_flush_loop ms io (rev (take L (sw_levels s))) out1 = Some (ys, out2)" "length ys = L"
    "\<forall>m\<in>set ys. ok m" "out_ok out2" "out_contents out2 = out_contents out1 @
      concat (map (\<lambda>m. vwrite_u64 (of_nat (length (contents m))) @ contents m) (rev (take L (sw_levels s))))"
    using flush_loop_law [OF _ out1(2), of "rev (take L (sw_levels s))"] L' by (auto dest: in_set_takeD)
  have "map (\<lambda>m. vwrite_u64 (of_nat (length (contents m))) @ contents m) (rev (take L (sw_levels s))) =
    map (\<lambda>i. vwrite_u64 (of_nat (length (sk_level body (sw_skip_n s) i (m div sw_skip_n s ^ i)))) @
      sk_level body (sw_skip_n s) i (m div sw_skip_n s ^ i)) (rev [0..<L])"
    unfolding lev using assms(1,2) L by (auto simp: sw_holds_def rev_map)
  then show ?thesis using out1 ys L' by (auto simp: sw_flush_levels_def sk_list_def dest: in_set_dropD)
qed

end

section \<open>The streams of the skip writer\<close>

definition mo_stream :: "(nat \<Rightarrow> u8) \<Rightarrow> memory_output mem_stream" where
  "mo_stream garbage = \<lparr>mem_io = mo_io garbage, mem_reset = mo_reset, mem_stream_reset = mo_stream_reset,
     mem_chunks = (\<lambda>s. mf_pieces (mf_buffers (mo_file s)) (mf_len (mo_file s)))\<rparr>"

interpretation memory_levels: memory_sink "mo_stream garbage" mo_contents mo_invar
proof (unfold_locales, goal_cases)
  case (1 s x)
  then show ?case using memory.do_law [of s garbage x] by (simp add: mo_stream_def)
next
  case (2 s)
  then show ?case using memory.pointer_law [of s garbage] by (simp add: mo_stream_def)
next
  case (3 m)
  then show ?case using mo_reset_empties by (simp add: mo_stream_def)
next
  case (4 m)
  then show ?case using mo_stream_reset_empties by (simp add: mo_stream_def)
next
  case (5 m m')
  then have "m' = mo_flush m" by (simp add: mo_stream_def mo_io_def)
  then show ?case using 5(1) mo_flush_pieces [OF 5(1)] mo_flush_keeps [OF 5(1)] by (simp add: mo_stream_def)
qed

end
