(* ===== verification/PostingsWriter.thy ===== *)
theory PostingsWriter
  imports SkipWriter Bitpack Bitset
begin

text \<open>
  \<open>postings_writer\<close> of \<open>core/formats/formats_10.cpp\<close>, for segments without positions and formats without score
  blocks: a posting list becomes full blocks of document deltas and frequencies, a tail of variable width integers and, when it
  is longer than a block, a skip list. \<^term>\<open>None\<close> is an exception, a failed assertion or a failed write.
\<close>

section \<open>State\<close>

text \<open>
  \<open>version10::term_meta\<close>. \<open>tm_ext\<close> is the union of \<open>e_single_doc\<close> and \<open>e_skip_start\<close>, the former
  in the low half.
\<close>

record term_meta =
  tm_docs_count :: u32
  tm_freq :: u32
  tm_doc_start :: u64
  tm_pos_start :: u64
  tm_pos_end :: u64
  tm_pay_start :: u64
  tm_ext :: u64

definition address_invalid :: u64 where "address_invalid = - 1"

definition term_meta_new :: term_meta where
  "term_meta_new = \<lparr>tm_docs_count = 0, tm_freq = 0, tm_doc_start = 0, tm_pos_start = 0, tm_pos_end = address_invalid,
     tm_pay_start = 0, tm_ext = 0\<rparr>"

definition term_meta_clear :: "term_meta \<Rightarrow> term_meta" where
  "term_meta_clear m = m\<lparr>tm_docs_count := 0, tm_freq := 0, tm_doc_start := 0, tm_pos_start := 0, tm_pay_start := 0,
     tm_pos_end := address_invalid\<rparr>"

definition e_single_doc :: "term_meta \<Rightarrow> u32" where
  "e_single_doc m = ucast (tm_ext m)"

definition set_single_doc :: "u32 \<Rightarrow> term_meta \<Rightarrow> term_meta" where
  "set_single_doc d m = m\<lparr>tm_ext := push_bit 32 (drop_bit 32 (tm_ext m)) OR ucast d\<rparr>"

record doc_buffer =
  db_docs :: "u32 list"
  db_freqs :: "u32 list"
  db_pos :: nat
  db_skip_doc :: "u32 list"
  db_skip_ptr :: "u64 list"
  db_last :: u32
  db_block_last :: u32
  db_start :: u64
  db_end :: u64

definition kMaxSkipLevels :: nat where "kMaxSkipLevels = 9"

definition kSkipN :: nat where "kSkipN = 8"

record ('m, 'o) postings_writer =
  pw_skip :: "'m skip_writer"
  pw_last_state :: term_meta
  pw_docs :: dyn_bitset
  pw_doc_out :: 'o
  pw_doc :: doc_buffer
  pw_buf :: "u32 list"
  pw_has_freq :: bool

definition db_full :: "doc_buffer \<Rightarrow> bool" where
  "db_full d \<longleftrightarrow> db_pos d = length (db_docs d)"

definition db_empty :: "doc_buffer \<Rightarrow> bool" where
  "db_empty d \<longleftrightarrow> db_pos d = 0"

definition db_push :: "u32 \<Rightarrow> u32 \<Rightarrow> doc_buffer \<Rightarrow> doc_buffer" where
  "db_push doc freq d = d\<lparr>db_docs := (db_docs d)[db_pos d := doc], db_freqs := (db_freqs d)[db_pos d := freq],
     db_pos := db_pos d + 1, db_last := doc\<rparr>"

section \<open>Operations\<close>

definition pw_new :: "block_fns \<Rightarrow> 'o \<Rightarrow> ('m, 'o) postings_writer" where
  "pw_new bf doc_out = \<lparr>
     pw_skip = \<lparr>sw_levels = [], sw_max_levels = 0, sw_skip_0 = bf_size bf, sw_skip_n = kSkipN\<rparr>,
     pw_last_state = term_meta_new, pw_docs = bs_empty, pw_doc_out = doc_out,
     pw_doc = \<lparr>db_docs = replicate (bf_size bf) 0, db_freqs = replicate (bf_size bf) 0, db_pos = 0,
       db_skip_doc = replicate kMaxSkipLevels 0, db_skip_ptr = replicate kMaxSkipLevels 0, db_last = 0, db_block_last = 1,
       db_start = 0, db_end = 0\<rparr>,
     pw_buf = replicate (bf_size bf) 0, pw_has_freq = False\<rparr>"

text \<open>\<open>prepare\<close>, apart from the headers of the files: the skip list and the set of documents for a segment.\<close>

definition pw_prepare ::
  "'m mem_stream \<Rightarrow> 'm \<Rightarrow> u64 list \<Rightarrow> nat \<Rightarrow> ('m, 'o) postings_writer \<Rightarrow> ('m, 'o) postings_writer" where
  "pw_prepare ms new_level fresh doc_count pw =
     pw\<lparr>pw_skip := sw_prepare ms new_level kMaxSkipLevels doc_count (pw_skip pw),
        pw_docs := bs_reset_bits fresh (1 + doc_count) (pw_docs pw)\<rparr>"

definition pw_begin_field :: "bool \<Rightarrow> ('m, 'o) postings_writer \<Rightarrow> ('m, 'o) postings_writer" where
  "pw_begin_field has_freq pw =
     pw\<lparr>pw_has_freq := has_freq, pw_docs := bs_clear (pw_docs pw), pw_last_state := term_meta_clear (pw_last_state pw)\<rparr>"

definition pw_end_field :: "('m, 'o) postings_writer \<Rightarrow> u32" where
  "pw_end_field pw = of_nat (bs_count (pw_docs pw))"

definition pw_begin_block :: "('m, 'o) postings_writer \<Rightarrow> ('m, 'o) postings_writer" where
  "pw_begin_block pw = pw\<lparr>pw_last_state := term_meta_clear (pw_last_state pw)\<rparr>"

definition pw_begin_term ::
  "'m mem_stream \<Rightarrow> 'o index_out \<Rightarrow> ('m, 'o) postings_writer \<Rightarrow> ('m, 'o) postings_writer" where
  "pw_begin_term ms io pw =
     (let start = of_nat (out_pointer io (pw_doc_out pw))
      in pw\<lparr>pw_doc := (pw_doc pw)\<lparr>db_start := start, db_skip_ptr := replicate kMaxSkipLevels start, db_last := 0, db_block_last := 1\<rparr>,
            pw_skip := sw_reset ms (pw_skip pw)\<rparr>)"

text \<open>\<open>WriteSkip\<close> changes the buffer of the documents only; \<open>doc_ptr\<close> is \<open>doc_out_->file_pointer()\<close>.\<close>

definition write_skip :: "'m mem_stream \<Rightarrow> u64 \<Rightarrow> nat \<Rightarrow> doc_buffer \<times> 'm \<Rightarrow> (doc_buffer \<times> 'm) option" where
  "write_skip ms doc_ptr level = (\<lambda>(d, m). do {
     m1 \<leftarrow> out_do (mem_io ms) (WriteVint (db_block_last d)) m;
     m2 \<leftarrow> out_do (mem_io ms) (WriteVlong (doc_ptr - db_skip_ptr d ! level)) m1;
     Some (d\<lparr>db_skip_doc := (db_skip_doc d)[level := db_block_last d], db_skip_ptr := (db_skip_ptr d)[level := doc_ptr]\<rparr>, m2)
   })"

definition simd_delta_encode :: "nat \<Rightarrow> u32 list \<Rightarrow> u32 \<Rightarrow> u32 list" where
  "simd_delta_encode Step xs init = (if Step \<le> 4 then delta_encode_128 xs init else delta_encode_256 Step xs init)"

definition pw_begin_document ::
  "block_fns \<Rightarrow> 'o index_out \<Rightarrow> u32 \<Rightarrow> u32 \<Rightarrow> ('m, 'o) postings_writer \<Rightarrow> ('m, 'o) postings_writer option" where
  "pw_begin_document bf io doc freq pw =
     (if db_last (pw_doc pw) < doc then do {
        let d = db_push doc freq (pw_doc pw);
        (d1, out1) \<leftarrow> (if db_full d then do {
            let docs = simd_delta_encode (bf_lanes bf) (db_docs d) (db_block_last d);
            o1 \<leftarrow> write_block bf io docs (pw_buf pw) (pw_doc_out pw);
            o2 \<leftarrow> (if pw_has_freq pw then write_block bf io (db_freqs d) (pw_buf pw) o1 else Some o1);
            Some (d\<lparr>db_docs := docs\<rparr>, o2)
          } else Some (d, pw_doc_out pw));
        ds \<leftarrow> bs_set (unat doc) (pw_docs pw);
        Some (pw\<lparr>pw_doc := d1, pw_doc_out := out1, pw_docs := ds\<rparr>)
      } else None)"

definition pw_end_document :: "'o index_out \<Rightarrow> ('m, 'o) postings_writer \<Rightarrow> ('m, 'o) postings_writer" where
  "pw_end_document io pw =
     (let d = pw_doc pw in
      if db_full d
      then pw\<lparr>pw_doc := d\<lparr>db_block_last := db_last d, db_end := of_nat (out_pointer io (pw_doc_out pw)), db_pos := 0\<rparr>\<rparr>
      else pw)"

text \<open>The body of the loop of \<open>write\<close>, for one document: a skip entry for the block before it, then the document.\<close>

definition pw_skip_point ::
  "'m mem_stream \<Rightarrow> 'o index_out \<Rightarrow> u32 \<Rightarrow> ('m, 'o) postings_writer \<Rightarrow> ('m, 'o) postings_writer option" where
  "pw_skip_point ms io docs_count pw =
     (if db_last (pw_doc pw) \<noteq> 0 \<and> db_empty (pw_doc pw) then do {
        (d, sw) \<leftarrow> sw_skip ms (write_skip ms (of_nat (out_pointer io (pw_doc_out pw)))) (unat docs_count) (pw_doc pw, pw_skip pw);
        Some (pw\<lparr>pw_doc := d, pw_skip := sw\<rparr>)
      } else Some pw)"

definition pw_document ::
  "block_fns \<Rightarrow> 'm mem_stream \<Rightarrow> 'o index_out \<Rightarrow> u32 \<Rightarrow> u32 \<times> u32 \<Rightarrow> ('m, 'o) postings_writer \<Rightarrow> ('m, 'o) postings_writer option" where
  "pw_document bf ms io docs_count = (\<lambda>(doc, freq) pw. do {
     pw1 \<leftarrow> pw_skip_point ms io docs_count pw;
     pw2 \<leftarrow> pw_begin_document bf io doc freq pw1;
     Some (pw_end_document io pw2)
   })"

fun pw_documents ::
  "block_fns \<Rightarrow> 'm mem_stream \<Rightarrow> 'o index_out \<Rightarrow> (u32 \<times> u32) list \<Rightarrow> u32 \<Rightarrow> u32 \<Rightarrow> ('m, 'o) postings_writer \<Rightarrow>
   (u32 \<times> u32 \<times> ('m, 'o) postings_writer) option" where
  "pw_documents bf ms io [] docs_count total_freq pw = Some (docs_count, total_freq, pw)"
| "pw_documents bf ms io (p # ps) docs_count total_freq pw = do {
     pw1 \<leftarrow> pw_document bf ms io docs_count p pw;
     pw_documents bf ms io ps (docs_count + 1) (total_freq + snd p) pw1
   }"

text \<open>The remaining documents, with their frequencies or without.\<close>

fun tail_ops :: "bool \<Rightarrow> u32 \<Rightarrow> (u32 \<times> u32) list \<Rightarrow> out_op list" where
  "tail_ops has_freq prev [] = []"
| "tail_ops has_freq prev ((doc, freq) # ps) =
     (if has_freq then
        if freq = 1 then [WriteVint (shift_pack_32 (doc - prev) True)]
        else [WriteVint (shift_pack_32 (doc - prev) False), WriteVint freq]
      else [WriteVint (doc - prev)]) @ tail_ops has_freq doc ps"

definition pw_end_term ::
  "block_fns \<Rightarrow> 'm mem_stream \<Rightarrow> 'o index_out \<Rightarrow> term_meta \<Rightarrow> ('m, 'o) postings_writer \<Rightarrow> (term_meta \<times> ('m, 'o) postings_writer) option" where
  "pw_end_term bf ms io meta pw =
     (if tm_docs_count meta = 0 then Some (meta, pw)
      else do {
        let d = pw_doc pw;
        let has_skip_list = sw_skip_0 (pw_skip pw) < unat (tm_docs_count meta);
        (meta1, out1) \<leftarrow> (if tm_docs_count meta = 1 then Some (set_single_doc (db_docs d ! 0 - 1) meta, pw_doc_out pw)
           else do {
             o1 \<leftarrow> out_run io (tail_ops (pw_has_freq pw) (db_block_last d) (zip (take (db_pos d) (db_docs d)) (take (db_pos d) (db_freqs d))))
                     (pw_doc_out pw);
             Some (meta, o1)
           });
        let meta2 = meta1\<lparr>tm_pos_end := address_invalid\<rparr>;
        (meta3, sw, out2) \<leftarrow> (if has_skip_list then do {
             let skip_start = of_nat (out_pointer io out1) - db_start d;
             let num_levels = sw_count_levels ms (pw_skip pw);
             (sw, o2) \<leftarrow> sw_flush_levels ms io num_levels (pw_skip pw) out1;
             Some (meta2\<lparr>tm_ext := skip_start\<rparr>, sw, o2)
           } else Some (meta2, pw_skip pw, out1));
        Some (meta3\<lparr>tm_doc_start := db_start d\<rparr>, pw\<lparr>pw_skip := sw, pw_doc_out := out2, pw_doc := d\<lparr>db_pos := 0, db_last := 0\<rparr>\<rparr>)
      })"

text \<open>\<open>write\<close>: the documents that the iterator delivers, with their frequencies, 0 when it has none.\<close>

definition pw_write ::
  "block_fns \<Rightarrow> 'm mem_stream \<Rightarrow> 'o index_out \<Rightarrow> (u32 \<times> u32) list \<Rightarrow> term_meta \<Rightarrow> ('m, 'o) postings_writer \<Rightarrow>
   (term_meta \<times> ('m, 'o) postings_writer) option" where
  "pw_write bf ms io ps meta pw = do {
     (docs_count, total_freq, pw1) \<leftarrow> pw_documents bf ms io ps 0 0 (pw_begin_term ms io pw);
     pw_end_term bf ms io (meta\<lparr>tm_docs_count := docs_count, tm_freq := total_freq\<rparr>) pw1
   }"

text \<open>\<open>encode\<close>: the calls on the stream of the terms, and the new last state.\<close>

definition encode_ops :: "nat \<Rightarrow> term_meta \<Rightarrow> term_meta \<Rightarrow> out_op list" where
  "encode_ops skip_0 last_state meta =
     [WriteVint (tm_docs_count meta)] @
     (if tm_freq meta \<noteq> 0 then [WriteVint (tm_freq meta - tm_docs_count meta)] else []) @
     [WriteVlong (tm_doc_start meta - tm_doc_start last_state)] @
     (if tm_docs_count meta = 1 then [WriteVint (e_single_doc meta)]
      else if skip_0 < unat (tm_docs_count meta) then [WriteVlong (tm_ext meta)] else [])"

definition pw_encode ::
  "'t index_out \<Rightarrow> term_meta \<Rightarrow> ('m, 'o) postings_writer \<times> 't \<Rightarrow> (('m, 'o) postings_writer \<times> 't) option" where
  "pw_encode tio meta = (\<lambda>(pw, t). do {
     t1 \<leftarrow> out_run tio (encode_ops (sw_skip_0 (pw_skip pw)) (pw_last_state pw) meta) t;
     Some (pw\<lparr>pw_last_state := meta\<rparr>, t1)
   })"

section \<open>The bytes of a posting list\<close>

text \<open>The document before position \<open>k\<close> of the list, \<open>doc_limits::min()\<close> at the start.\<close>

definition pl_prev :: "(u32 \<times> u32) list \<Rightarrow> nat \<Rightarrow> u32" where
  "pl_prev ps k = (if k = 0 then 1 else fst (ps ! (k - 1)))"

definition pl_block :: "nat \<Rightarrow> (u32 \<times> u32) list \<Rightarrow> nat \<Rightarrow> (u32 \<times> u32) list" where
  "pl_block B ps q = take B (drop (B * q) ps)"

definition pl_block_bytes :: "block_fns \<Rightarrow> bool \<Rightarrow> (u32 \<times> u32) list \<Rightarrow> nat \<Rightarrow> u8 list" where
  "pl_block_bytes bf has_freq ps q =
     block_bytes bf (delta_encode_from (pl_prev ps (bf_size bf * q)) (map fst (pl_block (bf_size bf) ps q))) @
     (if has_freq then block_bytes bf (map snd (pl_block (bf_size bf) ps q)) else [])"

definition pl_blocks :: "block_fns \<Rightarrow> bool \<Rightarrow> (u32 \<times> u32) list \<Rightarrow> nat \<Rightarrow> u8 list" where
  "pl_blocks bf has_freq ps q = concat (map (pl_block_bytes bf has_freq ps) [0..<q])"

definition pl_tail_bytes :: "block_fns \<Rightarrow> bool \<Rightarrow> (u32 \<times> u32) list \<Rightarrow> u8 list" where
  "pl_tail_bytes bf has_freq ps =
     (let q = length ps div bf_size bf
      in concat (map op_bytes (tail_ops has_freq (pl_prev ps (bf_size bf * q)) (drop (bf_size bf * q) ps))))"

text \<open>The entry \<open>j\<close> of the skip list on a level: the last document of block \<open>j\<close>, and the distance to the entry before.\<close>

definition pl_skip_body :: "block_fns \<Rightarrow> bool \<Rightarrow> (u32 \<times> u32) list \<Rightarrow> nat \<Rightarrow> nat \<Rightarrow> u8 list" where
  "pl_skip_body bf has_freq ps i j = vwrite_u32 (pl_prev ps (bf_size bf * j)) @
     vwrite_u64 (of_nat (length (pl_blocks bf has_freq ps j) - length (pl_blocks bf has_freq ps (j - kSkipN ^ i))))"

definition pl_skip_bytes :: "block_fns \<Rightarrow> bool \<Rightarrow> nat \<Rightarrow> (u32 \<times> u32) list \<Rightarrow> u8 list" where
  "pl_skip_bytes bf has_freq max_levels ps =
     (if bf_size bf < length ps then
        let m = (length ps - 1) div bf_size bf
        in sk_list (pl_skip_body bf has_freq ps) kSkipN (sk_height kSkipN max_levels m) m
      else [])"

text \<open>A list of a single document is kept in the term meta data.\<close>

definition pl_bytes :: "block_fns \<Rightarrow> bool \<Rightarrow> nat \<Rightarrow> (u32 \<times> u32) list \<Rightarrow> u8 list" where
  "pl_bytes bf has_freq max_levels ps =
     (if length ps = 1 then [] else pl_blocks bf has_freq ps (length ps div bf_size bf) @ pl_tail_bytes bf has_freq ps @
        pl_skip_bytes bf has_freq max_levels ps)"

lemma pl_blocks_Suc: "pl_blocks bf hf ps (Suc q) = pl_blocks bf hf ps q @ pl_block_bytes bf hf ps q"
  by (simp add: pl_blocks_def)

lemma pl_blocks_mono: "p \<le> q \<Longrightarrow> length (pl_blocks bf hf ps p) \<le> length (pl_blocks bf hf ps q)"
  by (induction q rule: nat_induct) (auto simp: pl_blocks_Suc le_Suc_eq)

section \<open>What the writer relies on\<close>

locale postings_streams = skip_streams ms contents ok io out_contents out_ok + block_packer bf
  for ms :: "'m mem_stream" and contents :: "'m \<Rightarrow> u8 list" and ok :: "'m \<Rightarrow> bool"
    and io :: "'o index_out" and out_contents :: "'o \<Rightarrow> u8 list" and out_ok :: "'o \<Rightarrow> bool" and bf :: block_fns +
  assumes lanes_law: "0 < bf_lanes bf" "bf_size bf mod bf_lanes bf = 0"

text \<open>The number of levels for a segment of \<open>n\<close> documents.\<close>

abbreviation pw_levels :: "block_fns \<Rightarrow> nat \<Rightarrow> nat" where
  "pw_levels bf n \<equiv> min kMaxSkipLevels (count_max_levels (bf_size bf) kSkipN n)"

text \<open>
  The state of the writer between two terms of a segment with documents below \<open>n\<close>.
\<close>

definition pw_ready ::
  "('m \<Rightarrow> bool) \<Rightarrow> ('o \<Rightarrow> bool) \<Rightarrow> block_fns \<Rightarrow> nat \<Rightarrow> ('m, 'o) postings_writer \<Rightarrow> bool" where
  "pw_ready ok out_ok bf n pw \<longleftrightarrow>
     out_ok (pw_doc_out pw) \<and> (\<forall>m\<in>set (sw_levels (pw_skip pw)). ok m) \<and>
     sw_max_levels (pw_skip pw) \<le> length (sw_levels (pw_skip pw)) \<and>
     sw_max_levels (pw_skip pw) = pw_levels bf n \<and>
     sw_skip_0 (pw_skip pw) = bf_size bf \<and> sw_skip_n (pw_skip pw) = kSkipN \<and>
     bs_invar (pw_docs pw) \<and> bs_bits (pw_docs pw) = Suc n \<and>
     length (db_docs (pw_doc pw)) = bf_size bf \<and> length (db_freqs (pw_doc pw)) = bf_size bf \<and>
     db_pos (pw_doc pw) = 0 \<and> length (pw_buf pw) = bf_size bf"

text \<open>The buffer after \<open>k\<close> documents of the list.\<close>

definition buf_at :: "nat \<Rightarrow> (u32 \<times> u32) list \<Rightarrow> nat \<Rightarrow> doc_buffer \<Rightarrow> bool" where
  "buf_at B ps k d \<longleftrightarrow> length (db_docs d) = B \<and> length (db_freqs d) = B \<and> db_pos d = k mod B \<and>
     take (k mod B) (db_docs d) = map fst (drop (B * (k div B)) (take k ps)) \<and>
     take (k mod B) (db_freqs d) = map snd (drop (B * (k div B)) (take k ps)) \<and>
     db_last d = (if k = 0 then 0 else fst (ps ! (k - 1))) \<and> db_block_last d = pl_prev ps (B * (k div B))"

text \<open>The skip list with \<open>m\<close> entries; \<open>C\<close> is the content of the file at the start.\<close>

definition skip_at ::
  "('m \<Rightarrow> u8 list) \<Rightarrow> ('m \<Rightarrow> bool) \<Rightarrow> block_fns \<Rightarrow> bool \<Rightarrow> (u32 \<times> u32) list \<Rightarrow> u8 list \<Rightarrow> nat \<Rightarrow> nat \<Rightarrow> doc_buffer \<Rightarrow> 'm skip_writer \<Rightarrow> bool" where
  "skip_at contents ok bf hf ps C max_levels m d sw \<longleftrightarrow>
     sw_holds contents ok (pl_skip_body bf hf ps) (\<lambda>i. m div kSkipN ^ i) sw \<and>
     sw_max_levels sw = max_levels \<and> sw_skip_0 sw = bf_size bf \<and> sw_skip_n sw = kSkipN \<and>
     length (db_skip_ptr d) = kMaxSkipLevels \<and>
     (\<forall>i < max_levels. db_skip_ptr d ! i = of_nat (length C + length (pl_blocks bf hf ps (kSkipN ^ i * (m div kSkipN ^ i)))))"

text \<open>
  The writer after \<open>k\<close> documents, of which \<open>m\<close> blocks are in the skip list; \<open>E\<close> is the set of documents at the start.
\<close>

definition pw_running ::
  "('m \<Rightarrow> u8 list) \<Rightarrow> ('m \<Rightarrow> bool) \<Rightarrow> ('o \<Rightarrow> u8 list) \<Rightarrow> ('o \<Rightarrow> bool) \<Rightarrow> block_fns \<Rightarrow> nat \<Rightarrow> bool \<Rightarrow> u8 list \<Rightarrow> nat set \<Rightarrow>
   (u32 \<times> u32) list \<Rightarrow> nat \<Rightarrow> nat \<Rightarrow> ('m, 'o) postings_writer \<Rightarrow> bool" where
  "pw_running contents ok out_contents out_ok bf n hf C E ps k m pw \<longleftrightarrow>
     out_ok (pw_doc_out pw) \<and> out_contents (pw_doc_out pw) = C @ pl_blocks bf hf ps (k div bf_size bf) \<and>
     skip_at contents ok bf hf ps C (pw_levels bf n) m (pw_doc pw) (pw_skip pw) \<and>
     buf_at (bf_size bf) ps k (pw_doc pw) \<and> db_start (pw_doc pw) = of_nat (length C) \<and>
     bs_invar (pw_docs pw) \<and> bs_bits (pw_docs pw) = Suc n \<and> bs_elems (pw_docs pw) = E \<union> (unat \<circ> fst) ` set (take k ps) \<and>
     pw_has_freq pw = hf \<and> length (pw_buf pw) = bf_size bf"

section \<open>The buffer\<close>

lemma buf_at_skip [simp]:
  "buf_at B ps k (d\<lparr>db_skip_doc := sd, db_skip_ptr := sp\<rparr>) = buf_at B ps k d"
  by (simp add: buf_at_def)

lemma buf_cur_Suc:
  assumes "k < length ps"
  shows "drop (B * (k div B)) (take (Suc k) ps) = drop (B * (k div B)) (take k ps) @ [ps ! k]"
  using assms times_div_less_eq_dividend [of B k] by (simp add: take_Suc_conv_app_nth)

lemma buf_at_push:
  assumes at: "buf_at B ps k d" and k: "k < length ps" and B: "0 < B" and p: "ps ! k = (doc, freq)"
  shows "Suc (k mod B) < B \<Longrightarrow> buf_at B ps (Suc k) (db_push doc freq d) \<and> \<not> db_full (db_push doc freq d)"
    and "\<not> Suc (k mod B) < B \<Longrightarrow> db_full (db_push doc freq d) \<and>
      db_docs (db_push doc freq d) = map fst (pl_block B ps (k div B)) \<and>
      db_freqs (db_push doc freq d) = map snd (pl_block B ps (k div B)) \<and>
      (length xs = B \<longrightarrow> buf_at B ps (Suc k)
        ((db_push doc freq d)\<lparr>db_docs := xs, db_block_last := doc, db_end := e, db_pos := 0\<rparr>))"
proof -
  let ?d = "db_push doc freq d" and ?cur = "drop (B * (k div B)) (take k ps)"
  have a: "length (db_docs d) = B" "length (db_freqs d) = B" "db_pos d = k mod B" "k mod B < B"
    "take (k mod B) (db_docs d) = map fst ?cur" "take (k mod B) (db_freqs d) = map snd ?cur"
    "db_block_last d = pl_prev ps (B * (k div B))"
    using at B by (auto simp: buf_at_def)
  have tk: "take (Suc (k mod B)) (db_docs ?d) = map fst (?cur @ [ps ! k])" "take (Suc (k mod B)) (db_freqs ?d) = map snd (?cur @ [ps ! k])"
    using a p by (simp_all add: db_push_def take_Suc_conv_app_nth)
  note cur = buf_cur_Suc [OF k, of B, symmetric]
  show "buf_at B ps (Suc k) ?d \<and> \<not> db_full ?d" if less: "Suc (k mod B) < B"
  proof -
    have s: "Suc k mod B = Suc (k mod B)" "Suc k div B = k div B" using less by (simp_all add: mod_Suc div_Suc)
    show ?thesis using tk a p less unfolding buf_at_def s cur by (simp add: db_push_def db_full_def)
  qed
  show "db_full ?d \<and> db_docs ?d = map fst (pl_block B ps (k div B)) \<and> db_freqs ?d = map snd (pl_block B ps (k div B)) \<and>
    (length xs = B \<longrightarrow> buf_at B ps (Suc k) (?d\<lparr>db_docs := xs, db_block_last := doc, db_end := e, db_pos := 0\<rparr>))"
    if "\<not> Suc (k mod B) < B"
  proof -
    have s: "Suc (k mod B) = B" using that a(4) by simp
    then have s': "Suc k mod B = 0" "Suc k div B = Suc (k div B)" by (simp_all add: mod_Suc div_Suc)
    have "B * (k div B) + B = Suc k" using s by (metis add.commute add_Suc_right div_mult_mod_eq mult.commute)
    then have blk: "pl_block B ps (k div B) = ?cur @ [ps ! k]" unfolding pl_block_def cur by (simp add: take_drop add.commute)
    have "db_docs ?d = map fst (?cur @ [ps ! k])" "db_freqs ?d = map snd (?cur @ [ps ! k])"
      using tk a unfolding s by (simp_all add: db_push_def)
    moreover have "db_full ?d" using a s by (simp add: db_push_def db_full_def)
    moreover have "buf_at B ps (Suc k) (?d\<lparr>db_docs := xs, db_block_last := doc, db_end := e, db_pos := 0\<rparr>)" if "length xs = B"
      using that a p \<open>B * (k div B) + B = Suc k\<close> unfolding buf_at_def s'
      by (simp add: db_push_def pl_prev_def add.commute)
    ultimately show ?thesis unfolding blk by blast
  qed
qed

section \<open>The skip list\<close>

context postings_streams
begin

lemma skip_step:
  assumes at: "skip_at contents ok bf hf ps C L (j - 1) d sw" and j: "1 \<le> j" and L: "1 \<le> L" "L \<le> kMaxSkipLevels"
    and last: "db_block_last d = pl_prev ps (bf_size bf * j)"
    and ptr: "ptr = of_nat (length C + length (pl_blocks bf hf ps j))"
  shows "\<exists>sd sp sw'. sw_skip ms (write_skip ms ptr) (bf_size bf * j) (d, sw) = Some (d\<lparr>db_skip_doc := sd, db_skip_ptr := sp\<rparr>, sw') \<and>
    skip_at contents ok bf hf ps C L j (d\<lparr>db_skip_doc := sd, db_skip_ptr := sp\<rparr>) sw'"
proof -
  let ?off = "\<lambda>t. of_nat (length C + length (pl_blocks bf hf ps t)) :: u64"
  let ?body = "pl_skip_body bf hf ps"
  define I where "I w c \<longleftrightarrow> (\<exists>sd sp. w = d\<lparr>db_skip_doc := sd, db_skip_ptr := sp\<rparr> \<and> length sp = kMaxSkipLevels \<and>
    (\<forall>i < L. sp ! i = ?off (kSkipN ^ i * c i)))" for w and c :: "nat \<Rightarrow> nat"
  have sw: "sw_holds contents ok ?body (\<lambda>i. (j - 1) div kSkipN ^ i) sw" "sw_max_levels sw = L" "sw_skip_0 sw = bf_size bf"
    "sw_skip_n sw = kSkipN" using at by (auto simp: skip_at_def)
  have cb: "skip_callback contents ok ?body (sw_skip_n sw) (sw_max_levels sw) I j (write_skip ms ptr)"
    unfolding skip_callback_def
  proof (intro allI impI, elim conjE)
    fix i w m c assume i: "i < sw_max_levels sw" and w: "I w c" and m: "ok m" and ij: "sw_skip_n sw ^ i * (c i + 1) = j"
    obtain sd sp where sp: "w = d\<lparr>db_skip_doc := sd, db_skip_ptr := sp\<rparr>" "length sp = kMaxSkipLevels"
      "\<forall>i < L. sp ! i = ?off (kSkipN ^ i * c i)" using w by (auto simp: I_def)
    have ij': "kSkipN ^ i * c i = j - kSkipN ^ i" "kSkipN ^ i \<le> j" "kSkipN ^ i * (c i + 1) = j" using ij sw(4) by (auto simp: algebra_simps)
    have "ptr - sp ! i = of_nat (length (pl_blocks bf hf ps j) - length (pl_blocks bf hf ps (j - kSkipN ^ i)))"
      using sp(3) i sw(2) ij' pl_blocks_mono [of "j - kSkipN ^ i" j bf hf ps] by (simp add: ptr of_nat_diff)
    then have body: "?body i j = vwrite_u32 (db_block_last w) @ vwrite_u64 (ptr - db_skip_ptr w ! i)"
      using sp(1) last by (simp add: pl_skip_body_def)
    obtain m1 where m1: "out_do (mem_io ms) (WriteVint (db_block_last w)) m = Some m1"
      "contents m1 = contents m @ vwrite_u32 (db_block_last w)" "ok m1"
      using do_law [OF m, of "WriteVint (db_block_last w)"] by auto
    obtain m2 where m2: "out_do (mem_io ms) (WriteVlong (ptr - db_skip_ptr w ! i)) m1 = Some m2"
      "contents m2 = contents m1 @ vwrite_u64 (ptr - db_skip_ptr w ! i)" "ok m2"
      using do_law [OF m1(3), of "WriteVlong (ptr - db_skip_ptr w ! i)"] by auto
    let ?w = "w\<lparr>db_skip_doc := (db_skip_doc w)[i := db_block_last w], db_skip_ptr := (db_skip_ptr w)[i := ptr]\<rparr>"
    have "I ?w (c(i := c i + 1))"
      unfolding I_def using sp ij'(3) sw(2) i L ptr
      by (intro exI [of _ "sd[i := db_block_last d]"] exI [of _ "sp[i := ptr]"]) (auto simp: nth_list_update)
    then show "\<exists>w' m'. write_skip ms ptr i (w, m) = Some (w', m') \<and> contents m' = contents m @ ?body i j \<and> ok m' \<and> I w' (c(i := c i + 1))"
      using m1 m2 body by (simp add: write_skip_def)
  qed
  have I0: "I d (\<lambda>i. (j - 1) div kSkipN ^ i)"
    unfolding I_def using at by (intro exI [of _ "db_skip_doc d"] exI [of _ "db_skip_ptr d"]) (auto simp: skip_at_def)
  have side: "2 \<le> sw_skip_n sw" "0 < sw_skip_0 sw" "1 \<le> sw_max_levels sw"
    "\<forall>k. (j - 1) div kSkipN ^ k = (j - 1) div sw_skip_n sw ^ k"
    using sw(2-4) size_law(2) L by (simp_all add: kSkipN_def)
  obtain w' s' c' where r: "sw_skip ms (write_skip ms ptr) (sw_skip_0 sw * j) (d, sw) = Some (w', s')"
    "sw_holds contents ok ?body c' s'" "I w' c'" "sw_skip_n s' = sw_skip_n sw" "sw_skip_0 s' = sw_skip_0 sw"
    "sw_max_levels s' = sw_max_levels sw" "\<forall>k < sw_max_levels sw. c' k = j div sw_skip_n sw ^ k"
    using sw_skip_correct [where I = I and c = "\<lambda>i. (j - 1) div kSkipN ^ i" and w = d, OF sw(1) cb I0 j side]
    by (elim exE conjE) (rule that)
  obtain sd sp where w': "w' = d\<lparr>db_skip_doc := sd, db_skip_ptr := sp\<rparr>" "length sp = kMaxSkipLevels"
    "\<forall>i < L. sp ! i = ?off (kSkipN ^ i * c' i)" using r(3) by (auto simp: I_def)
  have "sw_holds contents ok ?body (\<lambda>i. j div kSkipN ^ i) s'" using r(2,4,6,7) sw(4) by (simp add: sw_holds_def)
  then have "skip_at contents ok bf hf ps C L j w' s'" using w' r(4-7) sw by (simp add: skip_at_def)
  then show ?thesis using r(1) w'(1) sw(3) by auto
qed

lemma simd_delta_encode_eq: "length xs = bf_size bf \<Longrightarrow> simd_delta_encode (bf_lanes bf) xs init = delta_encode_from init xs"
proof -
  assume len: "length xs = bf_size bf"
  have "(4 :: nat) dvd 32" "32 dvd bf_size bf" using size_law(1) by auto
  then have "length xs mod 4 = 0" using len dvd_trans by (metis dvd_eq_mod_eq_0)
  moreover have "xs \<noteq> []" using len size_law(2) by auto
  ultimately show ?thesis
    using delta_encode_128_correct [of xs init] delta_encode_256_correct [of "bf_lanes bf" xs init] lanes_law len
    by (simp add: simd_delta_encode_def)
qed

lemma block_write_step:
  assumes "out_ok out" "length xs = bf_size bf" "length fs = bf_size bf" "length buf = bf_size bf"
  shows "\<exists>o1 o2. write_block bf io (simd_delta_encode (bf_lanes bf) xs p) buf out = Some o1 \<and>
    (if hf then write_block bf io fs buf o1 else Some o1) = Some o2 \<and> out_ok o2 \<and>
    out_contents o2 = out_contents out @ block_bytes bf (delta_encode_from p xs) @ (if hf then block_bytes bf fs else [])"
proof -
  obtain o1 where o1: "write_block bf io (simd_delta_encode (bf_lanes bf) xs p) buf out = Some o1"
    "out_contents o1 = out_contents out @ block_bytes bf (delta_encode_from p xs)" "out_ok o1"
    using write_block_appends [OF out.index_sink_axioms assms(1), of "delta_encode_from p xs" buf] assms(2,4)
      simd_delta_encode_eq [OF assms(2)] by auto
  obtain o2 where "write_block bf io fs buf o1 = Some o2" "out_contents o2 = out_contents o1 @ block_bytes bf fs" "out_ok o2"
    using write_block_appends [OF out.index_sink_axioms o1(3), of fs buf] assms(3,4) by auto
  then show ?thesis using o1 by (cases hf) auto
qed

end

section \<open>One document\<close>

text \<open>Documents in increasing order, valid and not above the number of documents of the segment.\<close>

definition pl_input :: "nat \<Rightarrow> (u32 \<times> u32) list \<Rightarrow> bool" where
  "pl_input n ps \<longleftrightarrow> sorted_wrt (<) (map fst ps) \<and> (\<forall>p\<in>set ps. 0 < fst p \<and> unat (fst p) \<le> n) \<and> n < 2 ^ 32 - 1"

lemma pl_inputD:
  assumes "pl_input n ps"
  shows "k < length ps \<Longrightarrow> 0 < fst (ps ! k) \<and> unat (fst (ps ! k)) \<le> n"
    and "i < k \<Longrightarrow> k < length ps \<Longrightarrow> fst (ps ! i) < fst (ps ! k)"
    and "length ps \<le> n" "length ps < 2 ^ 32"
proof -
  show "k < length ps \<Longrightarrow> 0 < fst (ps ! k) \<and> unat (fst (ps ! k)) \<le> n" for k using assms by (simp add: pl_input_def)
  show less: "i < k \<Longrightarrow> k < length ps \<Longrightarrow> fst (ps ! i) < fst (ps ! k)" for i k
    using assms sorted_wrt_nth_less [of "(<)" "map fst ps" i k] by (simp add: pl_input_def)
  have "inj_on (\<lambda>k. unat (fst (ps ! k))) {..<length ps}"
    using less by (intro inj_onI) (metis lessThan_iff linorder_neqE_nat order.irrefl word_unat_eq_iff)
  moreover have "(\<lambda>k. unat (fst (ps ! k))) ` {..<length ps} \<subseteq> {1..n}"
    using assms nth_mem by (fastforce simp: pl_input_def word_less_nat_alt Suc_le_eq)
  ultimately have "card {..<length ps} \<le> card {1..n}" by (intro card_inj_on_le) auto
  then show len: "length ps \<le> n" by simp
  show "length ps < 2 ^ 32" using len assms by (simp add: pl_input_def)
qed

lemma db_last_less: "pl_input n ps \<Longrightarrow> buf_at B ps k d \<Longrightarrow> k < length ps \<Longrightarrow> db_last d < fst (ps ! k)"
  using pl_inputD(1) [of n ps k] pl_inputD(2) [of n ps "k - 1" k] by (auto simp: buf_at_def)

lemma bs_set_step:
  "bs_invar b \<Longrightarrow> i < bs_bits b \<Longrightarrow> \<exists>b'. bs_set i b = Some b' \<and> bs_bits b' = bs_bits b \<and> bs_invar b' \<and> bs_elems b' = insert i (bs_elems b)"
  using bs_update_correct [of b i set_bit_w True, OF _ _ bit_set_bit_w] by (simp add: bs_set_def)

lemma skip_at_buffer:
  "db_skip_ptr d' = db_skip_ptr d \<Longrightarrow> skip_at contents ok bf hf ps C L m d' sw = skip_at contents ok bf hf ps C L m d sw"
  by (simp add: skip_at_def)

context postings_streams
begin

lemma begin_end_document:
  assumes run: "pw_running contents ok out_contents out_ok bf n hf C E ps k m pw" and inp: "pl_input n ps"
    and k: "k < length ps" and p: "ps ! k = (doc, freq)"
  shows "\<exists>pw1. pw_begin_document bf io doc freq pw = Some pw1 \<and>
    pw_running contents ok out_contents out_ok bf n hf C E ps (Suc k) m (pw_end_document io pw1) \<and>
    pw_last_state (pw_end_document io pw1) = pw_last_state pw"
proof -
  let ?B = "bf_size bf" and ?L = "pw_levels bf n"
  let ?d = "db_push doc freq (pw_doc pw)"
  have r: "out_ok (pw_doc_out pw)" "out_contents (pw_doc_out pw) = C @ pl_blocks bf hf ps (k div ?B)"
    "skip_at contents ok bf hf ps C ?L m (pw_doc pw) (pw_skip pw)" "buf_at ?B ps k (pw_doc pw)"
    "db_start (pw_doc pw) = of_nat (length C)" "bs_invar (pw_docs pw)" "bs_bits (pw_docs pw) = Suc n"
    "bs_elems (pw_docs pw) = E \<union> (unat \<circ> fst) ` set (take k ps)" "pw_has_freq pw = hf" "length (pw_buf pw) = ?B"
    using run by (auto simp: pw_running_def)
  have less: "db_last (pw_doc pw) < doc" "unat doc \<le> n" using db_last_less [OF inp r(4) k] pl_inputD(1) [OF inp k] p by auto
  obtain ds where ds: "bs_set (unat doc) (pw_docs pw) = Some ds" "bs_bits ds = Suc n" "bs_invar ds"
    "bs_elems ds = insert (unat doc) (bs_elems (pw_docs pw))"
    using bs_set_step [OF r(6), of "unat doc"] less(2) r(7) by auto
  have el: "bs_elems ds = E \<union> (unat \<circ> fst) ` set (take (Suc k) ps)"
    using ds(4) r(8) k p by (auto simp: take_Suc_conv_app_nth)
  note push = buf_at_push [OF r(4) k size_law(2) p]
  have same: "db_skip_ptr ?d = db_skip_ptr (pw_doc pw)" "db_start ?d = db_start (pw_doc pw)" "db_last ?d = doc" "db_pos ?d = Suc (k mod ?B)"
    "db_block_last ?d = pl_prev ps (?B * (k div ?B))"
    using r(4) by (auto simp: db_push_def buf_at_def)
  show ?thesis
  proof (cases "Suc (k mod ?B) < ?B")
    case True
    then have b: "buf_at ?B ps (Suc k) ?d" "\<not> db_full ?d" "Suc k div ?B = k div ?B" using push(1) by (auto simp: div_Suc mod_Suc)
    then have "pw_begin_document bf io doc freq pw = Some (pw\<lparr>pw_doc := ?d, pw_doc_out := pw_doc_out pw, pw_docs := ds\<rparr>)"
      using less(1) ds(1) by (simp add: pw_begin_document_def Let_def)
    then show ?thesis using b r ds el same skip_at_buffer [OF same(1), of contents ok]
      by (simp add: pw_running_def pw_end_document_def Let_def)
  next
    case False
    note full = push(2) [OF False]
    have s: "Suc k div ?B = Suc (k div ?B)" using False size_law(2) by (simp add: div_Suc mod_Suc) (metis Suc_lessI mod_less_divisor)
    have len: "length (db_docs ?d) = ?B" "length (db_freqs ?d) = ?B" using r(4) by (auto simp: db_push_def buf_at_def)
    obtain o1 o2 where w: "write_block bf io (simd_delta_encode (bf_lanes bf) (db_docs ?d) (db_block_last ?d)) (pw_buf pw) (pw_doc_out pw) = Some o1"
      "(if hf then write_block bf io (db_freqs ?d) (pw_buf pw) o1 else Some o1) = Some o2" "out_ok o2"
      "out_contents o2 = out_contents (pw_doc_out pw) @ block_bytes bf (delta_encode_from (db_block_last ?d) (db_docs ?d)) @
        (if hf then block_bytes bf (db_freqs ?d) else [])"
      using block_write_step [OF r(1) len r(10), of "db_block_last ?d" hf] by blast
    have oc: "out_contents o2 = C @ pl_blocks bf hf ps (Suc k div ?B)"
      using w(4) r(2) full same(5) unfolding s by (simp add: pl_blocks_Suc pl_block_bytes_def)
    let ?xs = "simd_delta_encode (bf_lanes bf) (db_docs ?d) (db_block_last ?d)"
    have lx: "length ?xs = ?B" using simd_delta_encode_eq [OF len(1)] len(1) by simp
    let ?d2 = "?d\<lparr>db_docs := ?xs\<rparr>"
    have beg: "pw_begin_document bf io doc freq pw = Some (pw\<lparr>pw_doc := ?d2, pw_doc_out := o2, pw_docs := ds\<rparr>)"
      using less(1) ds(1) w(1,2) r(9) full by (auto simp: pw_begin_document_def Let_def)
    let ?d3 = "?d\<lparr>db_docs := ?xs, db_block_last := doc, db_end := of_nat (out_pointer io o2), db_pos := 0\<rparr>"
    have "db_full ?d2" using same(4) lx False size_law(2) by (auto simp: db_full_def) (metis Suc_lessI mod_less_divisor)
    then have en: "pw_end_document io (pw\<lparr>pw_doc := ?d2, pw_doc_out := o2, pw_docs := ds\<rparr>) = pw\<lparr>pw_doc := ?d3, pw_doc_out := o2, pw_docs := ds\<rparr>"
      using same(3) by (simp add: pw_end_document_def Let_def)
    have "buf_at ?B ps (Suc k) ?d3" using full lx by blast
    moreover have "skip_at contents ok bf hf ps C ?L m ?d3 (pw_skip pw)" using r(3) skip_at_buffer [of ?d3 "pw_doc pw" contents ok] same(1) by simp
    ultimately show ?thesis using beg en w(3) oc r(5,9,10) ds(2,3) el same(2) by (simp add: pw_running_def)
  qed
qed

lemma skip_list_step:
  assumes run: "pw_running contents ok out_contents out_ok bf n hf C E ps k ((k - 1) div bf_size bf) pw"
    and inp: "pl_input n ps" and k: "k < length ps"
  shows "\<exists>pw1. pw_skip_point ms io (of_nat k) pw = Some pw1 \<and>
    pw_running contents ok out_contents out_ok bf n hf C E ps k (k div bf_size bf) pw1 \<and> pw_last_state pw1 = pw_last_state pw"
proof -
  let ?B = "bf_size bf" and ?L = "pw_levels bf n"
  have r: "out_ok (pw_doc_out pw)" "out_contents (pw_doc_out pw) = C @ pl_blocks bf hf ps (k div ?B)"
    "skip_at contents ok bf hf ps C ?L ((k - 1) div ?B) (pw_doc pw) (pw_skip pw)" "buf_at ?B ps k (pw_doc pw)"
    using run by (auto simp: pw_running_def)
  have guard: "db_last (pw_doc pw) \<noteq> 0 \<and> db_empty (pw_doc pw) \<longleftrightarrow> 0 < k \<and> k mod ?B = 0"
  proof -
    have "fst (ps ! (k - 1)) \<noteq> 0" if "0 < k"
      using pl_inputD(1) [OF inp less_imp_diff_less [OF k, of 1]] by (metis word_less_nat_alt not_less_iff_gr_or_eq)
    then show ?thesis using r(4) by (auto simp: buf_at_def db_empty_def)
  qed
  have uk: "unat (of_nat k :: u32) = k" unfolding unat_of_nat using k pl_inputD(4) [OF inp] by (intro mod_less) simp
  show ?thesis
  proof (cases "0 < k \<and> k mod ?B = 0")
    case False
    then have "(k - 1) div ?B = k div ?B"
      using pred_div(2) [of k ?B] by (cases "k = 0") (auto simp: dvd_eq_mod_eq_0)
    then show ?thesis using False run guard by (auto simp: pw_skip_point_def)
  next
    case True
    define j where "j = k div ?B"
    have j: "k = ?B * j" "1 \<le> j" using True by (auto simp: j_def Suc_le_eq intro: Nat.gr0I)
    then have jm: "(k - 1) div ?B = j - 1" using pred_div(1) [of k ?B] True by (simp add: j_def dvd_eq_mod_eq_0)
    have "?B < n" using j k pl_inputD(3) [OF inp] by (cases j) auto
    then have L: "1 \<le> ?L" "?L \<le> kMaxSkipLevels" by (simp_all add: count_max_levels_def kMaxSkipLevels_def)
    have last: "db_block_last (pw_doc pw) = pl_prev ps (?B * j)" using r(4) by (simp add: buf_at_def j_def)
    have ptr: "(of_nat (out_pointer io (pw_doc_out pw)) :: u64) = of_nat (length C + length (pl_blocks bf hf ps j))"
      using out.pointer_law [OF r(1)] r(2) by (simp add: j_def)
    obtain sd sp sw' where sk: "sw_skip ms (write_skip ms (of_nat (out_pointer io (pw_doc_out pw)))) (?B * j) (pw_doc pw, pw_skip pw) =
        Some ((pw_doc pw)\<lparr>db_skip_doc := sd, db_skip_ptr := sp\<rparr>, sw')"
      "skip_at contents ok bf hf ps C ?L j ((pw_doc pw)\<lparr>db_skip_doc := sd, db_skip_ptr := sp\<rparr>) sw'"
      using skip_step [OF r(3) [unfolded jm] j(2) L last ptr] by (elim exE conjE) (rule that)
    have "k div ?B = j" by (simp add: j_def)
    then show ?thesis using True guard sk uk j(1) run by (simp add: pw_running_def pw_skip_point_def)
  qed
qed

lemma document_step:
  assumes run: "pw_running contents ok out_contents out_ok bf n hf C E ps k ((k - 1) div bf_size bf) pw"
    and inp: "pl_input n ps" and k: "k < length ps"
  shows "\<exists>pw'. pw_document bf ms io (of_nat k) (ps ! k) pw = Some pw' \<and>
    pw_running contents ok out_contents out_ok bf n hf C E ps (Suc k) (k div bf_size bf) pw' \<and> pw_last_state pw' = pw_last_state pw"
proof -
  obtain pw1 where pw1: "pw_skip_point ms io (of_nat k) pw = Some pw1"
    "pw_running contents ok out_contents out_ok bf n hf C E ps k (k div bf_size bf) pw1" "pw_last_state pw1 = pw_last_state pw"
    using skip_list_step [OF run inp k] by blast
  moreover obtain pw2 where "pw_begin_document bf io (fst (ps ! k)) (snd (ps ! k)) pw1 = Some pw2"
    "pw_running contents ok out_contents out_ok bf n hf C E ps (Suc k) (k div bf_size bf) (pw_end_document io pw2)"
    "pw_last_state (pw_end_document io pw2) = pw_last_state pw1"
    using begin_end_document [OF pw1(2) inp k] by (metis prod.collapse)
  ultimately show ?thesis using pw1 by (simp add: pw_document_def case_prod_beta)
qed

lemma documents_run:
  assumes "pw_running contents ok out_contents out_ok bf n hf C E ps k ((k - 1) div bf_size bf) pw" "pl_input n ps" "k \<le> length ps"
  shows "\<exists>pw'. pw_documents bf ms io (drop k ps) (of_nat k) f pw = Some (of_nat (length ps), f + sum_list (map snd (drop k ps)), pw') \<and>
    pw_running contents ok out_contents out_ok bf n hf C E ps (length ps) ((length ps - 1) div bf_size bf) pw' \<and>
    pw_last_state pw' = pw_last_state pw"
  using assms
proof (induction "length ps - k" arbitrary: k f pw)
  case 0
  then show ?case by auto
next
  case (Suc x)
  then have k: "k < length ps" by simp
  obtain pw1 where pw1: "pw_document bf ms io (of_nat k) (ps ! k) pw = Some pw1"
    "pw_running contents ok out_contents out_ok bf n hf C E ps (Suc k) ((Suc k - 1) div bf_size bf) pw1" "pw_last_state pw1 = pw_last_state pw"
    using document_step [OF Suc.prems(1,2) k] by auto
  have "x = length ps - Suc k" "Suc k \<le> length ps" using Suc.hyps(2) k by simp_all
  from Suc.hyps(1) [OF this(1) pw1(2) Suc.prems(2) this(2), of "f + snd (ps ! k)"]
  show ?case using pw1 Cons_nth_drop_Suc [OF k, symmetric] by (auto simp: add.assoc add.commute)
qed

end

section \<open>A whole posting list\<close>

text \<open>The meta data of a term.\<close>

definition pl_meta :: "block_fns \<Rightarrow> bool \<Rightarrow> nat \<Rightarrow> (u32 \<times> u32) list \<Rightarrow> term_meta \<Rightarrow> term_meta" where
  "pl_meta bf has_freq start ps meta =
     (let m = meta\<lparr>tm_docs_count := of_nat (length ps), tm_freq := sum_list (map snd ps), tm_pos_end := address_invalid,
            tm_doc_start := of_nat start\<rparr>
      in if length ps = 1 then set_single_doc (fst (ps ! 0) - 1) m
         else if bf_size bf < length ps then
           m\<lparr>tm_ext := of_nat (length (pl_blocks bf has_freq ps (length ps div bf_size bf) @ pl_tail_bytes bf has_freq ps))\<rparr>
         else m)"

context postings_streams
begin

lemma begin_term_running:
  assumes "pw_ready ok out_ok bf n pw"
  shows "pw_running contents ok out_contents out_ok bf n (pw_has_freq pw) (out_contents (pw_doc_out pw)) (bs_elems (pw_docs pw)) ps 0 0
      (pw_begin_term ms io pw) \<and> pw_last_state (pw_begin_term ms io pw) = pw_last_state pw"
proof -
  have r: "out_ok (pw_doc_out pw)" "sw_holds contents ok body (\<lambda>_. 0) (sw_reset ms (pw_skip pw))" for body
    using assms sw_reset_empty [of "pw_skip pw" body] by (auto simp: pw_ready_def)
  have "out_pointer io (pw_doc_out pw) = length (out_contents (pw_doc_out pw))" using out.pointer_law [OF r(1)] .
  then show ?thesis using r assms
    by (auto simp: pw_running_def pw_ready_def pw_begin_term_def Let_def skip_at_def buf_at_def pl_prev_def pl_blocks_def sw_reset_def
        kMaxSkipLevels_def)
qed

lemma end_term_tail:
  assumes run: "pw_running contents ok out_contents out_ok bf n hf C E ps (length ps) m pw"
  shows "zip (take (db_pos (pw_doc pw)) (db_docs (pw_doc pw))) (take (db_pos (pw_doc pw)) (db_freqs (pw_doc pw))) =
      drop (bf_size bf * (length ps div bf_size bf)) ps"
    and "length ps = 1 \<Longrightarrow> db_docs (pw_doc pw) ! 0 = fst (ps ! 0)"
proof -
  have b: "buf_at (bf_size bf) ps (length ps) (pw_doc pw)" using run by (simp add: pw_running_def)
  then show "zip (take (db_pos (pw_doc pw)) (db_docs (pw_doc pw))) (take (db_pos (pw_doc pw)) (db_freqs (pw_doc pw))) =
      drop (bf_size bf * (length ps div bf_size bf)) ps"
    by (simp add: buf_at_def zip_map_fst_snd)
  assume one: "length ps = 1"
  have "1 < bf_size bf" using size_law(1,2) by (cases "bf_size bf = 1") auto
  then have "take 1 (db_docs (pw_doc pw)) = map fst ps" using b one by (simp add: buf_at_def)
  then show "db_docs (pw_doc pw) ! 0 = fst (ps ! 0)" using one by (cases ps; cases "db_docs (pw_doc pw)") auto
qed

lemma end_term_skip_list:
  assumes sk: "skip_at contents ok bf hf ps C (pw_levels bf n) m d sw" and out: "out_ok out"
  shows "\<exists>sw' out'. sw_flush_levels ms io (sw_count_levels ms sw) sw out = Some (sw', out') \<and> out_ok out' \<and>
    out_contents out' = out_contents out @ sk_list (pl_skip_body bf hf ps) kSkipN (sk_height kSkipN (pw_levels bf n) m) m \<and>
    (\<forall>m\<in>set (sw_levels sw'). ok m) \<and> length (sw_levels sw') = length (sw_levels sw) \<and>
    sw_max_levels sw' = sw_max_levels sw \<and> sw_skip_0 sw' = sw_skip_0 sw \<and> sw_skip_n sw' = sw_skip_n sw"
proof -
  have h: "sw_holds contents ok (pl_skip_body bf hf ps) (\<lambda>i. m div kSkipN ^ i) sw" "sw_max_levels sw = pw_levels bf n"
    "sw_skip_n sw = kSkipN" using sk by (auto simp: skip_at_def)
  have "pl_skip_body bf hf ps 0 j \<noteq> []" for j by (simp add: pl_skip_body_def vwrite_u64_nonempty)
  then have cl: "sw_count_levels ms sw = sk_height kSkipN (pw_levels bf n) m"
    using count_levels_law [OF h(1)] h(2,3) by (simp add: kSkipN_def)
  have "sk_height kSkipN (pw_levels bf n) m \<le> sw_max_levels sw" unfolding h(2) by (rule sk_height_le)
  from flush_levels_law [OF h(1) _ out this, of m] show ?thesis unfolding cl h(3) by blast
qed

lemma write_correct:
  assumes rdy: "pw_ready ok out_ok bf n pw" and inp: "pl_input n ps" and ne: "ps \<noteq> []"
  shows "\<exists>pw'. pw_write bf ms io ps meta pw = Some (pl_meta bf (pw_has_freq pw) (length (out_contents (pw_doc_out pw))) ps meta, pw') \<and>
    pw_ready ok out_ok bf n pw' \<and>
    out_contents (pw_doc_out pw') = out_contents (pw_doc_out pw) @ pl_bytes bf (pw_has_freq pw) (pw_levels bf n) ps \<and>
    bs_elems (pw_docs pw') = bs_elems (pw_docs pw) \<union> (unat \<circ> fst) ` set ps \<and>
    pw_last_state pw' = pw_last_state pw \<and> pw_has_freq pw' = pw_has_freq pw"
proof -
  let ?B = "bf_size bf" and ?N = "length ps" and ?C = "out_contents (pw_doc_out pw)" and ?hf = "pw_has_freq pw"
  let ?q = "length ps div bf_size bf" and ?m = "(length ps - 1) div bf_size bf"
  obtain pw1 where docs: "pw_documents bf ms io ps 0 0 (pw_begin_term ms io pw) = Some (of_nat ?N, sum_list (map snd ps), pw1)"
    and run: "pw_running contents ok out_contents out_ok bf n ?hf ?C (bs_elems (pw_docs pw)) ps ?N ?m pw1"
    and ls: "pw_last_state pw1 = pw_last_state pw"
    using documents_run [of n ?hf ?C _ ps 0 "pw_begin_term ms io pw" 0] begin_term_running [OF rdy, of ps] inp by auto
  have r: "out_ok (pw_doc_out pw1)" "out_contents (pw_doc_out pw1) = ?C @ pl_blocks bf ?hf ps ?q"
    "skip_at contents ok bf ?hf ps ?C (pw_levels bf n) ?m (pw_doc pw1) (pw_skip pw1)" "db_start (pw_doc pw1) = of_nat (length ?C)"
    "buf_at ?B ps ?N (pw_doc pw1)" "pw_has_freq pw1 = ?hf"
    using run by (auto simp: pw_running_def)
  have un: "unat (of_nat ?N :: u32) = ?N" unfolding unat_of_nat using pl_inputD(4) [OF inp] by (intro mod_less) simp
  have cnt: "(of_nat ?N :: u32) = 0 \<longleftrightarrow> False" "(of_nat ?N :: u32) = 1 \<longleftrightarrow> ?N = 1" using un ne by (auto simp: word_unat_eq_iff)
  have B1: "1 < ?B" using size_law(1,2) by (cases "?B = 1") auto
  let ?ops = "tail_ops ?hf (db_block_last (pw_doc pw1)) (drop (?B * ?q) ps)"
  have tail: "concat (map op_bytes ?ops) = pl_tail_bytes bf ?hf ps" using r(5) by (simp add: pl_tail_bytes_def buf_at_def Let_def)
  obtain out1 where o1: "out_run io ?ops (pw_doc_out pw1) = Some out1" "out_contents out1 = ?C @ pl_blocks bf ?hf ps ?q @ pl_tail_bytes bf ?hf ps"
    "out_ok out1" using out.run_law [OF r(1), of ?ops] r(2) tail by auto
  have len: "out_pointer io out1 = length ?C + length (pl_blocks bf ?hf ps ?q @ pl_tail_bytes bf ?hf ps)"
    using out.pointer_law [OF o1(3)] o1(2) by simp
  obtain sw' out2 where o2: "sw_flush_levels ms io (sw_count_levels ms (pw_skip pw1)) (pw_skip pw1) out1 = Some (sw', out2)" "out_ok out2"
    "out_contents out2 = out_contents out1 @ sk_list (pl_skip_body bf ?hf ps) kSkipN (sk_height kSkipN (pw_levels bf n) ?m) ?m"
    "\<forall>m\<in>set (sw_levels sw'). ok m" "length (sw_levels sw') = length (sw_levels (pw_skip pw1))"
    "sw_max_levels sw' = sw_max_levels (pw_skip pw1)" "sw_skip_0 sw' = sw_skip_0 (pw_skip pw1)" "sw_skip_n sw' = sw_skip_n (pw_skip pw1)"
    using end_term_skip_list [OF r(3) o1(3)] by blast
  have s0: "sw_skip_0 (pw_skip pw1) = ?B" using r(3) by (simp add: skip_at_def)
  note tl = end_term_tail [OF run]
  consider (single) "?N = 1" | (short) "?N \<noteq> 1" "\<not> ?B < ?N" | (long) "?N \<noteq> 1" "?B < ?N" by blast
  then show ?thesis
  proof cases
    case single
    then have "pw_write bf ms io ps meta pw = Some (pl_meta bf ?hf (length ?C) ps meta,
        pw1\<lparr>pw_skip := pw_skip pw1, pw_doc_out := pw_doc_out pw1, pw_doc := (pw_doc pw1)\<lparr>db_pos := 0, db_last := 0\<rparr>\<rparr>)"
      using docs un cnt tl(2) r(4) B1 s0 by (simp add: pw_write_def pw_end_term_def Let_def pl_meta_def set_single_doc_def)
    moreover have "pl_blocks bf ?hf ps ?q = []" using single B1 by (simp add: pl_blocks_def)
    ultimately show ?thesis using single run r ls by (auto simp: pw_ready_def pw_running_def skip_at_def sw_holds_def buf_at_def pl_bytes_def)
  next
    case short
    then have "pw_write bf ms io ps meta pw = Some (pl_meta bf ?hf (length ?C) ps meta,
        pw1\<lparr>pw_skip := pw_skip pw1, pw_doc_out := out1, pw_doc := (pw_doc pw1)\<lparr>db_pos := 0, db_last := 0\<rparr>\<rparr>)"
      using docs un cnt tl(1) r(4,6) s0 o1(1) by (simp add: pw_write_def pw_end_term_def Let_def pl_meta_def)
    then show ?thesis using short run r ls o1
      by (auto simp: pw_ready_def pw_running_def skip_at_def sw_holds_def buf_at_def pl_bytes_def pl_skip_bytes_def)
  next
    case long
    then have "pw_write bf ms io ps meta pw = Some (pl_meta bf ?hf (length ?C) ps meta,
        pw1\<lparr>pw_skip := sw', pw_doc_out := out2, pw_doc := (pw_doc pw1)\<lparr>db_pos := 0, db_last := 0\<rparr>\<rparr>)"
      using docs un cnt tl(1) r(4,6) s0 o1(1) o2(1) len by (simp add: pw_write_def pw_end_term_def Let_def pl_meta_def)
    then show ?thesis using long run r ls o1 o2
      by (auto simp: pw_ready_def pw_running_def skip_at_def sw_holds_def buf_at_def pl_bytes_def pl_skip_bytes_def Let_def)
  qed
qed

lemma prepare_ready:
  assumes "ok new_level" "contents new_level = []" "out_ok out" "bits_to_words (1 + n) \<le> length fresh" "n < 2 ^ 32 - 1"
  shows "pw_ready ok out_ok bf n (pw_begin_field hf (pw_prepare ms new_level fresh n (pw_new bf out)))"
    and "bs_elems (pw_docs (pw_begin_field hf (pw_prepare ms new_level fresh n (pw_new bf out)))) = {}"
proof -
  have e: "bs_invar bs_empty" by (simp add: bs_empty_def bs_invar_def bits_to_words_def bs_elems_def bs_range_def words_set_empty_iff)
  let ?b = "bs_reset_bits fresh (1 + n) bs_empty"
  have b: "bs_invar ?b" "bs_bits ?b = Suc n" using bs_reset_bits_correct [OF e, of "1 + n" fresh] assms(4,5) by auto
  have c: "bs_invar (bs_clear ?b)" "bs_bits (bs_clear ?b) = Suc n" "bs_elems (bs_clear ?b) = {}"
    using bs_clear_correct [OF b(1)] b(2) by auto
  show "pw_ready ok out_ok bf n (pw_begin_field hf (pw_prepare ms new_level fresh n (pw_new bf out)))"
    using c(1,2) assms(1-3) by (auto simp: pw_ready_def pw_begin_field_def pw_prepare_def pw_new_def sw_prepare_def Let_def)
  show "bs_elems (pw_docs (pw_begin_field hf (pw_prepare ms new_level fresh n (pw_new bf out)))) = {}"
    using c(3) by (simp add: pw_begin_field_def pw_prepare_def pw_new_def)
qed

end

section \<open>Documents out of order\<close>

text \<open>Adding a skip entry leaves alone what the callback leaves alone.\<close>

lemma sw_skip_loop_keeps:
  assumes "sw_skip_loop ms cb i count child (w, s) = Some (w', s')" "P w"
    and "\<And>i w m w' m'. cb i (w, m) = Some (w', m') \<Longrightarrow> P w \<Longrightarrow> P w'"
  shows "P w'"
  using assms
proof (induction ms cb i count child "(w, s)" arbitrary: w s rule: sw_skip_loop.induct)
  case (1 ms cb i count child w s)
  show ?case
  proof (cases "count mod sw_skip_n s = 0 \<and> i < sw_max_levels s")
    case True
    with 1(2) obtain w1 m1 m2 where "cb i (w, sw_levels s ! i) = Some (w1, m1)"
      "sw_skip_loop ms cb (i + 1) (count div sw_skip_n s) (out_pointer (mem_io ms) m1) (w1, s\<lparr>sw_levels := (sw_levels s)[i := m2]\<rparr>) = Some (w', s')"
      "out_do (mem_io ms) (WriteVlong (of_nat child)) m1 = Some m2"
      by (subst (asm) sw_skip_loop.simps) (auto split: bind_splits simp: Let_def)
    with 1 True show ?thesis by (metis (no_types, lifting))
  next
    case False
    with 1(2,3) show ?thesis by (subst (asm) sw_skip_loop.simps) (auto split: if_splits)
  qed
qed

lemma skip_point_last:
  assumes "pw_skip_point ms io k pw = Some pw1"
  shows "db_last (pw_doc pw1) = db_last (pw_doc pw)"
proof -
  let ?cb = "write_skip ms (of_nat (out_pointer io (pw_doc_out pw)))"
  have cb: "?cb i (w, m) = Some (w', m') \<Longrightarrow> db_last w = l \<Longrightarrow> db_last w' = l" for i w m w' m' l
    by (auto simp: write_skip_def split: bind_splits)
  have "db_last d = db_last (pw_doc pw)" if "sw_skip ms ?cb n (pw_doc pw, pw_skip pw) = Some (d, sw)" for n d sw
    using that sw_skip_loop_keeps [where cb = ?cb and P = "\<lambda>w. db_last w = db_last (pw_doc pw)"] cb
    by (fastforce simp: sw_skip_def split: if_splits bind_splits)
  then show ?thesis using assms by (auto simp: pw_skip_point_def split: if_splits bind_splits)
qed

lemma document_order:
  assumes "pw_document bf ms io k (doc, freq) pw = Some pw'"
  shows "db_last (pw_doc pw) < doc \<and> db_last (pw_doc pw') = doc"
proof -
  obtain pw1 pw2 where p: "pw_skip_point ms io k pw = Some pw1" "pw_begin_document bf io doc freq pw1 = Some pw2" "pw' = pw_end_document io pw2"
    using assms by (auto simp: pw_document_def split: bind_splits)
  then have "db_last (pw_doc pw1) < doc" "db_last (pw_doc pw2) = doc"
    by (auto simp: pw_begin_document_def Let_def db_push_def split: if_splits bind_splits)
  then show ?thesis using p(1,3) skip_point_last [OF p(1)] by (simp add: pw_end_document_def Let_def)
qed

lemma documents_ordered:
  "pw_documents bf ms io ps k f pw = Some r \<Longrightarrow> sorted_wrt (<) (db_last (pw_doc pw) # map fst ps)"
proof (induction ps arbitrary: k f pw)
  case (Cons p ps)
  obtain doc freq where p: "p = (doc, freq)" by fastforce
  obtain pw1 where pw1: "pw_document bf ms io k (doc, freq) pw = Some pw1" "pw_documents bf ms io ps (k + 1) (f + freq) pw1 = Some r"
    using Cons.prems p by (auto split: bind_splits)
  then have "sorted_wrt (<) (doc # map fst ps)" "db_last (pw_doc pw) < doc"
    using Cons.IH [OF pw1(2)] document_order [OF pw1(1)] by auto
  then show ?case using p by (auto intro: less_trans)
qed simp

section \<open>Posting lists in memory\<close>

interpretation memory_skips: skip_streams "mo_stream garbage" mo_contents mo_invar "mo_io garbage" mo_contents mo_invar for garbage
  by (simp add: skip_streams_def memory_levels.memory_sink_axioms memory.index_sink_axioms)

interpretation memory_postings:
  postings_streams "mo_stream garbage" mo_contents mo_invar "mo_io garbage" mo_contents mo_invar "format_traits 4" for garbage
  by (simp add: postings_streams_def postings_streams_axioms_def memory_skips.skip_streams_axioms format128.block_packer_axioms)
    (simp add: format_traits_def)

section \<open>Properties\<close>



text \<open>
  C12: a list whose documents are not strictly increasing, or that contains the invalid document, is refused.
\<close>

theorem postings_out_of_order:
  assumes "\<not> sorted_wrt (<) (0 # map fst ps)"
  shows "pw_write bf ms io ps meta pw = None"
proof (rule ccontr)
  assume "pw_write bf ms io ps meta pw \<noteq> None"
  then obtain r where "pw_documents bf ms io ps 0 0 (pw_begin_term ms io pw) = Some r"
    by (auto simp: pw_write_def split: bind_splits)
  from documents_ordered [OF this] show False using assms by (simp add: pw_begin_term_def Let_def)
qed

theorem postings_out_of_order_witness:
  "pw_write (format_traits 4) (mo_stream (\<lambda>_. 0)) (mo_io (\<lambda>_. 0)) [(5, 1), (5, 1)] term_meta_new (pw_new (format_traits 4) memory_output_new) = None"
  by (rule postings_out_of_order) simp

end
