(* ===== verification/PostingsReader.thy ===== *)
theory PostingsReader
  imports PostingsWriter FsInput
begin

text \<open>
  \<open>postings_reader\<close> of \<open>core/formats/formats_10.cpp\<close>, for the lists of \<open>PostingsWriter\<close>: decoding the meta data of
  a term, the iterators \<open>single_doc_iterator\<close> and \<open>doc_iterator\<close>, and \<open>bit_union\<close>. A list that has been written is
  read back, with and without frequencies.
\<close>

section \<open>Meta data\<close>

definition pr_decode :: "nat \<Rightarrow> bool \<Rightarrow> u8 list \<Rightarrow> term_meta \<Rightarrow> (nat \<times> term_meta) option" where
  "pr_decode block_size has_freq p meta = do {
     (docs_count, p1) \<leftarrow> vread_u32 p;
     let m1 = meta\<lparr>tm_docs_count := docs_count\<rparr>;
     (m2, p2) \<leftarrow> (if has_freq then do { (v, p2) \<leftarrow> vread_u32 p1; Some (m1\<lparr>tm_freq := docs_count + v\<rparr>, p2) } else Some (m1, p1));
     (v, p3) \<leftarrow> vread_u64 p2;
     let m3 = m2\<lparr>tm_doc_start := tm_doc_start m2 + v\<rparr>;
     (m4, p4) \<leftarrow> (if docs_count = 1 then do { (v, p4) \<leftarrow> vread_u32 p3; Some (set_single_doc v m3, p4) }
       else if block_size < unat docs_count then do { (v, p4) \<leftarrow> vread_u64 p3; Some (m3\<lparr>tm_ext := v\<rparr>, p4) }
       else Some (m3, p3));
     Some (length p - length p4, m4)
   }"

section \<open>The iterator over a list of several documents\<close>

text \<open>
  \<open>doc_iterator_base\<close> and \<open>doc_iterator\<close>. \<open>pi_begin\<close> and \<open>pi_freq_pos\<close> are the distances of \<open>begin_\<close> and \<open>freq_\<close>
  from the start of their arrays. \<open>ifreq\<close> and \<open>ffreq\<close> are \<open>IteratorTraits::frequency()\<close> and
  \<open>FieldTraits::frequency()\<close>.
\<close>

record 'i postings_it =
  pi_docs :: "u32 list"
  pi_freqs :: "u32 list"
  pi_enc_buf :: "u32 list"
  pi_begin :: nat
  pi_freq_pos :: nat
  pi_in :: 'i
  pi_left :: nat
  pi_doc :: u32
  pi_freq :: u32

fun pi_tail_loop ::
  "'i index_in \<Rightarrow> bool \<Rightarrow> bool \<Rightarrow> nat \<Rightarrow> u32 list \<times> u32 list \<times> 'i \<Rightarrow> (u32 list \<times> u32 list \<times> 'i) option" where
  "pi_tail_loop io ifreq ffreq 0 x = Some x"
| "pi_tail_loop io ifreq ffreq (Suc n) (docs, freqs, s) = do {
     let i = length docs - Suc n;
     (v, s1) \<leftarrow> in_vint io s;
     if ffreq then do {
       let (delta, single) = shift_unpack_32 v;
       if single then pi_tail_loop io ifreq ffreq n (docs[i := delta], (if ifreq then freqs[i := 1] else freqs), s1)
       else do {
         (f, s2) \<leftarrow> in_vint io s1;
         pi_tail_loop io ifreq ffreq n (docs[i := delta], (if ifreq then freqs[i := f] else freqs), s2)
       }
     } else pi_tail_loop io ifreq ffreq n (docs[i := v], freqs, s1)
   }"

definition pi_read_tail_block :: "'i index_in \<Rightarrow> bool \<Rightarrow> bool \<Rightarrow> 'i postings_it \<Rightarrow> 'i postings_it option" where
  "pi_read_tail_block io ifreq ffreq it = do {
     (docs, freqs, s) \<leftarrow> pi_tail_loop io ifreq ffreq (pi_left it) (pi_docs it, pi_freqs it, pi_in it);
     Some (it\<lparr>pi_docs := docs, pi_freqs := freqs, pi_in := s, pi_begin := length (pi_docs it) - pi_left it,
       pi_freq_pos := (if ifreq then length (pi_freqs it) - pi_left it else pi_freq_pos it), pi_left := 0\<rparr>)
   }"

definition pi_refill :: "block_fns \<Rightarrow> 'i index_in \<Rightarrow> bool \<Rightarrow> bool \<Rightarrow> 'i postings_it \<Rightarrow> 'i postings_it option" where
  "pi_refill bf io ifreq ffreq it =
     (if bf_size bf \<le> pi_left it then do {
        (docs, s1) \<leftarrow> read_block bf io (pi_enc_buf it) (pi_docs it) (pi_in it);
        (freqs, s2) \<leftarrow> (if ifreq then read_block bf io (pi_enc_buf it) (pi_freqs it) s1
          else if ffreq then do { s2 \<leftarrow> skip_block bf io s1; Some (pi_freqs it, s2) }
          else Some (pi_freqs it, s1));
        Some (it\<lparr>pi_docs := docs, pi_freqs := freqs, pi_in := s2, pi_begin := 0,
          pi_freq_pos := (if ifreq then 0 else pi_freq_pos it), pi_left := pi_left it - bf_size bf\<rparr>)
      } else pi_read_tail_block io ifreq ffreq it)"

definition doc_eof32 :: u32 where "doc_eof32 = - 1"

lemma doc_eof32_code: "doc_eof32 = 0xFFFFFFFF"
  by (simp add: doc_eof32_def)

text \<open>The next document of the buffer and its frequency.\<close>

definition pi_deliver :: "bool \<Rightarrow> 'i postings_it \<Rightarrow> 'i postings_it" where
  "pi_deliver ifreq it =
     (let it1 = it\<lparr>pi_doc := pi_doc it + pi_docs it ! pi_begin it, pi_begin := pi_begin it + 1\<rparr>
      in if ifreq then it1\<lparr>pi_freq := pi_freqs it1 ! pi_freq_pos it1, pi_freq_pos := pi_freq_pos it1 + 1\<rparr> else it1)"

definition pi_next :: "block_fns \<Rightarrow> 'i index_in \<Rightarrow> bool \<Rightarrow> bool \<Rightarrow> 'i postings_it \<Rightarrow> (bool \<times> 'i postings_it) option" where
  "pi_next bf io ifreq ffreq it =
     (if pi_begin it = length (pi_docs it) \<and> pi_left it = 0 then Some (False, it\<lparr>pi_doc := doc_eof32\<rparr>)
      else do {
        it1 \<leftarrow> (if pi_begin it = length (pi_docs it) then do {
            it1 \<leftarrow> pi_refill bf io ifreq ffreq it;
            Some (it1\<lparr>pi_doc := pi_doc it1 + of_bool (pi_doc it1 = 0)\<rparr>)
          } else Some it);
        Some (True, pi_deliver ifreq it1)
      })"

text \<open>The constructor, and \<open>prepare\<close> apart from the skip list; \<open>s\<close> is the reopened input.\<close>

definition pi_new :: "block_fns \<Rightarrow> u32 list \<Rightarrow> u32 list \<Rightarrow> 'i \<Rightarrow> 'i postings_it" where
  "pi_new bf freqs enc_buf s = \<lparr>pi_docs = replicate (bf_size bf) 0, pi_freqs = freqs, pi_enc_buf = enc_buf, pi_begin = bf_size bf,
     pi_freq_pos = 0, pi_in = s, pi_left = 0, pi_doc = 0, pi_freq = 0\<rparr>"

definition pi_prepare :: "'i index_in \<Rightarrow> term_meta \<Rightarrow> 'i postings_it \<Rightarrow> 'i postings_it option" where
  "pi_prepare io meta it = do {
     s \<leftarrow> in_seek io (unat (tm_doc_start meta)) (pi_in it);
     Some (it\<lparr>pi_left := unat (tm_docs_count meta), pi_in := s\<rparr>)
   }"

section \<open>The iterator over a single document\<close>

record single_it =
  sd_next :: u32
  sd_doc :: u32
  sd_freq :: u32

definition sd_prepare :: "bool \<Rightarrow> term_meta \<Rightarrow> single_it" where
  "sd_prepare ifreq meta = \<lparr>sd_next = 1 + e_single_doc meta, sd_doc = 0, sd_freq = (if ifreq then tm_freq meta else 0)\<rparr>"

definition sd_step :: "single_it \<Rightarrow> bool \<times> single_it" where
  "sd_step it = (let it1 = it\<lparr>sd_doc := sd_next it, sd_next := doc_eof32\<rparr> in (sd_doc it1 \<noteq> doc_eof32, it1))"

partial_function (option) sd_seek :: "u32 \<Rightarrow> single_it \<Rightarrow> single_it option" where
  "sd_seek target it = (if sd_doc it < target then sd_seek target (snd (sd_step it)) else Some it)"

declare sd_seek.simps [code]

definition sd_ops :: "single_it doc_ops" where
  "sd_ops = \<lparr>value_of = (\<lambda>it. unat (sd_doc it)), next_of = (\<lambda>it. Some (sd_step it)),
     seek_of = (\<lambda>t it. map_option (\<lambda>it1. (unat (sd_doc it1), it1)) (sd_seek (of_nat t) it))\<rparr>"

section \<open>The iterator of a term\<close>

text \<open>\<open>iterator\<close>: which of the two it is, and its \<open>next\<close>.\<close>

definition pr_iterator ::
  "block_fns \<Rightarrow> 'i index_in \<Rightarrow> bool \<Rightarrow> u32 list \<Rightarrow> u32 list \<Rightarrow> term_meta \<Rightarrow> 'i \<Rightarrow> (single_it + 'i postings_it) option" where
  "pr_iterator bf io ifreq freqs enc_buf meta s =
     (if tm_docs_count meta = 0 then None
      else if tm_docs_count meta = 1 then Some (Inl (sd_prepare ifreq meta))
      else map_option Inr (pi_prepare io meta (pi_new bf freqs enc_buf s)))"

fun pr_next ::
  "block_fns \<Rightarrow> 'i index_in \<Rightarrow> bool \<Rightarrow> bool \<Rightarrow> single_it + 'i postings_it \<Rightarrow> (bool \<times> (single_it + 'i postings_it)) option" where
  "pr_next bf io ifreq ffreq (Inl it) = Some (map_prod id Inl (sd_step it))"
| "pr_next bf io ifreq ffreq (Inr it) = map_option (map_prod id Inr) (pi_next bf io ifreq ffreq it)"

fun pr_value :: "single_it + 'i postings_it \<Rightarrow> u32 \<times> u32" where
  "pr_value (Inl it) = (sd_doc it, sd_freq it)"
| "pr_value (Inr it) = (pi_doc it, pi_freq it)"

text \<open>Reading a list to its end: the documents and the frequencies that \<open>next\<close> delivers.\<close>

fun pr_drain ::
  "nat \<Rightarrow> block_fns \<Rightarrow> 'i index_in \<Rightarrow> bool \<Rightarrow> bool \<Rightarrow> single_it + 'i postings_it \<Rightarrow> (u32 \<times> u32) list option" where
  "pr_drain 0 bf io ifreq ffreq it = None"
| "pr_drain (Suc n) bf io ifreq ffreq it = do {
     (b, it1) \<leftarrow> pr_next bf io ifreq ffreq it;
     if b then do { ps \<leftarrow> pr_drain n bf io ifreq ffreq it1; Some (pr_value it1 # ps) } else Some []
   }"

section \<open>The union of posting lists\<close>

text \<open>\<open>irs::set_bit(set[doc / BITS], doc % BITS)\<close> on an array of words; beyond its end this is undefined.\<close>

definition union_set :: "u32 \<Rightarrow> u64 list \<Rightarrow> u64 list option" where
  "union_set doc bits =
     (let w = unat doc div 64 in if w < length bits then Some (bits[w := set_bit_w (bits ! w) (unat doc mod 64)]) else None)"

fun union_block :: "u32 list \<Rightarrow> u32 \<Rightarrow> u64 list \<Rightarrow> (u32 \<times> u64 list) option" where
  "union_block [] doc bits = Some (doc, bits)"
| "union_block (delta # ds) doc bits = do { bits1 \<leftarrow> union_set (doc + delta) bits; union_block ds (doc + delta) bits1 }"

fun union_blocks ::
  "block_fns \<Rightarrow> 'i index_in \<Rightarrow> bool \<Rightarrow> u32 list \<Rightarrow> nat \<Rightarrow> u32 list \<Rightarrow> 'i \<Rightarrow> u32 \<Rightarrow> u64 list \<Rightarrow> ('i \<times> u32 \<times> u64 list) option" where
  "union_blocks bf io ffreq enc_buf 0 docs s doc bits = Some (s, doc, bits)"
| "union_blocks bf io ffreq enc_buf (Suc n) docs s doc bits = do {
     (docs1, s1) \<leftarrow> read_block bf io enc_buf docs s;
     s2 \<leftarrow> (if ffreq then skip_block bf io s1 else Some s1);
     (doc1, bits1) \<leftarrow> union_block docs1 doc bits;
     union_blocks bf io ffreq enc_buf n docs1 s2 doc1 bits1
   }"

fun union_tail :: "'i index_in \<Rightarrow> bool \<Rightarrow> nat \<Rightarrow> 'i \<Rightarrow> u32 \<Rightarrow> u64 list \<Rightarrow> ('i \<times> u64 list) option" where
  "union_tail io ffreq 0 s doc bits = Some (s, bits)"
| "union_tail io ffreq (Suc n) s doc bits = do {
     (v, s1) \<leftarrow> in_vint io s;
     (delta, s2) \<leftarrow> (if ffreq then
         let (delta, single) = shift_unpack_32 v
         in if single then Some (delta, s1) else do { (_, s2) \<leftarrow> in_vint io s1; Some (delta, s2) }
       else Some (v, s1));
     bits1 \<leftarrow> union_set (doc + delta) bits;
     union_tail io ffreq n s2 (doc + delta) bits1
   }"

text \<open>The free function \<open>bit_union\<close> for one list, then the method for the terms that the provider delivers.\<close>

definition union_list ::
  "block_fns \<Rightarrow> 'i index_in \<Rightarrow> bool \<Rightarrow> u32 list \<Rightarrow> u32 list \<Rightarrow> nat \<Rightarrow> 'i \<Rightarrow> u64 list \<Rightarrow> ('i \<times> u64 list) option" where
  "union_list bf io ffreq docs enc_buf docs_count s bits = do {
     (s1, doc, bits1) \<leftarrow> union_blocks bf io ffreq enc_buf (docs_count div bf_size bf) docs s 1 bits;
     union_tail io ffreq (docs_count mod bf_size bf) s1 doc bits1
   }"

fun pr_bit_union ::
  "block_fns \<Rightarrow> 'i index_in \<Rightarrow> bool \<Rightarrow> u32 list \<Rightarrow> u32 list \<Rightarrow> term_meta list \<Rightarrow> nat \<Rightarrow> 'i \<Rightarrow> u64 list \<Rightarrow> (nat \<times> u64 list) option" where
  "pr_bit_union bf io ffreq docs enc_buf [] count s bits = Some (count, bits)"
| "pr_bit_union bf io ffreq docs enc_buf (meta # ms) count s bits =
     (if 1 < tm_docs_count meta then do {
        s1 \<leftarrow> in_seek io (unat (tm_doc_start meta)) s;
        (s2, bits1) \<leftarrow> union_list bf io ffreq docs enc_buf (unat (tm_docs_count meta)) s1 bits;
        pr_bit_union bf io ffreq docs enc_buf ms (count + unat (tm_docs_count meta)) s2 bits1
      } else do {
        bits1 \<leftarrow> union_set (1 + e_single_doc meta) bits;
        pr_bit_union bf io ffreq docs enc_buf ms (count + 1) s bits1
      })"

section \<open>The meta data is read back\<close>

lemma decode_encode:
  assumes freq: "has_freq \<longleftrightarrow> tm_freq meta \<noteq> 0"
  shows "pr_decode skip_0 has_freq (concat (map op_bytes (encode_ops skip_0 last_state meta)) @ rest) (old\<lparr>tm_doc_start := tm_doc_start last_state\<rparr>) =
    Some (length (concat (map op_bytes (encode_ops skip_0 last_state meta))),
      old\<lparr>tm_docs_count := tm_docs_count meta, tm_freq := (if has_freq then tm_freq meta else tm_freq old), tm_doc_start := tm_doc_start meta,
        tm_ext := (if tm_docs_count meta = 1 then tm_ext (set_single_doc (e_single_doc meta) old) else
          if skip_0 < unat (tm_docs_count meta) then tm_ext meta else tm_ext old)\<rparr>)"
  using freq by (auto simp: pr_decode_def encode_ops_def vread_u32_vwrite vread_u64_vwrite Let_def set_single_doc_def)

section \<open>Reading a list\<close>

locale postings_input = block_packer bf + index_source io stream rest
  for bf :: block_fns and io :: "'i index_in" and stream :: "u8 list \<Rightarrow> 'i \<Rightarrow> bool" and rest :: "'i \<Rightarrow> u8 list"

lemma shift_unpack_pack: "unat v < 2 ^ 31 \<Longrightarrow> shift_unpack_32 (shift_pack_32 v b) = (v, b)"
proof -
  assume "unat v < 2 ^ 31"
  then have "take_bit 31 v = v" by (simp only: unat_less_fits)
  then have "\<not> bit v 31" by (metis bit_take_bit_iff less_irrefl)
  then show ?thesis using shift_pack_word [of v b] by (simp add: shift_unpack_32_def shift_pack_32_def)
qed

text \<open>What is left in the file from block \<open>q\<close> on, and the deltas of the documents from \<open>k\<close> up to \<open>L\<close>.\<close>

definition pl_rest :: "block_fns \<Rightarrow> bool \<Rightarrow> (u32 \<times> u32) list \<Rightarrow> nat \<Rightarrow> u8 list" where
  "pl_rest bf hf ps q = concat (map (pl_block_bytes bf hf ps) [q..<length ps div bf_size bf]) @ pl_tail_bytes bf hf ps"

definition pl_deltas :: "(u32 \<times> u32) list \<Rightarrow> nat \<Rightarrow> nat \<Rightarrow> u32 list" where
  "pl_deltas ps k L = delta_encode_from (pl_prev ps k) (map fst (drop k (take L ps)))"

text \<open>The tail of a list with frequencies has room for a flag in each delta.\<close>

definition pl_gaps :: "bool \<Rightarrow> (u32 \<times> u32) list \<Rightarrow> bool" where
  "pl_gaps hf ps \<longleftrightarrow> (hf \<longrightarrow> (\<forall>k<length ps. unat (fst (ps ! k) - pl_prev ps k) < 2 ^ 31))"

lemma pl_deltas_Cons: "k < L \<Longrightarrow> L \<le> length ps \<Longrightarrow> pl_deltas ps k L = (fst (ps ! k) - pl_prev ps k) # pl_deltas ps (Suc k) L"
  using Cons_nth_drop_Suc [of k "take L ps", symmetric] by (simp add: pl_deltas_def pl_prev_def)

lemma pl_deltas_empty [simp]: "pl_deltas ps k k = []"
  by (simp add: pl_deltas_def)

lemma set_pl_deltas: "k \<le> L \<Longrightarrow> L \<le> length ps \<Longrightarrow> d \<in> set (pl_deltas ps k L) \<Longrightarrow> \<exists>i<length ps. d = fst (ps ! i) - pl_prev ps i"
proof (induction "L - k" arbitrary: k)
  case (Suc x)
  then have k: "k < L" "x = L - Suc k" by simp_all
  then consider "d = fst (ps ! k) - pl_prev ps k" | "d \<in> set (pl_deltas ps (Suc k) L)"
    using Suc.prems pl_deltas_Cons [of k L ps] by auto
  then show ?case
  proof cases
    case 1
    then show ?thesis using k Suc.prems by (intro exI [of _ k]) simp
  next
    case 2
    then show ?thesis using Suc.hyps(1) [OF k(2)] k(1) Suc.prems by simp
  qed
qed simp

context postings_input
begin

lemma tail_loop_reads:
  assumes "stream f s" "rest s = concat (map op_bytes (tail_ops ffreq prev xs)) @ r" "length xs \<le> length docs" "length freqs = length docs"
    and "ffreq \<Longrightarrow> \<forall>d\<in>set (delta_encode_from prev (map fst xs)). unat d < 2 ^ 31" "ifreq \<Longrightarrow> ffreq"
  shows "\<exists>s'. pi_tail_loop io ifreq ffreq (length xs) (docs, freqs, s) =
      Some (take (length docs - length xs) docs @ delta_encode_from prev (map fst xs),
        (if ifreq then take (length docs - length xs) freqs @ map snd xs else freqs), s') \<and> stream f s' \<and> rest s' = r"
  using assms
proof (induction xs arbitrary: s prev docs freqs)
  case Nil
  then show ?case by auto
next
  case (Cons x xs)
  obtain doc freq where x: "x = (doc, freq)" by fastforce
  let ?tl = "concat (map op_bytes (tail_ops ffreq doc xs))"
  let ?d = "doc - prev" and ?i = "length docs - Suc (length xs)"
  have i: "?i < length docs" "length docs - length xs = Suc ?i" "?i < length freqs" using Cons.prems(3,4) by auto
  have tk: "take (Suc ?i) (ys[?i := y]) = take ?i ys @ [y]" if "length ys = length docs" for ys :: "u32 list" and y
    using i that by (simp add: take_Suc_conv_app_nth)
  have IH: "\<exists>s'. pi_tail_loop io ifreq ffreq (length xs) (docs[?i := ?d], fs, s1) =
      Some (take ?i docs @ ?d # delta_encode_from doc (map fst xs), (if ifreq then take (Suc ?i) fs @ map snd xs else fs), s') \<and>
      stream f s' \<and> rest s' = r"
    if "stream f s1" "rest s1 = concat (map op_bytes (tail_ops ffreq doc xs)) @ r" "length fs = length docs" for s1 fs
  proof -
    have pr: "length xs \<le> length (docs[?i := ?d])" "length fs = length (docs[?i := ?d])"
      "ffreq \<Longrightarrow> \<forall>d\<in>set (delta_encode_from doc (map fst xs)). unat d < 2 ^ 31"
      using that(3) Cons.prems(3,5) x by simp_all
    have e: "length (docs[?i := ?d]) - length xs = Suc ?i" by (simp only: length_list_update i(2))
    from Cons.IH [OF that(1,2) pr Cons.prems(6)] show ?thesis
      unfolding e tk [OF refl, of ?d] by (simp only: append_assoc append_Cons append_Nil)
  qed
  show ?case
  proof (cases ffreq)
    case False
    then obtain s1 where s1: "in_vint io s = Some (?d, s1)" "stream f s1" "rest s1 = concat (map op_bytes (tail_ops ffreq doc xs)) @ r"
      using vint_at [OF Cons.prems(1), of ?d "?tl @ r"] Cons.prems(2) x by auto
    show ?thesis using IH [OF s1(2,3) Cons.prems(4)] s1(1) False Cons.prems(6) x by (auto simp: Let_def)
  next
    case True
    have u: "shift_unpack_32 (shift_pack_32 ?d b) = (?d, b)" for b using Cons.prems(5) [OF True] x by (intro shift_unpack_pack) simp
    have fr: "(if ifreq then take (Suc ?i) (if ifreq then freqs[?i := v] else freqs) @ map snd xs else (if ifreq then freqs[?i := v] else freqs)) =
      (if ifreq then take ?i freqs @ v # map snd xs else freqs)" for v using tk [OF Cons.prems(4), of v] by simp
    show ?thesis
    proof (cases "freq = 1")
      case one: True
      obtain s1 where s1: "in_vint io s = Some (shift_pack_32 ?d True, s1)" "stream f s1"
        "rest s1 = concat (map op_bytes (tail_ops ffreq doc xs)) @ r"
        using vint_at [OF Cons.prems(1), of "shift_pack_32 ?d True" "?tl @ r"] Cons.prems(2) x True one by auto
      show ?thesis using IH [OF s1(2,3), of "if ifreq then freqs[?i := 1] else freqs"] s1(1) True u [of True] fr [of 1] one x Cons.prems(4)
        by (cases ifreq) (simp_all add: Let_def)
    next
      case more: False
      obtain s1 where s1: "in_vint io s = Some (shift_pack_32 ?d False, s1)" "stream f s1"
        "rest s1 = vwrite_u32 freq @ concat (map op_bytes (tail_ops ffreq doc xs)) @ r"
        using vint_at [OF Cons.prems(1), of "shift_pack_32 ?d False" "vwrite_u32 freq @ ?tl @ r"] Cons.prems(2) x True more by auto
      obtain s2 where s2: "in_vint io s1 = Some (freq, s2)" "stream f s2" "rest s2 = concat (map op_bytes (tail_ops ffreq doc xs)) @ r"
        using vint_at [OF s1(2,3)] by blast
      show ?thesis using IH [OF s2(2,3), of "if ifreq then freqs[?i := freq] else freqs"] s1(1) s2(1) True u [of False] fr [of freq] x
          Cons.prems(4) more by (cases ifreq) (simp_all add: Let_def)
    qed
  qed
qed

end

text \<open>
  The state of the iterator: \<open>L\<close> documents have been loaded from the file, which continues with the blocks behind them; \<open>k\<close> of
  them have been delivered, the deltas of the others are in the buffer.
\<close>

definition pi_loaded ::
  "(u8 list \<Rightarrow> 'i \<Rightarrow> bool) \<Rightarrow> ('i \<Rightarrow> u8 list) \<Rightarrow> block_fns \<Rightarrow> bool \<Rightarrow> (u32 \<times> u32) list \<Rightarrow> u8 list \<Rightarrow> nat \<Rightarrow> 'i postings_it \<Rightarrow> bool" where
  "pi_loaded stream rest bf ffreq ps f L it \<longleftrightarrow>
     length (pi_docs it) = bf_size bf \<and> length (pi_freqs it) = bf_size bf \<and> length (pi_enc_buf it) = bf_size bf \<and>
     L \<le> length ps \<and> pi_left it = length ps - L \<and> stream f (pi_in it) \<and>
     (L < length ps \<longrightarrow> L mod bf_size bf = 0 \<and> (\<exists>r. rest (pi_in it) = pl_rest bf ffreq ps (L div bf_size bf) @ r))"

definition pi_buffer :: "block_fns \<Rightarrow> bool \<Rightarrow> (u32 \<times> u32) list \<Rightarrow> nat \<Rightarrow> nat \<Rightarrow> 'i postings_it \<Rightarrow> bool" where
  "pi_buffer bf ifreq ps k L it \<longleftrightarrow> k \<le> L \<and> pi_begin it + (L - k) = bf_size bf \<and> drop (pi_begin it) (pi_docs it) = pl_deltas ps k L \<and>
     (ifreq \<and> k < L \<longrightarrow> pi_freq_pos it = pi_begin it \<and> drop (pi_begin it) (pi_freqs it) = map snd (drop k (take L ps)))"

lemma pl_rest_step: "q < length ps div bf_size bf \<Longrightarrow> pl_rest bf hf ps q = pl_block_bytes bf hf ps q @ pl_rest bf hf ps (Suc q)"
  by (simp add: pl_rest_def upt_conv_Cons)

lemma pl_block_take: "L mod B = 0 \<Longrightarrow> pl_block B ps (L div B) = drop L (take (L + B) ps)"
proof -
  assume "L mod B = 0"
  then have "B * (L div B) = L" by auto
  then show ?thesis by (simp add: pl_block_def take_drop add.commute)
qed

context postings_input
begin

lemma refill_block:
  assumes ld: "pi_loaded stream rest bf ffreq ps f L it" and le: "L + bf_size bf \<le> length ps" and fr: "ifreq \<Longrightarrow> ffreq"
  shows "\<exists>it'. pi_refill bf io ifreq ffreq it = Some it' \<and> pi_loaded stream rest bf ffreq ps f (L + bf_size bf) it' \<and>
    pi_buffer bf ifreq ps L (L + bf_size bf) it' \<and> pi_doc it' = pi_doc it \<and> pi_freq it' = pi_freq it"
proof -
  let ?B = "bf_size bf" and ?q = "L div bf_size bf"
  have len: "length (pi_docs it) = ?B" "length (pi_freqs it) = ?B" "length (pi_enc_buf it) = ?B" "pi_left it = length ps - L"
    "stream f (pi_in it)" and L: "L mod ?B = 0" and "\<exists>r. rest (pi_in it) = pl_rest bf ffreq ps ?q @ r"
    using ld le size_law(2) by (auto simp: pi_loaded_def)
  then obtain r where r: "rest (pi_in it) = pl_rest bf ffreq ps ?q @ r" by blast
  have q: "?q < length ps div ?B" "(L + ?B) mod ?B = 0" "(L + ?B) div ?B = Suc ?q" "?B * ?q = L"
    using le L size_law(2) div_le_mono [OF le, of ?B] by auto
  let ?ps = "drop L (take (L + ?B) ps)"
  have bb: "pl_block_bytes bf ffreq ps ?q = block_bytes bf (pl_deltas ps L (L + ?B)) @ (if ffreq then block_bytes bf (map snd ?ps) else [])"
    using pl_block_take [OF L, of ps] q(4) by (simp add: pl_block_bytes_def pl_deltas_def)
  have lp: "length ?ps = ?B" "length (pl_deltas ps L (L + ?B)) = ?B" using le by (simp_all add: pl_deltas_def)
  let ?tl = "pl_rest bf ffreq ps (Suc ?q) @ r"
  have rest0: "rest (pi_in it) = block_bytes bf (pl_deltas ps L (L + ?B)) @ (if ffreq then block_bytes bf (map snd ?ps) else []) @ ?tl"
    using r pl_rest_step [OF q(1)] bb by simp
  obtain s1 where s1: "read_block bf io (pi_enc_buf it) (pi_docs it) (pi_in it) = Some (pl_deltas ps L (L + ?B), s1)" "stream f s1"
    "rest s1 = (if ffreq then block_bytes bf (map snd ?ps) else []) @ ?tl"
    using read_block_at(1) [OF index_source_axioms len(5) rest0 lp(2) len(1), of "pi_enc_buf it"] len(3)
    by (elim meta_impE exE conjE) (simp, rule that)
  have "\<exists>s2 fs. (if ifreq then read_block bf io (pi_enc_buf it) (pi_freqs it) s1
      else if ffreq then do { s2 \<leftarrow> skip_block bf io s1; Some (pi_freqs it, s2) } else Some (pi_freqs it, s1)) = Some (fs, s2) \<and>
      stream f s2 \<and> rest s2 = ?tl \<and> length fs = ?B \<and> (ifreq \<longrightarrow> fs = map snd ?ps)"
  proof (cases ffreq)
    case True
    then have r1: "rest s1 = block_bytes bf (map snd ?ps) @ ?tl" using s1(3) by simp
    have lm: "length (map snd ?ps) = ?B" using lp(1) by simp
    show ?thesis using read_block_at [OF index_source_axioms s1(2) r1 lm len(2), of "pi_enc_buf it"] len(2,3) lm True by (cases ifreq) auto
  next
    case False
    then show ?thesis using s1 len(2) fr by auto
  qed
  then obtain s2 fs where s2: "(if ifreq then read_block bf io (pi_enc_buf it) (pi_freqs it) s1
      else if ffreq then do { s2 \<leftarrow> skip_block bf io s1; Some (pi_freqs it, s2) } else Some (pi_freqs it, s1)) = Some (fs, s2)"
    "stream f s2" "rest s2 = ?tl" "length fs = ?B" "ifreq \<longrightarrow> fs = map snd ?ps" by blast
  let ?it = "it\<lparr>pi_docs := pl_deltas ps L (L + ?B), pi_freqs := fs, pi_in := s2, pi_begin := 0,
    pi_freq_pos := (if ifreq then 0 else pi_freq_pos it), pi_left := pi_left it - ?B\<rparr>"
  have "?B \<le> pi_left it" using le len(4) by simp
  then have "pi_refill bf io ifreq ffreq it = Some ?it" using s1(1) s2(1) by (simp add: pi_refill_def)
  moreover have "pi_loaded stream rest bf ffreq ps f (L + ?B) ?it"
    using s2 lp len le q unfolding pi_loaded_def by auto
  moreover have "pi_buffer bf ifreq ps L (L + ?B) ?it" using s2(5) by (simp add: pi_buffer_def)
  ultimately show ?thesis by (intro exI [of _ ?it]) simp
qed

lemma refill_tail:
  assumes ld: "pi_loaded stream rest bf ffreq ps f L it" and L: "L < length ps" "length ps < L + bf_size bf" and fr: "ifreq \<Longrightarrow> ffreq"
    and gaps: "pl_gaps ffreq ps"
  shows "\<exists>it'. pi_refill bf io ifreq ffreq it = Some it' \<and> pi_loaded stream rest bf ffreq ps f (length ps) it' \<and>
    pi_buffer bf ifreq ps L (length ps) it' \<and> pi_doc it' = pi_doc it \<and> pi_freq it' = pi_freq it"
proof -
  let ?B = "bf_size bf" and ?N = "length ps" and ?xs = "drop L ps"
  have len: "length (pi_docs it) = ?B" "length (pi_freqs it) = ?B" "length (pi_enc_buf it) = ?B" "pi_left it = length ?xs"
    "stream f (pi_in it)" and "L mod ?B = 0" and "\<exists>r. rest (pi_in it) = pl_rest bf ffreq ps (L div ?B) @ r"
    using ld L by (auto simp: pi_loaded_def)
  then obtain r where r: "rest (pi_in it) = pl_rest bf ffreq ps (L div ?B) @ r" and Lq: "?B * (L div ?B) = L" by auto
  have q: "?N div ?B = L div ?B" using L Lq by (intro div_nat_eqI) (simp_all add: mult.commute)
  have tail: "rest (pi_in it) = concat (map op_bytes (tail_ops ffreq (pl_prev ps L) ?xs)) @ r"
    using r q Lq by (simp add: pl_rest_def pl_tail_bytes_def Let_def)
  have ds: "delta_encode_from (pl_prev ps L) (map fst ?xs) = pl_deltas ps L ?N" by (simp add: pl_deltas_def)
  have g: "ffreq \<Longrightarrow> \<forall>d\<in>set (delta_encode_from (pl_prev ps L) (map fst ?xs)). unat d < 2 ^ 31"
    unfolding ds using gaps set_pl_deltas [of L ?N ps] L by (auto simp: pl_gaps_def)
  have lx: "length ?xs \<le> ?B" "length (pl_deltas ps L ?N) = length ?xs" using L by (simp_all add: pl_deltas_def)
  have "\<exists>s'. pi_tail_loop io ifreq ffreq (length ?xs) (pi_docs it, pi_freqs it, pi_in it) =
      Some (take (?B - length ?xs) (pi_docs it) @ pl_deltas ps L ?N,
        (if ifreq then take (?B - length ?xs) (pi_freqs it) @ map snd ?xs else pi_freqs it), s') \<and> stream f s' \<and> rest s' = r"
    unfolding ds [symmetric] len(1) [symmetric] by (rule tail_loop_reads [OF len(5) tail]) (use g fr lx(1) len(1,2) in auto)
  then obtain s' where s': "pi_tail_loop io ifreq ffreq (length ?xs) (pi_docs it, pi_freqs it, pi_in it) =
      Some (take (?B - length ?xs) (pi_docs it) @ pl_deltas ps L ?N,
        (if ifreq then take (?B - length ?xs) (pi_freqs it) @ map snd ?xs else pi_freqs it), s')" "stream f s'" by blast
  let ?it = "it\<lparr>pi_docs := take (?B - length ?xs) (pi_docs it) @ pl_deltas ps L ?N,
    pi_freqs := (if ifreq then take (?B - length ?xs) (pi_freqs it) @ map snd ?xs else pi_freqs it), pi_in := s', pi_begin := ?B - length ?xs,
    pi_freq_pos := (if ifreq then ?B - length ?xs else pi_freq_pos it), pi_left := 0\<rparr>"
  have "\<not> ?B \<le> pi_left it" using L len(4) by simp
  then have ref: "pi_refill bf io ifreq ffreq it = Some ?it" using len s'(1) by (simp add: pi_refill_def pi_read_tail_block_def)
  have "pi_loaded stream rest bf ffreq ps f ?N ?it" using s'(2) len lx L by (simp add: pi_loaded_def)
  moreover have "pi_buffer bf ifreq ps L ?N ?it" using L lx len by (simp add: pi_buffer_def)
  ultimately show ?thesis using ref by (intro exI [of _ ?it]) simp
qed

lemma refill_correct:
  assumes "pi_loaded stream rest bf ffreq ps f L it" "L < length ps" "ifreq \<Longrightarrow> ffreq" "pl_gaps ffreq ps"
  shows "\<exists>it' L'. pi_refill bf io ifreq ffreq it = Some it' \<and> L < L' \<and> pi_loaded stream rest bf ffreq ps f L' it' \<and>
    pi_buffer bf ifreq ps L L' it' \<and> pi_doc it' = pi_doc it \<and> pi_freq it' = pi_freq it \<and> L' = min (L + bf_size bf) (length ps)"
proof (cases "L + bf_size bf \<le> length ps")
  case True
  then show ?thesis using refill_block [OF assms(1) True assms(3)] size_law(2) by (auto simp: min_def)
next
  case False
  then show ?thesis using refill_tail [OF assms(1,2) _ assms(3,4)] assms(2) by (auto simp: min_def)
qed

end

text \<open>
  At document \<open>k\<close> of the list, 0 before the first one; \<open>seek\<close> moves on without looking at the frequencies, so that these are
  only there in \<open>pi_at\<close>.
\<close>

definition pi_pos ::
  "(u8 list \<Rightarrow> 'i \<Rightarrow> bool) \<Rightarrow> ('i \<Rightarrow> u8 list) \<Rightarrow> block_fns \<Rightarrow> bool \<Rightarrow> bool \<Rightarrow> (u32 \<times> u32) list \<Rightarrow> u8 list \<Rightarrow> nat \<Rightarrow> 'i postings_it \<Rightarrow> bool" where
  "pi_pos stream rest bf ifreq ffreq ps f k it \<longleftrightarrow>
     (\<exists>L. pi_loaded stream rest bf ffreq ps f L it \<and> pi_buffer bf ifreq ps k L it \<and> (k = 0 \<longrightarrow> L = 0)) \<and>
     pi_doc it = (if k = 0 then 0 else fst (ps ! (k - 1)))"

definition pi_at ::
  "(u8 list \<Rightarrow> 'i \<Rightarrow> bool) \<Rightarrow> ('i \<Rightarrow> u8 list) \<Rightarrow> block_fns \<Rightarrow> bool \<Rightarrow> bool \<Rightarrow> (u32 \<times> u32) list \<Rightarrow> u8 list \<Rightarrow> nat \<Rightarrow> 'i postings_it \<Rightarrow> bool" where
  "pi_at stream rest bf ifreq ffreq ps f k it \<longleftrightarrow>
     pi_pos stream rest bf ifreq ffreq ps f k it \<and> (0 < k \<and> ifreq \<longrightarrow> pi_freq it = snd (ps ! (k - 1)))"

context postings_input
begin

lemma deliver_buffer:
  assumes ld: "pi_loaded stream rest bf ffreq ps f L it" and buf: "pi_buffer bf ifreq ps k L it" and k: "k < L" and d: "pi_doc it = pl_prev ps k"
  shows "pi_loaded stream rest bf ffreq ps f L (pi_deliver ifreq it)" "pi_buffer bf ifreq ps (Suc k) L (pi_deliver ifreq it)"
    and "pi_doc (pi_deliver ifreq it) = fst (ps ! k)" "ifreq \<Longrightarrow> pi_freq (pi_deliver ifreq it) = snd (ps ! k)"
proof -
  let ?b = "pi_begin it"
  have L: "L \<le> length ps" "length (pi_docs it) = bf_size bf" "length (pi_freqs it) = bf_size bf" using ld by (auto simp: pi_loaded_def)
  have b: "?b + (L - k) = bf_size bf" "drop ?b (pi_docs it) = pl_deltas ps k L"
    "ifreq \<Longrightarrow> pi_freq_pos it = ?b \<and> drop ?b (pi_freqs it) = map snd (drop k (take L ps))"
    using buf k by (auto simp: pi_buffer_def)
  have bl: "?b < bf_size bf" using b(1) k by simp
  have "pi_docs it ! ?b # drop (Suc ?b) (pi_docs it) = (fst (ps ! k) - pl_prev ps k) # pl_deltas ps (Suc k) L"
    using Cons_nth_drop_Suc [of ?b "pi_docs it"] bl L b(2) pl_deltas_Cons [OF k L(1)] by simp
  then have docs: "pi_docs it ! ?b = fst (ps ! k) - pl_prev ps k" "drop (Suc ?b) (pi_docs it) = pl_deltas ps (Suc k) L" by simp_all
  have freqs: "pi_freqs it ! ?b = snd (ps ! k) \<and> drop (Suc ?b) (pi_freqs it) = map snd (drop (Suc k) (take L ps))" if ifreq
  proof -
    have "pi_freqs it ! ?b # drop (Suc ?b) (pi_freqs it) = map snd (take L ps ! k # drop (Suc k) (take L ps))"
      using Cons_nth_drop_Suc [of ?b "pi_freqs it"] Cons_nth_drop_Suc [of k "take L ps"] bl L k b(3) [OF that] by simp
    then show ?thesis using k by simp
  qed
  show "pi_loaded stream rest bf ffreq ps f L (pi_deliver ifreq it)" "pi_buffer bf ifreq ps (Suc k) L (pi_deliver ifreq it)"
    "pi_doc (pi_deliver ifreq it) = fst (ps ! k)" "ifreq \<Longrightarrow> pi_freq (pi_deliver ifreq it) = snd (ps ! k)"
    using ld docs freqs b k d L by (auto simp: pi_deliver_def Let_def pi_loaded_def pi_buffer_def)
qed

lemma deliver:
  assumes "pi_loaded stream rest bf ffreq ps f L it" "pi_buffer bf ifreq ps k L it" "k < L" "pi_doc it = pl_prev ps k"
  shows "pi_at stream rest bf ifreq ffreq ps f (Suc k) (pi_deliver ifreq it)"
  using deliver_buffer [OF assms] by (auto simp: pi_at_def pi_pos_def)

lemma next_correct:
  assumes at: "pi_pos stream rest bf ifreq ffreq ps f k it" and fr: "ifreq \<Longrightarrow> ffreq" and gaps: "pl_gaps ffreq ps"
    and val: "\<And>i. i < length ps \<Longrightarrow> fst (ps ! i) \<noteq> 0"
  shows "k < length ps \<Longrightarrow> \<exists>it'. pi_next bf io ifreq ffreq it = Some (True, it') \<and> pi_at stream rest bf ifreq ffreq ps f (Suc k) it'"
    and "k = length ps \<Longrightarrow> pi_next bf io ifreq ffreq it = Some (False, it\<lparr>pi_doc := doc_eof32\<rparr>)"
proof -
  obtain L where L: "pi_loaded stream rest bf ffreq ps f L it" "pi_buffer bf ifreq ps k L it" "k = 0 \<longrightarrow> L = 0"
    and d: "pi_doc it = (if k = 0 then 0 else fst (ps ! (k - 1)))"
    using at by (auto simp: pi_pos_def)
  have e: "pi_begin it = length (pi_docs it) \<longleftrightarrow> k = L" "pi_left it = length ps - L" "k \<le> L" "L \<le> length ps"
    using L by (auto simp: pi_loaded_def pi_buffer_def)
  show "pi_next bf io ifreq ffreq it = Some (False, it\<lparr>pi_doc := doc_eof32\<rparr>)" if "k = length ps"
    using that e by (simp add: pi_next_def)
  show "\<exists>it'. pi_next bf io ifreq ffreq it = Some (True, it') \<and> pi_at stream rest bf ifreq ffreq ps f (Suc k) it'" if k: "k < length ps"
  proof (cases "k = L")
    case True
    have "L < length ps" using True k by simp
    from refill_correct [where ifreq = ifreq, OF L(1) this fr gaps] True
    obtain it1 L' where r: "pi_refill bf io ifreq ffreq it = Some it1" "k < L'" "pi_loaded stream rest bf ffreq ps f L' it1"
      "pi_buffer bf ifreq ps k L' it1" "pi_doc it1 = pi_doc it" by blast
    let ?it = "it1\<lparr>pi_doc := pi_doc it1 + of_bool (pi_doc it1 = 0)\<rparr>"
    have "pi_doc ?it = pl_prev ps k" using r(5) d val [of "k - 1"] k by (simp add: pl_prev_def)
    moreover have "pi_loaded stream rest bf ffreq ps f L' ?it" "pi_buffer bf ifreq ps k L' ?it"
      using r(3,4) by (simp_all add: pi_loaded_def pi_buffer_def)
    ultimately have "pi_at stream rest bf ifreq ffreq ps f (Suc k) (pi_deliver ifreq ?it)" using deliver r(2) by blast
    then show ?thesis using True k e(1,2) r(1) by (simp add: pi_next_def Let_def)
  next
    case False
    then have k': "k < L" "0 < k" using e L(3) by auto
    then have "pi_doc it = pl_prev ps k" using d by (simp add: pl_prev_def)
    from deliver [OF L(1,2) k'(1) this] show ?thesis using False e(1) by (simp add: pi_next_def Let_def)
  qed
qed

lemma drain_correct:
  assumes "pi_at stream rest bf ifreq ffreq ps f k it" "ifreq \<Longrightarrow> ffreq" "pl_gaps ffreq ps" "\<And>i. i < length ps \<Longrightarrow> fst (ps ! i) \<noteq> 0"
    and "k \<le> length ps" "length ps - k < n"
  shows "\<exists>qs. pr_drain n bf io ifreq ffreq (Inr it) = Some qs \<and> map fst qs = map fst (drop k ps) \<and> (ifreq \<longrightarrow> qs = drop k ps)"
  using assms(1,5,6)
proof (induction n arbitrary: k it)
  case (Suc n)
  have "pi_pos stream rest bf ifreq ffreq ps f k it" using Suc.prems(1) by (simp add: pi_at_def)
  note nx = next_correct [OF this assms(2,3,4)]
  show ?case
  proof (cases "k = length ps")
    case True
    then show ?thesis using nx(2) by simp
  next
    case False
    then have k: "k < length ps" using Suc.prems(2) by simp
    then obtain it1 where it1: "pi_next bf io ifreq ffreq it = Some (True, it1)" "pi_at stream rest bf ifreq ffreq ps f (Suc k) it1"
      using nx(1) by blast
    have le: "Suc k \<le> length ps" "length ps - Suc k < n" using k Suc.prems(3) by auto
    from Suc.IH [OF it1(2) le] obtain qs where qs: "pr_drain n bf io ifreq ffreq (Inr it1) = Some qs" "map fst qs = map fst (drop (Suc k) ps)"
      "ifreq \<longrightarrow> qs = drop (Suc k) ps" by blast
    have "pi_doc it1 = fst (ps ! k)" "ifreq \<longrightarrow> pi_freq it1 = snd (ps ! k)" using it1(2) by (auto simp: pi_at_def pi_pos_def)
    then show ?thesis using it1(1) qs Cons_nth_drop_Suc [OF k, symmetric] by simp
  qed
qed simp

text \<open>A list of several documents that is stored at the start that its meta data tells.\<close>

lemma prepare_at:
  assumes "stream f s" "drop (unat (tm_doc_start meta)) f = pl_rest bf ffreq ps 0 @ r" "unat (tm_doc_start meta) \<le> length f"
    and "unat (tm_docs_count meta) = length ps" "length freqs = bf_size bf" "length enc_buf = bf_size bf"
  shows "\<exists>it. pi_prepare io meta (pi_new bf freqs enc_buf s) = Some it \<and> pi_at stream rest bf ifreq ffreq ps f 0 it"
proof -
  obtain s' where s': "in_seek io (unat (tm_doc_start meta)) s = Some s'" "stream f s'" "rest s' = pl_rest bf ffreq ps 0 @ r"
    using seek_law [OF assms(1,3)] assms(2) by auto
  let ?it = "(pi_new bf freqs enc_buf s)\<lparr>pi_left := length ps, pi_in := s'\<rparr>"
  have "pi_loaded stream rest bf ffreq ps f 0 ?it" using s' assms(5,6) by (auto simp: pi_loaded_def pi_new_def)
  moreover have "pi_buffer bf ifreq ps 0 0 ?it" by (simp add: pi_buffer_def pi_new_def)
  ultimately have "pi_at stream rest bf ifreq ffreq ps f 0 ?it" unfolding pi_at_def pi_pos_def by (simp add: pi_new_def)
  then show ?thesis using s'(1) assms(4) by (simp add: pi_prepare_def pi_new_def)
qed

end

section \<open>The union of lists\<close>

lemma union_set_correct:
  assumes "unat d < 64 * length bits"
  shows "\<exists>bits'. union_set d bits = Some bits' \<and> length bits' = length bits \<and> words_set bits' = insert (unat d) (words_set bits)"
proof -
  let ?w = "unat d div 64" and ?b = "unat d mod 64"
  have w: "?w < length bits" using assms by auto
  have "i \<in> words_set (bits[?w := set_bit_w (bits ! ?w) ?b]) \<longleftrightarrow> i = unat d \<or> i \<in> words_set bits" for i
  proof (cases "i div 64 = ?w")
    case True
    then have "i mod 64 = ?b \<longleftrightarrow> i = unat d" by (metis div_mult_mod_eq)
    moreover have "i < 64 * length bits" using True w by auto
    ultimately show ?thesis using True w by (auto simp: words_set_update_iff bit_set_bit_w words_set_def)
  next
    case False
    then show ?thesis using w by (auto simp: words_set_update_iff)
  qed
  then show ?thesis using w by (auto simp: union_set_def Let_def)
qed

lemma union_block_correct:
  assumes "\<forall>d\<in>set docs. unat d < 64 * length bits"
  shows "\<exists>bits'. union_block (delta_encode_from prev docs) prev bits = Some (last (prev # docs), bits') \<and> length bits' = length bits \<and>
    words_set bits' = words_set bits \<union> unat ` set docs"
  using assms
proof (induction docs arbitrary: prev bits)
  case (Cons d docs)
  obtain b1 where b1: "union_set d bits = Some b1" "length b1 = length bits" "words_set b1 = insert (unat d) (words_set bits)"
    using union_set_correct [of d bits] Cons.prems by auto
  then have le: "\<forall>d\<in>set docs. unat d < 64 * length b1" using Cons.prems by simp
  from Cons.IH [OF le, of d] show ?case using b1 by auto
qed simp

lemma last_docs:
  assumes "k < m" "m \<le> length ps"
  shows "last (p # map fst (drop k (take m ps))) = pl_prev ps m"
proof -
  have "drop k (take m ps) \<noteq> []" using assms by simp
  then have "last (p # map fst (drop k (take m ps))) = fst (last (take m ps))" using last_drop [of k "take m ps"] assms by (simp add: last_map)
  also have "last (take m ps) = ps ! (m - 1)" using assms by (subst last_conv_nth) (auto simp: min_def)
  finally show ?thesis using assms by (simp add: pl_prev_def)
qed

lemma drop_take_split:
  assumes "k \<le> m" "m \<le> l" "m \<le> length ps"
  shows "drop k (take l ps) = drop k (take m ps) @ drop m (take l ps)"
proof -
  have "take l ps = take m ps @ drop m (take l ps)" using append_take_drop_id [of m "take l ps"] assms(2) by (simp add: min_def)
  moreover have "drop k (take m ps @ ys) = drop k (take m ps) @ ys" for ys using assms(1,3) by simp
  ultimately show ?thesis by metis
qed

text \<open>The documents of a part of a list.\<close>

abbreviation pl_docs :: "(u32 \<times> u32) list \<Rightarrow> nat set" where
  "pl_docs ps \<equiv> (unat \<circ> fst) ` set ps"

context postings_input
begin

lemma union_blocks_correct:
  assumes "stream f s" "rest s = concat (map (pl_block_bytes bf ffreq ps) [q..<q + n]) @ r" "q + n \<le> length ps div bf_size bf"
    and "\<forall>p\<in>set ps. unat (fst p) < 64 * length bits" "length enc_buf = bf_size bf" "length docs = bf_size bf"
  shows "\<exists>s' bits'. union_blocks bf io ffreq enc_buf n docs s (pl_prev ps (bf_size bf * q)) bits =
      Some (s', pl_prev ps (bf_size bf * (q + n)), bits') \<and> stream f s' \<and> rest s' = r \<and> length bits' = length bits \<and>
    words_set bits' = words_set bits \<union> pl_docs (drop (bf_size bf * q) (take (bf_size bf * (q + n)) ps))"
  using assms
proof (induction n arbitrary: q s docs bits)
  case 0
  then show ?case by simp
next
  case (Suc n)
  let ?B = "bf_size bf" and ?prev = "pl_prev ps (bf_size bf * q)" and ?blk = "pl_block (bf_size bf) ps q"
  let ?tl = "concat (map (pl_block_bytes bf ffreq ps) [Suc q..<Suc q + n]) @ r"
  have le: "?B * Suc q \<le> length ps" using Suc.prems(3) by (metis add_Suc_right add_leE div_times_less_eq_dividend le_trans mult.commute mult_le_mono2 add_Suc)
  have blk: "?blk = drop (?B * q) (take (?B * Suc q) ps)" by (simp add: pl_block_def take_drop add.commute)
  have lb: "length ?blk = ?B" using le blk by simp
  have d: "length (delta_encode_from ?prev (map fst ?blk)) = ?B" using lb by simp
  have r0: "rest s = block_bytes bf (delta_encode_from ?prev (map fst ?blk)) @ (if ffreq then block_bytes bf (map snd ?blk) else []) @ ?tl"
  proof -
    have "[q..<q + Suc n] = q # [Suc q..<Suc q + n]" by (simp add: upt_conv_Cons del: upt_Suc)
    then show ?thesis using Suc.prems(2) by (simp add: pl_block_bytes_def [of bf ffreq ps q] del: upt_Suc)
  qed
  obtain s1 where s1: "read_block bf io enc_buf docs s = Some (delta_encode_from ?prev (map fst ?blk), s1)" "stream f s1"
    "rest s1 = (if ffreq then block_bytes bf (map snd ?blk) else []) @ ?tl"
    using read_block_at(1) [OF index_source_axioms Suc.prems(1) r0 d Suc.prems(6), of enc_buf] Suc.prems(5)
    by (elim meta_impE exE conjE) (simp, rule that)
  have "\<exists>s2. (if ffreq then skip_block bf io s1 else Some s1) = Some s2 \<and> stream f s2 \<and> rest s2 = ?tl"
  proof (cases ffreq)
    case True
    then have r1: "rest s1 = block_bytes bf (map snd ?blk) @ ?tl" using s1(3) by simp
    have lm: "length (map snd ?blk) = ?B" using lb by simp
    show ?thesis using read_block_at(2) [OF index_source_axioms s1(2) r1 lm Suc.prems(6), of enc_buf] Suc.prems(5) True by auto
  qed (use s1 in auto)
  then obtain s2 where s2: "(if ffreq then skip_block bf io s1 else Some s1) = Some s2" "stream f s2" "rest s2 = ?tl" by blast
  have "\<forall>d\<in>set (map fst ?blk). unat d < 64 * length bits" using Suc.prems(4) by (auto simp: blk dest: in_set_dropD in_set_takeD)
  from union_block_correct [OF this, of ?prev] obtain b1 where b1:
    "union_block (delta_encode_from ?prev (map fst ?blk)) ?prev bits = Some (last (?prev # map fst ?blk), b1)" "length b1 = length bits"
    "words_set b1 = words_set bits \<union> unat ` set (map fst ?blk)" by blast
  have lst: "last (?prev # map fst ?blk) = pl_prev ps (?B * Suc q)" using last_docs [OF _ le, of "?B * q"] size_law(2) by (simp add: blk)
  have p: "Suc q + n \<le> length ps div ?B" "\<forall>p\<in>set ps. unat (fst p) < 64 * length b1" using Suc.prems(3,4) b1(2) by simp_all
  from Suc.IH [OF s2(2,3) p Suc.prems(5) d] obtain s' bits' where ih:
    "union_blocks bf io ffreq enc_buf n (delta_encode_from ?prev (map fst ?blk)) s2 (pl_prev ps (?B * Suc q)) b1 =
      Some (s', pl_prev ps (?B * (Suc q + n)), bits')" "stream f s'" "rest s' = r" "length bits' = length b1"
    "words_set bits' = words_set b1 \<union> pl_docs (drop (?B * Suc q) (take (?B * (Suc q + n)) ps))" by blast
  have split: "drop (?B * q) (take (?B * (Suc q + n)) ps) = ?blk @ drop (?B * Suc q) (take (?B * (Suc q + n)) ps)"
    using drop_take_split [of "?B * q" "?B * Suc q" "?B * (Suc q + n)" ps] le by (simp add: blk)
  have eq: "words_set bits' = words_set bits \<union> pl_docs (drop (?B * q) (take (?B * (q + Suc n)) ps))"
    using ih(5) b1(3) split by (simp add: image_Un image_image Un_assoc)
  show ?case using s1(1) s2(1) b1(1,2) lst ih(1-4) eq by simp
qed

lemma union_tail_correct:
  assumes "stream f s" "rest s = concat (map op_bytes (tail_ops ffreq prev xs)) @ r" "\<forall>p\<in>set xs. unat (fst p) < 64 * length bits"
    and "ffreq \<Longrightarrow> \<forall>d\<in>set (delta_encode_from prev (map fst xs)). unat d < 2 ^ 31"
  shows "\<exists>s' bits'. union_tail io ffreq (length xs) s prev bits = Some (s', bits') \<and> stream f s' \<and> length bits' = length bits \<and>
    words_set bits' = words_set bits \<union> pl_docs xs"
  using assms
proof (induction xs arbitrary: s prev bits)
  case (Cons x xs)
  obtain doc freq where x: "x = (doc, freq)" by fastforce
  let ?tl = "concat (map op_bytes (tail_ops ffreq doc xs)) @ r" and ?d = "doc - prev"
  have u: "shift_unpack_32 (shift_pack_32 ?d b) = (?d, b)" if ffreq for b
    using Cons.prems(4) [OF that] x by (intro shift_unpack_pack) simp
  have "\<exists>v s1 s2. in_vint io s = Some (v, s1) \<and> (if ffreq then let (delta, single) = shift_unpack_32 v
         in if single then Some (delta, s1) else do { (_, s2) \<leftarrow> in_vint io s1; Some (delta, s2) }
       else Some (v, s1)) = Some (?d, s2) \<and> stream f s2 \<and> rest s2 = ?tl"
  proof (cases "ffreq \<and> freq \<noteq> 1")
    case True
    then have r0: "rest s = vwrite_u32 (shift_pack_32 ?d False) @ vwrite_u32 freq @ ?tl" using Cons.prems(2) x by simp
    obtain s1 where s1: "in_vint io s = Some (shift_pack_32 ?d False, s1)" "stream f s1" "rest s1 = vwrite_u32 freq @ ?tl"
      using vint_at [OF Cons.prems(1) r0] by blast
    obtain s2 where "in_vint io s1 = Some (freq, s2)" "stream f s2" "rest s2 = ?tl" using vint_at [OF s1(2,3)] by blast
    then show ?thesis using s1 True u [of False] by auto
  next
    case False
    let ?v = "if ffreq then shift_pack_32 ?d True else ?d"
    have r0: "rest s = vwrite_u32 ?v @ ?tl" using Cons.prems(2) x False by auto
    obtain s1 where s1: "in_vint io s = Some (?v, s1)" "stream f s1" "rest s1 = ?tl" using vint_at [OF Cons.prems(1) r0] by blast
    then show ?thesis using False u [of True] by (cases ffreq) auto
  qed
  then obtain v s1 s2 where s2: "in_vint io s = Some (v, s1)" "(if ffreq then let (delta, single) = shift_unpack_32 v
         in if single then Some (delta, s1) else do { (_, s2) \<leftarrow> in_vint io s1; Some (delta, s2) }
       else Some (v, s1)) = Some (?d, s2)" "stream f s2" "rest s2 = ?tl" by blast
  obtain b1 where b1: "union_set doc bits = Some b1" "length b1 = length bits" "words_set b1 = insert (unat doc) (words_set bits)"
    using union_set_correct [of doc bits] Cons.prems(3) x by auto
  have p: "\<forall>p\<in>set xs. unat (fst p) < 64 * length b1" "ffreq \<Longrightarrow> \<forall>d\<in>set (delta_encode_from doc (map fst xs)). unat d < 2 ^ 31"
    using Cons.prems(3,4) b1(2) x by simp_all
  from Cons.IH [OF s2(3,4) p] obtain s' bits' where "union_tail io ffreq (length xs) s2 doc b1 = Some (s', bits')" "stream f s'"
    "length bits' = length b1" "words_set bits' = words_set b1 \<union> pl_docs xs" by blast
  then show ?case using s2(1,2) b1 x by simp
qed simp

end

text \<open>A list is stored in the file, where its meta data says.\<close>

definition pl_stored :: "block_fns \<Rightarrow> bool \<Rightarrow> u8 list \<Rightarrow> term_meta \<Rightarrow> (u32 \<times> u32) list \<Rightarrow> bool" where
  "pl_stored bf hf f meta ps \<longleftrightarrow> ps \<noteq> [] \<and> unat (tm_docs_count meta) = length ps \<and> pl_gaps hf ps \<and>
     (if length ps = 1 then 1 + e_single_doc meta = fst (ps ! 0)
      else unat (tm_doc_start meta) \<le> length f \<and> (\<exists>r. drop (unat (tm_doc_start meta)) f = pl_rest bf hf ps 0 @ r))"

context postings_input
begin

lemma union_list_correct:
  assumes "stream f s" "rest s = pl_rest bf ffreq ps 0 @ r" "pl_gaps ffreq ps"
    and "\<forall>p\<in>set ps. unat (fst p) < 64 * length bits" "length enc_buf = bf_size bf" "length docs = bf_size bf"
  shows "\<exists>s' bits'. union_list bf io ffreq docs enc_buf (length ps) s bits = Some (s', bits') \<and> stream f s' \<and> length bits' = length bits \<and>
    words_set bits' = words_set bits \<union> pl_docs ps"
proof -
  let ?B = "bf_size bf" and ?q = "length ps div bf_size bf"
  have r0: "rest s = concat (map (pl_block_bytes bf ffreq ps) [0..<0 + ?q]) @ pl_tail_bytes bf ffreq ps @ r"
    using assms(2) by (simp add: pl_rest_def)
  have le: "0 + ?q \<le> length ps div ?B" by simp
  obtain s1 b1 where u1: "union_blocks bf io ffreq enc_buf ?q docs s 1 bits = Some (s1, pl_prev ps (?B * ?q), b1)" "stream f s1"
    "rest s1 = pl_tail_bytes bf ffreq ps @ r" "length b1 = length bits" "words_set b1 = words_set bits \<union> pl_docs (take (?B * ?q) ps)"
    using union_blocks_correct [OF assms(1) r0 le assms(4-6)] by (auto simp: pl_prev_def)
  let ?xs = "drop (?B * ?q) ps"
  have lx: "length ps mod ?B = length ?xs" by (simp add: minus_mult_div_eq_mod)
  have r1: "rest s1 = concat (map op_bytes (tail_ops ffreq (pl_prev ps (?B * ?q)) ?xs)) @ r"
    using u1(3) by (simp add: pl_tail_bytes_def Let_def)
  have le2: "\<forall>p\<in>set ?xs. unat (fst p) < 64 * length b1" using assms(4) u1(4) by (auto dest: in_set_dropD)
  have "delta_encode_from (pl_prev ps (?B * ?q)) (map fst ?xs) = pl_deltas ps (?B * ?q) (length ps)" by (simp add: pl_deltas_def)
  then have g: "\<forall>d\<in>set (delta_encode_from (pl_prev ps (?B * ?q)) (map fst ?xs)). unat d < 2 ^ 31" if ffreq
    using set_pl_deltas [of "?B * ?q" "length ps" ps] assms(3) that by (auto simp: pl_gaps_def)
  from union_tail_correct [OF u1(2) r1 le2 g] obtain s2 b2 where u2: "union_tail io ffreq (length ?xs) s1 (pl_prev ps (?B * ?q)) b1 = Some (s2, b2)"
    "stream f s2" "length b2 = length b1" "words_set b2 = words_set b1 \<union> pl_docs ?xs" by blast
  have "pl_docs ps = pl_docs (take (?B * ?q) ps) \<union> pl_docs ?xs" by (metis append_take_drop_id image_Un set_append)
  then show ?thesis using u1 u2 lx by (simp add: union_list_def Un_assoc)
qed

lemma bit_union_correct:
  assumes "stream f s" "list_all2 (pl_stored bf ffreq f) metas pss" "\<forall>ps\<in>set pss. \<forall>p\<in>set ps. unat (fst p) < 64 * length bits"
    and "length enc_buf = bf_size bf" "length docs = bf_size bf"
  shows "\<exists>bits'. pr_bit_union bf io ffreq docs enc_buf metas count s bits = Some (count + sum_list (map length pss), bits') \<and>
    length bits' = length bits \<and> words_set bits' = words_set bits \<union> (\<Union>ps\<in>set pss. pl_docs ps)"
  using assms(2,1,3)
proof (induction metas pss arbitrary: count s bits rule: list_all2_induct)
  case (Cons meta metas ps pss)
  have le: "\<forall>p\<in>set ps. unat (fst p) < 64 * length bits" and st: "pl_stored bf ffreq f meta ps" using Cons by auto
  have n: "unat (tm_docs_count meta) = length ps" using st by (simp add: pl_stored_def)
  show ?case
  proof (cases "length ps = 1")
    case True
    then obtain p where p: "ps = [p]" by (auto simp: length_Suc_conv)
    have d: "1 + e_single_doc meta = fst p" using st p by (simp add: pl_stored_def)
    obtain b1 where b1: "union_set (fst p) bits = Some b1" "length b1 = length bits" "words_set b1 = insert (unat (fst p)) (words_set bits)"
      using union_set_correct [of "fst p" bits] le p by auto
    have "\<forall>ps\<in>set pss. \<forall>p\<in>set ps. unat (fst p) < 64 * length b1" using Cons.prems(2) b1(2) by simp
    from Cons.IH [OF Cons.prems(1) this, of "count + 1"] show ?thesis using b1 d n p True by (auto simp: word_less_nat_alt)
  next
    case False
    then have big: "1 < length ps" using st by (cases ps) (auto simp: pl_stored_def)
    obtain r where r: "drop (unat (tm_doc_start meta)) f = pl_rest bf ffreq ps 0 @ r" "unat (tm_doc_start meta) \<le> length f"
      using st False by (auto simp: pl_stored_def)
    obtain s1 where s1: "in_seek io (unat (tm_doc_start meta)) s = Some s1" "stream f s1" "rest s1 = pl_rest bf ffreq ps 0 @ r"
      using seek_law [OF Cons.prems(1) r(2)] r(1) by auto
    have "pl_gaps ffreq ps" using st by (simp add: pl_stored_def)
    from union_list_correct [OF s1(2,3) this le assms(4,5)] obtain s2 b1 where b1:
      "union_list bf io ffreq docs enc_buf (length ps) s1 bits = Some (s2, b1)" "stream f s2" "length b1 = length bits"
      "words_set b1 = words_set bits \<union> pl_docs ps" by blast
    have "\<forall>ps\<in>set pss. \<forall>p\<in>set ps. unat (fst p) < 64 * length b1" using Cons.prems(2) b1(3) by simp
    from Cons.IH [OF b1(2) this, of "count + length ps"] show ?thesis
      using b1 s1(1) n big by (auto simp: word_less_nat_alt)
  qed
qed simp

end

section \<open>The iterator over one document keeps the contract of iterators\<close>

definition sd_invar :: "nat \<Rightarrow> single_it \<Rightarrow> bool" where
  "sd_invar d it \<longleftrightarrow> doc_set {d} \<and>
     (sd_doc it = 0 \<and> unat (sd_next it) = d \<or> (unat (sd_doc it) = d \<or> sd_doc it = doc_eof32) \<and> sd_next it = doc_eof32)"

lemma unat_doc_eof32 [simp]: "unat doc_eof32 = doc_eof"
  by (simp add: doc_eof32_code doc_eof_def)

lemma eof32_iff: "x = doc_eof32 \<longleftrightarrow> unat x = doc_eof"
  by (metis unat_doc_eof32 word_unat_eq_iff)

lemma first_ge_singleton: "d < doc_eof \<Longrightarrow> first_ge {d} t = (if t \<le> d then d else doc_eof)"
  by (auto intro: first_ge_eqI first_ge_eofI)

lemma sd_next_correct:
  assumes "sd_invar d it"
  shows "\<exists>it'. sd_step it = (unat (sd_doc it') \<noteq> doc_eof, it') \<and> sd_invar d it' \<and>
    unat (sd_doc it') = first_ge {d} (unat (sd_doc it) + 1)"
proof -
  have d: "1 \<le> d" "d < doc_eof" using assms by (auto simp: sd_invar_def doc_set_def doc_min_def)
  then show ?thesis using assms
    by (auto simp: sd_invar_def sd_step_def Let_def first_ge_singleton eof32_iff)
qed

lemma sd_seek_correct:
  assumes "sd_invar d it" "unat (sd_doc it) \<le> t" "t \<le> doc_eof" "1 \<le> t"
  shows "\<exists>it'. sd_seek (of_nat t) it = Some it' \<and> sd_invar d it' \<and> unat (sd_doc it') = first_ge {d} t"
proof -
  have t: "unat (of_nat t :: u32) = t" unfolding unat_of_nat using assms(3) by (intro mod_less) (simp add: doc_eof_def)
  have d: "1 \<le> d" "d < doc_eof" using assms by (auto simp: sd_invar_def doc_set_def doc_min_def)
  have less: "sd_doc i < of_nat t \<longleftrightarrow> unat (sd_doc i) < t" for i using t by (simp add: word_less_nat_alt)
  have stop: "sd_seek (of_nat t) i = Some i" if "t \<le> unat (sd_doc i)" for i
    using that less [of i] by (subst sd_seek.simps) simp
  have step: "sd_seek (of_nat t) i = sd_seek (of_nat t) (snd (sd_step i))" if "unat (sd_doc i) < t" for i
    using that less [of i] by (subst sd_seek.simps) simp
  have late: "\<exists>it'. sd_seek (of_nat t) i = Some it' \<and> sd_invar d it' \<and> unat (sd_doc it') = first_ge {d} t"
    if i: "sd_invar d i" "0 < unat (sd_doc i)" and le: "unat (sd_doc i) \<le> t \<or> unat (sd_doc i) = first_ge {d} t" for i
  proof (cases "t \<le> unat (sd_doc i)")
    case True
    have "unat (sd_doc i) = first_ge {d} t"
      using i le True d assms(3) by (auto simp: sd_invar_def first_ge_singleton)
    then show ?thesis using stop [OF True] i(1) by auto
  next
    case False
    then have "unat (sd_doc i) = d" "sd_next i = doc_eof32" using i d assms(3) by (auto simp: sd_invar_def)
    then have "snd (sd_step i) = i\<lparr>sd_doc := doc_eof32, sd_next := doc_eof32\<rparr>" by (simp add: sd_step_def Let_def)
    then show ?thesis
      using step [of i] stop [of "snd (sd_step i)"] False i(1) assms(3) \<open>unat (sd_doc i) = d\<close> d by (simp add: sd_invar_def first_ge_singleton)
  qed
  show ?thesis
  proof (cases "unat (sd_doc it) = 0")
    case True
    then have i1: "snd (sd_step it) = it\<lparr>sd_doc := sd_next it, sd_next := doc_eof32\<rparr>" "unat (sd_next it) = d"
      "sd_seek (of_nat t) it = sd_seek (of_nat t) (snd (sd_step it))"
      using assms(1,4) d step [of it] by (auto simp: sd_step_def Let_def sd_invar_def eof32_iff)
    moreover have "sd_invar d (snd (sd_step it))" "0 < unat (sd_doc (snd (sd_step it)))" using i1 assms(1) d by (auto simp: sd_invar_def)
    moreover have "unat (sd_doc (snd (sd_step it))) \<le> t \<or> unat (sd_doc (snd (sd_step it))) = first_ge {d} t"
      using i1 d by (simp add: first_ge_singleton)
    ultimately show ?thesis using late by metis
  next
    case False
    then show ?thesis using late [OF assms(1)] assms(2) by simp
  qed
qed

interpretation single_doc: doc_iterator sd_ops "\<lambda>_. {d}" "sd_invar d" for d
proof (unfold_locales, goal_cases)
  case (1 it)
  then show ?case by (simp add: sd_invar_def)
next
  case (2 it)
  then show ?case by (auto simp: sd_invar_def sd_ops_def doc_invalid_def)
next
  case (3 it)
  then show ?case using sd_next_correct [of d it] by (auto simp: sd_ops_def)
next
  case (4 it t)
  then show ?case using sd_seek_correct [of d it t] by (auto simp: sd_ops_def doc_min_def)
qed

section \<open>From writing to reading\<close>

lemma pl_bytes_rest: "length ps \<noteq> 1 \<Longrightarrow> pl_bytes bf hf L ps = pl_rest bf hf ps 0 @ pl_skip_bytes bf hf L ps"
  by (simp add: pl_bytes_def pl_rest_def pl_blocks_def)

lemma e_single_doc_set [simp]: "ucast (tm_ext (set_single_doc d m)) = d"
  by (rule bit_word_eqI) (auto simp: set_single_doc_def bit_simps)

lemma pl_gapsI:
  assumes "pl_input n ps" "hf \<longrightarrow> n < 2 ^ 31"
  shows "pl_gaps hf ps"
proof -
  have "unat (fst (ps ! k) - pl_prev ps k) < 2 ^ 31" if hf and k: "k < length ps" for k
  proof -
    have "pl_prev ps k \<le> fst (ps ! k)"
      using pl_inputD(1) [OF assms(1) k] pl_inputD(2) [OF assms(1), of "k - 1" k] k
      by (cases "k = 0") (auto simp: pl_prev_def word_le_nat_alt word_less_nat_alt)
    then have "unat (fst (ps ! k) - pl_prev ps k) \<le> unat (fst (ps ! k))" by (simp add: unat_sub)
    then show ?thesis using pl_inputD(1) [OF assms(1) k] assms(2) that(1) by simp
  qed
  then show ?thesis by (simp add: pl_gaps_def)
qed

lemma single_drain:
  assumes "1 + e_single_doc meta \<noteq> doc_eof32"
  shows "pr_drain (Suc (Suc n)) bf io ifreq ffreq (Inl (sd_prepare ifreq meta)) =
    Some [(1 + e_single_doc meta, if ifreq then tm_freq meta else 0)]"
  using assms by (simp add: sd_prepare_def sd_step_def Let_def)

text \<open>What the meta data of a list becomes when it is stored with the terms and read back.\<close>

lemma meta_read_back:
  assumes ps: "ps \<noteq> []" "length ps < 2 ^ 32" "hf \<longleftrightarrow> sum_list (map snd ps) \<noteq> 0"
    and "meta = pl_meta bf hf start ps m0" "bytes = concat (map op_bytes (encode_ops (bf_size bf) last_state meta))"
  shows "\<exists>meta'. pr_decode (bf_size bf) hf (bytes @ t) (old\<lparr>tm_doc_start := tm_doc_start last_state\<rparr>) = Some (length bytes, meta') \<and>
    tm_docs_count meta' = of_nat (length ps) \<and> tm_doc_start meta' = of_nat start \<and> (hf \<longrightarrow> tm_freq meta' = sum_list (map snd ps)) \<and>
    (length ps = 1 \<longrightarrow> 1 + e_single_doc meta' = fst (ps ! 0)) \<and>
    (bf_size bf < length ps \<longrightarrow> length ps \<noteq> 1 \<longrightarrow> tm_ext meta' =
      of_nat (length (pl_blocks bf hf ps (length ps div bf_size bf) @ pl_tail_bytes bf hf ps)))"
proof -
  have un: "unat (of_nat (length ps) :: u32) = length ps" unfolding unat_of_nat using ps(2) by (intro mod_less) simp
  then have one: "(of_nat (length ps) :: u32) = 1 \<longleftrightarrow> length ps = 1" by (auto simp: word_unat_eq_iff)
  have m: "tm_docs_count meta = of_nat (length ps)" "tm_freq meta = sum_list (map snd ps)" "tm_doc_start meta = of_nat start"
    "length ps = 1 \<Longrightarrow> e_single_doc meta = fst (ps ! 0) - 1"
    "bf_size bf < length ps \<Longrightarrow> length ps \<noteq> 1 \<Longrightarrow> tm_ext meta =
      of_nat (length (pl_blocks bf hf ps (length ps div bf_size bf) @ pl_tail_bytes bf hf ps))"
    by (simp_all add: assms(4) pl_meta_def Let_def e_single_doc_def set_single_doc_def [symmetric])
      (simp_all add: set_single_doc_def)
  have "hf \<longleftrightarrow> tm_freq meta \<noteq> 0" using ps(3) m(2) by simp
  from decode_encode [OF this, of "bf_size bf" last_state t old] show ?thesis
    unfolding assms(5) [symmetric] m(1) un one using m by (auto simp: e_single_doc_def)
qed

text \<open>A stored list is read by the iterator of its term.\<close>

context postings_input
begin

lemma stored_drain:
  assumes s: "stream f s" and st: "pl_stored bf hf f meta ps" and inp: "pl_input n ps" and fr: "ifreq \<longrightarrow> length ps = 1 \<longrightarrow> tm_freq meta = snd (ps ! 0)"
    and "ifreq \<longrightarrow> hf" "length freqs = bf_size bf" "length enc_buf = bf_size bf" "length ps < k"
  shows "\<exists>it qs. pr_iterator bf io ifreq freqs enc_buf meta s = Some it \<and> pr_drain k bf io ifreq hf it = Some qs \<and>
      map fst qs = map fst ps \<and> (ifreq \<longrightarrow> qs = ps)"
proof -
  have un: "unat (tm_docs_count meta) = length ps" "ps \<noteq> []" "pl_gaps hf ps" using st by (auto simp: pl_stored_def)
  then have cnt: "tm_docs_count meta \<noteq> 0" "tm_docs_count meta = 1 \<longleftrightarrow> length ps = 1" by (auto simp: word_unat_eq_iff)
  have val: "fst (ps ! i) \<noteq> 0" if "i < length ps" for i using pl_inputD(1) [OF inp that] by auto
  show ?thesis
  proof (cases "length ps = 1")
    case True
    then obtain p where p: "ps = [p]" by (auto simp: length_Suc_conv)
    obtain k' where k': "k = Suc (Suc k')" using assms(8) True by (cases k; cases "k - 1") auto
    have "unat doc_eof32 = 2 ^ 32 - 1" by (simp add: doc_eof32_code)
    then have "unat (fst p) \<noteq> unat doc_eof32" using inp p by (auto simp: pl_input_def)
    then have "fst p \<noteq> doc_eof32" by metis
    then have "pr_drain k bf io ifreq hf (Inl (sd_prepare ifreq meta)) = Some [(fst p, if ifreq then tm_freq meta else 0)]"
      using single_drain [of meta k' bf io ifreq hf] st p unfolding k' pl_stored_def by (simp del: pr_drain.simps)
    then show ?thesis using fr cnt True p by (auto simp: pr_iterator_def)
  next
    case False
    obtain r where at: "drop (unat (tm_doc_start meta)) f = pl_rest bf hf ps 0 @ r" "unat (tm_doc_start meta) \<le> length f"
      using st False by (auto simp: pl_stored_def)
    obtain it where it: "pi_prepare io meta (pi_new bf freqs enc_buf s) = Some it" "pi_at stream rest bf ifreq hf ps f 0 it"
      using prepare_at [OF s at un(1) assms(6,7)] by metis
    show ?thesis
      using drain_correct [OF it(2) _ un(3) val _, of k] assms(5,8) it(1) cnt False by (auto simp: pr_iterator_def)
  qed
qed

end

text \<open>What has been written, and the meta data that is read back.\<close>

lemma written_meta:
  assumes "postings_streams ms contents ok io out_contents out_ok bf" and "pw_ready ok out_ok bf n pw" "pl_input n ps" "ps \<noteq> []"
    and "pw_has_freq pw \<longleftrightarrow> sum_list (map snd ps) \<noteq> 0"
  shows "\<exists>meta pw' meta'. pw_write bf ms io ps term_meta_new pw = Some (meta, pw') \<and>
    (let bytes = concat (map op_bytes (encode_ops (bf_size bf) last_state meta))
     in pr_decode (bf_size bf) (pw_has_freq pw) (bytes @ t) (old\<lparr>tm_doc_start := tm_doc_start last_state\<rparr>) = Some (length bytes, meta')) \<and>
    out_contents (pw_doc_out pw') = out_contents (pw_doc_out pw) @ pl_bytes bf (pw_has_freq pw) (pw_levels bf n) ps \<and>
    unat (tm_docs_count meta') = length ps \<and> tm_doc_start meta' = of_nat (length (out_contents (pw_doc_out pw))) \<and>
    (pw_has_freq pw \<longrightarrow> tm_freq meta' = sum_list (map snd ps)) \<and> (length ps = 1 \<longrightarrow> 1 + e_single_doc meta' = fst (ps ! 0)) \<and>
    (bf_size bf < length ps \<longrightarrow> length ps \<noteq> 1 \<longrightarrow> tm_ext meta' =
      of_nat (length (pl_blocks bf (pw_has_freq pw) ps (length ps div bf_size bf) @ pl_tail_bytes bf (pw_has_freq pw) ps)))"
proof -
  let ?hf = "pw_has_freq pw" and ?start = "length (out_contents (pw_doc_out pw))"
  obtain meta pw' where w: "pw_write bf ms io ps term_meta_new pw = Some (meta, pw')" "meta = pl_meta bf ?hf ?start ps term_meta_new"
    "out_contents (pw_doc_out pw') = out_contents (pw_doc_out pw) @ pl_bytes bf ?hf (pw_levels bf n) ps"
    using postings_streams.write_correct [OF assms(1-4), of term_meta_new] by blast
  have len: "length ps < 2 ^ 32" using pl_inputD(4) [OF assms(3)] .
  have un: "unat (of_nat (length ps) :: u32) = length ps" unfolding unat_of_nat using len by (intro mod_less) simp
  show ?thesis using w meta_read_back [OF assms(4) len assms(5) w(2) refl, of last_state t old] un by (fastforce simp: Let_def)
qed

text \<open>A list that has been written, with its meta data read back, is stored.\<close>

lemma written_stored:
  assumes "postings_streams ms contents ok io out_contents out_ok bf" and "pw_ready ok out_ok bf n pw" "pl_input n ps" "ps \<noteq> []"
    and "pw_has_freq pw \<longrightarrow> n < 2 ^ 31" "pw_has_freq pw \<longleftrightarrow> sum_list (map snd ps) \<noteq> 0"
    and "length (out_contents (pw_doc_out pw)) < 2 ^ 64"
  shows "\<exists>meta pw' meta'. pw_write bf ms io ps term_meta_new pw = Some (meta, pw') \<and>
    (let bytes = concat (map op_bytes (encode_ops (bf_size bf) last_state meta))
     in pr_decode (bf_size bf) (pw_has_freq pw) (bytes @ t) (old\<lparr>tm_doc_start := tm_doc_start last_state\<rparr>) = Some (length bytes, meta')) \<and>
    (\<forall>more. pl_stored bf (pw_has_freq pw) (out_contents (pw_doc_out pw') @ more) meta' ps) \<and>
    (pw_has_freq pw \<longrightarrow> length ps = 1 \<longrightarrow> tm_freq meta' = snd (ps ! 0))"
proof -
  let ?hf = "pw_has_freq pw" and ?start = "length (out_contents (pw_doc_out pw))"
  obtain meta pw' meta' where w: "pw_write bf ms io ps term_meta_new pw = Some (meta, pw')"
    "let bytes = concat (map op_bytes (encode_ops (bf_size bf) last_state meta))
     in pr_decode (bf_size bf) ?hf (bytes @ t) (old\<lparr>tm_doc_start := tm_doc_start last_state\<rparr>) = Some (length bytes, meta')"
    "out_contents (pw_doc_out pw') = out_contents (pw_doc_out pw) @ pl_bytes bf ?hf (pw_levels bf n) ps"
    and m: "unat (tm_docs_count meta') = length ps" "tm_doc_start meta' = of_nat ?start" "?hf \<longrightarrow> tm_freq meta' = sum_list (map snd ps)"
      "length ps = 1 \<longrightarrow> 1 + e_single_doc meta' = fst (ps ! 0)"
    using written_meta [OF assms(1-4,6), of last_state t old] by blast
  have un: "unat (of_nat ?start :: u64) = ?start" unfolding unat_of_nat using assms(7) by simp
  have "pl_stored bf ?hf (out_contents (pw_doc_out pw') @ more) meta' ps" for more
    using m un w(3) assms(4) pl_gapsI [OF assms(3,5)] pl_bytes_rest [of ps bf ?hf "pw_levels bf n"] by (auto simp: pl_stored_def)
  moreover have "length ps = 1 \<Longrightarrow> sum_list (map snd ps) = snd (ps ! 0)" by (auto simp: length_Suc_conv)
  ultimately show ?thesis using w(1,2) m(3) by auto
qed

section \<open>Inputs of the model\<close>

interpretation list_postings: postings_input "format_traits Step" "ib_io list_source" "ib_stream fst snd (\<lambda>_. True)" "ib_rest fst" for Step
  by (simp add: postings_input_def format128.block_packer_axioms list_source.buffered.index_source_axioms)

context raw_source
begin

lemma buffered_source: "index_source (ib_io ops) (ib_stream raw_file raw_pos raw_ok) (ib_rest raw_file)"
  by (rule buffered.index_source_axioms)

end

interpretation file_postings: postings_input "format_traits Step" "ib_io (fs_in_ops slow_read slow_seek)"
    "fs_stream fst snd" "ib_rest (fs_in_file fst)" for Step
  by (simp add: postings_input_def format128.block_packer_axioms raw_source.buffered_source [OF posix_read.source [OF slow_file.posix_read_axioms]])

text \<open>A writer of the model with documents up to 9.\<close>

definition sample_writer :: "(memory_output, memory_output) postings_writer" where
  "sample_writer = pw_begin_field True
     (pw_prepare (mo_stream (\<lambda>_. 0)) memory_output_new [0] 9 (pw_new (format_traits 4) memory_output_new))"

lemma sample_writer_freq: "pw_has_freq sample_writer"
  by (simp add: sample_writer_def pw_begin_field_def)

lemma sample_writer_hyps:
  fixes ps :: "(u32 \<times> u32) list"
  defines "ps \<equiv> [(2, 1), (5, 3)]"
  shows "pw_ready mo_invar mo_invar (format_traits 4) 9 sample_writer" "pl_input 9 ps" "ps \<noteq> []"
    and "pw_has_freq sample_writer \<longrightarrow> (9 :: nat) < 2 ^ 31" "pw_has_freq sample_writer \<longleftrightarrow> sum_list (map snd ps) \<noteq> 0"
    and "True \<longrightarrow> pw_has_freq sample_writer" "length (mo_contents (pw_doc_out sample_writer)) < 2 ^ 64"
    and "length (replicate 128 (0 :: u32)) = bf_size (format_traits 4)" "length (replicate 128 (0 :: u32)) = bf_size (format_traits 4)"
    and "length ps < 3"
  using memory_postings.prepare_ready [OF mo_new_empty mo_new_empty(1), of 9 "[0]" True "\<lambda>_. 0"]
  by (simp_all add: ps_def sample_writer_def bits_to_words_def pl_input_def format_traits_def pw_begin_field_def pw_prepare_def pw_new_def mo_new_empty)

section \<open>Properties\<close>



text \<open>
  C39: \<open>bit_union\<close> over the lists of several terms, stored in the file or, for a single document, in the meta data, sets
  in an array that is long enough exactly the bits of their documents, keeps the bits that are set, and returns the total number
  of documents.
\<close>

theorem postings_union:
  assumes "postings_input bf io stream rest" "stream f s" "list_all2 (pl_stored bf has_freq f) metas pss"
    and "\<forall>ps\<in>set pss. \<forall>p\<in>set ps. unat (fst p) < 64 * length bits" "length enc_buf = bf_size bf" "length docs = bf_size bf"
  shows "\<exists>bits'. pr_bit_union bf io has_freq docs enc_buf metas 0 s bits = Some (sum_list (map length pss), bits') \<and>
    length bits' = length bits \<and> words_set bits' = words_set bits \<union> (\<Union>ps\<in>set pss. (unat \<circ> fst) ` set ps)"
  using postings_input.bit_union_correct [OF assms, of 0] by simp

theorem postings_union_witness:
  "\<exists>meta pw' meta' bits. pw_write (format_traits 4) (mo_stream (\<lambda>_. 0)) (mo_io (\<lambda>_. 0)) [(2, 1), (5, 3)] term_meta_new sample_writer =
      Some (meta, pw') \<and>
    pr_bit_union (format_traits 4) (ib_io list_source) True (replicate 128 0) (replicate 128 0)
      [meta', set_single_doc 6 (term_meta_new\<lparr>tm_docs_count := 1\<rparr>)] 0 (ib_reset 2 0 (mo_contents (pw_doc_out pw'), 0)) [0] = Some (3, bits) \<and>
    words_set bits = {2, 5, 7}"
proof -
  let ?ps = "[(2, 1), (5, 3)] :: (u32 \<times> u32) list" and ?f = "format_traits 4"
  let ?m1 = "set_single_doc 6 (term_meta_new\<lparr>tm_docs_count := 1\<rparr>)"
  obtain meta pw' meta' where w: "pw_write ?f (mo_stream (\<lambda>_. 0)) (mo_io (\<lambda>_. 0)) ?ps term_meta_new sample_writer = Some (meta, pw')"
    and st: "\<forall>more. pl_stored ?f (pw_has_freq sample_writer) (mo_contents (pw_doc_out pw') @ more) meta' ?ps"
    using written_stored [OF memory_postings.postings_streams_axioms sample_writer_hyps(1-5) sample_writer_hyps(7),
      of "\<lambda>_. 0" term_meta_new "[]" term_meta_new] by (elim exE conjE) (rule that)
  have "pl_stored ?f True (mo_contents (pw_doc_out pw') @ []) meta' ?ps" using st sample_writer_freq by metis
  moreover have "pl_stored ?f True f ?m1 [(7, 1)]" for f
    by (simp add: pl_stored_def pl_gaps_def pl_prev_def e_single_doc_def set_single_doc_def term_meta_new_def)
  ultimately have "list_all2 (pl_stored ?f True (mo_contents (pw_doc_out pw'))) [meta', ?m1] [?ps, [(7, 1)]]" by simp
  from postings_union [OF list_postings.postings_input_axioms list_source_start this, of 2 "[0]" "replicate 128 0" "replicate 128 0"]
  have "\<exists>bits. pr_bit_union ?f (ib_io list_source) True (replicate 128 0) (replicate 128 0) [meta', ?m1] 0
      (ib_reset 2 0 (mo_contents (pw_doc_out pw'), 0)) [0] = Some (3, bits) \<and> words_set bits = {2, 5, 7}"
    using sample_writer_hyps(8) by (auto simp: words_set_def insert_commute)
  with w show ?thesis by blast
qed



end
