(* ===== verification/SkipReader.thy ===== *)
theory SkipReader
  imports SkipWriter
begin

text \<open>
  \<open>SkipReaderBase\<close> and \<open>SkipReader\<close> of \<open>core/formats/skip_list.hpp\<close> and \<open>skip_list.cpp\<close>: seeking in the skip lists of
  \<open>SkipWriter\<close>. The levels are kept with the highest first, each with a stream of its own. \<^term>\<open>None\<close> is an exception, a
  failed assertion, a failed read or a loop that does not end.
\<close>

section \<open>State\<close>

definition kUndefined :: u64 where "kUndefined = - 1"

record 'i skip_level =
  sl_stream :: 'i
  sl_begin :: u64
  sl_child :: u64
  sl_left :: int
  sl_step :: nat

record 'i skip_reader =
  sr_levels :: "'i skip_level list"
  sr_skip_0 :: nat
  sr_skip_n :: nat
  sr_docs_count :: u32

text \<open>The operations of \<open>ReaderType\<close>, the parameter of \<open>SkipReader\<close>, on its state.\<close>

record ('i, 'r) skip_client =
  is_less :: "nat \<Rightarrow> u32 \<Rightarrow> 'r \<Rightarrow> bool"
  adjust_level :: "nat \<Rightarrow> 'r \<Rightarrow> nat"
  read_of :: "nat \<Rightarrow> 'i \<Rightarrow> 'r \<Rightarrow> ('r \<times> 'i) option"
  seal_of :: "nat \<Rightarrow> 'r \<Rightarrow> 'r"
  move_down :: "nat \<Rightarrow> 'r \<Rightarrow> 'r"

section \<open>Operations\<close>

definition sr_new :: "nat \<Rightarrow> nat \<Rightarrow> 'i skip_reader" where
  "sr_new skip_0 skip_n = \<lparr>sr_levels = [], sr_skip_0 = skip_0, sr_skip_n = skip_n, sr_docs_count = 0\<rparr>"

definition sr_num_levels :: "'i skip_reader \<Rightarrow> nat" where
  "sr_num_levels sr = length (sr_levels sr)"

text \<open>\<open>Prepare\<close>: \<open>load_level\<close> gives the level and where the next one starts; \<open>dup\<close> is the copy of a stream.\<close>

definition sr_load_level :: "'i index_in \<Rightarrow> u32 \<Rightarrow> 'i \<Rightarrow> nat \<Rightarrow> ('i skip_level \<times> u64) option" where
  "sr_load_level io left stream step = do {
     (len, s1) \<leftarrow> in_vlong io stream;
     if len = 0 then None
     else let begin_pos = of_nat (in_pointer io s1)
       in Some (\<lparr>sl_stream = s1, sl_begin = begin_pos, sl_child = 0, sl_left = uint left, sl_step = step\<rparr>, begin_pos + len)
   }"

fun sr_load :: "'i index_in \<Rightarrow> ('i \<Rightarrow> 'i) \<Rightarrow> nat \<Rightarrow> nat \<Rightarrow> u32 \<Rightarrow> nat \<Rightarrow> nat \<Rightarrow> 'i \<Rightarrow> 'i skip_level list option" where
  "sr_load io dup skip_0 skip_n left 0 step s = do {
     (lvl, _) \<leftarrow> sr_load_level io left s skip_0;
     Some [lvl\<lparr>sl_child := kUndefined\<rparr>]
   }"
| "sr_load io dup skip_0 skip_n left (Suc k) step s = do {
     (lvl, offset) \<leftarrow> sr_load_level io left (dup s) step;
     s1 \<leftarrow> in_seek io (unat offset) s;
     ls \<leftarrow> sr_load io dup skip_0 skip_n left k (step div skip_n) s1;
     Some (lvl # ls)
   }"

definition sr_prepare :: "'i index_in \<Rightarrow> ('i \<Rightarrow> 'i) \<Rightarrow> 'i \<Rightarrow> u32 \<Rightarrow> 'i skip_reader \<Rightarrow> 'i skip_reader option" where
  "sr_prepare io dup s left sr = do {
     (max_levels, s1) \<leftarrow> in_vint io s;
     if max_levels = 0 then Some sr
     else let top = unat max_levels - 1
       in do {
         ls \<leftarrow> sr_load io dup (sr_skip_0 sr) (sr_skip_n sr) left top (sr_skip_0 sr * (sr_skip_n sr ^ top mod 2 ^ 32) mod 2 ^ 32) s1;
         Some (sr\<lparr>sr_levels := ls, sr_docs_count := left\<rparr>)
       }
   }"

definition sr_reset_level :: "'i index_in \<Rightarrow> u32 \<Rightarrow> 'i skip_level \<Rightarrow> 'i skip_level option" where
  "sr_reset_level io docs_count lvl = do {
     s \<leftarrow> in_seek io (unat (sl_begin lvl)) (sl_stream lvl);
     Some (lvl\<lparr>sl_stream := s, sl_child := (if sl_child lvl \<noteq> kUndefined then 0 else sl_child lvl), sl_left := uint docs_count\<rparr>)
   }"

fun sr_reset_levels :: "'i index_in \<Rightarrow> u32 \<Rightarrow> 'i skip_level list \<Rightarrow> 'i skip_level list option" where
  "sr_reset_levels io docs_count [] = Some []"
| "sr_reset_levels io docs_count (l # ls) = do {
     l1 \<leftarrow> sr_reset_level io docs_count l; ls1 \<leftarrow> sr_reset_levels io docs_count ls; Some (l1 # ls1)
   }"

definition sr_reset :: "'i index_in \<Rightarrow> 'i skip_reader \<Rightarrow> 'i skip_reader option" where
  "sr_reset io sr = map_option (\<lambda>ls. sr\<lparr>sr_levels := ls\<rparr>) (sr_reset_levels io (sr_docs_count sr) (sr_levels sr))"

definition sr_seek_to_child :: "'i index_in \<Rightarrow> u64 \<Rightarrow> 'i skip_level \<Rightarrow> 'i skip_level \<Rightarrow> 'i skip_level option" where
  "sr_seek_to_child io ptr prev lvl =
     (let absolute_ptr = sl_begin lvl + ptr
      in if in_pointer io (sl_stream lvl) < unat absolute_ptr then do {
           s1 \<leftarrow> in_seek io (unat absolute_ptr) (sl_stream lvl);
           let lvl1 = lvl\<lparr>sl_stream := s1, sl_left := sl_left prev + int (sl_step prev)\<rparr>;
           if sl_child lvl1 \<noteq> kUndefined then do { (child, s2) \<leftarrow> in_vlong io s1; Some (lvl1\<lparr>sl_stream := s2, sl_child := child\<rparr>) }
           else Some lvl1
         } else Some lvl)"

text \<open>\<open>Seek\<close>: the first level whose current entry is below the target, then the body of the loop, and the loop.\<close>

fun sr_first :: "('i, 'r) skip_client \<Rightarrow> u32 \<Rightarrow> 'r \<Rightarrow> nat \<Rightarrow> nat \<Rightarrow> nat" where
  "sr_first cl target r sz 0 = sz"
| "sr_first cl target r sz (Suc k) = (if is_less cl (sz - Suc k) target r then sz - Suc k else sr_first cl target r sz k)"

definition sr_descend ::
  "('i, 'r) skip_client \<Rightarrow> 'i index_in \<Rightarrow> nat \<Rightarrow> u64 \<Rightarrow> 'i skip_level list \<times> 'r \<Rightarrow> (nat \<times> 'i skip_level list \<times> 'r) option" where
  "sr_descend cl io i child_ptr = (\<lambda>(ls, r).
     if child_ptr = kUndefined then Some (i + 1, ls, r)
     else if i + 1 < length ls then do {
       lvl \<leftarrow> sr_seek_to_child io child_ptr (ls ! i) (ls ! (i + 1));
       Some (i + 1, ls[i + 1 := lvl], move_down cl (i + 1) r)
     } else None)"

definition sr_step ::
  "('i, 'r) skip_client \<Rightarrow> 'i index_in \<Rightarrow> u32 \<Rightarrow> nat \<Rightarrow> 'i skip_level list \<times> 'r \<Rightarrow> (nat \<times> 'i skip_level list \<times> 'r) option" where
  "sr_step cl io target i0 = (\<lambda>(ls, r).
     let i = adjust_level cl i0 r; lvl = ls ! i; child_ptr = sl_child lvl; left = sl_left lvl - int (sl_step lvl) in
     if 0 < left then do {
       (r1, s1) \<leftarrow> read_of cl i (sl_stream lvl) r;
       (child, s2) \<leftarrow> (if child_ptr \<noteq> kUndefined then in_vlong io s1 else Some (child_ptr, s1));
       let ls1 = ls[i := lvl\<lparr>sl_stream := s2, sl_child := child, sl_left := left\<rparr>];
       if is_less cl i target r1 then Some (i, ls1, r1) else sr_descend cl io i child_ptr (ls1, r1)
     } else sr_descend cl io i child_ptr (ls[i := lvl\<lparr>sl_left := left\<rparr>], seal_of cl i r))"

partial_function (option) sr_loop ::
  "('i, 'r) skip_client \<Rightarrow> 'i index_in \<Rightarrow> u32 \<Rightarrow> nat \<Rightarrow> 'i skip_level list \<times> 'r \<Rightarrow> ('i skip_level list \<times> 'r) option" where
  "sr_loop cl io target i st =
     (if i = length (fst st) then Some st else do { (i1, st1) \<leftarrow> sr_step cl io target i st; sr_loop cl io target i1 st1 })"

declare sr_loop.simps [code]

definition sr_seek ::
  "('i, 'r) skip_client \<Rightarrow> 'i index_in \<Rightarrow> u32 \<Rightarrow> 'i skip_reader \<times> 'r \<Rightarrow> (u32 \<times> 'i skip_reader \<times> 'r) option" where
  "sr_seek cl io target = (\<lambda>(sr, r).
     if sr_levels sr = [] then None
     else do {
       (ls, r1) \<leftarrow> sr_loop cl io target (sr_first cl target r (length (sr_levels sr)) (length (sr_levels sr))) (sr_levels sr, r);
       let level_0 = last ls;
       Some (word_of_int (sl_left level_0 + int (sl_step level_0)), sr\<lparr>sr_levels := ls\<rparr>, r1)
     })"

section \<open>A level of the list\<close>

text \<open>The entries of level \<open>i\<close> behind entry \<open>t\<close>.\<close>

definition sk_tail :: "(nat \<Rightarrow> nat \<Rightarrow> u8 list) \<Rightarrow> nat \<Rightarrow> nat \<Rightarrow> nat \<Rightarrow> nat \<Rightarrow> u8 list" where
  "sk_tail body n i t m = concat (map (sk_entry body n i) [Suc t..<Suc m])"

lemma sk_tail_step: "t < m \<Longrightarrow> sk_tail body n i t m = sk_entry body n i (Suc t) @ sk_tail body n i (Suc t) m"
  by (simp add: sk_tail_def upt_conv_Cons del: upt_Suc)

lemma sk_level_tail: "t \<le> m \<Longrightarrow> sk_level body n i m = sk_level body n i t @ sk_tail body n i t m"
proof -
  assume "t \<le> m"
  then have "[1..<Suc m] = [1..<Suc t] @ [Suc t..<Suc m]" using upt_add_eq_append [of 1 "Suc t" "m - t"] by (simp del: upt_Suc)
  then show ?thesis unfolding sk_level_def sk_tail_def by (simp only: map_append concat_append Suc_eq_plus1)
qed

lemma drop_length_append: "drop (length xs) (xs @ ys) = ys"
  by simp

lemma sk_tail_0: "sk_tail body n i 0 m = sk_level body n i m"
  by (simp add: sk_tail_def sk_level_def)

text \<open>Level \<open>i\<close> of a list for \<open>N\<close> documents after \<open>t\<close> attempts to read an entry; the last one may have met the end.\<close>

definition level_at ::
  "(u8 list \<Rightarrow> 'i \<Rightarrow> bool) \<Rightarrow> ('i \<Rightarrow> u8 list) \<Rightarrow> (nat \<Rightarrow> nat \<Rightarrow> u8 list) \<Rightarrow> nat \<Rightarrow> nat \<Rightarrow> nat \<Rightarrow> u8 list \<Rightarrow> nat \<Rightarrow> nat \<Rightarrow> 'i skip_level \<Rightarrow> bool" where
  "level_at stream rest body B n N f i t lv \<longleftrightarrow>
     (let T = (N - 1) div B div n ^ i
      in sl_step lv = B * n ^ i \<and> sl_left lv = int N - int t * int (B * n ^ i) \<and> t \<le> Suc T \<and> stream f (sl_stream lv) \<and>
        unat (sl_begin lv) \<le> length f \<and>
        (\<exists>r. drop (unat (sl_begin lv)) f = sk_level body n i T @ r \<and> rest (sl_stream lv) = sk_tail body n i (min t T) T @ r) \<and>
        sl_child lv = (if i = 0 then kUndefined else if min t T = 0 then 0 else of_nat (sk_pos body n (i - 1) (n * min t T))))"

lemma div_levels: "(n :: nat) * (m div n ^ Suc i) \<le> m div n ^ i"
  unfolding power_Suc2 div_mult2_eq by (rule times_div_less_eq_dividend)

text \<open>Positions in the levels below are 64-bit integers and never look like the mark of the lowest level.\<close>

definition sk_fits :: "(nat \<Rightarrow> nat \<Rightarrow> u8 list) \<Rightarrow> nat \<Rightarrow> nat \<Rightarrow> nat \<Rightarrow> bool" where
  "sk_fits body n m h \<longleftrightarrow> (\<forall>i t. Suc i < h \<and> 0 < t \<and> t \<le> m div n ^ Suc i \<longrightarrow> sk_pos body n i (n * t) < 2 ^ 64 - 1)"

lemma child_defined: "k < 2 ^ 64 - 1 \<Longrightarrow> of_nat k \<noteq> kUndefined"
proof -
  assume k: "k < 2 ^ 64 - 1"
  then have "unat (of_nat k :: u64) = k" unfolding unat_of_nat by (intro mod_less) simp
  moreover have "unat kUndefined = 2 ^ 64 - 1"
  proof -
    have e: "kUndefined = 0xFFFFFFFFFFFFFFFF" by (simp add: kUndefined_def)
    show ?thesis unfolding e by simp
  qed
  ultimately show ?thesis using k by force
qed

lemma level_child:
  assumes "level_at stream rest body B n N f i t lv" "sk_fits body n ((N - 1) div B) h" "i < h"
  shows "sl_child lv = kUndefined \<longleftrightarrow> i = 0"
proof (cases i)
  case (Suc k)
  let ?T = "(N - 1) div B div n ^ i"
  have "sk_pos body n k (n * min t ?T) < 2 ^ 64 - 1" if "0 < min t ?T" using assms(2,3) that Suc by (auto simp: sk_fits_def)
  then show ?thesis using assms(1) Suc child_defined [of "sk_pos body n k (n * min t ?T)"]
    by (auto simp: level_at_def Let_def kUndefined_def)
qed (use assms(1) in \<open>simp add: level_at_def Let_def\<close>)

context index_source
begin

lemma pointer_rest: "stream f s \<Longrightarrow> in_pointer io s + length (rest s) = length f"
  using pointer_law [of f s] by simp

lemma level_more:
  assumes "level_at stream rest body B n N f i t lv" "1 \<le> N" "0 < B" "0 < n"
  shows "0 < sl_left lv - int (sl_step lv) \<longleftrightarrow> t < (N - 1) div B div n ^ i"
proof -
  let ?s = "B * n ^ i"
  have l: "sl_left lv = int N - int (t * ?s)" "sl_step lv = ?s" using assms(1) by (simp_all add: level_at_def Let_def)
  have "0 < sl_left lv - int (sl_step lv) \<longleftrightarrow> int (Suc t * ?s) < int N" unfolding l by (simp only: mult_Suc of_nat_add) linarith
  also have "\<dots> \<longleftrightarrow> Suc t * ?s \<le> N - 1" using assms(2) by (simp only: of_nat_less_iff) linarith
  also have "\<dots> \<longleftrightarrow> Suc t \<le> (N - 1) div ?s" using assms(3,4) by (simp only: less_eq_div_iff_mult_less_eq nat_0_less_mult_iff zero_less_power)
  finally show ?thesis by (simp only: div_mult2_eq Suc_le_eq)
qed

text \<open>The end of a level.\<close>

lemma level_seal:
  assumes "level_at stream rest body B n N f i t lv" "t = (N - 1) div B div n ^ i"
  shows "level_at stream rest body B n N f i (Suc t) (lv\<lparr>sl_left := sl_left lv - int (sl_step lv)\<rparr>)"
  using assms by (simp add: level_at_def Let_def algebra_simps)

lemma level_advance:
  assumes lv: "level_at stream rest body B n N f i t lv" and fits: "sk_fits body n ((N - 1) div B) h" "i < h"
    and t: "t < (N - 1) div B div n ^ i"
  shows "\<exists>tl. rest (sl_stream lv) = body i (n ^ i * Suc t) @ tl \<and> (\<forall>s1. stream f s1 \<and> rest s1 = tl \<longrightarrow>
    (\<exists>child s2. (if sl_child lv \<noteq> kUndefined then in_vlong io s1 else Some (sl_child lv, s1)) = Some (child, s2) \<and>
      level_at stream rest body B n N f i (Suc t) (lv\<lparr>sl_stream := s2, sl_child := child, sl_left := sl_left lv - int (sl_step lv)\<rparr>)))"
proof -
  let ?T = "(N - 1) div B div n ^ i"
  obtain r where r: "drop (unat (sl_begin lv)) f = sk_level body n i ?T @ r" "rest (sl_stream lv) = sk_tail body n i t ?T @ r"
    using lv t by (auto simp: level_at_def Let_def)
  have l: "sl_step lv = B * n ^ i" "sl_left lv = int N - int t * int (B * n ^ i)" "unat (sl_begin lv) \<le> length f"
    using lv by (simp_all add: level_at_def Let_def)
  have next_at: "level_at stream rest body B n N f i (Suc t) (lv\<lparr>sl_stream := s2, sl_child := child, sl_left := sl_left lv - int (sl_step lv)\<rparr>)"
    if "stream f s2" "rest s2 = sk_tail body n i (Suc t) ?T @ r" "child = (if i = 0 then kUndefined else of_nat (sk_pos body n (i - 1) (n * Suc t)))"
    for s2 child
    using that t r(1) l by (simp add: level_at_def Let_def algebra_simps)
  note st = sk_tail_step [OF t, of body n i]
  note ch = level_child [OF lv fits]
  show ?thesis
  proof (cases i)
    case 0
    then have "rest (sl_stream lv) = body i (n ^ i * Suc t) @ sk_tail body n i (Suc t) ?T @ r" using r(2) st by simp
    then show ?thesis using next_at ch 0 by auto
  next
    case (Suc k)
    let ?p = "of_nat (sk_pos body n k (n * Suc t)) :: u64"
    have "rest (sl_stream lv) = body i (n ^ i * Suc t) @ vwrite_u64 ?p @ sk_tail body n i (Suc t) ?T @ r"
      using r(2) st Suc by (simp add: sk_entry_Suc)
    moreover have "\<exists>child s2. (if sl_child lv \<noteq> kUndefined then in_vlong io s1 else Some (sl_child lv, s1)) = Some (child, s2) \<and>
        level_at stream rest body B n N f i (Suc t) (lv\<lparr>sl_stream := s2, sl_child := child, sl_left := sl_left lv - int (sl_step lv)\<rparr>)"
      if "stream f s1" "rest s1 = vwrite_u64 ?p @ sk_tail body n i (Suc t) ?T @ r" for s1
    proof -
      have "\<exists>s2. in_vlong io s1 = Some (?p, s2) \<and> stream f s2 \<and> rest s2 = sk_tail body n i (Suc t) ?T @ r" by (rule vlong_at [OF that])
      then obtain s2 where "in_vlong io s1 = Some (?p, s2)" "stream f s2" "rest s2 = sk_tail body n i (Suc t) ?T @ r" by blast
      then show ?thesis using next_at [of s2 ?p] ch Suc by auto
    qed
    ultimately show ?thesis by blast
  qed
qed

text \<open>From entry \<open>c\<close> of a level down to the same entry one level below.\<close>

lemma seek_to_child_at:
  assumes lv: "level_at stream rest body B n N f i t lv" and prev: "level_at stream rest body B n N f (Suc i) (Suc c) prev"
    and fits: "sk_fits body n ((N - 1) div B) h" "Suc i < h" and t: "t \<le> n * c" and c: "c \<le> (N - 1) div B div n ^ Suc i"
    and ne: "\<And>i j. body i j \<noteq> []" and f: "length f < 2 ^ 64" and n: "0 < n"
  shows "\<exists>lv'. sr_seek_to_child io (if c = 0 then 0 else of_nat (sk_pos body n i (n * c))) prev lv = Some lv' \<and>
    level_at stream rest body B n N f i (n * c) lv'"
proof -
  let ?T = "(N - 1) div B div n ^ i" and ?b = "unat (sl_begin lv)"
  have "n * c \<le> n * ((N - 1) div B div n ^ Suc i)" using c by (rule mult_le_mono2)
  then have nc: "n * c \<le> ?T" using div_levels [of n "(N - 1) div B" i] by (rule le_trans)
  then have mt: "min t ?T = t" "min (n * c) ?T = n * c" "t \<le> ?T" using t by simp_all
  obtain r where r: "drop ?b f = sk_level body n i ?T @ r" "rest (sl_stream lv) = sk_tail body n i t ?T @ r"
    using lv mt(1) by (auto simp: level_at_def Let_def)
  have l: "sl_step lv = B * n ^ i" "stream f (sl_stream lv)" "?b \<le> length f" using lv by (simp_all add: level_at_def Let_def)
  have "length f = ?b + length (sk_level body n i ?T) + length r" using arg_cong [OF r(1), of length] l(3) by simp
  then have ptr: "in_pointer io (sl_stream lv) = ?b + length (sk_level body n i t)"
    using pointer_rest [OF l(2)] r(2) sk_level_tail [OF mt(3), of body n i] by simp
  show ?thesis
  proof (cases c)
    case 0
    then have "t = 0" using t by simp
    then show ?thesis using ptr lv 0 by (simp add: sr_seek_to_child_def Let_def)
  next
    case (Suc c')
    then obtain k where k: "n * c = Suc k" using n by (cases "n * c") auto
    let ?p = "sk_pos body n i (n * c)" and ?ch = "if i = 0 then [] else vwrite_u64 (of_nat (sk_pos body n (i - 1) (n * (n * c))))"
    have en: "sk_entry body n i (n * c) = body i (n ^ i * (n * c)) @ ?ch" by (cases i) (simp_all add: sk_entry_Suc)
    have lvl: "sk_level body n i (n * c) = sk_level body n i k @ body i (n ^ i * (n * c)) @ ?ch" "?p = length (sk_level body n i k @ body i (n ^ i * (n * c)))"
      using sk_level_Suc [of body n i k] en k by (simp_all add: sk_pos_def)
    have all: "sk_level body n i ?T = sk_level body n i (n * c) @ sk_tail body n i (n * c) ?T" using sk_level_tail [OF nc] .
    have "?b + ?p \<le> length f" using arg_cong [OF r(1), of length] l(3) all lvl by simp
    have abs: "unat (sl_begin lv + of_nat ?p) = ?b + ?p"
    proof -
      have "?b + ?p < 2 ^ 64" using \<open>?b + ?p \<le> length f\<close> f by simp
      moreover have "unat (of_nat ?p :: u64) = ?p" unfolding unat_of_nat using calculation by (intro mod_less) simp
      ultimately show ?thesis by (simp add: unat_word_ariths)
    qed
    show ?thesis
    proof (cases "t = n * c")
      case True
      then have "\<not> in_pointer io (sl_stream lv) < unat (sl_begin lv + of_nat ?p)" using ptr abs lvl by simp
      then show ?thesis using lv True Suc by (simp add: sr_seek_to_child_def Let_def)
    next
      case False
      then have tk: "t \<le> k" using t k by simp
      have "length (sk_level body n i t) \<le> length (sk_level body n i k)" using sk_level_tail [OF tk, of body n i] by simp
      moreover have "0 < length (body i (n ^ i * (n * c)))" using ne by simp
      ultimately have "length (sk_level body n i t) < ?p" unfolding lvl(2) length_append by linarith
      then have less: "in_pointer io (sl_stream lv) < unat (sl_begin lv + of_nat ?p)" using ptr abs by simp
      have dr: "drop (?b + ?p) f = ?ch @ sk_tail body n i (n * c) ?T @ r"
      proof -
        have "drop (?b + ?p) f = drop ?p (drop ?b f)" by (simp add: add.commute)
        also have "\<dots> = drop ?p ((sk_level body n i k @ body i (n ^ i * (n * c))) @ ?ch @ sk_tail body n i (n * c) ?T @ r)"
          using r(1) all lvl(1) by simp
        also have "\<dots> = ?ch @ sk_tail body n i (n * c) ?T @ r" unfolding lvl(2) by (rule drop_length_append)
        finally show ?thesis .
      qed
      obtain s1 where s1: "in_seek io (unat (sl_begin lv + of_nat ?p)) (sl_stream lv) = Some s1" "stream f s1"
        "rest s1 = ?ch @ sk_tail body n i (n * c) ?T @ r"
        using seek_law [OF l(2) \<open>?b + ?p \<le> length f\<close>] abs dr by auto
      have left: "sl_left prev + int (sl_step prev) = int N - int (n * c) * int (B * n ^ i)"
        using prev by (simp add: level_at_def Let_def algebra_simps)
      have fin: "level_at stream rest body B n N f i (n * c) (lv\<lparr>sl_left := sl_left prev + int (sl_step prev), sl_stream := s2, sl_child := ch\<rparr>)"
        if "stream f s2" "rest s2 = sk_tail body n i (n * c) ?T @ r" "ch = (if i = 0 then kUndefined else of_nat (sk_pos body n (i - 1) (n * (n * c))))" for s2 ch
        using that r(1) l nc mt(2) k left by (simp add: level_at_def Let_def)
      note ch = level_child [OF lv fits(1), OF Suc_lessD [OF fits(2)]]
      show ?thesis
      proof (cases i)
        case 0
        then have "lv\<lparr>sl_left := x, sl_stream := s1, sl_child := kUndefined\<rparr> = lv\<lparr>sl_stream := s1, sl_left := x\<rparr>" for x
          using ch by (cases lv) simp
        then show ?thesis using fin [of s1 kUndefined] s1 less ch Suc 0 by (simp add: sr_seek_to_child_def Let_def)
      next
        case (Suc i')
        then obtain s2 where s2: "in_vlong io s1 = Some (of_nat (sk_pos body n (i - 1) (n * (n * c))), s2)" "stream f s2"
          "rest s2 = sk_tail body n i (n * c) ?T @ r" using vlong_at [OF s1(2), of "of_nat (sk_pos body n (i - 1) (n * (n * c)))"] s1(3) by auto
        then show ?thesis using fin [OF s2(2,3) refl] s1 less ch Suc \<open>c = Suc c'\<close> by (simp add: sr_seek_to_child_def Let_def)
      qed
    qed
  qed
qed

end

section \<open>Loading the levels\<close>

text \<open>A copy of a stream is at the same place of the same file.\<close>

locale skip_source = index_source io stream rest
  for io :: "'i index_in" and stream :: "u8 list \<Rightarrow> 'i \<Rightarrow> bool" and rest :: "'i \<Rightarrow> u8 list" +
  fixes dup :: "'i \<Rightarrow> 'i"
  assumes dup_law: "stream f s \<Longrightarrow> stream f (dup s) \<and> rest (dup s) = rest s"

definition sk_level_part :: "(nat \<Rightarrow> nat \<Rightarrow> u8 list) \<Rightarrow> nat \<Rightarrow> nat \<Rightarrow> nat \<Rightarrow> u8 list" where
  "sk_level_part body n m i = vwrite_u64 (of_nat (length (sk_level body n i (m div n ^ i)))) @ sk_level body n i (m div n ^ i)"

context skip_source
begin

lemma load_level_at:
  assumes s: "stream f s" "rest s = sk_level_part body n ((N - 1) div B) i @ r" and f: "length f < 2 ^ 64"
    and T: "0 < (N - 1) div B div n ^ i" and ne: "\<And>j. body 0 j \<noteq> []" and left: "uint left = int N"
  shows "\<exists>lv offset. sr_load_level io left s (B * n ^ i) = Some (lv, offset) \<and> unat offset \<le> length f \<and> drop (unat offset) f = r \<and>
    level_at stream rest body B n N f i 0 (lv\<lparr>sl_child := if i = 0 then kUndefined else sl_child lv\<rparr>)"
proof -
  let ?L = "sk_level body n i ((N - 1) div B div n ^ i)"
  obtain s1 where s1: "in_vlong io s = Some (of_nat (length ?L), s1)" "stream f s1" "rest s1 = ?L @ r"
    using vlong_at [OF s(1), of "of_nat (length ?L)"] s(2) by (auto simp: sk_level_part_def)
  have p: "in_pointer io s1 + length ?L + length r = length f" using pointer_rest [OF s1(2)] s1(3) by simp
  have pos: "0 < length ?L" using sk_level_empty [of body n i, OF ne] T by simp
  have un: "unat (of_nat (length ?L) :: u64) = length ?L" "unat (of_nat (in_pointer io s1) :: u64) = in_pointer io s1"
    "unat (of_nat (in_pointer io s1) + of_nat (length ?L) :: u64) = in_pointer io s1 + length ?L"
    unfolding of_nat_add [symmetric] unat_of_nat using p f by (simp_all add: mod_less)
  have nz: "(of_nat (length ?L) :: u64) \<noteq> 0" using un(1) pos by auto
  have d: "drop (in_pointer io s1) f = ?L @ r" using pointer_law [OF s1(2)] s1(3) by simp
  then have d2: "drop (in_pointer io s1 + length ?L) f = r" by (metis add.commute drop_drop drop_length_append)
  let ?lv = "\<lparr>sl_stream = s1, sl_begin = of_nat (in_pointer io s1), sl_child = 0, sl_left = uint left, sl_step = B * n ^ i\<rparr>"
  have "level_at stream rest body B n N f i 0 (?lv\<lparr>sl_child := if i = 0 then kUndefined else sl_child ?lv\<rparr>)"
    using s1 d un(2) p left by (simp add: level_at_def Let_def sk_tail_0)
  then show ?thesis using s1(1) nz un(3) d2 p by (simp add: sr_load_level_def Let_def)
qed

lemma load_at:
  assumes "stream f s" "rest s = concat (map (sk_level_part body n ((N - 1) div B)) (rev [0..<Suc k])) @ r" "length f < 2 ^ 64"
    and "\<And>i. i \<le> k \<Longrightarrow> 0 < (N - 1) div B div n ^ i" and "\<And>j. body 0 j \<noteq> []" and "uint left = int N" and "0 < n"
  shows "\<exists>ls. sr_load io dup B n left k (B * n ^ k) s = Some ls \<and> length ls = Suc k \<and>
    (\<forall>i\<le>k. level_at stream rest body B n N f i 0 (ls ! (k - i)))"
  using assms(1,2,4)
proof (induction k arbitrary: s)
  case 0
  have r0: "rest s = sk_level_part body n ((N - 1) div B) 0 @ r" and T: "0 < (N - 1) div B div n ^ 0" using 0(2,3) by auto
  obtain lv offset where
    "sr_load_level io left s B = Some (lv, offset)" "level_at stream rest body B n N f 0 0 (lv\<lparr>sl_child := kUndefined\<rparr>)"
    using load_level_at [OF 0(1) r0 assms(3) T assms(5,6)] by auto
  then show ?case by simp
next
  case (Suc k)
  let ?r = "concat (map (sk_level_part body n ((N - 1) div B)) (rev [0..<Suc k])) @ r"
  have r0: "rest s = sk_level_part body n ((N - 1) div B) (Suc k) @ ?r" using Suc.prems(2) by simp
  have dup: "stream f (dup s)" "rest (dup s) = sk_level_part body n ((N - 1) div B) (Suc k) @ ?r" using dup_law [OF Suc.prems(1)] r0 by auto
  have T: "0 < (N - 1) div B div n ^ Suc k" using Suc.prems(3) by blast
  obtain lv offset where lv: "sr_load_level io left (dup s) (B * n ^ Suc k) = Some (lv, offset)" "unat offset \<le> length f" "drop (unat offset) f = ?r"
    "level_at stream rest body B n N f (Suc k) 0 lv"
    using load_level_at [OF dup assms(3) T assms(5,6)] by auto
  obtain s1 where s1: "in_seek io (unat offset) s = Some s1" "stream f s1" "rest s1 = ?r" using seek_law [OF Suc.prems(1) lv(2)] lv(3) by auto
  obtain ls where ls: "sr_load io dup B n left k (B * n ^ k) s1 = Some ls" "length ls = Suc k"
    "\<forall>i\<le>k. level_at stream rest body B n N f i 0 (ls ! (k - i))"
    using Suc.IH [OF s1(2,3)] Suc.prems(3) by auto
  have "level_at stream rest body B n N f i 0 ((lv # ls) ! (Suc k - i))" if "i \<le> Suc k" for i
    using that ls(3) lv(4) by (cases "i = Suc k") (auto simp: Suc_diff_le)
  moreover have "B * n ^ Suc k div n = B * n ^ k" using assms(7) by simp
  ultimately show ?case using lv(1) s1(1) ls(1,2) by simp
qed

lemma prepare_at_list:
  assumes s: "stream f s" "rest s = sk_list body n h ((N - 1) div B) @ r" "length f < 2 ^ 64"
    and T: "\<And>i. i < h \<Longrightarrow> 0 < (N - 1) div B div n ^ i" and ne: "\<And>j. body 0 j \<noteq> []" and left: "unat left = N" and n: "0 < n" "0 < B"
    and h: "0 < h" "h < 2 ^ 32" and sr: "sr_skip_0 sr = B" "sr_skip_n sr = n"
  shows "\<exists>ls. sr_prepare io dup s left sr = Some (sr\<lparr>sr_levels := ls, sr_docs_count := left\<rparr>) \<and> length ls = h \<and>
    (\<forall>i<h. level_at stream rest body B n N f (h - 1 - i) 0 (ls ! i))"
proof -
  have un: "unat (of_nat h :: u32) = h" unfolding unat_of_nat using h by (intro mod_less) simp
  obtain k where k: "h = Suc k" using h by (cases h) auto
  let ?r = "concat (map (sk_level_part body n ((N - 1) div B)) (rev [0..<Suc k])) @ r"
  obtain s1 where s1: "in_vint io s = Some (of_nat h, s1)" "stream f s1" "rest s1 = ?r"
    using vint_at [OF s(1), of "of_nat h" ?r] s(2) k by (auto simp: sk_list_def sk_level_part_def [abs_def])
  have "0 < (N - 1) div (B * n ^ k)" using T [of k] k by (simp add: div_mult2_eq)
  then have "B * n ^ k \<le> N - 1" by (simp add: div_greater_zero_iff)
  also have "N - 1 < 2 ^ 32" using left unsigned_less [of left, where ?'a = nat] by simp
  finally have small: "B * n ^ k < 2 ^ 32" .
  moreover have "n ^ k \<le> B * n ^ k" using n(2) by simp
  ultimately have "n ^ k < 2 ^ 32" by linarith
  then have step: "B * (n ^ k mod 2 ^ 32) mod 2 ^ 32 = B * n ^ k" using small by (simp add: mod_less)
  have ui: "uint left = int N" unfolding left [symmetric] by simp
  have Tk: "0 < (N - 1) div B div n ^ i" if "i \<le> k" for i using T k that by simp
  obtain ls where ls: "sr_load io dup B n left k (B * n ^ k) s1 = Some ls" "length ls = Suc k"
    "\<forall>i\<le>k. level_at stream rest body B n N f i 0 (ls ! (k - i))"
    using load_at [OF s1(2,3) s(3) Tk ne ui n(1)] by blast
  have "(of_nat h :: u32) \<noteq> 0" using un h by auto
  moreover have "unat (of_nat h :: u32) - 1 = k" using un k by simp
  ultimately have "sr_prepare io dup s left sr = Some (sr\<lparr>sr_levels := ls, sr_docs_count := left\<rparr>)"
    using s1(1) ls(1) step sr by (simp add: sr_prepare_def Let_def)
  moreover have "level_at stream rest body B n N f (h - 1 - i) 0 (ls ! i)" if "i < h" for i
    using ls(3) [rule_format, of "k - i"] that k by simp
  ultimately show ?thesis using ls(2) k by blast
qed

end

section \<open>Seeking\<close>

text \<open>
  What \<open>Seek\<close> relies on in its client, for a list with \<open>m\<close> entries and \<open>h\<close> levels, the highest first, where \<open>key j\<close> is what entry
  \<open>j\<close> is compared by. In \<open>rel r p V q\<close> the client stands at entry \<open>p i\<close> on level \<open>i\<close>, behind \<open>m\<close> at the end, all of its state is
  valid for the levels in \<open>V\<close>, and \<open>q\<close> is the entry it left last.
\<close>

locale skip_follower = index_source io stream rest
  for io :: "'i index_in" and stream :: "u8 list \<Rightarrow> 'i \<Rightarrow> bool" and rest :: "'i \<Rightarrow> u8 list" +
  fixes cl :: "('i, 'r) skip_client" and body :: "nat \<Rightarrow> nat \<Rightarrow> u8 list" and key :: "nat \<Rightarrow> u32" and n m h :: nat
    and rel :: "'r \<Rightarrow> (nat \<Rightarrow> nat) \<Rightarrow> nat set \<Rightarrow> nat \<Rightarrow> bool"
  assumes less_law: "rel r p V q \<Longrightarrow> i < h \<Longrightarrow> is_less cl i t r \<longleftrightarrow> key (p i) < t"
    and adjust_law: "rel r p V q \<Longrightarrow> i < h \<Longrightarrow> adjust_level cl i r = i"
    and read_law: "rel r p V q \<Longrightarrow> i < h \<Longrightarrow> i \<in> V \<Longrightarrow> p i + n ^ (h - 1 - i) \<le> m \<Longrightarrow> stream f s \<Longrightarrow>
      rest s = body (h - 1 - i) (p i + n ^ (h - 1 - i)) @ bs \<Longrightarrow>
      \<exists>r' s'. read_of cl i s r = Some (r', s') \<and> stream f s' \<and> rest s' = bs \<and> rel r' (p(i := p i + n ^ (h - 1 - i))) V (p i)"
    and seal_law: "rel r p V q \<Longrightarrow> i < h \<Longrightarrow> i \<in> V \<Longrightarrow> p i \<le> m \<Longrightarrow> m < j \<Longrightarrow> rel (seal_of cl i r) (p(i := j)) V (p i)"
    and move_law: "rel r p V q \<Longrightarrow> i < h \<Longrightarrow> q \<le> m \<Longrightarrow> rel (move_down cl i r) (p(i := q)) (insert i V) q"
    and key_law: "rel r p V q \<Longrightarrow> a \<le> b \<Longrightarrow> key a \<le> key b"
    and key_end: "m < j \<Longrightarrow> t \<le> key j"
    and body_law: "body i j \<noteq> []"
    and n_law: "1 < n"

text \<open>
  The state of the loop at level \<open>i\<close>; \<open>c\<close> counts the entries that each level has read. Higher levels are never behind lower
  ones, and those above \<open>i\<close> have reached the target.
\<close>

definition sk_at :: "nat \<Rightarrow> nat \<Rightarrow> (nat \<Rightarrow> nat) \<Rightarrow> nat \<Rightarrow> nat" where
  "sk_at n h c k = n ^ (h - 1 - k) * c k"

lemma sk_at_upd: "sk_at n h (c(i := x)) = (sk_at n h c)(i := n ^ (h - 1 - i) * x)"
  by (auto simp: sk_at_def)

definition seek_inv ::
  "(u8 list \<Rightarrow> 'i \<Rightarrow> bool) \<Rightarrow> ('i \<Rightarrow> u8 list) \<Rightarrow> (nat \<Rightarrow> nat \<Rightarrow> u8 list) \<Rightarrow> (nat \<Rightarrow> u32) \<Rightarrow> nat \<Rightarrow> nat \<Rightarrow>
   ('r \<Rightarrow> (nat \<Rightarrow> nat) \<Rightarrow> nat set \<Rightarrow> nat \<Rightarrow> bool) \<Rightarrow> nat \<Rightarrow> nat \<Rightarrow> u8 list \<Rightarrow> u32 \<Rightarrow> nat \<Rightarrow> (nat \<Rightarrow> nat) \<Rightarrow> 'i skip_level list \<times> 'r \<Rightarrow> bool" where
  "seek_inv stream rest body key n h rel B N f target i c = (\<lambda>(ls, r).
     length ls = h \<and> (\<forall>k<h. level_at stream rest body B n N f (h - 1 - k) (c k) (ls ! k)) \<and>
     (\<forall>k. Suc k < h \<longrightarrow> sk_at n h c (Suc k) \<le> sk_at n h c k) \<and> (\<forall>k<i. target \<le> key (sk_at n h c k)) \<and>
     (\<exists>V q. rel r (sk_at n h c) V q \<and> 0 \<in> V \<and> (\<forall>k. Suc k < h \<longrightarrow> k \<noteq> i \<longrightarrow> 0 < c k \<longrightarrow> Suc k \<in> V) \<and>
       (i < h \<longrightarrow> i \<in> V \<and> key (sk_at n h c i) < target) \<and> (i = h \<longrightarrow> c (h - 1) = Suc q \<and> key q < target)))"

lemma power_multiple_less:
  assumes "n ^ i * c < n ^ Suc i * (d :: nat)"
  shows "n ^ i * c + n ^ i \<le> n ^ Suc i * d"
proof -
  have "n ^ i * c < n ^ i * (n * d)" using assms by (simp add: algebra_simps)
  then have "Suc c \<le> n * d" by simp
  then have "n ^ i * Suc c \<le> n ^ i * (n * d)" by (rule mult_le_mono2)
  then show ?thesis by (simp add: algebra_simps)
qed

context skip_follower
begin

lemma descend_correct:
  assumes len: "length ls = h" and lv: "\<forall>k<h. level_at stream rest body B n N f (h - 1 - k) (c k) (ls ! k)"
    and sorted: "\<forall>k. Suc k < h \<longrightarrow> sk_at n h c (Suc k) \<le> sk_at n h c k" and reached: "\<forall>k\<le>i. target \<le> key (sk_at n h c k)"
    and r: "rel r (sk_at n h c) V (n ^ (h - 1 - i) * a)" "0 \<in> V" "\<forall>k. Suc k < h \<longrightarrow> k \<noteq> i \<longrightarrow> 0 < c k \<longrightarrow> Suc k \<in> V"
    and i: "i < h" "c i = Suc a" "n ^ (h - 1 - i) * a \<le> m" "key (n ^ (h - 1 - i) * a) < target"
    and below: "Suc i < h \<Longrightarrow> c (Suc i) \<le> n * a"
    and ptr: "child_ptr = (if h - 1 - i = 0 then kUndefined else if a = 0 then 0 else of_nat (sk_pos body n (h - 1 - i - 1) (n * a)))"
    and m: "m = (N - 1) div B" and fits: "sk_fits body n m h" and f: "length f < 2 ^ 64"
  shows "\<exists>st' c'. sr_descend cl io i child_ptr (ls, r) = Some (Suc i, st') \<and> seek_inv stream rest body key n h rel B N f target (Suc i) c' st'"
proof (cases "Suc i < h")
  case False
  then have e: "h - 1 - i = 0" "Suc i = h" and hi: "h - 1 = i" using i(1) by simp_all
  then have "seek_inv stream rest body key n h rel B N f target (Suc i) c (ls, r)"
    using len lv sorted reached r i(2,4) e unfolding seek_inv_def prod.case
    by (intro conjI exI [of _ V] exI [of _ "n ^ (h - 1 - i) * a"]) (simp_all add: less_Suc_eq_le hi del: One_nat_def)
  moreover have "sr_descend cl io i child_ptr (ls, r) = Some (Suc i, ls, r)" using ptr e by (simp add: sr_descend_def)
  ultimately show ?thesis by blast
next
  case True
  define j where "j = h - 1 - Suc i"
  have j: "h - 1 - i = Suc j" using True by (simp add: j_def)
  let ?c = "c(Suc i := n * a)" and ?q = "n ^ Suc j * a"
  have "?q \<le> (N - 1) div B" using i(3) unfolding j m .
  then have aT: "a \<le> (N - 1) div B div n ^ Suc j" using n_law by (simp add: less_eq_div_iff_mult_less_eq mult.commute del: power_Suc)
  have n0: "0 < n" "Suc j < h" using n_law True by (simp_all add: j_def)
  have lvs: "level_at stream rest body B n N f j (c (Suc i)) (ls ! Suc i)" "level_at stream rest body B n N f (Suc j) (Suc a) (ls ! i)"
    using lv [rule_format, OF True] lv [rule_format, OF i(1)] unfolding j i(2) j_def by blast+
  from seek_to_child_at [OF lvs _ n0(2) below [OF True] aT body_law f n0(1)] fits m
  obtain lv' where lv': "sr_seek_to_child io (if a = 0 then 0 else of_nat (sk_pos body n j (n * a))) (ls ! i) (ls ! Suc i) = Some lv'"
    "level_at stream rest body B n N f j (n * a) lv'" by blast
  have pt: "child_ptr = (if a = 0 then 0 else of_nat (sk_pos body n j (n * a)))" using ptr unfolding j by simp
  have nz: "child_ptr \<noteq> kUndefined"
  proof -
    have "sk_pos body n j (n * a) < 2 ^ 64 - 1" if "a \<noteq> 0" using fits aT n0(2) that by (simp add: sk_fits_def m)
    then show ?thesis using child_defined pt by (auto simp: kUndefined_def)
  qed
  moreover have "sr_seek_to_child io child_ptr (ls ! i) (ls ! Suc i) = Some lv'" using lv'(1) pt by simp
  ultimately have d: "sr_descend cl io i child_ptr (ls, r) = Some (Suc i, ls[Suc i := lv'], move_down cl (Suc i) r)"
    using True len by (simp add: sr_descend_def)
  have pos: "sk_at n h ?c = (sk_at n h c)(Suc i := ?q)" unfolding sk_at_upd j_def [symmetric] by (simp add: algebra_simps)
  have mv: "rel (move_down cl (Suc i) r) (sk_at n h ?c) (insert (Suc i) V) ?q" unfolding pos using move_law [OF r(1) True i(3)] unfolding j .
  have lower: "sk_at n h c (Suc i) \<le> ?q"
  proof -
    have "n ^ j * c (Suc i) \<le> n ^ j * (n * a)" using below [OF True] by (rule mult_le_mono2)
    then show ?thesis unfolding sk_at_def j_def [symmetric] by (simp add: algebra_simps)
  qed
  have "sk_at n h c i = n ^ Suc j * Suc a" using i(2) unfolding sk_at_def j by simp
  then have upper: "?q \<le> sk_at n h c i" by simp
  have "sk_at n h ?c (Suc k) \<le> sk_at n h ?c k" if k: "Suc k < h" for k
    using sorted [rule_format, OF k] lower upper unfolding pos by (cases "k = i"; cases "k = Suc i") auto
  moreover have "level_at stream rest body B n N f (h - 1 - k) (?c k) (ls[Suc i := lv'] ! k)" if "k < h" for k
    using lv [rule_format, OF that] lv'(2) len True by (cases "k = Suc i") (auto simp: j_def)
  moreover have "target \<le> key (sk_at n h ?c k)" if "k < Suc i" for k using reached that unfolding pos by simp
  moreover have "\<forall>k. Suc k < h \<longrightarrow> k \<noteq> Suc i \<longrightarrow> 0 < ?c k \<longrightarrow> Suc k \<in> insert (Suc i) V" using r(3) by auto
  moreover have "key (sk_at n h ?c (Suc i)) < target" using i(4) unfolding pos j by simp
  ultimately have "seek_inv stream rest body key n h rel B N f target (Suc i) ?c (ls[Suc i := lv'], move_down cl (Suc i) r)"
    unfolding seek_inv_def prod.case using len mv r(2,3) True
    by (intro conjI exI [of _ "insert (Suc i) V"] exI [of _ ?q]) simp_all
  then show ?thesis using d by blast
qed

text \<open>One iteration: the next entry of the same level, or the level below.\<close>

lemma step_correct:
  assumes inv: "seek_inv stream rest body key n h rel B N f target i c st" and i: "i < h"
    and m: "m = (N - 1) div B" and fits: "sk_fits body n m h" and f: "length f < 2 ^ 64" and N: "1 \<le> N" "0 < B"
  shows "\<exists>i' st' c'. sr_step cl io target i st = Some (i', st') \<and> seek_inv stream rest body key n h rel B N f target i' c' st' \<and>
    (i' = i \<and> c' i = Suc (c i) \<and> c i \<le> m \<or> i' = Suc i)"
proof -
  obtain ls r where st: "st = (ls, r)" by fastforce
  define j where "j = h - 1 - i"
  let ?T = "(N - 1) div B div n ^ j" and ?lv = "ls ! i" and ?a = "c i" and ?p = "sk_at n h c"
  have v: "length ls = h" "\<forall>k<h. level_at stream rest body B n N f (h - 1 - k) (c k) (ls ! k)"
    "\<forall>k. Suc k < h \<longrightarrow> ?p (Suc k) \<le> ?p k" "\<forall>k<i. target \<le> key (?p k)"
    using inv unfolding seek_inv_def st prod.case by blast+
  obtain V q where V: "rel r ?p V q" "0 \<in> V" "\<forall>k. Suc k < h \<longrightarrow> k \<noteq> i \<longrightarrow> 0 < c k \<longrightarrow> Suc k \<in> V" "i \<in> V" "key (?p i) < target"
    using inv i unfolding seek_inv_def st prod.case by blast
  have lv: "level_at stream rest body B n N f j ?a ?lv" using v(2) i unfolding j_def by blast
  have pi: "?p i = n ^ j * ?a" unfolding sk_at_def j_def ..
  have n0: "0 < n" "j < h" using n_law i by (simp_all add: j_def)
  have pm: "?p i \<le> m" using key_end [of "?p i" target] V(5) by (metis leD leI)
  then have "n ^ j * ?a \<le> (N - 1) div B" unfolding pi m .
  then have aT: "?a \<le> ?T" using n0(1) by (simp add: less_eq_div_iff_mult_less_eq mult.commute)
  have "?a \<le> n ^ j * ?a" using n0(1) by simp
  then have am: "?a \<le> m" using pm pi by linarith
  have adj: "adjust_level cl i r = i" using adjust_law [OF V(1) i] .
  have below: "c (Suc i) \<le> n * ?a" if s: "Suc i < h"
  proof -
    have "n ^ (h - 1 - Suc i) * c (Suc i) \<le> n ^ j * ?a" using v(3) s pi unfolding sk_at_def by metis
    moreover have "j = Suc (h - 1 - Suc i)" using s by (simp add: j_def)
    ultimately have "n ^ (h - 1 - Suc i) * c (Suc i) \<le> n ^ (h - 1 - Suc i) * (n * ?a)" by (simp add: algebra_simps)
    then show ?thesis using n0(1) by simp
  qed
  have above: "?p i + n ^ j \<le> ?p k" if k: "k < h" "i = Suc k" for k
  proof -
    have "target \<le> key (?p k)" "?p (Suc k) \<le> ?p k" using v(3,4) i k by auto
    then have "?p i < ?p k" using V(5) k by (metis leD le_neq_implies_less)
    moreover have "h - 1 - k = Suc j" using i k by (simp add: j_def)
    ultimately show ?thesis using power_multiple_less [of n j ?a "c k"] unfolding pi by (simp add: sk_at_def)
  qed
  let ?c = "c(i := Suc ?a)"
  have pos: "sk_at n h ?c = ?p(i := ?p i + n ^ j)" unfolding sk_at_upd j_def [symmetric] pi by (simp add: add.commute)
  have sorted: "\<forall>k. Suc k < h \<longrightarrow> sk_at n h ?c (Suc k) \<le> sk_at n h ?c k"
  proof (intro allI impI)
    fix k assume k: "Suc k < h"
    have le: "?p (Suc k) \<le> ?p k" using v(3) k by blast
    consider "Suc k = i" | "k = i" | "Suc k \<noteq> i" "k \<noteq> i" by blast
    then show "sk_at n h ?c (Suc k) \<le> sk_at n h ?c k"
    proof cases
      case 1
      then have "k < h" "k \<noteq> i" using k by simp_all
      then show ?thesis using above [of k] 1 unfolding pos by simp
    next
      case 2
      then show ?thesis using trans_le_add1 [OF le, of "n ^ j"] unfolding pos by simp
    next
      case 3
      then show ?thesis using le unfolding pos by simp
    qed
  qed
  have Vc: "\<forall>k. Suc k < h \<longrightarrow> k \<noteq> i \<longrightarrow> 0 < ?c k \<longrightarrow> Suc k \<in> V" using V(3) by auto
  have ch: "sl_child ?lv = (if j = 0 then kUndefined else if ?a = 0 then 0 else of_nat (sk_pos body n (j - 1) (n * ?a)))"
    using lv aT by (simp add: level_at_def Let_def min_def)
  have more: "0 < sl_left ?lv - int (sl_step ?lv) \<longleftrightarrow> ?a < ?T" using level_more [OF lv N n0(1)] .
  have rest_c: "\<forall>k<h. level_at stream rest body B n N f (h - 1 - k) (?c k) (ls[i := lv'] ! k)"
    if "level_at stream rest body B n N f j (Suc ?a) lv'" for lv'
    using v(1,2) i that by (auto simp: nth_list_update j_def)
  have down: "\<exists>st' c'. sr_descend cl io i (sl_child ?lv) (ls[i := lv'], r') = Some (Suc i, st') \<and>
      seek_inv stream rest body key n h rel B N f target (Suc i) c' st'"
    if lv': "level_at stream rest body B n N f j (Suc ?a) lv'" and r': "rel r' (sk_at n h ?c) V (?p i)" and t: "target \<le> key (?p i + n ^ j)" for lv' r'
  proof (rule descend_correct [where a = ?a])
    show "\<forall>k\<le>i. target \<le> key (sk_at n h ?c k)" using v(4) t unfolding pos by (auto simp: le_less)
    show "rel r' (sk_at n h ?c) V (n ^ (h - 1 - i) * ?a)" using r' unfolding pi j_def .
    show "n ^ (h - 1 - i) * ?a \<le> m" "key (n ^ (h - 1 - i) * ?a) < target" using pm V(5) unfolding pi j_def by blast+
    show "sl_child ?lv = (if h - 1 - i = 0 then kUndefined else if ?a = 0 then 0 else of_nat (sk_pos body n (h - 1 - i - 1) (n * ?a)))"
      using ch unfolding j_def .
    show "Suc i < h \<Longrightarrow> ?c (Suc i) \<le> n * ?a" using below by simp
  qed (use rest_c [OF lv'] v(1) sorted V(2) Vc i m fits f in simp_all)
  show ?thesis
  proof (cases "?a < ?T")
    case True
    obtain tl where tl: "rest (sl_stream ?lv) = body j (n ^ j * Suc ?a) @ tl" and adv: "\<And>s1. stream f s1 \<Longrightarrow> rest s1 = tl \<Longrightarrow>
      \<exists>child s2. (if sl_child ?lv \<noteq> kUndefined then in_vlong io s1 else Some (sl_child ?lv, s1)) = Some (child, s2) \<and>
        level_at stream rest body B n N f j (Suc ?a) (?lv\<lparr>sl_stream := s2, sl_child := child, sl_left := sl_left ?lv - int (sl_step ?lv)\<rparr>)"
      using level_advance [OF lv fits [unfolded m] n0(2) True] by blast
    have s0: "stream f (sl_stream ?lv)" using lv by (simp add: level_at_def Let_def)
    have "n ^ j * Suc ?a \<le> n ^ j * ?T" using True by (intro mult_le_mono2) simp
    also have "\<dots> \<le> m" unfolding m by (rule times_div_less_eq_dividend)
    finally have le: "?p i + n ^ (h - 1 - i) \<le> m" unfolding pi j_def [symmetric] by simp
    have tl': "rest (sl_stream ?lv) = body (h - 1 - i) (?p i + n ^ (h - 1 - i)) @ tl" using tl unfolding pi j_def [symmetric] by (simp add: algebra_simps)
    obtain r1 s1 where r1: "read_of cl i (sl_stream ?lv) r = Some (r1, s1)" "stream f s1" "rest s1 = tl"
      "rel r1 (?p(i := ?p i + n ^ (h - 1 - i))) V (?p i)" using read_law [OF V(1) i V(4) le s0 tl'] by blast
    obtain child s2 where s2: "(if sl_child ?lv \<noteq> kUndefined then in_vlong io s1 else Some (sl_child ?lv, s1)) = Some (child, s2)"
      "level_at stream rest body B n N f j (Suc ?a) (?lv\<lparr>sl_stream := s2, sl_child := child, sl_left := sl_left ?lv - int (sl_step ?lv)\<rparr>)"
      using adv [OF r1(2,3)] by blast
    let ?lv' = "?lv\<lparr>sl_stream := s2, sl_child := child, sl_left := sl_left ?lv - int (sl_step ?lv)\<rparr>"
    have rel1: "rel r1 (sk_at n h ?c) V (?p i)" using r1(4) unfolding pos j_def .
    have less: "is_less cl i target r1 \<longleftrightarrow> key (?p i + n ^ j) < target" using less_law [OF rel1 i] unfolding pos by simp
    have step: "sr_step cl io target i st = (if is_less cl i target r1 then Some (i, ls[i := ?lv'], r1) else sr_descend cl io i (sl_child ?lv) (ls[i := ?lv'], r1))"
      using r1(1) s2(1) True more unfolding st sr_step_def prod.case Let_def adj by simp
    show ?thesis
    proof (cases "key (?p i + n ^ j) < target")
      case True
      have "seek_inv stream rest body key n h rel B N f target i ?c (ls[i := ?lv'], r1)"
        unfolding seek_inv_def prod.case using v(1) rest_c [OF s2(2)] sorted rel1 V(2,4) Vc True v(4) i unfolding pos
        by (intro conjI exI [of _ V] exI [of _ "?p i"]) (simp_all add: pos)
      then show ?thesis using step less True am by auto
    next
      case False
      then have t: "target \<le> key (?p i + n ^ j)" by simp
      have "sr_step cl io target i st = sr_descend cl io i (sl_child ?lv) (ls[i := ?lv'], r1)" using step less False by simp
      then show ?thesis using down [OF s2(2) rel1 t] by metis
    qed
  next
    case False
    then have aT: "?a = ?T" using aT by simp
    have sl: "level_at stream rest body B n N f j (Suc ?a) (?lv\<lparr>sl_left := sl_left ?lv - int (sl_step ?lv)\<rparr>)" using level_seal [OF lv aT] .
    have end_m: "m < ?p i + n ^ j"
    proof -
      have "m < n ^ j * (m div n ^ j) + n ^ j" using n0(1) by (metis add.commute dividend_less_times_div mult.commute zero_less_power)
      then show ?thesis unfolding pi aT m .
    qed
    have "rel (seal_of cl i r) (sk_at n h ?c) V (?p i)" using seal_law [OF V(1) i V(4) pm end_m] unfolding pos .
    note d = down [OF sl this key_end [OF end_m]]
    have "sr_step cl io target i st = sr_descend cl io i (sl_child ?lv) (ls[i := ?lv\<lparr>sl_left := sl_left ?lv - int (sl_step ?lv)\<rparr>], seal_of cl i r)"
      using False more unfolding st sr_step_def prod.case Let_def adj by simp
    then show ?thesis using d by metis
  qed
qed

lemma loop_correct:
  assumes "seek_inv stream rest body key n h rel B N f target i c st" "i \<le> h"
    and m: "m = (N - 1) div B" "sk_fits body n m h" "length f < 2 ^ 64" "1 \<le> N" "0 < B"
  shows "\<exists>st' c'. sr_loop cl io target i st = Some st' \<and> seek_inv stream rest body key n h rel B N f target h c' st'"
  using assms(1,2)
proof (induction "(h - i) * (m + 2) + (m + 1 - c i)" arbitrary: i c st rule: less_induct)
  case less
  have len: "length (fst st) = h" using less.prems(1) by (auto simp: seek_inv_def split: prod.splits)
  show ?case
  proof (cases "i = h")
    case True
    then show ?thesis using less.prems(1) len by (subst sr_loop.simps) auto
  next
    case False
    then have i: "i < h" using less.prems(2) by simp
    obtain i' st' c' where s: "sr_step cl io target i st = Some (i', st')" "seek_inv stream rest body key n h rel B N f target i' c' st'"
      "i' = i \<and> c' i = Suc (c i) \<and> c i \<le> m \<or> i' = Suc i" using step_correct [OF less.prems(1) i m] by blast
    have le: "i' \<le> h" using s(3) i by auto
    have "(h - i') * (m + 2) + (m + 1 - c' i') < (h - i) * (m + 2) + (m + 1 - c i)"
    proof (cases "i' = i")
      case True
      then show ?thesis using s(3) by auto
    next
      case False
      then have "h - i = Suc (h - i')" using s(3) i by auto
      then show ?thesis by simp
    qed
    from less.hyps [OF this s(2) le] obtain st'' c'' where "sr_loop cl io target i' st' = Some st''"
      "seek_inv stream rest body key n h rel B N f target h c'' st''" by blast
    then show ?thesis using s(1) len False by (subst sr_loop.simps) auto
  qed
qed

lemma first_correct:
  assumes "rel r (sk_at n h c) V q" "k \<le> h"
  shows "sr_first cl target r h k \<le> h \<and> h - k \<le> sr_first cl target r h k \<and>
    (\<forall>l. h - k \<le> l \<and> l < sr_first cl target r h k \<longrightarrow> target \<le> key (sk_at n h c l)) \<and>
    (sr_first cl target r h k < h \<longrightarrow> key (sk_at n h c (sr_first cl target r h k)) < target)"
  using assms(2)
proof (induction k)
  case (Suc k)
  have i: "h - Suc k < h" using Suc.prems by simp
  note less = less_law [OF assms(1) i, of target]
  show ?case
  proof (cases "key (sk_at n h c (h - Suc k)) < target")
    case True
    then have e: "sr_first cl target r h (Suc k) = h - Suc k" using less by simp
    show ?thesis unfolding e using True by auto
  next
    case False
    then have e: "sr_first cl target r h (Suc k) = sr_first cl target r h k" using less by simp
    have "l = h - Suc k \<or> h - k \<le> l" if "h - Suc k \<le> l" for l using that by linarith
    then show ?thesis unfolding e using Suc False by (auto simp: not_less)
  qed
qed auto

end

text \<open>Between two calls of \<open>Seek\<close>.\<close>

definition skip_ready ::
  "(u8 list \<Rightarrow> 'i \<Rightarrow> bool) \<Rightarrow> ('i \<Rightarrow> u8 list) \<Rightarrow> (nat \<Rightarrow> nat \<Rightarrow> u8 list) \<Rightarrow> nat \<Rightarrow> nat \<Rightarrow>
   ('r \<Rightarrow> (nat \<Rightarrow> nat) \<Rightarrow> nat set \<Rightarrow> nat \<Rightarrow> bool) \<Rightarrow> nat \<Rightarrow> nat \<Rightarrow> u8 list \<Rightarrow> (nat \<Rightarrow> nat) \<Rightarrow> nat \<Rightarrow> 'i skip_level list \<times> 'r \<Rightarrow> bool" where
  "skip_ready stream rest body n h rel B N f c q = (\<lambda>(ls, r).
     length ls = h \<and> (\<forall>k<h. level_at stream rest body B n N f (h - 1 - k) (c k) (ls ! k)) \<and>
     (\<forall>k. Suc k < h \<longrightarrow> sk_at n h c (Suc k) \<le> sk_at n h c k) \<and>
     (\<exists>V. rel r (sk_at n h c) V q \<and> 0 \<in> V \<and> (\<forall>k. Suc k < h \<longrightarrow> 0 < c k \<longrightarrow> Suc k \<in> V)))"

context skip_follower
begin

lemma seek_correct:
  assumes rdy: "skip_ready stream rest body n h rel B N f c q (sr_levels sr, r)" and h: "0 < h" and low: "key (c (h - 1)) < target"
    and m: "m = (N - 1) div B" "sk_fits body n m h" "length f < 2 ^ 64" "1 \<le> N" "0 < B"
  shows "\<exists>j c' ls' r'. sr_seek cl io target (sr, r) = Some (of_nat (N - B * j), sr\<lparr>sr_levels := ls'\<rparr>, r') \<and> j \<le> m \<and>
    key j < target \<and> target \<le> key (Suc j) \<and> skip_ready stream rest body n h rel B N f c' j (ls', r') \<and> c' (h - 1) = Suc j"
proof -
  let ?ls = "sr_levels sr" and ?i = "sr_first cl target r h h"
  have v: "length ?ls = h" "\<forall>k<h. level_at stream rest body B n N f (h - 1 - k) (c k) (?ls ! k)"
    "\<forall>k. Suc k < h \<longrightarrow> sk_at n h c (Suc k) \<le> sk_at n h c k" using rdy by (auto simp: skip_ready_def)
  obtain V where V: "rel r (sk_at n h c) V q" "0 \<in> V" "\<forall>k. Suc k < h \<longrightarrow> 0 < c k \<longrightarrow> Suc k \<in> V" using rdy by (auto simp: skip_ready_def)
  have bottom: "sk_at n h d (h - 1) = d (h - 1)" for d by (simp add: sk_at_def)
  have fst: "?i \<le> h" "\<forall>l<?i. target \<le> key (sk_at n h c l)" "?i < h \<longrightarrow> key (sk_at n h c ?i) < target"
    using first_correct [OF V(1) le_refl, of target] by auto
  have ih: "?i < h"
  proof (rule ccontr)
    assume "\<not> ?i < h"
    then have "target \<le> key (sk_at n h c (h - 1))" using fst(2) h by simp
    then show False using low bottom by (simp add: not_le [symmetric])
  qed
  have iV: "?i \<in> V"
  proof (cases ?i)
    case (Suc k)
    have "target \<le> key (sk_at n h c k)" "sk_at n h c (Suc k) \<le> sk_at n h c k" "key (sk_at n h c (Suc k)) < target"
      using fst v(3) ih Suc by auto
    then have "sk_at n h c (Suc k) < sk_at n h c k" by (metis leD le_neq_implies_less)
    then have "0 < c k" by (auto simp: sk_at_def intro: Nat.gr0I)
    then show ?thesis using V(3) ih Suc by simp
  qed (simp add: V(2))
  have "seek_inv stream rest body key n h rel B N f target ?i c (?ls, r)"
    unfolding seek_inv_def prod.case using v fst V iV ih by (intro conjI exI [of _ V] exI [of _ q]) simp_all
  from loop_correct [OF this fst(1) m] obtain ls' r' c' where lp: "sr_loop cl io target ?i (?ls, r) = Some (ls', r')"
    and inv: "seek_inv stream rest body key n h rel B N f target h c' (ls', r')" by (metis surj_pair)
  have w: "length ls' = h" "\<forall>k<h. level_at stream rest body B n N f (h - 1 - k) (c' k) (ls' ! k)"
    "\<forall>k. Suc k < h \<longrightarrow> sk_at n h c' (Suc k) \<le> sk_at n h c' k" "\<forall>k<h. target \<le> key (sk_at n h c' k)"
    using inv unfolding seek_inv_def prod.case by blast+
  obtain V' j where V': "rel r' (sk_at n h c') V' j" "0 \<in> V'" "\<forall>k. Suc k < h \<longrightarrow> k \<noteq> h \<longrightarrow> 0 < c' k \<longrightarrow> Suc k \<in> V'"
    "c' (h - 1) = Suc j" "key j < target" using inv unfolding seek_inv_def prod.case by blast
  have "j \<le> m" using key_end [of j target] V'(5) by (metis leD leI)
  then have "B * j \<le> B * ((N - 1) div B)" unfolding m by (rule mult_le_mono2)
  also have "\<dots> \<le> N - 1" by (rule times_div_less_eq_dividend)
  finally have jB: "B * j \<le> N" by simp
  have l0: "level_at stream rest body B n N f 0 (Suc j) (last ls')"
  proof -
    have "h - 1 < h" "h - 1 - (h - 1) = 0" using h by simp_all
    moreover have "last ls' = ls' ! (h - 1)" using w(1) h by (subst last_conv_nth) auto
    ultimately show ?thesis using w(2) V'(4) by metis
  qed
  then have "sl_left (last ls') + int (sl_step (last ls')) = int N - int (B * j)" by (simp add: level_at_def Let_def algebra_simps)
  then have "(word_of_int (sl_left (last ls') + int (sl_step (last ls'))) :: u32) = of_nat (N - B * j)"
    using jB by (simp add: of_nat_diff)
  moreover have "?ls \<noteq> []" using v(1) h by auto
  ultimately have "sr_seek cl io target (sr, r) = Some (of_nat (N - B * j), sr\<lparr>sr_levels := ls'\<rparr>, r')"
    using lp v(1) by (simp add: sr_seek_def Let_def)
  moreover have "target \<le> key (Suc j)" using w(4) h bottom [of c'] V'(4) by (metis diff_less zero_less_one)
  moreover have "skip_ready stream rest body n h rel B N f c' j (ls', r')"
    unfolding skip_ready_def prod.case using w V' by (intro conjI exI [of _ V']) auto
  ultimately show ?thesis using \<open>j \<le> m\<close> V'(4,5) by blast
qed

end

end
