(* ===== verification/PostingsSeek.thy ===== *)
theory PostingsSeek
  imports PostingsReader SkipReader
begin

text \<open>
  \<open>doc_iterator\<close> of \<open>core/formats/formats_10.cpp\<close> with its skip list: \<open>ReadSkip\<close>, \<open>prepare\<close>, \<open>seek\<close> and \<open>seek_to_block\<close>, for
  lists without positions and score blocks. The iterator over a list that has been written keeps the contract of document
  iterators, for any order of calls of \<open>next\<close> and \<open>seek\<close>.
\<close>

section \<open>Reading the skip list\<close>

text \<open>\<open>SkipState\<close> without what is there for positions, and \<open>ReadSkip\<close>; \<open>rs_prev\<close> is what \<open>prev_\<close> points to.\<close>

record skip_state =
  ss_doc_ptr :: u64
  ss_doc :: u32

definition skip_state_new :: skip_state where
  "skip_state_new = \<lparr>ss_doc_ptr = 0, ss_doc = 0\<rparr>"

record read_skip =
  rs_levels :: "skip_state list"
  rs_prev :: skip_state

definition rs_new :: read_skip where
  "rs_new = \<lparr>rs_levels = [skip_state_new\<lparr>ss_doc := doc_eof32\<rparr>], rs_prev = skip_state_new\<rparr>"

definition rs_enable :: "term_meta \<Rightarrow> read_skip \<Rightarrow> read_skip option" where
  "rs_enable meta r =
     (let ls = (rs_levels r)[0 := (rs_levels r ! 0)\<lparr>ss_doc_ptr := tm_doc_start meta\<rparr>]; i = length ls - 1
      in if ss_doc (ls ! i) = doc_eof32 then Some (r\<lparr>rs_levels := ls[i := (ls ! i)\<lparr>ss_doc := 0\<rparr>]\<rparr>) else None)"

text \<open>\<open>skip_levels_.resize\<close>.\<close>

definition rs_init :: "nat \<Rightarrow> read_skip \<Rightarrow> read_skip" where
  "rs_init num_levels r = r\<lparr>rs_levels := take num_levels (rs_levels r) @ replicate (num_levels - length (rs_levels r)) skip_state_new\<rparr>"

definition rs_is_less :: "nat \<Rightarrow> u32 \<Rightarrow> read_skip \<Rightarrow> bool" where
  "rs_is_less level target r \<longleftrightarrow> ss_doc (rs_levels r ! level) < target"

definition rs_move_down :: "nat \<Rightarrow> read_skip \<Rightarrow> read_skip" where
  "rs_move_down level r = r\<lparr>rs_levels := (rs_levels r)[level := rs_prev r]\<rparr>"

definition rs_read :: "'i index_in \<Rightarrow> nat \<Rightarrow> 'i \<Rightarrow> read_skip \<Rightarrow> (read_skip \<times> 'i) option" where
  "rs_read io level s r = do {
     let st = rs_levels r ! level;
     (doc, s1) \<leftarrow> in_vint io s;
     (d, s2) \<leftarrow> in_vlong io s1;
     Some (r\<lparr>rs_levels := (rs_levels r)[level := \<lparr>ss_doc_ptr = ss_doc_ptr st + d, ss_doc = doc\<rparr>], rs_prev := st\<rparr>, s2)
   }"

definition rs_seal :: "nat \<Rightarrow> read_skip \<Rightarrow> read_skip" where
  "rs_seal level r =
     r\<lparr>rs_levels := (rs_levels r)[level := (rs_levels r ! level)\<lparr>ss_doc := doc_eof32\<rparr>], rs_prev := rs_levels r ! level\<rparr>"

definition rs_reset :: "read_skip \<Rightarrow> read_skip" where
  "rs_reset r = r\<lparr>rs_prev := skip_state_new\<rparr>"

definition rs_upper_bound :: "read_skip \<Rightarrow> u32" where
  "rs_upper_bound r = ss_doc (last (rs_levels r))"

definition rs_client :: "'i index_in \<Rightarrow> ('i, read_skip) skip_client" where
  "rs_client io = \<lparr>is_less = rs_is_less, adjust_level = (\<lambda>level _. level), read_of = rs_read io, seal_of = rs_seal, move_down = rs_move_down\<rparr>"

section \<open>The iterator\<close>

record 'i doc_it =
  di_base :: "'i postings_it"
  di_skip_offs :: u64
  di_skip :: "'i skip_reader"
  di_reader :: read_skip
  di_docs_count :: u32

definition di_new :: "block_fns \<Rightarrow> u32 list \<Rightarrow> u32 list \<Rightarrow> 'i \<Rightarrow> 'i doc_it" where
  "di_new bf freqs enc_buf s = \<lparr>di_base = pi_new bf freqs enc_buf s, di_skip_offs = 0, di_skip = sr_new (bf_size bf) kSkipN,
     di_reader = rs_new, di_docs_count = 0\<rparr>"

definition di_prepare :: "block_fns \<Rightarrow> 'i index_in \<Rightarrow> term_meta \<Rightarrow> 'i doc_it \<Rightarrow> 'i doc_it option" where
  "di_prepare bf io meta it = do {
     b \<leftarrow> pi_prepare io meta (di_base it);
     if bf_size bf < unat (tm_docs_count meta) then do {
       r \<leftarrow> rs_enable meta (di_reader it);
       Some (it\<lparr>di_base := b, di_reader := r, di_skip_offs := tm_doc_start meta + tm_ext meta, di_docs_count := tm_docs_count meta\<rparr>)
     } else Some (it\<lparr>di_base := b\<rparr>)
   }"

text \<open>\<open>seek_to_block\<close>: the lazy initialisation of the skip list, then the jump.\<close>

definition di_init_skip :: "'i index_in \<Rightarrow> ('i \<Rightarrow> 'i) \<Rightarrow> 'i doc_it \<Rightarrow> 'i doc_it option" where
  "di_init_skip io dup it =
     (if di_docs_count it = 0 then Some it
      else if sr_num_levels (di_skip it) = 0 then do {
        s \<leftarrow> in_seek io (unat (di_skip_offs it)) (dup (pi_in (di_base it)));
        sr \<leftarrow> sr_prepare io dup s (di_docs_count it) (di_skip it);
        let num_levels = sr_num_levels sr;
        if 0 < num_levels \<and> num_levels \<le> kMaxSkipLevels
        then Some (it\<lparr>di_skip := sr, di_docs_count := 0, di_reader := rs_init num_levels (di_reader it)\<rparr>)
        else None
      } else None)"

definition di_seek_to_block :: "'i index_in \<Rightarrow> ('i \<Rightarrow> 'i) \<Rightarrow> u32 \<Rightarrow> 'i doc_it \<Rightarrow> 'i doc_it option" where
  "di_seek_to_block io dup target it = do {
     it1 \<leftarrow> di_init_skip io dup (it\<lparr>di_reader := rs_reset (di_reader it)\<rparr>);
     (left, sr, r) \<leftarrow> sr_seek (rs_client io) io target (di_skip it1, di_reader it1);
     s \<leftarrow> in_seek io (unat (ss_doc_ptr (rs_prev r))) (pi_in (di_base it1));
     Some (it1\<lparr>di_base := (di_base it1)\<lparr>pi_left := unat left, pi_in := s, pi_doc := ss_doc (rs_prev r)\<rparr>, di_skip := sr, di_reader := r\<rparr>)
   }"

text \<open>The loops of \<open>seek\<close>: over the buffer, and over \<open>next\<close>.\<close>

partial_function (option) di_scan :: "bool \<Rightarrow> u32 \<Rightarrow> 'i postings_it \<Rightarrow> (bool \<times> 'i postings_it) option" where
  "di_scan ifreq target it =
     (if pi_begin it = length (pi_docs it) then Some (False, it)
      else let it1 = it\<lparr>pi_doc := pi_doc it + pi_docs it ! pi_begin it, pi_begin := pi_begin it + 1\<rparr>
        in if target \<le> pi_doc it1
           then Some (True, if ifreq then it1\<lparr>pi_freq_pos := pi_begin it1, pi_freq := pi_freqs it1 ! (pi_begin it1 - 1)\<rparr> else it1)
           else di_scan ifreq target it1)"

declare di_scan.simps [code]

partial_function (option) di_next_to :: "block_fns \<Rightarrow> 'i index_in \<Rightarrow> bool \<Rightarrow> bool \<Rightarrow> u32 \<Rightarrow> 'i postings_it \<Rightarrow> 'i postings_it option" where
  "di_next_to bf io ifreq ffreq target it =
     (if pi_doc it < target then do { (_, it1) \<leftarrow> pi_next bf io ifreq ffreq it; di_next_to bf io ifreq ffreq target it1 } else Some it)"

declare di_next_to.simps [code]

definition di_seek_buffer ::
  "block_fns \<Rightarrow> 'i index_in \<Rightarrow> bool \<Rightarrow> bool \<Rightarrow> u32 \<Rightarrow> 'i doc_it \<Rightarrow> (u32 \<times> 'i doc_it) option" where
  "di_seek_buffer bf io ifreq ffreq target it = do {
     (found, b) \<leftarrow> di_scan ifreq target (di_base it);
     b1 \<leftarrow> (if found then Some b else di_next_to bf io ifreq ffreq target b);
     Some (pi_doc b1, it\<lparr>di_base := b1\<rparr>)
   }"

definition di_seek ::
  "block_fns \<Rightarrow> 'i index_in \<Rightarrow> ('i \<Rightarrow> 'i) \<Rightarrow> bool \<Rightarrow> bool \<Rightarrow> u32 \<Rightarrow> 'i doc_it \<Rightarrow> (u32 \<times> 'i doc_it) option" where
  "di_seek bf io dup ifreq ffreq target it =
     (if target \<le> pi_doc (di_base it) then Some (pi_doc (di_base it), it)
      else if rs_upper_bound (di_reader it) < target then do {
        it1 \<leftarrow> di_seek_to_block io dup target it;
        if pi_left (di_base it1) = 0 then Some (doc_eof32, it1\<lparr>di_base := (di_base it1)\<lparr>pi_doc := doc_eof32\<rparr>\<rparr>)
        else do {
          b \<leftarrow> pi_refill bf io ifreq ffreq (di_base it1);
          di_seek_buffer bf io ifreq ffreq target (it1\<lparr>di_base := b\<lparr>pi_doc := pi_doc b + of_bool (pi_doc b = 0)\<rparr>\<rparr>)
        }
      } else di_seek_buffer bf io ifreq ffreq target it)"

definition di_ops :: "block_fns \<Rightarrow> 'i index_in \<Rightarrow> ('i \<Rightarrow> 'i) \<Rightarrow> bool \<Rightarrow> bool \<Rightarrow> 'i doc_it doc_ops" where
  "di_ops bf io dup ifreq ffreq = \<lparr>value_of = (\<lambda>it. unat (pi_doc (di_base it))),
     next_of = (\<lambda>it. map_option (\<lambda>(b, base). (b, it\<lparr>di_base := base\<rparr>)) (pi_next bf io ifreq ffreq (di_base it))),
     seek_of = (\<lambda>t it. map_option (\<lambda>(d, it1). (unat d, it1)) (di_seek bf io dup ifreq ffreq (of_nat t) it))\<rparr>"

section \<open>The skip list of a posting list\<close>

text \<open>Entry \<open>j\<close> stands behind the first \<open>j\<close> blocks: the last document of these, and where the next block starts.\<close>

definition pl_key :: "block_fns \<Rightarrow> (u32 \<times> u32) list \<Rightarrow> nat \<Rightarrow> u32" where
  "pl_key bf ps j = (if j = 0 then 0 else if (length ps - 1) div bf_size bf < j then doc_eof32 else fst (ps ! (bf_size bf * j - 1)))"

definition pl_off :: "block_fns \<Rightarrow> bool \<Rightarrow> (u32 \<times> u32) list \<Rightarrow> nat \<Rightarrow> nat \<Rightarrow> u64" where
  "pl_off bf hf ps start j = of_nat (start + length (pl_blocks bf hf ps j))"

definition rs_rel ::
  "block_fns \<Rightarrow> bool \<Rightarrow> (u32 \<times> u32) list \<Rightarrow> nat \<Rightarrow> nat \<Rightarrow> nat \<Rightarrow> read_skip \<Rightarrow> (nat \<Rightarrow> nat) \<Rightarrow> nat set \<Rightarrow> nat \<Rightarrow> bool" where
  "rs_rel bf hf ps start n h r p V q \<longleftrightarrow> pl_input n ps \<and> length (rs_levels r) = h \<and>
     (\<forall>i<h. ss_doc (rs_levels r ! i) = pl_key bf ps (p i)) \<and>
     (\<forall>i\<in>V. i < h \<longrightarrow> p i \<le> (length ps - 1) div bf_size bf \<longrightarrow> ss_doc_ptr (rs_levels r ! i) = pl_off bf hf ps start (p i)) \<and>
     (q \<le> (length ps - 1) div bf_size bf \<longrightarrow> rs_prev r = \<lparr>ss_doc_ptr = pl_off bf hf ps start q, ss_doc = pl_key bf ps q\<rparr>)"

lemma doc_eof32_max: "(d :: u32) \<le> doc_eof32"
  by (simp add: doc_eof32_def)

lemma pl_key_mono:
  assumes "pl_input n ps" "0 < bf_size bf" "a \<le> b"
  shows "pl_key bf ps a \<le> pl_key bf ps b"
proof -
  let ?m = "(length ps - 1) div bf_size bf"
  have "fst (ps ! (bf_size bf * a - 1)) \<le> fst (ps ! (bf_size bf * b - 1))" if "0 < a" "b \<le> ?m"
  proof -
    have "bf_size bf * b \<le> bf_size bf * ?m" using that(2) by (rule mult_le_mono2)
    also have "\<dots> \<le> length ps - 1" by (rule times_div_less_eq_dividend)
    finally have "bf_size bf * b \<le> length ps - 1" .
    moreover have "bf_size bf * a \<le> bf_size bf * b" "0 < bf_size bf * a" using assms that by simp_all
    ultimately have "bf_size bf * a - 1 \<le> bf_size bf * b - 1" "bf_size bf * b - 1 < length ps" by linarith+
    then show ?thesis using pl_inputD(2) [OF assms(1), of "bf_size bf * a - 1" "bf_size bf * b - 1"] by (cases "a = b") (auto simp: le_less)
  qed
  then show ?thesis using assms(3) doc_eof32_max by (auto simp: pl_key_def)
qed

lemma pl_key_prev: "0 < j \<Longrightarrow> j \<le> (length ps - 1) div bf_size bf \<Longrightarrow> 0 < bf_size bf \<Longrightarrow> pl_key bf ps j = pl_prev ps (bf_size bf * j)"
  by (simp add: pl_key_def pl_prev_def)

context postings_input
begin

lemma read_skip_follower:
  "skip_follower io stream rest (rs_client io) (pl_skip_body bf hf ps) (pl_key bf ps) kSkipN ((length ps - 1) div bf_size bf) h
     (rs_rel bf hf ps start n h)"
proof (unfold_locales, goal_cases)
  case (1 r p V q i t)
  then show ?case by (simp add: rs_client_def rs_is_less_def rs_rel_def)
next
  case (2 r p V q i)
  then show ?case by (simp add: rs_client_def)
next
  case (3 r p V q i f s bs)
  let ?j = "p i + kSkipN ^ (h - 1 - i)"
  have rel: "length (rs_levels r) = h" "ss_doc_ptr (rs_levels r ! i) = pl_off bf hf ps start (p i)" "ss_doc (rs_levels r ! i) = pl_key bf ps (p i)"
    using 3(1-4) by (auto simp: rs_rel_def)
  let ?d = "of_nat (length (pl_blocks bf hf ps ?j) - length (pl_blocks bf hf ps (p i))) :: u64"
  have body: "rest s = vwrite_u32 (pl_prev ps (bf_size bf * ?j)) @ vwrite_u64 ?d @ bs" using 3(6) by (simp add: pl_skip_body_def)
  obtain s1 where s1: "in_vint io s = Some (pl_prev ps (bf_size bf * ?j), s1)" "stream f s1" "rest s1 = vwrite_u64 ?d @ bs"
    using vint_at [OF 3(5) body] by blast
  obtain s2 where s2: "in_vlong io s1 = Some (?d, s2)" "stream f s2" "rest s2 = bs" using vlong_at [OF s1(2,3)] by blast
  have ptr: "ss_doc_ptr (rs_levels r ! i) + ?d = pl_off bf hf ps start ?j"
    using rel(2) pl_blocks_mono [of "p i" ?j bf hf ps] by (simp add: pl_off_def of_nat_diff)
  have "0 < ?j" by (simp add: kSkipN_def)
  then have doc: "pl_prev ps (bf_size bf * ?j) = pl_key bf ps ?j" using pl_key_prev 3(4) size_law(2) by metis
  let ?r = "r\<lparr>rs_levels := (rs_levels r)[i := \<lparr>ss_doc_ptr = pl_off bf hf ps start ?j, ss_doc = pl_key bf ps ?j\<rparr>], rs_prev := rs_levels r ! i\<rparr>"
  have "rs_levels r ! i = \<lparr>ss_doc_ptr = pl_off bf hf ps start (p i), ss_doc = pl_key bf ps (p i)\<rparr>" using rel(2,3) by (cases "rs_levels r ! i") simp
  then have "rs_rel bf hf ps start n h ?r (p(i := ?j)) V (p i)" using 3(1,2) rel(1) by (auto simp: rs_rel_def nth_list_update)
  then show ?case using s1 s2 ptr doc by (auto simp: rs_client_def rs_read_def Let_def)
next
  case (4 r p V q i j)
  have "rs_levels r ! i = \<lparr>ss_doc_ptr = pl_off bf hf ps start (p i), ss_doc = pl_key bf ps (p i)\<rparr>"
    using 4(1-4) by (cases "rs_levels r ! i") (auto simp: rs_rel_def)
  then show ?case using 4 by (auto simp: rs_rel_def rs_client_def rs_seal_def nth_list_update pl_key_def)
next
  case (5 r p V q i)
  then show ?case by (auto simp: rs_rel_def rs_client_def rs_move_down_def nth_list_update)
next
  case (6 r p V q a b)
  then show ?case using pl_key_mono size_law(2) by (auto simp: rs_rel_def)
next
  case (7 j t)
  then show ?case using doc_eof32_max by (simp add: pl_key_def)
next
  case (8 i j)
  then show ?case by (simp add: pl_skip_body_def vwrite_u64_nonempty)
next
  case 9
  then show ?case by (simp add: kSkipN_def)
qed

end

section \<open>Seeking in the list\<close>

text \<open>All documents before position \<open>k\<close> of the list are below the target.\<close>

definition pl_below :: "(u32 \<times> u32) list \<Rightarrow> nat \<Rightarrow> u32 \<Rightarrow> bool" where
  "pl_below ps k t \<longleftrightarrow> k \<le> length ps \<and> (\<forall>i<k. fst (ps ! i) < t)"

lemma pl_below_Suc: "pl_below ps (Suc k) t \<longleftrightarrow> k < length ps \<and> pl_below ps k t \<and> fst (ps ! k) < t"
  by (auto simp: pl_below_def less_Suc_eq)

lemma pl_belowI:
  assumes "pl_input n ps" "k \<le> length ps" "k = 0 \<or> fst (ps ! (k - 1)) < t"
  shows "pl_below ps k t"
proof -
  have "fst (ps ! i) < t" if "i < k" for i
  proof (cases "i = k - 1")
    case False
    then have "fst (ps ! i) < fst (ps ! (k - 1))" using pl_inputD(2) [OF assms(1), of i "k - 1"] assms(2) that by simp
    then show ?thesis using assms(3) that by auto
  qed (use assms(3) that in auto)
  then show ?thesis using assms(2) by (simp add: pl_below_def)
qed

text \<open>The answers that \<open>first_ge\<close> asks for.\<close>

lemma first_ge_list:
  assumes "pl_input n ps" "pl_below ps k t"
  shows "k < length ps \<Longrightarrow> t \<le> fst (ps ! k) \<Longrightarrow> first_ge (pl_docs ps) (unat t) = unat (fst (ps ! k))"
    and "k = length ps \<Longrightarrow> first_ge (pl_docs ps) (unat t) = doc_eof"
proof -
  have below: "d \<in> set ps \<Longrightarrow> t \<le> fst d \<Longrightarrow> \<exists>i. k \<le> i \<and> i < length ps \<and> d = ps ! i" for d
    using assms(2) by (auto simp: pl_below_def in_set_conv_nth) (metis leD leI)
  show "first_ge (pl_docs ps) (unat t) = unat (fst (ps ! k))" if k: "k < length ps" "t \<le> fst (ps ! k)"
  proof (rule first_ge_eqI)
    show "unat (fst (ps ! k)) \<in> pl_docs ps" using k(1) by auto
    show "unat t \<le> unat (fst (ps ! k))" using k(2) by (simp add: word_le_nat_alt)
    show "unat (fst (ps ! k)) < doc_eof" using assms(1) pl_inputD(1) [OF assms(1) k(1)] by (auto simp: pl_input_def doc_eof_def)
    fix d assume d: "d \<in> pl_docs ps" "unat t \<le> d"
    then obtain p where p: "p \<in> set ps" "d = unat (fst p)" by auto
    then obtain i where "k \<le> i" "i < length ps" "p = ps ! i" using below [of p] d(2) by (auto simp: word_le_nat_alt)
    then show "unat (fst (ps ! k)) \<le> d" using pl_inputD(2) [OF assms(1), of k i] p(2) by (cases "k = i") (auto simp: word_less_nat_alt)
  qed
  show "first_ge (pl_docs ps) (unat t) = doc_eof" if k: "k = length ps"
  proof (rule first_ge_eofI)
    fix d assume d: "d \<in> pl_docs ps" "unat t \<le> d"
    then obtain p where p: "p \<in> set ps" "d = unat (fst p)" by auto
    then show "doc_eof \<le> d" using below [of p] d(2) k by (auto simp: word_le_nat_alt)
  qed
qed

text \<open>The iterator after \<open>k\<close> documents, or behind the last one.\<close>

definition pi_end :: "(u8 list \<Rightarrow> 'i \<Rightarrow> bool) \<Rightarrow> block_fns \<Rightarrow> u8 list \<Rightarrow> 'i postings_it \<Rightarrow> bool" where
  "pi_end stream bf f it \<longleftrightarrow> length (pi_docs it) = bf_size bf \<and> length (pi_freqs it) = bf_size bf \<and> length (pi_enc_buf it) = bf_size bf \<and>
     stream f (pi_in it) \<and> pi_doc it = doc_eof32 \<and> pi_begin it = length (pi_docs it) \<and> pi_left it = 0"

text \<open>What a call of \<open>seek\<close> has to establish: the iterator is at the first document that is not below the target.\<close>

definition pi_found ::
  "(u8 list \<Rightarrow> 'i \<Rightarrow> bool) \<Rightarrow> ('i \<Rightarrow> u8 list) \<Rightarrow> block_fns \<Rightarrow> bool \<Rightarrow> bool \<Rightarrow> (u32 \<times> u32) list \<Rightarrow> u8 list \<Rightarrow> u32 \<Rightarrow> 'i postings_it \<Rightarrow> bool" where
  "pi_found stream rest bf ifreq ffreq ps f t it \<longleftrightarrow>
     (\<exists>k<length ps. pi_at stream rest bf ifreq ffreq ps f (Suc k) it \<and> pl_below ps k t \<and> t \<le> fst (ps ! k)) \<or>
     pi_end stream bf f it \<and> pl_below ps (length ps) t"

text \<open>The scan does not keep the position in the frequencies, which is that in the documents.\<close>

definition pi_synced :: "bool \<Rightarrow> 'i postings_it \<Rightarrow> 'i postings_it" where
  "pi_synced ifreq it = (if ifreq then it\<lparr>pi_freq_pos := pi_begin it\<rparr> else it)"

lemma synced_simps [simp]:
  "pi_begin (pi_synced ifreq it) = pi_begin it" "pi_docs (pi_synced ifreq it) = pi_docs it" "pi_doc (pi_synced ifreq it) = pi_doc it"
  "pi_loaded stream rest bf ffreq ps f L (pi_synced ifreq it) = pi_loaded stream rest bf ffreq ps f L it"
  by (simp_all add: pi_synced_def pi_loaded_def)

lemma synced_buffer: "pi_buffer bf ifreq ps k L it \<Longrightarrow> pi_buffer bf ifreq ps k L (pi_synced ifreq it)"
  by (auto simp: pi_buffer_def pi_synced_def)

lemma scan_deliver:
  defines "it1 it \<equiv> it\<lparr>pi_doc := pi_doc it + pi_docs it ! pi_begin it, pi_begin := pi_begin it + 1\<rparr>"
  shows "(if ifreq then (it1 it)\<lparr>pi_freq_pos := pi_begin (it1 it), pi_freq := pi_freqs (it1 it) ! (pi_begin (it1 it) - 1)\<rparr> else it1 it) =
      pi_deliver ifreq (pi_synced ifreq it)"
    and "pi_buffer bf ifreq ps k L (pi_deliver ifreq (pi_synced ifreq it)) = pi_buffer bf ifreq ps k L (pi_synced ifreq (it1 it))"
    and "pi_doc (pi_deliver ifreq (pi_synced ifreq it)) = pi_doc (it1 it)"
  by (cases it; cases ifreq; simp add: it1_def pi_deliver_def pi_synced_def Let_def pi_buffer_def)+

context postings_input
begin

lemma scan_correct:
  assumes ld: "pi_loaded stream rest bf ffreq ps f L it" "pi_buffer bf ifreq ps k L (pi_synced ifreq it)"
    and d: "k < L \<Longrightarrow> pi_doc it = pl_prev ps k" "k = L \<Longrightarrow> pi_doc it = (if k = 0 then 0 else fst (ps ! (k - 1)))" and bl: "pl_below ps k t"
  shows "\<exists>found it'. di_scan ifreq t it = Some (found, it') \<and>
    (if found then pi_found stream rest bf ifreq ffreq ps f t it'
     else \<exists>k'. pl_below ps k' t \<and> pi_pos stream rest bf ifreq ffreq ps f k' it')"
  using assms
proof (induction "L - k" arbitrary: k it)
  case 0
  then have kL: "k = L" by (auto simp: pi_buffer_def)
  have "pi_begin it = length (pi_docs it)" using 0 kL by (simp add: pi_buffer_def pi_loaded_def)
  moreover have "pi_pos stream rest bf ifreq ffreq ps f k it"
    using 0 kL unfolding pi_pos_def by (intro conjI exI [of _ L]) (auto simp: pi_buffer_def)
  ultimately show ?case using 0 by (subst di_scan.simps) auto
next
  case (Suc x)
  then have k: "k < L" by simp
  let ?it1 = "it\<lparr>pi_doc := pi_doc it + pi_docs it ! pi_begin it, pi_begin := pi_begin it + 1\<rparr>" and ?s = "pi_synced ifreq it"
  have len: "L \<le> length ps" "length (pi_docs it) = bf_size bf" using Suc.prems(1) by (auto simp: pi_loaded_def)
  have bg: "pi_begin it \<noteq> length (pi_docs it)" using Suc.prems(2) k len by (auto simp: pi_buffer_def)
  have lds: "pi_loaded stream rest bf ffreq ps f L ?s" "pi_doc ?s = pl_prev ps k" using Suc.prems(1,3) k by simp_all
  note del = deliver_buffer [OF lds(1) Suc.prems(2) k lds(2)]
  have doc: "pi_doc ?it1 = fst (ps ! k)" using del(3) scan_deliver(3) by metis
  show ?case
  proof (cases "t \<le> fst (ps ! k)")
    case True
    have "di_scan ifreq t it = Some (True, pi_deliver ifreq ?s)"
      unfolding scan_deliver(1) [symmetric] using bg doc True by (subst di_scan.simps) (simp only: Let_def if_False simp_thms if_True)
    moreover have "pi_found stream rest bf ifreq ffreq ps f t (pi_deliver ifreq ?s)"
      unfolding pi_found_def using deliver [OF lds(1) Suc.prems(2) k lds(2)] True Suc.prems(5) k len by (intro disjI1 exI [of _ k]) simp
    ultimately show ?thesis by (intro exI [of _ True] exI [of _ "pi_deliver ifreq ?s"]) simp
  next
    case False
    then have sc: "di_scan ifreq t it = di_scan ifreq t ?it1" using bg doc by (subst di_scan.simps) (simp only: Let_def if_False simp_thms)
    have bl1: "pl_below ps (Suc k) t" using Suc.prems(5) False k len by (simp add: pl_below_Suc not_le)
    have ld1: "pi_loaded stream rest bf ffreq ps f L ?it1" using Suc.prems(1) by (simp add: pi_loaded_def)
    have bf1: "pi_buffer bf ifreq ps (Suc k) L (pi_synced ifreq ?it1)" using del(2) unfolding scan_deliver(2) .
    have x: "x = L - Suc k" using Suc.hyps(2) k by simp
    show ?thesis unfolding sc by (rule Suc.hyps(1) [OF x ld1 bf1 _ _ bl1]) (use doc in \<open>auto simp: pl_prev_def\<close>)
  qed
qed

lemma next_end: "pi_end stream bf f it \<Longrightarrow> pi_next bf io ifreq ffreq it = Some (False, it)"
  by (cases it) (simp add: pi_end_def pi_next_def)

lemma next_to_correct:
  assumes "pi_pos stream rest bf ifreq ffreq ps f k it" "pl_below ps k t" "ifreq \<Longrightarrow> ffreq" "pl_gaps ffreq ps" and inp: "pl_input n ps"
    and t: "0 < t"
  shows "\<exists>it'. di_next_to bf io ifreq ffreq t it = Some it' \<and> pi_found stream rest bf ifreq ffreq ps f t it'"
  using assms(1,2)
proof (induction "length ps - k" arbitrary: k it)
  case 0
  then have k: "k = length ps" by (auto simp: pl_below_def)
  have val: "\<And>i. i < length ps \<Longrightarrow> fst (ps ! i) \<noteq> 0" using pl_inputD(1) [OF inp] by fastforce
  have low: "pi_doc it < t" using 0 t by (auto simp: pi_pos_def pl_below_def)
  have nx: "pi_next bf io ifreq ffreq it = Some (False, it\<lparr>pi_doc := doc_eof32\<rparr>)" using next_correct(2) [OF 0(2) assms(3,4) val k] by blast
  have "\<not> doc_eof32 < t" using doc_eof32_max [of t] by simp
  then have "di_next_to bf io ifreq ffreq t it = Some (it\<lparr>pi_doc := doc_eof32\<rparr>)"
    using low nx di_next_to.simps [of bf io ifreq ffreq t it] di_next_to.simps [of bf io ifreq ffreq t "it\<lparr>pi_doc := doc_eof32\<rparr>"] by simp
  moreover have "pi_end stream bf f (it\<lparr>pi_doc := doc_eof32\<rparr>)" using 0(2) k by (auto simp: pi_pos_def pi_loaded_def pi_buffer_def pi_end_def)
  ultimately show ?case using 0(3) k by (auto simp: pi_found_def)
next
  case (Suc x)
  then have k: "k < length ps" by simp
  have val: "\<And>i. i < length ps \<Longrightarrow> fst (ps ! i) \<noteq> 0" using pl_inputD(1) [OF inp] by fastforce
  have low: "pi_doc it < t" using Suc.prems t k by (auto simp: pi_pos_def pl_below_def)
  obtain it1 where nx: "pi_next bf io ifreq ffreq it = Some (True, it1)" "pi_at stream rest bf ifreq ffreq ps f (Suc k) it1"
    using next_correct(1) [OF Suc.prems(1) assms(3,4) val k] by blast
  have st: "di_next_to bf io ifreq ffreq t it = di_next_to bf io ifreq ffreq t it1"
    using low nx(1) di_next_to.simps [of bf io ifreq ffreq t it] by simp
  have doc: "pi_doc it1 = fst (ps ! k)" using nx(2) by (simp add: pi_at_def pi_pos_def)
  show ?case
  proof (cases "t \<le> fst (ps ! k)")
    case True
    then have "\<not> pi_doc it1 < t" using doc by (simp add: not_less)
    then have "di_next_to bf io ifreq ffreq t it1 = Some it1" using di_next_to.simps [of bf io ifreq ffreq t it1] by simp
    then show ?thesis using st nx(2) True Suc.prems(2) k by (auto simp: pi_found_def)
  next
    case False
    then have bl: "pl_below ps (Suc k) t" using Suc.prems(2) k by (simp add: pl_below_Suc not_le)
    have x: "x = length ps - Suc k" using Suc.hyps(2) k by simp
    have ps: "pi_pos stream rest bf ifreq ffreq ps f (Suc k) it1" using nx(2) by (simp add: pi_at_def)
    from Suc.hyps(1) [OF x ps bl] show ?thesis using st by simp
  qed
qed

lemma seek_buffer_correct:
  assumes "pi_loaded stream rest bf ffreq ps f L (di_base it)" "pi_buffer bf ifreq ps k L (di_base it)"
    and "k < L \<Longrightarrow> pi_doc (di_base it) = pl_prev ps k" "k = L \<Longrightarrow> pi_doc (di_base it) = (if k = 0 then 0 else fst (ps ! (k - 1)))"
    and "pl_below ps k t" "ifreq \<Longrightarrow> ffreq" "pl_gaps ffreq ps" "pl_input n ps" "0 < t"
  shows "\<exists>b. di_seek_buffer bf io ifreq ffreq t it = Some (pi_doc b, it\<lparr>di_base := b\<rparr>) \<and> pi_found stream rest bf ifreq ffreq ps f t b"
proof -
  obtain found b where b: "di_scan ifreq t (di_base it) = Some (found, b)"
    "if found then pi_found stream rest bf ifreq ffreq ps f t b else \<exists>k'. pl_below ps k' t \<and> pi_pos stream rest bf ifreq ffreq ps f k' b"
    using scan_correct [OF assms(1) synced_buffer [OF assms(2)] assms(3,4,5)] by blast
  show ?thesis
  proof (cases found)
    case True
    then show ?thesis using b by (intro exI [of _ b]) (simp add: di_seek_buffer_def)
  next
    case False
    then obtain k' where "pl_below ps k' t" "pi_pos stream rest bf ifreq ffreq ps f k' b" using b(2) by auto
    from next_to_correct [OF this(2,1) assms(6-9)] show ?thesis using b(1) False by (auto simp: di_seek_buffer_def)
  qed
qed

end

section \<open>Jumping to a block\<close>

text \<open>A list that is longer than a block, with its skip list, as it is stored in the file \<open>f\<close>.\<close>

definition pl_at_file :: "block_fns \<Rightarrow> bool \<Rightarrow> nat \<Rightarrow> (u32 \<times> u32) list \<Rightarrow> nat \<Rightarrow> u8 list \<Rightarrow> bool" where
  "pl_at_file bf hf n ps start f \<longleftrightarrow> pl_input n ps \<and> 1 < length ps \<and> start \<le> length f \<and> length f < 2 ^ 64 \<and>
     (\<exists>r. drop start f = pl_bytes bf hf (pw_levels bf n) ps @ r)"

abbreviation pl_last_block :: "block_fns \<Rightarrow> (u32 \<times> u32) list \<Rightarrow> nat" where
  "pl_last_block bf ps \<equiv> (length ps - 1) div bf_size bf"

abbreviation pl_height :: "block_fns \<Rightarrow> nat \<Rightarrow> (u32 \<times> u32) list \<Rightarrow> nat" where
  "pl_height bf n ps \<equiv> sk_height kSkipN (pw_levels bf n) (pl_last_block bf ps)"

definition pl_body_length :: "block_fns \<Rightarrow> bool \<Rightarrow> (u32 \<times> u32) list \<Rightarrow> nat" where
  "pl_body_length bf hf ps = length (pl_blocks bf hf ps (length ps div bf_size bf) @ pl_tail_bytes bf hf ps)"

lemma pl_blocks_split: "j \<le> q \<Longrightarrow> pl_blocks bf hf ps q = pl_blocks bf hf ps j @ concat (map (pl_block_bytes bf hf ps) [j..<q])"
proof -
  assume "j \<le> q"
  then have "[0..<q] = [0..<j] @ [j..<q]" using upt_add_eq_append [of 0 j "q - j"] by simp
  then show ?thesis by (simp add: pl_blocks_def)
qed

text \<open>Where block \<open>j\<close> and the skip list are.\<close>

lemma pl_at_block:
  assumes at: "pl_at_file bf hf n ps start f" and j: "j \<le> length ps div bf_size bf"
  shows "unat (pl_off bf hf ps start j) \<le> length f" "\<exists>r. drop (unat (pl_off bf hf ps start j)) f = pl_rest bf hf ps j @ r"
proof -
  obtain r where r: "drop start f = pl_bytes bf hf (pw_levels bf n) ps @ r" using at by (auto simp: pl_at_file_def)
  have "pl_bytes bf hf (pw_levels bf n) ps = pl_blocks bf hf ps j @ pl_rest bf hf ps j @ pl_skip_bytes bf hf (pw_levels bf n) ps"
    using at pl_blocks_split [OF j, of bf hf ps] by (simp add: pl_bytes_def pl_rest_def pl_at_file_def)
  then have d: "drop start f = pl_blocks bf hf ps j @ pl_rest bf hf ps j @ pl_skip_bytes bf hf (pw_levels bf n) ps @ r" using r by simp
  have sl: "start \<le> length f" using at by (simp add: pl_at_file_def)
  have le: "start + length (pl_blocks bf hf ps j) \<le> length f" using arg_cong [OF d, of length] sl unfolding length_append length_drop by linarith
  then have u: "unat (pl_off bf hf ps start j) = start + length (pl_blocks bf hf ps j)"
    unfolding pl_off_def unat_of_nat using at by (intro mod_less) (simp add: pl_at_file_def)
  show "unat (pl_off bf hf ps start j) \<le> length f" using u le by simp
  have "drop (unat (pl_off bf hf ps start j)) f = drop (length (pl_blocks bf hf ps j)) (drop start f)" using u by (simp add: add.commute)
  then show "\<exists>r. drop (unat (pl_off bf hf ps start j)) f = pl_rest bf hf ps j @ r" using d by simp
qed

lemma pl_at_skip:
  assumes at: "pl_at_file bf hf n ps start f" and long: "bf_size bf < length ps"
  shows "start + pl_body_length bf hf ps \<le> length f"
    and "\<exists>r. drop (start + pl_body_length bf hf ps) f = sk_list (pl_skip_body bf hf ps) kSkipN (pl_height bf n ps) (pl_last_block bf ps) @ r"
proof -
  obtain r where r: "drop start f = pl_bytes bf hf (pw_levels bf n) ps @ r" using at by (auto simp: pl_at_file_def)
  let ?b = "pl_blocks bf hf ps (length ps div bf_size bf) @ pl_tail_bytes bf hf ps"
  have d: "drop start f = ?b @ sk_list (pl_skip_body bf hf ps) kSkipN (pl_height bf n ps) (pl_last_block bf ps) @ r"
    using r at long by (simp add: pl_bytes_def pl_skip_bytes_def pl_at_file_def Let_def)
  show "start + pl_body_length bf hf ps \<le> length f"
    using arg_cong [OF d, of length] at unfolding pl_body_length_def pl_at_file_def length_append length_drop by linarith
  have "drop (start + pl_body_length bf hf ps) f = drop (length ?b) (drop start f)" by (simp add: pl_body_length_def add.commute)
  also have "\<dots> = sk_list (pl_skip_body bf hf ps) kSkipN (pl_height bf n ps) (pl_last_block bf ps) @ r" unfolding d by (rule drop_length_append)
  finally show "\<exists>r. drop (start + pl_body_length bf hf ps) f = sk_list (pl_skip_body bf hf ps) kSkipN (pl_height bf n ps) (pl_last_block bf ps) @ r" by blast
qed

lemma sk_list_level_length:
  assumes "i < h"
  shows "length (sk_level body n i (m div n ^ i)) < length (sk_list body n h m)"
proof -
  let ?part = "\<lambda>i. vwrite_u64 (of_nat (length (sk_level body n i (m div n ^ i)))) @ sk_level body n i (m div n ^ i)"
  obtain xs ys where "rev [0..<h] = xs @ i # ys" using assms split_list [of i "rev [0..<h]"] by auto
  then have "concat (map ?part (rev [0..<h])) = concat (map ?part xs) @ ?part i @ concat (map ?part ys)" by simp
  then have "length (sk_level body n i (m div n ^ i)) < length (concat (map ?part (rev [0..<h])))"
    using vwrite_u64_nonempty [of "of_nat (length (sk_level body n i (m div n ^ i)))"] by simp
  then show ?thesis by (simp add: sk_list_def)
qed

lemma sk_list_fits:
  assumes "length (sk_list body n h m) \<le> 2 ^ 64 - 1" "0 < n"
  shows "sk_fits body n m h"
  unfolding sk_fits_def
proof (intro allI impI, elim conjE)
  fix i t assume i: "Suc i < h" and t: "0 < t" "t \<le> m div n ^ Suc i"
  have "n * t \<le> n * (m div n ^ Suc i)" using t(2) by (rule mult_le_mono2)
  also have "\<dots> \<le> m div n ^ i" by (rule div_levels)
  finally have nt: "n * t \<le> m div n ^ i" .
  obtain k where k: "n * t = Suc k" using t(1) assms(2) by (cases "n * t") auto
  have "sk_pos body n i (n * t) \<le> length (sk_level body n i (n * t))"
    unfolding sk_pos_def k by (cases i) (simp_all add: sk_level_Suc sk_entry_Suc)
  also have "\<dots> \<le> length (sk_level body n i (m div n ^ i))" using sk_level_tail [OF nt, of body n i] by simp
  also have "\<dots> < length (sk_list body n h m)" using sk_list_level_length [of i h] i by simp
  finally show "sk_pos body n i (n * t) < 2 ^ 64 - 1" using assms(1) by simp
qed

text \<open>The skip list of the iterator: not used, not loaded yet, or loaded.\<close>

definition di_unused :: "block_fns \<Rightarrow> (u32 \<times> u32) list \<Rightarrow> 'i doc_it \<Rightarrow> bool" where
  "di_unused bf ps it \<longleftrightarrow> length ps \<le> bf_size bf \<and> rs_upper_bound (di_reader it) = doc_eof32"

definition di_waiting :: "block_fns \<Rightarrow> bool \<Rightarrow> (u32 \<times> u32) list \<Rightarrow> nat \<Rightarrow> 'i doc_it \<Rightarrow> bool" where
  "di_waiting bf hf ps start it \<longleftrightarrow> bf_size bf < length ps \<and> di_docs_count it = of_nat (length ps) \<and> sr_levels (di_skip it) = [] \<and>
     sr_skip_0 (di_skip it) = bf_size bf \<and> sr_skip_n (di_skip it) = kSkipN \<and>
     rs_levels (di_reader it) = [\<lparr>ss_doc_ptr = of_nat start, ss_doc = 0\<rparr>] \<and> unat (di_skip_offs it) = start + pl_body_length bf hf ps"

definition di_loaded ::
  "(u8 list \<Rightarrow> 'i \<Rightarrow> bool) \<Rightarrow> ('i \<Rightarrow> u8 list) \<Rightarrow> block_fns \<Rightarrow> bool \<Rightarrow> nat \<Rightarrow> (u32 \<times> u32) list \<Rightarrow> nat \<Rightarrow> u8 list \<Rightarrow> (nat \<Rightarrow> nat) \<Rightarrow> nat \<Rightarrow> 'i doc_it \<Rightarrow> bool" where
  "di_loaded stream rest bf hf n ps start f c q it \<longleftrightarrow> bf_size bf < length ps \<and> di_docs_count it = 0 \<and>
     skip_ready stream rest (pl_skip_body bf hf ps) kSkipN (pl_height bf n ps) (rs_rel bf hf ps start n (pl_height bf n ps)) (bf_size bf)
       (length ps) f c q (sr_levels (di_skip it), di_reader it)"

lemma rs_rel_reset: "rs_rel bf hf ps start n h r p V q \<Longrightarrow> rs_rel bf hf ps start n h (rs_reset r) p V (Suc (pl_last_block bf ps))"
  by (simp add: rs_rel_def rs_reset_def)

locale postings_seeker = postings_input bf io stream rest + skip_source io stream rest dup
  for bf :: block_fns and io :: "'i index_in" and stream :: "u8 list \<Rightarrow> 'i \<Rightarrow> bool" and rest :: "'i \<Rightarrow> u8 list" and dup :: "'i \<Rightarrow> 'i"
begin

lemma height_bounds:
  assumes "pl_at_file bf hf n ps start f" "bf_size bf < length ps"
  shows "0 < pl_height bf n ps" "pl_height bf n ps \<le> kMaxSkipLevels" "i < pl_height bf n ps \<Longrightarrow> 0 < pl_last_block bf ps div kSkipN ^ i"
proof -
  have inp: "pl_input n ps" using assms(1) by (simp add: pl_at_file_def)
  have "bf_size bf < n" using assms(2) pl_inputD(3) [OF inp] by simp
  then have L: "1 \<le> pw_levels bf n" by (simp add: count_max_levels_def kMaxSkipLevels_def)
  have m: "0 < pl_last_block bf ps" using assms(2) size_law(2) by (simp add: div_greater_zero_iff)
  show "0 < pl_height bf n ps" using L m by (simp add: sk_height_def kMaxSkipLevels_def)
  show "pl_height bf n ps \<le> kMaxSkipLevels" using sk_height_le [of kSkipN "pw_levels bf n" "pl_last_block bf ps"] by simp
  show "0 < pl_last_block bf ps div kSkipN ^ i" if "i < pl_height bf n ps"
    using sk_height_iff [of kSkipN i "pw_levels bf n" "pl_last_block bf ps"] that sk_height_le [of kSkipN "pw_levels bf n" "pl_last_block bf ps"]
    by (simp add: kSkipN_def)
qed

lemma init_correct:
  assumes fl: "pl_at_file bf hf n ps start f" and st: "stream f (pi_in (di_base it))" and wait: "di_waiting bf hf ps start it"
  shows "\<exists>it1. di_init_skip io dup it = Some it1 \<and> di_base it1 = di_base it \<and>
    di_loaded stream rest bf hf n ps start f (\<lambda>_. 0) (Suc (pl_last_block bf ps)) it1"
proof -
  let ?h = "pl_height bf n ps" and ?body = "pl_skip_body bf hf ps" and ?N = "length ps"
  have long: "bf_size bf < ?N" and w: "di_docs_count it = of_nat ?N" "sr_levels (di_skip it) = []" "sr_skip_0 (di_skip it) = bf_size bf"
    "sr_skip_n (di_skip it) = kSkipN" "rs_levels (di_reader it) = [\<lparr>ss_doc_ptr = of_nat start, ss_doc = 0\<rparr>]"
    "unat (di_skip_offs it) = start + pl_body_length bf hf ps" using wait by (auto simp: di_waiting_def)
  have inp: "pl_input n ps" and f64: "length f < 2 ^ 64" using fl by (auto simp: pl_at_file_def)
  have un: "unat (of_nat ?N :: u32) = ?N" unfolding unat_of_nat using pl_inputD(4) [OF inp] by (intro mod_less) simp
  then have nz: "di_docs_count it \<noteq> 0" using w(1) long by auto
  obtain r where r: "drop (start + pl_body_length bf hf ps) f = sk_list ?body kSkipN ?h (pl_last_block bf ps) @ r"
    using pl_at_skip(2) [OF fl long] by blast
  obtain s where s: "in_seek io (unat (di_skip_offs it)) (dup (pi_in (di_base it))) = Some s" "stream f s"
    "rest s = sk_list ?body kSkipN ?h (pl_last_block bf ps) @ r"
    using seek_law [OF conjunct1 [OF dup_law [OF st]] pl_at_skip(1) [OF fl long]] w(6) r by auto
  note h = height_bounds [OF fl long]
  have h32: "?h < 2 ^ 32" using h(2) by (simp add: kMaxSkipLevels_def)
  have k0: "0 < kSkipN" by (simp add: kSkipN_def)
  have ne: "?body 0 j \<noteq> []" for j by (simp add: pl_skip_body_def vwrite_u64_nonempty)
  obtain ls where ls: "sr_prepare io dup s (of_nat ?N) (di_skip it) = Some ((di_skip it)\<lparr>sr_levels := ls, sr_docs_count := of_nat ?N\<rparr>)"
    "length ls = ?h" "\<forall>i<?h. level_at stream rest ?body (bf_size bf) kSkipN ?N f (?h - 1 - i) 0 (ls ! i)"
    using prepare_at_list [OF s(2,3) f64 h(3) ne un k0 size_law(2) h(1) h32 w(3,4)] by blast
  let ?r = "rs_init ?h (di_reader it)"
  have rl: "rs_levels ?r = \<lparr>ss_doc_ptr = of_nat start, ss_doc = 0\<rparr> # replicate (?h - 1) skip_state_new"
    using w(5) h(1) by (cases ?h) (simp_all add: rs_init_def)
  have rel: "rs_rel bf hf ps start n ?h ?r (\<lambda>_. 0) {0} (Suc (pl_last_block bf ps))"
    using inp h(1) unfolding rs_rel_def rl by (auto simp: pl_key_def pl_off_def pl_blocks_def skip_state_new_def nth_Cons')
  let ?it = "it\<lparr>di_skip := (di_skip it)\<lparr>sr_levels := ls, sr_docs_count := of_nat ?N\<rparr>, di_docs_count := 0, di_reader := ?r\<rparr>"
  have "ls \<noteq> []" using ls(2) h(1) by auto
  then have "di_init_skip io dup it = Some ?it"
    using nz w(1,2) s(1) ls(1,2) h(1,2) by (simp add: di_init_skip_def sr_num_levels_def Let_def)
  moreover have "di_loaded stream rest bf hf n ps start f (\<lambda>_. 0) (Suc (pl_last_block bf ps)) ?it"
    using long ls(2,3) rel unfolding di_loaded_def skip_ready_def by (auto simp: sk_at_def [abs_def])
  ultimately show ?thesis by (intro exI [of _ ?it]) simp
qed

lemma to_block_correct:
  assumes fl: "pl_at_file bf hf n ps start f" and st: "stream f (pi_in (di_base it))" and t: "0 < t"
    and arr: "length (pi_docs (di_base it)) = bf_size bf" "length (pi_freqs (di_base it)) = bf_size bf" "length (pi_enc_buf (di_base it)) = bf_size bf"
    and ph: "di_waiting bf hf ps start it \<or> (\<exists>c q. di_loaded stream rest bf hf n ps start f c q it)" and low: "rs_upper_bound (di_reader it) < t"
  shows "\<exists>j it1 c. di_seek_to_block io dup t it = Some it1 \<and> j \<le> pl_last_block bf ps \<and> pl_key bf ps j < t \<and>
    di_loaded stream rest bf hf n ps start f c j it1 \<and> pi_loaded stream rest bf hf ps f (bf_size bf * j) (di_base it1) \<and>
    pi_doc (di_base it1) = pl_key bf ps j \<and> pi_left (di_base it1) \<noteq> 0"
proof -
  let ?h = "pl_height bf n ps" and ?N = "length ps" and ?body = "pl_skip_body bf hf ps" and ?rel = "rs_rel bf hf ps start n (pl_height bf n ps)"
  let ?it0 = "it\<lparr>di_reader := rs_reset (di_reader it)\<rparr>"
  have long: "bf_size bf < ?N" using ph by (auto simp: di_waiting_def di_loaded_def)
  have inp: "pl_input n ps" and f64: "length f < 2 ^ 64" using fl by (auto simp: pl_at_file_def)
  note h = height_bounds [OF fl long]
  have bottom: "sk_at kSkipN ?h d (?h - 1) = d (?h - 1)" for d by (simp add: sk_at_def)
  obtain it1 c q where it1: "di_init_skip io dup ?it0 = Some it1" "di_base it1 = di_base it" "di_loaded stream rest bf hf n ps start f c q it1"
    "pl_key bf ps (c (?h - 1)) < t"
  proof (cases "di_waiting bf hf ps start it")
    case True
    then have "di_waiting bf hf ps start ?it0" by (simp add: di_waiting_def rs_reset_def)
    from init_correct [OF fl _ this] st obtain it1 where "di_init_skip io dup ?it0 = Some it1" "di_base it1 = di_base it"
      "di_loaded stream rest bf hf n ps start f (\<lambda>_. 0) (Suc (pl_last_block bf ps)) it1" by auto
    moreover have "pl_key bf ps 0 < t" using t by (simp add: pl_key_def)
    ultimately show ?thesis using that by blast
  next
    case False
    then obtain c q where ld: "di_loaded stream rest bf hf n ps start f c q it" using ph by blast
    then obtain V where V: "?rel (di_reader it) (sk_at kSkipN ?h c) V q" "0 \<in> V" "\<forall>k. Suc k < ?h \<longrightarrow> 0 < c k \<longrightarrow> Suc k \<in> V"
      by (auto simp: di_loaded_def skip_ready_def)
    have "di_loaded stream rest bf hf n ps start f c (Suc (pl_last_block bf ps)) ?it0"
      using ld rs_rel_reset [OF V(1)] V(2,3) unfolding di_loaded_def skip_ready_def by auto
    moreover have "di_init_skip io dup ?it0 = Some ?it0" using ld by (simp add: di_init_skip_def di_loaded_def)
    moreover have "rs_upper_bound (di_reader it) = pl_key bf ps (c (?h - 1))"
    proof -
      have l: "length (rs_levels (di_reader it)) = ?h" and d: "\<forall>i<?h. ss_doc (rs_levels (di_reader it) ! i) = pl_key bf ps (sk_at kSkipN ?h c i)"
        using V(1) by (auto simp: rs_rel_def)
      have "rs_upper_bound (di_reader it) = ss_doc (rs_levels (di_reader it) ! (?h - 1))"
        unfolding rs_upper_bound_def using l h(1) by (subst last_conv_nth) auto
      then show ?thesis using d h(1) bottom by simp
    qed
    ultimately show ?thesis using that [of ?it0 c] low by simp
  qed
  have rdy: "skip_ready stream rest ?body kSkipN ?h ?rel (bf_size bf) ?N f c q (sr_levels (di_skip it1), di_reader it1)"
    using it1(3) by (simp add: di_loaded_def)
  have k0: "0 < kSkipN" by (simp add: kSkipN_def)
  obtain r0 where r0: "drop (start + pl_body_length bf hf ps) f = sk_list ?body kSkipN ?h (pl_last_block bf ps) @ r0"
    using pl_at_skip(2) [OF fl long] by blast
  have "length (sk_list ?body kSkipN ?h (pl_last_block bf ps)) \<le> 2 ^ 64 - 1" using arg_cong [OF r0, of length] f64 by simp
  then have fits: "sk_fits ?body kSkipN (pl_last_block bf ps) ?h" using k0 by (rule sk_list_fits)
  have N1: "1 \<le> ?N" using long by simp
  obtain j c' ls' r' where sk: "sr_seek (rs_client io) io t (di_skip it1, di_reader it1) =
      Some (of_nat (?N - bf_size bf * j), (di_skip it1)\<lparr>sr_levels := ls'\<rparr>, r')" "j \<le> pl_last_block bf ps" "pl_key bf ps j < t"
    "skip_ready stream rest ?body kSkipN ?h ?rel (bf_size bf) ?N f c' j (ls', r')"
    using skip_follower.seek_correct [OF read_skip_follower rdy h(1) it1(4) refl fits f64 N1 size_law(2)] by blast
  have prev: "rs_prev r' = \<lparr>ss_doc_ptr = pl_off bf hf ps start j, ss_doc = pl_key bf ps j\<rparr>"
    using sk(2,4) by (auto simp: skip_ready_def rs_rel_def)
  have "bf_size bf * j \<le> bf_size bf * pl_last_block bf ps" using sk(2) by (rule mult_le_mono2)
  also have "\<dots> \<le> ?N - 1" by (rule times_div_less_eq_dividend)
  finally have jN: "bf_size bf * j < ?N" using N1 by linarith
  then have jq: "j \<le> ?N div bf_size bf" using size_law(2) by (simp add: less_eq_div_iff_mult_less_eq mult.commute)
  have un: "unat (of_nat (?N - bf_size bf * j) :: u32) = ?N - bf_size bf * j"
    unfolding unat_of_nat using pl_inputD(4) [OF inp] by (intro mod_less) simp
  obtain r where r: "drop (unat (pl_off bf hf ps start j)) f = pl_rest bf hf ps j @ r" using pl_at_block(2) [OF fl jq] by blast
  obtain s where s: "in_seek io (unat (pl_off bf hf ps start j)) (pi_in (di_base it)) = Some s" "stream f s" "rest s = pl_rest bf hf ps j @ r"
    using seek_law [OF st pl_at_block(1) [OF fl jq]] r by auto
  let ?b = "(di_base it)\<lparr>pi_left := ?N - bf_size bf * j, pi_in := s, pi_doc := pl_key bf ps j\<rparr>"
  let ?it = "it1\<lparr>di_base := ?b, di_skip := (di_skip it1)\<lparr>sr_levels := ls'\<rparr>, di_reader := r'\<rparr>"
  have "di_seek_to_block io dup t it = Some ?it" using it1(1,2) sk(1) prev s(1) un by (simp add: di_seek_to_block_def)
  moreover have "di_loaded stream rest bf hf n ps start f c' j ?it" using it1(3) sk(4) by (simp add: di_loaded_def)
  moreover have "pi_loaded stream rest bf hf ps f (bf_size bf * j) ?b" using arr s jN size_law(2) by (auto simp: pi_loaded_def)
  ultimately show ?thesis using sk(2,3) jN by (intro exI [of _ j] exI [of _ ?it] exI [of _ c']) simp
qed

text \<open>The state between two calls.\<close>

end

definition di_invar ::
  "(u8 list \<Rightarrow> 'i \<Rightarrow> bool) \<Rightarrow> ('i \<Rightarrow> u8 list) \<Rightarrow> block_fns \<Rightarrow> bool \<Rightarrow> bool \<Rightarrow> nat \<Rightarrow> (u32 \<times> u32) list \<Rightarrow> nat \<Rightarrow> u8 list \<Rightarrow> 'i doc_it \<Rightarrow> bool" where
  "di_invar stream rest bf ifreq ffreq n ps start f it \<longleftrightarrow> pl_at_file bf ffreq n ps start f \<and> pl_gaps ffreq ps \<and> (ifreq \<longrightarrow> ffreq) \<and>
     ((\<exists>k\<le>length ps. pi_at stream rest bf ifreq ffreq ps f k (di_base it)) \<or> pi_end stream bf f (di_base it)) \<and>
     (di_unused bf ps it \<or> di_waiting bf ffreq ps start it \<or> (\<exists>c q. di_loaded stream rest bf ffreq n ps start f c q it))"

lemma di_base_update:
  "di_invar stream rest bf ifreq ffreq n ps start f it \<Longrightarrow>
   (\<exists>k\<le>length ps. pi_at stream rest bf ifreq ffreq ps f k b) \<or> pi_end stream bf f b \<Longrightarrow>
   di_invar stream rest bf ifreq ffreq n ps start f (it\<lparr>di_base := b\<rparr>)"
  by (simp add: di_invar_def di_unused_def di_waiting_def di_loaded_def)

lemma found_value:
  assumes "pi_found stream rest bf ifreq ffreq ps f t b" "pl_input n ps"
  shows "unat (pi_doc b) = first_ge (pl_docs ps) (unat t)"
    and "(\<exists>k\<le>length ps. pi_at stream rest bf ifreq ffreq ps f k b) \<or> pi_end stream bf f b"
proof -
  consider k where "k < length ps" "pi_at stream rest bf ifreq ffreq ps f (Suc k) b" "pl_below ps k t" "t \<le> fst (ps ! k)"
    | "pi_end stream bf f b" "pl_below ps (length ps) t" using assms(1) by (auto simp: pi_found_def)
  then have "unat (pi_doc b) = first_ge (pl_docs ps) (unat t) \<and> ((\<exists>k\<le>length ps. pi_at stream rest bf ifreq ffreq ps f k b) \<or> pi_end stream bf f b)"
  proof cases
    case 1
    have "pi_doc b = fst (ps ! k)" using 1(2) by (simp add: pi_at_def pi_pos_def)
    moreover have "Suc k \<le> length ps" using 1(1) by simp
    ultimately show ?thesis using first_ge_list(1) [OF assms(2) 1(3,1,4)] 1(2) by metis
  next
    case 2
    then show ?thesis using first_ge_list(2) [OF assms(2) 2(2) refl] by (simp add: pi_end_def)
  qed
  then show "unat (pi_doc b) = first_ge (pl_docs ps) (unat t)"
    "(\<exists>k\<le>length ps. pi_at stream rest bf ifreq ffreq ps f k b) \<or> pi_end stream bf f b" by blast+
qed

lemma pl_doc_less:
  assumes "pl_input n ps" "k < length ps"
  shows "unat (fst (ps ! k)) < doc_eof"
proof -
  have "unat (fst (ps ! k)) \<le> n" "n < doc_eof" using pl_inputD(1) [OF assms] assms(1) by (simp_all add: pl_input_def doc_eof_def)
  then show ?thesis by (rule le_less_trans)
qed

lemma at_value: "pi_at stream rest bf ifreq ffreq ps f k b \<Longrightarrow> k \<le> length ps \<Longrightarrow> unat (pi_doc b) = 0 \<or> unat (pi_doc b) \<in> pl_docs ps"
  by (cases k) (auto simp: pi_at_def pi_pos_def)

lemma unat_of_nat_doc: "t \<le> doc_eof \<Longrightarrow> unat (of_nat t :: u32) = t"
  unfolding unat_of_nat by (intro mod_less) (simp add: doc_eof_def)

context postings_seeker
begin

lemma di_seek_correct:
  assumes inv: "di_invar stream rest bf ifreq ffreq n ps start f it" and t: "0 < t"
  shows "\<exists>it'. di_seek bf io dup ifreq ffreq t it = Some (pi_doc (di_base it'), it') \<and> di_invar stream rest bf ifreq ffreq n ps start f it' \<and>
    (unat (pi_doc (di_base it)) \<le> unat t \<longrightarrow> unat (pi_doc (di_base it')) = first_ge (pl_docs ps) (unat t))"
proof -
  let ?b = "di_base it"
  have fl: "pl_at_file bf ffreq n ps start f" and gaps: "pl_gaps ffreq ps" and fr: "ifreq \<Longrightarrow> ffreq"
    and base: "(\<exists>k\<le>length ps. pi_at stream rest bf ifreq ffreq ps f k ?b) \<or> pi_end stream bf f ?b"
    and ph: "di_unused bf ps it \<or> di_waiting bf ffreq ps start it \<or> (\<exists>c q. di_loaded stream rest bf ffreq n ps start f c q it)"
    using inv by (auto simp: di_invar_def)
  have inp: "pl_input n ps" using fl by (simp add: pl_at_file_def)
  show ?thesis
  proof (cases "t \<le> pi_doc ?b")
    case True
    have "unat (pi_doc ?b) = first_ge (pl_docs ps) (unat t)" if "unat (pi_doc ?b) \<le> unat t"
    proof -
      have e: "pi_doc ?b = t" using True that by (simp add: word_le_nat_alt word_unat_eq_iff)
      show ?thesis
      proof (cases "pi_end stream bf f ?b")
        case True
        then show ?thesis using e by (simp add: pi_end_def first_ge_at_eof)
      next
        case False
        then obtain k where k: "k \<le> length ps" "pi_at stream rest bf ifreq ffreq ps f k ?b" using base by blast
        then have "0 < k" "t = fst (ps ! (k - 1))" using t e by (auto simp: pi_at_def pi_pos_def split: if_splits)
        moreover have "unat (fst (ps ! (k - 1))) \<in> pl_docs ps" "unat (fst (ps ! (k - 1))) < doc_eof"
          using k(1) calculation(1) pl_doc_less [OF inp, of "k - 1"] by auto
        ultimately show ?thesis unfolding e using first_ge_self by metis
      qed
    qed
    then show ?thesis using True inv by (simp add: di_seek_def)
  next
    case False
    have ne: "\<not> pi_end stream bf f ?b" using False doc_eof32_max [of t] by (auto simp: pi_end_def)
    then obtain k where k: "k \<le> length ps" "pi_at stream rest bf ifreq ffreq ps f k ?b" using base by blast
    then obtain L where L: "pi_loaded stream rest bf ffreq ps f L ?b" "pi_buffer bf ifreq ps k L ?b" "k = 0 \<longrightarrow> L = 0"
      "pi_doc ?b = (if k = 0 then 0 else fst (ps ! (k - 1)))" by (auto simp: pi_at_def pi_pos_def)
    have len: "length (pi_docs ?b) = bf_size bf" "length (pi_freqs ?b) = bf_size bf" "length (pi_enc_buf ?b) = bf_size bf" "stream f (pi_in ?b)"
      using L(1) by (auto simp: pi_loaded_def)
    have finish: ?thesis if "di_seek bf io dup ifreq ffreq t it = Some (pi_doc b', it'\<lparr>di_base := b'\<rparr>)"
      "pi_found stream rest bf ifreq ffreq ps f t b'" "di_invar stream rest bf ifreq ffreq n ps start f it'" for b' it'
      using that(1) found_value [OF that(2) inp] di_base_update [OF that(3), of b'] by auto
    show ?thesis
    proof (cases "rs_upper_bound (di_reader it) < t")
      case True
      have "\<not> di_unused bf ps it" using True doc_eof32_max [of t] by (auto simp: di_unused_def)
      then have ph': "di_waiting bf ffreq ps start it \<or> (\<exists>c q. di_loaded stream rest bf ffreq n ps start f c q it)" using ph by blast
      obtain j it1 c where j: "di_seek_to_block io dup t it = Some it1" "j \<le> pl_last_block bf ps" "pl_key bf ps j < t"
        "di_loaded stream rest bf ffreq n ps start f c j it1" "pi_loaded stream rest bf ffreq ps f (bf_size bf * j) (di_base it1)"
        "pi_doc (di_base it1) = pl_key bf ps j" "pi_left (di_base it1) \<noteq> 0"
        using to_block_correct [OF fl len(4) t len(1-3) ph' True] by blast
      let ?K = "bf_size bf * j"
      have K: "?K < length ps" using j(5,7) by (auto simp: pi_loaded_def)
      obtain b L' where b: "pi_refill bf io ifreq ffreq (di_base it1) = Some b" "?K < L'" "pi_loaded stream rest bf ffreq ps f L' b"
        "pi_buffer bf ifreq ps ?K L' b" "pi_doc b = pi_doc (di_base it1)"
        using refill_correct [OF j(5) K fr gaps] by blast
      let ?b2 = "b\<lparr>pi_doc := pi_doc b + of_bool (pi_doc b = 0)\<rparr>" and ?it2 = "it1\<lparr>di_base := b\<lparr>pi_doc := pi_doc b + of_bool (pi_doc b = 0)\<rparr>\<rparr>"
      have doc: "pi_doc ?b2 = pl_prev ps ?K"
      proof (cases "j = 0")
        case True
        then show ?thesis using b(5) j(6) by (simp add: pl_key_def pl_prev_def)
      next
        case False
        then have e: "pi_doc b = pl_prev ps ?K" using b(5) j(2,6) pl_key_prev [of j ps bf] size_law(2) by simp
        have "?K - 1 < length ps" using K by linarith
        then have "pl_prev ps ?K \<noteq> 0" using False size_law(2) pl_inputD(1) [OF inp, of "?K - 1"] by (auto simp: pl_prev_def)
        then show ?thesis using e by simp
      qed
      have "?K = 0 \<or> fst (ps ! (?K - 1)) < t"
      proof (cases "j = 0")
        case False
        then have "pl_key bf ps j = fst (ps ! (?K - 1))" using pl_key_prev [of j ps bf] j(2) size_law(2) by (simp add: pl_prev_def)
        then show ?thesis using j(3) by simp
      qed simp
      then have bl: "pl_below ps ?K t" using K by (intro pl_belowI [OF inp]) simp_all
      have ld2: "pi_loaded stream rest bf ffreq ps f L' (di_base ?it2)" "pi_buffer bf ifreq ps ?K L' (di_base ?it2)"
        using b(3,4) by (simp_all add: pi_loaded_def pi_buffer_def)
      have d2: "?K < L' \<Longrightarrow> pi_doc (di_base ?it2) = pl_prev ps ?K" "?K = L' \<Longrightarrow> pi_doc (di_base ?it2) = (if ?K = 0 then 0 else fst (ps ! (?K - 1)))"
        using doc b(2) by simp_all
      obtain b' where b': "di_seek_buffer bf io ifreq ffreq t ?it2 = Some (pi_doc b', ?it2\<lparr>di_base := b'\<rparr>)"
        "pi_found stream rest bf ifreq ffreq ps f t b'" using seek_buffer_correct [OF ld2 d2 bl fr gaps inp t] by blast
      have "di_seek bf io dup ifreq ffreq t it = Some (pi_doc b', it1\<lparr>di_base := b'\<rparr>)"
        using False True j(1,7) b(1) b'(1) by (simp add: di_seek_def)
      moreover have "di_invar stream rest bf ifreq ffreq n ps start f (it1\<lparr>di_base := b'\<rparr>)"
        using fl gaps fr j(4) found_value(2) [OF b'(2) inp] unfolding di_invar_def by (auto simp: di_loaded_def)
      ultimately show ?thesis using finish [of b' "it1\<lparr>di_base := b'\<rparr>"] b'(2) by simp
    next
      case upper: False
      have "k = 0 \<or> fst (ps ! (k - 1)) < t" using L(4) False by (cases "k = 0") (simp_all add: not_le)
      from pl_belowI [OF inp k(1) this] have bl: "pl_below ps k t" .
      have d: "k < L \<Longrightarrow> pi_doc ?b = pl_prev ps k" using L(3,4) by (simp add: pl_prev_def)
      obtain b' where b': "di_seek_buffer bf io ifreq ffreq t it = Some (pi_doc b', it\<lparr>di_base := b'\<rparr>)"
        "pi_found stream rest bf ifreq ffreq ps f t b'" using seek_buffer_correct [OF L(1,2) d L(4) bl fr gaps inp t] by blast
      have "di_seek bf io dup ifreq ffreq t it = Some (pi_doc b', it\<lparr>di_base := b'\<rparr>)"
        using False upper b'(1) by (simp add: di_seek_def)
      then show ?thesis using finish [of b' it] b'(2) inv by simp
    qed
  qed
qed

lemma di_next_correct:
  assumes inv: "di_invar stream rest bf ifreq ffreq n ps start f it"
  shows "\<exists>b r. pi_next bf io ifreq ffreq (di_base it) = Some (r, b) \<and> di_invar stream rest bf ifreq ffreq n ps start f (it\<lparr>di_base := b\<rparr>) \<and>
    r = (unat (pi_doc b) \<noteq> doc_eof) \<and> unat (pi_doc b) = first_ge (pl_docs ps) (unat (pi_doc (di_base it)) + 1)"
proof -
  let ?b = "di_base it"
  have gaps: "pl_gaps ffreq ps" and fr: "ifreq \<Longrightarrow> ffreq" and inp: "pl_input n ps"
    and base: "(\<exists>k\<le>length ps. pi_at stream rest bf ifreq ffreq ps f k ?b) \<or> pi_end stream bf f ?b"
    using inv by (auto simp: di_invar_def pl_at_file_def)
  have val: "\<And>i. i < length ps \<Longrightarrow> fst (ps ! i) \<noteq> 0" using pl_inputD(1) [OF inp] by fastforce
  show ?thesis
  proof (cases "pi_end stream bf f ?b")
    case True
    then have "unat (pi_doc ?b) = doc_eof" by (simp add: pi_end_def)
    then show ?thesis using next_end [OF True] inv by (simp add: first_ge_at_eof)
  next
    case False
    then obtain k where k: "k \<le> length ps" "pi_at stream rest bf ifreq ffreq ps f k ?b" using base by blast
    then have pos: "pi_pos stream rest bf ifreq ffreq ps f k ?b" and doc: "pi_doc ?b = (if k = 0 then 0 else fst (ps ! (k - 1)))"
      by (auto simp: pi_at_def pi_pos_def)
    have small: "unat (pi_doc ?b) < 2 ^ 32 - 1" using doc k(1) pl_doc_less [OF inp, of "k - 1"] by (auto simp: doc_eof_def)
    then have suc: "unat (pi_doc ?b + 1) = unat (pi_doc ?b) + 1" by (simp add: unat_word_ariths)
    have low: "pi_doc ?b < pi_doc ?b + 1" using suc by (simp add: word_less_nat_alt)
    have "k = 0 \<or> fst (ps ! (k - 1)) < pi_doc ?b + 1" using doc low by (cases "k = 0") simp_all
    from pl_belowI [OF inp k(1) this] have bl: "pl_below ps k (pi_doc ?b + 1)" .
    show ?thesis
    proof (cases "k = length ps")
      case True
      have "pi_next bf io ifreq ffreq ?b = Some (False, ?b\<lparr>pi_doc := doc_eof32\<rparr>)" using next_correct(2) [OF pos fr gaps val True] by blast
      moreover have "pi_end stream bf f (?b\<lparr>pi_doc := doc_eof32\<rparr>)" using pos True by (auto simp: pi_pos_def pi_loaded_def pi_buffer_def pi_end_def)
      ultimately show ?thesis using di_base_update [OF inv] first_ge_list(2) [OF inp bl True] suc by auto
    next
      case False
      then have kl: "k < length ps" using k(1) by simp
      obtain b where b: "pi_next bf io ifreq ffreq ?b = Some (True, b)" "pi_at stream rest bf ifreq ffreq ps f (Suc k) b" using next_correct(1) [OF pos fr gaps val kl] by blast
      have bd: "pi_doc b = fst (ps ! k)" using b(2) by (simp add: pi_at_def pi_pos_def)
      have "pi_doc ?b < fst (ps ! k)" using doc pl_inputD(1) [OF inp kl] pl_inputD(2) [OF inp, of "k - 1" k] kl by auto
      then have le: "pi_doc ?b + 1 \<le> fst (ps ! k)" using suc by (simp add: word_less_nat_alt word_le_nat_alt)
      have "unat (fst (ps ! k)) < doc_eof" using pl_doc_less [OF inp kl] .
      moreover have "di_invar stream rest bf ifreq ffreq n ps start f (it\<lparr>di_base := b\<rparr>)"
        using di_base_update [OF inv, of b] b(2) kl by (meson Suc_leI)
      ultimately show ?thesis using b(1) bd first_ge_list(1) [OF inp bl kl le] suc by auto
    qed
  qed
qed

lemma di_doc_iterator: "doc_iterator (di_ops bf io dup ifreq ffreq) (\<lambda>_. pl_docs ps) (di_invar stream rest bf ifreq ffreq n ps start f)"
proof (unfold_locales, goal_cases)
  case (1 it)
  then show ?case by (auto simp: di_invar_def pl_at_file_def pl_input_def doc_set_def doc_min_def doc_eof_def word_less_nat_alt)
next
  case (2 it)
  then consider k where "k \<le> length ps" "pi_at stream rest bf ifreq ffreq ps f k (di_base it)" | "pi_end stream bf f (di_base it)"
    by (auto simp: di_invar_def)
  then show ?case
  proof cases
    case 1
    then show ?thesis using at_value [OF 1(2,1)] by (auto simp: di_ops_def doc_invalid_def)
  qed (simp add: di_ops_def pi_end_def)
next
  case (3 it)
  from di_next_correct [OF 3] show ?case by (fastforce simp: di_ops_def)
next
  case (4 it t)
  have t: "unat (of_nat t :: u32) = t" using unat_of_nat_doc [OF 4(4)] .
  then have "(0 :: u32) < of_nat t" using 4(3) by (simp add: word_less_nat_alt doc_min_def)
  from di_seek_correct [OF 4(1) this] show ?case using 4(2) t by (fastforce simp: di_ops_def)
qed

end

section \<open>A list from writing to seeking\<close>

context postings_seeker
begin

lemma prepared_invar:
  assumes fl: "pl_at_file bf hf n ps start f" and st: "stream f s" and gaps: "pl_gaps hf ps" and fr: "ifreq \<longrightarrow> hf"
    and meta: "unat (tm_docs_count meta) = length ps" "tm_doc_start meta = of_nat start"
      "bf_size bf < length ps \<longrightarrow> tm_ext meta = of_nat (pl_body_length bf hf ps)"
    and arr: "length freqs = bf_size bf" "length enc_buf = bf_size bf"
  shows "\<exists>it. di_prepare bf io meta (di_new bf freqs enc_buf s) = Some it \<and> di_invar stream rest bf ifreq hf n ps start f it \<and>
    pi_doc (di_base it) = 0"
proof -
  have f64: "length f < 2 ^ 64" "start \<le> length f" "length ps \<noteq> 1" using fl by (auto simp: pl_at_file_def)
  have un: "unat (tm_doc_start meta) = start" unfolding meta(2) unat_of_nat using f64 by (intro mod_less) simp
  obtain r where "drop start f = pl_bytes bf hf (pw_levels bf n) ps @ r" using fl by (auto simp: pl_at_file_def)
  then have "drop (unat (tm_doc_start meta)) f = pl_rest bf hf ps 0 @ pl_skip_bytes bf hf (pw_levels bf n) ps @ r"
    using un pl_bytes_rest [OF f64(3)] by simp
  from prepare_at [OF st this _ meta(1) arr] obtain b where b: "pi_prepare io meta (pi_new bf freqs enc_buf s) = Some b"
    "pi_at stream rest bf ifreq hf ps f 0 b" using un f64(2) by auto
  have doc: "pi_doc b = 0" using b(2) by (simp add: pi_at_def pi_pos_def)
  have base: "(\<exists>k\<le>length ps. pi_at stream rest bf ifreq hf ps f k b) \<or> pi_end stream bf f b" using b(2) by blast
  show ?thesis
  proof (cases "bf_size bf < length ps")
    case False
    then have "di_prepare bf io meta (di_new bf freqs enc_buf s) = Some ((di_new bf freqs enc_buf s)\<lparr>di_base := b\<rparr>)"
      using b(1) meta(1) by (simp add: di_prepare_def di_new_def)
    moreover have "di_unused bf ps ((di_new bf freqs enc_buf s)\<lparr>di_base := b\<rparr>)"
      using False by (simp add: di_unused_def di_new_def rs_new_def rs_upper_bound_def)
    ultimately show ?thesis using fl gaps fr base doc by (intro exI [of _ "(di_new bf freqs enc_buf s)\<lparr>di_base := b\<rparr>"]) (simp add: di_invar_def)
  next
    case True
    let ?r = "rs_new\<lparr>rs_levels := [\<lparr>ss_doc_ptr = of_nat start, ss_doc = 0\<rparr>]\<rparr>"
    let ?it = "(di_new bf freqs enc_buf s)\<lparr>di_base := b, di_reader := ?r, di_skip_offs := tm_doc_start meta + tm_ext meta, di_docs_count := tm_docs_count meta\<rparr>"
    have en: "rs_enable meta rs_new = Some ?r" using meta(2) by (simp add: rs_enable_def rs_new_def skip_state_new_def)
    have "di_prepare bf io meta (di_new bf freqs enc_buf s) = Some ?it" using True b(1) meta(1) en by (simp add: di_prepare_def di_new_def)
    moreover have "unat (tm_doc_start meta + tm_ext meta) = start + pl_body_length bf hf ps"
    proof -
      have "start + pl_body_length bf hf ps < 2 ^ 64" using pl_at_skip(1) [OF fl True] f64(1) by simp
      then show ?thesis using meta(2,3) True unfolding meta(2) of_nat_add [symmetric] unat_of_nat
        by (simp only: mp [OF meta(3) True] of_nat_add [symmetric] unat_of_nat) (simp add: mod_less)
    qed
    moreover have "tm_docs_count meta = of_nat (length ps)" unfolding meta(1) [symmetric] by simp
    ultimately have "di_waiting bf hf ps start ?it" using True by (simp add: di_waiting_def di_new_def sr_new_def rs_new_def)
    then show ?thesis using \<open>di_prepare bf io meta (di_new bf freqs enc_buf s) = Some ?it\<close> fl gaps fr base doc
      by (intro exI [of _ ?it]) (simp add: di_invar_def)
  qed
qed

end

interpretation list_seeker: postings_seeker "format_traits Step" "ib_io list_source" "ib_stream fst snd (\<lambda>_. True)" "ib_rest fst" "\<lambda>s. s" for Step
  by (simp add: postings_seeker_def skip_source_def skip_source_axioms_def list_postings.postings_input_axioms
      list_source.buffered.index_source_axioms)

interpretation file_seeker: postings_seeker "format_traits Step" "ib_io (fs_in_ops slow_read slow_seek)" "fs_stream fst snd"
    "ib_rest (fs_in_file fst)" fs_dup for Step
  by (simp add: postings_seeker_def skip_source_def skip_source_axioms_def file_postings.postings_input_axioms file_postings.index_source_axioms
      fs_dup_stream)

interpretation file_skips: skip_follower "ib_io (fs_in_ops slow_read slow_seek)" "fs_stream fst snd" "ib_rest (fs_in_file fst)"
    "rs_client (ib_io (fs_in_ops slow_read slow_seek))" "pl_skip_body (format_traits Step) hf ps" "pl_key (format_traits Step) ps" kSkipN
    "(length ps - 1) div bf_size (format_traits Step)" h "rs_rel (format_traits Step) hf ps start n h" for Step hf ps start n h
  by (rule file_postings.read_skip_follower)

text \<open>A bound of the length of a list in the file.\<close>

lemma length_concat_le: "(\<And>x. x \<in> set xs \<Longrightarrow> length (g x) \<le> b) \<Longrightarrow> length (concat (map g xs)) \<le> length xs * b"
  by (induction xs) (simp_all add: add_mono)

lemma tail_ops_le: "length (concat (map op_bytes (tail_ops hf p ps))) \<le> 10 * length ps"
proof (induction hf p ps rule: tail_ops.induct)
  case (2 hf p d fr ps)
  have "length (concat (map op_bytes (if hf then if fr = 1 then [WriteVint (shift_pack_32 (d - p) True)]
      else [WriteVint (shift_pack_32 (d - p) False), WriteVint fr] else [WriteVint (d - p)]))) \<le> 10"
    using length_vwrite_bound(1) [of "shift_pack_32 (d - p) False"] length_vwrite_bound(1) [of "shift_pack_32 (d - p) True"]
      length_vwrite_bound(1) [of "d - p"] length_vwrite_bound(1) [of fr]
    by (auto simp: simp del: length_vwrite_bound)
  then show ?case using 2 unfolding tail_ops.simps map_append concat_append length_append by simp
qed simp

lemma sk_entry_le: "(\<And>i j. length (body i j) \<le> b) \<Longrightarrow> length (sk_entry body n i t) \<le> b + 10"
  by (cases i) (simp_all add: add_mono length_vwrite_bound trans_le_add1 sk_entry_Suc)

lemma sk_list_le: "(\<And>i j. length (body i j) \<le> b) \<Longrightarrow> length (sk_list body n h m) \<le> 5 + h * (10 + m * (b + 10))"
proof -
  assume b: "\<And>i j. length (body i j) \<le> b"
  have level: "length (sk_level body n i k) \<le> k * (b + 10)" for i k
    unfolding sk_level_def
    using length_concat_le [of "[1..<k + 1]" "sk_entry body n i" "b + 10", OF sk_entry_le [where body = body, OF b]]
    by (simp only: length_upt add_diff_cancel_right')
  have "length (sk_level body n i (m div n ^ i)) \<le> m * (b + 10)" for i
    by (rule order.trans [OF level mult_le_mono1 [OF div_le_dividend]])
  then have "length (vwrite_u64 (of_nat k) @ sk_level body n i (m div n ^ i)) \<le> 10 + m * (b + 10)" for k i
    unfolding length_append by (intro add_mono length_vwrite_bound(2))
  then have "length (concat (map (\<lambda>i. vwrite_u64 (of_nat (length (sk_level body n i (m div n ^ i)))) @ sk_level body n i (m div n ^ i))
      (rev [0..<h]))) \<le> length (rev [0..<h]) * (10 + m * (b + 10))" by (intro length_concat_le)
  also have "length (rev [0..<h]) = h" by simp
  finally show ?thesis unfolding sk_list_def length_append by (intro add_mono length_vwrite_bound(1))
qed

context block_packer
begin

lemma block_bytes_le:
  assumes "length xs = bf_size bf"
  shows "length (block_bytes bf xs) \<le> 6 + 4 * bf_size bf"
proof (cases "\<forall>x\<in>set xs. x = hd xs")
  case True
  then show ?thesis using length_vwrite_bound(1) [of "hd xs"] by (simp add: block_bytes_def trans_le_add1)
next
  case False
  note b = maxbits32_bounds(1) [of xs] maxbits32_bounds(3) [OF False]
  have "bf_size bf div 32 * maxbits32 xs \<le> bf_size bf div 32 * 32" using b(1) by simp
  also have "\<dots> \<le> bf_size bf" by simp
  finally show ?thesis unfolding block_bytes_def if_not_P [OF False] using pack_law [OF assms b(2,1)] by simp
qed

lemma pl_bytes_le:
  "length (pl_bytes bf hf levels ps) \<le>
     length ps * (12 + 8 * bf_size bf) + 10 * length ps + (5 + levels * (10 + length ps * 25))"
proof -
  let ?q = "length ps div bf_size bf" and ?m = "(length ps - 1) div bf_size bf"
  have "length (pl_block_bytes bf hf ps q) \<le> 12 + 8 * bf_size bf" if "q < ?q" for q
  proof -
    have "bf_size bf * q + bf_size bf \<le> bf_size bf * ?q" using that by (metis Suc_leI mult.commute mult_Suc add.commute mult_le_mono2)
    also have "\<dots> \<le> length ps" by simp
    finally have "length (pl_block (bf_size bf) ps q) = bf_size bf" by (simp add: pl_block_def)
    then show ?thesis
      using block_bytes_le [of "delta_encode_from (pl_prev ps (bf_size bf * q)) (map fst (pl_block (bf_size bf) ps q))"]
        block_bytes_le [of "map snd (pl_block (bf_size bf) ps q)"] by (simp add: pl_block_bytes_def)
  qed
  then have "length (pl_blocks bf hf ps ?q) \<le> ?q * (12 + 8 * bf_size bf)"
    using length_concat_le [of "[0..<?q]" "pl_block_bytes bf hf ps"] by (simp add: pl_blocks_def)
  also have "\<dots> \<le> length ps * (12 + 8 * bf_size bf)" by (intro mult_le_mono1) simp
  finally have blocks: "length (pl_blocks bf hf ps ?q) \<le> length ps * (12 + 8 * bf_size bf)" .
  have "length (drop (bf_size bf * ?q) ps) \<le> length ps" by simp
  then have tail: "length (pl_tail_bytes bf hf ps) \<le> 10 * length ps"
    unfolding pl_tail_bytes_def Let_def using tail_ops_le order.trans mult_le_mono2 by meson
  have "length (pl_skip_body bf hf ps i j) \<le> 15" for i j
    unfolding pl_skip_body_def length_append using add_mono [OF length_vwrite_bound] by simp
  then have "length (sk_list (pl_skip_body bf hf ps) kSkipN (sk_height kSkipN levels ?m) ?m) \<le>
      5 + sk_height kSkipN levels ?m * (10 + ?m * (15 + 10))" by (rule sk_list_le)
  also have "\<dots> \<le> 5 + levels * (10 + length ps * 25)"
    using sk_height_le [of kSkipN levels ?m] order.trans [OF div_le_dividend diff_le_self, of "length ps" 1 "bf_size bf"]
    by (intro add_mono mult_le_mono) simp_all
  finally have "length (pl_skip_bytes bf hf levels ps) \<le> 5 + levels * (10 + length ps * 25)" by (simp add: pl_skip_bytes_def Let_def)
  with blocks tail show ?thesis by (simp add: pl_bytes_def)
qed

end

text \<open>A list that has been written and whose meta data was read back, with its iterator.\<close>

lemma written_iterator:
  assumes "postings_streams ms contents ok io out_contents out_ok bf" "postings_seeker bf rio stream rest dup"
    and "pw_ready ok out_ok bf n pw" "pl_input n ps" "1 < length ps"
    and "pw_has_freq pw \<longrightarrow> n < 2 ^ 31" "pw_has_freq pw \<longleftrightarrow> sum_list (map snd ps) \<noteq> 0" "ifreq \<longrightarrow> pw_has_freq pw"
    and "length freqs = bf_size bf" "length enc_buf = bf_size bf"
  shows "\<exists>meta pw' meta'. pw_write bf ms io ps term_meta_new pw = Some (meta, pw') \<and>
    pw_ready ok out_ok bf n pw' \<and> pw_has_freq pw' = pw_has_freq pw \<and>
    (\<exists>bs. out_contents (pw_doc_out pw') = out_contents (pw_doc_out pw) @ bs) \<and>
    (let bytes = concat (map op_bytes (encode_ops (bf_size bf) last_state meta))
     in pr_decode (bf_size bf) (pw_has_freq pw) (bytes @ t) (old\<lparr>tm_doc_start := tm_doc_start last_state\<rparr>) = Some (length bytes, meta')) \<and>
    (\<forall>s more. stream (out_contents (pw_doc_out pw') @ more) s \<and> length (out_contents (pw_doc_out pw') @ more) < 2 ^ 64 \<longrightarrow>
      (\<exists>it invar. di_prepare bf rio meta' (di_new bf freqs enc_buf s) = Some it \<and>
        doc_iterator (di_ops bf rio dup ifreq (pw_has_freq pw)) (\<lambda>_. (unat \<circ> fst) ` set ps) invar \<and> invar it \<and>
        value_of (di_ops bf rio dup ifreq (pw_has_freq pw)) it = doc_invalid))"
proof -
  let ?hf = "pw_has_freq pw" and ?start = "length (out_contents (pw_doc_out pw))"
  have ne: "ps \<noteq> []" using assms(5) by auto
  obtain meta pw' meta' where w: "pw_write bf ms io ps term_meta_new pw = Some (meta, pw')"
    "let bytes = concat (map op_bytes (encode_ops (bf_size bf) last_state meta))
     in pr_decode (bf_size bf) ?hf (bytes @ t) (old\<lparr>tm_doc_start := tm_doc_start last_state\<rparr>) = Some (length bytes, meta')"
    "out_contents (pw_doc_out pw') = out_contents (pw_doc_out pw) @ pl_bytes bf ?hf (pw_levels bf n) ps"
    and m: "unat (tm_docs_count meta') = length ps" "tm_doc_start meta' = of_nat ?start"
      "bf_size bf < length ps \<longrightarrow> tm_ext meta' = of_nat (pl_body_length bf ?hf ps)"
    using written_meta [OF assms(1,3,4) ne assms(7), of last_state t old] assms(5) unfolding pl_body_length_def by auto
  have kept: "pw_ready ok out_ok bf n pw'" "pw_has_freq pw' = ?hf"
    using postings_streams.write_correct [OF assms(1,3,4) ne, of term_meta_new] w(1) by auto
  have "\<exists>it invar. di_prepare bf rio meta' (di_new bf freqs enc_buf s) = Some it \<and>
      doc_iterator (di_ops bf rio dup ifreq ?hf) (\<lambda>_. pl_docs ps) invar \<and> invar it \<and> value_of (di_ops bf rio dup ifreq ?hf) it = doc_invalid"
    if s: "stream (out_contents (pw_doc_out pw') @ more) s" "length (out_contents (pw_doc_out pw') @ more) < 2 ^ 64" for s more
  proof -
    have fl: "pl_at_file bf ?hf n ps ?start (out_contents (pw_doc_out pw') @ more)"
      using assms(4,5) s(2) w(3) by (simp add: pl_at_file_def)
    obtain it where it: "di_prepare bf rio meta' (di_new bf freqs enc_buf s) = Some it"
      "di_invar stream rest bf ifreq ?hf n ps ?start (out_contents (pw_doc_out pw') @ more) it" "pi_doc (di_base it) = 0"
      using postings_seeker.prepared_invar [OF assms(2) fl s(1) pl_gapsI [OF assms(4,6)] assms(8) m assms(9,10)] by blast
    then show ?thesis using postings_seeker.di_doc_iterator [OF assms(2)] by (fastforce simp: di_ops_def doc_invalid_def)
  qed
  then show ?thesis using w kept by blast
qed

section \<open>Properties\<close>


text \<open>A list of 300 documents: two full blocks, a skip list with one level, and a tail.\<close>

definition long_list :: "(u32 \<times> u32) list" where
  "long_list = map (\<lambda>i. (of_nat i, 0)) [1..<301]"

definition long_writer :: "(memory_output, memory_output) postings_writer" where
  "long_writer = pw_begin_field False
     (pw_prepare (mo_stream (\<lambda>_. 0)) memory_output_new (replicate 5 0) 300 (pw_new (format_traits 4) memory_output_new))"

lemma long_unat: "i < 301 \<Longrightarrow> unat (of_nat i :: u32) = i"
  unfolding unat_of_nat by (intro mod_less) simp

lemma long_list_input: "pl_input 300 long_list" "1 < length long_list" "sum_list (map snd long_list) = 0"
proof -
  have "sorted_wrt (<) (map (of_nat :: nat \<Rightarrow> u32) [1..<301])"
    unfolding sorted_wrt_map by (rule sorted_wrt_mono_rel [OF _ sorted_wrt_upt]) (simp add: word_less_nat_alt long_unat)
  moreover have "map fst long_list = map of_nat [1..<301]" by (simp add: long_list_def)
  moreover have "\<forall>p\<in>set long_list. 0 < fst p \<and> unat (fst p) \<le> 300"
    by (auto simp: long_list_def word_less_nat_alt long_unat)
  ultimately show "pl_input 300 long_list" by (simp add: pl_input_def)
  have "length long_list = 300" unfolding long_list_def length_map length_upt by simp
  then show "1 < length long_list" by simp
  have "map snd long_list = map (\<lambda>_. 0) [1..<301]" by (simp add: long_list_def)
  then show "sum_list (map snd long_list) = 0" by (simp only: sum_list_0)
qed

lemma long_list_docs: "(unat \<circ> fst) ` set long_list = {1..<301}"
proof -
  have "(unat \<circ> fst) ` set long_list = (\<lambda>i. unat (of_nat i :: u32)) ` {1..<301}"
    unfolding long_list_def set_map set_upt image_image by simp
  also have "\<dots> = (\<lambda>i. i) ` {1..<301}" by (rule image_cong) (simp_all add: long_unat)
  finally show ?thesis by simp
qed

lemma long_writer_hyps:
  "pw_ready mo_invar mo_invar (format_traits 4) 300 long_writer" "pw_has_freq long_writer \<longrightarrow> (300 :: nat) < 2 ^ 31"
  "pw_has_freq long_writer \<longleftrightarrow> sum_list (map snd long_list) \<noteq> 0" "False \<longrightarrow> pw_has_freq long_writer"
  "length (replicate 128 (0 :: u32)) = bf_size (format_traits 4)"
  using memory_postings.prepare_ready [OF mo_new_empty mo_new_empty(1), of 300 "replicate 5 0" False "\<lambda>_. 0"] long_list_input(3)
  by (simp_all add: long_writer_def bits_to_words_def format_traits_def pw_begin_field_def)

lemma long_contents_small:
  assumes "pw_write (format_traits 4) (mo_stream (\<lambda>_. 0)) (mo_io (\<lambda>_. 0)) long_list term_meta_new long_writer = Some (meta, pw')"
  shows "length (mo_contents (pw_doc_out pw')) < 2 ^ 64"
proof -
  let ?f = "format_traits 4" and ?l = "pw_levels (format_traits 4) 300"
  have len: "length long_list = 300" unfolding long_list_def length_map length_upt by simp
  then have ne: "long_list \<noteq> []" by auto
  have "mo_contents (pw_doc_out long_writer) = []" by (simp add: long_writer_def pw_begin_field_def pw_prepare_def pw_new_def mo_new_empty)
  then have "mo_contents (pw_doc_out pw') = pl_bytes ?f (pw_has_freq long_writer) ?l long_list"
    using written_meta [OF memory_postings.postings_streams_axioms long_writer_hyps(1) long_list_input(1) ne long_writer_hyps(3),
      of "\<lambda>_. 0"] assms by auto
  then have "length (mo_contents (pw_doc_out pw')) \<le> 300 * (12 + 8 * 128) + 10 * 300 + (5 + ?l * (10 + 300 * 25))"
    using format128.pl_bytes_le [of 4 "pw_has_freq long_writer" ?l long_list] len by (simp add: format_traits_def)
  also have "\<dots> \<le> 300 * (12 + 8 * 128) + 10 * 300 + (5 + kMaxSkipLevels * (10 + 300 * 25))"
    by (intro add_mono mult_le_mono1) simp_all
  also have "\<dots> < 2 ^ 64" by (simp add: kMaxSkipLevels_def)
  finally show ?thesis .
qed


end
