(* ===== verification/SparseWriter.thy ===== *)
theory SparseWriter
  imports Bitpack BitsetIterator
begin

text \<open>
  \<open>sparse_bitmap_writer\<close> of \<open>core/formats/sparse_bitmap.hpp\<close> and \<open>sparse_bitmap.cpp\<close>, which stores a set of documents for the
  column store: a container for every block of 65536 ids that has a document, as a list, as a bit set with a small
  index, or, when the block is full, as nothing; the last container holds the sentinel \<open>eof\<close>. \<open>std::vector\<close> of blocks is the index
  over the containers. The code is the one of a little-endian machine, where words are turned over before they are written.
\<close>

section \<open>State\<close>

definition kBlockSize :: nat where "kBlockSize = 65536"

definition kNumBlocks :: nat where "kNumBlocks = 1024"

definition kBitSetThreshold :: nat where "kBitSetThreshold = 4095"

definition kDenseBlockIndexNumBlocks :: nat where "kDenseBlockIndexNumBlocks = 128"

definition kDenseBlockIndexWordsPerBlock :: nat where "kDenseBlockIndexWordsPerBlock = 8"

record sb_block =
  sbk_index :: u32
  sbk_offset :: u32

record 'o sparse_writer =
  spw_out :: 'o
  spw_origin :: nat
  spw_bits :: "u64 list"
  spw_index :: "sb_block list"
  spw_popcnt :: u32
  spw_block :: u32
  spw_prev :: u32
  spw_last :: u32
  spw_track :: bool

definition spw_new :: "'o index_out \<Rightarrow> bool \<Rightarrow> 'o \<Rightarrow> 'o sparse_writer" where
  "spw_new io track out = \<lparr>spw_out = out, spw_origin = out_pointer io out, spw_bits = replicate kNumBlocks 0, spw_index = [],
     spw_popcnt = 0, spw_block = 0, spw_prev = 0, spw_last = 0, spw_track = track\<rparr>"

section \<open>Operations\<close>

text \<open>\<open>numeric_traits<size_t>::hton\<close> on a little-endian machine; \<open>ntoh\<close> is the same function.\<close>

definition hton64 :: "u64 \<Rightarrow> u64" where
  "hton64 w = bytes_word (rev (word_bytes w))"

text \<open>\<open>write_block_index\<close>: the number of documents before each group of eight words.\<close>

fun dense_index :: "nat \<Rightarrow> u16 \<Rightarrow> u64 list \<Rightarrow> u8 list" where
  "dense_index 0 popcnt ws = []"
| "dense_index (Suc n) popcnt ws = write_u16 popcnt @
     dense_index n (fold (\<lambda>w p. p + of_nat (popcount_w w)) (take kDenseBlockIndexWordsPerBlock ws) popcnt)
       (drop kDenseBlockIndexWordsPerBlock ws)"

partial_function (option) spw_write_docs :: "'o index_out \<Rightarrow> bitset_it \<Rightarrow> 'o \<Rightarrow> 'o option" where
  "spw_write_docs io it out =
     (let (b, it1) = bi_next_doc it in
      if b then do { out1 \<leftarrow> out_do io (WriteShort (ucast (bi_doc it1))) out; spw_write_docs io it1 out1 } else Some out)"

declare spw_write_docs.simps [code]

definition spw_do_flush :: "'o index_out \<Rightarrow> u32 \<Rightarrow> 'o sparse_writer \<Rightarrow> 'o sparse_writer option" where
  "spw_do_flush io popcnt w =
     (if popcnt = 0 \<or> \<not> unat (spw_block w) < kBlockSize \<or> \<not> unat popcnt \<le> kBlockSize then None
      else do {
        out1 \<leftarrow> out_run io [WriteShort (ucast (spw_block w)), WriteShort (ucast (popcnt - 1))] (spw_out w);
        w2 \<leftarrow> (if spw_track w then do {
                 out2 \<leftarrow> out_do io (WriteInt (spw_last w)) out1;
                 Some (w\<lparr>spw_out := out2, spw_last := spw_prev w\<rparr>)
               } else Some (w\<lparr>spw_out := out1\<rparr>));
        if kBitSetThreshold < unat popcnt then
          if unat popcnt \<noteq> kBlockSize then do {
            out3 \<leftarrow> out_do io (WriteBytes (dense_index kDenseBlockIndexNumBlocks 0 (spw_bits w2))) (spw_out w2);
            let bits = map hton64 (spw_bits w2);
            out4 \<leftarrow> out_do io (WriteBytes (words_bytes bits)) out3;
            Some (w2\<lparr>spw_out := out4, spw_bits := bits\<rparr>)
          } else Some w2
        else do {
          out3 \<leftarrow> spw_write_docs io (bi_make (spw_bits w2)) (spw_out w2);
          Some (w2\<lparr>spw_out := out3\<rparr>)
        }
      })"

definition spw_add_block :: "'o index_out \<Rightarrow> u32 \<Rightarrow> 'o sparse_writer \<Rightarrow> 'o sparse_writer option" where
  "spw_add_block io block_id w =
     (let offset = out_pointer io (spw_out w) - spw_origin w; count = 1 + block_id - of_nat (length (spw_index w)) in
      if offset < 2 ^ 32
      then Some (w\<lparr>spw_index := spw_index w @ replicate (unat count) \<lparr>sbk_index = spw_popcnt w, sbk_offset = of_nat offset\<rparr>\<rparr>)
      else None)"

definition spw_flush :: "'o index_out \<Rightarrow> u32 \<Rightarrow> 'o sparse_writer \<Rightarrow> 'o sparse_writer option" where
  "spw_flush io next_block w =
     (let popcnt = of_nat (popcount_range (spw_bits w)) in
      if popcnt \<noteq> 0 then do {
        w1 \<leftarrow> spw_add_block io next_block w;
        w2 \<leftarrow> spw_do_flush io popcnt w1;
        Some (w2\<lparr>spw_popcnt := spw_popcnt w2 + popcnt, spw_bits := replicate kNumBlocks 0\<rparr>)
      } else Some w)"

definition spw_set :: "nat \<Rightarrow> u64 list \<Rightarrow> u64 list" where
  "spw_set v bits = bits[v div 64 := set_bit_w (bits ! (v div 64)) (v mod 64)]"

definition spw_reset :: "nat \<Rightarrow> u64 list \<Rightarrow> u64 list" where
  "spw_reset v bits = bits[v div 64 := unset_bit_w (bits ! (v div 64)) (v mod 64)]"

definition spw_push_back :: "'o index_out \<Rightarrow> u32 \<Rightarrow> 'o sparse_writer \<Rightarrow> 'o sparse_writer option" where
  "spw_push_back io v w =
     (if v = 0 \<or> v = - 1 then None
      else do {
        let block = v div 65536;
        w1 \<leftarrow> (if block \<noteq> spw_block w then do {
                 w1 \<leftarrow> spw_flush io (spw_block w) w;
                 Some (w1\<lparr>spw_block := block\<rparr>)
               } else Some w);
        Some (w1\<lparr>spw_bits := spw_set (unat (v mod 65536)) (spw_bits w1), spw_prev := v\<rparr>)
      })"

definition spw_erase :: "u32 \<Rightarrow> 'o sparse_writer \<Rightarrow> bool \<times> 'o sparse_writer" where
  "spw_erase v w =
     (if v div 65536 < spw_block w then (False, w)
      else (True, w\<lparr>spw_bits := spw_reset (unat (v mod 65536)) (spw_bits w)\<rparr>))"

definition spw_finish :: "'o index_out \<Rightarrow> 'o sparse_writer \<Rightarrow> 'o sparse_writer option" where
  "spw_finish io w = do {
     w1 \<leftarrow> spw_flush io (spw_block w) w;
     w2 \<leftarrow> (if length (spw_index w1) < kBlockSize
            then spw_add_block io (if spw_block w1 \<noteq> 0 then spw_block w1 + 1 else 0) w1
            else Some w1);
     spw_do_flush io 1 (w2\<lparr>spw_block := - 1 div 65536, spw_bits := spw_set (unat (- 1 mod 65536 :: u32)) (spw_bits w2)\<rparr>)
   }"

text \<open>A list of documents pushed in turn, then \<open>finish\<close>.\<close>

fun spw_push_all :: "'o index_out \<Rightarrow> u32 list \<Rightarrow> 'o sparse_writer \<Rightarrow> 'o sparse_writer option" where
  "spw_push_all io [] w = Some w"
| "spw_push_all io (v # vs) w = do { w1 \<leftarrow> spw_push_back io v w; spw_push_all io vs w1 }"

section \<open>The format\<close>

text \<open>A container: the number of the block, its words, and the last document pushed to it.\<close>

type_synonym segment = "nat \<times> u64 list \<times> u32"

definition sb_body :: "u64 list \<Rightarrow> u8 list" where
  "sb_body ws =
     (if kBitSetThreshold < popcount_range ws
      then if popcount_range ws \<noteq> kBlockSize then dense_index kDenseBlockIndexNumBlocks 0 ws @ concat (map write_u64 ws) else []
      else concat (map (write_u16 \<circ> of_nat) (sorted_list_of_set (words_set ws))))"

definition sb_header :: "bool \<Rightarrow> u32 \<Rightarrow> nat \<Rightarrow> nat \<Rightarrow> u8 list" where
  "sb_header track prev b n = write_u16 (of_nat b) @ write_u16 (of_nat (n - 1)) @ (if track then write_u32 prev else [])"

fun sb_bytes :: "bool \<Rightarrow> u32 \<Rightarrow> segment list \<Rightarrow> u8 list" where
  "sb_bytes track prev [] = []"
| "sb_bytes track prev ((b, ws, lst) # segs) =
     sb_header track prev b (popcount_range ws) @ sb_body ws @ sb_bytes track lst segs"

definition sb_last :: "segment list \<Rightarrow> u32" where
  "sb_last segs = (if segs = [] then 0 else snd (snd (last segs)))"

definition sb_rank :: "segment list \<Rightarrow> nat" where
  "sb_rank segs = sum_list (map (\<lambda>(b, ws, lst). popcount_range ws) segs)"

text \<open>The documents of a container and of a list of containers.\<close>

definition sb_docs :: "segment list \<Rightarrow> nat set" where
  "sb_docs segs = (\<Union>(b, ws, lst)\<in>set segs. (\<lambda>i. kBlockSize * b + i) ` words_set ws)"

definition sb_wf :: "segment list \<Rightarrow> bool" where
  "sb_wf segs \<longleftrightarrow> sorted_wrt (<) (map fst segs) \<and>
     (\<forall>(b, ws, lst)\<in>set segs. b < kBlockSize \<and> length ws = kNumBlocks \<and> words_set ws \<noteq> {})"

text \<open>The entry of the index for block \<open>i\<close>: where the first container behind the ones of smaller blocks starts.\<close>

definition sb_entry :: "bool \<Rightarrow> segment list \<Rightarrow> nat \<Rightarrow> sb_block" where
  "sb_entry track segs i =
     (let before = takeWhile (\<lambda>s. fst s < i) segs
      in \<lparr>sbk_index = of_nat (sb_rank before), sbk_offset = of_nat (length (sb_bytes track 0 before))\<rparr>)"

section \<open>Lemmas on the format\<close>

lemma rev_word_bytes: "rev (word_bytes w) = write_u64 w"
  by (simp add: word_bytes_def write_u64_def write_u32_def upt_rec) (auto intro!: bit_word_eqI simp: bit_simps)

lemma hton64_bytes: "word_bytes (hton64 w) = write_u64 w"
proof -
  note rev_word_bytes [of w]
  moreover have "word_bytes (bytes_word bs :: u64) = bs" if "length bs = 8" for bs
  proof (rule nth_equalityI)
    show "word_bytes (bytes_word bs :: u64) ! i = bs ! i" if "i < length (word_bytes (bytes_word bs :: u64))" for i
      using that \<open>length bs = 8\<close>
      by (intro bit_word_eqI) (simp add: word_bytes_def bit_ucast_iff bit_drop_bit_eq bit_bytes_word)
  qed (simp add: that)
  moreover have "length (write_u64 w) = 8" by (simp add: write_u64_def write_u32_def)
  ultimately show ?thesis by (metis hton64_def)
qed

lemma hton64_words: "words_bytes (map hton64 ws) = concat (map write_u64 ws)"
  by (induction ws) (simp_all add: words_bytes_def hton64_bytes)

lemma sb_bytes_append:
  "sb_bytes track p (xs @ ys) = sb_bytes track p xs @ sb_bytes track (if xs = [] then p else sb_last xs) ys"
  by (induction track p xs rule: sb_bytes.induct) (auto simp: sb_last_def)

lemma sb_rank_append [simp]: "sb_rank (xs @ ys) = sb_rank xs + sb_rank ys" and sb_rank_Nil [simp]: "sb_rank [] = 0"
  and sb_rank_Cons [simp]: "sb_rank ((b, ws, lst) # xs) = popcount_range ws + sb_rank xs"
  by (simp_all add: sb_rank_def)

lemma sb_docs_append [simp]: "sb_docs (xs @ ys) = sb_docs xs \<union> sb_docs ys" and sb_docs_Nil [simp]: "sb_docs [] = {}"
  and sb_docs_Cons [simp]: "sb_docs ((b, ws, lst) # xs) = (\<lambda>i. kBlockSize * b + i) ` words_set ws \<union> sb_docs xs"
  by (auto simp: sb_docs_def)

lemma words_set_less: "length ws = kNumBlocks \<Longrightarrow> i \<in> words_set ws \<Longrightarrow> i < kBlockSize"
  by (simp add: words_set_def kNumBlocks_def kBlockSize_def)

lemma popcount_le: "length ws = kNumBlocks \<Longrightarrow> popcount_range ws \<le> kBlockSize"
  using card_mono [of "{..<kBlockSize}" "words_set ws"] words_set_less [of ws] by (auto simp: popcount_range_card)

lemma popcount_pos: "words_set ws \<noteq> {} \<Longrightarrow> 0 < popcount_range ws"
  by (simp add: popcount_range_card card_gt_0_iff)

lemma length_dense_index: "length (dense_index n p ws) = 2 * n"
  by (induction n p ws rule: dense_index.induct) (simp_all add: write_u16_def)

lemma length_concat_const: "(\<And>x. x \<in> set xs \<Longrightarrow> length (g x) = k) \<Longrightarrow> length (concat (map g xs)) = length xs * k"
  by (induction xs) simp_all

lemma length_sb_body:
  assumes "length ws = kNumBlocks"
  shows "length (sb_body ws) = (if kBitSetThreshold < popcount_range ws then if popcount_range ws \<noteq> kBlockSize then 8448 else 0
    else 2 * popcount_range ws)"
  using assms length_concat_const [of ws write_u64 8]
    length_concat_const [of "sorted_list_of_set (words_set ws)" "write_u16 \<circ> of_nat" 2]
  by (simp add: sb_body_def length_dense_index kDenseBlockIndexNumBlocks_def kNumBlocks_def popcount_range_card
      write_u64_def write_u32_def write_u16_def)

lemma length_sb_bytes: "sb_wf segs \<Longrightarrow> length (sb_bytes track p segs) \<le> 8456 * length segs"
proof (induction track p segs rule: sb_bytes.induct)
  case (2 track prev b ws lst segs)
  have "length (sb_body ws) \<le> 8448" using 2(2) length_sb_body [of ws] by (simp add: sb_wf_def kBitSetThreshold_def)
  then show ?case using 2 by (cases track) (auto simp: sb_wf_def sb_header_def write_u16_def write_u32_def)
qed simp

lemma sb_wf_ids: "sb_wf segs \<Longrightarrow> distinct (map fst segs) \<and> fst ` set segs \<subseteq> {..<kBlockSize}"
  by (auto simp: sb_wf_def strict_sorted_iff)

lemma length_segs: "sb_wf segs \<Longrightarrow> length segs \<le> kBlockSize"
  using card_mono [of "{..<kBlockSize}" "fst ` set segs"] sb_wf_ids [of segs] distinct_card [of "map fst segs"] by simp

lemma sb_offset_less: "sb_wf segs \<Longrightarrow> length (sb_bytes track p segs) < 2 ^ 32"
  using length_sb_bytes [of segs track p] length_segs [of segs] by (simp add: kBlockSize_def)

lemma sb_wf_take: "sb_wf segs \<Longrightarrow> sb_wf (take n segs)"
  by (auto simp: sb_wf_def take_map [symmetric] sorted_wrt_take dest: in_set_takeD)

section \<open>Writing\<close>

text \<open>The loop over the documents of a block.\<close>

lemma sorted_from:
  assumes "d \<in> D" "p \<le> d" "\<forall>e\<in>D. p \<le> e \<longrightarrow> d \<le> e" "finite D"
  shows "sorted_list_of_set {e \<in> D. p \<le> e} = d # sorted_list_of_set {e \<in> D. d + 1 \<le> (e :: nat)}"
proof -
  have "{e \<in> D. p \<le> e} = insert d {e \<in> D. d + 1 \<le> e}" using assms by force
  moreover have "sorted_list_of_set (insert d {e \<in> D. d + 1 \<le> e}) = insort d (sorted_list_of_set {e \<in> D. d + 1 \<le> e})"
    using assms(4) by (intro sorted_list_of_set_insert) auto
  moreover have "insort d (sorted_list_of_set {e \<in> D. d + 1 \<le> e}) = d # sorted_list_of_set {e \<in> D. d + 1 \<le> e}"
    using assms(4) by (intro insort_is_Cons) auto
  ultimately show ?thesis by simp
qed

lemma bi_make_at: "bi_at 0 (bi_make ws)" and bi_make_words: "bi_words (bi_make ws) = ws" "bi_docs (bi_make ws) = words_set ws"
  by (simp_all add: bi_at_def bi_make_def bi_reset_def bi_docs_def)

context index_sink
begin

lemma write_docs_correct:
  assumes "ok out" "bi_at p it" "64 * length (bi_words it) < 2 ^ 32"
  shows "\<exists>out'. spw_write_docs io it out = Some out' \<and> ok out' \<and>
    contents out' = contents out @ concat (map (write_u16 \<circ> of_nat) (sorted_list_of_set {d \<in> bi_docs it. p \<le> d}))"
  using assms
proof (induction "card {d \<in> bi_docs it. p \<le> d}" arbitrary: p it out rule: less_induct)
  case less
  obtain b it1 where n: "bi_next_doc it = (b, it1)" by fastforce
  note step = bi_next_step [OF less.prems(3,2), unfolded n, simplified]
  have fin: "finite (bi_docs it)" by (simp add: bi_docs_def)
  show ?case
  proof (cases b)
    case False
    then have "{d \<in> bi_docs it. p \<le> d} = {}" using step by auto
    then have "sorted_list_of_set {d \<in> bi_docs it. p \<le> d} = []" by (metis sorted_list_of_set_empty)
    then show ?thesis using n False less.prems(1) by (subst spw_write_docs.simps) simp
  next
    case True
    then obtain d where d: "bi_words it1 = bi_words it" "d \<in> bi_docs it" "p \<le> d" "\<forall>e\<in>bi_docs it. p \<le> e \<longrightarrow> d \<le> e"
      "unat (bi_doc it1) = d" "bi_at (d + 1) it1" using step by auto
    have D: "bi_docs it1 = bi_docs it" using d(1) by (simp add: bi_docs_def)
    have "ucast (bi_doc it1) = (of_nat d :: u16)" using d(5) by (metis of_nat_unat)
    then obtain o1 where o1: "out_do io (WriteShort (ucast (bi_doc it1))) out = Some o1" "ok o1"
      "contents o1 = contents out @ write_u16 (of_nat d)" using do_law [OF less.prems(1), of "WriteShort (ucast (bi_doc it1))"] by auto
    have "card {e \<in> bi_docs it1. d + 1 \<le> e} < card {e \<in> bi_docs it. p \<le> e}"
    proof (rule psubset_card_mono)
      have "d \<in> {e \<in> bi_docs it. p \<le> e}" "d \<notin> {e \<in> bi_docs it1. d + 1 \<le> e}" using d(2,3) by auto
      moreover have "{e \<in> bi_docs it1. d + 1 \<le> e} \<subseteq> {e \<in> bi_docs it. p \<le> e}" using d(3) D by auto
      ultimately show "{e \<in> bi_docs it1. d + 1 \<le> e} \<subset> {e \<in> bi_docs it. p \<le> e}" by blast
    qed (use fin in simp)
    from less.hyps [OF this o1(2) d(6)] obtain o2 where "spw_write_docs io it1 o1 = Some o2" "ok o2"
      "contents o2 = contents o1 @ concat (map (write_u16 \<circ> of_nat) (sorted_list_of_set {e \<in> bi_docs it. d + 1 \<le> e}))"
      using less.prems(3) d(1) D by auto
    then show ?thesis using n True o1 sorted_from [OF d(2-4) fin] by (subst spw_write_docs.simps) simp
  qed
qed

lemma do_flush_correct:
  assumes "ok (spw_out w)" "length (spw_bits w) = kNumBlocks" "words_set (spw_bits w) \<noteq> {}" "unat (spw_block w) < kBlockSize"
  shows "\<exists>w'. spw_do_flush io (of_nat (popcount_range (spw_bits w))) w = Some w' \<and> ok (spw_out w') \<and>
    contents (spw_out w') = contents (spw_out w) @
      sb_header (spw_track w) (spw_last w) (unat (spw_block w)) (popcount_range (spw_bits w)) @ sb_body (spw_bits w) \<and>
    spw_origin w' = spw_origin w \<and> spw_index w' = spw_index w \<and> spw_popcnt w' = spw_popcnt w \<and>
    spw_block w' = spw_block w \<and> spw_prev w' = spw_prev w \<and> spw_track w' = spw_track w \<and>
    (spw_track w \<longrightarrow> spw_last w' = spw_prev w)"
proof -
  let ?n = "popcount_range (spw_bits w)" and ?p = "of_nat (popcount_range (spw_bits w)) :: u32"
  have n: "0 < ?n" "?n \<le> kBlockSize" using popcount_pos [OF assms(3)] popcount_le [OF assms(2)] by auto
  then have u: "unat ?p = ?n" unfolding unat_of_nat by (intro mod_less) (simp add: kBlockSize_def)
  then have p0: "?p \<noteq> 0" using n(1) by auto
  have p1: "ucast (?p - 1) = (of_nat (?n - 1) :: u16)"
    using n(1) u unat_minus_one [OF p0] by (metis of_nat_unat)
  obtain o1 where o1: "out_run io [WriteShort (ucast (spw_block w)), WriteShort (ucast (?p - 1))] (spw_out w) = Some o1" "ok o1"
    "contents o1 = contents (spw_out w) @ write_u16 (of_nat (unat (spw_block w))) @ write_u16 (of_nat (?n - 1))"
    using run_law [OF assms(1), of "[WriteShort (ucast (spw_block w)), WriteShort (ucast (?p - 1))]"] p1 by auto
  obtain w2 where w2: "(if spw_track w then do {
                 out2 \<leftarrow> out_do io (WriteInt (spw_last w)) o1;
                 Some (w\<lparr>spw_out := out2, spw_last := spw_prev w\<rparr>)
               } else Some (w\<lparr>spw_out := o1\<rparr>)) = Some w2" "ok (spw_out w2)"
    "contents (spw_out w2) = contents (spw_out w) @ sb_header (spw_track w) (spw_last w) (unat (spw_block w)) ?n"
    "spw_bits w2 = spw_bits w" "spw_origin w2 = spw_origin w \<and> spw_index w2 = spw_index w \<and> spw_popcnt w2 = spw_popcnt w \<and>
      spw_block w2 = spw_block w \<and> spw_prev w2 = spw_prev w \<and> spw_track w2 = spw_track w \<and> (spw_track w \<longrightarrow> spw_last w2 = spw_prev w)"
    using do_law [OF o1(2), of "WriteInt (spw_last w)"] o1 by (cases "spw_track w") (auto simp: sb_header_def)
  have start: "spw_do_flush io ?p w =
      (if kBitSetThreshold < ?n then
          if ?n \<noteq> kBlockSize then do {
            out3 \<leftarrow> out_do io (WriteBytes (dense_index kDenseBlockIndexNumBlocks 0 (spw_bits w2))) (spw_out w2);
            let bits = map hton64 (spw_bits w2);
            out4 \<leftarrow> out_do io (WriteBytes (words_bytes bits)) out3;
            Some (w2\<lparr>spw_out := out4, spw_bits := bits\<rparr>)
          } else Some w2
        else do {
          out3 \<leftarrow> spw_write_docs io (bi_make (spw_bits w2)) (spw_out w2);
          Some (w2\<lparr>spw_out := out3\<rparr>)
        })"
    using p0 assms(4) n(2) u o1(1) w2(1) by (simp add: spw_do_flush_def)
  show ?thesis
  proof (cases "kBitSetThreshold < ?n \<and> ?n \<noteq> kBlockSize")
    case True
    let ?i = "dense_index kDenseBlockIndexNumBlocks 0 (spw_bits w2)" and ?b = "words_bytes (map hton64 (spw_bits w2))"
    obtain o3 where o3: "out_do io (WriteBytes ?i) (spw_out w2) = Some o3" "ok o3" "contents o3 = contents (spw_out w2) @ ?i"
      using do_law [OF w2(2), of "WriteBytes ?i"] by auto
    obtain o4 where o4: "out_do io (WriteBytes ?b) o3 = Some o4" "ok o4" "contents o4 = contents o3 @ ?b"
      using do_law [OF o3(2), of "WriteBytes ?b"] by auto
    have "spw_do_flush io ?p w = Some (w2\<lparr>spw_out := o4, spw_bits := map hton64 (spw_bits w2)\<rparr>)"
      unfolding start using True o3(1) o4(1) by simp
    moreover have "sb_body (spw_bits w) = ?i @ ?b" using True w2(4) by (simp add: sb_body_def hton64_words)
    ultimately show ?thesis using o3(3) o4(2,3) w2(3,5) by simp
  next
    case False
    show ?thesis
    proof (cases "kBitSetThreshold < ?n")
      case True
      then have "spw_do_flush io ?p w = Some w2" "sb_body (spw_bits w) = []" unfolding start using False by (simp_all add: sb_body_def)
      then show ?thesis using w2 by simp
    next
      case few: False
      have len: "64 * length (bi_words (bi_make (spw_bits w2))) < 2 ^ 32" using assms(2) w2(4) by (simp add: bi_make_words kNumBlocks_def)
      obtain o3 where o3: "spw_write_docs io (bi_make (spw_bits w2)) (spw_out w2) = Some o3" "ok o3"
        "contents o3 = contents (spw_out w2) @ concat (map (write_u16 \<circ> of_nat) (sorted_list_of_set (words_set (spw_bits w))))"
        using write_docs_correct [OF w2(2) bi_make_at len] w2(4) by (auto simp: bi_make_words)
      then have "spw_do_flush io ?p w = Some (w2\<lparr>spw_out := o3\<rparr>)" unfolding start using few by simp
      moreover have "sb_body (spw_bits w) = concat (map (write_u16 \<circ> of_nat) (sorted_list_of_set (words_set (spw_bits w))))"
        using few by (simp add: sb_body_def)
      ultimately show ?thesis using o3(2,3) w2(3,5) by simp
    qed
  qed
qed

end

section \<open>The state of the writer\<close>

definition sb_sentinel :: segment where
  "sb_sentinel = (65535, (replicate kNumBlocks 0)[1023 := set_bit_w 0 63], 0)"

definition spw_at :: "('o \<Rightarrow> u8 list) \<Rightarrow> ('o \<Rightarrow> bool) \<Rightarrow> u8 list \<Rightarrow> segment list \<Rightarrow> 'o sparse_writer \<Rightarrow> bool" where
  "spw_at contents ok c0 segs w \<longleftrightarrow> ok (spw_out w) \<and> contents (spw_out w) = c0 @ sb_bytes (spw_track w) 0 segs \<and>
     spw_origin w = length c0 \<and> spw_popcnt w = of_nat (sb_rank segs) \<and> (spw_track w \<longrightarrow> spw_last w = sb_last segs) \<and>
     sb_wf segs \<and> length (spw_bits w) = kNumBlocks \<and>
     length (spw_index w) = (if segs = [] then 0 else Suc (fst (last segs))) \<and>
     (\<forall>i < length (spw_index w). spw_index w ! i = sb_entry (spw_track w) segs i)"

text \<open>Between two calls: the blocks before the current one are written, the current one is in the words.\<close>

definition spw_invar :: "('o \<Rightarrow> u8 list) \<Rightarrow> ('o \<Rightarrow> bool) \<Rightarrow> u8 list \<Rightarrow> segment list \<Rightarrow> 'o sparse_writer \<Rightarrow> bool" where
  "spw_invar contents ok c0 segs w \<longleftrightarrow> spw_at contents ok c0 segs w \<and> unat (spw_block w) < kBlockSize \<and>
     (\<forall>s\<in>set segs. fst s < unat (spw_block w))"

definition spw_docs :: "segment list \<Rightarrow> 'o sparse_writer \<Rightarrow> nat set" where
  "spw_docs segs w = sb_docs segs \<union> (\<lambda>i. kBlockSize * unat (spw_block w) + i) ` words_set (spw_bits w)"

lemma takeWhile_all: "(\<forall>x\<in>set xs. P x) \<Longrightarrow> takeWhile P xs = xs"
  by (simp add: takeWhile_eq_all_conv)

lemma sb_entry_append:
  "segs \<noteq> [] \<Longrightarrow> i \<le> fst (last segs) \<Longrightarrow> sb_entry track (segs @ ys) i = sb_entry track segs i"
proof -
  assume "segs \<noteq> []" "i \<le> fst (last segs)"
  then have "last segs \<in> set segs" "\<not> fst (last segs) < i" by auto
  then have "takeWhile (\<lambda>s. fst s < i) (segs @ ys) = takeWhile (\<lambda>s. fst s < i) segs" by (rule takeWhile_append1)
  then show ?thesis by (simp add: sb_entry_def)
qed

lemma sb_entry_end:
  "(\<forall>s\<in>set segs. fst s < i) \<Longrightarrow> (case ys of [] \<Rightarrow> True | y # _ \<Rightarrow> i \<le> fst y) \<Longrightarrow>
     sb_entry track (segs @ ys) i = \<lparr>sbk_index = of_nat (sb_rank segs), sbk_offset = of_nat (length (sb_bytes track 0 segs))\<rparr>"
  by (cases ys) (simp_all add: sb_entry_def takeWhile_append2 takeWhile_all)

lemma sb_last_id: "sb_wf segs \<Longrightarrow> s \<in> set segs \<Longrightarrow> fst s \<le> fst (last segs)"
proof (induction segs rule: rev_induct)
  case (snoc x xs)
  then show ?case by (auto simp: sb_wf_def sorted_wrt_append less_imp_le)
qed simp

lemma unat_count: "n \<le> unat b + 1 \<Longrightarrow> unat b < kBlockSize \<Longrightarrow> unat (1 + b - of_nat n :: u32) = unat b + 1 - n"
proof -
  assume n: "n \<le> unat b + 1" "unat b < kBlockSize"
  have "1 + b - of_nat n = of_nat (unat b + 1 - n)" using n(1) by (simp add: of_nat_diff add.commute)
  also have "unat (\<dots> :: u32) = unat b + 1 - n"
    unfolding unat_of_nat using n(2) by (intro mod_less) (simp add: kBlockSize_def)
  finally show ?thesis .
qed

context index_sink
begin

lemma add_block_correct:
  assumes "spw_at contents ok c0 segs w" "unat b < kBlockSize" "length (spw_index w) \<le> unat b + 1"
  shows "spw_add_block io b w = Some (w\<lparr>spw_index := spw_index w @ replicate (unat b + 1 - length (spw_index w))
      \<lparr>sbk_index = of_nat (sb_rank segs), sbk_offset = of_nat (length (sb_bytes (spw_track w) 0 segs))\<rparr>\<rparr>)"
proof -
  have "out_pointer io (spw_out w) - spw_origin w = length (sb_bytes (spw_track w) 0 segs)"
    using assms(1) pointer_law by (simp add: spw_at_def)
  moreover have "length (sb_bytes (spw_track w) 0 segs) < 2 ^ 32" using assms(1) sb_offset_less by (simp add: spw_at_def)
  ultimately show ?thesis using assms unat_count [OF assms(3,2)] by (simp add: spw_add_block_def spw_at_def)
qed

lemma flush_correct:
  assumes "spw_invar contents ok c0 segs w"
  defines "b \<equiv> unat (spw_block w)"
  shows "\<exists>w'. spw_flush io (spw_block w) w = Some w' \<and> words_set (spw_bits w') = {} \<and>
    spw_at contents ok c0 (if words_set (spw_bits w) = {} then segs else segs @ [(b, spw_bits w, spw_prev w)]) w' \<and>
    spw_block w' = spw_block w \<and> spw_track w' = spw_track w"
proof (cases "words_set (spw_bits w) = {}")
  case True
  then have "popcount_range (spw_bits w) = 0" by (simp add: popcount_range_card)
  then show ?thesis using True assms by (simp add: spw_flush_def spw_invar_def)
next
  case False
  let ?n = "popcount_range (spw_bits w)" and ?seg = "(b, spw_bits w, spw_prev w)"
  have at: "spw_at contents ok c0 segs w" and b: "b < kBlockSize" and ids: "\<forall>s\<in>set segs. fst s < b"
    using assms by (simp_all add: spw_invar_def)
  have len: "length (spw_bits w) = kNumBlocks" "sb_wf segs" using at by (simp_all add: spw_at_def)
  have n: "0 < ?n" "?n \<le> kBlockSize" using popcount_pos [OF False] popcount_le [OF len(1)] by auto
  then have u: "unat (of_nat ?n :: u32) = ?n" unfolding unat_of_nat by (intro mod_less) (simp add: kBlockSize_def)
  then have n0: "(of_nat ?n :: u32) \<noteq> 0" using n(1) by auto
  have lenb: "length (spw_index w) \<le> b" using at ids by (auto simp: spw_at_def Suc_le_eq)
  let ?e = "\<lparr>sbk_index = of_nat (sb_rank segs), sbk_offset = of_nat (length (sb_bytes (spw_track w) 0 segs))\<rparr>"
  let ?w1 = "w\<lparr>spw_index := spw_index w @ replicate (b + 1 - length (spw_index w)) ?e\<rparr>"
  have w1: "spw_add_block io (spw_block w) w = Some ?w1"
    using add_block_correct [OF at, of "spw_block w"] b lenb by (simp add: b_def)
  obtain w2 where w2: "spw_do_flush io (of_nat ?n) ?w1 = Some w2" "ok (spw_out w2)"
    "contents (spw_out w2) = contents (spw_out w) @ sb_header (spw_track w) (spw_last w) b ?n @ sb_body (spw_bits w)"
    "spw_origin w2 = spw_origin w \<and> spw_index w2 = spw_index ?w1 \<and> spw_popcnt w2 = spw_popcnt w \<and> spw_block w2 = spw_block w \<and>
      spw_prev w2 = spw_prev w \<and> spw_track w2 = spw_track w \<and> (spw_track w \<longrightarrow> spw_last w2 = spw_prev w)"
    using do_flush_correct [of ?w1] at False b by (auto simp: spw_at_def b_def)
  let ?w3 = "w2\<lparr>spw_popcnt := spw_popcnt w2 + of_nat ?n, spw_bits := replicate kNumBlocks 0\<rparr>"
  have "spw_flush io (spw_block w) w = Some ?w3" using n0 w1 w2(1) by (simp add: spw_flush_def)
  moreover have "spw_at contents ok c0 (segs @ [?seg]) ?w3"
  proof -
    have wf: "sb_wf (segs @ [?seg])" using len b ids False by (auto simp: sb_wf_def sorted_wrt_append)
    have idx: "length (spw_index w2) = Suc b" using w2(4) lenb by simp
    have "spw_index w2 ! i = sb_entry (spw_track w) (segs @ [?seg]) i" if i: "i < Suc b" for i
    proof (cases "i < length (spw_index w)")
      case True
      then have "segs \<noteq> []" "i \<le> fst (last segs)" using at by (auto simp: spw_at_def split: if_splits)
      then show ?thesis using True at w2(4) sb_entry_append [of segs i] by (simp add: spw_at_def nth_append)
    next
      case False
      then have "\<forall>s\<in>set segs. fst s < i" using at sb_last_id [OF len(2)] by (fastforce simp: spw_at_def split: if_splits)
      moreover have "spw_index w2 ! i = ?e" using False i w2(4) by (simp add: nth_append)
      ultimately show ?thesis using sb_entry_end [of segs i "[?seg]" "spw_track w"] i by simp
    qed
    then have "\<forall>i < Suc b. spw_index w2 ! i = sb_entry (spw_track w) (segs @ [?seg]) i" by blast
    moreover have "sb_bytes (spw_track w) 0 (segs @ [?seg]) =
        sb_bytes (spw_track w) 0 segs @ sb_header (spw_track w) (spw_last w) b ?n @ sb_body (spw_bits w)"
    proof (cases "spw_track w")
      case True
      then have "spw_last w = sb_last segs" using at by (simp add: spw_at_def)
      then show ?thesis by (simp add: sb_bytes_append sb_last_def)
    qed (simp add: sb_bytes_append sb_header_def)
    ultimately show ?thesis using at w2 wf idx by (simp add: spw_at_def sb_last_def)
  qed
  ultimately show ?thesis using False w2(4) by auto
qed

end

text \<open>The documents of the current block.\<close>

lemma spw_set_words:
  assumes "length ws = kNumBlocks" "i < kBlockSize"
  shows "words_set (spw_set i ws) = insert i (words_set ws)" "length (spw_set i ws) = kNumBlocks"
proof -
  have q: "i div 64 < length ws" using assms by (simp add: kNumBlocks_def kBlockSize_def)
  have "j \<in> words_set (spw_set i ws) \<longleftrightarrow> j = i \<or> j \<in> words_set ws" for j
  proof -
    have "j \<in> words_set (spw_set i ws) \<longleftrightarrow> (if j div 64 = i div 64 then bit (set_bit_w (ws ! (i div 64)) (i mod 64)) (j mod 64) else j \<in> words_set ws)"
      unfolding spw_set_def words_set_update [OF q] by auto
    also have "\<dots> \<longleftrightarrow> (if j div 64 = i div 64 then j mod 64 = i mod 64 \<or> bit (ws ! (i div 64)) (j mod 64) else j \<in> words_set ws)"
      by (simp add: bit_set_bit_w)
    also have "\<dots> \<longleftrightarrow> j = i \<or> j \<in> words_set ws"
      using q words_set_iff [of j ws] by (cases "j div 64 = i div 64") (auto, metis div_mult_mod_eq)
    finally show ?thesis .
  qed
  then show "words_set (spw_set i ws) = insert i (words_set ws)" by auto
  show "length (spw_set i ws) = kNumBlocks" using assms(1) by (simp add: spw_set_def)
qed

lemma spw_reset_words:
  assumes "length ws = kNumBlocks" "i < kBlockSize"
  shows "words_set (spw_reset i ws) = words_set ws - {i}" "length (spw_reset i ws) = kNumBlocks"
proof -
  have q: "i div 64 < length ws" using assms by (simp add: kNumBlocks_def kBlockSize_def)
  have "j \<in> words_set (spw_reset i ws) \<longleftrightarrow> j \<noteq> i \<and> j \<in> words_set ws" for j
  proof -
    have "j \<in> words_set (spw_reset i ws) \<longleftrightarrow> (if j div 64 = i div 64 then bit (unset_bit_w (ws ! (i div 64)) (i mod 64)) (j mod 64) else j \<in> words_set ws)"
      unfolding spw_reset_def words_set_update [OF q] by auto
    also have "\<dots> \<longleftrightarrow> (if j div 64 = i div 64 then j mod 64 \<noteq> i mod 64 \<and> bit (ws ! (i div 64)) (j mod 64) else j \<in> words_set ws)"
      by (simp add: bit_unset_bit_w)
    also have "\<dots> \<longleftrightarrow> j \<noteq> i \<and> j \<in> words_set ws"
      using q words_set_iff [of j ws] by (cases "j div 64 = i div 64") (auto, metis div_mult_mod_eq)
    finally show ?thesis .
  qed
  then show "words_set (spw_reset i ws) = words_set ws - {i}" by auto
  show "length (spw_reset i ws) = kNumBlocks" using assms(1) by (simp add: spw_reset_def)
qed

text \<open>The last document pushed to a block is its greatest one when documents are pushed in order and none is erased.\<close>

definition sb_exact :: "segment list \<Rightarrow> bool" where
  "sb_exact segs \<longleftrightarrow> (\<forall>(b, ws, lst)\<in>set segs. unat lst = kBlockSize * b + Max (words_set ws))"

definition spw_exact :: "segment list \<Rightarrow> 'o sparse_writer \<Rightarrow> bool" where
  "spw_exact segs w \<longleftrightarrow> sb_exact segs \<and>
     (words_set (spw_bits w) \<noteq> {} \<longrightarrow> unat (spw_prev w) = kBlockSize * unat (spw_block w) + Max (words_set (spw_bits w)))"

lemma block_split: "unat (v div 65536 :: u32) = unat v div kBlockSize" "unat (v mod 65536 :: u32) = unat v mod kBlockSize"
  by (simp_all add: unat_div unat_mod kBlockSize_def)

lemma block_less: "unat (v :: u32) div kBlockSize < kBlockSize"
  using unsigned_less [of v, where 'a = nat] by (simp add: kBlockSize_def div_less_iff_less_mult)

context index_sink
begin

lemma push_correct:
  assumes "spw_invar contents ok c0 segs w" "v \<noteq> 0" "v \<noteq> - 1" "unat (spw_block w) \<le> unat v div kBlockSize"
  shows "\<exists>w' segs'. spw_push_back io v w = Some w' \<and> spw_invar contents ok c0 segs' w' \<and>
    spw_docs segs' w' = insert (unat v) (spw_docs segs w) \<and> spw_track w' = spw_track w \<and> spw_prev w' = v \<and>
    unat (spw_block w') = unat v div kBlockSize \<and> words_set (spw_bits w') \<noteq> {} \<and>
    (spw_exact segs w \<and> (\<forall>d\<in>spw_docs segs w. d < unat v) \<longrightarrow> spw_exact segs' w')"
proof -
  let ?b = "v div 65536" and ?i = "unat v mod kBlockSize"
  have i: "?i < kBlockSize" by (simp add: kBlockSize_def)
  have v: "unat v = kBlockSize * unat ?b + ?i" unfolding block_split by simp
  obtain w1 segs1 where w1: "(if ?b \<noteq> spw_block w then do {
                 w1 \<leftarrow> spw_flush io (spw_block w) w;
                 Some (w1\<lparr>spw_block := ?b\<rparr>)
               } else Some w) = Some w1" "spw_invar contents ok c0 segs1 w1" "spw_block w1 = ?b" "spw_track w1 = spw_track w"
    "spw_docs segs1 w1 = spw_docs segs w" "spw_exact segs w \<longrightarrow> spw_exact segs1 w1"
  proof (cases "?b = spw_block w")
    case True
    show thesis by (rule that [of w segs]) (use True assms(1) in simp_all)
  next
    case False
    then have lt: "unat (spw_block w) < unat ?b" using assms(4) by (metis block_split(1) le_neq_implies_less unsigned_word_eqI)
    let ?segs = "if words_set (spw_bits w) = {} then segs else segs @ [(unat (spw_block w), spw_bits w, spw_prev w)]"
    obtain w2 where w2: "spw_flush io (spw_block w) w = Some w2" "words_set (spw_bits w2) = {}" "spw_at contents ok c0 ?segs w2"
      "spw_block w2 = spw_block w" "spw_track w2 = spw_track w" using flush_correct [OF assms(1)] by blast
    have "\<forall>s\<in>set ?segs. fst s < unat ?b" using assms(1) lt by (auto simp: spw_invar_def)
    then have "spw_invar contents ok c0 ?segs (w2\<lparr>spw_block := ?b\<rparr>)"
      using w2(3) block_less [of v] by (simp add: spw_invar_def spw_at_def block_split)
    moreover have "spw_docs ?segs (w2\<lparr>spw_block := ?b\<rparr>) = spw_docs segs w" using w2(2) by (auto simp: spw_docs_def)
    moreover have "spw_exact segs w \<longrightarrow> spw_exact ?segs (w2\<lparr>spw_block := ?b\<rparr>)" using w2(2) by (auto simp: spw_exact_def sb_exact_def)
    ultimately show thesis by (intro that [of "w2\<lparr>spw_block := ?b\<rparr>" ?segs]) (use False w2 in simp_all)
  qed
  let ?w = "w1\<lparr>spw_bits := spw_set ?i (spw_bits w1), spw_prev := v\<rparr>"
  have len: "length (spw_bits w1) = kNumBlocks" using w1(2) by (simp add: spw_invar_def spw_at_def)
  note st = spw_set_words [OF len i]
  have "spw_push_back io v w = Some ?w" using assms(2,3) w1(1) by (simp add: spw_push_back_def block_split)
  moreover have "spw_invar contents ok c0 segs1 ?w" using w1(2) st by (simp add: spw_invar_def spw_at_def)
  moreover have "spw_docs segs1 ?w = insert (unat v) (spw_docs segs w)"
    using st(1) v w1(3) w1(5) [symmetric] by (auto simp: spw_docs_def)
  moreover have "spw_exact segs1 ?w" if e: "spw_exact segs w" "\<forall>d\<in>spw_docs segs w. d < unat v"
  proof -
    have "j < ?i" if "j \<in> words_set (spw_bits w1)" for j
    proof -
      have "kBlockSize * unat ?b + j \<in> spw_docs segs w" using that w1(3) w1(5) [symmetric] by (simp add: spw_docs_def)
      then show ?thesis using e(2) v by fastforce
    qed
    then have "Max (insert ?i (words_set (spw_bits w1))) = ?i" by (intro Max_eqI) (auto simp: less_imp_le)
    then show ?thesis using e w1(6,3) st(1) v by (simp add: spw_exact_def)
  qed
  ultimately show ?thesis using w1(3,4) st(1) by (intro exI [of _ ?w] exI [of _ segs1]) (simp add: block_split)
qed

lemma push_all_correct:
  assumes "spw_invar contents ok c0 segs w" "sorted_wrt (<) vs" "\<forall>v\<in>set vs. v \<noteq> 0 \<and> v \<noteq> - 1 \<and> spw_prev w < v"
    and "spw_exact segs w" "\<forall>d\<in>spw_docs segs w. d \<le> unat (spw_prev w)" "unat (spw_block w) = unat (spw_prev w) div kBlockSize"
    and "words_set (spw_bits w) = {} \<longrightarrow> spw_block w = 0 \<and> spw_docs segs w = {}"
  shows "\<exists>w' segs'. spw_push_all io vs w = Some w' \<and> spw_invar contents ok c0 segs' w' \<and>
    spw_docs segs' w' = spw_docs segs w \<union> unat ` set vs \<and> spw_track w' = spw_track w \<and> spw_exact segs' w' \<and>
    (words_set (spw_bits w') = {} \<longrightarrow> spw_block w' = 0 \<and> spw_docs segs' w' = {})"
  using assms
proof (induction vs arbitrary: w segs)
  case Nil
  then show ?case by (intro exI [of _ w] exI [of _ segs]) simp
next
  case (Cons v vs)
  have lt: "unat (spw_prev w) < unat v" using Cons.prems(3) by (simp add: word_less_nat_alt)
  have le: "unat (spw_block w) \<le> unat v div kBlockSize" unfolding Cons.prems(6) using lt by (intro div_le_mono) simp
  have below: "\<forall>d\<in>spw_docs segs w. d < unat v" using Cons.prems(5) lt by fastforce
  obtain w1 segs1 where w1: "spw_push_back io v w = Some w1" "spw_invar contents ok c0 segs1 w1"
    "spw_docs segs1 w1 = insert (unat v) (spw_docs segs w)" "spw_track w1 = spw_track w" "spw_prev w1 = v"
    "unat (spw_block w1) = unat v div kBlockSize" "words_set (spw_bits w1) \<noteq> {}" "spw_exact segs1 w1"
    using push_correct [OF Cons.prems(1) _ _ le] Cons.prems(3,4) below by auto
  have "\<exists>w' segs'. spw_push_all io vs w1 = Some w' \<and> spw_invar contents ok c0 segs' w' \<and>
    spw_docs segs' w' = spw_docs segs1 w1 \<union> unat ` set vs \<and> spw_track w' = spw_track w1 \<and> spw_exact segs' w' \<and>
    (words_set (spw_bits w') = {} \<longrightarrow> spw_block w' = 0 \<and> spw_docs segs' w' = {})"
    using w1 Cons.prems(2,3) below by (intro Cons.IH) auto
  then show ?case using w1 by auto
qed

end

section \<open>The finished bitmap\<close>

definition sb_file :: "bool \<Rightarrow> segment list \<Rightarrow> u8 list" where
  "sb_file track segs = sb_bytes track 0 (segs @ [sb_sentinel])"

definition sb_index_ok :: "bool \<Rightarrow> segment list \<Rightarrow> sb_block list \<Rightarrow> bool" where
  "sb_index_ok track segs idx \<longleftrightarrow> (\<forall>i < length idx. idx ! i = sb_entry track segs i) \<and>
     length idx = (if segs = [] \<or> fst (last segs) = 0 then 1 else min kBlockSize (fst (last segs) + 2))"

lemma sentinel_words: "spw_set 65535 (replicate kNumBlocks 0) = fst (snd sb_sentinel)"
  by (simp add: spw_set_def sb_sentinel_def kNumBlocks_def)

lemma sentinel_set: "words_set (fst (snd sb_sentinel)) = {65535}" "length (fst (snd sb_sentinel)) = kNumBlocks"
  unfolding sentinel_words [symmetric] using spw_set_words [of "replicate kNumBlocks 0" 65535] by (simp_all add: kBlockSize_def)

context index_sink
begin

lemma finish_correct:
  assumes "spw_invar contents ok c0 segs w" "words_set (spw_bits w) = {} \<longrightarrow> spw_block w = 0 \<and> spw_docs segs w = {}"
  shows "\<exists>w' segs'. spw_finish io w = Some w' \<and> ok (spw_out w') \<and> contents (spw_out w') = c0 @ sb_file (spw_track w) segs' \<and>
    sb_wf segs' \<and> sb_docs segs' = spw_docs segs w \<and> sb_index_ok (spw_track w) segs' (spw_index w') \<and>
    (spw_exact segs w \<longrightarrow> sb_exact segs')"
proof -
  let ?b = "unat (spw_block w)"
  define segs1 where "segs1 = (if words_set (spw_bits w) = {} then segs else segs @ [(?b, spw_bits w, spw_prev w)])"
  obtain w1 where w1: "spw_flush io (spw_block w) w = Some w1" "words_set (spw_bits w1) = {}" "spw_at contents ok c0 segs1 w1"
    "spw_block w1 = spw_block w" "spw_track w1 = spw_track w" using flush_correct [OF assms(1)] unfolding segs1_def by blast
  have b: "?b < kBlockSize" using assms(1) by (simp add: spw_invar_def)
  have docs: "sb_docs segs1 = spw_docs segs w" by (auto simp: spw_docs_def segs1_def)
  have wf: "sb_wf segs1" using w1(3) by (simp add: spw_at_def)
  have none: "segs1 = [] \<longleftrightarrow> words_set (spw_bits w) = {}"
  proof -
    have "segs = []" if "words_set (spw_bits w) = {}"
    proof (rule ccontr)
      assume "segs \<noteq> []"
      then have "fst (last segs) < unat (spw_block w)" using assms(1) unfolding spw_invar_def by simp
      then show False using assms(2) that by simp
    qed
    then show ?thesis by (auto simp: segs1_def)
  qed
  have last: "segs1 \<noteq> [] \<Longrightarrow> fst (last segs1) = ?b" using none by (auto simp: segs1_def)
  have zero: "segs1 = [] \<Longrightarrow> ?b = 0" using none assms(2) by auto
  have len: "length (spw_index w1) = (if segs1 = [] then 0 else Suc ?b)" using w1(3) last unfolding spw_at_def by auto
  obtain w2 where w2: "(if length (spw_index w1) < kBlockSize
            then spw_add_block io (if spw_block w1 \<noteq> 0 then spw_block w1 + 1 else 0) w1 else Some w1) = Some w2"
    "\<exists>idx. w2 = w1\<lparr>spw_index := idx\<rparr>" "sb_index_ok (spw_track w) segs1 (spw_index w2)"
  proof -
    let ?t = "if spw_block w1 \<noteq> 0 then spw_block w1 + 1 else 0" and ?n = "length (spw_index w1)"
    let ?e = "\<lparr>sbk_index = of_nat (sb_rank segs1), sbk_offset = of_nat (length (sb_bytes (spw_track w1) 0 segs1))\<rparr> :: sb_block"
    have old: "spw_index w1 ! i = sb_entry (spw_track w) segs1 i" if "i < ?n" for i
      using w1(3,5) that by (simp add: spw_at_def)
    have new: "sb_entry (spw_track w) segs1 i = ?e" if "?n \<le> i" for i
    proof -
      have "fst s < i" if s: "s \<in> set segs1" for s
      proof -
        have "segs1 \<noteq> []" using s by auto
        then have "?n = Suc (fst (last segs1))" using len last by simp
        then show ?thesis using sb_last_id [OF wf s] \<open>?n \<le> i\<close> by linarith
      qed
      then show ?thesis using sb_entry_end [of segs1 i "[]"] w1(5) by auto
    qed
    show thesis
    proof (cases "?n < kBlockSize")
      case True
      have t: "unat ?t = (if ?b = 0 then 0 else ?b + 1) \<and> (?b \<noteq> 0 \<longrightarrow> ?b + 1 < kBlockSize)"
      proof (cases "?b = 0")
        case False
        then have lt: "?b + 1 < kBlockSize" using True len zero by (auto split: if_splits)
        have "unat (spw_block w1 + 1) = ?b + 1"
          using lt w1(4) unat_add_lem [of "spw_block w1" 1] by (simp add: kBlockSize_def)
        then show ?thesis using False lt w1(4) by (auto simp: unat_eq_0)
      qed (use w1(4) in \<open>simp add: unat_eq_0\<close>)
      have le: "?n \<le> unat ?t + 1" using t len zero by (auto split: if_splits)
      have "unat ?t < kBlockSize" using t by (auto simp: kBlockSize_def split: if_splits)
      note ab = add_block_correct [OF w1(3) this le]
      let ?idx = "spw_index w1 @ replicate (unat ?t + 1 - ?n) ?e"
      have "length ?idx = unat ?t + 1" using le by simp
      moreover have "unat ?t + 1 = (if segs1 = [] \<or> fst (last segs1) = 0 then 1 else min kBlockSize (fst (last segs1) + 2))"
        using t zero last by (cases "segs1 = []") (simp_all split del: if_split, auto)
      moreover have "?idx ! i = sb_entry (spw_track w) segs1 i" if "i < length ?idx" for i
        using that old new [of i] by (auto simp: nth_append)
      ultimately have "sb_index_ok (spw_track w) segs1 ?idx" unfolding sb_index_ok_def by (metis (no_types, lifting))
      then have idx: "sb_index_ok (spw_track w) segs1 (spw_index (w1\<lparr>spw_index := ?idx\<rparr>))" by simp
      have "(if ?n < kBlockSize then spw_add_block io ?t w1 else Some w1) = Some (w1\<lparr>spw_index := ?idx\<rparr>)"
        using True ab by (simp only: if_True)
      then show thesis by (rule that [OF _ exI [of _ ?idx] idx]) (rule refl)
    next
      case False
      then have "segs1 \<noteq> []" "?b + 1 = kBlockSize" "?n = kBlockSize" using len b by (auto simp: kBlockSize_def split: if_splits)
      then have "?n = (if segs1 = [] \<or> fst (last segs1) = 0 then 1 else min kBlockSize (fst (last segs1) + 2))"
        using last by (simp add: kBlockSize_def split del: if_split) 
      then have "sb_index_ok (spw_track w) segs1 (spw_index w1)" unfolding sb_index_ok_def using old by blast
      then show thesis by (intro that [OF _ exI [of _ "spw_index w1"]]) (use False in simp_all)
    qed
  qed
  let ?w3 = "w2\<lparr>spw_block := - 1 div 65536, spw_bits := spw_set (unat (- 1 mod 65536 :: u32)) (spw_bits w2)\<rparr>"
  have c: "unat (- 1 div 65536 :: u32) = 65535" "unat (- 1 mod 65536 :: u32) = 65535"
    by (simp_all add: block_split unat_minus_one_u32 doc_eof_def kBlockSize_def)
  have bits: "spw_bits w2 = replicate kNumBlocks 0"
  proof -
    have "length (spw_bits w2) = length (replicate kNumBlocks (0 :: u64))" "words_set (spw_bits w2) = {}"
      using w2(2) w1(2,3) by (auto simp: spw_at_def)
    then show ?thesis using words_set_eq_iff [of "spw_bits w2" "replicate kNumBlocks 0"] by simp
  qed
  have w3: "spw_bits ?w3 = fst (snd sb_sentinel)" using bits sentinel_words c(2) by simp
  then have one: "popcount_range (spw_bits ?w3) = 1" using sentinel_set by (simp add: popcount_range_card)
  have ok3: "ok (spw_out ?w3)" using w1(3) w2(2) by (auto simp: spw_at_def)
  obtain w4 where w4: "spw_do_flush io (of_nat (popcount_range (spw_bits ?w3))) ?w3 = Some w4" "ok (spw_out w4)"
    "contents (spw_out w4) = contents (spw_out ?w3) @
      sb_header (spw_track ?w3) (spw_last ?w3) (unat (spw_block ?w3)) (popcount_range (spw_bits ?w3)) @ sb_body (spw_bits ?w3)"
    "spw_index w4 = spw_index ?w3"
    using do_flush_correct [of ?w3] ok3 w3 sentinel_set c(1) by (auto simp: kBlockSize_def)
  have "contents (spw_out w4) = c0 @ sb_file (spw_track w) segs1"
  proof -
    have p: "spw_track w \<Longrightarrow> spw_last w2 = sb_last segs1" "contents (spw_out w2) = c0 @ sb_bytes (spw_track w) 0 segs1" "spw_track w2 = spw_track w"
      using w1(3,5) w2(2) by (auto simp: spw_at_def)
    have hd: "sb_header (spw_track w) (spw_last w2) 65535 1 = sb_header (spw_track w) (if segs1 = [] then 0 else sb_last segs1) 65535 1"
      using p(1) by (simp add: sb_header_def sb_last_def)
    have "sb_bytes (spw_track w) q [sb_sentinel] = sb_header (spw_track w) q 65535 1 @ sb_body (fst (snd sb_sentinel))" for q
      using sentinel_set by (simp add: sb_sentinel_def popcount_range_card)
    then have "sb_file (spw_track w) segs1 =
        sb_bytes (spw_track w) 0 segs1 @ sb_header (spw_track w) (spw_last w2) 65535 1 @ sb_body (fst (snd sb_sentinel))"
      unfolding sb_file_def sb_bytes_append hd by simp
    moreover have "spw_out ?w3 = spw_out w2" "spw_track ?w3 = spw_track w" "spw_last ?w3 = spw_last w2" "unat (spw_block ?w3) = 65535"
      using p(3) c(1) by simp_all
    ultimately show ?thesis using w4(3) p(2) one [unfolded w3] unfolding w3 by simp
  qed
  moreover have "spw_finish io w = Some w4"
    using w1(1) w2(1) w4(1) one by (simp add: spw_finish_def)
  moreover have "spw_exact segs w \<longrightarrow> sb_exact segs1" by (auto simp: spw_exact_def sb_exact_def segs1_def)
  ultimately show ?thesis using w2(3) w4(2,4) wf docs by (intro exI [of _ w4] exI [of _ segs1]) simp
qed

end

text \<open>The whole bitmap.\<close>


lemma sparse_bitmap_written:
  assumes "index_sink io contents ok" "ok out" "sorted_wrt (<) vs" "\<forall>v\<in>set vs. v \<noteq> 0 \<and> v \<noteq> - 1"
  shows "\<exists>w w' segs. spw_push_all io vs (spw_new io track out) = Some w \<and> spw_finish io w = Some w' \<and> ok (spw_out w') \<and>
    contents (spw_out w') = contents out @ sb_file track segs \<and> sb_wf segs \<and> sb_exact segs \<and>
    sb_docs segs = unat ` set vs \<and> sb_index_ok track segs (spw_index w')"
proof -
  let ?w = "spw_new io track out"
  have inv: "spw_invar contents ok (contents out) [] ?w"
    using assms(2) index_sink.pointer_law [OF assms(1,2)]
    by (simp add: spw_invar_def spw_at_def spw_new_def sb_wf_def sb_last_def kBlockSize_def)
  have "\<exists>w' segs'. spw_push_all io vs ?w = Some w' \<and> spw_invar contents ok (contents out) segs' w' \<and>
    spw_docs segs' w' = spw_docs [] ?w \<union> unat ` set vs \<and> spw_track w' = spw_track ?w \<and> spw_exact segs' w' \<and>
    (words_set (spw_bits w') = {} \<longrightarrow> spw_block w' = 0 \<and> spw_docs segs' w' = {})"
    using assms(3,4) by (intro index_sink.push_all_correct [OF assms(1) inv])
      (auto simp: spw_new_def spw_docs_def spw_exact_def sb_exact_def word_neq_0_conv)
  then obtain w segs where w: "spw_push_all io vs ?w = Some w" "spw_invar contents ok (contents out) segs w"
    "spw_docs segs w = unat ` set vs" "spw_track w = track" "spw_exact segs w"
    "words_set (spw_bits w) = {} \<longrightarrow> spw_block w = 0 \<and> spw_docs segs w = {}"
    by (auto simp: spw_new_def spw_docs_def)
  show ?thesis using index_sink.finish_correct [OF assms(1) w(2,6)] w(1,3-5) by blast
qed

end
