(* ===== verification/SparseReader.thy ===== *)
theory SparseReader
  imports SparseWriter
begin

text \<open>
  \<open>sparse_bitmap_iterator\<close> of \<open>core/formats/sparse_bitmap.hpp\<close> and \<open>sparse_bitmap.cpp\<close>: iteration over the bitmaps of
  \<open>SparseWriter\<close>, with the number of a document among all documents and the document before it. A container is read
  from the stream or from a buffer that the stream provides. The virtual call through \<open>seek_func_\<close> is a case distinction on
  a data type; the union of the contexts is a record of all their fields.
\<close>

section \<open>State\<close>

text \<open>\<open>AT_DIRECT_ALIGNED\<close> is never chosen.\<close>

datatype access = AtStream | AtDirect

datatype seek_func = InitialSeek | RangeSeek bool | SparseSeek access bool | DenseSeek access bool

datatype prev_attr = NoPrev | PrevStored | PrevScan access

record 'i sparse_it =
  sbi_in :: 'i
  sbi_doc :: u32
  sbi_value_index :: u32
  sbi_prev_attr :: prev_attr
  sbi_seek_func :: seek_func
  sbi_data :: "u8 list"
  sbi_pos :: nat
  sbi_sparse_index :: u32
  sbi_popcnt :: u32
  sbi_word_idx :: int
  sbi_word :: u64
  sbi_block_data :: "u8 list option"
  sbi_missing :: u32
  sbi_blocks :: "sb_block list"
  sbi_cont_begin :: nat
  sbi_origin :: nat
  sbi_index :: u32
  sbi_index_max :: u32
  sbi_block :: u32
  sbi_prev :: u32
  sbi_use_block_index :: bool
  sbi_prev_written :: bool
  sbi_track :: bool

text \<open>\<open>version\<close> tells whether previous documents are written; \<open>ctx_\<close> is not initialised.\<close>

definition sbi_new :: "'i index_in \<Rightarrow> bool \<Rightarrow> bool \<Rightarrow> bool \<Rightarrow> sb_block list \<Rightarrow> 'i sparse_it \<Rightarrow> 'i \<Rightarrow> 'i sparse_it" where
  "sbi_new io version track_prev_doc use_block_index blocks garbage s = garbage\<lparr>sbi_in := s, sbi_doc := 0, sbi_value_index := 0,
     sbi_prev_attr := (if version \<and> track_prev_doc then PrevStored else NoPrev), sbi_seek_func := InitialSeek,
     sbi_blocks := blocks, sbi_cont_begin := in_pointer io s, sbi_origin := in_pointer io s, sbi_index := 0, sbi_index_max := 0,
     sbi_block := 0, sbi_prev := 0, sbi_use_block_index := use_block_index, sbi_prev_written := version,
     sbi_track := version \<and> track_prev_doc\<rparr>"

section \<open>Containers\<close>

definition sbi_range_seek :: "bool \<Rightarrow> u32 \<Rightarrow> 'i sparse_it \<Rightarrow> bool \<times> 'i sparse_it" where
  "sbi_range_seek track target it =
     (let index = target - sbi_missing it; it1 = it\<lparr>sbi_doc := target, sbi_value_index := index\<rparr>
      in (True, if track \<and> index \<noteq> sbi_index it then it1\<lparr>sbi_prev := target - 1\<rparr> else it1))"

text \<open>\<open>read_short\<close> returns a signed value, which is widened to \<open>doc_id_t\<close> as it is.\<close>

definition sbi_read_short :: "'i index_in \<Rightarrow> access \<Rightarrow> 'i sparse_it \<Rightarrow> (u32 \<times> 'i sparse_it) option" where
  "sbi_read_short io access it =
     (case access of
        AtStream \<Rightarrow> do { (d, s) \<leftarrow> in_short io (sbi_in it); Some (scast d, it\<lparr>sbi_in := s\<rparr>) }
      | AtDirect \<Rightarrow> do { (d, _) \<leftarrow> read_u16 (drop (sbi_pos it) (sbi_data it)); Some (ucast d, it\<lparr>sbi_pos := sbi_pos it + 2\<rparr>) })"

partial_function (option) sbi_sparse_loop ::
  "'i index_in \<Rightarrow> access \<Rightarrow> bool \<Rightarrow> u32 \<Rightarrow> u32 \<Rightarrow> 'i sparse_it \<Rightarrow> (bool \<times> 'i sparse_it) option" where
  "sbi_sparse_loop io access track target prev it =
     (if sbi_sparse_index it < sbi_index_max it then do {
        (doc, it1) \<leftarrow> sbi_read_short io access it;
        if target \<le> doc then
          let it2 = it1\<lparr>sbi_doc := sbi_block it1 OR doc, sbi_value_index := sbi_sparse_index it1\<rparr>;
              it3 = (if track \<and> sbi_sparse_index it2 \<noteq> sbi_index it2 then it2\<lparr>sbi_prev := sbi_block it2 OR prev\<rparr> else it2)
          in Some (True, it3\<lparr>sbi_sparse_index := sbi_sparse_index it3 + 1\<rparr>)
        else sbi_sparse_loop io access track target (if track then doc else prev) (it1\<lparr>sbi_sparse_index := sbi_sparse_index it1 + 1\<rparr>)
      } else Some (False, it))"

declare sbi_sparse_loop.simps [code]

definition sbi_sparse_seek :: "'i index_in \<Rightarrow> access \<Rightarrow> bool \<Rightarrow> u32 \<Rightarrow> 'i sparse_it \<Rightarrow> (bool \<times> 'i sparse_it) option" where
  "sbi_sparse_seek io access track target it = sbi_sparse_loop io access track (target AND 0xFFFF) (sbi_doc it) it"

text \<open>
  A word of a dense container, as it is loaded: from the stream in the order of the machine, from the buffer in the order
  of the file, which \<open>ntoh\<close> turns over later.
\<close>

definition sbi_load :: "nat \<Rightarrow> 'i sparse_it \<Rightarrow> u64 option" where
  "sbi_load p it = (if p + 8 \<le> length (sbi_data it) then Some (bytes_word (take 8 (drop p (sbi_data it)))) else None)"

definition sbi_next_word :: "'i index_in \<Rightarrow> access \<Rightarrow> 'i sparse_it \<Rightarrow> 'i sparse_it option" where
  "sbi_next_word io access it =
     (case access of
        AtStream \<Rightarrow> do { (w, s) \<leftarrow> in_long io (sbi_in it); Some (it\<lparr>sbi_in := s, sbi_word := w\<rparr>) }
      | AtDirect \<Rightarrow> do { w \<leftarrow> sbi_load (sbi_pos it) it; Some (it\<lparr>sbi_pos := sbi_pos it + 8, sbi_word := w\<rparr>) })"

definition sbi_ntoh :: "access \<Rightarrow> 'i sparse_it \<Rightarrow> 'i sparse_it" where
  "sbi_ntoh access it = (case access of AtStream \<Rightarrow> it | AtDirect \<Rightarrow> it\<lparr>sbi_word := hton64 (sbi_word it)\<rparr>)"

text \<open>The jump with the block index.\<close>

definition sbi_dense_jump :: "'i index_in \<Rightarrow> access \<Rightarrow> nat \<Rightarrow> 'i sparse_it \<Rightarrow> 'i sparse_it option" where
  "sbi_dense_jump io access target_block it =
     (case sbi_block_data it of
        None \<Rightarrow> Some it
      | Some index \<Rightarrow>
          if int kDenseBlockIndexWordsPerBlock \<le> int (target_block div 64) - sbi_word_idx it then
            let index_block = target_block div 512;
                raw = bytes_word (take 2 (drop (2 * index_block) index)) :: u16;
                popcnt = drop_bit 8 raw OR push_bit 8 (raw AND 0xFF);
                word_idx = int (index_block * kDenseBlockIndexWordsPerBlock);
                delta = word_idx - sbi_word_idx it
            in if \<not> 0 < delta then None
               else do {
                 it1 \<leftarrow> (case access of
                     AtStream \<Rightarrow> do {
                       s \<leftarrow> in_seek io (in_pointer io (sbi_in it) + (nat delta - 1) * 8) (sbi_in it);
                       sbi_next_word io AtStream (it\<lparr>sbi_in := s\<rparr>)
                     }
                   | AtDirect \<Rightarrow> do {
                       w \<leftarrow> sbi_load (sbi_pos it + 8 * nat delta - 8) it;
                       Some (sbi_ntoh AtDirect (it\<lparr>sbi_pos := sbi_pos it + 8 * nat delta, sbi_word := w\<rparr>))
                     });
                 Some (it1\<lparr>sbi_popcnt := sbi_index it1 + ucast popcnt + of_nat (popcount_w (sbi_word it1)), sbi_word_idx := word_idx\<rparr>)
               }
          else Some it)"

primrec sbi_dense_skip :: "'i index_in \<Rightarrow> access \<Rightarrow> nat \<Rightarrow> 'i sparse_it \<Rightarrow> 'i sparse_it option" where
  "sbi_dense_skip io access 0 it = Some it"
| "sbi_dense_skip io access (Suc n) it = do {
     it1 \<leftarrow> sbi_next_word io access it;
     sbi_dense_skip io access n (it1\<lparr>sbi_popcnt := sbi_popcnt it1 + of_nat (popcount_w (sbi_word it1))\<rparr>)
   }"

definition sbi_dense_words :: "'i index_in \<Rightarrow> access \<Rightarrow> nat \<Rightarrow> 'i sparse_it \<Rightarrow> 'i sparse_it option" where
  "sbi_dense_words io access target_word_idx it =
     (let word_delta = nat (int target_word_idx - sbi_word_idx it) in
      do {
        it1 \<leftarrow> sbi_dense_skip io access word_delta it;
        Some ((if word_delta \<noteq> 0 then sbi_ntoh access it1 else it1)\<lparr>sbi_word_idx := int target_word_idx\<rparr>)
      })"

text \<open>The scan for the next word that is not empty.\<close>

partial_function (option) sbi_dense_next :: "'i index_in \<Rightarrow> access \<Rightarrow> 'i sparse_it \<Rightarrow> (bool \<times> 'i sparse_it) option" where
  "sbi_dense_next io access it =
     (if sbi_word_idx it < int kNumBlocks then do {
        it1 \<leftarrow> sbi_next_word io access it;
        if sbi_word it1 \<noteq> 0 then
          let it2 = sbi_ntoh access it1; offset = of_nat (countr_zero_w (sbi_word it2))
          in Some (True, it2\<lparr>sbi_doc := sbi_block it2 + of_int (sbi_word_idx it2) * 64 + offset, sbi_value_index := sbi_popcnt it2,
               sbi_popcnt := sbi_popcnt it2 + of_nat (popcount_w (sbi_word it2))\<rparr>)
        else sbi_dense_next io access (it1\<lparr>sbi_word_idx := sbi_word_idx it1 + 1\<rparr>)
      } else Some (False, it))"

declare sbi_dense_next.simps [code]

definition sbi_dense_seek :: "'i index_in \<Rightarrow> access \<Rightarrow> u32 \<Rightarrow> 'i sparse_it \<Rightarrow> (bool \<times> 'i sparse_it) option" where
  "sbi_dense_seek io access target it =
     (let target_block = unat (target AND 0xFFFF) in
      if int (target_block div 64) < sbi_word_idx it then None
      else do {
        it1 \<leftarrow> sbi_dense_jump io access target_block it;
        it2 \<leftarrow> sbi_dense_words io access (target_block div 64) it1;
        let left = drop_bit (unat target mod 64) (sbi_word it2);
        if left \<noteq> 0
        then Some (True, it2\<lparr>sbi_doc := target + of_nat (countr_zero_w left), sbi_value_index := sbi_popcnt it2 - of_nat (popcount_w left)\<rparr>)
        else sbi_dense_next io access (it2\<lparr>sbi_word_idx := sbi_word_idx it2 + 1\<rparr>)
      })"

definition sbi_dense_track :: "'i index_in \<Rightarrow> access \<Rightarrow> u32 \<Rightarrow> 'i sparse_it \<Rightarrow> (bool \<times> 'i sparse_it) option" where
  "sbi_dense_track io access target it = do {
     (res, it1) \<leftarrow> sbi_dense_seek io access target it;
     Some (res, if sbi_value_index it1 \<noteq> sbi_index it1
       then it1\<lparr>sbi_seek_func := DenseSeek access False, sbi_prev_attr := PrevScan access\<rparr> else it1)
   }"

text \<open>The call of \<open>seek_func_\<close> on a container.\<close>

definition sbi_container :: "'i index_in \<Rightarrow> u32 \<Rightarrow> 'i sparse_it \<Rightarrow> (bool \<times> 'i sparse_it) option" where
  "sbi_container io target it =
     (case sbi_seek_func it of
        InitialSeek \<Rightarrow> None
      | RangeSeek track \<Rightarrow> Some (sbi_range_seek track target it)
      | SparseSeek access track \<Rightarrow> sbi_sparse_seek io access track target it
      | DenseSeek access track \<Rightarrow> if track then sbi_dense_track io access target it else sbi_dense_seek io access target it)"

section \<open>The previous document\<close>

text \<open>\<open>seek_prev\<close>: the scan back through the words.\<close>

partial_function (option) sbi_scan_stream :: "'i index_in \<Rightarrow> nat \<Rightarrow> nat \<Rightarrow> 'i \<Rightarrow> (u64 \<times> nat \<times> 'i) option" where
  "sbi_scan_stream io prev word_idx s = do {
     s1 \<leftarrow> in_seek io prev s;
     (word, s2) \<leftarrow> in_long io s1;
     if word_idx = 0 then None
     else if word \<noteq> 0 then Some (word, word_idx - 1, s2)
     else sbi_scan_stream io (prev - 8) (word_idx - 1) s2
   }"

declare sbi_scan_stream.simps [code]

partial_function (option) sbi_scan_direct :: "'i sparse_it \<Rightarrow> nat \<Rightarrow> nat \<Rightarrow> (u64 \<times> nat) option" where
  "sbi_scan_direct it prev_word word_idx =
     (if prev_word < 8 then None
      else do {
        word \<leftarrow> sbi_load (prev_word - 8) it;
        if word_idx = 0 then None
        else if word \<noteq> 0 then Some (word, word_idx - 1)
        else sbi_scan_direct it (prev_word - 8) (word_idx - 1)
      })"

declare sbi_scan_direct.simps [code]

definition sbi_seek_prev :: "'i index_in \<Rightarrow> access \<Rightarrow> 'i sparse_it \<Rightarrow> (u32 \<times> 'i sparse_it) option" where
  "sbi_seek_prev io access it =
     (let offs = unat (sbi_doc it) mod 64; word0 = take_bit offs (sbi_word it); idx0 = nat (sbi_word_idx it) in
      do {
        (word, word_idx, it1) \<leftarrow>
          (if word0 \<noteq> 0 then Some (word0, idx0, it)
           else case access of
             AtStream \<Rightarrow> let pos = in_pointer io (sbi_in it) in do {
               (w, i, s) \<leftarrow> sbi_scan_stream io (pos - 16) idx0 (sbi_in it);
               s1 \<leftarrow> in_seek io pos s;
               Some (w, i, it\<lparr>sbi_in := s1\<rparr>)
             }
           | AtDirect \<Rightarrow> do { (w, i) \<leftarrow> sbi_scan_direct it (sbi_pos it - 8) idx0; Some (hton64 w, i, it) });
        Some (sbi_block it + of_nat ((word_idx + 1) * 64 - countl_zero word - 1), it1)
      })"

definition sbi_prev_doc :: "'i index_in \<Rightarrow> 'i sparse_it \<Rightarrow> (u32 \<times> 'i sparse_it) option" where
  "sbi_prev_doc io it =
     (case sbi_prev_attr it of
        NoPrev \<Rightarrow> None
      | PrevStored \<Rightarrow> Some (sbi_prev it, it)
      | PrevScan access \<Rightarrow> sbi_seek_prev io access it)"

section \<open>The iterator\<close>

text \<open>The second part of \<open>read_block_header\<close>: the container behind a header.\<close>

definition sbi_open :: "'i index_in \<Rightarrow> u32 \<Rightarrow> 'i sparse_it \<Rightarrow> 'i sparse_it option" where
  "sbi_open io popcnt it =
     (if popcnt = of_nat kBlockSize then
       Some (it\<lparr>sbi_missing := sbi_block it - sbi_index it, sbi_cont_begin := in_pointer io (sbi_in it), sbi_seek_func := RangeSeek (sbi_track it)\<rparr>)
     else if unat popcnt \<le> kBitSetThreshold then do {
       let block_size = 2 * unat popcnt;
       let cont_begin = in_pointer io (sbi_in it) + block_size;
       (buf, s) \<leftarrow> in_buffer io block_size (sbi_in it);
       Some (it\<lparr>sbi_in := s, sbi_cont_begin := cont_begin, sbi_data := (case buf of None \<Rightarrow> [] | Some bs \<Rightarrow> bs), sbi_pos := 0,
         sbi_sparse_index := sbi_index it,
         sbi_seek_func := SparseSeek (case buf of None \<Rightarrow> AtStream | Some _ \<Rightarrow> AtDirect) (sbi_track it)\<rparr>)
     } else do {
       let block_size = kBlockSize div 8;
       let index_size = 2 * kDenseBlockIndexNumBlocks;
       let it1 = it\<lparr>sbi_word_idx := - 1, sbi_popcnt := sbi_index it\<rparr>;
       it2 \<leftarrow> (if sbi_use_block_index it1 then do {
                 (buf, s) \<leftarrow> in_persistent io index_size (sbi_in it1);
                 case buf of
                   Some bs \<Rightarrow> Some (it1\<lparr>sbi_in := s, sbi_block_data := Some bs\<rparr>)
                 | None \<Rightarrow> do { (bs, s1) \<leftarrow> in_bytes io index_size s; Some (it1\<lparr>sbi_in := s1, sbi_block_data := Some bs\<rparr>) }
               } else do {
                 s \<leftarrow> in_seek io (in_pointer io (sbi_in it1) + index_size) (sbi_in it1);
                 Some (it1\<lparr>sbi_in := s, sbi_block_data := None\<rparr>)
               });
       let cont_begin = in_pointer io (sbi_in it2) + block_size;
       (buf, s) \<leftarrow> in_buffer io block_size (sbi_in it2);
       Some (it2\<lparr>sbi_in := s, sbi_cont_begin := cont_begin, sbi_data := (case buf of None \<Rightarrow> [] | Some bs \<Rightarrow> bs), sbi_pos := 0,
         sbi_seek_func := DenseSeek (case buf of None \<Rightarrow> AtStream | Some _ \<Rightarrow> AtDirect) (sbi_track it2)\<rparr>)
     })"

definition sbi_read_block_header :: "'i index_in \<Rightarrow> 'i sparse_it \<Rightarrow> 'i sparse_it option" where
  "sbi_read_block_header io it = do {
     (b, s1) \<leftarrow> in_short io (sbi_in it);
     (n, s2) \<leftarrow> in_short io s1;
     let popcnt = 1 + (ucast n :: u32);
     let it1 = it\<lparr>sbi_block := push_bit 16 (ucast b), sbi_index := sbi_index_max it, sbi_index_max := sbi_index_max it + popcnt\<rparr>;
     it2 \<leftarrow> (if sbi_prev_written it1 then do { (d, s3) \<leftarrow> in_int io s2; Some (it1\<lparr>sbi_prev := d, sbi_in := s3\<rparr>) }
              else Some (it1\<lparr>sbi_in := s2\<rparr>));
     sbi_open io popcnt (if sbi_track it2 then it2\<lparr>sbi_prev_attr := PrevStored\<rparr> else it2)
   }"

partial_function (option) sbi_scan_blocks :: "'i index_in \<Rightarrow> u32 \<Rightarrow> 'i sparse_it \<Rightarrow> 'i sparse_it option" where
  "sbi_scan_blocks io target it = do {
     s \<leftarrow> in_seek io (sbi_cont_begin it) (sbi_in it);
     it1 \<leftarrow> sbi_read_block_header io (it\<lparr>sbi_in := s\<rparr>);
     if sbi_block it1 < target then sbi_scan_blocks io target it1 else Some it1
   }"

declare sbi_scan_blocks.simps [code]

definition kBlockScanThreshold :: u32 where "kBlockScanThreshold = 2"

definition sbi_seek_to_block :: "'i index_in \<Rightarrow> u32 \<Rightarrow> 'i sparse_it \<Rightarrow> 'i sparse_it option" where
  "sbi_seek_to_block io target it =
     (let target_block = target div 65536 in
      if sbi_blocks it \<noteq> [] \<and> sbi_block it div 65536 + kBlockScanThreshold \<le> target_block then
        let offset = min (unat target_block) (length (sbi_blocks it) - 1); block = sbi_blocks it ! offset
        in do {
          s \<leftarrow> in_seek io (sbi_origin it + unat (sbk_offset block)) (sbi_in it);
          sbi_read_block_header io (it\<lparr>sbi_index_max := sbk_index block, sbi_in := s\<rparr>)
        }
      else sbi_scan_blocks io target it)"

text \<open>
  \<open>seek\<close>, with the function behind \<open>seek_func_\<close> as a parameter: \<open>initial_seek\<close> reads the first header and
  seeks again, when \<open>seek_func_\<close> is a container's.
\<close>

definition sbi_seek_by ::
  "'i index_in \<Rightarrow> (u32 \<Rightarrow> 'i sparse_it \<Rightarrow> (bool \<times> 'i sparse_it) option) \<Rightarrow> u32 \<Rightarrow> 'i sparse_it \<Rightarrow> (u32 \<times> 'i sparse_it) option" where
  "sbi_seek_by io call target it =
     (if target \<le> sbi_doc it then Some (sbi_doc it, it)
      else do {
        let target_block = target AND 0xFFFF0000;
        it1 \<leftarrow> (if sbi_block it < target_block then sbi_seek_to_block io target_block it else Some it);
        (found, it2) \<leftarrow> (if sbi_block it1 = target_block then call target it1 else Some (False, it1));
        if found then Some (sbi_doc it2, it2)
        else do {
          it3 \<leftarrow> (if sbi_block it1 = target_block then sbi_read_block_header io it2 else Some it2);
          (_, it4) \<leftarrow> call (sbi_block it3) it3;
          Some (sbi_doc it4, it4)
        }
      })"

definition sbi_call :: "'i index_in \<Rightarrow> u32 \<Rightarrow> 'i sparse_it \<Rightarrow> (bool \<times> 'i sparse_it) option" where
  "sbi_call io target it =
     (case sbi_seek_func it of
        InitialSeek \<Rightarrow>
          if sbi_doc it \<noteq> 0 \<or> target AND 0xFFFF0000 \<noteq> 0 then None
          else do {
            it1 \<leftarrow> sbi_read_block_header io it;
            (_, it2) \<leftarrow> sbi_seek_by io (sbi_container io) target it1;
            Some (True, it2)
          }
      | _ \<Rightarrow> sbi_container io target it)"

definition sbi_seek :: "'i index_in \<Rightarrow> u32 \<Rightarrow> 'i sparse_it \<Rightarrow> (u32 \<times> 'i sparse_it) option" where
  "sbi_seek io target it = sbi_seek_by io (sbi_call io) target it"

definition sbi_next :: "'i index_in \<Rightarrow> 'i sparse_it \<Rightarrow> (bool \<times> 'i sparse_it) option" where
  "sbi_next io it = map_option (\<lambda>(d, it1). (d \<noteq> - 1, it1)) (sbi_seek io (sbi_doc it + 1) it)"

definition sbi_reset :: "'i index_in \<Rightarrow> 'i sparse_it \<Rightarrow> 'i sparse_it option" where
  "sbi_reset io it = do {
     s \<leftarrow> in_seek io (sbi_origin it) (sbi_in it);
     Some (it\<lparr>sbi_in := s, sbi_doc := 0, sbi_seek_func := InitialSeek, sbi_cont_begin := sbi_origin it, sbi_index_max := 0\<rparr>)
   }"

definition sbi_ops :: "'i index_in \<Rightarrow> 'i sparse_it doc_ops" where
  "sbi_ops io = \<lparr>value_of = (\<lambda>it. unat (sbi_doc it)), next_of = sbi_next io,
     seek_of = (\<lambda>t it. map_option (\<lambda>(d, it1). (unat d, it1)) (sbi_seek io (of_nat t) it))\<rparr>"

section \<open>Words of documents\<close>

lemma bit_small: "i < 2 ^ k \<Longrightarrow> bit (of_nat i :: u32) n \<Longrightarrow> n < k"
proof (rule ccontr)
  assume i: "i < 2 ^ k" and b: "bit (of_nat i :: u32) n" and n: "\<not> n < k"
  have "bit i n" using b by (simp add: bit_simps)
  moreover have "i div 2 ^ n = 0" using i n by (metis div_less leI order_less_le_trans power_increasing one_le_numeral)
  ultimately show False by (simp add: bit_iff_odd)
qed

lemma bit_block: "bit (of_nat (65536 * b) :: u32) n \<Longrightarrow> 16 \<le> n"
proof -
  have "of_nat (65536 * b) = push_bit 16 (of_nat b :: u32)" by (simp add: push_bit_eq_mult mult.commute)
  then show "bit (of_nat (65536 * b) :: u32) n \<Longrightarrow> 16 \<le> n" by (simp add: bit_simps)
qed

lemma or_block: "i < 65536 \<Longrightarrow> (of_nat (65536 * b) :: u32) OR of_nat i = of_nat (65536 * b + i)"
  using disjunctive_add [of "of_nat (65536 * b) :: u32" "of_nat i"] bit_block [of b] bit_small [of i 16] by force

lemma and_low: "(x :: u32) AND 0xFFFF = of_nat (unat x mod 65536)"
proof -
  have "x AND 0xFFFF = take_bit 16 x" by (simp add: take_bit_eq_mask mask_eq_exp_minus_1)
  moreover have "unat (take_bit 16 x) = unat x mod 65536" by (simp add: take_bit_eq_mod unat_mod)
  moreover have "take_bit 16 x = (of_nat (unat (take_bit 16 x)) :: u32)" by (simp del: take_bit_of_nat of_nat_take_bit)
  ultimately show ?thesis by metis
qed

lemma and_high: "(x :: u32) AND 0xFFFF0000 = of_nat (65536 * (unat x div 65536))"
proof -
  have m: "(0xFFFF0000 :: u32) = push_bit 16 (mask 16)" by (simp add: mask_eq_exp_minus_1 push_bit_eq_mult)
  have "x AND push_bit 16 (mask 16) = push_bit 16 (drop_bit 16 x)"
    by (rule bit_word_eqI) (auto simp: bit_simps)
  moreover have "unat (drop_bit 16 x) = unat x div 65536" by (simp add: drop_bit_eq_div unat_div)
  moreover have "drop_bit 16 x = (of_nat (unat (drop_bit 16 x)) :: u32)" by simp
  ultimately have "x AND push_bit 16 (mask 16) = push_bit 16 (of_nat (unat x div 65536))" by metis
  then show ?thesis unfolding m by (simp add: push_bit_eq_mult mult.commute)
qed

lemma unat_doc: "b < 65536 \<Longrightarrow> i < 65536 \<Longrightarrow> unat (of_nat (65536 * b + i) :: u32) = 65536 * b + i"
  unfolding unat_of_nat by (intro mod_less) simp

lemma block_mask: "b < 65536 \<Longrightarrow> (of_nat (65536 * b) :: u32) AND 0xFFFF0000 = of_nat (65536 * b)"
  using unat_doc [of b 0] by (simp add: and_high)

section \<open>The state of a container\<close>

text \<open>
  The iterator has a container open: block \<open>b\<close> with the words \<open>ws\<close>; the offsets below \<open>p\<close> are behind it, \<open>R\<close> is what follows
  the container in the file. Short values with the top bit set are only read back right from a buffer, or as the sentinel.
\<close>

definition sb_signed :: "nat \<Rightarrow> u64 list \<Rightarrow> bool" where
  "sb_signed b ws \<longleftrightarrow> (\<forall>i\<in>words_set ws. i < 32768 \<or> b = 65535 \<and> i = 65535)"

definition sb_list :: "u64 list \<Rightarrow> nat \<Rightarrow> u8 list" where
  "sb_list ws p = concat (map (write_u16 \<circ> of_nat) (sorted_list_of_set {i \<in> words_set ws. p \<le> i}))"

definition sparse_at ::
  "(u8 list \<Rightarrow> 'i \<Rightarrow> bool) \<Rightarrow> ('i \<Rightarrow> u8 list) \<Rightarrow> u8 list \<Rightarrow> u8 list \<Rightarrow> nat \<Rightarrow> u64 list \<Rightarrow> access \<Rightarrow> nat \<Rightarrow> 'i sparse_it \<Rightarrow> bool" where
  "sparse_at stream rest f R b ws access p it \<longleftrightarrow> stream f (sbi_in it) \<and>
     sbi_sparse_index it = sbi_index it + of_nat (card {i \<in> words_set ws. i < p}) \<and>
     sbi_index_max it = sbi_index it + of_nat (popcount_range ws) \<and>
     (case access of
        AtStream \<Rightarrow> rest (sbi_in it) = sb_list ws p @ R \<and> sb_signed b ws
      | AtDirect \<Rightarrow> drop (sbi_pos it) (sbi_data it) = sb_list ws p \<and> rest (sbi_in it) = R)"

definition dense_bytes ::
  "(u8 list \<Rightarrow> 'i \<Rightarrow> bool) \<Rightarrow> ('i \<Rightarrow> u8 list) \<Rightarrow> u8 list \<Rightarrow> u8 list \<Rightarrow> u64 list \<Rightarrow> access \<Rightarrow> nat \<Rightarrow> 'i sparse_it \<Rightarrow> bool" where
  "dense_bytes stream rest f R ws access q it \<longleftrightarrow> stream f (sbi_in it) \<and>
     (case access of
        AtStream \<Rightarrow> rest (sbi_in it) = concat (map write_u64 (drop q ws)) @ R
      | AtDirect \<Rightarrow> sbi_data it = concat (map write_u64 ws) \<and> sbi_pos it = 8 * q \<and> rest (sbi_in it) = R)"

definition dense_at ::
  "(u8 list \<Rightarrow> 'i \<Rightarrow> bool) \<Rightarrow> ('i \<Rightarrow> u8 list) \<Rightarrow> u8 list \<Rightarrow> u8 list \<Rightarrow> u64 list \<Rightarrow> access \<Rightarrow> int \<Rightarrow> 'i sparse_it \<Rightarrow> bool" where
  "dense_at stream rest f R ws access idx it \<longleftrightarrow> length ws = kNumBlocks \<and> sbi_word_idx it = idx \<and>
     - 1 \<le> idx \<and> idx < int kNumBlocks \<and> (0 \<le> idx \<longrightarrow> sbi_word it = ws ! nat idx) \<and>
     sbi_popcnt it = sbi_index it + of_nat (popcount_range (take (nat (idx + 1)) ws)) \<and>
     (\<forall>d. sbi_block_data it = Some d \<longrightarrow> d = dense_index kDenseBlockIndexNumBlocks 0 ws) \<and>
     dense_bytes stream rest f R ws access (nat (idx + 1)) it"

definition container_at ::
  "(u8 list \<Rightarrow> 'i \<Rightarrow> bool) \<Rightarrow> ('i \<Rightarrow> u8 list) \<Rightarrow> u8 list \<Rightarrow> u8 list \<Rightarrow> nat \<Rightarrow> u64 list \<Rightarrow> nat \<Rightarrow> 'i sparse_it \<Rightarrow> bool" where
  "container_at stream rest f R b ws p it \<longleftrightarrow>
     (case sbi_seek_func it of
        InitialSeek \<Rightarrow> False
      | RangeSeek track \<Rightarrow> stream f (sbi_in it) \<and> rest (sbi_in it) = R \<and> popcount_range ws = kBlockSize \<and> track = sbi_track it \<and>
          sbi_missing it = sbi_block it - sbi_index it
      | SparseSeek access track \<Rightarrow> sparse_at stream rest f R b ws access p it \<and> track = sbi_track it
      | DenseSeek access track \<Rightarrow> dense_at stream rest f R ws access (if p = 0 then - 1 else int ((p - 1) div 64)) it \<and>
          (track \<longrightarrow> sbi_track it) \<and> kBitSetThreshold < popcount_range ws \<and> popcount_range ws \<noteq> kBlockSize) \<and>
     unat (sbi_block it) = kBlockSize * b \<and> b < kBlockSize \<and> length ws = kNumBlocks \<and> unat (sbi_index it) + popcount_range ws < 2 ^ 32 \<and>
     (p \<noteq> 0 \<longrightarrow> p - 1 \<in> words_set ws \<and> unat (sbi_doc it) = kBlockSize * b + (p - 1))"

text \<open>The previous document, when it is tracked; \<open>prev0\<close> is the one before the container.\<close>

definition sb_prev :: "nat \<Rightarrow> u64 list \<Rightarrow> nat \<Rightarrow> nat \<Rightarrow> nat" where
  "sb_prev b ws prev0 v = (if {i \<in> words_set ws. i < v} = {} then prev0 else kBlockSize * b + Max {i \<in> words_set ws. i < v})"

definition prev_at :: "nat \<Rightarrow> u64 list \<Rightarrow> nat \<Rightarrow> nat \<Rightarrow> 'i sparse_it \<Rightarrow> bool" where
  "prev_at b ws prev0 p it \<longleftrightarrow> (sbi_track it \<longrightarrow>
     (case sbi_prev_attr it of
        NoPrev \<Rightarrow> False
      | PrevStored \<Rightarrow> unat (sbi_prev it) = sb_prev b ws prev0 (p - 1) \<and>
          (\<forall>access track. sbi_seek_func it = DenseSeek access track \<longrightarrow> track \<and> {i \<in> words_set ws. i < p - 1} = {})
      | PrevScan access \<Rightarrow> sbi_seek_func it = DenseSeek access False \<and> p \<noteq> 0 \<and> {i \<in> words_set ws. i < p - 1} \<noteq> {}))"

text \<open>What a container's function leaves alone.\<close>

definition same_block :: "'i sparse_it \<Rightarrow> 'i sparse_it \<Rightarrow> bool" where
  "same_block it it' \<longleftrightarrow> sbi_block it' = sbi_block it \<and> sbi_index it' = sbi_index it \<and> sbi_index_max it' = sbi_index_max it \<and>
     sbi_cont_begin it' = sbi_cont_begin it \<and> sbi_origin it' = sbi_origin it \<and> sbi_blocks it' = sbi_blocks it \<and>
     sbi_use_block_index it' = sbi_use_block_index it \<and> sbi_prev_written it' = sbi_prev_written it \<and> sbi_track it' = sbi_track it"

definition container_found ::
  "(u8 list \<Rightarrow> 'i \<Rightarrow> bool) \<Rightarrow> ('i \<Rightarrow> u8 list) \<Rightarrow> u8 list \<Rightarrow> u8 list \<Rightarrow> nat \<Rightarrow> u64 list \<Rightarrow> nat \<Rightarrow> nat \<Rightarrow> 'i sparse_it \<Rightarrow> 'i sparse_it \<Rightarrow> bool" where
  "container_found stream rest f R b ws prev0 v it it' \<longleftrightarrow> container_at stream rest f R b ws (v + 1) it' \<and> prev_at b ws prev0 (v + 1) it' \<and>
     sbi_doc it' = of_nat (kBlockSize * b + v) \<and> sbi_value_index it' = sbi_index it + of_nat (card {i \<in> words_set ws. i < v}) \<and>
     same_block it it'"

text \<open>The first offset from \<open>t\<close> on, if there is one.\<close>

definition next_in :: "u64 list \<Rightarrow> nat \<Rightarrow> nat \<Rightarrow> bool" where
  "next_in ws t v \<longleftrightarrow> v \<in> words_set ws \<and> t \<le> v \<and> (\<forall>i\<in>words_set ws. t \<le> i \<longrightarrow> v \<le> i)"

definition container_result ::
  "(u8 list \<Rightarrow> 'i \<Rightarrow> bool) \<Rightarrow> ('i \<Rightarrow> u8 list) \<Rightarrow> u8 list \<Rightarrow> u8 list \<Rightarrow> nat \<Rightarrow> u64 list \<Rightarrow> nat \<Rightarrow> nat \<Rightarrow> 'i sparse_it \<Rightarrow> bool \<Rightarrow> 'i sparse_it \<Rightarrow> bool" where
  "container_result stream rest f R b ws prev0 t it found it' \<longleftrightarrow>
     (if found then \<exists>v. next_in ws t v \<and> container_found stream rest f R b ws prev0 v it it'
      else (\<forall>i\<in>words_set ws. i < t) \<and> stream f (sbi_in it') \<and> rest (sbi_in it') = R \<and> same_block it it' \<and> sbi_doc it' = sbi_doc it)"

section \<open>Facts on the offsets of a container\<close>

lemma next_in_exists: "\<not> (\<forall>i\<in>words_set ws. i < t) \<Longrightarrow> \<exists>v. next_in ws t v"
proof -
  assume "\<not> (\<forall>i\<in>words_set ws. i < t)"
  then have "{i \<in> words_set ws. t \<le> i} \<noteq> {}" by (auto simp: not_less)
  then have "Min {i \<in> words_set ws. t \<le> i} \<in> {i \<in> words_set ws. t \<le> i}" by (intro Min_in) auto
  then have "next_in ws t (Min {i \<in> words_set ws. t \<le> i})" by (auto simp: next_in_def intro!: Min_le)
  then show ?thesis by blast
qed

lemma card_below_Suc: "v \<in> words_set ws \<Longrightarrow> card {i \<in> words_set ws. i < Suc v} = card {i \<in> words_set ws. i < v} + 1"
proof -
  assume v: "v \<in> words_set ws"
  have "{i \<in> words_set ws. i < Suc v} = insert v {i \<in> words_set ws. i < v}" using v by auto
  then show ?thesis by simp
qed

lemma card_below_le: "card {i \<in> words_set ws. i < v} \<le> popcount_range ws"
  unfolding popcount_range_card by (intro card_mono) auto

lemma card_below_same: "p \<le> v \<Longrightarrow> (\<forall>i\<in>words_set ws. p \<le> i \<longrightarrow> v \<le> i) \<Longrightarrow> {i \<in> words_set ws. i < v} = {i \<in> words_set ws. i < p}"
  by (auto simp: not_le [symmetric])

lemma card_below_0: "card {i \<in> words_set ws. i < v} = 0 \<longleftrightarrow> {i \<in> words_set ws. i < v} = {}"
  by simp

lemma full_words: "length ws = kNumBlocks \<Longrightarrow> popcount_range ws = kBlockSize \<Longrightarrow> words_set ws = {..<kBlockSize}"
  by (intro card_subset_eq) (auto simp: popcount_range_card dest: words_set_less)

lemma index_offset:
  "unat (a :: u32) + n < 2 ^ 32 \<Longrightarrow> k \<le> n \<Longrightarrow> unat (a + of_nat k) = unat a + k"
proof -
  assume "unat a + n < 2 ^ 32" "k \<le> n"
  then have k: "unat a + k < 2 ^ 32" by simp
  then have "unat (of_nat k :: u32) = k" unfolding unat_of_nat by (intro mod_less) simp
  then show ?thesis using k by (simp add: unat_word_ariths)
qed

lemma index_differs: "unat (a :: u32) + n < 2 ^ 32 \<Longrightarrow> k \<le> n \<Longrightarrow> a + of_nat k \<noteq> a \<longleftrightarrow> k \<noteq> 0"
  using index_offset [of a n k] by (cases "k = 0") auto

section \<open>Full and sparse containers\<close>

lemma block_word: "unat (c :: u32) = n \<Longrightarrow> c = of_nat n"
  by auto

lemma doc_succ: "p \<noteq> 0 \<Longrightarrow> {i \<in> words_set ws. i < p} = insert (p - 1) {i \<in> words_set ws. i < p - 1} \<or> p - 1 \<notin> words_set ws"
  by auto

lemma card_below_all: "card {i \<in> words_set ws. i < p} < popcount_range ws \<longleftrightarrow> \<not> (\<forall>i\<in>words_set ws. i < p)"
proof -
  have "card {i \<in> words_set ws. i < p} < card (words_set ws) \<longleftrightarrow> {i \<in> words_set ws. i < p} \<noteq> words_set ws"
    by (metis (no_types, lifting) card_subset_eq finite_words_set less_irrefl linorder_neqE_nat mem_Collect_eq not_less subsetI card_mono)
  then show ?thesis by (auto simp: popcount_range_card)
qed

lemma sb_list_next: "next_in ws p v \<Longrightarrow> sb_list ws p = write_u16 (of_nat v) @ sb_list ws (v + 1)"
  unfolding sb_list_def next_in_def using sorted_from [of v "words_set ws" p] by simp

lemma sb_list_end: "\<forall>i\<in>words_set ws. i < p \<Longrightarrow> sb_list ws p = []"
proof -
  assume "\<forall>i\<in>words_set ws. i < p"
  then have "{i \<in> words_set ws. p \<le> i} = {}" by auto
  then show ?thesis unfolding sb_list_def by (metis concat.simps(1) list.map(1) sorted_list_of_set_empty)
qed

lemma below_next: "next_in ws p v \<Longrightarrow> {i \<in> words_set ws. i < v} = {i \<in> words_set ws. i < p}"
  unfolding next_in_def by (auto simp: not_le [symmetric])

context index_source
begin

lemma range_correct:
  assumes "container_at stream rest f R b ws p it" "sbi_seek_func it = RangeSeek track" "prev_at b ws prev0 p it" "p \<le> t" "t < kBlockSize"
  shows "\<exists>found it'. sbi_range_seek track (of_nat (kBlockSize * b + t)) it = (found, it') \<and>
    container_result stream rest f R b ws prev0 t it found it'"
proof -
  have c: "stream f (sbi_in it)" "rest (sbi_in it) = R" "popcount_range ws = kBlockSize" "track = sbi_track it"
    "sbi_missing it = sbi_block it - sbi_index it" "unat (sbi_block it) = kBlockSize * b" "b < kBlockSize" "length ws = kNumBlocks"
    "unat (sbi_index it) + popcount_range ws < 2 ^ 32" using assms(1,2) by (simp_all add: container_at_def)
  have S: "words_set ws = {..<kBlockSize}" using full_words [OF c(8,3)] .
  have below: "{i \<in> words_set ws. i < t} = {..<t}" unfolding S using assms(5) by auto
  have blk: "sbi_block it = of_nat (kBlockSize * b)" using c(6) block_word by blast
  let ?d = "of_nat (kBlockSize * b + t) :: u32"
  have ud: "unat ?d = kBlockSize * b + t" using unat_doc [of b t] c(7) assms(5) by (simp add: kBlockSize_def)
  have idx: "?d - sbi_missing it = sbi_index it + of_nat t" unfolding c(5) blk by simp
  have ne: "?d - sbi_missing it \<noteq> sbi_index it \<longleftrightarrow> t \<noteq> 0"
    unfolding idx using index_differs [of "sbi_index it" kBlockSize t] c(3,9) assms(5) by simp
  let ?it1 = "it\<lparr>sbi_doc := ?d, sbi_value_index := ?d - sbi_missing it\<rparr>"
  let ?it' = "if track \<and> t \<noteq> 0 then ?it1\<lparr>sbi_prev := ?d - 1\<rparr> else ?it1"
  have r: "sbi_range_seek track ?d it = (True, ?it')" using ne by (simp add: sbi_range_seek_def Let_def)
  have nx: "next_in ws t t" using S assms(5) by (simp add: next_in_def)
  have at: "container_at stream rest f R b ws (t + 1) ?it'"
    using assms(1,2,5) S ud by (simp add: container_at_def)
  have pr: "prev_at b ws prev0 (t + 1) ?it'"
  proof (cases "track")
    case True
    then have old: "sbi_prev_attr it = PrevStored" "unat (sbi_prev it) = sb_prev b ws prev0 (p - 1)"
      using assms(2,3) c(4) by (auto simp: prev_at_def split: prev_attr.splits)
    show ?thesis
    proof (cases "t = 0")
      case True
      then show ?thesis using old assms(2,4) by (simp add: prev_at_def sb_prev_def)
    next
      case False
      have "?d \<noteq> 0" using ud False by auto
      then have "unat (?d - 1) = kBlockSize * b + (t - 1)" using unat_minus_one [of ?d] ud False by simp
      moreover have "Max {..<t} = t - 1" using False by (intro Max_eqI) auto
      ultimately show ?thesis using old(1) assms(2) \<open>track\<close> False below by (simp add: prev_at_def sb_prev_def lessThan_empty_iff)
    qed
  next
    case False
    then show ?thesis using c(4) by (simp add: prev_at_def)
  qed
  have "container_found stream rest f R b ws prev0 t it ?it'"
    using at pr idx below by (simp add: container_found_def same_block_def)
  then have "container_result stream rest f R b ws prev0 t it True ?it'"
    unfolding container_result_def using nx by (simp only: if_True) blast
  with r show ?thesis by blast
qed

text \<open>Reading the next value: it is widened to the offset, or it is the sentinel.\<close>

lemma read_short_correct:
  assumes "sparse_at stream rest f R b ws access p it" "next_in ws p v" "length ws = kNumBlocks" "b < kBlockSize"
  shows "\<exists>x it1. sbi_read_short io access it = Some (x, it1) \<and> sparse_at stream rest f R b ws access (v + 1) (it1\<lparr>sbi_sparse_index := sbi_sparse_index it1 + 1\<rparr>) \<and>
    of_nat (kBlockSize * b) OR x = (of_nat (kBlockSize * b + v) :: u32) \<and> (\<forall>t<kBlockSize. of_nat t \<le> x \<longleftrightarrow> t \<le> v) \<and>
    (\<exists>s q. it1 = it\<lparr>sbi_in := s, sbi_pos := q\<rparr>)"
proof -
  have v: "v \<in> words_set ws" "v < kBlockSize" using assms(2,3) words_set_less by (auto simp: next_in_def)
  have u16: "unat (of_nat v :: u16) = v" unfolding unat_of_nat using v(2) by (intro mod_less) (simp add: kBlockSize_def)
  have card: "card {i \<in> words_set ws. i < v + 1} = card {i \<in> words_set ws. i < p} + 1"
    using card_below_Suc [OF v(1)] below_next [OF assms(2)] by simp
  note list = sb_list_next [OF assms(2)]
  show ?thesis
  proof (cases access)
    case AtDirect
    then have d: "drop (sbi_pos it) (sbi_data it) = write_u16 (of_nat v) @ sb_list ws (v + 1)" using assms(1) list by (simp add: sparse_at_def)
    then have "drop 2 (drop (sbi_pos it) (sbi_data it)) = sb_list ws (v + 1)" by (simp add: write_u16_def)
    then have "drop (sbi_pos it + 2) (sbi_data it) = sb_list ws (v + 1)" by (simp add: add.commute)
    moreover have "read_u16 (drop (sbi_pos it) (sbi_data it)) = Some (of_nat v, sb_list ws (v + 1))"
      unfolding d by (rule read_write_u16)
    moreover have x: "ucast (of_nat v :: u16) = (of_nat v :: u32)" using u16 by (metis of_nat_unat)
    moreover have "of_nat t \<le> (of_nat v :: u32) \<longleftrightarrow> t \<le> v" if "t < kBlockSize" for t
      using that v(2) unat_doc [of 0 t] unat_doc [of 0 v] by (simp add: word_le_nat_alt kBlockSize_def)
    ultimately show ?thesis using AtDirect assms(1) card or_block [of v b] v(2)
      by (intro exI [of _ "of_nat v"] exI [of _ "it\<lparr>sbi_pos := sbi_pos it + 2\<rparr>"])
        (auto simp: sbi_read_short_def sparse_at_def kBlockSize_def intro!: exI [of _ "sbi_in it"])
  next
    case AtStream
    then have "stream f (sbi_in it)" "rest (sbi_in it) = write_u16 (of_nat v) @ (sb_list ws (v + 1) @ R)"
      and sg: "v < 32768 \<or> b = 65535 \<and> v = 65535" using assms(1) list v(1) by (auto simp: sparse_at_def sb_signed_def)
    then obtain s where s: "in_short io (sbi_in it) = Some (of_nat v, s)" "stream f s" "rest s = sb_list ws (v + 1) @ R"
      using short_at by blast
    have x: "of_nat (kBlockSize * b) OR scast (of_nat v :: u16) = (of_nat (kBlockSize * b + v) :: u32) \<and>
        (\<forall>t<kBlockSize. of_nat t \<le> (scast (of_nat v :: u16) :: u32) \<longleftrightarrow> t \<le> v)"
    proof (cases "v < 32768")
      case True
      have "scast (of_nat v :: u16) = (of_nat v :: u32)"
      proof -
        have "sint (of_nat v :: u16) = int v"
          using True by (simp add: sint_uint signed_take_bit_int_eq_self u16 uint_nat)
        then show ?thesis by (metis of_int_of_nat_eq of_int_sint)
      qed
      moreover have "of_nat t \<le> (of_nat v :: u32) \<longleftrightarrow> t \<le> v" if "t < kBlockSize" for t
        using that v(2) unat_doc [of 0 t] unat_doc [of 0 v] by (simp add: word_le_nat_alt kBlockSize_def)
      ultimately show ?thesis using or_block [of v b] v(2) by (simp add: kBlockSize_def)
    next
      case False
      then have e: "b = 65535" "v = 65535" using sg by auto
      have "scast (of_nat v :: u16) = (- 1 :: u32)" unfolding e by simp
      moreover have "(of_nat (65536 * 65535 + 65535) :: u32) = - 1" by simp
      ultimately show ?thesis using e by (simp add: kBlockSize_def del: of_nat_numeral)
    qed
    then show ?thesis using AtStream assms(1) card s
      by (intro exI [of _ "scast (of_nat v :: u16)"] exI [of _ "it\<lparr>sbi_in := s\<rparr>"])
        (auto simp: sbi_read_short_def sparse_at_def intro!: exI [of _ s] exI [of _ "sbi_pos it"])
  qed
qed

lemma sparse_loop_correct:
  assumes "sparse_at stream rest f R b ws access p it" "length ws = kNumBlocks" "b < kBlockSize"
    and "sbi_block it = of_nat (kBlockSize * b)" "unat (sbi_index it) + popcount_range ws < 2 ^ 32" "p \<le> t" "t < kBlockSize"
    and "track \<and> {i \<in> words_set ws. i < p} \<noteq> {} \<longrightarrow>
      of_nat (kBlockSize * b) OR prev = (of_nat (kBlockSize * b + Max {i \<in> words_set ws. i < p}) :: u32)"
  shows "\<exists>found it'. sbi_sparse_loop io access track (of_nat t) prev it = Some (found, it') \<and> same_block it it' \<and>
    sbi_seek_func it' = sbi_seek_func it \<and> sbi_prev_attr it' = sbi_prev_attr it \<and>
    (if found then \<exists>v. next_in ws t v \<and> sparse_at stream rest f R b ws access (v + 1) it' \<and>
        sbi_doc it' = of_nat (kBlockSize * b + v) \<and> sbi_value_index it' = sbi_index it + of_nat (card {i \<in> words_set ws. i < v}) \<and>
        sbi_prev it' = (if track \<and> {i \<in> words_set ws. i < v} \<noteq> {} then of_nat (kBlockSize * b + Max {i \<in> words_set ws. i < v}) else sbi_prev it)
     else (\<forall>i\<in>words_set ws. i < t) \<and> stream f (sbi_in it') \<and> rest (sbi_in it') = R \<and> sbi_doc it' = sbi_doc it)"
  using assms
proof (induction "card {i \<in> words_set ws. p \<le> i}" arbitrary: p prev it rule: less_induct)
  case less
  let ?S = "words_set ws" and ?base = "of_nat (kBlockSize * b) :: u32"
  have idx: "sbi_sparse_index it = sbi_index it + of_nat (card {i \<in> ?S. i < p})" "sbi_index_max it = sbi_index it + of_nat (popcount_range ws)"
    using less.prems(1) by (simp_all add: sparse_at_def)
  have lt: "sbi_sparse_index it < sbi_index_max it \<longleftrightarrow> \<not> (\<forall>i\<in>?S. i < p)"
    unfolding idx word_less_nat_alt card_below_all [symmetric]
    using index_offset [OF less.prems(5) card_below_le [of ws p]] index_offset [OF less.prems(5) order.refl] by simp
  show ?case
  proof (cases "\<forall>i\<in>?S. i < p")
    case True
    then have "sbi_sparse_loop io access track (of_nat t) prev it = Some (False, it)"
      using lt by (subst sbi_sparse_loop.simps) simp
    moreover have "stream f (sbi_in it)" "rest (sbi_in it) = R"
      using less.prems(1) sb_list_end [OF True] by (auto simp: sparse_at_def split: access.splits)
    moreover have "\<forall>i\<in>?S. i < t" using True less.prems(6) by fastforce
    ultimately show ?thesis by (intro exI [of _ False] exI [of _ it]) (simp add: same_block_def)
  next
    case False
    then obtain v where v: "next_in ws p v" using next_in_exists by blast
    obtain x it1 where r: "sbi_read_short io access it = Some (x, it1)"
      "sparse_at stream rest f R b ws access (v + 1) (it1\<lparr>sbi_sparse_index := sbi_sparse_index it1 + 1\<rparr>)"
      "?base OR x = of_nat (kBlockSize * b + v)" "\<forall>t<kBlockSize. of_nat t \<le> x \<longleftrightarrow> t \<le> v" "\<exists>s q. it1 = it\<lparr>sbi_in := s, sbi_pos := q\<rparr>"
      using read_short_correct [OF less.prems(1) v less.prems(2,3)] by blast
    have vS: "v \<in> ?S" "p \<le> v" using v by (auto simp: next_in_def)
    have same: "sbi_block it1 = ?base" "sbi_index it1 = sbi_index it" "sbi_sparse_index it1 = sbi_sparse_index it" "sbi_seek_func it1 = sbi_seek_func it"
      "sbi_prev_attr it1 = sbi_prev_attr it" "sbi_prev it1 = sbi_prev it" "sbi_doc it1 = sbi_doc it" "same_block it it1"
      using r(5) less.prems(4) by (auto simp: same_block_def)
    have below: "{i \<in> ?S. i < v} = {i \<in> ?S. i < p}" using below_next [OF v] .
    have first: "sbi_sparse_index it1 \<noteq> sbi_index it1 \<longleftrightarrow> {i \<in> ?S. i < v} \<noteq> {}"
      using index_differs [OF less.prems(5) card_below_le [of ws p]] same(2,3) idx(1) below by simp
    show ?thesis
    proof (cases "t \<le> v")
      case True
      let ?it2 = "it1\<lparr>sbi_doc := sbi_block it1 OR x, sbi_value_index := sbi_sparse_index it1\<rparr>"
      let ?it3 = "if track \<and> {i \<in> ?S. i < v} \<noteq> {} then ?it2\<lparr>sbi_prev := sbi_block it1 OR prev\<rparr> else ?it2"
      let ?it4 = "?it3\<lparr>sbi_sparse_index := sbi_sparse_index it1 + 1\<rparr>"
      have "of_nat t \<le> x" using r(4) less.prems(7) True by blast
      moreover have "sbi_sparse_index it < sbi_index_max it" using lt False by blast
      ultimately have "sbi_sparse_loop io access track (of_nat t) prev it = Some (True, ?it4)"
        using r(1) first by (subst sbi_sparse_loop.simps) (auto simp: Let_def)
      moreover have "sparse_at stream rest f R b ws access (v + 1) ?it4" using r(2) by (cases access) (simp_all add: sparse_at_def)
      moreover have "next_in ws t v" using v True less.prems(6) by (auto simp: next_in_def)
      moreover have "sbi_prev ?it4 = (if track \<and> {i \<in> ?S. i < v} \<noteq> {} then of_nat (kBlockSize * b + Max {i \<in> ?S. i < v}) else sbi_prev it)"
        using less.prems(8) same(1,6) unfolding below by auto
      moreover have "sbi_doc ?it4 = of_nat (kBlockSize * b + v)" using r(3) same(1) by simp
      moreover have "sbi_value_index ?it4 = sbi_index it + of_nat (card {i \<in> ?S. i < v})" using same(3) idx(1) below by simp
      moreover have "same_block it ?it4" "sbi_seek_func ?it4 = sbi_seek_func it" "sbi_prev_attr ?it4 = sbi_prev_attr it"
        using same by (simp_all add: same_block_def)
      ultimately show ?thesis by (intro exI [of _ True] exI [of _ ?it4]) (simp only: if_True, blast)
    next
      case before: False
      let ?it2 = "it1\<lparr>sbi_sparse_index := sbi_sparse_index it1 + 1\<rparr>" and ?prev = "if track then x else prev"
      have "\<not> of_nat t \<le> x" using r(4) less.prems(7) before by blast
      moreover have "sbi_sparse_index it < sbi_index_max it" using lt False by blast
      ultimately have step: "sbi_sparse_loop io access track (of_nat t) prev it = sbi_sparse_loop io access track (of_nat t) ?prev ?it2"
        using r(1) by (subst sbi_sparse_loop.simps) simp
      have "Max {i \<in> ?S. i < v + 1} = v" using vS(1) by (intro Max_eqI) auto
      then have pv: "track \<and> {i \<in> ?S. i < v + 1} \<noteq> {} \<longrightarrow> ?base OR ?prev = of_nat (kBlockSize * b + Max {i \<in> ?S. i < v + 1})"
        using r(3) by simp
      have "card {i \<in> ?S. v + 1 \<le> i} < card {i \<in> ?S. p \<le> i}"
      proof (rule psubset_card_mono)
        have "v \<in> {i \<in> ?S. p \<le> i}" "v \<notin> {i \<in> ?S. v + 1 \<le> i}" using vS by auto
        moreover have "{i \<in> ?S. v + 1 \<le> i} \<subseteq> {i \<in> ?S. p \<le> i}" using vS(2) by auto
        ultimately show "{i \<in> ?S. v + 1 \<le> i} \<subset> {i \<in> ?S. p \<le> i}" by blast
      qed simp
      moreover have "sbi_block ?it2 = ?base" "unat (sbi_index ?it2) + popcount_range ws < 2 ^ 32" "v + 1 \<le> t"
        using same(1,2) less.prems(5) before by simp_all
      ultimately obtain found it' where IH: "sbi_sparse_loop io access track (of_nat t) ?prev ?it2 = Some (found, it')" "same_block ?it2 it'"
        "sbi_seek_func it' = sbi_seek_func ?it2" "sbi_prev_attr it' = sbi_prev_attr ?it2"
        "if found then \<exists>v. next_in ws t v \<and> sparse_at stream rest f R b ws access (v + 1) it' \<and>
            sbi_doc it' = of_nat (kBlockSize * b + v) \<and> sbi_value_index it' = sbi_index ?it2 + of_nat (card {i \<in> ?S. i < v}) \<and>
            sbi_prev it' = (if track \<and> {i \<in> ?S. i < v} \<noteq> {} then of_nat (kBlockSize * b + Max {i \<in> ?S. i < v}) else sbi_prev ?it2)
         else (\<forall>i\<in>?S. i < t) \<and> stream f (sbi_in it') \<and> rest (sbi_in it') = R \<and> sbi_doc it' = sbi_doc ?it2"
        using less.hyps [OF _ r(2) less.prems(2,3) _ _ _ less.prems(7) pv] by blast
      have "same_block it it'" using same(8) IH(2) by (simp add: same_block_def)
      moreover have e: "sbi_index ?it2 = sbi_index it" "sbi_prev ?it2 = sbi_prev it" "sbi_doc ?it2 = sbi_doc it"
        "sbi_seek_func ?it2 = sbi_seek_func it" "sbi_prev_attr ?it2 = sbi_prev_attr it" using same by simp_all
      ultimately show ?thesis unfolding step using IH(1) IH(3-5) [unfolded e] by blast
    qed
  qed
qed

lemma sparse_correct:
  assumes "container_at stream rest f R b ws p it" "sbi_seek_func it = SparseSeek access track" "prev_at b ws prev0 p it" "p \<le> t" "t < kBlockSize"
  shows "\<exists>found it'. sbi_sparse_seek io access track (of_nat (kBlockSize * b + t)) it = Some (found, it') \<and>
    container_result stream rest f R b ws prev0 t it found it'"
proof -
  let ?S = "words_set ws"
  have c: "sparse_at stream rest f R b ws access p it" "track = sbi_track it" "unat (sbi_block it) = kBlockSize * b" "b < kBlockSize"
    "length ws = kNumBlocks" "unat (sbi_index it) + popcount_range ws < 2 ^ 32"
    "p \<noteq> 0 \<longrightarrow> p - 1 \<in> ?S \<and> unat (sbi_doc it) = kBlockSize * b + (p - 1)"
    using assms(1,2) by (simp_all add: container_at_def)
  have blk: "sbi_block it = of_nat (kBlockSize * b)" using c(3) block_word by blast
  have low: "(of_nat (kBlockSize * b + t) :: u32) AND 0xFFFF = of_nat t"
    using unat_doc [of b t] c(4) assms(5) by (simp add: and_low kBlockSize_def)
  have pv: "track \<and> {i \<in> ?S. i < p} \<noteq> {} \<longrightarrow> of_nat (kBlockSize * b) OR sbi_doc it = (of_nat (kBlockSize * b + Max {i \<in> ?S. i < p}) :: u32)"
  proof (intro impI)
    assume "track \<and> {i \<in> ?S. i < p} \<noteq> {}"
    then have p: "p \<noteq> 0" by auto
    then have "Max {i \<in> ?S. i < p} = p - 1" using c(7) by (intro Max_eqI) auto
    moreover have "sbi_doc it = of_nat (kBlockSize * b + (p - 1))" using c(7) p block_word by blast
    moreover have "p - 1 < 65536" using c(5,7) p words_set_less by (simp add: kBlockSize_def)
    ultimately show "of_nat (kBlockSize * b) OR sbi_doc it = (of_nat (kBlockSize * b + Max {i \<in> ?S. i < p}) :: u32)"
      using or_block [of "p - 1" b] unfolding kBlockSize_def by (metis or.left_idem)
  qed
  obtain found it' where r: "sbi_sparse_loop io access track (of_nat t) (sbi_doc it) it = Some (found, it')" "same_block it it'"
    "sbi_seek_func it' = sbi_seek_func it" "sbi_prev_attr it' = sbi_prev_attr it"
    "if found then \<exists>v. next_in ws t v \<and> sparse_at stream rest f R b ws access (v + 1) it' \<and>
        sbi_doc it' = of_nat (kBlockSize * b + v) \<and> sbi_value_index it' = sbi_index it + of_nat (card {i \<in> ?S. i < v}) \<and>
        sbi_prev it' = (if track \<and> {i \<in> ?S. i < v} \<noteq> {} then of_nat (kBlockSize * b + Max {i \<in> ?S. i < v}) else sbi_prev it)
     else (\<forall>i\<in>?S. i < t) \<and> stream f (sbi_in it') \<and> rest (sbi_in it') = R \<and> sbi_doc it' = sbi_doc it"
    using sparse_loop_correct [OF c(1,5,4) blk c(6) assms(4,5) pv] by blast
  have "container_result stream rest f R b ws prev0 t it found it'"
  proof (cases found)
    case True
    then obtain v where v: "next_in ws t v" "sparse_at stream rest f R b ws access (v + 1) it'" "sbi_doc it' = of_nat (kBlockSize * b + v)"
      "sbi_value_index it' = sbi_index it + of_nat (card {i \<in> ?S. i < v})"
      "sbi_prev it' = (if track \<and> {i \<in> ?S. i < v} \<noteq> {} then of_nat (kBlockSize * b + Max {i \<in> ?S. i < v}) else sbi_prev it)"
      using r(5) by auto
    have vS: "v \<in> ?S" "t \<le> v" "v < kBlockSize" using v(1) c(5) words_set_less by (auto simp: next_in_def)
    have ud: "unat (sbi_doc it') = kBlockSize * b + v" using v(3) unat_doc [of b v] c(4) vS(3) by (simp add: kBlockSize_def)
    have "container_at stream rest f R b ws (v + 1) it'"
      using v(2) r(2,3) assms(2) c vS(1) ud by (simp add: container_at_def same_block_def)
    moreover have "prev_at b ws prev0 (v + 1) it'"
    proof (cases track)
      case True
      then have old: "sbi_prev_attr it = PrevStored" "unat (sbi_prev it) = sb_prev b ws prev0 (p - 1)"
        using assms(2,3) c(2) by (auto simp: prev_at_def split: prev_attr.splits)
      have "unat (sbi_prev it') = sb_prev b ws prev0 v"
      proof (cases "{i \<in> ?S. i < v} = {}")
        case empty: True
        then have "{i \<in> ?S. i < p - 1} = {}" using vS(2) assms(4) by auto
        then show ?thesis using empty v(5) old(2) by (simp add: sb_prev_def)
      next
        case False
        then have "Max {i \<in> ?S. i < v} \<in> {i \<in> ?S. i < v}" by (intro Max_in) auto
        then have "Max {i \<in> ?S. i < v} < kBlockSize" using vS(3) by simp
        then have "unat (of_nat (kBlockSize * b + Max {i \<in> ?S. i < v}) :: u32) = kBlockSize * b + Max {i \<in> ?S. i < v}"
          using unat_doc [of b] c(4) by (simp add: kBlockSize_def)
        then show ?thesis using False v(5) True by (auto simp: sb_prev_def)
      qed
      then show ?thesis using old(1) r(3,4) assms(2) by (simp add: prev_at_def)
    next
      case False
      then show ?thesis using c(2) r(2) by (simp add: prev_at_def same_block_def)
    qed
    ultimately show ?thesis using True v(1,3,4) r(2) by (auto simp: container_result_def container_found_def)
  next
    case False
    then show ?thesis using r(2,5) by (simp add: container_result_def)
  qed
  then show ?thesis using r(1) unfolding sbi_sparse_seek_def low by blast
qed

end

section \<open>Dense containers\<close>

lemma hton64_load: "bytes_word (write_u64 w) = hton64 w"
  by (simp add: hton64_def rev_word_bytes)

lemma hton64_hton64 [simp]: "hton64 (hton64 w) = w"
proof -
  have "word_bytes (hton64 (hton64 w)) = word_bytes w"
    unfolding hton64_bytes using rev_word_bytes [of "hton64 w"] rev_word_bytes [of w] by (metis hton64_bytes rev_rev_ident)
  then show ?thesis using bytes_word_bytes [of w] bytes_word_bytes [of "hton64 (hton64 w)"] by simp
qed

lemma bit_hton64: "n < 64 \<Longrightarrow> bit (hton64 w) n \<longleftrightarrow> bit w (8 * (7 - n div 8) + n mod 8)"
proof -
  assume n: "n < 64"
  then have q: "n div 8 < 8" by simp
  have "bit (hton64 w) n \<longleftrightarrow> bit (rev (word_bytes w) ! (n div 8)) (n mod 8)" using n q by (simp add: hton64_def bit_bytes_word)
  also have "rev (word_bytes w) ! (n div 8) = word_bytes w ! (7 - n div 8)" using q by (simp add: rev_nth)
  also have "word_bytes w ! k = ucast (drop_bit (8 * k) w)" if "k < 8" for k
    using that nth_upt [of 0 k 8] by (simp add: word_bytes_def)
  then have "word_bytes w ! (7 - n div 8) = ucast (drop_bit (8 * (7 - n div 8)) w)" by simp
  also have "bit \<dots> (n mod 8) \<longleftrightarrow> bit w (8 * (7 - n div 8) + n mod 8)"
    by (simp add: bit_ucast_iff bit_drop_bit_eq)
  finally show ?thesis .
qed

lemma popcount_hton64 [simp]: "popcount_w (hton64 w) = popcount_w w"
proof -
  let ?f = "\<lambda>n. 8 * (7 - n div 8) + n mod 8 :: nat"
  have f: "?f n < 64 \<and> ?f (?f n) = n" if "n < 64" for n
  proof -
    have q: "n div 8 < 8" "n mod 8 < 8" using that by auto
    then have "?f n div 8 = 7 - n div 8" "?f n mod 8 = n mod 8" by simp_all
    then show ?thesis using q by simp
  qed
  have "bij_betw ?f {i. i < 64 \<and> bit (hton64 w) i} {i. i < 64 \<and> bit w i}"
    by (rule bij_betw_byWitness [where f' = ?f]) (use f bit_hton64 [of _ w] bit_hton64 [of "?f _" w] in \<open>auto simp del: add_mult_distrib2\<close>)
  then show ?thesis by (simp add: popcount_w_card bij_betw_same_card)
qed

lemma hton64_eq_0 [simp]: "hton64 w = 0 \<longleftrightarrow> w = 0"
proof -
  have "hton64 0 = 0" by (rule bit_word_eqI) (simp add: bit_hton64)
  then show ?thesis by (metis hton64_hton64)
qed

lemma length_write_u64 [simp]: "length (write_u64 w) = 8"
  by (simp add: write_u64_def write_u32_def)

lemma drop_words: "drop (8 * q) (concat (map write_u64 ws)) = concat (map write_u64 (drop q ws))"
proof (induction ws arbitrary: q)
  case (Cons w ws)
  then show ?case by (cases q) simp_all
qed simp

lemma take_word: "q < length ws \<Longrightarrow> take 8 (drop (8 * q) (concat (map write_u64 ws))) = write_u64 (ws ! q)"
  unfolding drop_words by (simp add: Cons_nth_drop_Suc [symmetric])

text \<open>The entries of the block index.\<close>

lemma fold_popcount: "fold (\<lambda>w p. p + of_nat (popcount_w w)) ws p = p + of_nat (popcount_range ws)"
  by (induction ws arbitrary: p) (simp_all add: add.assoc)

lemma dense_index_entry:
  "j < n \<Longrightarrow> take 2 (drop (2 * j) (dense_index n p ws)) = write_u16 (p + of_nat (popcount_range (take (8 * j) ws)))"
proof (induction n p ws arbitrary: j rule: dense_index.induct)
  case (2 n p ws)
  show ?case
  proof (cases j)
    case 0
    then show ?thesis by (simp add: write_u16_def)
  next
    case (Suc k)
    have "take (8 * Suc k) ws = take 8 ws @ take (8 * k) (drop 8 ws)"
      by (simp add: take_add [symmetric] mult.commute)
    then show ?thesis using 2 Suc
      by (simp add: fold_popcount write_u16_def kDenseBlockIndexWordsPerBlock_def popcount_range_append add.assoc)
  qed
qed simp

lemma swap_u16: "drop_bit 8 (bytes_word (write_u16 v) :: u16) OR push_bit 8 ((bytes_word (write_u16 v) :: u16) AND 0xFF) = v"
proof -
  have m: "(0xFF :: u16) = mask 8" by (simp add: mask_eq_exp_minus_1)
  show ?thesis unfolding m bytes_word_def write_u16_def
    by (rule bit_word_eqI) (auto simp: bit_simps)
qed

section \<open>Seeking in a dense container\<close>

definition raw_word :: "access \<Rightarrow> u64 \<Rightarrow> u64" where
  "raw_word access w = (case access of AtStream \<Rightarrow> w | AtDirect \<Rightarrow> hton64 w)"

lemma raw_word_simps [simp]:
  "raw_word access (raw_word access w) = w" "popcount_w (raw_word access w) = popcount_w w" "raw_word access w = 0 \<longleftrightarrow> w = 0"
  by (cases access; simp add: raw_word_def)+

lemma ntoh_raw: "sbi_ntoh access it = it\<lparr>sbi_word := raw_word access (sbi_word it)\<rparr>"
  by (cases access) (simp_all add: sbi_ntoh_def raw_word_def)

definition dense_frame :: "'i sparse_it \<Rightarrow> 'i sparse_it \<Rightarrow> bool" where
  "dense_frame it it' \<longleftrightarrow> same_block it it' \<and> sbi_seek_func it' = sbi_seek_func it \<and> sbi_prev_attr it' = sbi_prev_attr it \<and>
     sbi_prev it' = sbi_prev it \<and> sbi_block_data it' = sbi_block_data it"

lemma dense_frame_refl: "dense_frame it it"
  by (simp add: dense_frame_def same_block_def)

lemma dense_frame_trans: "dense_frame a b \<Longrightarrow> dense_frame b c \<Longrightarrow> dense_frame a c"
  by (simp add: dense_frame_def same_block_def)

lemma dense_bytes_update:
  "dense_bytes stream rest f R ws access q (it\<lparr>sbi_word := w\<rparr>) = dense_bytes stream rest f R ws access q it"
  "dense_bytes stream rest f R ws access q (it\<lparr>sbi_popcnt := c\<rparr>) = dense_bytes stream rest f R ws access q it"
  "dense_bytes stream rest f R ws access q (it\<lparr>sbi_word_idx := i\<rparr>) = dense_bytes stream rest f R ws access q it"
  "dense_bytes stream rest f R ws access q (it\<lparr>sbi_doc := d\<rparr>) = dense_bytes stream rest f R ws access q it"
  "dense_bytes stream rest f R ws access q (it\<lparr>sbi_value_index := v\<rparr>) = dense_bytes stream rest f R ws access q it"
  by (cases access; simp add: dense_bytes_def)+

lemma popcount_take: "popcount_range (take q ws) = card {i \<in> words_set ws. i < 64 * q}"
  by (simp add: popcount_range_card words_set_take)

context index_source
begin

lemma next_word_correct:
  assumes "dense_bytes stream rest f R ws access q it" "q < length ws"
  shows "\<exists>it1. sbi_next_word io access it = Some it1 \<and> dense_bytes stream rest f R ws access (q + 1) it1 \<and>
    sbi_word it1 = raw_word access (ws ! q) \<and> (\<exists>s p w. it1 = it\<lparr>sbi_in := s, sbi_pos := p, sbi_word := w\<rparr>)"
proof (cases access)
  case AtStream
  have "concat (map write_u64 (drop q ws)) = write_u64 (ws ! q) @ concat (map write_u64 (drop (q + 1) ws))"
    using assms(2) by (simp add: Cons_nth_drop_Suc [symmetric])
  then have "stream f (sbi_in it)" "rest (sbi_in it) = write_u64 (ws ! q) @ (concat (map write_u64 (drop (q + 1) ws)) @ R)"
    using assms(1) AtStream by (auto simp: dense_bytes_def)
  then obtain s where "in_long io (sbi_in it) = Some (ws ! q, s)" "stream f s" "rest s = concat (map write_u64 (drop (q + 1) ws)) @ R"
    using long_at by blast
  then show ?thesis using AtStream
    by (intro exI [of _ "it\<lparr>sbi_in := s, sbi_word := ws ! q\<rparr>"])
      (auto simp: sbi_next_word_def dense_bytes_def raw_word_def intro!: exI [of _ s] exI [of _ "sbi_pos it"])
next
  case AtDirect
  then have d: "stream f (sbi_in it)" "sbi_data it = concat (map write_u64 ws)" "sbi_pos it = 8 * q" "rest (sbi_in it) = R"
    using assms(1) by (simp_all add: dense_bytes_def)
  have "length (sbi_data it) = 8 * length ws" unfolding d(2) using length_concat_const [of ws write_u64 8] by simp
  then have "sbi_load (sbi_pos it) it = Some (hton64 (ws ! q))"
    using d(2,3) assms(2) take_word [OF assms(2)] by (simp add: sbi_load_def hton64_load)
  then show ?thesis using AtDirect d
    by (intro exI [of _ "it\<lparr>sbi_pos := sbi_pos it + 8, sbi_word := hton64 (ws ! q)\<rparr>"])
      (auto simp: sbi_next_word_def dense_bytes_def raw_word_def intro!: exI [of _ "sbi_in it"] exI [of _ "8 * q + 8"])
qed

lemma dense_skip_correct:
  assumes "dense_bytes stream rest f R ws access q it" "q + n \<le> length ws"
  shows "\<exists>it1. sbi_dense_skip io access n it = Some it1 \<and> dense_bytes stream rest f R ws access (q + n) it1 \<and>
    sbi_popcnt it1 = sbi_popcnt it + of_nat (popcount_range (take n (drop q ws))) \<and>
    (n \<noteq> 0 \<longrightarrow> sbi_word it1 = raw_word access (ws ! (q + n - 1))) \<and>
    (\<exists>s p w c. it1 = it\<lparr>sbi_in := s, sbi_pos := p, sbi_word := w, sbi_popcnt := c\<rparr>)"
  using assms
proof (induction n arbitrary: q it)
  case 0
  then show ?case by (auto intro!: exI [of _ "sbi_in it"] exI [of _ "sbi_pos it"] exI [of _ "sbi_word it"] exI [of _ "sbi_popcnt it"])
next
  case (Suc n)
  have q: "q < length ws" using Suc.prems(2) by simp
  obtain it1 where it1: "sbi_next_word io access it = Some it1" "dense_bytes stream rest f R ws access (q + 1) it1"
    "sbi_word it1 = raw_word access (ws ! q)" "\<exists>s p w. it1 = it\<lparr>sbi_in := s, sbi_pos := p, sbi_word := w\<rparr>"
    using next_word_correct [OF Suc.prems(1) q] by blast
  let ?it2 = "it1\<lparr>sbi_popcnt := sbi_popcnt it1 + of_nat (popcount_w (sbi_word it1))\<rparr>"
  have "dense_bytes stream rest f R ws access (q + 1) ?it2" "q + 1 + n \<le> length ws"
    using it1(2) Suc.prems(2) by (simp_all add: dense_bytes_update)
  from Suc.IH [OF this] obtain it3 where it3: "sbi_dense_skip io access n ?it2 = Some it3" "dense_bytes stream rest f R ws access (q + 1 + n) it3"
    "sbi_popcnt it3 = sbi_popcnt ?it2 + of_nat (popcount_range (take n (drop (q + 1) ws)))"
    "n \<noteq> 0 \<longrightarrow> sbi_word it3 = raw_word access (ws ! (q + 1 + n - 1))"
    "\<exists>s p w c. it3 = ?it2\<lparr>sbi_in := s, sbi_pos := p, sbi_word := w, sbi_popcnt := c\<rparr>" by blast
  have "take (Suc n) (drop q ws) = ws ! q # take n (drop (q + 1) ws)" using q by (simp add: Cons_nth_drop_Suc [symmetric])
  moreover have "sbi_popcnt it1 = sbi_popcnt it" using it1(4) by auto
  moreover have "sbi_word it3 = raw_word access (ws ! (q + Suc n - 1))"
    using it3(1,4) it1(3) by (cases "n = 0") auto
  moreover have "\<exists>s p w c. it3 = it\<lparr>sbi_in := s, sbi_pos := p, sbi_word := w, sbi_popcnt := c\<rparr>"
    using it3(5) it1(4) by (elim exE) (intro exI, simp)
  ultimately show ?case using it1(1,3) it3(1-3) by simp
qed

lemma dense_words_correct:
  assumes "dense_at stream rest f R ws access idx it" "idx \<le> int n" "n < kNumBlocks"
  shows "\<exists>it1. sbi_dense_words io access n it = Some it1 \<and> dense_at stream rest f R ws access (int n) it1 \<and>
    dense_frame it it1 \<and> sbi_doc it1 = sbi_doc it"
proof -
  let ?q = "nat (idx + 1)" and ?k = "nat (int n - idx)"
  have d: "length ws = kNumBlocks" "sbi_word_idx it = idx" "- 1 \<le> idx" "0 \<le> idx \<longrightarrow> sbi_word it = ws ! nat idx"
    "sbi_popcnt it = sbi_index it + of_nat (popcount_range (take ?q ws))" "\<forall>d. sbi_block_data it = Some d \<longrightarrow> d = dense_index kDenseBlockIndexNumBlocks 0 ws"
    "dense_bytes stream rest f R ws access ?q it" using assms(1) by (simp_all add: dense_at_def)
  have qk: "?q + ?k = n + 1" using d(3) assms(2) by simp
  then have le: "?q + ?k \<le> length ws" using assms(3) d(1) by simp
  obtain it1 where it1: "sbi_dense_skip io access ?k it = Some it1" "dense_bytes stream rest f R ws access (n + 1) it1"
    "sbi_popcnt it1 = sbi_popcnt it + of_nat (popcount_range (take ?k (drop ?q ws)))"
    "?k \<noteq> 0 \<longrightarrow> sbi_word it1 = raw_word access (ws ! n)"
    "\<exists>s p w c. it1 = it\<lparr>sbi_in := s, sbi_pos := p, sbi_word := w, sbi_popcnt := c\<rparr>"
    using dense_skip_correct [OF d(7) le] unfolding qk add_diff_cancel_right' by (elim exE conjE) (rule that, blast+)
  let ?it2 = "(if ?k \<noteq> 0 then sbi_ntoh access it1 else it1)\<lparr>sbi_word_idx := int n\<rparr>"
  have r: "sbi_dense_words io access n it = Some ?it2" using it1(1) d(2) by (simp add: sbi_dense_words_def Let_def)
  have w: "sbi_word ?it2 = ws ! n"
  proof (cases "?k = 0")
    case True
    then have "idx = int n" "it1 = it" using assms(2) it1(1) by auto
    then show ?thesis using d(4) True by simp
  next
    case False
    then show ?thesis using it1(4) by (simp add: ntoh_raw)
  qed
  have "take (n + 1) ws = take ?q ws @ take ?k (drop ?q ws)" unfolding qk [symmetric] by (rule take_add)
  then have pc: "sbi_popcnt ?it2 = sbi_index it + of_nat (popcount_range (take (n + 1) ws))"
    using it1(3) d(5) by (simp add: ntoh_raw popcount_range_append)
  have bts: "dense_bytes stream rest f R ws access (n + 1) ?it2" using it1(2) by (simp add: ntoh_raw dense_bytes_update)
  have fr: "dense_frame it ?it2" "sbi_doc ?it2 = sbi_doc it" "sbi_block_data ?it2 = sbi_block_data it" "sbi_index ?it2 = sbi_index it"
    using it1(5) by (auto simp: dense_frame_def same_block_def ntoh_raw)
  have "nat (int n + 1) = n + 1" by simp
  then have "dense_at stream rest f R ws access (int n) ?it2"
    using d(1,6) w pc bts fr assms(3) unfolding dense_at_def by simp
  then show ?thesis using r fr by blast
qed

lemma dense_jump_correct:
  assumes "dense_at stream rest f R ws access idx it" "idx \<le> int (tb div 64)" "tb < kBlockSize" "popcount_range ws \<noteq> kBlockSize"
  shows "\<exists>it1 idx1. sbi_dense_jump io access tb it = Some it1 \<and> dense_at stream rest f R ws access idx1 it1 \<and>
    idx1 \<le> int (tb div 64) \<and> dense_frame it it1 \<and> sbi_doc it1 = sbi_doc it"
proof (cases "\<exists>d. sbi_block_data it = Some d \<and> 8 \<le> int (tb div 64) - idx")
  case False
  then have "sbi_dense_jump io access tb it = Some it"
    using assms(1) by (auto simp: sbi_dense_jump_def dense_at_def kDenseBlockIndexWordsPerBlock_def split: option.splits)
  then show ?thesis using assms(1,2) dense_frame_refl by blast
next
  case True
  let ?j = "tb div 512" and ?n = "popcount_range (take (8 * (tb div 512)) ws)"
  have d: "length ws = kNumBlocks" "sbi_word_idx it = idx" "- 1 \<le> idx" "dense_bytes stream rest f R ws access (nat (idx + 1)) it"
    "sbi_block_data it = Some (dense_index kDenseBlockIndexNumBlocks 0 ws)"
    using assms(1) True by (auto simp: dense_at_def)
  have far: "8 \<le> int (tb div 64) - idx" using True by blast
  have j: "?j < 128" "8 * ?j \<le> tb div 64" "tb div 64 < 8 * ?j + 8" "8 * ?j < length ws"
    using assms(3) d(1) by (simp_all add: kBlockSize_def kNumBlocks_def)
  have delta: "0 < int (?j * 8) - idx" using far j(3) by linarith
  let ?k = "nat (int (?j * 8) - idx)"
  have qk: "nat (idx + 1) + (?k - 1) = 8 * ?j" "?k \<noteq> 0" using delta d(3) by linarith+
  have n: "?n < 2 ^ 16"
  proof -
    have "?n \<le> popcount_range ws" using popcount_take [of "8 * ?j" ws] card_below_le by simp
    then show ?thesis using popcount_le [OF d(1)] assms(4) by (simp add: kBlockSize_def)
  qed
  let ?raw = "bytes_word (take 2 (drop (2 * ?j) (dense_index kDenseBlockIndexNumBlocks 0 ws))) :: u16"
  have "take 2 (drop (2 * ?j) (dense_index kDenseBlockIndexNumBlocks 0 ws)) = write_u16 (of_nat ?n)"
    using dense_index_entry [of ?j 128 0 ws] j(1) by (simp add: kDenseBlockIndexNumBlocks_def)
  then have pop: "drop_bit 8 ?raw OR push_bit 8 (?raw AND 0xFF) = of_nat ?n" using swap_u16 [of "of_nat ?n"] by simp
  have u: "ucast (of_nat ?n :: u16) = (of_nat ?n :: u32)"
  proof -
    have "unat (of_nat ?n :: u16) = ?n" unfolding unat_of_nat using n by (intro mod_less) simp
    then show ?thesis by (metis of_nat_unat)
  qed
  let ?step = "case access of
       AtStream \<Rightarrow> do {
         s \<leftarrow> in_seek io (in_pointer io (sbi_in it) + (?k - 1) * 8) (sbi_in it);
         sbi_next_word io AtStream (it\<lparr>sbi_in := s\<rparr>)
       }
     | AtDirect \<Rightarrow> do {
         w \<leftarrow> sbi_load (sbi_pos it + 8 * ?k - 8) it;
         Some (sbi_ntoh AtDirect (it\<lparr>sbi_pos := sbi_pos it + 8 * ?k, sbi_word := w\<rparr>))
       }"
  obtain it1 where it1: "?step = Some it1" "dense_bytes stream rest f R ws access (8 * ?j + 1) it1" "sbi_word it1 = ws ! (8 * ?j)"
    "\<exists>s p w. it1 = it\<lparr>sbi_in := s, sbi_pos := p, sbi_word := w\<rparr>"
  proof (cases access)
    case AtStream
    let ?skip = "take (?k - 1) (drop (nat (idx + 1)) ws)"
    have "drop (?k - 1) (drop (nat (idx + 1)) ws) = drop (8 * ?j) ws" unfolding drop_drop using qk(1) by (simp only: add.commute)
    then have e: "drop (nat (idx + 1)) ws = ?skip @ drop (8 * ?j) ws" using append_take_drop_id [of "?k - 1" "drop (nat (idx + 1)) ws"] by metis
    have "concat (map write_u64 (drop (nat (idx + 1)) ws)) = concat (map write_u64 ?skip) @ concat (map write_u64 (drop (8 * ?j) ws))"
      by (subst e) (simp only: map_append concat_append)
    then have s0: "stream f (sbi_in it)" "rest (sbi_in it) = concat (map write_u64 ?skip) @ (concat (map write_u64 (drop (8 * ?j) ws)) @ R)"
      using d(4) AtStream by (simp_all add: dense_bytes_def del: drop_drop)
    have "?k - 1 \<le> length ws - nat (idx + 1)" using qk(1) j(4) by linarith
    then have "length ?skip = ?k - 1" unfolding length_take length_drop by (rule min_absorb2)
    then have "length (concat (map write_u64 ?skip)) = (?k - 1) * 8" using length_concat_const [of ?skip write_u64 8] by simp
    from skip_at [OF s0 this] obtain s where s: "in_seek io (in_pointer io (sbi_in it) + (?k - 1) * 8) (sbi_in it) = Some s"
      "stream f s" "rest s = concat (map write_u64 (drop (8 * ?j) ws)) @ R" by blast
    then have "dense_bytes stream rest f R ws AtStream (8 * ?j) (it\<lparr>sbi_in := s\<rparr>)" by (simp add: dense_bytes_def)
    from next_word_correct [OF this j(4)] obtain it1 where "sbi_next_word io AtStream (it\<lparr>sbi_in := s\<rparr>) = Some it1"
      "dense_bytes stream rest f R ws AtStream (8 * ?j + 1) it1" "sbi_word it1 = ws ! (8 * ?j)"
      "\<exists>s' p w. it1 = it\<lparr>sbi_in := s, sbi_in := s', sbi_pos := p, sbi_word := w\<rparr>"
      by (auto simp: raw_word_def)
    moreover from this(4) have "\<exists>s p w. it1 = it\<lparr>sbi_in := s, sbi_pos := p, sbi_word := w\<rparr>" by (elim exE) (intro exI, simp)
    ultimately show thesis using that AtStream s(1) by simp
  next
    case AtDirect
    then have b: "sbi_data it = concat (map write_u64 ws)" "sbi_pos it = 8 * nat (idx + 1)" using d(4) by (simp_all add: dense_bytes_def)
    have "nat (idx + 1) + ?k = 8 * ?j + 1" using delta d(3) by linarith
    then have pos: "sbi_pos it + 8 * ?k = 8 * (8 * ?j + 1)" unfolding b(2) by (simp only: distrib_left [symmetric])
    then have pos0: "sbi_pos it + 8 * ?k - 8 = 8 * (8 * ?j)" by simp
    have "length (sbi_data it) = 8 * length ws" unfolding b(1) using length_concat_const [of ws write_u64 8] by simp
    then have "sbi_load (sbi_pos it + 8 * ?k - 8) it = Some (hton64 (ws ! (8 * ?j)))"
      unfolding pos0 using b(1) j(4) take_word [OF j(4)] by (simp add: sbi_load_def hton64_load)
    moreover have "dense_bytes stream rest f R ws AtDirect (8 * ?j + 1) (it\<lparr>sbi_pos := sbi_pos it + 8 * ?k, sbi_word := ws ! (8 * ?j)\<rparr>)"
      using d(4) AtDirect pos by (simp add: dense_bytes_def)
    ultimately show thesis
      by (intro that [of "it\<lparr>sbi_pos := sbi_pos it + 8 * ?k, sbi_word := ws ! (8 * ?j)\<rparr>"])
        (use AtDirect in \<open>auto simp: sbi_ntoh_def intro!: exI [of _ "sbi_in it"] exI [of _ "sbi_pos it + 8 * ?k"]\<close>)
  qed
  let ?it2 = "it1\<lparr>sbi_popcnt := sbi_index it1 + of_nat ?n + of_nat (popcount_w (sbi_word it1)), sbi_word_idx := int (?j * 8)\<rparr>"
  have "sbi_dense_jump io access tb it = Some ?it2"
    using d(2,5) far delta it1(1) pop u by (simp add: sbi_dense_jump_def kDenseBlockIndexWordsPerBlock_def Let_def del: of_nat_mult)
  moreover have "dense_at stream rest f R ws access (int (?j * 8)) ?it2"
  proof -
    have "take (8 * ?j + 1) ws = take (8 * ?j) ws @ [ws ! (8 * ?j)]" using j(4) by (simp add: take_Suc_conv_app_nth)
    then have "popcount_range (take (8 * ?j + 1) ws) = ?n + popcount_w (ws ! (8 * ?j))" by (simp add: popcount_range_append)
    moreover have "nat (int (?j * 8) + 1) = 8 * ?j + 1" "nat (int (?j * 8)) = 8 * ?j" by linarith+
    moreover have "dense_bytes stream rest f R ws access (8 * ?j + 1) ?it2" using it1(2) by (simp add: dense_bytes_update)
    moreover have "\<forall>x. sbi_block_data ?it2 = Some x \<longrightarrow> x = dense_index kDenseBlockIndexNumBlocks 0 ws" using it1(4) d(5) by auto
    ultimately show ?thesis using it1(3,4) d(1) j(4) unfolding dense_at_def by (simp add: mult.commute add.assoc)
  qed
  moreover have "dense_frame it ?it2" "sbi_doc ?it2 = sbi_doc it" using it1(4) by (auto simp: dense_frame_def same_block_def)
  moreover have "int (?j * 8) \<le> int (tb div 64)" using j(2) by simp
  ultimately show ?thesis by blast
qed

end

text \<open>What the function of a dense container does, apart from the tracking of the previous document.\<close>

definition dense_result ::
  "(u8 list \<Rightarrow> 'i \<Rightarrow> bool) \<Rightarrow> ('i \<Rightarrow> u8 list) \<Rightarrow> u8 list \<Rightarrow> u8 list \<Rightarrow> nat \<Rightarrow> u64 list \<Rightarrow> access \<Rightarrow> nat \<Rightarrow> 'i sparse_it \<Rightarrow> bool \<Rightarrow> 'i sparse_it \<Rightarrow> bool" where
  "dense_result stream rest f R b ws access t it found it' \<longleftrightarrow> dense_frame it it' \<and>
     (if found then \<exists>v. next_in ws t v \<and> dense_at stream rest f R ws access (int (v div 64)) it' \<and>
        sbi_doc it' = of_nat (kBlockSize * b + v) \<and> sbi_value_index it' = sbi_index it + of_nat (card {i \<in> words_set ws. i < v})
      else (\<forall>i\<in>words_set ws. i < t) \<and> stream f (sbi_in it') \<and> rest (sbi_in it') = R \<and> sbi_doc it' = sbi_doc it)"

lemma words_set_word: "q < length ws \<Longrightarrow> bit (ws ! q) k \<longleftrightarrow> k < 64 \<and> 64 * q + k \<in> words_set ws"
  using words_set_bit [of q ws k] bit_word_ge_len [of k "ws ! q"] by (cases "k < 64") auto

context index_source
begin

lemma dense_next_correct:
  assumes "dense_bytes stream rest f R ws access q it" "length ws = kNumBlocks" "q \<le> kNumBlocks" "sbi_word_idx it = int q"
    and "sbi_popcnt it = sbi_index it + of_nat (popcount_range (take q ws))" "sbi_block it = of_nat (kBlockSize * b)"
    and "\<forall>d. sbi_block_data it = Some d \<longrightarrow> d = dense_index kDenseBlockIndexNumBlocks 0 ws"
    and "t \<le> 64 * q" "\<forall>i\<in>words_set ws. t \<le> i \<longrightarrow> 64 * q \<le> i"
  shows "\<exists>found it'. sbi_dense_next io access it = Some (found, it') \<and> dense_result stream rest f R b ws access t it found it'"
  using assms
proof (induction "kNumBlocks - q" arbitrary: q it)
  case 0
  then have q: "q = kNumBlocks" by simp
  have "sbi_dense_next io access it = Some (False, it)" using 0 q by (subst sbi_dense_next.simps) simp
  moreover have "i < t" if "i \<in> words_set ws" for i
    using words_set_less [OF 0(3) that] 0(10) that q by (force simp: kBlockSize_def kNumBlocks_def)
  moreover have "stream f (sbi_in it)" "rest (sbi_in it) = R"
    using 0(2,3) q by (auto simp: dense_bytes_def split: access.splits)
  ultimately show ?case
    by (intro exI [of _ False] exI [of _ it]) (simp add: dense_result_def dense_frame_refl)
next
  case (Suc n)
  then have q: "q < kNumBlocks" "q < length ws" by simp_all
  obtain it1 where it1: "sbi_next_word io access it = Some it1" "dense_bytes stream rest f R ws access (q + 1) it1"
    "sbi_word it1 = raw_word access (ws ! q)" "\<exists>s p w. it1 = it\<lparr>sbi_in := s, sbi_pos := p, sbi_word := w\<rparr>"
    using next_word_correct [OF Suc.prems(1) q(2)] by blast
  have same: "sbi_word_idx it1 = int q" "sbi_popcnt it1 = sbi_popcnt it" "sbi_index it1 = sbi_index it" "sbi_block it1 = sbi_block it"
    "sbi_block_data it1 = sbi_block_data it" "sbi_doc it1 = sbi_doc it" "dense_frame it it1"
    using it1(4) Suc.prems(4) by (auto simp: dense_frame_def same_block_def)
  have take: "popcount_range (take (q + 1) ws) = popcount_range (take q ws) + popcount_w (ws ! q)"
    using q(2) by (simp add: take_Suc_conv_app_nth popcount_range_append)
  note mem = words_set_word [OF q(2)]
  show ?case
  proof (cases "ws ! q = 0")
    case True
    let ?it2 = "it1\<lparr>sbi_word_idx := sbi_word_idx it1 + 1\<rparr>"
    have step: "sbi_dense_next io access it = sbi_dense_next io access ?it2"
      using it1(1,3) True q(1) Suc.prems(4) by (subst sbi_dense_next.simps) simp
    have gap: "64 * (q + 1) \<le> i" if "i \<in> words_set ws" "t \<le> i" for i
    proof (rule ccontr)
      assume "\<not> 64 * (q + 1) \<le> i"
      then have "i - 64 * q < 64" "64 * q + (i - 64 * q) = i" using Suc.prems(9) that by auto
      then show False using mem [of "i - 64 * q"] that(1) True by simp
    qed
    have "popcount_range (take (q + 1) ws) = popcount_range (take q ws)" using take True by (simp add: popcount_w_def)
    then have "\<exists>found it'. sbi_dense_next io access ?it2 = Some (found, it') \<and> dense_result stream rest f R b ws access t ?it2 found it'"
      using Suc.prems same it1(2) gap q(1) Suc.hyps(2)
      by (intro Suc.hyps(1) [of "q + 1"]) (simp_all add: dense_bytes_update)
    then obtain found it' where IH: "sbi_dense_next io access ?it2 = Some (found, it')" "dense_result stream rest f R b ws access t ?it2 found it'"
      by blast
    have "dense_frame it ?it2" using same(7) by (simp add: dense_frame_def same_block_def)
    then have "dense_result stream rest f R b ws access t it found it'"
      using IH(2) dense_frame_trans same(3,6) unfolding dense_result_def by (auto split: if_splits)
    then show ?thesis using step IH(1) by auto
  next
    case False
    let ?o = "countr_zero_w (ws ! q)"
    let ?it2 = "sbi_ntoh access it1"
    let ?it3 = "?it2\<lparr>sbi_doc := sbi_block ?it2 + of_int (sbi_word_idx ?it2) * 64 + of_nat (countr_zero_w (sbi_word ?it2)),
        sbi_value_index := sbi_popcnt ?it2, sbi_popcnt := sbi_popcnt ?it2 + of_nat (popcount_w (sbi_word ?it2))\<rparr>"
    have r: "sbi_dense_next io access it = Some (True, ?it3)"
      using it1(1,3) False q(1) Suc.prems(4) by (subst sbi_dense_next.simps) (simp add: Let_def)
    have w: "sbi_word ?it2 = ws ! q" using it1(3) by (simp add: ntoh_raw)
    have o: "?o < 64" "bit (ws ! q) ?o" "\<forall>k<?o. \<not> bit (ws ! q) k" using countr_zero_w [OF False] by auto
    let ?v = "64 * q + ?o"
    have v: "?v \<in> words_set ws" "?v div 64 = q" using o mem by auto
    have least: "?v \<le> i" if "i \<in> words_set ws" "t \<le> i" for i
    proof (rule ccontr)
      assume "\<not> ?v \<le> i"
      then have "i - 64 * q < ?o" "64 * q + (i - 64 * q) = i" using Suc.prems(9) that by auto
      then show False using o(1,3) mem [of "i - 64 * q"] that(1) by auto
    qed
    have below: "{i \<in> words_set ws. i < 64 * q} = {i \<in> words_set ws. i < ?v}"
    proof -
      have "i < 64 * q" if "i \<in> words_set ws" "i < ?v" for i
      proof (rule ccontr)
        assume "\<not> i < 64 * q"
        then have "i - 64 * q < ?o" "64 * q + (i - 64 * q) = i" using that(2) by auto
        then show False using o(1,3) mem [of "i - 64 * q"] that(1) by auto
      qed
      then show ?thesis by auto
    qed
    have doc: "sbi_doc ?it3 = of_nat (kBlockSize * b + ?v)"
      using w same(1,4) Suc.prems(6) by (simp add: ntoh_raw)
    have val: "sbi_value_index ?it3 = sbi_index it + of_nat (card {i \<in> words_set ws. i < ?v})"
      using same(2) Suc.prems(5) below popcount_take [of q ws] by (simp add: ntoh_raw)
    have n1: "nat (int q + 1) = q + 1" by simp
    have "dense_at stream rest f R ws access (int (?v div 64)) ?it3"
      unfolding v(2) dense_at_def n1
      using same w it1(2) Suc.prems(2,5,7) q(1) take by (simp add: ntoh_raw dense_bytes_update add.assoc)
    moreover have "dense_frame it ?it3" using same(7) by (simp add: ntoh_raw dense_frame_def same_block_def)
    moreover have "next_in ws t ?v" using v(1) least Suc.prems(8) by (simp add: next_in_def)
    ultimately have "dense_result stream rest f R b ws access t it True ?it3"
      unfolding dense_result_def using doc val by auto
    then show ?thesis using r by blast
  qed
qed

lemma dense_seek_correct:
  assumes "dense_at stream rest f R ws access idx it" "idx \<le> int (t div 64)" "t < kBlockSize" "popcount_range ws \<noteq> kBlockSize"
    and "sbi_block it = of_nat (kBlockSize * b)" "b < kBlockSize"
  shows "\<exists>found it'. sbi_dense_seek io access (of_nat (kBlockSize * b + t)) it = Some (found, it') \<and>
    dense_result stream rest f R b ws access t it found it'"
proof -
  let ?q = "t div 64" and ?d = "of_nat (kBlockSize * b + t) :: u32"
  have ud: "unat ?d = kBlockSize * b + t" using unat_doc [of b t] assms(3,6) by (simp add: kBlockSize_def)
  have low: "unat (?d AND 0xFFFF) = t" using ud assms(3) by (simp add: and_low kBlockSize_def unat_of_nat)
  have bits: "unat ?d mod 64 = t mod 64" 
  proof -
    have "(65536 * b + t) mod 64 = t mod 64" using mod_mult_self2 [of t 64 "1024 * b"] by (simp add: add.commute)
    then show ?thesis unfolding ud by (simp add: kBlockSize_def)
  qed
  have q: "?q < kNumBlocks" using assms(3) by (simp add: kBlockSize_def kNumBlocks_def)
  have "\<not> int ?q < sbi_word_idx it" using assms(1,2) by (simp add: dense_at_def)
  obtain it1 idx1 where it1: "sbi_dense_jump io access t it = Some it1" "dense_at stream rest f R ws access idx1 it1" "idx1 \<le> int ?q"
    "dense_frame it it1" "sbi_doc it1 = sbi_doc it" using dense_jump_correct [OF assms(1-4)] by blast
  obtain it2 where it2: "sbi_dense_words io access ?q it1 = Some it2" "dense_at stream rest f R ws access (int ?q) it2"
    "dense_frame it1 it2" "sbi_doc it2 = sbi_doc it1" using dense_words_correct [OF it1(2,3) q] by blast
  note fr = dense_frame_trans [OF it1(4) it2(3)]
  have n1: "nat (int ?q + 1) = ?q + 1" by simp
  have d: "length ws = kNumBlocks" "sbi_word_idx it2 = int ?q" "sbi_word it2 = ws ! ?q"
    "sbi_popcnt it2 = sbi_index it2 + of_nat (popcount_range (take (?q + 1) ws))"
    "\<forall>d. sbi_block_data it2 = Some d \<longrightarrow> d = dense_index kDenseBlockIndexNumBlocks 0 ws"
    "dense_bytes stream rest f R ws access (?q + 1) it2" using it2(2) unfolding dense_at_def n1 by auto
  have idx: "sbi_index it2 = sbi_index it" "sbi_block it2 = of_nat (kBlockSize * b)"
    using fr assms(5) by (simp_all add: dense_frame_def same_block_def)
  have ql: "?q < length ws" using q d(1) by simp
  note mem = words_set_word [OF ql]
  let ?left = "drop_bit (t mod 64) (ws ! ?q)"
  have start: "sbi_dense_seek io access ?d it =
      (if ?left \<noteq> 0
        then Some (True, it2\<lparr>sbi_doc := ?d + of_nat (countr_zero_w ?left), sbi_value_index := sbi_popcnt it2 - of_nat (popcount_w ?left)\<rparr>)
        else sbi_dense_next io access (it2\<lparr>sbi_word_idx := sbi_word_idx it2 + 1\<rparr>))"
    unfolding sbi_dense_seek_def Let_def low bits using \<open>\<not> int ?q < sbi_word_idx it\<close> it1(1) it2(1) d(3) by simp
  have left: "bit ?left k \<longleftrightarrow> t + k < 64 * (?q + 1) \<and> t + k \<in> words_set ws" for k
  proof -
    have e: "t + k = 64 * ?q + (t mod 64 + k)" by simp
    have "t + k < 64 * (?q + 1) \<longleftrightarrow> t mod 64 + k < 64" unfolding e by (simp only: distrib_left add_less_cancel_left mult_1_right)
    then show ?thesis using mem [of "t mod 64 + k"] unfolding e [symmetric] by (auto simp: bit_drop_bit_eq)
  qed
  show ?thesis
  proof (cases "?left = 0")
    case True
    let ?it3 = "it2\<lparr>sbi_word_idx := sbi_word_idx it2 + 1\<rparr>"
    have "64 * (?q + 1) \<le> i" if "i \<in> words_set ws" "t \<le> i" for i
    proof (rule ccontr)
      assume "\<not> 64 * (?q + 1) \<le> i"
      then show False using left [of "i - t"] that True by simp
    qed
    then have gap: "\<forall>i\<in>words_set ws. t \<le> i \<longrightarrow> 64 * (?q + 1) \<le> i" by blast
    have "\<exists>found it'. sbi_dense_next io access ?it3 = Some (found, it') \<and> dense_result stream rest f R b ws access t ?it3 found it'"
      by (rule dense_next_correct [where q = "?q + 1"]) (use d idx q gap in \<open>simp_all add: dense_bytes_update\<close>)
    then obtain found it' where r: "sbi_dense_next io access ?it3 = Some (found, it')" "dense_result stream rest f R b ws access t ?it3 found it'"
      by blast
    have "dense_frame it ?it3" using fr by (simp add: dense_frame_def same_block_def)
    then have "dense_result stream rest f R b ws access t it found it'"
      using r(2) dense_frame_trans idx(1) it1(5) it2(4) unfolding dense_result_def by (auto split: if_splits)
    then show ?thesis using start True r(1) by auto
  next
    case False
    let ?o = "countr_zero_w ?left"
    let ?it3 = "it2\<lparr>sbi_doc := ?d + of_nat ?o, sbi_value_index := sbi_popcnt it2 - of_nat (popcount_w ?left)\<rparr>"
    have o: "bit ?left ?o" "\<forall>k<?o. \<not> bit ?left k" using countr_zero_w [OF False] by auto
    let ?v = "t + ?o"
    have v: "?v \<in> words_set ws" "?v < 64 * (?q + 1)" using o(1) left by auto
    have vq: "?v div 64 = ?q" using v(2) by (intro div_nat_eqI) simp_all
    have least: "?v \<le> i" if "i \<in> words_set ws" "t \<le> i" for i
    proof (rule ccontr)
      assume "\<not> ?v \<le> i"
      then have "i - t < ?o" "t + (i - t) = i" using that by auto
      then show False using o(2) left [of "i - t"] that(1) v(2) by auto
    qed
    then have nx: "next_in ws t ?v" using v(1) by (simp add: next_in_def)
    have total: "popcount_range (take (?q + 1) ws) = card {i \<in> words_set ws. i < ?v} + popcount_w ?left"
    proof -
      have "{i \<in> words_set ws. i < 64 * (?q + 1)} = {i \<in> words_set ws. i < ?v} \<union> (\<lambda>k. t + k) ` {k. k < 64 \<and> bit ?left k}"
      proof (intro set_eqI iffI)
        fix i assume "i \<in> {i \<in> words_set ws. i < 64 * (?q + 1)}"
        then have i: "i \<in> words_set ws" "i < 64 * (?q + 1)" by auto
        show "i \<in> {i \<in> words_set ws. i < ?v} \<union> (\<lambda>k. t + k) ` {k. k < 64 \<and> bit ?left k}"
        proof (cases "t \<le> i")
          case True
          then have "bit ?left (i - t)" using left [of "i - t"] i by simp
          moreover have "i - t < 64"
          proof -
            have "64 * ?q \<le> t" by simp
            moreover have "i < 64 * ?q + 64" using i(2) by (simp add: distrib_left)
            ultimately have "i < 64 + t" by (simp add: order_less_le_trans)
            then show ?thesis by (simp add: less_diff_conv2 [OF True])
          qed
          ultimately have "i - t \<in> {k. k < 64 \<and> bit ?left k}" "i = t + (i - t)" using True by auto
          then show ?thesis by blast
        next
          case False
          then show ?thesis using i(1) by simp
        qed
      next
        fix i assume "i \<in> {i \<in> words_set ws. i < ?v} \<union> (\<lambda>k. t + k) ` {k. k < 64 \<and> bit ?left k}"
        then consider "i \<in> words_set ws" "i < ?v" | k where "i = t + k" "bit ?left k" by blast
        then show "i \<in> {i \<in> words_set ws. i < 64 * (?q + 1)}"
        proof cases
          case 1
          then show ?thesis using order_less_trans [OF 1(2) v(2)] by simp
        next
          case 2
          then show ?thesis using left [of k] by simp
        qed
      qed
      moreover have "{i \<in> words_set ws. i < ?v} \<inter> (\<lambda>k. t + k) ` {k. k < 64 \<and> bit ?left k} = {}"
      proof -
        have "?v \<le> t + k" if "bit ?left k" for k using least [of "t + k"] left [of k] that by simp
        then have "\<not> t + k < ?v" if "bit ?left k" for k using that by (simp add: not_less)
        then show ?thesis by blast
      qed
      ultimately have "card {i \<in> words_set ws. i < 64 * (?q + 1)} =
          card {i \<in> words_set ws. i < ?v} + card ((\<lambda>k. t + k) ` {k. k < 64 \<and> bit ?left k})" by (simp add: card_Un_disjoint)
      then show ?thesis by (simp add: popcount_take card_image popcount_w_card del: mult_Suc_right)
    qed
    have val: "sbi_value_index ?it3 = sbi_index it + of_nat (card {i \<in> words_set ws. i < ?v})"
      using d(4) idx(1) unfolding total by simp
    have doc: "sbi_doc ?it3 = of_nat (kBlockSize * b + ?v)" by (simp add: add.assoc)
    have "dense_at stream rest f R ws access (int (?v div 64)) ?it3"
      unfolding vq using it2(2) by (simp add: dense_at_def dense_bytes_update)
    moreover have "dense_frame it ?it3" using fr by (simp add: dense_frame_def same_block_def)
    ultimately have "dense_result stream rest f R b ws access t it True ?it3"
      unfolding dense_result_def using doc val nx by auto
    then show ?thesis using start False by auto
  qed
qed

lemma dense_correct:
  assumes "container_at stream rest f R b ws p it" "sbi_seek_func it = DenseSeek access track" "prev_at b ws prev0 p it" "p \<le> t" "t < kBlockSize"
  shows "\<exists>found it'. sbi_container io (of_nat (kBlockSize * b + t)) it = Some (found, it') \<and>
    container_result stream rest f R b ws prev0 t it found it'"
proof -
  let ?S = "words_set ws" and ?idx = "if p = 0 then - 1 else int ((p - 1) div 64)" and ?d = "of_nat (kBlockSize * b + t) :: u32"
  have c: "dense_at stream rest f R ws access ?idx it" "track \<longrightarrow> sbi_track it" "unat (sbi_block it) = kBlockSize * b" "b < kBlockSize"
    "length ws = kNumBlocks" "unat (sbi_index it) + popcount_range ws < 2 ^ 32" "popcount_range ws \<noteq> kBlockSize"
    "kBitSetThreshold < popcount_range ws" using assms(1,2) by (simp_all add: container_at_def)
  have blk: "sbi_block it = of_nat (kBlockSize * b)" using c(3) block_word by blast
  have "(p - 1) div 64 \<le> t div 64" using assms(4) by (intro div_le_mono) simp
  then have idx: "?idx \<le> int (t div 64)" by simp
  obtain found it1 where r: "sbi_dense_seek io access ?d it = Some (found, it1)" "dense_result stream rest f R b ws access t it found it1"
    using dense_seek_correct [OF c(1) idx assms(5) c(7) blk c(4)] by blast
  let ?it2 = "if track \<and> sbi_value_index it1 \<noteq> sbi_index it1 then it1\<lparr>sbi_seek_func := DenseSeek access False, sbi_prev_attr := PrevScan access\<rparr> else it1"
  have call: "sbi_container io ?d it = Some (found, ?it2)"
    using assms(2) r(1) by (simp add: sbi_container_def sbi_dense_track_def)
  have fr: "same_block it it1" "sbi_seek_func it1 = DenseSeek access track" "sbi_prev_attr it1 = sbi_prev_attr it" "sbi_prev it1 = sbi_prev it"
    using r(2) assms(2) by (simp_all add: dense_result_def dense_frame_def)
  have "container_result stream rest f R b ws prev0 t it found ?it2"
  proof (cases found)
    case False
    then show ?thesis using r(2) fr(1) by (simp add: container_result_def dense_result_def same_block_def)
  next
    case True
    then obtain v where v: "next_in ws t v" "dense_at stream rest f R ws access (int (v div 64)) it1" "sbi_doc it1 = of_nat (kBlockSize * b + v)"
      "sbi_value_index it1 = sbi_index it + of_nat (card {i \<in> ?S. i < v})" using r(2) by (auto simp: dense_result_def)
    have vS: "v \<in> ?S" "t \<le> v" "v < kBlockSize" using v(1) c(5) words_set_less by (auto simp: next_in_def)
    have ud: "unat (sbi_doc it1) = kBlockSize * b + v" using v(3) unat_doc [of b v] c(4) vS(3) by (simp add: kBlockSize_def)
    have first: "sbi_value_index it1 \<noteq> sbi_index it1 \<longleftrightarrow> {i \<in> ?S. i < v} \<noteq> {}"
      using index_differs [OF c(6) card_below_le [of ws v]] v(4) fr(1) by (simp add: same_block_def)
    have at: "dense_at stream rest f R ws access (int (v div 64)) (it1\<lparr>sbi_seek_func := DenseSeek access False, sbi_prev_attr := PrevScan access\<rparr>)"
      using v(2) by (cases access) (simp_all add: dense_at_def dense_bytes_def)
    have "container_at stream rest f R b ws (v + 1) ?it2"
      using fr(1,2) c vS(1) ud v(2) at
      by (cases "track \<and> sbi_value_index it1 \<noteq> sbi_index it1") (simp_all add: container_at_def same_block_def)
    moreover have "prev_at b ws prev0 (v + 1) ?it2"
    proof (cases "sbi_track it")
      case tr: True
      have mono: "{i \<in> ?S. i < p - 1} \<subseteq> {i \<in> ?S. i < v}" using vS(2) assms(4) by auto
      consider "sbi_prev_attr it = PrevStored" "unat (sbi_prev it) = sb_prev b ws prev0 (p - 1)" "track" "{i \<in> ?S. i < p - 1} = {}"
        | a where "sbi_prev_attr it = PrevScan a" "a = access" "\<not> track" "{i \<in> ?S. i < p - 1} \<noteq> {}"
        using assms(2,3) tr by (auto simp: prev_at_def split: prev_attr.splits)
      then show ?thesis
      proof cases
        case 1
        show ?thesis
        proof (cases "{i \<in> ?S. i < v} = {}")
          case True
          then have "?it2 = it1" using first by auto
          then show ?thesis using 1 True fr by (simp add: prev_at_def sb_prev_def)
        next
          case False
          then show ?thesis using 1 first by (simp add: prev_at_def)
        qed
      next
        case 2
        then have "{i \<in> ?S. i < v} \<noteq> {}" using mono by blast
        then show ?thesis using 2 fr by (simp add: prev_at_def)
      qed
    next
      case False
      then show ?thesis using fr(1) by (simp add: prev_at_def same_block_def)
    qed
    moreover have "same_block it ?it2" using fr(1) by (simp add: same_block_def)
    moreover have "sbi_doc ?it2 = of_nat (kBlockSize * b + v)" "sbi_value_index ?it2 = sbi_index it + of_nat (card {i \<in> ?S. i < v})"
      using v(3,4) by simp_all
    ultimately have "container_found stream rest f R b ws prev0 v it ?it2" unfolding container_found_def by blast
    then show ?thesis using True v(1) unfolding container_result_def by auto
  qed
  then show ?thesis using call by blast
qed

text \<open>Any container.\<close>

lemma container_correct:
  assumes "container_at stream rest f R b ws p it" "prev_at b ws prev0 p it" "p \<le> t" "t < kBlockSize"
  shows "\<exists>found it'. sbi_container io (of_nat (kBlockSize * b + t)) it = Some (found, it') \<and>
    container_result stream rest f R b ws prev0 t it found it'"
proof (cases "sbi_seek_func it")
  case InitialSeek
  then show ?thesis using assms(1) by (simp add: container_at_def)
next
  case (RangeSeek track)
  then show ?thesis using range_correct [OF assms(1) RangeSeek assms(2-4)] by (auto simp: sbi_container_def)
next
  case (SparseSeek access track)
  then show ?thesis using sparse_correct [OF assms(1) SparseSeek assms(2-4)] by (auto simp: sbi_container_def)
next
  case (DenseSeek access track)
  then show ?thesis using dense_correct [OF assms(1) DenseSeek assms(2-4)] by blast
qed

end

end
