(* ===== verification/SparseBitmap.thy ===== *)
theory SparseBitmap
  imports SparseReader MemoryStream
begin

text \<open>
  Iteration over a whole bitmap: a bitmap of \<open>SparseWriter\<close>, read by the iterator of \<open>SparseReader\<close>, is an iterator over its
  documents, which knows the number of a document and the one before it.
\<close>

section \<open>The containers in the file\<close>

definition sb_pos :: "bool \<Rightarrow> segment list \<Rightarrow> nat \<Rightarrow> nat" where
  "sb_pos pw all k = length (sb_bytes pw 0 (take k all))"

definition sb_hprev :: "segment list \<Rightarrow> nat \<Rightarrow> u32" where
  "sb_hprev all k = (if k = 0 then 0 else snd (snd (all ! (k - 1))))"

text \<open>
  Containers with few documents are only read back right from a buffer when one of their offsets has the top bit set.
\<close>

definition sb_readable :: "'i index_in \<Rightarrow> (u8 list \<Rightarrow> 'i \<Rightarrow> bool) \<Rightarrow> ('i \<Rightarrow> u8 list) \<Rightarrow> u8 list \<Rightarrow> nat \<Rightarrow> u64 list \<Rightarrow> bool" where
  "sb_readable io stream rest f b ws \<longleftrightarrow> sb_signed b ws \<or>
     (\<forall>s c s'. stream f s \<longrightarrow> 2 * popcount_range ws \<le> length (rest s) \<longrightarrow> in_buffer io (2 * popcount_range ws) s = Some (c, s') \<longrightarrow> c \<noteq> None)"

text \<open>The bitmap \<open>segs\<close> is in the file \<open>f\<close> at \<open>c\<close>.\<close>

definition sb_stored ::
  "'i index_in \<Rightarrow> (u8 list \<Rightarrow> 'i \<Rightarrow> bool) \<Rightarrow> ('i \<Rightarrow> u8 list) \<Rightarrow> u8 list \<Rightarrow> nat \<Rightarrow> bool \<Rightarrow> segment list \<Rightarrow> bool" where
  "sb_stored io stream rest f c pw segs \<longleftrightarrow> sb_wf segs \<and> doc_set (sb_docs segs) \<and> sb_rank segs + 1 < 2 ^ 32 \<and> c \<le> length f \<and>
     (\<exists>R. drop c f = sb_file pw segs @ R) \<and> (\<forall>(b, ws, lst)\<in>set segs. sb_readable io stream rest f b ws)"

lemma sb_bytes_split:
  assumes "k < length all" "all ! k = (b, ws, lst)"
  shows "drop (sb_pos pw all k) (sb_bytes pw 0 all) =
    sb_header pw (sb_hprev all k) b (popcount_range ws) @ sb_body ws @ drop (sb_pos pw all (k + 1)) (sb_bytes pw 0 all)"
proof -
  have at: "drop (sb_pos pw all i) (sb_bytes pw 0 all) = sb_bytes pw (sb_hprev all i) (drop i all)" if "i \<le> length all" for i
  proof -
    have "sb_last (take i all) = sb_hprev all i" if "i \<noteq> 0" "all \<noteq> []"
      using that \<open>i \<le> length all\<close> by (simp add: sb_last_def sb_hprev_def last_conv_nth min_absorb2)
    then have "sb_bytes pw 0 (take i all @ drop i all) = sb_bytes pw 0 (take i all) @ sb_bytes pw (sb_hprev all i) (drop i all)"
      unfolding sb_bytes_append by (cases "i = 0 \<or> all = []") (auto simp: sb_hprev_def)
    then show ?thesis by (simp add: sb_pos_def)
  qed
  have "drop k all = (b, ws, lst) # drop (k + 1) all" using assms by (metis Cons_nth_drop_Suc Suc_eq_plus1)
  then show ?thesis using at [of k] at [of "k + 1"] assms by (simp add: sb_hprev_def)
qed

lemma sb_rank_take: "k < length all \<Longrightarrow> all ! k = (b, ws, lst) \<Longrightarrow> sb_rank (take (k + 1) all) = sb_rank (take k all) + popcount_range ws"
  by (simp add: take_Suc_conv_app_nth sb_rank_def)

lemma sb_rank_take_le: "sb_rank (take k all) \<le> sb_rank all"
  by (metis append_take_drop_id le_add1 sb_rank_append)

section \<open>The header\<close>

text \<open>A container has just been opened.\<close>

context index_source
begin

lemma drop_stream: "stream f s \<Longrightarrow> rest s = drop n f \<Longrightarrow> n \<le> length f \<Longrightarrow> in_pointer io s = n"
  using pointer_law [of f s] by (metis diff_diff_cancel length_drop)

lemma pointer_rest: "stream f s \<Longrightarrow> in_pointer io s = length f - length (rest s)"
  using pointer_law [of f s] by simp

lemma open_index:
  assumes "stream f (sbi_in it)" "rest (sbi_in it) = i @ r" "length i = n"
  shows "\<exists>s d. (if sbi_use_block_index it then do {
                 (buf, s) \<leftarrow> in_persistent io n (sbi_in it);
                 case buf of
                   Some bs \<Rightarrow> Some (it\<lparr>sbi_in := s, sbi_block_data := Some bs\<rparr>)
                 | None \<Rightarrow> do { (bs, s1) \<leftarrow> in_bytes io n s; Some (it\<lparr>sbi_in := s1, sbi_block_data := Some bs\<rparr>) }
               } else do {
                 s \<leftarrow> in_seek io (in_pointer io (sbi_in it) + n) (sbi_in it);
                 Some (it\<lparr>sbi_in := s, sbi_block_data := None\<rparr>)
               }) = Some (it\<lparr>sbi_in := s, sbi_block_data := d\<rparr>) \<and> stream f s \<and> rest s = r \<and> (\<forall>x. d = Some x \<longrightarrow> x = i)"
proof (cases "sbi_use_block_index it")
  case False
  obtain s where "in_seek io (in_pointer io (sbi_in it) + n) (sbi_in it) = Some s" "stream f s" "rest s = r"
    using skip_at [OF assms(1,2)] assms(3) by auto
  then show ?thesis using False by (intro exI [of _ s] exI [of _ None]) simp
next
  case True
  obtain c s where c: "in_persistent io n (sbi_in it) = Some (c, s)" "stream f s"
    "case c of None \<Rightarrow> rest s = i @ r | Some bs \<Rightarrow> bs = i \<and> rest s = r"
  proof -
    obtain c s where c: "in_persistent io n (sbi_in it) = Some (c, s)" "stream f s"
      "case c of None \<Rightarrow> rest s = rest (sbi_in it)
       | Some bs \<Rightarrow> n \<le> length (rest (sbi_in it)) \<and> bs = take n (rest (sbi_in it)) \<and> rest s = drop n (rest (sbi_in it))"
      using persistent_law [OF assms(1), of n] by blast
    show thesis by (rule that [OF c(1,2)]) (use c(3) assms(2,3) in \<open>cases c; simp\<close>)
  qed
  show ?thesis
  proof (cases c)
    case None
    then obtain s1 where "in_bytes io n s = Some (i, s1)" "stream f s1" "rest s1 = r" using bytes_at [OF c(2) _ assms(3)] c(3) by auto
    then show ?thesis using True None c by (intro exI [of _ s1] exI [of _ "Some i"]) simp
  next
    case (Some bs)
    then show ?thesis using True c by (intro exI [of _ s] exI [of _ "Some bs"]) simp
  qed
qed

lemma open_correct:
  assumes "stream f (sbi_in it)" "rest (sbi_in it) = sb_body ws @ R" "length ws = kNumBlocks" "b < kBlockSize" "words_set ws \<noteq> {}"
    and "unat (sbi_index it) + popcount_range ws < 2 ^ 32" "sbi_index_max it = sbi_index it + of_nat (popcount_range ws)"
    and "unat (sbi_block it) = kBlockSize * b" "sb_readable io stream rest f b ws"
    and "sbi_track it \<longrightarrow> sbi_prev it = prev \<and> sbi_prev_attr it = PrevStored"
  shows "\<exists>it'. sbi_open io (of_nat (popcount_range ws)) it = Some it' \<and> container_at stream rest f R b ws 0 it' \<and>
    prev_at b ws (unat prev) 0 it' \<and> sbi_cont_begin it' = length f - length R \<and>
    same_block it (it'\<lparr>sbi_cont_begin := sbi_cont_begin it\<rparr>) \<and> sbi_doc it' = sbi_doc it"
proof -
  let ?n = "popcount_range ws"
  have n: "0 < ?n" "?n \<le> kBlockSize" using popcount_pos [OF assms(5)] popcount_le [OF assms(3)] by auto
  have un: "unat (of_nat ?n :: u32) = ?n" unfolding unat_of_nat using n by (intro mod_less) (simp add: kBlockSize_def)
  have full: "(of_nat ?n :: u32) = of_nat kBlockSize \<longleftrightarrow> ?n = kBlockSize"
  proof
    assume "(of_nat ?n :: u32) = of_nat kBlockSize"
    then have "?n = unat (of_nat kBlockSize :: u32)" using un by simp
    then show "?n = kBlockSize" by (simp add: kBlockSize_def)
  qed simp
  note frame = assms(3,4,6,7,8,10) n
  have ptr: "in_pointer io s + m = length f - length R" if "stream f s" "rest s = xs @ R" "m = length xs" for s xs m
  proof -
    have "in_pointer io s \<le> length f" "length (rest s) = length f - in_pointer io s" using pointer_law [OF that(1)] by simp_all
    then show ?thesis using that(2,3) by simp
  qed
  consider "?n = kBlockSize" | "?n \<le> kBitSetThreshold" | "kBitSetThreshold < ?n" "?n \<noteq> kBlockSize" by linarith
  then show ?thesis
  proof cases
    case 1
    then have body: "sb_body ws = []" by (simp add: sb_body_def kBitSetThreshold_def kBlockSize_def)
    let ?it' = "it\<lparr>sbi_missing := sbi_block it - sbi_index it, sbi_cont_begin := in_pointer io (sbi_in it), sbi_seek_func := RangeSeek (sbi_track it)\<rparr>"
    have "sbi_open io (of_nat ?n) it = Some ?it'" using 1 by (simp add: sbi_open_def)
    moreover have "in_pointer io (sbi_in it) = length f - length R" using ptr [OF assms(1), of "[]" 0] assms(2) body by simp
    ultimately show ?thesis using frame assms(1,2) body 1
      by (intro exI [of _ ?it']) (simp add: container_at_def prev_at_def sb_prev_def same_block_def)
  next
    case 2
    then have k: "?n \<noteq> kBlockSize" by (simp add: kBitSetThreshold_def kBlockSize_def)
    have body: "sb_body ws = sb_list ws 0" using 2 by (simp add: sb_body_def sb_list_def)
    have len: "length (sb_body ws) = 2 * ?n" using 2 k length_sb_body [OF assms(3)] by simp
    obtain c s where c: "in_buffer io (2 * ?n) (sbi_in it) = Some (c, s)" "stream f s"
      "case c of None \<Rightarrow> rest s = rest (sbi_in it)
       | Some bs \<Rightarrow> bs = take (2 * ?n) (rest (sbi_in it)) \<and> rest s = drop (2 * ?n) (rest (sbi_in it))"
      using buffer_law [OF assms(1), of "2 * ?n"] by (auto split: option.splits)
    have signed: "c = None \<longrightarrow> sb_signed b ws" using assms(1,2,9) len c(1) unfolding sb_readable_def by (metis le_add1 length_append)
    let ?it' = "it\<lparr>sbi_in := s, sbi_cont_begin := in_pointer io (sbi_in it) + 2 * ?n, sbi_data := (case c of None \<Rightarrow> [] | Some bs \<Rightarrow> bs), sbi_pos := 0,
         sbi_sparse_index := sbi_index it, sbi_seek_func := SparseSeek (case c of None \<Rightarrow> AtStream | Some _ \<Rightarrow> AtDirect) (sbi_track it)\<rparr>"
    have r: "sbi_open io (of_nat ?n) it = Some ?it'" using 2 k full un c(1) by (simp add: sbi_open_def Let_def)
    have "in_pointer io (sbi_in it) + 2 * ?n = length f - length R" using ptr [OF assms(1,2)] len by simp
    then show ?thesis using r frame assms(2) body k c len signed
      by (intro exI [of _ ?it'], cases c) (simp_all add: container_at_def prev_at_def sb_prev_def same_block_def sparse_at_def)
  next
    case 3
    let ?i = "dense_index kDenseBlockIndexNumBlocks 0 ws" and ?w = "concat (map write_u64 ws)"
    have len: "length ?i = 2 * kDenseBlockIndexNumBlocks" "length ?w = kBlockSize div 8"
      using length_dense_index length_concat_const [of ws write_u64 8] assms(3) by (simp_all add: kNumBlocks_def kBlockSize_def)
    let ?it1 = "it\<lparr>sbi_word_idx := - 1, sbi_popcnt := sbi_index it\<rparr>"
    have st: "stream f (sbi_in ?it1)" using assms(1) by simp
    have r0: "rest (sbi_in ?it1) = ?i @ ?w @ R" using 3 assms(2) by (simp add: sb_body_def)
    obtain s d where s: "(if sbi_use_block_index ?it1 then do {
                 (buf, s) \<leftarrow> in_persistent io (2 * kDenseBlockIndexNumBlocks) (sbi_in ?it1);
                 case buf of
                   Some bs \<Rightarrow> Some (?it1\<lparr>sbi_in := s, sbi_block_data := Some bs\<rparr>)
                 | None \<Rightarrow> do { (bs, s1) \<leftarrow> in_bytes io (2 * kDenseBlockIndexNumBlocks) s; Some (?it1\<lparr>sbi_in := s1, sbi_block_data := Some bs\<rparr>) }
               } else do {
                 s \<leftarrow> in_seek io (in_pointer io (sbi_in ?it1) + 2 * kDenseBlockIndexNumBlocks) (sbi_in ?it1);
                 Some (?it1\<lparr>sbi_in := s, sbi_block_data := None\<rparr>)
               }) = Some (?it1\<lparr>sbi_in := s, sbi_block_data := d\<rparr>)" "stream f s" "rest s = ?w @ R" "\<forall>x. d = Some x \<longrightarrow> x = ?i"
      using open_index [OF st r0 len(1)] by blast
    let ?it2 = "?it1\<lparr>sbi_in := s, sbi_block_data := d\<rparr>"
    obtain c s' where c: "in_buffer io (kBlockSize div 8) s = Some (c, s')" "stream f s'"
      "case c of None \<Rightarrow> rest s' = rest s | Some bs \<Rightarrow> bs = take (kBlockSize div 8) (rest s) \<and> rest s' = drop (kBlockSize div 8) (rest s)"
      using buffer_law [OF s(2), of "kBlockSize div 8"] by (auto split: option.splits)
    let ?it' = "?it2\<lparr>sbi_in := s', sbi_cont_begin := in_pointer io s + kBlockSize div 8, sbi_data := (case c of None \<Rightarrow> [] | Some bs \<Rightarrow> bs), sbi_pos := 0,
         sbi_seek_func := DenseSeek (case c of None \<Rightarrow> AtStream | Some _ \<Rightarrow> AtDirect) (sbi_track it)\<rparr>"
    have r: "sbi_open io (of_nat ?n) it = Some ?it'"
      using 3 full un c(1) s(1) by (simp add: sbi_open_def Let_def)
    have "in_pointer io s + kBlockSize div 8 = length f - length R" using ptr [OF s(2,3)] len(2) by simp
    moreover have "dense_at stream rest f R ws (case c of None \<Rightarrow> AtStream | Some _ \<Rightarrow> AtDirect) (- 1) ?it'"
      using c s(3,4) len(2) assms(3) by (cases c) (simp_all add: dense_at_def dense_bytes_def kNumBlocks_def)
    ultimately show ?thesis using r frame 3
      by (intro exI [of _ ?it']) (simp add: container_at_def prev_at_def sb_prev_def same_block_def)
  qed
qed

lemma header_correct:
  assumes "stream f (sbi_in it)" "rest (sbi_in it) = sb_header (sbi_prev_written it) prev b (popcount_range ws) @ sb_body ws @ R"
    and "length ws = kNumBlocks" "b < kBlockSize" "words_set ws \<noteq> {}" "unat (sbi_index_max it) + popcount_range ws < 2 ^ 32"
    and "sbi_track it \<longrightarrow> sbi_prev_written it" "sb_readable io stream rest f b ws"
  shows "\<exists>it'. sbi_read_block_header io it = Some it' \<and> container_at stream rest f R b ws 0 it' \<and> prev_at b ws (unat prev) 0 it' \<and>
    sbi_index it' = sbi_index_max it \<and> sbi_index_max it' = sbi_index_max it + of_nat (popcount_range ws) \<and>
    sbi_cont_begin it' = length f - length R \<and> sbi_doc it' = sbi_doc it \<and> sbi_origin it' = sbi_origin it \<and> sbi_blocks it' = sbi_blocks it \<and>
    sbi_prev_written it' = sbi_prev_written it \<and> sbi_track it' = sbi_track it"
proof -
  let ?n = "popcount_range ws" and ?pw = "sbi_prev_written it"
  have n: "0 < ?n" "?n \<le> kBlockSize" using popcount_pos [OF assms(5)] popcount_le [OF assms(3)] by auto
  obtain s1 where s1: "in_short io (sbi_in it) = Some (of_nat b, s1)" "stream f s1"
    "rest s1 = write_u16 (of_nat (?n - 1)) @ (if ?pw then write_u32 prev else []) @ sb_body ws @ R"
    using short_at [OF assms(1), of "of_nat b"] assms(2) by (auto simp: sb_header_def)
  obtain s2 where s2: "in_short io s1 = Some (of_nat (?n - 1), s2)" "stream f s2" "rest s2 = (if ?pw then write_u32 prev else []) @ sb_body ws @ R"
    using short_at [OF s1(2,3)] by blast
  have b: "push_bit 16 (ucast (of_nat b :: u16)) = (of_nat (kBlockSize * b) :: u32)"
  proof -
    have "unat (of_nat b :: u16) = b" unfolding unat_of_nat using assms(4) by (intro mod_less) (simp add: kBlockSize_def)
    then have "ucast (of_nat b :: u16) = (of_nat b :: u32)" by (metis of_nat_unat)
    then show ?thesis by (simp add: push_bit_eq_mult kBlockSize_def)
  qed
  have pc: "1 + ucast (of_nat (?n - 1) :: u16) = (of_nat ?n :: u32)"
  proof -
    have "unat (of_nat (?n - 1) :: u16) = ?n - 1" unfolding unat_of_nat using n by (intro mod_less) (simp add: kBlockSize_def)
    then have "ucast (of_nat (?n - 1) :: u16) = (of_nat (?n - 1) :: u32)" by (metis of_nat_unat)
    then show ?thesis using n(1) by (simp add: of_nat_diff)
  qed
  have ub: "unat (of_nat (kBlockSize * b) :: u32) = kBlockSize * b" using unat_doc [of b 0] assms(4) by (simp add: kBlockSize_def)
  obtain s3 where s3: "(if ?pw then in_int io s2 else Some (sbi_prev it, s2)) = Some (if ?pw then prev else sbi_prev it, s3)"
    "stream f s3" "rest s3 = sb_body ws @ R"
    using int_at [OF s2(2), of prev] s2 by (cases ?pw) auto
  define it3 where "it3 = it\<lparr>sbi_block := of_nat (kBlockSize * b), sbi_index := sbi_index_max it, sbi_index_max := sbi_index_max it + of_nat ?n,
    sbi_prev := (if ?pw then prev else sbi_prev it), sbi_in := s3, sbi_prev_attr := (if sbi_track it then PrevStored else sbi_prev_attr it)\<rparr>"
  have it3: "sbi_in it3 = s3" "sbi_block it3 = of_nat (kBlockSize * b)" "sbi_index it3 = sbi_index_max it"
    "sbi_index_max it3 = sbi_index_max it + of_nat ?n" "sbi_doc it3 = sbi_doc it" "sbi_origin it3 = sbi_origin it" "sbi_blocks it3 = sbi_blocks it"
    "sbi_prev_written it3 = ?pw" "sbi_track it3 = sbi_track it" "sbi_track it3 \<longrightarrow> sbi_prev it3 = prev \<and> sbi_prev_attr it3 = PrevStored"
    using assms(7) by (simp_all add: it3_def)
  have start: "sbi_read_block_header io it = sbi_open io (of_nat ?n) it3"
    using s1(1) s2(1) s3(1) assms(7) by (cases ?pw; cases "sbi_track it")
      (simp_all add: sbi_read_block_header_def it3_def b pc [unfolded One_nat_def] Let_def split: option.splits prod.splits)
  have "\<exists>it'. sbi_open io (of_nat ?n) it3 = Some it' \<and> container_at stream rest f R b ws 0 it' \<and>
    prev_at b ws (unat prev) 0 it' \<and> sbi_cont_begin it' = length f - length R \<and>
    same_block it3 (it'\<lparr>sbi_cont_begin := sbi_cont_begin it3\<rparr>) \<and> sbi_doc it' = sbi_doc it3"
    by (intro open_correct) (use s3 it3 assms(3-6,8) ub in simp_all)
  then obtain it' where it': "sbi_open io (of_nat ?n) it3 = Some it'" "container_at stream rest f R b ws 0 it'"
    "prev_at b ws (unat prev) 0 it'" "sbi_cont_begin it' = length f - length R"
    "same_block it3 (it'\<lparr>sbi_cont_begin := sbi_cont_begin it3\<rparr>)" "sbi_doc it' = sbi_doc it3" by (elim exE conjE)
  show ?thesis unfolding start using it' it3 by (intro exI [of _ it']) (simp add: same_block_def)
qed

end

section \<open>The state of the iterator\<close>

abbreviation seg_id :: "segment list \<Rightarrow> nat \<Rightarrow> nat" where
  "seg_id all j \<equiv> fst (all ! j)"

abbreviation seg_words :: "segment list \<Rightarrow> nat \<Rightarrow> u64 list" where
  "seg_words all j \<equiv> fst (snd (all ! j))"

text \<open>
  The containers below \<open>j\<close> are behind the iterator. An index is only useful when there are documents in a block other than
  the first one: without, it ends with the entry of the first container.
\<close>

definition sbi_ready ::
  "(u8 list \<Rightarrow> 'i \<Rightarrow> bool) \<Rightarrow> u8 list \<Rightarrow> nat \<Rightarrow> bool \<Rightarrow> bool \<Rightarrow> segment list \<Rightarrow> nat \<Rightarrow> 'i sparse_it \<Rightarrow> bool" where
  "sbi_ready stream f c pw tr segs j it \<longleftrightarrow> stream f (sbi_in it) \<and>
     sbi_index_max it = of_nat (sb_rank (take j (segs @ [sb_sentinel]))) \<and> sbi_origin it = c \<and> sbi_prev_written it = pw \<and>
     sbi_track it = tr \<and> (tr \<longrightarrow> pw) \<and>
     (sbi_blocks it \<noteq> [] \<longrightarrow> sb_index_ok pw segs (sbi_blocks it) \<and> (segs = [] \<or> fst (last segs) \<noteq> 0))"

definition sbi_opened ::
  "(u8 list \<Rightarrow> 'i \<Rightarrow> bool) \<Rightarrow> ('i \<Rightarrow> u8 list) \<Rightarrow> u8 list \<Rightarrow> nat \<Rightarrow> bool \<Rightarrow> bool \<Rightarrow> segment list \<Rightarrow> nat \<Rightarrow> nat \<Rightarrow> 'i sparse_it \<Rightarrow> bool" where
  "sbi_opened stream rest f c pw tr segs j p it \<longleftrightarrow>
     (let all = segs @ [sb_sentinel] in j < length all \<and> sbi_ready stream f c pw tr segs (j + 1) it \<and>
       sbi_cont_begin it = c + sb_pos pw all (j + 1) \<and>
       container_at stream rest f (drop (c + sb_pos pw all (j + 1)) f) (seg_id all j) (seg_words all j) p it \<and>
       prev_at (seg_id all j) (seg_words all j) (unat (sb_hprev all j)) p it \<and> sbi_index it = of_nat (sb_rank (take j all)))"

lemma seg_facts:
  assumes "sb_stored io stream rest f c pw segs" "j < length (segs @ [sb_sentinel])"
  defines "all \<equiv> segs @ [sb_sentinel]"
  shows "length (seg_words all j) = kNumBlocks" "seg_id all j < kBlockSize" "words_set (seg_words all j) \<noteq> {}"
    "sb_rank (take j all) + popcount_range (seg_words all j) < 2 ^ 32" "sb_readable io stream rest f (seg_id all j) (seg_words all j)"
proof -
  have wf: "sb_wf segs" "sb_rank segs + 1 < 2 ^ 32" using assms(1) by (simp_all add: sb_stored_def)
  have "length (seg_words all j) = kNumBlocks \<and> seg_id all j < kBlockSize \<and> words_set (seg_words all j) \<noteq> {} \<and>
      sb_readable io stream rest f (seg_id all j) (seg_words all j)"
  proof (cases "j < length segs")
    case True
    then have "segs ! j \<in> set segs" "all ! j = segs ! j" by (simp_all add: all_def nth_append)
    then show ?thesis using assms(1) by (auto simp: sb_stored_def sb_wf_def)
  next
    case False
    then have "all ! j = sb_sentinel" using assms(2) by (simp add: all_def nth_append)
    then show ?thesis using sentinel_set by (simp add: sb_sentinel_def sb_readable_def sb_signed_def kBlockSize_def)
  qed
  then show "length (seg_words all j) = kNumBlocks" "seg_id all j < kBlockSize" "words_set (seg_words all j) \<noteq> {}"
    "sb_readable io stream rest f (seg_id all j) (seg_words all j)" by auto
  have "popcount_range (seg_words [sb_sentinel] 0) = 1" using sentinel_set by (simp add: popcount_range_card)
  then have "sb_rank all = sb_rank segs + 1" by (simp add: all_def sb_rank_def sb_sentinel_def)
  moreover have "sb_rank (take j all) + popcount_range (seg_words all j) = sb_rank (take (j + 1) all)"
    using sb_rank_take [of j all "seg_id all j" "seg_words all j" "snd (snd (all ! j))"] assms(2) by (simp add: all_def)
  ultimately show "sb_rank (take j all) + popcount_range (seg_words all j) < 2 ^ 32"
    using wf(2) sb_rank_take_le [of "j + 1" all] by linarith
qed

lemma ready_same: "sbi_ready stream f c pw tr segs j it \<Longrightarrow> same_block it it' \<Longrightarrow> stream f (sbi_in it') \<Longrightarrow> sbi_ready stream f c pw tr segs j it'"
  by (simp add: sbi_ready_def same_block_def)

lemma container_stream: "container_at stream rest f R b ws p it \<Longrightarrow> stream f (sbi_in it)"
  by (auto simp: container_at_def sparse_at_def dense_at_def dense_bytes_def split: seek_func.splits)

context index_source
begin

lemma ready_open:
  assumes "sb_stored io stream rest f c pw segs" "sbi_ready stream f c pw tr segs j it" "j < length (segs @ [sb_sentinel])"
    and "rest (sbi_in it) = drop (c + sb_pos pw (segs @ [sb_sentinel]) j) f"
  shows "\<exists>it'. sbi_read_block_header io it = Some it' \<and> sbi_opened stream rest f c pw tr segs j 0 it' \<and> sbi_doc it' = sbi_doc it"
proof -
  define all where "all = segs @ [sb_sentinel]"
  note seg = seg_facts [OF assms(1,3), folded all_def]
  let ?b = "seg_id all j" and ?ws = "seg_words all j" and ?R = "drop (c + sb_pos pw all (j + 1)) f"
  have rd: "stream f (sbi_in it)" "sbi_index_max it = of_nat (sb_rank (take j all))" "sbi_prev_written it = pw" "sbi_track it \<longrightarrow> pw"
    using assms(2) by (simp_all add: sbi_ready_def all_def)
  obtain R0 where R0: "drop c f = sb_bytes pw 0 all @ R0" "c \<le> length f" using assms(1) by (auto simp: sb_stored_def sb_file_def all_def)
  have pos: "sb_pos pw all k \<le> length (sb_bytes pw 0 all)" for k
    unfolding sb_pos_def by (metis append_take_drop_id length_append le_add1 sb_bytes_append)
  have dr: "drop (c + sb_pos pw all k) f = drop (sb_pos pw all k) (sb_bytes pw 0 all) @ R0" for k
  proof -
    have "drop (c + sb_pos pw all k) f = drop (sb_pos pw all k) (drop c f)" by (simp add: add.commute)
    then show ?thesis unfolding R0(1) using pos [of k] by simp
  qed
  have r: "rest (sbi_in it) = sb_header (sbi_prev_written it) (sb_hprev all j) ?b (popcount_range ?ws) @ sb_body ?ws @ ?R"
    using assms(3,4) dr [of j] dr [of "j + 1"] sb_bytes_split [of j all ?b ?ws "snd (snd (all ! j))" pw] rd(3) by (simp add: all_def)
  have um: "unat (sbi_index_max it) = sb_rank (take j all)"
    unfolding rd(2) unat_of_nat using seg(4) by (intro mod_less) simp
  obtain it' where it': "sbi_read_block_header io it = Some it'" "container_at stream rest f ?R ?b ?ws 0 it'"
    "prev_at ?b ?ws (unat (sb_hprev all j)) 0 it'" "sbi_index it' = sbi_index_max it"
    "sbi_index_max it' = sbi_index_max it + of_nat (popcount_range ?ws)" "sbi_cont_begin it' = length f - length ?R"
    "sbi_doc it' = sbi_doc it" "sbi_origin it' = sbi_origin it" "sbi_blocks it' = sbi_blocks it" "sbi_prev_written it' = sbi_prev_written it"
    "sbi_track it' = sbi_track it"
  proof -
    have "unat (sbi_index_max it) + popcount_range ?ws < 2 ^ 32" "sbi_track it \<longrightarrow> sbi_prev_written it" using um seg(4) rd(3,4) by simp_all
    note h = header_correct [OF rd(1) r seg(1,2,3) this seg(5)]
    show thesis using h by (elim exE conjE) (rule that)
  qed
  have "c + sb_pos pw all (j + 1) \<le> length f" using R0 pos [of "j + 1"] by (metis add_le_cancel_left le_add1 le_add_diff_inverse length_append length_drop order_trans)
  then have cb: "sbi_cont_begin it' = c + sb_pos pw all (j + 1)" using it'(6) by simp
  have im: "sbi_index_max it' = of_nat (sb_rank (take (j + 1) all))"
    using it'(5) rd(2) sb_rank_take [of j all ?b ?ws "snd (snd (all ! j))"] assms(3) by (simp add: all_def)
  have "sbi_ready stream f c pw tr segs (j + 1) it'"
    using assms(2) it' cb im container_stream [OF it'(2)] unfolding sbi_ready_def all_def by simp
  then have "sbi_opened stream rest f c pw tr segs j 0 it'"
    using it' rd(2) assms(3) cb unfolding sbi_opened_def all_def Let_def by simp
  then show ?thesis using it'(1,7) by blast
qed

lemma seek_container:
  assumes "sb_stored io stream rest f c pw segs" "stream f s"
  shows "\<exists>s'. in_seek io (c + sb_pos pw (segs @ [sb_sentinel]) k) s = Some s' \<and> stream f s' \<and> rest s' = drop (c + sb_pos pw (segs @ [sb_sentinel]) k) f"
proof (rule seek_law [OF assms(2)])
  define all where "all = segs @ [sb_sentinel]"
  obtain R where "drop c f = sb_bytes pw 0 all @ R" "c \<le> length f" using assms(1) by (auto simp: sb_stored_def sb_file_def all_def)
  then have "length (sb_bytes pw 0 all) \<le> length f - c" by (metis le_add1 length_append length_drop)
  moreover have "sb_pos pw all k \<le> length (sb_bytes pw 0 all)"
    unfolding sb_pos_def by (metis append_take_drop_id length_append le_add1 sb_bytes_append)
  ultimately show "c + sb_pos pw (segs @ [sb_sentinel]) k \<le> length f" using \<open>c \<le> length f\<close> by (simp add: all_def)
qed

lemma opened_block:
  "sbi_opened stream rest f c pw tr segs j p it \<Longrightarrow> unat (sbi_block it) = kBlockSize * seg_id (segs @ [sb_sentinel]) j \<and> sbi_seek_func it \<noteq> InitialSeek"
  by (auto simp: sbi_opened_def container_at_def Let_def split: seek_func.splits)

lemma unat_block: "b < kBlockSize \<Longrightarrow> unat (of_nat (kBlockSize * b) :: u32) = kBlockSize * b"
  using unat_doc [of b 0] by (simp add: kBlockSize_def)

lemma scan_blocks_correct:
  assumes "sb_stored io stream rest f c pw segs" "sbi_ready stream f c pw tr segs j it" "j < length (segs @ [sb_sentinel])"
    and "sbi_cont_begin it = c + sb_pos pw (segs @ [sb_sentinel]) j" "tb < kBlockSize" "\<forall>i<j. seg_id (segs @ [sb_sentinel]) i < tb"
  shows "\<exists>k it'. sbi_scan_blocks io (of_nat (kBlockSize * tb)) it = Some it' \<and> sbi_opened stream rest f c pw tr segs k 0 it' \<and>
    sbi_doc it' = sbi_doc it \<and> tb \<le> seg_id (segs @ [sb_sentinel]) k \<and> (\<forall>i<k. seg_id (segs @ [sb_sentinel]) i < tb)"
  using assms(2-4,6)
proof (induction "length (segs @ [sb_sentinel]) - j" arbitrary: j it rule: less_induct)
  case less
  let ?all = "segs @ [sb_sentinel]"
  have "stream f (sbi_in it)" using less.prems(1) by (simp add: sbi_ready_def)
  then obtain s where s: "in_seek io (sbi_cont_begin it) (sbi_in it) = Some s" "stream f s" "rest s = drop (c + sb_pos pw ?all j) f"
    using seek_container [OF assms(1)] unfolding less.prems(3) by blast
  have "sbi_ready stream f c pw tr segs j (it\<lparr>sbi_in := s\<rparr>)" using less.prems(1) s(2) by (simp add: sbi_ready_def)
  then obtain it1 where it1: "sbi_read_block_header io (it\<lparr>sbi_in := s\<rparr>) = Some it1" "sbi_opened stream rest f c pw tr segs j 0 it1"
    "sbi_doc it1 = sbi_doc it" using ready_open [OF assms(1) _ less.prems(2)] s(3) by fastforce
  have b: "sbi_block it1 < of_nat (kBlockSize * tb) \<longleftrightarrow> seg_id ?all j < tb"
    using opened_block [OF it1(2)] unat_block [OF assms(5)] by (simp add: word_less_nat_alt kBlockSize_def)
  show ?case
  proof (cases "seg_id ?all j < tb")
    case False
    then show ?thesis using s(1) it1 b less.prems(4)
      by (subst sbi_scan_blocks.simps) (intro exI [of _ j] exI [of _ it1], simp)
  next
    case True
    have j: "j + 1 < length ?all"
    proof (rule ccontr)
      assume "\<not> j + 1 < length ?all"
      then have "?all ! j = sb_sentinel" using less.prems(2) by (simp add: nth_append)
      then show False using True assms(5) by (simp add: sb_sentinel_def kBlockSize_def)
    qed
    have "sbi_ready stream f c pw tr segs (j + 1) it1" "sbi_cont_begin it1 = c + sb_pos pw ?all (j + 1)"
      using it1(2) by (simp_all add: sbi_opened_def Let_def)
    moreover have "\<forall>i<j + 1. seg_id ?all i < tb" using less.prems(4) True by (auto simp: less_Suc_eq)
    ultimately obtain k it' where "sbi_scan_blocks io (of_nat (kBlockSize * tb)) it1 = Some it'" "sbi_opened stream rest f c pw tr segs k 0 it'"
      "sbi_doc it' = sbi_doc it1" "tb \<le> seg_id ?all k" "\<forall>i<k. seg_id ?all i < tb"
    proof -
      assume rd: "sbi_ready stream f c pw tr segs (j + 1) it1" "sbi_cont_begin it1 = c + sb_pos pw ?all (j + 1)" "\<forall>i<j + 1. seg_id ?all i < tb"
      have "length ?all - (j + 1) < length ?all - j" using j by simp
      from less.hyps [OF this rd(1) j rd(2,3)] show thesis using that by blast
    qed
    then show ?thesis using s(1) it1 b True
      by (subst sbi_scan_blocks.simps) (intro exI [of _ k] exI [of _ it'], simp)
  qed
qed

lemma index_entry:
  assumes "sb_wf segs" "sb_index_ok pw segs idx" "segs = [] \<or> fst (last segs) \<noteq> 0" "tb < kBlockSize"
  shows "\<exists>k. idx ! min tb (length idx - 1) = \<lparr>sbk_index = of_nat (sb_rank (take k (segs @ [sb_sentinel]))),
      sbk_offset = of_nat (sb_pos pw (segs @ [sb_sentinel]) k)\<rparr> \<and> sb_pos pw (segs @ [sb_sentinel]) k < 2 ^ 32 \<and>
    k < length (segs @ [sb_sentinel]) \<and> tb \<le> seg_id (segs @ [sb_sentinel]) k \<and> (\<forall>i<k. seg_id (segs @ [sb_sentinel]) i < tb)"
proof -
  let ?off = "min tb (length idx - 1)" and ?all = "segs @ [sb_sentinel]"
  let ?before = "takeWhile (\<lambda>s. fst s < ?off) segs"
  let ?k = "length ?before"
  have len: "length idx = (if segs = [] \<or> fst (last segs) = 0 then 1 else min kBlockSize (fst (last segs) + 2))"
    using assms(2) by (simp add: sb_index_ok_def)
  have k: "?k \<le> length segs" by (rule length_takeWhile_le)
  have before: "?before = take ?k ?all" using k takeWhile_eq_take [of "\<lambda>s. fst s < ?off" segs] by simp
  have "?off < length idx" unfolding len by (auto simp: kBlockSize_def)
  then have e: "idx ! ?off = sb_entry pw segs ?off" using assms(2) by (simp add: sb_index_ok_def)
  have below: "fst (segs ! i) < ?off" if "i < ?k" for i
    using that nth_mem [OF that] set_takeWhileD takeWhile_nth [OF that] by (metis (no_types, lifting))
  have ids: "\<forall>i<?k. seg_id ?all i < tb" using below k by (auto simp: nth_append)
  have "tb \<le> seg_id ?all ?k"
  proof (cases "?k < length segs")
    case False
    then have "?all ! ?k = sb_sentinel" using k by (simp add: nth_append)
    then show ?thesis using assms(4) by (simp add: sb_sentinel_def kBlockSize_def)
  next
    case True
    then have off: "?off \<le> fst (segs ! ?k)" using nth_length_takeWhile [OF True] by (simp only: not_less)
    have ne: "segs \<noteq> []" using True by auto
    have le: "fst (segs ! ?k) \<le> fst (last segs)" using sb_last_id [OF assms(1)] nth_mem [OF True] by blast
    have "length idx - 1 = min (kBlockSize - 1) (fst (last segs) + 1)" using len ne assms(3) by (auto simp: kBlockSize_def)
    then show ?thesis using off le True assms(4) by (simp add: nth_append min_def split: if_splits)
  qed
  moreover have "sb_wf ?before" by (subst takeWhile_eq_take) (rule sb_wf_take [OF assms(1)])
  then have "length (sb_bytes pw 0 ?before) < 2 ^ 32" by (rule sb_offset_less)
  then have "sb_pos pw ?all ?k < 2 ^ 32" unfolding sb_pos_def before [symmetric] .
  moreover have "idx ! ?off = \<lparr>sbk_index = of_nat (sb_rank (take ?k ?all)), sbk_offset = of_nat (sb_pos pw ?all ?k)\<rparr>"
    unfolding e sb_entry_def sb_pos_def Let_def before [symmetric] ..
  ultimately show ?thesis using ids k by (intro exI [of _ ?k]) simp
qed

lemma seek_to_block_correct:
  assumes "sb_stored io stream rest f c pw segs" "sbi_ready stream f c pw tr segs j it" "j < length (segs @ [sb_sentinel])"
    and "sbi_cont_begin it = c + sb_pos pw (segs @ [sb_sentinel]) j" "tb < kBlockSize" "\<forall>i<j. seg_id (segs @ [sb_sentinel]) i < tb"
  shows "\<exists>k it'. sbi_seek_to_block io (of_nat (kBlockSize * tb)) it = Some it' \<and> sbi_opened stream rest f c pw tr segs k 0 it' \<and>
    sbi_doc it' = sbi_doc it \<and> tb \<le> seg_id (segs @ [sb_sentinel]) k \<and> (\<forall>i<k. seg_id (segs @ [sb_sentinel]) i < tb)"
proof -
  let ?all = "segs @ [sb_sentinel]" and ?t = "of_nat (kBlockSize * tb) :: u32"
  have t: "unat (?t div 65536) = tb" using unat_block [OF assms(5)] by (simp add: unat_div kBlockSize_def)
  show ?thesis
  proof (cases "sbi_blocks it \<noteq> [] \<and> sbi_block it div 65536 + kBlockScanThreshold \<le> ?t div 65536")
    case False
    then have "sbi_seek_to_block io ?t it = sbi_scan_blocks io ?t it" by (auto simp: sbi_seek_to_block_def Let_def)
    then show ?thesis using scan_blocks_correct [OF assms] by simp
  next
    case True
    have rd: "stream f (sbi_in it)" "sb_index_ok pw segs (sbi_blocks it)" "segs = [] \<or> fst (last segs) \<noteq> 0" "sbi_origin it = c"
      using assms(2) True by (simp_all add: sbi_ready_def)
    have wf: "sb_wf segs" using assms(1) by (simp add: sb_stored_def)
    let ?e = "sbi_blocks it ! min tb (length (sbi_blocks it) - 1)"
    obtain k where k: "?e = \<lparr>sbk_index = of_nat (sb_rank (take k ?all)), sbk_offset = of_nat (sb_pos pw ?all k)\<rparr>"
      "sb_pos pw ?all k < 2 ^ 32" "k < length ?all" "tb \<le> seg_id ?all k" "\<forall>i<k. seg_id ?all i < tb"
      using index_entry [OF wf rd(2,3) assms(5)] by blast
    have off: "sbi_origin it + unat (sbk_offset ?e) = c + sb_pos pw ?all k"
      using k(1,2) rd(4) by (simp add: unat_of_nat)
    obtain s where s: "in_seek io (sbi_origin it + unat (sbk_offset ?e)) (sbi_in it) = Some s" "stream f s" "rest s = drop (c + sb_pos pw ?all k) f"
      using seek_container [OF assms(1) rd(1)] unfolding off by blast
    let ?it1 = "it\<lparr>sbi_index_max := sbk_index ?e, sbi_in := s\<rparr>"
    have "sbi_ready stream f c pw tr segs k ?it1" using assms(2) s(2) k(1) by (simp add: sbi_ready_def)
    then obtain it' where "sbi_read_block_header io ?it1 = Some it'" "sbi_opened stream rest f c pw tr segs k 0 it'" "sbi_doc it' = sbi_doc it"
      using ready_open [OF assms(1) _ k(3), of tr ?it1] s(3) by auto
    then show ?thesis using True s(1) k(4,5) t by (intro exI [of _ k] exI [of _ it']) (simp add: sbi_seek_to_block_def Let_def)
  qed
qed

end

section \<open>Seeking\<close>

lemma sb_docsI: "s \<in> set segs \<Longrightarrow> x \<in> words_set (fst (snd s)) \<Longrightarrow> kBlockSize * fst s + x \<in> sb_docs segs"
  unfolding sb_docs_def by (rule UN_I, assumption) (simp add: case_prod_unfold)

text \<open>The documents of the containers are in order.\<close>

lemma seg_ordered:
  assumes "sb_stored io stream rest f c pw segs" "i < j" "j < length (segs @ [sb_sentinel])"
  defines "all \<equiv> segs @ [sb_sentinel]"
  assumes "x \<in> words_set (seg_words all i)" "y \<in> words_set (seg_words all j)"
  shows "kBlockSize * seg_id all i + x < kBlockSize * seg_id all j + y" "seg_id all i \<le> seg_id all j"
proof -
  have i: "i < length segs" "all ! i = segs ! i" using assms(2,3) by (simp_all add: all_def nth_append)
  have wf: "sb_wf segs" using assms(1) by (simp add: sb_stored_def)
  have xK: "x < kBlockSize" using words_set_less [OF seg_facts(1) [OF assms(1), of i] assms(5) [unfolded all_def]] i(1) by simp
  have "kBlockSize * seg_id all i + x < kBlockSize * seg_id all j + y \<and> seg_id all i \<le> seg_id all j"
  proof (cases "j < length segs")
    case True
    then have "seg_id segs i < seg_id segs j" using wf assms(2) sorted_wrt_nth_less [of "(<)" "map fst segs" i j] by (simp add: sb_wf_def)
    moreover have "all ! j = segs ! j" using True by (simp add: all_def nth_append)
    ultimately show ?thesis using i(2) xK by (simp add: kBlockSize_def)
  next
    case False
    then have j: "all ! j = sb_sentinel" using assms(3) by (simp add: all_def nth_append)
    then have y: "y = 65535" using assms(6) sentinel_set by simp
    have "segs ! i \<in> set segs" using i(1) by simp
    then have "kBlockSize * seg_id segs i + x \<in> sb_docs segs" using assms(5) i(2) sb_docsI by simp
    then have "kBlockSize * seg_id segs i + x < doc_eof" using assms(1) doc_set_less by (auto simp: sb_stored_def)
    moreover have "seg_id segs i < kBlockSize" using wf \<open>segs ! i \<in> set segs\<close> by (auto simp: sb_wf_def)
    ultimately show ?thesis using i(2) j y by (simp add: sb_sentinel_def doc_eof_def kBlockSize_def)
  qed
  then show "kBlockSize * seg_id all i + x < kBlockSize * seg_id all j + y" "seg_id all i \<le> seg_id all j" by auto
qed

lemma seg_doc:
  assumes "sb_stored io stream rest f c pw segs" "j < length (segs @ [sb_sentinel])" "x \<in> words_set (seg_words (segs @ [sb_sentinel]) j)"
  shows "j < length segs \<and> kBlockSize * seg_id (segs @ [sb_sentinel]) j + x \<in> sb_docs segs \<or>
    j = length segs \<and> kBlockSize * seg_id (segs @ [sb_sentinel]) j + x = doc_eof"
proof (cases "j < length segs")
  case True
  then have "segs ! j \<in> set segs" "(segs @ [sb_sentinel]) ! j = segs ! j" by (simp_all add: nth_append)
  then show ?thesis using assms(3) True sb_docsI by simp
next
  case False
  then have "(segs @ [sb_sentinel]) ! j = sb_sentinel" using assms(2) by (simp add: nth_append)
  then show ?thesis using False assms(2,3) sentinel_set by (simp add: sb_sentinel_def doc_eof_def kBlockSize_def)
qed

lemma doc_seg:
  "d \<in> sb_docs segs \<Longrightarrow> \<exists>j x. j < length segs \<and> x \<in> words_set (seg_words (segs @ [sb_sentinel]) j) \<and>
    d = kBlockSize * seg_id (segs @ [sb_sentinel]) j + x"
proof -
  assume "d \<in> sb_docs segs"
  then obtain s x where s: "s \<in> set segs" "x \<in> words_set (fst (snd s))" "d = kBlockSize * fst s + x" by (auto simp: sb_docs_def)
  then obtain j where "j < length segs" "segs ! j = s" by (meson in_set_conv_nth)
  then show ?thesis using s by (intro exI [of _ j] exI [of _ x]) (simp add: nth_append)
qed

lemma least_doc:
  assumes "sb_stored io stream rest f c pw segs" "j < length (segs @ [sb_sentinel])"
  defines "all \<equiv> segs @ [sb_sentinel]"
  assumes "\<forall>i<j. \<forall>x\<in>words_set (seg_words all i). kBlockSize * seg_id all i + x < t"
    and "\<forall>x\<in>words_set (seg_words all j). u \<le> x \<longleftrightarrow> t \<le> kBlockSize * seg_id all j + x" "next_in (seg_words all j) u v"
  shows "kBlockSize * seg_id all j + v = first_ge (sb_docs segs) t"
proof -
  let ?d = "kBlockSize * seg_id all j + v"
  have v: "v \<in> words_set (seg_words all j)" "u \<le> v" "\<forall>x\<in>words_set (seg_words all j). u \<le> x \<longrightarrow> v \<le> x"
    using assms(6) by (auto simp: next_in_def)
  have least: "?d \<le> e" if e: "e \<in> sb_docs segs" "t \<le> e" for e
  proof -
    obtain i x where i: "i < length segs" "x \<in> words_set (seg_words all i)" "e = kBlockSize * seg_id all i + x"
      using doc_seg [OF e(1)] by (auto simp: all_def)
    consider "i < j" | "i = j" | "j < i" by linarith
    then show ?thesis
    proof cases
      case 1
      then have "e < t" using assms(4) i(2,3) by blast
      then show ?thesis using e(2) by simp
    next
      case 2
      then show ?thesis using i e(2) v(3) assms(5) by auto
    next
      case 3
      then show ?thesis using seg_ordered(1) [OF assms(1) 3] i v(1) unfolding all_def by (simp add: less_imp_le)
    qed
  qed
  have tv: "t \<le> ?d" using assms(5) v(1,2) by blast
  from seg_doc [OF assms(1,2)] v(1) consider "?d \<in> sb_docs segs" | "?d = doc_eof" unfolding all_def by blast
  then show ?thesis
  proof cases
    case 1
    then have "?d < doc_eof" using assms(1) doc_set_less by (auto simp: sb_stored_def)
    then show ?thesis using 1 tv least by (intro first_ge_eqI [symmetric]) auto
  next
    case 2
    then show ?thesis using least by (metis first_ge_eofI)
  qed
qed

text \<open>The iterator stands on a document.\<close>

definition sbi_on ::
  "(u8 list \<Rightarrow> 'i \<Rightarrow> bool) \<Rightarrow> ('i \<Rightarrow> u8 list) \<Rightarrow> u8 list \<Rightarrow> nat \<Rightarrow> bool \<Rightarrow> bool \<Rightarrow> segment list \<Rightarrow> nat \<Rightarrow> 'i sparse_it \<Rightarrow> bool" where
  "sbi_on stream rest f c pw tr segs d it \<longleftrightarrow> (\<exists>j v. sbi_opened stream rest f c pw tr segs j (v + 1) it \<and>
     (let all = segs @ [sb_sentinel] in d = kBlockSize * seg_id all j + v \<and> v \<in> words_set (seg_words all j) \<and>
       sbi_value_index it = of_nat (sb_rank (take j all) + card {i \<in> words_set (seg_words all j). i < v})))"

context index_source
begin

lemma opened_found:
  assumes "sb_stored io stream rest f c pw segs" "sbi_opened stream rest f c pw tr segs j p it"
    and "container_found stream rest f (drop (c + sb_pos pw (segs @ [sb_sentinel]) (j + 1)) f) (seg_id (segs @ [sb_sentinel]) j)
      (seg_words (segs @ [sb_sentinel]) j) (unat (sb_hprev (segs @ [sb_sentinel]) j)) v it it'"
    and "v \<in> words_set (seg_words (segs @ [sb_sentinel]) j)"
  shows "sbi_on stream rest f c pw tr segs (kBlockSize * seg_id (segs @ [sb_sentinel]) j + v) it'"
proof -
  let ?all = "segs @ [sb_sentinel]"
  note o = assms(2) [unfolded sbi_opened_def Let_def] and cf = assms(3) [unfolded container_found_def]
  have sb: "same_block it it'" using cf by blast
  have "stream f (sbi_in it')" using cf container_stream by blast
  then have "sbi_ready stream f c pw tr segs (j + 1) it'" using ready_same [OF _ sb] o by blast
  then have "sbi_opened stream rest f c pw tr segs j (v + 1) it'"
    unfolding sbi_opened_def Let_def using o cf sb by (simp add: same_block_def)
  moreover have "sbi_value_index it' = of_nat (sb_rank (take j ?all) + card {i \<in> words_set (seg_words ?all j). i < v})" using o cf by simp
  ultimately show ?thesis unfolding sbi_on_def Let_def using assms(4) by blast
qed

lemma on_doc: "sb_stored io stream rest f c pw segs \<Longrightarrow> sbi_on stream rest f c pw tr segs d it \<Longrightarrow> unat (sbi_doc it) = d"
  by (auto simp: sbi_on_def sbi_opened_def container_at_def Let_def)

text \<open>The call on an open container.\<close>

lemma opened_container:
  assumes "sb_stored io stream rest f c pw segs" "sbi_opened stream rest f c pw tr segs j p it" "p \<le> u" "u < kBlockSize"
  shows "\<exists>found it'. sbi_container io (of_nat (kBlockSize * seg_id (segs @ [sb_sentinel]) j + u)) it = Some (found, it') \<and>
    (if found then \<exists>v. next_in (seg_words (segs @ [sb_sentinel]) j) u v \<and>
       sbi_on stream rest f c pw tr segs (kBlockSize * seg_id (segs @ [sb_sentinel]) j + v) it'
     else (\<forall>i\<in>words_set (seg_words (segs @ [sb_sentinel]) j). i < u) \<and> sbi_ready stream f c pw tr segs (j + 1) it' \<and>
       rest (sbi_in it') = drop (c + sb_pos pw (segs @ [sb_sentinel]) (j + 1)) f)"
proof -
  let ?all = "segs @ [sb_sentinel]"
  note o = assms(2) [unfolded sbi_opened_def Let_def]
  obtain found it' where r: "sbi_container io (of_nat (kBlockSize * seg_id ?all j + u)) it = Some (found, it')"
    "container_result stream rest f (drop (c + sb_pos pw ?all (j + 1)) f) (seg_id ?all j) (seg_words ?all j) (unat (sb_hprev ?all j)) u it found it'"
    using container_correct [OF _ _ assms(3,4)] o by blast
  show ?thesis
  proof (cases found)
    case True
    then obtain v where v: "next_in (seg_words ?all j) u v"
      "container_found stream rest f (drop (c + sb_pos pw ?all (j + 1)) f) (seg_id ?all j) (seg_words ?all j) (unat (sb_hprev ?all j)) v it it'"
      using r(2) by (auto simp: container_result_def)
    have "v \<in> words_set (seg_words ?all j)" using v(1) by (simp add: next_in_def)
    from opened_found [OF assms(1,2) v(2) this] show ?thesis using r(1) v(1) True by auto
  next
    case False
    then have "sbi_ready stream f c pw tr segs (j + 1) it'"
      using r(2) o ready_same [of stream f c pw tr segs "j + 1" it it'] by (simp add: container_result_def)
    then show ?thesis using r False by (auto simp: container_result_def)
  qed
qed

lemma first_of_container:
  assumes "sb_stored io stream rest f c pw segs" "sbi_opened stream rest f c pw tr segs j 0 it"
    and "\<forall>i<j. \<forall>x\<in>words_set (seg_words (segs @ [sb_sentinel]) i). kBlockSize * seg_id (segs @ [sb_sentinel]) i + x < t"
    and "\<forall>x\<in>words_set (seg_words (segs @ [sb_sentinel]) j). t \<le> kBlockSize * seg_id (segs @ [sb_sentinel]) j + x"
  shows "\<exists>found it'. sbi_container io (sbi_block it) it = Some (found, it') \<and> sbi_on stream rest f c pw tr segs (first_ge (sb_docs segs) t) it'"
proof -
  let ?all = "segs @ [sb_sentinel]"
  have j: "j < length ?all" using assms(2) by (simp add: sbi_opened_def Let_def)
  note seg = seg_facts [OF assms(1) j]
  have b: "sbi_block it = of_nat (kBlockSize * seg_id ?all j + 0)"
    unfolding add_0_right by (rule block_word) (use opened_block [OF assms(2)] in blast)
  have "0 < kBlockSize" by (simp add: kBlockSize_def)
  from opened_container [OF assms(1,2) le_refl this]
  obtain found it' where r: "sbi_container io (sbi_block it) it = Some (found, it')"
    "if found then \<exists>v. next_in (seg_words ?all j) 0 v \<and> sbi_on stream rest f c pw tr segs (kBlockSize * seg_id ?all j + v) it'
     else (\<forall>i\<in>words_set (seg_words ?all j). i < 0) \<and> sbi_ready stream f c pw tr segs (j + 1) it' \<and>
       rest (sbi_in it') = drop (c + sb_pos pw ?all (j + 1)) f" unfolding b by blast
  then obtain v where v: "next_in (seg_words ?all j) 0 v" "sbi_on stream rest f c pw tr segs (kBlockSize * seg_id ?all j + v) it'"
    using seg(3) by (cases found) auto
  have "kBlockSize * seg_id ?all j + v = first_ge (sb_docs segs) t"
    using least_doc [OF assms(1) j assms(3) _ v(1)] assms(4) by simp
  then show ?thesis using r(1) v(2) by auto
qed

text \<open>\<open>seek\<close>, when the block of the target is not behind the open container.\<close>

lemma seek_here:
  assumes "sb_stored io stream rest f c pw segs" "sbi_opened stream rest f c pw tr segs j p it" "sbi_doc it < target"
    and "unat target div kBlockSize \<le> seg_id (segs @ [sb_sentinel]) j"
    and "\<forall>i<j. \<forall>x\<in>words_set (seg_words (segs @ [sb_sentinel]) i). kBlockSize * seg_id (segs @ [sb_sentinel]) i + x < unat target"
    and "p \<le> (if seg_id (segs @ [sb_sentinel]) j = unat target div kBlockSize then unat target mod kBlockSize else 0)"
    and "\<And>t it. sbi_seek_func it \<noteq> InitialSeek \<Longrightarrow> call t it = sbi_container io t it"
  shows "\<exists>it'. sbi_seek_by io call target it = Some (sbi_doc it', it') \<and> sbi_on stream rest f c pw tr segs (first_ge (sb_docs segs) (unat target)) it'"
proof -
  let ?all = "segs @ [sb_sentinel]" and ?q = "unat target div kBlockSize" and ?u = "unat target mod kBlockSize"
  let ?tb = "of_nat (kBlockSize * ?q) :: u32"
  have j: "j < length ?all" using assms(2) by (simp add: sbi_opened_def Let_def)
  note seg = seg_facts [OF assms(1) j] and ob = opened_block [OF assms(2)]
  have q: "?q < kBlockSize" using unsigned_less [of target, where ?'a = nat] by (simp add: kBlockSize_def less_mult_imp_div_less)
  have u: "?u < kBlockSize" by (simp add: kBlockSize_def)
  have mask: "target AND 0xFFFF0000 = ?tb" by (simp add: and_high kBlockSize_def)
  have eq: "sbi_block it = ?tb \<longleftrightarrow> seg_id ?all j = ?q"
    using ob unat_block [OF q] by (metis mult_cancel_left kBlockSize_def unsigned_word_eqI zero_neq_numeral word_unat_eq_iff)
  have nl: "\<not> sbi_block it < ?tb" using ob assms(4) unat_block [OF q] by (simp add: word_less_nat_alt)
  have start: "sbi_seek_by io call target it = do {
        (found, it2) \<leftarrow> (if sbi_block it = ?tb then call target it else Some (False, it));
        if found then Some (sbi_doc it2, it2)
        else do {
          it3 \<leftarrow> (if sbi_block it = ?tb then sbi_read_block_header io it2 else Some it2);
          (_, it4) \<leftarrow> call (sbi_block it3) it3;
          Some (sbi_doc it4, it4)
        }
      }" using assms(3) nl unfolding sbi_seek_by_def mask Let_def by (simp add: not_le [symmetric])
  have c: "call t it = sbi_container io t it" for t using ob assms(7) by blast
  have far: "unat target \<le> kBlockSize * m + x" if "?q < m" for m x
  proof -
    have "kBlockSize * (?q + 1) \<le> kBlockSize * m" using that by (intro mult_le_mono2) simp
    moreover have "unat target < kBlockSize * (?q + 1)"
      using u mult_div_mod_eq [of kBlockSize "unat target"] by (simp only: distrib_left mult_1_right)
    ultimately show ?thesis by linarith
  qed
  show ?thesis
  proof (cases "seg_id ?all j = ?q")
    case False
    have "unat target \<le> kBlockSize * seg_id ?all j + x" for x using False assms(4) by (intro far) simp
    moreover have "p = 0" using assms(6) False by simp
    ultimately obtain found it' where "sbi_container io (sbi_block it) it = Some (found, it')"
      "sbi_on stream rest f c pw tr segs (first_ge (sb_docs segs) (unat target)) it'"
      using first_of_container [OF assms(1) _ assms(5)] assms(2) by blast
    then show ?thesis unfolding start using False eq c by auto
  next
    case True
    have tgt: "target = of_nat (kBlockSize * seg_id ?all j + ?u)" unfolding True by simp
    have "p \<le> ?u" using assms(6) True by simp
    from opened_container [OF assms(1,2) this u]
    obtain found it2 where r: "sbi_container io target it = Some (found, it2)"
      "if found then \<exists>v. next_in (seg_words ?all j) ?u v \<and> sbi_on stream rest f c pw tr segs (kBlockSize * seg_id ?all j + v) it2
       else (\<forall>i\<in>words_set (seg_words ?all j). i < ?u) \<and> sbi_ready stream f c pw tr segs (j + 1) it2 \<and>
         rest (sbi_in it2) = drop (c + sb_pos pw ?all (j + 1)) f" unfolding tgt [symmetric] by blast
    show ?thesis
    proof (cases found)
      case found: True
      then obtain v where v: "next_in (seg_words ?all j) ?u v" "sbi_on stream rest f c pw tr segs (kBlockSize * seg_id ?all j + v) it2"
        using r(2) by auto
      have "\<forall>x\<in>words_set (seg_words ?all j). ?u \<le> x \<longleftrightarrow> unat target \<le> kBlockSize * seg_id ?all j + x"
        unfolding True using mult_div_mod_eq [of kBlockSize "unat target"] by (metis add_le_cancel_left)
      from least_doc [OF assms(1) j assms(5) this v(1)] show ?thesis unfolding start using found r(1) v(2) True eq c by simp
    next
      case False
      then have nf: "\<forall>i\<in>words_set (seg_words ?all j). i < ?u" "sbi_ready stream f c pw tr segs (j + 1) it2"
        "rest (sbi_in it2) = drop (c + sb_pos pw ?all (j + 1)) f" using r(2) by simp_all
      have jl: "j < length segs"
      proof (rule ccontr)
        assume "\<not> j < length segs"
        then have "?all ! j = sb_sentinel" using j by (simp add: nth_append)
        then show False using nf(1) u sentinel_set by (simp add: kBlockSize_def)
      qed
      then have j1: "j + 1 < length ?all" by simp
      obtain it3 where it3: "sbi_read_block_header io it2 = Some it3" "sbi_opened stream rest f c pw tr segs (j + 1) 0 it3"
        using ready_open [OF assms(1) nf(2) j1 nf(3)] by blast
      have below: "kBlockSize * seg_id ?all j + x < unat target" if "x \<in> words_set (seg_words ?all j)" for x
        using nf(1) that mult_div_mod_eq [of kBlockSize "unat target"] unfolding True by (metis add_less_cancel_left)
      have b1: "\<forall>i<j + 1. \<forall>x\<in>words_set (seg_words ?all i). kBlockSize * seg_id ?all i + x < unat target"
        using assms(5) below by (auto simp: less_Suc_eq)
      have b2: "\<forall>x\<in>words_set (seg_words ?all (j + 1)). unat target \<le> kBlockSize * seg_id ?all (j + 1) + x"
      proof
        fix x assume x: "x \<in> words_set (seg_words ?all (j + 1))"
        show "unat target \<le> kBlockSize * seg_id ?all (j + 1) + x"
        proof (cases "j + 1 < length segs")
          case lt: True
          have "seg_id segs j < seg_id segs (j + 1)"
            using lt assms(1) sorted_wrt_nth_less [of "(<)" "map fst segs" j "j + 1"] by (simp add: sb_stored_def sb_wf_def)
          then show ?thesis using True lt jl by (intro far) (simp add: nth_append)
        next
          case False
          then have "kBlockSize * seg_id ?all (j + 1) + x = doc_eof" using seg_doc [OF assms(1) j1 x] by auto
          then show ?thesis using unsigned_less [of target, where ?'a = nat] by (simp add: doc_eof_def)
        qed
      qed
      obtain found' it4 where "sbi_container io (sbi_block it3) it3 = Some (found', it4)"
        "sbi_on stream rest f c pw tr segs (first_ge (sb_docs segs) (unat target)) it4"
        using first_of_container [OF assms(1) it3(2) b1 b2] by blast
      then show ?thesis unfolding start using False r(1) True eq c it3(1) opened_block [OF it3(2)] assms(7) by simp
    qed
  qed
qed

text \<open>\<open>seek\<close>, when it has to look for the container.\<close>

lemma seek_far:
  assumes "sb_stored io stream rest f c pw segs" "sbi_ready stream f c pw tr segs j it" "j < length (segs @ [sb_sentinel])"
    and "sbi_cont_begin it = c + sb_pos pw (segs @ [sb_sentinel]) j" "sbi_doc it < target"
    and "\<forall>i<j. seg_id (segs @ [sb_sentinel]) i < unat target div kBlockSize"
    and "unat (sbi_block it) < kBlockSize * (unat target div kBlockSize)"
    and "\<And>t it. sbi_seek_func it \<noteq> InitialSeek \<Longrightarrow> call t it = sbi_container io t it"
  shows "\<exists>it'. sbi_seek_by io call target it = Some (sbi_doc it', it') \<and> sbi_on stream rest f c pw tr segs (first_ge (sb_docs segs) (unat target)) it'"
proof -
  let ?all = "segs @ [sb_sentinel]" and ?q = "unat target div kBlockSize"
  let ?tb = "of_nat (kBlockSize * ?q) :: u32"
  have q: "?q < kBlockSize" using unsigned_less [of target, where ?'a = nat] by (simp add: kBlockSize_def less_mult_imp_div_less)
  have mask: "target AND 0xFFFF0000 = ?tb" by (simp add: and_high kBlockSize_def)
  obtain k it1 where it1: "sbi_seek_to_block io ?tb it = Some it1" "sbi_opened stream rest f c pw tr segs k 0 it1" "sbi_doc it1 = sbi_doc it"
    "?q \<le> seg_id ?all k" "\<forall>i<k. seg_id ?all i < ?q" using seek_to_block_correct [OF assms(1-4) q assms(6)] by blast
  have lt: "sbi_block it < ?tb" using assms(7) unat_block [OF q] by (simp add: word_less_nat_alt)
  have nl: "\<not> sbi_block it1 < ?tb" using opened_block [OF it1(2)] it1(4) unat_block [OF q] by (simp add: word_less_nat_alt)
  have same: "sbi_seek_by io call target it = sbi_seek_by io call target it1"
    unfolding sbi_seek_by_def mask Let_def it1(3) using lt nl it1(1) assms(5) by (simp add: not_le [symmetric])
  have k: "k < length ?all" using it1(2) by (simp add: sbi_opened_def Let_def)
  have "kBlockSize * seg_id ?all i + x < unat target" if "i < k" "x \<in> words_set (seg_words ?all i)" for i x
  proof -
    have "x < kBlockSize" using words_set_less [OF seg_facts(1) [OF assms(1), of i] that(2)] that(1) k by simp
    moreover have "kBlockSize * (seg_id ?all i + 1) \<le> kBlockSize * ?q" using it1(5) that(1) by (intro mult_le_mono2) (simp add: Suc_le_eq)
    moreover have "kBlockSize * ?q \<le> unat target" by simp
    ultimately show ?thesis by (simp only: distrib_left mult_1_right)
  qed
  then show ?thesis unfolding same using it1(3,4) assms(5,8) by (intro seek_here [OF assms(1) it1(2)]) auto
qed

end

text \<open>The iterator before its first document.\<close>

definition sbi_fresh ::
  "(u8 list \<Rightarrow> 'i \<Rightarrow> bool) \<Rightarrow> ('i \<Rightarrow> u8 list) \<Rightarrow> u8 list \<Rightarrow> nat \<Rightarrow> bool \<Rightarrow> bool \<Rightarrow> segment list \<Rightarrow> 'i sparse_it \<Rightarrow> bool" where
  "sbi_fresh stream rest f c pw tr segs it \<longleftrightarrow> sbi_ready stream f c pw tr segs 0 it \<and> rest (sbi_in it) = drop c f \<and> sbi_cont_begin it = c \<and>
     sbi_seek_func it = InitialSeek \<and> sbi_doc it = 0 \<and> sbi_block it = 0"

context index_source
begin

lemma sbi_call_container: "sbi_seek_func it \<noteq> InitialSeek \<Longrightarrow> sbi_call io t it = sbi_container io t it"
  by (cases "sbi_seek_func it") (simp_all add: sbi_call_def)

lemma seek_fresh:
  assumes "sb_stored io stream rest f c pw segs" "sbi_fresh stream rest f c pw tr segs it" "target \<noteq> 0"
  shows "\<exists>it'. sbi_seek io target it = Some (sbi_doc it', it') \<and> sbi_on stream rest f c pw tr segs (first_ge (sb_docs segs) (unat target)) it'"
proof (cases "unat target div kBlockSize = 0")
  case False
  then show ?thesis unfolding sbi_seek_def using assms
    by (intro seek_far [where j = 0]) (simp_all add: sbi_fresh_def sb_pos_def sbi_call_container word_neq_0_conv kBlockSize_def)
next
  case True
  let ?all = "segs @ [sb_sentinel]"
  have mask: "target AND 0xFFFF0000 = 0" using True by (simp add: and_high kBlockSize_def)
  have fr: "sbi_ready stream f c pw tr segs 0 it" "rest (sbi_in it) = drop (c + sb_pos pw ?all 0) f" "sbi_seek_func it = InitialSeek"
    "sbi_doc it = 0" "sbi_block it = 0" using assms(2) by (simp_all add: sbi_fresh_def sb_pos_def)
  obtain it1 where it1: "sbi_read_block_header io it = Some it1" "sbi_opened stream rest f c pw tr segs 0 0 it1" "sbi_doc it1 = 0"
    using ready_open [OF assms(1) fr(1) _ fr(2)] fr(4) by auto
  have "\<exists>it'. sbi_seek_by io (sbi_container io) target it1 = Some (sbi_doc it', it') \<and>
    sbi_on stream rest f c pw tr segs (first_ge (sb_docs segs) (unat target)) it'"
    using it1(3) assms(3) True by (intro seek_here [OF assms(1) it1(2)]) (simp_all add: word_neq_0_conv)
  then obtain it' where it': "sbi_seek_by io (sbi_container io) target it1 = Some (sbi_doc it', it')"
    "sbi_on stream rest f c pw tr segs (first_ge (sb_docs segs) (unat target)) it'" by blast
  have "sbi_seek io target it = Some (sbi_doc it', it')"
    using fr(3-5) mask it1(1) it'(1) assms(3) by (simp add: sbi_seek_def sbi_seek_by_def [of io "sbi_call io"] sbi_call_def)
  then show ?thesis using it'(2) by blast
qed

lemma seek_on:
  assumes "sb_stored io stream rest f c pw segs" "sbi_on stream rest f c pw tr segs d it" "d < unat target"
  shows "\<exists>it'. sbi_seek io target it = Some (sbi_doc it', it') \<and> sbi_on stream rest f c pw tr segs (first_ge (sb_docs segs) (unat target)) it'"
proof -
  let ?all = "segs @ [sb_sentinel]" and ?q = "unat target div kBlockSize"
  obtain j v where o: "sbi_opened stream rest f c pw tr segs j (v + 1) it" "d = kBlockSize * seg_id ?all j + v" "v \<in> words_set (seg_words ?all j)"
    using assms(2) unfolding sbi_on_def Let_def by blast
  have j: "j < length ?all" using o(1) by (simp add: sbi_opened_def Let_def)
  have vK: "v < kBlockSize" using words_set_less [OF seg_facts(1) [OF assms(1) j] o(3)] .
  have lt: "sbi_doc it < target" using on_doc [OF assms(1,2)] assms(3) by (simp add: word_less_nat_alt)
  have ids: "seg_id ?all j \<le> ?q"
  proof -
    have "seg_id ?all j = d div kBlockSize" using o(2) vK by (simp add: div_mult_self4 kBlockSize_def)
    then show ?thesis using assms(3) by (simp add: div_le_mono)
  qed
  have before: "kBlockSize * seg_id ?all i + x < unat target" "seg_id ?all i \<le> seg_id ?all j" if "i < j" "x \<in> words_set (seg_words ?all i)" for i x
    using seg_ordered [OF assms(1) that(1) j that(2) o(3)] o(2) assms(3) by simp_all
  show ?thesis
  proof (cases "seg_id ?all j = ?q")
    case True
    have "v < unat target mod kBlockSize"
      using assms(3) o(2) mult_div_mod_eq [of kBlockSize "unat target"] unfolding True by (metis add_less_cancel_left)
    then show ?thesis unfolding sbi_seek_def using True lt before(1)
      by (intro seek_here [OF assms(1) o(1)]) (auto simp: sbi_call_container)
  next
    case False
    then have lq: "seg_id ?all j < ?q" using ids by simp
    have q: "?q < kBlockSize" using unsigned_less [of target, where ?'a = nat] by (simp add: kBlockSize_def less_mult_imp_div_less)
    have j1: "j + 1 < length ?all"
    proof (rule ccontr)
      assume "\<not> j + 1 < length ?all"
      then have "?all ! j = sb_sentinel" using j by (simp add: nth_append)
      then show False using lq q by (simp add: sb_sentinel_def kBlockSize_def)
    qed
    have "seg_id ?all i < ?q" if "i < j + 1" for i
    proof (cases "i = j")
      case False
      then have i: "i < j" "i < length ?all" using that j by auto
      then obtain x where "x \<in> words_set (seg_words ?all i)" using seg_facts(3) [OF assms(1) i(2)] by blast
      then show ?thesis using before(2) [OF i(1)] lq by fastforce
    qed (use lq in simp)
    moreover have "unat (sbi_block it) < kBlockSize * ?q" using opened_block [OF o(1)] lq by (simp add: kBlockSize_def)
    moreover have "sbi_ready stream f c pw tr segs (j + 1) it" "sbi_cont_begin it = c + sb_pos pw ?all (j + 1)"
      using o(1) by (simp_all add: sbi_opened_def Let_def)
    ultimately show ?thesis unfolding sbi_seek_def using lt
      by (intro seek_far [OF assms(1) _ j1]) (auto simp: sbi_call_container)
  qed
qed

end

section \<open>The previous document\<close>

lemma max_word:
  assumes "w \<noteq> (0 :: u64)" "finite W" "\<forall>k<64. bit w k \<longleftrightarrow> 64 * q + k \<in> W" "\<forall>i\<in>W. i < 64 * (q + 1)"
  shows "(q + 1) * 64 - countl_zero w - 1 = Max W"
proof -
  let ?m = "64 - Suc (countl_zero w)"
  have c: "countl_zero w < 64" "bit w ?m" using countl_zero_bit [OF assms(1)] by simp_all
  have "i \<le> 64 * q + ?m" if "i \<in> W" for i
  proof (cases "i < 64 * q")
    case False
    then have i: "i = 64 * q + (i - 64 * q)" "i - 64 * q < 64" using assms(4) that by auto
    then have "bit w (i - 64 * q)" using assms(3) that by (metis (no_types, lifting))
    then show ?thesis using bit_less_bits [of w "i - 64 * q"] i(1) c(1) by simp
  qed simp
  moreover have "64 * q + ?m \<in> W" using assms(3) c by simp
  ultimately have "Max W = 64 * q + ?m" using assms(2) by (intro Max_eqI) auto
  then show ?thesis using c(1) by simp
qed

lemma scan_step:
  assumes "length ws = kNumBlocks" "i \<noteq> 0" "64 * i \<le> v" "v < kBlockSize" "\<forall>x\<in>{x \<in> words_set ws. x < v}. x < 64 * i"
  shows "i - 1 < length ws" "ws ! (i - 1) \<noteq> 0 \<Longrightarrow> i * 64 - countl_zero (ws ! (i - 1)) - 1 = Max {x \<in> words_set ws. x < v}"
    "ws ! (i - 1) = 0 \<Longrightarrow> \<forall>x\<in>{x \<in> words_set ws. x < v}. x < 64 * (i - 1)"
proof -
  let ?W = "{x \<in> words_set ws. x < v}"
  show l: "i - 1 < length ws" using assms(1-4) by (simp add: kNumBlocks_def kBlockSize_def)
  have "bit (ws ! (i - 1)) k \<longleftrightarrow> 64 * (i - 1) + k \<in> ?W" if "k < 64" for k
  proof -
    have "64 * (i - 1) + k < v" using that assms(2,3) by simp
    then show ?thesis using words_set_word [OF l, of k] that by simp
  qed
  then have bits: "\<forall>k<64. bit (ws ! (i - 1)) k \<longleftrightarrow> 64 * (i - 1) + k \<in> ?W" by blast
  have si: "i - 1 + 1 = i" using assms(2) by simp
  show "i * 64 - countl_zero (ws ! (i - 1)) - 1 = Max ?W" if "ws ! (i - 1) \<noteq> 0"
    using max_word [OF that _ bits, unfolded si] assms(5) by simp
  show "\<forall>x\<in>?W. x < 64 * (i - 1)" if "ws ! (i - 1) = 0"
  proof
    fix x assume x: "x \<in> ?W"
    show "x < 64 * (i - 1)"
    proof (rule ccontr)
      assume "\<not> x < 64 * (i - 1)"
      then have "x - 64 * (i - 1) < 64" "64 * (i - 1) + (x - 64 * (i - 1)) = x" using x assms(2,5) by auto
      then show False using bits x that by (metis (no_types, lifting) bit_0_eq bot_apply bot_bool_def)
    qed
  qed
qed

lemma scan_direct_correct:
  assumes "length ws = kNumBlocks" "sbi_data it = concat (map write_u64 ws)" "{x \<in> words_set ws. x < v} \<noteq> {}" "v < kBlockSize"
    and "64 * i \<le> v" "\<forall>x\<in>{x \<in> words_set ws. x < v}. x < 64 * i"
  shows "\<exists>w idx. sbi_scan_direct it (8 * i) i = Some (w, idx) \<and> (idx + 1) * 64 - countl_zero (hton64 w) - 1 = Max {x \<in> words_set ws. x < v}"
  using assms(5,6)
proof (induction i)
  case 0
  then show ?case using assms(3) by auto
next
  case (Suc i)
  note st = scan_step [OF assms(1) _ Suc.prems(1) assms(4) Suc.prems(2), simplified]
  have load: "sbi_load (8 * i) it = Some (hton64 (ws ! i))"
    using st(1) take_word [OF st(1)] assms(1) length_concat_const [of ws write_u64 8] by (simp add: sbi_load_def assms(2) hton64_load)
  show ?case
  proof (cases "ws ! i = 0")
    case True
    have "\<exists>w idx. sbi_scan_direct it (8 * i) i = Some (w, idx) \<and> (idx + 1) * 64 - countl_zero (hton64 w) - 1 = Max {x \<in> words_set ws. x < v}"
      using Suc.IH Suc.prems(1) st(3) [OF True] by simp
    then show ?thesis using load True by (subst sbi_scan_direct.simps) simp
  next
    case False
    then show ?thesis using load st(2) by (subst sbi_scan_direct.simps) simp
  qed
qed

context index_source
begin

lemma read_word:
  assumes "drop n f = concat (map write_u64 ws) @ R" "n \<le> length f" "i < length ws" "stream f s"
  shows "\<exists>s1 s2. in_seek io (n + 8 * i) s = Some s1 \<and> in_long io s1 = Some (ws ! i, s2) \<and> stream f s2"
proof -
  have len: "length (concat (map write_u64 ws)) = 8 * length ws" using length_concat_const [of ws write_u64 8] by simp
  have "8 * length ws \<le> length f - n" using assms(1) len by (metis le_add1 length_append length_drop)
  then have "n + 8 * i \<le> length f" using assms(2,3) by simp
  then obtain s1 where s1: "in_seek io (n + 8 * i) s = Some s1" "stream f s1" "rest s1 = drop (n + 8 * i) f" using seek_law [OF assms(4)] by blast
  have "drop (n + 8 * i) f = drop (8 * i) (drop n f)" by (simp add: add.commute)
  also have "\<dots> = concat (map write_u64 (drop i ws)) @ R" unfolding assms(1) using len assms(3) by (simp add: drop_words)
  also have "\<dots> = write_u64 (ws ! i) @ concat (map write_u64 (drop (Suc i) ws)) @ R"
    using assms(3) by (simp add: Cons_nth_drop_Suc [symmetric])
  finally have "rest s1 = write_u64 (ws ! i) @ concat (map write_u64 (drop (Suc i) ws)) @ R" using s1(3) by simp
  from long_at [OF s1(2) this] show ?thesis using s1(1) by blast
qed

lemma scan_stream_correct:
  assumes "length ws = kNumBlocks" "drop n f = concat (map write_u64 ws) @ R" "n \<le> length f" "{x \<in> words_set ws. x < v} \<noteq> {}" "v < kBlockSize"
    and "64 * i \<le> v" "\<forall>x\<in>{x \<in> words_set ws. x < v}. x < 64 * i" "stream f s"
  shows "\<exists>w idx s'. sbi_scan_stream io (n + 8 * i - 8) i s = Some (w, idx, s') \<and> stream f s' \<and>
    (idx + 1) * 64 - countl_zero w - 1 = Max {x \<in> words_set ws. x < v}"
  using assms(6-8)
proof (induction i arbitrary: s)
  case 0
  then show ?case using assms(4) by auto
next
  case (Suc i)
  note st = scan_step [OF assms(1) _ Suc.prems(1) assms(5) Suc.prems(2), simplified]
  obtain s1 s2 where s: "in_seek io (n + 8 * i) s = Some s1" "in_long io s1 = Some (ws ! i, s2)" "stream f s2"
    using read_word [OF assms(2,3) st(1) Suc.prems(3)] by blast
  show ?case
  proof (cases "ws ! i = 0")
    case True
    have "\<exists>w idx s'. sbi_scan_stream io (n + 8 * i - 8) i s2 = Some (w, idx, s') \<and> stream f s' \<and>
      (idx + 1) * 64 - countl_zero w - 1 = Max {x \<in> words_set ws. x < v}"
      using Suc.IH [OF _ _ s(3)] Suc.prems(1) st(3) [OF True] by simp
    then show ?thesis using s True by (subst sbi_scan_stream.simps) simp
  next
    case False
    then show ?thesis using s st(2) by (subst sbi_scan_stream.simps) simp
  qed
qed

lemma seek_prev_correct:
  assumes "dense_at stream rest f R ws access (int (v div 64)) it" "v < kBlockSize" "{x \<in> words_set ws. x < v} \<noteq> {}"
    and "drop n f = concat (map write_u64 ws) @ R" "n \<le> length f" "unat (sbi_doc it) = kBlockSize * b + v" "sbi_block it = of_nat (kBlockSize * b)"
  shows "\<exists>s. sbi_seek_prev io access it = Some (of_nat (kBlockSize * b + Max {x \<in> words_set ws. x < v}), it\<lparr>sbi_in := s\<rparr>) \<and>
    stream f s \<and> rest s = rest (sbi_in it)"
proof -
  let ?W = "{x \<in> words_set ws. x < v}" and ?q = "v div 64"
  have n1: "nat (int ?q + 1) = ?q + 1" by simp
  have d: "length ws = kNumBlocks" "sbi_word_idx it = int ?q" "sbi_word it = ws ! ?q" "dense_bytes stream rest f R ws access (?q + 1) it"
    using assms(1) unfolding dense_at_def n1 by auto
  have ql: "?q < length ws" using assms(2) d(1) by (simp add: kNumBlocks_def kBlockSize_def less_mult_imp_div_less)
  have st: "stream f (sbi_in it)" using d(4) by (simp add: dense_bytes_def)
  have offs: "unat (sbi_doc it) mod 64 = v mod 64"
  proof -
    have "(65536 * b + v) mod 64 = v mod 64" using mod_mult_self2 [of v 64 "1024 * b"] by (simp add: add.commute)
    then show ?thesis unfolding assms(6) by (simp add: kBlockSize_def)
  qed
  let ?w0 = "take_bit (v mod 64) (ws ! ?q)"
  have bits: "bit ?w0 k \<longleftrightarrow> 64 * ?q + k \<in> ?W" if "k < 64" for k
  proof -
    have "64 * ?q + k < v \<longleftrightarrow> k < v mod 64" using mult_div_mod_eq [of 64 v] by linarith
    then show ?thesis using words_set_word [OF ql, of k] that by (auto simp: bit_take_bit_iff)
  qed
  show ?thesis
  proof (cases "?w0 = 0")
    case False
    have "\<forall>i\<in>?W. i < 64 * (?q + 1)" by (auto simp: dividend_less_times_div)
    from max_word [OF False _ _ this] have "(?q + 1) * 64 - countl_zero ?w0 - 1 = Max ?W" using bits by simp
    then show ?thesis using False d(2,3) offs assms(7) st
      by (intro exI [of _ "sbi_in it"]) (simp add: sbi_seek_prev_def Let_def)
  next
    case True
    have below: "\<forall>x\<in>?W. x < 64 * ?q"
    proof
      fix x assume x: "x \<in> ?W"
      show "x < 64 * ?q"
      proof (rule ccontr)
        assume "\<not> x < 64 * ?q"
        then have "x - 64 * ?q < 64" "64 * ?q + (x - 64 * ?q) = x" using x mult_div_mod_eq [of 64 v] by auto
        then show False using bits [of "x - 64 * ?q"] x True by simp
      qed
    qed
    have le: "64 * ?q \<le> v" by simp
    show ?thesis
    proof (cases access)
      case AtDirect
      have dt: "sbi_data it = concat (map write_u64 ws)" "sbi_pos it - 8 = 8 * ?q" using d(4) AtDirect by (simp_all add: dense_bytes_def)
      obtain w idx where "sbi_scan_direct it (8 * ?q) ?q = Some (w, idx)" "(idx + 1) * 64 - countl_zero (hton64 w) - 1 = Max ?W"
        using scan_direct_correct [OF d(1) dt(1) assms(3,2) le below] by blast
      then show ?thesis using True AtDirect d(2,3) offs assms(7) st dt(2)
        by (intro exI [of _ "sbi_in it"]) (simp add: sbi_seek_prev_def Let_def)
    next
      case AtStream
      have r: "rest (sbi_in it) = concat (map write_u64 (drop (?q + 1) ws)) @ R" using d(4) AtStream by (simp add: dense_bytes_def)
      let ?p = "in_pointer io (sbi_in it)"
      have p: "?p \<le> length f" "rest (sbi_in it) = drop ?p f" using pointer_law [OF st] by simp_all
      have "length (concat (map write_u64 ws)) = 8 * length ws" "length (concat (map write_u64 (drop (?q + 1) ws))) = 8 * (length ws - (?q + 1))"
        using length_concat_const [of _ write_u64 8] by simp_all
      then have "length f - n = 8 * length ws + length R" "length f - ?p = 8 * (length ws - (?q + 1)) + length R"
        using arg_cong [OF assms(4), of length] arg_cong [OF r, of length] p(2) by simp_all
      then have pos: "?p - 16 = n + 8 * ?q - 8" using assms(5) p(1) ql by linarith
      obtain w idx s where s: "sbi_scan_stream io (?p - 16) ?q (sbi_in it) = Some (w, idx, s)" "stream f s"
        "(idx + 1) * 64 - countl_zero w - 1 = Max ?W"
        using scan_stream_correct [OF d(1) assms(4,5,3,2) le below st] unfolding pos by blast
      obtain s1 where s1: "in_seek io ?p s = Some s1" "stream f s1" "rest s1 = rest (sbi_in it)" using seek_law [OF s(2) p(1)] p(2) by auto
      show ?thesis using True AtStream d(2,3) offs assms(7) s s1 by (intro exI [of _ s1]) (simp add: sbi_seek_prev_def Let_def)
    qed
  qed
qed

end

section \<open>The number of a document and the document before it\<close>

text \<open>The documents below one of them.\<close>

lemma docs_below:
  assumes "sb_stored io stream rest f c pw segs" "j < length (segs @ [sb_sentinel])" "v \<in> words_set (seg_words (segs @ [sb_sentinel]) j)"
  defines "all \<equiv> segs @ [sb_sentinel]"
  shows "{e \<in> sb_docs segs. e < kBlockSize * seg_id all j + v} =
    sb_docs (take j segs) \<union> (\<lambda>i. kBlockSize * seg_id all j + i) ` {i \<in> words_set (seg_words all j). i < v}"
proof (intro set_eqI iffI)
  fix e assume "e \<in> {e \<in> sb_docs segs. e < kBlockSize * seg_id all j + v}"
  then have e: "e \<in> sb_docs segs" "e < kBlockSize * seg_id all j + v" by auto
  then obtain i x where i: "i < length segs" "x \<in> words_set (seg_words all i)" "e = kBlockSize * seg_id all i + x"
    using doc_seg unfolding all_def by blast
  have s: "all ! i = segs ! i" using i(1) by (simp add: all_def nth_append)
  consider "i < j" | "i = j" | "j < i" by linarith
  then show "e \<in> sb_docs (take j segs) \<union> (\<lambda>i. kBlockSize * seg_id all j + i) ` {i \<in> words_set (seg_words all j). i < v}"
  proof cases
    case 1
    then have "segs ! i \<in> set (take j segs)" using i(1) by (metis length_take min_less_iff_conj nth_mem nth_take)
    then show ?thesis using i(2,3) s sb_docsI by simp
  next
    case 2
    then show ?thesis using i(2,3) e(2) by simp
  next
    case 3
    have "i < length (segs @ [sb_sentinel])" using i(1) by simp
    from seg_ordered(1) [OF assms(1) 3 this assms(3)] have "kBlockSize * seg_id all j + v < e" using i(2,3) unfolding all_def by blast
    then show ?thesis using e(2) by simp
  qed
next
  fix e assume "e \<in> sb_docs (take j segs) \<union> (\<lambda>i. kBlockSize * seg_id all j + i) ` {i \<in> words_set (seg_words all j). i < v}"
  then consider "e \<in> sb_docs (take j segs)" | i where "i \<in> words_set (seg_words all j)" "i < v" "e = kBlockSize * seg_id all j + i" by blast
  then show "e \<in> {e \<in> sb_docs segs. e < kBlockSize * seg_id all j + v}"
  proof cases
    case 1
    then obtain s x where s: "s \<in> set (take j segs)" "x \<in> words_set (fst (snd s))" "e = kBlockSize * fst s + x" by (auto simp: sb_docs_def)
    then obtain i where i: "i < j" "i < length segs" "segs ! i = s" by (auto simp: in_set_conv_nth)
    then have "all ! i = s" by (simp add: all_def nth_append)
    then have "e < kBlockSize * seg_id all j + v" using seg_ordered(1) [OF assms(1) i(1) assms(2) _ assms(3)] s unfolding all_def by simp
    then show ?thesis using s sb_docsI [of s segs x] in_set_takeD [of s j segs] by simp
  next
    case 2
    then have "e < doc_eof \<or> e \<in> sb_docs segs" and "e < kBlockSize * seg_id all j + v"
      using seg_doc [OF assms(1,2), of i] seg_doc [OF assms(1-3)] unfolding all_def by auto
    then show ?thesis using 2 seg_doc [OF assms(1,2), of i] unfolding all_def by auto
  qed
qed

lemma card_sb_docs: "sb_wf segs \<Longrightarrow> card (sb_docs segs) = sb_rank segs \<and> finite (sb_docs segs)"
proof (induction segs rule: rev_induct)
  case (snoc s segs)
  obtain b ws lst where s: "s = (b, ws, lst)" by (cases s)
  have wf: "sb_wf segs" using sb_wf_take [OF snoc.prems, of "length segs"] by simp
  have len: "length ws = kNumBlocks" using snoc.prems by (simp add: sb_wf_def s)
  have "sb_docs segs \<inter> (\<lambda>i. kBlockSize * b + i) ` words_set ws = {}"
  proof (rule ccontr)
    assume "sb_docs segs \<inter> (\<lambda>i. kBlockSize * b + i) ` words_set ws \<noteq> {}"
    then obtain b' ws' lst' x y where e: "(b', ws', lst') \<in> set segs" "x \<in> words_set ws'" "kBlockSize * b' + x = kBlockSize * b + y" 
      unfolding sb_docs_def by (fastforce simp: eq_commute)
    have "b' < b" "length ws' = kNumBlocks" using snoc.prems e(1) by (auto simp: sb_wf_def sorted_wrt_append s)
    then have "x < kBlockSize" "kBlockSize * (b' + 1) \<le> kBlockSize * b" using words_set_less e(2) by (blast, intro mult_le_mono2, simp)
    then show False using e(3) by (simp only: distrib_left mult_1_right)
  qed
  then show ?case using snoc.IH [OF wf] by (simp add: s card_Un_disjoint card_image popcount_range_card)
qed simp

lemma rank_correct:
  assumes "sb_stored io stream rest f c pw segs" "sbi_on stream rest f c pw tr segs d it"
  shows "unat (sbi_value_index it) = card {e \<in> sb_docs segs. e < d}"
proof -
  let ?all = "segs @ [sb_sentinel]"
  obtain j v where o: "sbi_opened stream rest f c pw tr segs j (v + 1) it" "d = kBlockSize * seg_id ?all j + v" "v \<in> words_set (seg_words ?all j)"
    "sbi_value_index it = of_nat (sb_rank (take j ?all) + card {i \<in> words_set (seg_words ?all j). i < v})"
    using assms(2) unfolding sbi_on_def Let_def by blast
  have j: "j < length ?all" using o(1) by (simp add: sbi_opened_def Let_def)
  have wf: "sb_wf (take j segs)" using assms(1) sb_wf_take by (simp add: sb_stored_def)
  have tk: "take j ?all = take j segs" using j by simp
  have "sb_rank (take j ?all) + card {i \<in> words_set (seg_words ?all j). i < v} < 2 ^ 32"
    using seg_facts(4) [OF assms(1) j] card_below_le [of "seg_words ?all j" v] by linarith
  then have "unat (sbi_value_index it) = sb_rank (take j segs) + card {i \<in> words_set (seg_words ?all j). i < v}"
    unfolding o(4) tk unat_of_nat by (intro mod_less) simp
  also have "\<dots> = card {e \<in> sb_docs segs. e < d}"
  proof -
    have "x < kBlockSize * seg_id ?all j + i" if "x \<in> sb_docs (take j segs)" "i \<in> words_set (seg_words ?all j)" for x i
      using docs_below [OF assms(1) j that(2)] that(1) by blast
    then have "sb_docs (take j segs) \<inter> (\<lambda>i. kBlockSize * seg_id ?all j + i) ` {i \<in> words_set (seg_words ?all j). i < v} = {}" by blast
    then show ?thesis unfolding o(2) docs_below [OF assms(1) j o(3)] using card_sb_docs [OF wf]
      by (simp add: card_Un_disjoint card_image)
  qed
  finally show ?thesis .
qed

definition doc_prev :: "nat set \<Rightarrow> nat \<Rightarrow> nat" where
  "doc_prev D d = Max (insert 0 {e \<in> D. e < d})"

lemma prev_value:
  assumes "sb_stored io stream rest f c pw segs" "sb_exact segs" "j < length (segs @ [sb_sentinel])"
    and "v \<in> words_set (seg_words (segs @ [sb_sentinel]) j)"
  shows "sb_prev (seg_id (segs @ [sb_sentinel]) j) (seg_words (segs @ [sb_sentinel]) j) (unat (sb_hprev (segs @ [sb_sentinel]) j)) v =
    doc_prev (sb_docs segs) (kBlockSize * seg_id (segs @ [sb_sentinel]) j + v)"
proof -
  let ?all = "segs @ [sb_sentinel]"
  let ?W = "{i \<in> words_set (seg_words ?all j). i < v}" and ?b = "seg_id ?all j"
  have below: "{e \<in> sb_docs segs. e < kBlockSize * ?b + v} = sb_docs (take j segs) \<union> (\<lambda>i. kBlockSize * ?b + i) ` ?W"
    using docs_below [OF assms(1,3,4)] .
  have wf: "sb_wf (take j segs)" using assms(1) sb_wf_take by (simp add: sb_stored_def)
  have fin: "finite (sb_docs (take j segs))" using card_sb_docs [OF wf] by blast
  show ?thesis
  proof (cases "?W = {}")
    case False
    then have mx: "Max ?W \<in> ?W" by (intro Max_in) auto
    have "Max (insert 0 (sb_docs (take j segs) \<union> (\<lambda>i. kBlockSize * ?b + i) ` ?W)) = kBlockSize * ?b + Max ?W"
    proof (rule Max_eqI)
      fix e assume "e \<in> insert 0 (sb_docs (take j segs) \<union> (\<lambda>i. kBlockSize * ?b + i) ` ?W)"
      then consider "e = 0" | "e \<in> sb_docs (take j segs)" | i where "i \<in> ?W" "e = kBlockSize * ?b + i" by blast
      then show "e \<le> kBlockSize * ?b + Max ?W"
      proof cases
        case 2
        have "Max ?W \<in> words_set (seg_words ?all j)" using mx by blast
        from docs_below [OF assms(1,3) this] 2 have "e < kBlockSize * ?b + Max ?W" by blast
        then show ?thesis by simp
      qed simp_all
    qed (use mx fin in auto)
    then show ?thesis unfolding doc_prev_def below sb_prev_def using False by (simp only: if_False)
  next
    case True
    have below0: "{e \<in> sb_docs segs. e < kBlockSize * ?b + v} = sb_docs (take j segs)"
      unfolding below True by (simp only: image_empty Un_empty_right)
    have prev0: "sb_prev ?b (seg_words ?all j) (unat (sb_hprev ?all j)) v = unat (sb_hprev ?all j)"
      unfolding sb_prev_def True by simp
    show ?thesis
    proof (cases "j = 0")
      case True
      then show ?thesis unfolding doc_prev_def below0 prev0 by (simp add: sb_hprev_def)
    next
      case False
      let ?s = "segs ! (j - 1)"
      have j1: "j - 1 < length segs" "?all ! (j - 1) = ?s" using assms(3) False by (auto simp: nth_append)
      have tk: "take j segs = take (j - 1) segs @ [?s]" using False j1(1) by (metis Suc_diff_1 gr0I take_Suc_conv_app_nth)
      have lst: "unat (sb_hprev ?all j) = kBlockSize * fst ?s + Max (words_set (fst (snd ?s)))"
        using assms(2) nth_mem [OF j1(1)] False j1(2) by (auto simp: sb_exact_def sb_hprev_def case_prod_unfold)
      have ne: "words_set (fst (snd ?s)) \<noteq> {}" using seg_facts(3) [OF assms(1), of "j - 1"] j1 by simp
      have mx: "Max (words_set (fst (snd ?s))) \<in> words_set (fst (snd ?s))" using ne by (intro Max_in) auto
      have "Max (insert 0 (sb_docs (take j segs))) = unat (sb_hprev ?all j)"
        unfolding lst
      proof (rule Max_eqI)
        fix e assume "e \<in> insert 0 (sb_docs (take j segs))"
        then consider "e = 0" | "e \<in> sb_docs (take (j - 1) segs)" | i where "i \<in> words_set (fst (snd ?s))" "e = kBlockSize * fst ?s + i"
          unfolding tk by (auto simp: sb_docs_def case_prod_unfold)
        then show "e \<le> kBlockSize * fst ?s + Max (words_set (fst (snd ?s)))"
        proof cases
          case 2
          have l: "j - 1 < length ?all" using j1(1) by simp
          have "Max (words_set (fst (snd ?s))) \<in> words_set (seg_words ?all (j - 1))" using mx j1(2) by simp
          from docs_below [OF assms(1) l this] 2 have "e < kBlockSize * seg_id ?all (j - 1) + Max (words_set (fst (snd ?s)))" by blast
          then show ?thesis unfolding j1(2) by simp
        qed simp_all
      next
        show "finite (insert 0 (sb_docs (take j segs)))" using fin by simp
        have "?s \<in> set (take j segs)" unfolding tk by simp
        then show "kBlockSize * fst ?s + Max (words_set (fst (snd ?s))) \<in> insert 0 (sb_docs (take j segs))" using mx sb_docsI by simp
      qed
      then show ?thesis unfolding doc_prev_def below0 prev0 by simp
    qed
  qed
qed

lemma container_stream_at:
  assumes "container_at stream rest f R b ws p it" "stream f s" "rest s = rest (sbi_in it)"
  shows "container_at stream rest f R b ws p (it\<lparr>sbi_in := s\<rparr>)"
proof (cases "sbi_seek_func it")
  case (SparseSeek access track)
  then show ?thesis using assms by (cases access) (simp_all add: container_at_def sparse_at_def)
next
  case (DenseSeek access track)
  then show ?thesis using assms by (cases access) (simp_all add: container_at_def dense_at_def dense_bytes_def)
qed (use assms in \<open>simp_all add: container_at_def\<close>)

lemma prev_at_stream: "prev_at b ws q p (it\<lparr>sbi_in := s\<rparr>) = prev_at b ws q p it"
  by (cases "sbi_prev_attr it") (simp_all add: prev_at_def)

lemma on_stream_at:
  assumes "sbi_on stream rest f c pw tr segs d it" "stream f s" "rest s = rest (sbi_in it)"
  shows "sbi_on stream rest f c pw tr segs d (it\<lparr>sbi_in := s\<rparr>)"
proof -
  have "sbi_opened stream rest f c pw tr segs j p (it\<lparr>sbi_in := s\<rparr>)" if "sbi_opened stream rest f c pw tr segs j p it" for j p
    using that container_stream_at [where stream = stream and rest = rest and s = s and it = it] assms(2,3)
    by (simp add: sbi_opened_def Let_def sbi_ready_def prev_at_stream)
  then show ?thesis using assms(1) unfolding sbi_on_def by fastforce
qed

lemma dense_file:
  assumes "sb_stored io stream rest f c pw segs" "j < length (segs @ [sb_sentinel])"
    and "kBitSetThreshold < popcount_range (seg_words (segs @ [sb_sentinel]) j)" "popcount_range (seg_words (segs @ [sb_sentinel]) j) \<noteq> kBlockSize"
  shows "\<exists>n \<le> length f. drop n f = concat (map write_u64 (seg_words (segs @ [sb_sentinel]) j)) @ drop (c + sb_pos pw (segs @ [sb_sentinel]) (j + 1)) f"
proof -
  define all where "all = segs @ [sb_sentinel]"
  let ?ws = "seg_words all j"
  obtain R0 where R0: "drop c f = sb_bytes pw 0 all @ R0" "c \<le> length f" using assms(1) by (auto simp: sb_stored_def sb_file_def all_def)
  have pos: "sb_pos pw all k \<le> length (sb_bytes pw 0 all)" for k
    unfolding sb_pos_def by (metis append_take_drop_id length_append le_add1 sb_bytes_append)
  have dr: "drop (c + sb_pos pw all k) f = drop (sb_pos pw all k) (sb_bytes pw 0 all) @ R0" for k
  proof -
    have "drop (c + sb_pos pw all k) f = drop (sb_pos pw all k) (drop c f)" by (simp add: add.commute)
    then show ?thesis unfolding R0(1) using pos [of k] by simp
  qed
  let ?h = "sb_header pw (sb_hprev all j) (seg_id all j) (popcount_range ?ws) @ dense_index kDenseBlockIndexNumBlocks 0 ?ws"
  have "drop (c + sb_pos pw all j) f = ?h @ concat (map write_u64 ?ws) @ drop (c + sb_pos pw all (j + 1)) f"
    unfolding dr using sb_bytes_split [of j all "seg_id all j" ?ws "snd (snd (all ! j))" pw] assms(2-4)
    by (simp add: all_def [symmetric] sb_body_def)
  then have "drop (length ?h) (drop (c + sb_pos pw all j) f) = concat (map write_u64 ?ws) @ drop (c + sb_pos pw all (j + 1)) f" by simp
  then have e: "drop (length ?h + (c + sb_pos pw all j)) f = concat (map write_u64 ?ws) @ drop (c + sb_pos pw all (j + 1)) f"
    by (simp only: drop_drop)
  have "?ws \<noteq> []" using seg_facts(1) [OF assms(1,2)] by (auto simp: all_def kNumBlocks_def)
  then have "concat (map write_u64 ?ws) \<noteq> []" by (cases ?ws) (auto simp: write_u64_def write_u32_def)
  then have "length ?h + (c + sb_pos pw all j) \<le> length f" using e by (metis append_is_Nil_conv drop_all linear)
  then show ?thesis using e unfolding all_def by blast
qed

context index_source
begin

lemma prev_doc_correct:
  assumes "sb_stored io stream rest f c pw segs" "sb_exact segs" "sbi_on stream rest f c pw tr segs d it" "sbi_track it"
  shows "\<exists>x s. sbi_prev_doc io it = Some (x, it\<lparr>sbi_in := s\<rparr>) \<and> unat x = doc_prev (sb_docs segs) d \<and>
    sbi_on stream rest f c pw tr segs d (it\<lparr>sbi_in := s\<rparr>)"
proof -
  let ?all = "segs @ [sb_sentinel]"
  obtain j v where o: "sbi_opened stream rest f c pw tr segs j (v + 1) it" "d = kBlockSize * seg_id ?all j + v" "v \<in> words_set (seg_words ?all j)"
    using assms(3) unfolding sbi_on_def Let_def by blast
  let ?b = "seg_id ?all j" and ?ws = "seg_words ?all j" and ?R = "drop (c + sb_pos pw ?all (j + 1)) f"
  have j: "j < length ?all" and ct: "container_at stream rest f ?R ?b ?ws (v + 1) it"
    and pr: "prev_at ?b ?ws (unat (sb_hprev ?all j)) (v + 1) it" using o(1) by (simp_all add: sbi_opened_def Let_def)
  have st: "stream f (sbi_in it)" using container_stream [OF ct] .
  note val = prev_value [OF assms(1,2) j o(3), folded o(2)]
  consider "sbi_prev_attr it = PrevStored" "unat (sbi_prev it) = doc_prev (sb_docs segs) d"
    | access where "sbi_prev_attr it = PrevScan access" "sbi_seek_func it = DenseSeek access False" "{i \<in> words_set ?ws. i < v} \<noteq> {}"
    using pr assms(4) val by (auto simp: prev_at_def split: prev_attr.splits)
  then show ?thesis
  proof cases
    case 1
    then show ?thesis using on_stream_at [OF assms(3) st]
      by (intro exI [of _ "sbi_prev it"] exI [of _ "sbi_in it"]) (simp add: sbi_prev_doc_def)
  next
    case 2
    have vK: "v < kBlockSize" using words_set_less [OF seg_facts(1) [OF assms(1) j] o(3)] .
    have dn: "dense_at stream rest f ?R ?ws access (int (v div 64)) it" "kBitSetThreshold < popcount_range ?ws" "popcount_range ?ws \<noteq> kBlockSize"
      "unat (sbi_block it) = kBlockSize * ?b" "unat (sbi_doc it) = kBlockSize * ?b + v" "?b < kBlockSize"
      using ct 2(2) by (simp_all add: container_at_def)
    obtain n where n: "drop n f = concat (map write_u64 ?ws) @ ?R" "n \<le> length f" using dense_file [OF assms(1) j dn(2,3)] by blast
    have blk: "sbi_block it = of_nat (kBlockSize * ?b)" using dn(4) block_word by blast
    obtain s where s: "sbi_seek_prev io access it = Some (of_nat (kBlockSize * ?b + Max {x \<in> words_set ?ws. x < v}), it\<lparr>sbi_in := s\<rparr>)"
      "stream f s" "rest s = rest (sbi_in it)" using seek_prev_correct [OF dn(1) vK 2(3) n dn(5) blk] by blast
    have "Max {x \<in> words_set ?ws. x < v} \<in> {x \<in> words_set ?ws. x < v}" using 2(3) by (intro Max_in) auto
    then have "Max {x \<in> words_set ?ws. x < v} < kBlockSize" using vK by simp
    then have "unat (of_nat (kBlockSize * ?b + Max {x \<in> words_set ?ws. x < v}) :: u32) = kBlockSize * ?b + Max {x \<in> words_set ?ws. x < v}"
      using unat_doc [of ?b] dn(6) by (simp add: kBlockSize_def)
    also have "\<dots> = doc_prev (sb_docs segs) d" unfolding val [symmetric] sb_prev_def using 2(3) by (simp only: if_False)
    finally show ?thesis using 2(1) s on_stream_at [OF assms(3) s(2,3)] unfolding sbi_prev_doc_def by auto
  qed
qed

section \<open>The iterator\<close>

lemma sbi_iterator:
  assumes "sb_stored io stream rest f c pw segs"
  shows "doc_iterator (sbi_ops io) (\<lambda>_. sb_docs segs)
    (\<lambda>it. sbi_fresh stream rest f c pw tr segs it \<or> (\<exists>d. sbi_on stream rest f c pw tr segs d it))"
proof
  fix it
  assume inv: "sbi_fresh stream rest f c pw tr segs it \<or> (\<exists>d. sbi_on stream rest f c pw tr segs d it)"
  let ?D = "sb_docs segs"
  have fresh: "sbi_fresh stream rest f c pw tr segs it \<Longrightarrow> value_of (sbi_ops io) it = 0" by (simp add: sbi_fresh_def sbi_ops_def)
  have on: "value_of (sbi_ops io) it = d \<and> (d = doc_eof \<or> d \<in> ?D)" if "sbi_on stream rest f c pw tr segs d it" for d
  proof -
    obtain j v where "sbi_opened stream rest f c pw tr segs j (v + 1) it" "d = kBlockSize * seg_id (segs @ [sb_sentinel]) j + v"
      "v \<in> words_set (seg_words (segs @ [sb_sentinel]) j)" using \<open>sbi_on stream rest f c pw tr segs d it\<close> unfolding sbi_on_def Let_def by blast
    then have "d = doc_eof \<or> d \<in> ?D" using seg_doc [OF assms] by (fastforce simp: sbi_opened_def Let_def)
    then show ?thesis using on_doc [OF assms that] by (simp add: sbi_ops_def)
  qed
  show "doc_set ?D" using assms by (simp add: sb_stored_def)
  show "value_of (sbi_ops io) it = doc_invalid \<or> value_of (sbi_ops io) it = doc_eof \<or> value_of (sbi_ops io) it \<in> ?D"
    using inv fresh on by (auto simp: doc_invalid_def)
  have seek: "\<exists>it'. sbi_seek io target it = Some (sbi_doc it', it') \<and>
      (\<exists>d. sbi_on stream rest f c pw tr segs d it') \<and> unat (sbi_doc it') = first_ge ?D (unat target)"
    if "value_of (sbi_ops io) it < unat target" for target
  proof -
    have "\<exists>it'. sbi_seek io target it = Some (sbi_doc it', it') \<and> sbi_on stream rest f c pw tr segs (first_ge ?D (unat target)) it'"
      using inv
    proof
      assume f: "sbi_fresh stream rest f c pw tr segs it"
      then show ?thesis using seek_fresh [OF assms f, of target] that fresh by fastforce
    next
      assume "\<exists>d. sbi_on stream rest f c pw tr segs d it"
      then obtain d where d: "sbi_on stream rest f c pw tr segs d it" by blast
      then show ?thesis using seek_on [OF assms d] that on [OF d] by simp
    qed
    then show ?thesis using on_doc [OF assms] by blast
  qed
  have stay: "sbi_seek io target it = Some (sbi_doc it, it)" if "unat target \<le> value_of (sbi_ops io) it" for target
    using that by (simp add: sbi_seek_def sbi_seek_by_def sbi_ops_def word_le_nat_alt)
  have fixed: "first_ge ?D t = t" if "value_of (sbi_ops io) it = t" "doc_min \<le> t" for t
  proof -
    have "t = doc_eof \<or> t \<in> ?D" using that inv fresh on by (auto simp: doc_min_def)
    moreover have "t \<le> doc_eof" using calculation assms doc_set_less by (auto simp: sb_stored_def intro: less_imp_le)
    ultimately show ?thesis by (metis first_ge_fixed)
  qed
  have eof: "unat x = doc_eof \<longleftrightarrow> x = - 1" for x :: u32
    using unat_minus_one_u32 by (metis unsigned_word_eqI)
  show "\<exists>it'. next_of (sbi_ops io) it = Some (value_of (sbi_ops io) it' \<noteq> doc_eof, it') \<and>
      (sbi_fresh stream rest f c pw tr segs it' \<or> (\<exists>d. sbi_on stream rest f c pw tr segs d it')) \<and> ?D = ?D \<and>
      value_of (sbi_ops io) it' = first_ge ?D (value_of (sbi_ops io) it + 1)"
  proof (cases "sbi_doc it = - 1")
    case True
    then have "sbi_seek io (sbi_doc it + 1) it = Some (sbi_doc it, it)" by (intro stay) simp
    moreover have "first_ge ?D (unat (sbi_doc it) + 1) = doc_eof" using True unat_minus_one_u32 by (intro first_ge_at_eof) simp
    ultimately show ?thesis using inv True eof by (intro exI [of _ it]) (auto simp: sbi_ops_def sbi_next_def)
  next
    case False
    then have "unat (sbi_doc it) < doc_eof" using unat_u32_le_eof [of "sbi_doc it"] eof [of "sbi_doc it"] by linarith
    then have u: "unat (sbi_doc it + 1) = unat (sbi_doc it) + 1" using unat_add_lem [of "sbi_doc it" 1] by (simp add: doc_eof_def)
    then obtain it' where "sbi_seek io (sbi_doc it + 1) it = Some (sbi_doc it', it')" "\<exists>d. sbi_on stream rest f c pw tr segs d it'"
      "unat (sbi_doc it') = first_ge ?D (unat (sbi_doc it) + 1)" using seek [of "sbi_doc it + 1"] by (auto simp: sbi_ops_def)
    then show ?thesis using eof [of "sbi_doc it'"] by (intro exI [of _ it']) (auto simp: sbi_ops_def sbi_next_def)
  qed
  fix t
  assume t: "value_of (sbi_ops io) it \<le> t" "doc_min \<le> t" "t \<le> doc_eof"
  have ut: "unat (of_nat t :: u32) = t" unfolding unat_of_nat using t(3) by (intro mod_less) (simp add: doc_eof_def)
  show "\<exists>it'. seek_of (sbi_ops io) t it = Some (value_of (sbi_ops io) it', it') \<and>
      (sbi_fresh stream rest f c pw tr segs it' \<or> (\<exists>d. sbi_on stream rest f c pw tr segs d it')) \<and> ?D = ?D \<and>
      value_of (sbi_ops io) it' = first_ge ?D t"
  proof (cases "value_of (sbi_ops io) it = t")
    case True
    then have "sbi_seek io (of_nat t) it = Some (sbi_doc it, it)" using ut by (intro stay) simp
    then show ?thesis using inv True fixed [OF True t(2)] by (intro exI [of _ it]) (auto simp: sbi_ops_def)
  next
    case False
    then show ?thesis using seek [of "of_nat t"] t(1) ut by (fastforce simp: sbi_ops_def)
  qed
qed

text \<open>\<open>reset\<close> does not reset \<open>block_\<close>: it starts over from the first block only.\<close>

lemma reset_first_block:
  assumes "sb_stored io stream rest f c pw segs" "sbi_on stream rest f c pw tr segs d it" "sbi_block it = 0"
  shows "\<exists>it'. sbi_reset io it = Some it' \<and> sbi_fresh stream rest f c pw tr segs it'"
proof -
  obtain j v where "sbi_opened stream rest f c pw tr segs j (v + 1) it" using assms(2) unfolding sbi_on_def by blast
  then have rd: "sbi_ready stream f c pw tr segs (j + 1) it" by (simp add: sbi_opened_def Let_def)
  then have st: "stream f (sbi_in it)" "sbi_origin it = c" by (simp_all add: sbi_ready_def)
  have "c \<le> length f" using assms(1) by (simp add: sb_stored_def)
  then obtain s where "in_seek io c (sbi_in it) = Some s" "stream f s" "rest s = drop c f" using seek_law [OF st(1)] by blast
  then show ?thesis using rd st(2) assms(3) by (simp add: sbi_reset_def sbi_fresh_def sbi_ready_def)
qed

lemma reset_later_block:
  assumes "sbi_reset io it = Some it'" "sbi_block it AND 0xFFFF0000 = sbi_block it" "0 < t" "t AND 0xFFFF0000 < sbi_block it"
  shows "sbi_seek io t it' = None"
proof -
  have r: "sbi_doc it' = 0" "sbi_seek_func it' = InitialSeek" "sbi_block it' = sbi_block it"
    using assms(1) by (auto simp: sbi_reset_def split: bind_splits)
  have "sbi_block it \<noteq> 0" "sbi_block it \<noteq> t AND 0xFFFF0000" "\<not> sbi_block it < t AND 0xFFFF0000" "\<not> t \<le> 0" using assms(3,4) by auto
  then show ?thesis using assms(2) r by (simp add: sbi_seek_def sbi_seek_by_def sbi_call_def Let_def)
qed

end

section \<open>A bitmap that was written\<close>

text \<open>
  What a client can rely on: the contract of document iterators, the number of the current document among all documents, and,
  when it is tracked, the document before it.
\<close>

definition sb_iterates :: "'i index_in \<Rightarrow> bool \<Rightarrow> nat set \<Rightarrow> 'i sparse_it \<Rightarrow> bool" where
  "sb_iterates io prev D it \<longleftrightarrow> (\<exists>inv. doc_iterator (sbi_ops io) (\<lambda>_. D) inv \<and> inv it \<and>
     (\<forall>it1. inv it1 \<and> unat (sbi_doc it1) \<in> D \<longrightarrow>
        unat (sbi_value_index it1) = card {e \<in> D. e < unat (sbi_doc it1)} \<and>
        (prev \<longrightarrow> (\<exists>x it2. sbi_prev_doc io it1 = Some (x, it2) \<and> unat x = doc_prev D (unat (sbi_doc it1)) \<and> inv it2 \<and> sbi_doc it2 = sbi_doc it1))))"

lemma stored_iterates:
  assumes "index_source io stream rest" "sb_stored io stream rest f c pw segs" "sb_exact segs" "sbi_fresh stream rest f c pw tr segs it"
  shows "sb_iterates io tr (sb_docs segs) it"
proof -
  let ?inv = "\<lambda>it. sbi_fresh stream rest f c pw tr segs it \<or> (\<exists>d. sbi_on stream rest f c pw tr segs d it)" and ?D = "sb_docs segs"
  have zero: "0 \<notin> ?D" using assms(2) doc_set_less [of ?D 0] by (auto simp: sb_stored_def doc_min_def)
  have on: "sbi_on stream rest f c pw tr segs (unat (sbi_doc it1)) it1" if "?inv it1" "unat (sbi_doc it1) \<in> ?D" for it1
    using that zero index_source.on_doc [OF assms(1,2)] by (auto simp: sbi_fresh_def)
  have "\<exists>x it2. sbi_prev_doc io it1 = Some (x, it2) \<and> unat x = doc_prev ?D (unat (sbi_doc it1)) \<and> ?inv it2 \<and> sbi_doc it2 = sbi_doc it1"
    if i: "?inv it1" "unat (sbi_doc it1) \<in> ?D" and tr for it1
  proof -
    have "sbi_track it1" using on [OF i] \<open>tr\<close> by (auto simp: sbi_on_def sbi_opened_def sbi_ready_def Let_def)
    from index_source.prev_doc_correct [OF assms(1-3) on [OF i] this] show ?thesis by fastforce
  qed
  then show ?thesis unfolding sb_iterates_def using index_source.sbi_iterator [OF assms(1,2)] assms(4) on rank_correct [OF assms(2)]
    by (intro exI [of _ ?inv]) blast
qed

lemma new_fresh:
  assumes "index_source io stream rest" "stream f s" "rest s = drop c f" "c \<le> length f"
    and "blocks \<noteq> [] \<longrightarrow> sb_index_ok pw segs blocks \<and> (segs = [] \<or> fst (last segs) \<noteq> 0)"
  shows "sbi_fresh stream rest f c pw (pw \<and> track) segs (sbi_new io pw track use_index blocks garbage s)"
  using assms index_source.drop_stream [OF assms(1-4)] by (simp add: sbi_fresh_def sbi_ready_def sbi_new_def)

lemma bitmap_stored:
  assumes "sb_wf segs" "sb_docs segs = unat ` set vs" "\<forall>v\<in>set vs. v \<noteq> (0 :: u32) \<and> v \<noteq> - 1" "c \<le> length f" "drop c f = sb_file pw segs @ R"
    and "(\<forall>n s b s'. stream f s \<and> n \<le> length (rest s) \<and> in_buffer io n s = Some (b, s') \<longrightarrow> b \<noteq> None) \<or> (\<forall>v\<in>set vs. unat v mod 65536 < 32768)"
  shows "sb_stored io stream rest f c pw segs"
proof -
  have "unat v \<in> {doc_min..<doc_eof}" if v: "v \<in> set vs" for v
  proof -
    have "unat v \<noteq> 0" using assms(3) v by (simp add: unat_eq_0)
    moreover have "unat v \<noteq> doc_eof" using assms(3) v unat_minus_one_u32 by (metis unsigned_word_eqI)
    ultimately show ?thesis using unat_u32_le_eof [of v] by (simp add: doc_min_def)
  qed
  then have ds: "sb_docs segs \<subseteq> {doc_min..<doc_eof}" unfolding assms(2) by blast
  then have "sb_rank segs \<le> card {doc_min..<doc_eof}" using card_sb_docs [OF assms(1)] card_mono [OF _ ds] by simp
  then have rank: "sb_rank segs + 1 < 2 ^ 32" by (simp add: doc_min_def doc_eof_def)
  have "sb_readable io stream rest f b ws" if s: "(b, ws, lst) \<in> set segs" for b ws lst
    using assms(6)
  proof
    assume "\<forall>v\<in>set vs. unat v mod 65536 < 32768"
    then have small: "\<forall>d\<in>sb_docs segs. d mod 65536 < 32768" unfolding assms(2) by blast
    have "i < 32768" if i: "i \<in> words_set ws" for i
    proof -
      have "kBlockSize * b + i \<in> sb_docs segs" using sb_docsI [OF s, of i] i by simp
      moreover have "i < 65536" using words_set_less [of ws i] i s assms(1) by (auto simp: sb_wf_def kBlockSize_def)
      ultimately show ?thesis using small by (fastforce simp: kBlockSize_def)
    qed
    then show ?thesis by (simp add: sb_readable_def sb_signed_def)
  qed (auto simp: sb_readable_def)
  then show ?thesis unfolding sb_stored_def doc_set_def using assms(1,4,5) ds rank by auto
qed

section \<open>Calls of the writer\<close>

text \<open>The calls of a client before \<open>finish\<close>, with the result of \<open>erase\<close>, and what they mean for the documents and the current block.\<close>

datatype bitmap_call = BmPush u32 | BmErase u32

fun spw_call :: "'o index_out \<Rightarrow> bitmap_call \<Rightarrow> 'o sparse_writer \<Rightarrow> (bool \<times> 'o sparse_writer) option" where
  "spw_call io (BmPush v) w = map_option (\<lambda>w1. (True, w1)) (spw_push_back io v w)"
| "spw_call io (BmErase v) w = Some (spw_erase v w)"

fun spw_calls :: "'o index_out \<Rightarrow> bitmap_call list \<Rightarrow> 'o sparse_writer \<Rightarrow> (bool list \<times> 'o sparse_writer) option" where
  "spw_calls io [] w = Some ([], w)"
| "spw_calls io (c # cs) w = do { (b, w1) \<leftarrow> spw_call io c w; (bs, w2) \<leftarrow> spw_calls io cs w1; Some (b # bs, w2) }"

fun bm_call :: "bitmap_call \<Rightarrow> nat set \<times> nat \<Rightarrow> bool \<times> nat set \<times> nat" where
  "bm_call (BmPush v) (D, b) = (True, insert (unat v) D, unat v div kBlockSize)"
| "bm_call (BmErase v) (D, b) =
     (if unat v div kBlockSize < b then (False, D, b) else (True, D - {kBlockSize * b + unat v mod kBlockSize}, b))"

fun bm_calls :: "bitmap_call list \<Rightarrow> nat set \<times> nat \<Rightarrow> bool list \<times> nat set \<times> nat" where
  "bm_calls [] s = ([], s)"
| "bm_calls (c # cs) s = (let (b, s1) = bm_call c s; (bs, s2) = bm_calls cs s1 in (b # bs, s2))"

text \<open>Blocks do not go backwards; inside a block the order is free.\<close>

fun bm_valid :: "bitmap_call list \<Rightarrow> nat \<Rightarrow> bool" where
  "bm_valid [] b \<longleftrightarrow> True"
| "bm_valid (BmPush v # cs) b \<longleftrightarrow> v \<noteq> 0 \<and> v \<noteq> - 1 \<and> b \<le> unat v div kBlockSize \<and> bm_valid cs (unat v div kBlockSize)"
| "bm_valid (BmErase v # cs) b \<longleftrightarrow> bm_valid cs b"

lemma erase_correct:
  assumes "spw_invar contents ok c0 segs w"
  shows "\<exists>r w'. spw_erase v w = (r, w') \<and> spw_invar contents ok c0 segs w' \<and>
    bm_call (BmErase v) (spw_docs segs w, unat (spw_block w)) = (r, spw_docs segs w', unat (spw_block w'))"
proof (cases "v div 65536 < spw_block w")
  case True
  then have "unat v div kBlockSize < unat (spw_block w)" by (simp add: word_less_nat_alt block_split)
  then show ?thesis using True assms by (intro exI [of _ False] exI [of _ w]) (simp add: spw_erase_def)
next
  case False
  then have lt: "\<not> unat v div kBlockSize < unat (spw_block w)" by (simp add: word_less_nat_alt block_split)
  let ?i = "unat v mod kBlockSize" and ?b = "unat (spw_block w)"
  let ?w = "w\<lparr>spw_bits := spw_reset ?i (spw_bits w)\<rparr>"
  have i: "?i < kBlockSize" by (simp add: kBlockSize_def)
  have len: "length (spw_bits w) = kNumBlocks" "sb_wf segs" using assms by (simp_all add: spw_invar_def spw_at_def)
  note rs = spw_reset_words [OF len(1) i]
  have "kBlockSize * ?b + ?i \<notin> sb_docs segs"
  proof
    assume "kBlockSize * ?b + ?i \<in> sb_docs segs"
    then obtain s x where s: "s \<in> set segs" "x \<in> words_set (fst (snd s))" "kBlockSize * ?b + ?i = kBlockSize * fst s + x"
      by (auto simp: sb_docs_def)
    have "fst s < ?b" using assms s(1) by (simp add: spw_invar_def)
    moreover have "x < kBlockSize" using words_set_less [OF _ s(2)] len(2) s(1) by (auto simp: sb_wf_def)
    ultimately have le: "fst s + 1 \<le> ?b" "x < kBlockSize" by simp_all
    have "kBlockSize * (fst s + 1) \<le> kBlockSize * ?b" using le(1) by (rule mult_le_mono2)
    with le(2) show False using s(3) by (simp only: distrib_left mult_1_right)
  qed
  moreover have "(\<lambda>x. a + x) ` (S - {i}) = (\<lambda>x. a + x) ` S - {a + i}" for a i :: nat and S by auto
  ultimately have "spw_docs segs ?w = spw_docs segs w - {kBlockSize * ?b + ?i}" using rs(1) by (simp add: spw_docs_def Un_Diff)
  moreover have "spw_invar contents ok c0 segs ?w" using assms rs(2) by (simp add: spw_invar_def spw_at_def)
  moreover have "spw_erase v w = (True, ?w)" using False by (simp add: spw_erase_def block_split)
  ultimately show ?thesis using lt by (intro exI [of _ True] exI [of _ ?w]) simp
qed

section \<open>Properties\<close>

text \<open>
  C2: a set of documents that is pushed in order to a sparse bitmap and finished is read back by the iterator, with the index over
  the blocks or without it, with the index in the dense blocks or without it: it starts before the first document and keeps the
  contract of document iterators for the documents of the set; at each of them, it knows the number of the documents before it and, when previous
  documents are written and tracked, the one right before it, or zero. The source has to give buffers, or the
  offsets in the blocks have to be small, since offsets with the top bit set are not read back right from the stream; and the index
  over the blocks is only used when it does not end with the first block.
\<close>

theorem sparse_bitmap:
  assumes "index_sink oio contents ok" "index_source iio stream rest" "ok out" "sorted_wrt (<) vs" "\<forall>v\<in>set vs. v \<noteq> 0 \<and> v \<noteq> - 1"
  shows "\<exists>w w'. spw_push_all oio vs (spw_new oio pw out) = Some w \<and> spw_finish oio w = Some w' \<and> ok (spw_out w') \<and>
    (\<forall>track use_index garbage f R s blocks. f = contents (spw_out w') @ R \<and> stream f s \<and> rest s = drop (length (contents out)) f \<and>
      ((\<forall>n s b s'. stream f s \<and> n \<le> length (rest s) \<and> in_buffer iio n s = Some (b, s') \<longrightarrow> b \<noteq> None) \<or> (\<forall>v\<in>set vs. unat v mod 65536 < 32768)) \<and>
      (blocks = [] \<or> blocks = spw_index w' \<and> (vs = [] \<or> (\<exists>v\<in>set vs. 65536 \<le> v))) \<longrightarrow>
      sbi_doc (sbi_new iio pw track use_index blocks garbage s) = 0 \<and>
      sb_iterates iio (pw \<and> track) (unat ` set vs) (sbi_new iio pw track use_index blocks garbage s))"
proof -
  obtain w w' segs where w: "spw_push_all oio vs (spw_new oio pw out) = Some w" "spw_finish oio w = Some w'" "ok (spw_out w')"
    "contents (spw_out w') = contents out @ sb_file pw segs" "sb_wf segs" "sb_exact segs" "sb_docs segs = unat ` set vs"
    "sb_index_ok pw segs (spw_index w')" using sparse_bitmap_written [OF assms(1,3-5)] by blast
  have last: "segs = [] \<or> fst (last segs) \<noteq> 0" if "vs = [] \<or> (\<exists>v\<in>set vs. 65536 \<le> v)"
    using that
  proof
    assume "vs = []"
    then have none: "sb_docs segs = {}" using w(7) by simp
    show ?thesis
    proof (cases segs)
      case (Cons s ss)
      then obtain x where "x \<in> words_set (fst (snd s))" using w(5) by (auto simp: sb_wf_def)
      then show ?thesis using sb_docsI [of s segs x] Cons none by simp
    qed simp
  next
    assume "\<exists>v\<in>set vs. 65536 \<le> v"
    then obtain v where v: "v \<in> set vs" "65536 \<le> unat v" by (auto simp: word_le_nat_alt)
    then have "unat v \<in> sb_docs segs" using w(7) by blast
    then obtain b ws lst i where s: "(b, ws, lst) \<in> set segs" "i \<in> words_set ws" "unat v = kBlockSize * b + i" by (auto simp: sb_docs_def)
    then have "i < 65536" using words_set_less [of ws i] w(5) by (auto simp: sb_wf_def kBlockSize_def)
    then have "b \<noteq> 0" using s(3) v(2) by (auto simp: kBlockSize_def)
    then show ?thesis using sb_last_id [OF w(5) s(1)] by auto
  qed
  have "sb_iterates iio (pw \<and> track) (unat ` set vs) (sbi_new iio pw track use_index blocks garbage s)"
    if f: "f = contents (spw_out w') @ R" "stream f s" "rest s = drop (length (contents out)) f"
      "(\<forall>n s b s'. stream f s \<and> n \<le> length (rest s) \<and> in_buffer iio n s = Some (b, s') \<longrightarrow> b \<noteq> None) \<or> (\<forall>v\<in>set vs. unat v mod 65536 < 32768)"
      "blocks = [] \<or> blocks = spw_index w' \<and> (vs = [] \<or> (\<exists>v\<in>set vs. 65536 \<le> v))" for track use_index garbage f R s blocks
  proof -
    have c: "length (contents out) \<le> length f" "drop (length (contents out)) f = sb_file pw segs @ R" using f(1) w(4) by simp_all
    have stored: "sb_stored iio stream rest f (length (contents out)) pw segs"
      by (rule bitmap_stored [where vs = vs and R = R]) (use w(5,7) assms(5) c f(4) in blast)+
    have "blocks \<noteq> [] \<longrightarrow> sb_index_ok pw segs blocks \<and> (segs = [] \<or> fst (last segs) \<noteq> 0)" using f(5) w(8) last by blast
    from stored_iterates [OF assms(2) stored w(6) new_fresh [OF assms(2) f(2,3) c(1) this]] show ?thesis unfolding w(7) .
  qed
  moreover have "sbi_doc (sbi_new iio pw track use_index blocks garbage s) = 0" for track use_index garbage blocks s by (simp add: sbi_new_def)
  ultimately show ?thesis using w(1-3) by (intro exI [of _ w] exI [of _ w']) auto
qed

lemma sbi_ops_value: "value_of (sbi_ops io) it = unat (sbi_doc it)" and sbi_ops_next: "next_of (sbi_ops io) = sbi_next io"
  by (simp_all add: sbi_ops_def)

lemma seek_of_sbi: "seek_of (sbi_ops io) t it = Some (n, it1) \<Longrightarrow> sbi_seek io (of_nat t) it = Some (of_nat n, it1)"
  by (auto simp: sbi_ops_def)

theorem sparse_bitmap_witness:
  "\<exists>w w'. spw_push_all (mo_io (\<lambda>_. 0)) [3, 5, 70000] (spw_new (mo_io (\<lambda>_. 0)) True memory_output_new) = Some w \<and>
    spw_finish (mo_io (\<lambda>_. 0)) w = Some w' \<and>
    (\<forall>garbage. \<exists>it1 it2 it3 it4.
      sbi_seek (ib_io list_source) 4 (sbi_new (ib_io list_source) True True True (spw_index w') garbage (ib_reset 8 0 (mo_contents (spw_out w'), 0))) = Some (5, it1) \<and>
      sbi_value_index it1 = 1 \<and> sbi_prev_doc (ib_io list_source) it1 = Some (3, it2) \<and>
      sbi_next (ib_io list_source) it2 = Some (True, it3) \<and> sbi_doc it3 = 70000 \<and>
      sbi_next (ib_io list_source) it3 = Some (False, it4))"
proof -
  let ?o = "mo_io (\<lambda>_. 0)" and ?i = "ib_io list_source" and ?vs = "[3, 5, 70000] :: u32 list" and ?D = "{3, 5, 70000} :: nat set"
  have vs: "sorted_wrt (<) ?vs" "\<forall>v\<in>set ?vs. v \<noteq> 0 \<and> v \<noteq> - 1" by simp_all
  have D: "unat ` set ?vs = ?D" by simp
  obtain w w' where w: "spw_push_all ?o ?vs (spw_new ?o True memory_output_new) = Some w" "spw_finish ?o w = Some w'"
    and rd: "\<forall>track use_index garbage f R s blocks. f = mo_contents (spw_out w') @ R \<and> ib_stream fst snd (\<lambda>_. True) f s \<and>
        ib_rest fst s = drop (length (mo_contents memory_output_new)) f \<and>
        ((\<forall>n s b s'. ib_stream fst snd (\<lambda>_. True) f s \<and> n \<le> length (ib_rest fst s) \<and> in_buffer ?i n s = Some (b, s') \<longrightarrow> b \<noteq> None) \<or>
          (\<forall>v\<in>set ?vs. unat v mod 65536 < 32768)) \<and>
        (blocks = [] \<or> blocks = spw_index w' \<and> (?vs = [] \<or> (\<exists>v\<in>set ?vs. 65536 \<le> v))) \<longrightarrow>
      sbi_doc (sbi_new ?i True track use_index blocks garbage s) = 0 \<and>
      sb_iterates ?i (True \<and> track) ?D (sbi_new ?i True track use_index blocks garbage s)"
    using sparse_bitmap [OF memory.index_sink_axioms list_source.buffered.index_source_axioms mo_new_empty(1) vs, of "\<lambda>_. 0" True]
    unfolding D by (elim exE conjE) (rule that)
  let ?it = "\<lambda>g. sbi_new ?i True True True (spw_index w') g (ib_reset 8 0 (mo_contents (spw_out w'), 0))"
  have read: "\<exists>it1 it2 it3 it4. sbi_seek ?i 4 (?it g) = Some (5, it1) \<and> sbi_value_index it1 = 1 \<and> sbi_prev_doc ?i it1 = Some (3, it2) \<and>
      sbi_next ?i it2 = Some (True, it3) \<and> sbi_doc it3 = 70000 \<and> sbi_next ?i it3 = Some (False, it4)" for g
  proof -
    have "ib_stream fst snd (\<lambda>_. True) (mo_contents (spw_out w') @ []) (ib_reset 8 0 (mo_contents (spw_out w'), 0))"
      "ib_rest fst (ib_reset 8 0 (mo_contents (spw_out w'), 0)) = mo_contents (spw_out w') @ []"
      using list_source_start [of 8] by (simp_all add: ib_rest_def ib_reset_def ib_file_def ib_file_pointer_def)
    then have "sbi_doc (?it g) = 0 \<and> sb_iterates ?i (True \<and> True) ?D (?it g)"
      by (intro rd [rule_format, where f = "mo_contents (spw_out w')" and R = "[]"]) (simp add: mo_new_empty(2))
    then obtain inv where inv: "sbi_doc (?it g) = 0" "doc_iterator (sbi_ops ?i) (\<lambda>_. ?D) inv" "inv (?it g)"
      and facts: "\<forall>it1. inv it1 \<and> unat (sbi_doc it1) \<in> ?D \<longrightarrow> unat (sbi_value_index it1) = card {e \<in> ?D. e < unat (sbi_doc it1)} \<and>
        (\<exists>x it2. sbi_prev_doc ?i it1 = Some (x, it2) \<and> unat x = doc_prev ?D (unat (sbi_doc it1)) \<and> inv it2 \<and> sbi_doc it2 = sbi_doc it1)"
      by (auto simp: sb_iterates_def)
    note nx = doc_cursor.next_law [OF doc_iterator.axioms(1) [OF inv(2)]]
    have fg: "first_ge ?D 4 = 5" "first_ge ?D 6 = 70000" "first_ge ?D 70001 = doc_eof"
      by (rule first_ge_eqI first_ge_eofI; auto simp: doc_eof_def)+
    have lim: "value_of (sbi_ops ?i) (?it g) \<le> 4" "doc_min \<le> 4" "4 \<le> doc_eof"
      using inv(1) by (simp_all add: sbi_ops_def doc_min_def doc_eof_def)
    obtain it1 where it1: "seek_of (sbi_ops ?i) 4 (?it g) = Some (5, it1)" "inv it1" "sbi_doc it1 = 5"
      using doc_iterator.seek_law [OF inv(2,3) lim] fg(1) block_word [of _ 5] by (auto simp: sbi_ops_value)
    have "{e \<in> ?D. e < 5} = {3}" by auto
    then have "unat (sbi_value_index it1) = 1" "\<exists>x it2. sbi_prev_doc ?i it1 = Some (x, it2) \<and> unat x = 3 \<and> inv it2 \<and> sbi_doc it2 = sbi_doc it1"
      using facts it1(2,3) by (auto simp: doc_prev_def)
    then obtain it2 where it2: "sbi_value_index it1 = 1" "sbi_prev_doc ?i it1 = Some (3, it2)" "inv it2" "sbi_doc it2 = 5"
      using block_word [of _ 1] block_word [of _ 3] it1(3) by auto
    obtain it3 where it3: "sbi_next ?i it2 = Some (True, it3)" "inv it3" "sbi_doc it3 = 70000"
      using nx [OF it2(3)] it2(4) fg(2) block_word [of _ 70000] by (auto simp: sbi_ops_value sbi_ops_next doc_eof_def)
    obtain it4 where "sbi_next ?i it3 = Some (False, it4)"
      using nx [OF it3(2)] it3(3) fg(3) by (auto simp: sbi_ops_value sbi_ops_next)
    then show ?thesis using seek_of_sbi [OF it1(1)] it2(1,2) it3(1,3) by auto
  qed
  then show ?thesis using w by blast
qed

text \<open>
  C8: any calls of \<open>push_back\<close> and \<open>erase\<close> in which the blocks of pushed documents do not go backwards succeed and keep the
  state of the sparse bitmap writer: the containers of the blocks before the current one, and nothing else, are in the output,
  the index has the position and the number of documents for every block up to them, and these containers and the words of the current block hold
  exactly the documents that were pushed and not erased. \<open>erase\<close> refuses documents of earlier blocks; it takes
  the current block for the block of any other document.
\<close>

theorem sparse_writer_calls:
  assumes "index_sink io contents ok" "ok out" "bm_valid cs 0"
  shows "\<exists>rs w segs. spw_calls io cs (spw_new io pw out) = Some (rs, w) \<and> spw_invar contents ok (contents out) segs w \<and>
    bm_calls cs ({}, 0) = (rs, spw_docs segs w, unat (spw_block w))"
proof -
  have run: "\<exists>rs w' segs'. spw_calls io cs w = Some (rs, w') \<and> spw_invar contents ok (contents out) segs' w' \<and>
      bm_calls cs (spw_docs segs w, unat (spw_block w)) = (rs, spw_docs segs' w', unat (spw_block w'))"
    if "spw_invar contents ok (contents out) segs w" "bm_valid cs (unat (spw_block w))" for segs w
    using that
  proof (induction cs arbitrary: segs w)
    case (Cons c cs)
    have "\<exists>r w1 segs1. spw_call io c w = Some (r, w1) \<and> spw_invar contents ok (contents out) segs1 w1 \<and>
        bm_call c (spw_docs segs w, unat (spw_block w)) = (r, spw_docs segs1 w1, unat (spw_block w1)) \<and> bm_valid cs (unat (spw_block w1))"
    proof (cases c)
      case (BmPush v)
      then show ?thesis using index_sink.push_correct [OF assms(1) Cons.prems(1), of v] Cons.prems(2) by fastforce
    next
      case (BmErase v)
      then show ?thesis using erase_correct [OF Cons.prems(1), of v] Cons.prems(2) by (fastforce simp: spw_erase_def split: if_splits)
    qed
    then obtain r w1 segs1 where c: "spw_call io c w = Some (r, w1)" "spw_invar contents ok (contents out) segs1 w1"
      "bm_call c (spw_docs segs w, unat (spw_block w)) = (r, spw_docs segs1 w1, unat (spw_block w1))" "bm_valid cs (unat (spw_block w1))" by blast
    from Cons.IH [OF c(2,4)] show ?case using c(1,3) by fastforce
  qed auto
  have "spw_invar contents ok (contents out) [] (spw_new io pw out)"
    using assms(2) index_sink.pointer_law [OF assms(1,2)]
    by (simp add: spw_invar_def spw_at_def spw_new_def sb_wf_def sb_last_def kBlockSize_def)
  from run [OF this] show ?thesis using assms(3) by (simp add: spw_new_def spw_docs_def)
qed

theorem sparse_writer_calls_witness:
  "\<exists>w segs. spw_calls (mo_io (\<lambda>_. 0)) [BmPush 5, BmPush 3, BmErase 5, BmPush 70000, BmErase 3] (spw_new (mo_io (\<lambda>_. 0)) True memory_output_new) =
     Some ([True, True, True, True, False], w) \<and> spw_docs segs w = {3, 70000} \<and> spw_invar mo_contents mo_invar [] segs w"
proof -
  let ?cs = "[BmPush 5, BmPush 3, BmErase 5, BmPush 70000, BmErase 3]"
  have a: "bm_valid ?cs 0" by (simp add: kBlockSize_def)
  have b: "bm_calls ?cs ({}, 0) = ([True, True, True, True, False], {3, 70000}, 1)" by (auto simp: kBlockSize_def)
  show ?thesis
    using sparse_writer_calls [OF memory.index_sink_axioms [of "\<lambda>_. 0"] mo_new_empty(1) a, of True] unfolding b mo_new_empty(2) by auto
qed

end
