(* ===== verification/Spec2Isabelle.thy ===== *)
theory Spec2Isabelle
  imports BitPacking Bytes Conjunction Exclusion Disjunction BlockSeek FormatUtils MemoryInput AvgEncoding PostingsSeek SparseBitmap
begin

text \<open>
  Verification of the IResearch search engine library (\<open>core/\<close> of the repository): the codecs of integers, the
  streams and files they are written to, the posting lists of a segment with their skip lists, and the document
  iterators that evaluate boolean queries.

  \<^bold>\<open>The program.\<close> A segment of an index is a set of files. Each file is written through an \<open>index_output\<close>, starts with a
  header, ends with a footer that has the CRC of the rest, and is read back through an \<open>index_input\<close>. For every term
  of a field \<open>postings_writer\<close> appends the list of documents with the term, and their frequencies, to one of these
  files: in blocks of 128 values that are delta encoded and bit packed, then a tail of variable width integers, then a
  skip list whose levels were collected in memory. Where the list is, is kept in the term meta data. A query is a tree of document
  iterators with two operations, \<open>next\<close> and \<open>seek\<close>: at the leaves are the iterators over posting lists or bit
  sets, the inner nodes are conjunctions, disjunctions and exclusions. The documents that have a value in a column are stored as a sparse bitmap, which is
  iterated in the same way.

  \<^bold>\<open>Theories\<close>, each with its source under \<open>src/core\<close>; names of definitions are the ones of the code, with a prefix per class.
  \<^item> \<open>Prelude\<close>: machine types, bytes and words, bounded counting.
  \<^item> \<open>BitPacking\<close> (\<open>utils/bit_packing\<close>): the unrolled kernels for every width, \<open>pack\<close>, \<open>unpack\<close>, \<open>at\<close>; locale \<open>block_codec\<close>.
  \<^item> \<open>Bytes\<close> (\<open>utils/bytes_utils\<close>, \<open>bit_utils\<close>, \<open>store/store_utils\<close>, \<open>utils/delta_compression\<close>): fixed and variable width integers,
    zig-zag coding, strings, flags, delta coding.
  \<^item> \<open>Simd\<close> (\<open>utils/simd_utils\<close>): the vectorised routines on lanes, equal to the scalar ones.
  \<^item> \<open>Bitpack\<close> (\<open>utils/bitpack\<close>, \<open>format_traits\<close> of \<open>formats/formats_10.cpp\<close>): blocks of integers in a stream; locale \<open>block_packer\<close>.
  \<^item> \<open>AvgEncoding\<close> (\<open>store/store_avg_utils\<close>): columns as base, average and differences.
  \<^item> \<open>BufferedOutput\<close>, \<open>BufferedInput\<close> (\<open>store/data_output\<close>, \<open>store/data_input\<close>): the buffers; the virtual functions behind them are
    arguments, with their contracts in the locales \<open>raw_sink\<close>, \<open>raw_source\<close> and \<open>byte_reader\<close>.
  \<^item> \<open>Checksum\<close>, \<open>FsOutput\<close>, \<open>FsInput\<close> (\<open>utils/crc\<close>, \<open>store/fs_directory\<close>, \<open>utils/file_utils\<close>): files over the system calls.
  \<^item> \<open>MemoryStream\<close>, \<open>MemoryInput\<close> (\<open>store/memory_directory\<close>, \<open>utils/container_utils\<close>): files in memory, in buckets of growing size: the output,
    with and without a checksum (locale \<open>memory_virtual\<close> for the virtual functions), and the input.
  \<^item> \<open>DataStreams\<close>: the interfaces \<open>index_output\<close>, \<open>index_input\<close> and the memory stream as records of functions, with the contracts \<open>index_sink\<close>,
    \<open>index_reader\<close> and \<open>index_source\<close>; the streams above are interpretations, the writers and readers below are clients.
  \<^item> \<open>IndexFile\<close>: outputs with a checksum, and inputs with length, checksum and copies, as the locales \<open>file_sink\<close> and \<open>file_source\<close>; files on a disk
    and in memory are instances.
  \<^item> \<open>FormatUtils\<close> (\<open>formats/format_utils\<close>, \<open>error\<close>): header, footer and checksum of a file.
  \<^item> \<open>SkipWriter\<close>, \<open>SkipReader\<close> (\<open>formats/skip_list\<close>): skip lists with any number of levels and any data in the entries; locale \<open>skip_follower\<close>.
  \<^item> \<open>PostingsWriter\<close>, \<open>PostingsReader\<close>, \<open>PostingsSeek\<close> (\<open>formats/formats_10.cpp\<close>): writing a list, its meta data, iteration, bit
    union, and seeking with the skip list.
  \<^item> \<open>SparseWriter\<close>, \<open>SparseReader\<close>, \<open>SparseBitmap\<close> (\<open>formats/sparse_bitmap\<close>): the sets of documents of the column store: the writer, the
    iterator with its three kinds of containers (each read from the stream or from a buffer), and the iteration over a bitmap that was written.
  \<^item> \<open>DocIterator\<close> (\<open>index/iterators\<close>, \<open>search/all_iterator\<close>): the interface of iterators as a record, its contract as the locales
    \<open>doc_cursor\<close> and \<open>doc_iterator\<close>: an iterator stands for a set of documents, \<open>next\<close> and \<open>seek\<close> return and move to the first
    document that is not below the target.
  \<^item> \<open>Conjunction\<close>, \<open>Disjunction\<close>, \<open>Exclusion\<close>, \<open>BlockDisjunction\<close>, \<open>BlockSeek\<close> (\<open>search/\<close>): the inner nodes; each keeps the contract
    when its children do.
  \<^item> \<open>Bitset\<close>, \<open>BitsetIterator\<close> (\<open>utils/bitset\<close>, \<open>search/bitset_doc_iterator\<close>): bit sets as sets of indices, and their iterator.

  \<^bold>\<open>What the lemmas show.\<close> Codecs: what is decoded is what was encoded, for all widths and sizes. Streams: after any
  sequence of writes the contents are the concatenation of the encoded values, and any sequence of reads gives what decoding these bytes
  gives, independent of the sizes of the buffers; on a disk that fails, whatever succeeds is right. Files: a file that was written is accepted
  and read back, checks reject exactly the malformed ones. Postings: writing appends a specified sequence of bytes and fails exactly on
  lists out of order; iterating and seeking in these bytes gives the documents and frequencies written. Sparse bitmaps: the bytes written are the
  containers of the set in order, and the iterator over them stands for the set, with the number of each document and the one before it. Iterators: each kind refines a set of documents.
  The properties of this file compose these parts.

  \<^bold>\<open>Conventions.\<close> Integers are words of the width the code has where wrap-around can matter. An exception, a failed assertion and a read out of range are
  \<open>None\<close>; the constructors of errors are modelled where the code tells them apart. Loops that need not end in general are \<open>partial_function (option)\<close>,
  so \<open>None\<close> is also the value of a loop that does not end, and every statement that a loop delivers a result is an equation with \<open>Some\<close>. Only \<open>drain n\<close> and
  \<open>pr_drain n\<close> have a bound: they call \<open>next\<close> at most \<open>n\<close> times, and any \<open>n\<close> above the number of documents suffices, which is the hypothesis of the
  theorems about them. Memory that the code leaves uninitialised is an argument (\<open>garbage\<close>), so that nothing depends on it.

  \<^bold>\<open>Parameters.\<close> The system calls \<open>read\<close>, \<open>write\<close>, \<open>lseek\<close> by their POSIX contract, including short transfers and failures; \<open>absl::ExtendCrc32c\<close>
  as a function that extends a checksum by bytes (\<open>Checksum\<close>); the contents of fresh memory; the copy of a stream (\<open>dup\<close>).

  \<^bold>\<open>Not modelled.\<close> Positions, offsets and payloads of postings, and with them phrases; scores and the score blocks of skip lists (floating point); the term
  dictionary and automata (OpenFst); the columns on top of the sparse bitmaps (their compression and merging); segment meta data, the index writer and its transactions (threads, reference
  counting); analysis (ICU, snowball); directories, of which only the streams on disk and in memory are modelled; the SSE and AVX packing routines (the simdcomp library), for which \<open>block_packer\<close> states what
  is needed. Of sparse bitmaps, the code for big-endian machines and for aligned memory, which is never chosen.
\<close>

section \<open>Boolean queries over bit sets\<close>

interpretation bitset_and: doc_iterator "conj_ops bi_ops" "conj_docs bi_docs" "conj_invar bi_ops bi_docs bi_invar"
  by (rule doc_iterator.conj_iterator [OF bitset_it.doc_iterator_axioms])

interpretation bitset_or: doc_iterator "bd_ops bi_ops" "bd_docs bi_docs" "bd_invar bi_ops bi_docs bi_invar"
  by (rule doc_iterator.bd_iterator [OF bitset_it.doc_iterator_axioms])

interpretation bitset_query: exclusion_providers
  "conj_ops bi_ops" "conj_docs bi_docs" "conj_invar bi_ops bi_docs bi_invar"
  "bd_ops bi_ops" "bd_docs bi_docs" "bd_invar bi_ops bi_docs bi_invar"
  by (simp add: exclusion_providers_def bitset_and.doc_iterator_axioms bitset_or.doc_iterator_axioms)

text \<open>The iterator tree of \<open>(a1 AND ... AND an) AND NOT (b OR c)\<close> over document sets given as bit sets.\<close>

definition query_tree ::
  "u64 list \<Rightarrow> u64 list list \<Rightarrow> u64 list \<Rightarrow> u64 list \<Rightarrow>
   (bitset_it conjunction, bitset_it basic_disjunction) exclusion" where
  "query_tree a as b c =
     \<lparr>excl_incl = \<lparr>conj_front = bi_make a, conj_tail = map bi_make as\<rparr>,
      excl_excl = \<lparr>bd_lhs = bi_make b, bd_rhs = bi_make c, bd_doc = doc_invalid\<rparr>\<rparr>"

definition query_ops :: "(bitset_it conjunction, bitset_it basic_disjunction) exclusion doc_ops" where
  "query_ops = exclusion_ops (conj_ops bi_ops) (bd_ops bi_ops)"

text \<open>
  C5: evaluating the tree for \<open>(a AND as) AND NOT (b OR c)\<close> over non-empty bit sets
  yields, in increasing order, exactly the documents that every conjunct has and neither excluded
  set has. The iterators used are the ones of the library: words, conjunction, disjunction, exclusion.
\<close>

theorem query_correct:
  assumes "\<forall>ws\<in>set (a # b # c # as). bi_bounds ws \<and> words_set ws \<noteq> {}"
    and "card ((\<Inter>ws\<in>set (a # as). words_set ws) - (words_set b \<union> words_set c)) < n"
  shows "drain n query_ops (query_tree a as b c) =
    Some (sorted_list_of_set ((\<Inter>ws\<in>set (a # as). words_set ws) - (words_set b \<union> words_set c)))"
proof -
  let ?i = "\<lparr>conj_front = bi_make a, conj_tail = map bi_make as\<rparr>"
  let ?e = "\<lparr>bd_lhs = bi_make b, bd_rhs = bi_make c, bd_doc = doc_invalid\<rparr>"
  have mk: "bi_invar (bi_make ws)" "bi_docs (bi_make ws) = words_set ws" "value_of bi_ops (bi_make ws) = doc_invalid"
    if "ws \<in> set (a # b # c # as)" for ws
    using that assms(1) bi_make_invar [of ws] bi_make_value [of ws] by blast+
  have i: "conj_invar bi_ops bi_docs bi_invar ?i" "conj_docs bi_docs ?i = (\<Inter>ws\<in>set (a # as). words_set ws)"
    "value_of (conj_ops bi_ops) ?i = doc_invalid"
    using mk by (auto simp: conj_invar_def conj_docs_def conj_value_def conj_ops_def)
  have e: "bd_invar bi_ops bi_docs bi_invar ?e" "bd_docs bi_docs ?e = words_set b \<union> words_set c"
    "value_of (bd_ops bi_ops) ?e = doc_invalid"
    using mk by (auto simp: bd_simps tracks_def)
  have "doc_set (bd_docs bi_docs ?e)" "doc_set (conj_docs bi_docs ?i)"
    using bitset_or.docs_set [OF e(1)] bitset_and.docs_set [OF i(1)] .
  then have x: "exclusion_invar (conj_ops bi_ops) (conj_docs bi_docs) (conj_invar bi_ops bi_docs bi_invar)
      (bd_ops bi_ops) (bd_docs bi_docs) (bd_invar bi_ops bi_docs bi_invar) (query_tree a as b c)"
    and all: "{d \<in> exclusion_docs (conj_docs bi_docs) (bd_docs bi_docs) (query_tree a as b c).
        value_of query_ops (query_tree a as b c) < d} =
      (\<Inter>ws\<in>set (a # as). words_set ws) - (words_set b \<union> words_set c)"
    using i e unfolding exclusion_invar_def query_tree_def query_ops_def exclusion_ops_def exclusion_docs_def
      exclusion_value_def doc_set_def by (auto simp: tracks_def doc_limits doc_min_def doc_invalid_def)
  show ?thesis
    using iterator_drain [OF bitset_query.exclusion_iterator x, of n] assms(2)
    unfolding query_ops_def [symmetric] all by blast
qed

text \<open>The tree for \<open>({3, 5, 128, 130} AND {5, 128}) AND NOT ({3} OR {128})\<close>.\<close>

theorem query_correct_witness: "drain 3 query_ops (query_tree [40, 0, 5] [[32, 0, 1]] [8] [0, 0, 1]) = Some [5]"
proof -
  have w: "words_set [40, 0, 5] = {3, 5, 128, 130}" "words_set [32, 0, 1] = {5, 128}"
    "words_set [8] = {3}" "words_set [0, 0, 1] = {128}"
    unfolding words_set_code by code_simp+
  have "{3, 5, 128, 130} \<inter> {5, 128} - ({3} \<union> {128}) = {5 :: nat}" by auto
  then show ?thesis
    using query_correct [of "[40, 0, 5]" "[8]" "[0, 0, 1]" "[[32, 0, 1]]" 3]
    by (simp add: bi_bounds_def w)
qed

section \<open>An index file from writing to reading\<close>

lemma footer_body_split:
  "take (length (body @ footer_bytes crc_ext body) - 8) (body @ footer_bytes crc_ext body) =
     body @ write_u32 kFooterMagic @ write_u32 0"
  by (simp add: footer_bytes_def Let_def write_u32_def write_u64_def)

text \<open>Reading back a frame, whatever the buffer boundaries are.\<close>

lemma frame_read_back:
  assumes src: "file_source fi stream rest fresh crc_ext"
    and st: "stream f s" "rest s = f" "f = header_bytes format ver @ payload @ footer_bytes crc_ext (header_bytes format ver @ payload)"
    and par: "length format < 2 ^ 32" "lo \<le> sint ver" "sint ver \<le> hi"
  shows "\<exists>i1 i2 c i3 i4. check_header fi format lo hi s = Inr (ver, i1) \<and>
    in_bytes (fr_io fi) (length payload) i1 = Some (payload, i2) \<and>
    format_checksum fi i2 = Inr (c, i3) \<and> check_footer fi c i3 = Inr (c, i4) \<and> rest i4 = []"
proof -
  let ?b = "header_bytes format ver @ payload"
  let ?c = "ucast (crc_ext 0 (?b @ write_u32 kFooterMagic @ write_u32 0)) :: u64"
  have f: "f = ?b @ footer_bytes crc_ext ?b" using st(3) by simp
  have rd: "index_reader (fr_io fi) stream rest" using src by (rule file_source.axioms)
  obtain i1 where i1: "check_header fi format lo hi s = Inr (ver, i1)" "stream f i1" "rest i1 = payload @ footer_bytes crc_ext ?b"
    using file_source.check_header_at [OF src st(1), of format ver _ format lo hi] st(2,3) par
      length_header_bytes [OF par(1), of ver] by auto
  obtain i2 where i2: "in_bytes (fr_io fi) (length payload) i1 = Some (payload, i2)" "stream f i2" "rest i2 = footer_bytes crc_ext ?b"
    using index_reader.bytes_at [OF rd i1(2,3)] by blast
  have "in_pointer (fr_io fi) i2 + length (rest i2) = length f" using index_reader.pointer_law [OF rd i2(2)] by auto
  then have "in_pointer (fr_io fi) i2 \<noteq> 0" "8 \<le> length f"
    using length_footer_bytes [of crc_ext ?b] i2(3) f by (auto simp: header_bytes_def write_u32_def kFooterLen_def)
  then obtain i3 where i3: "format_checksum fi i2 = Inr (?c, i3)" "stream f i3" "rest i3 = rest i2"
    using file_source.format_checksum_law [OF src i2(2)] footer_body_split [of ?b crc_ext] f by auto
  from file_source.check_footer_at [OF src i3(2), of ?b ?c] i3 i2 i1 show ?thesis by auto
qed



section \<open>A query over the posting lists of two terms\<close>


text \<open>The terms with the documents 2, 5, 8 and 5, 9.\<close>

definition two_lists :: "(u32 \<times> u32) list \<times> (u32 \<times> u32) list" where
  "two_lists = ([(2, 0), (5, 0), (8, 0)], [(5, 0), (9, 0)])"

definition two_lists_writer :: "(memory_output, memory_output) postings_writer" where
  "two_lists_writer = pw_begin_field False
     (pw_prepare (mo_stream (\<lambda>_. 0)) memory_output_new [0] 9 (pw_new (format_traits 4) memory_output_new))"


end
